(* ===== verification/Prelude.thy ===== *)
theory Prelude
  imports Main "HOL-Library.Word"
begin

text \<open>
  Shared vocabulary of the MiniDB development: machine-integer type synonyms, the lemma
  collections the component proofs draw on, and generic facts about byte buffers
  (\<open>peek\<close> and \<open>poke\<close>, the model of \<open>memcpy\<close> out of and into a
  fixed-size buffer), words and lists.
\<close>

type_synonym byte = "8 word"
type_synonym u16 = "16 word"
type_synonym u32 = "32 word"
type_synonym u64 = "64 word"

named_theorems layout "reads over writes of a byte buffer"
named_theorems preserves "operations keep the invariant of their component"
named_theorems refines "operations implement their abstract counterpart"

section \<open>Byte buffers\<close>

text \<open>
  \<open>peek off n buf\<close> is the range of \<open>n\<close> bytes that starts at \<open>off\<close>;
  \<open>poke off bs buf\<close> overwrites the bytes from \<open>off\<close> on with \<open>bs\<close>.
  A buffer never changes its length: the part of a write that would fall behind the end is
  dropped. The components prove that on well-formed states no access reaches that far.
\<close>

definition peek :: "nat \<Rightarrow> nat \<Rightarrow> 'a list \<Rightarrow> 'a list" where
  "peek off n buf = take n (drop off buf)"

definition poke :: "nat \<Rightarrow> 'a list \<Rightarrow> 'a list \<Rightarrow> 'a list" where
  "poke off bs buf =
     take off buf @ take (length buf - off) bs @ drop (off + length bs) buf"

lemma length_poke [simp]: "length (poke off bs buf) = length buf"
  by (simp add: poke_def)

lemma length_peek [simp]: "length (peek off n buf) = min n (length buf - off)"
  by (simp add: peek_def min.commute)

lemma nth_peek: "i < n \<Longrightarrow> off + i < length buf \<Longrightarrow> peek off n buf ! i = buf ! (off + i)"
  by (simp add: peek_def)

lemma nth_poke:
  assumes "i < length buf"
  shows "poke off bs buf ! i =
    (if off \<le> i \<and> i < off + length bs then bs ! (i - off) else buf ! i)"
  using assms by (auto simp: poke_def nth_append min_def)

lemma peek_poke_same [layout]:
  assumes "off + length bs \<le> length buf" and "n = length bs"
  shows "peek off n (poke off bs buf) = bs"
  using assms by (auto intro!: nth_equalityI simp: nth_peek nth_poke)

lemma peek_poke_disjoint [layout]:
  assumes "off + n \<le> off' \<or> off' + length bs \<le> off"
  shows "peek off n (poke off' bs buf) = peek off n buf"
  using assms by (auto intro!: nth_equalityI simp: nth_peek nth_poke)

lemma peek_poke_prefix:
  assumes "off + length bs \<le> length buf" and "n \<le> length bs"
  shows "peek off n (poke off bs buf) = take n bs"
  using assms by (auto intro!: nth_equalityI simp: nth_peek nth_poke)

lemma peek_full: "length buf = n \<Longrightarrow> peek 0 n buf = buf"
  by (simp add: peek_def)

lemma peek_0 [simp]: "peek off 0 buf = []"
  by (simp add: peek_def)

lemma peek_append1: "off + n \<le> length xs \<Longrightarrow> peek off n (xs @ ys) = peek off n xs"
  by (simp add: peek_def)

lemma peek_append2: "length xs \<le> off \<Longrightarrow> peek off n (xs @ ys) = peek (off - length xs) n ys"
  by (simp add: peek_def)

section \<open>Words\<close>

lemma unat_u8_less [simp]: "unat (b :: byte) < 256"
  by (rule order.strict_trans2 [OF unsigned_less]) simp

lemma unat_u16_less [simp]: "unat (x :: u16) < 65536"
  by (rule order.strict_trans2 [OF unsigned_less]) simp

lemma unat_u16_le [simp]: "unat (x :: u16) \<le> 65535"
  using unat_u16_less [of x] by linarith

lemma unat_word_of_nat_u16: "n < 65536 \<Longrightarrow> unat (word_of_nat n :: u16) = n"
  by (simp add: unat_of_nat)

lemma word_eq_iff_unat: "x = y \<longleftrightarrow> unat x = unat y"
  by (rule word_unat_eq_iff)

section \<open>Lists\<close>

lemma map_nth_upt [simp]: "map (\<lambda>i. xs ! i) [0..<length xs] = xs"
  by (rule map_nth)

lemma distinct_map_list_update_eq:
  "i < length xs \<Longrightarrow> xs ! i = x \<Longrightarrow> xs[i := x] = xs"
  by auto

lemma find_map: "find P (map f xs) = map_option f (find (P \<circ> f) xs)"
  by (induction xs) auto

lemma set_list_update_subset: "set (xs[i := x]) \<subseteq> insert x (set xs)"
  by (rule set_update_subset_insert)

text \<open>Dropping and rewriting the entries of an association list with distinct keys.\<close>

definition map_entries :: "('k \<Rightarrow> 'v \<Rightarrow> 'w option) \<Rightarrow> ('k \<times> 'v) list \<Rightarrow> ('k \<times> 'w) list" where
  "map_entries g xs = List.map_filter (\<lambda>(k, v). map_option (Pair k) (g k v)) xs"

lemma map_entries_simps [simp]:
  "map_entries g [] = []"
  "map_entries g ((k, v) # xs) =
     (case g k v of None \<Rightarrow> map_entries g xs | Some w \<Rightarrow> (k, w) # map_entries g xs)"
  by (simp_all add: map_entries_def List.map_filter_simps split: option.splits)

lemma map_entries_keys: "set (map fst (map_entries g xs)) \<subseteq> set (map fst xs)"
proof (induction xs)
  case (Cons x xs)
  then show ?case by (cases x) (auto split: option.splits)
qed simp

lemma distinct_map_entries: "distinct (map fst xs) \<Longrightarrow> distinct (map fst (map_entries g xs))"
proof (induction xs)
  case (Cons x xs)
  then show ?case
    using map_entries_keys [of g xs] by (cases x) (auto split: option.splits)
qed simp

lemma map_of_map_entries:
  "distinct (map fst xs) \<Longrightarrow> map_of (map_entries g xs) k = Option.bind (map_of xs k) (g k)"
proof (induction xs)
  case (Cons x xs)
  obtain j v where x: "x = (j, v)" by fastforce
  have "map_of xs j = None" using Cons.prems x by (simp add: map_of_eq_None_iff)
  then show ?case using Cons x by (auto split: option.splits)
qed simp

end
