(* ===== verification/Status.thy ===== *)
theory Status
  imports Prelude
begin

text \<open>
  The error-handling vocabulary of \<open>src/utilities/status.hpp\<close>. A \<open>Status\<close> is
  a code and a message. \<open>Result\<close> is a sum: \<open>Inl\<close> carries the status of a
  failed call, \<open>Inr\<close> the value of a successful one. The C++ \<open>Result\<close> never
  holds an OK status without a value, because every \<open>return status\<close> in the source is
  guarded by \<open>!status.ok()\<close> or builds an error status.
\<close>

datatype Code =
    kOk
  | kNotFound
  | kInvalidArgument
  | kOutOfSpace
  | kIOError
  | kCorruption
  | kAlreadyExists
  | kConflict

record Status =
  status_code :: Code
  status_message :: string

type_synonym 'a Result = "Status + 'a"

definition Status_OK :: Status where
  "Status_OK = \<lparr>status_code = kOk, status_message = []\<rparr>"

definition Status_NotFound :: "string \<Rightarrow> Status" where
  "Status_NotFound msg = \<lparr>status_code = kNotFound, status_message = msg\<rparr>"

definition Status_InvalidArgument :: "string \<Rightarrow> Status" where
  "Status_InvalidArgument msg = \<lparr>status_code = kInvalidArgument, status_message = msg\<rparr>"

definition Status_OutOfSpace :: "string \<Rightarrow> Status" where
  "Status_OutOfSpace msg = \<lparr>status_code = kOutOfSpace, status_message = msg\<rparr>"

definition Status_IOError :: "string \<Rightarrow> Status" where
  "Status_IOError msg = \<lparr>status_code = kIOError, status_message = msg\<rparr>"

definition Status_Corruption :: "string \<Rightarrow> Status" where
  "Status_Corruption msg = \<lparr>status_code = kCorruption, status_message = msg\<rparr>"

definition Status_AlreadyExists :: "string \<Rightarrow> Status" where
  "Status_AlreadyExists msg = \<lparr>status_code = kAlreadyExists, status_message = msg\<rparr>"

definition Status_Conflict :: "string \<Rightarrow> Status" where
  "Status_Conflict msg = \<lparr>status_code = kConflict, status_message = msg\<rparr>"

definition Status_ok :: "Status \<Rightarrow> bool" where
  "Status_ok s \<longleftrightarrow> status_code s = kOk"

lemmas status_defs =
  Status_OK_def Status_NotFound_def Status_InvalidArgument_def Status_OutOfSpace_def
  Status_IOError_def Status_Corruption_def Status_AlreadyExists_def Status_Conflict_def

lemma Status_ok_simps [simp]:
  "Status_ok Status_OK"
  "\<not> Status_ok (Status_NotFound m)"
  "\<not> Status_ok (Status_InvalidArgument m)"
  "\<not> Status_ok (Status_OutOfSpace m)"
  "\<not> Status_ok (Status_IOError m)"
  "\<not> Status_ok (Status_Corruption m)"
  "\<not> Status_ok (Status_AlreadyExists m)"
  "\<not> Status_ok (Status_Conflict m)"
  by (simp_all add: Status_ok_def status_defs)

text \<open>The chaining of fallible calls: an error status is returned unchanged.\<close>

definition bind_result :: "'a Result \<Rightarrow> ('a \<Rightarrow> 'b Result) \<Rightarrow> 'b Result" where
  "bind_result r f = (case r of Inl e \<Rightarrow> Inl e | Inr x \<Rightarrow> f x)"

lemma bind_result_simps [simp]:
  "bind_result (Inl e) f = Inl e"
  "bind_result (Inr x) f = f x"
  by (simp_all add: bind_result_def)

lemma bind_result_Inr_iff:
  "bind_result r f = Inr y \<longleftrightarrow> (\<exists>x. r = Inr x \<and> f x = Inr y)"
  by (cases r) auto

end
