(* ===== verification/Bytes.thy ===== *)
theory Bytes
  imports Status
begin

text \<open>
  The fixed-width codec of \<open>src/utilities/bytes.hpp\<close> and the constants of
  \<open>src/utilities/config.hpp\<close> and \<open>src/storage/page.hpp\<close>. \<open>WriteFixed\<close>
  and \<open>ReadFixed\<close> copy the object representation of an integer; the model fixes the
  little-endian representation of the x86-64 and AArch64 targets the build supports. Signed
  integers are two's complement words, so \<open>int32_t\<close> is \<open>32 word\<close>.
\<close>

definition kPageSize :: nat where
  "kPageSize = 4096"

definition kDefaultBufferPoolSize :: nat where
  "kDefaultBufferPoolSize = 64"

type_synonym page_id_t = "32 word"
type_synonym slot_id_t = "16 word"

definition kInvalidPageId :: page_id_t where
  "kInvalidPageId = -1"

definition kHeaderPageId :: page_id_t where
  "kHeaderPageId = 0"

definition kFirstDataPageId :: page_id_t where
  "kFirstDataPageId = 1"

type_synonym Page = "byte list"

definition Page_Reset :: Page where
  "Page_Reset = replicate kPageSize 0"

lemma length_Page_Reset [simp]: "length Page_Reset = kPageSize"
  by (simp add: Page_Reset_def)

section \<open>Little-endian numbers\<close>

fun le_bytes :: "nat \<Rightarrow> nat \<Rightarrow> byte list" where
  "le_bytes 0 k = []"
| "le_bytes (Suc n) k = word_of_nat k # le_bytes n (k div 256)"

fun le_nat :: "byte list \<Rightarrow> nat" where
  "le_nat [] = 0"
| "le_nat (b # bs) = unat b + 256 * le_nat bs"

lemma length_le_bytes [simp]: "length (le_bytes n k) = n"
  by (induction n arbitrary: k) auto

lemma le_nat_le_bytes: "le_nat (le_bytes n k) = k mod 256 ^ n"
proof (induction n arbitrary: k)
  case 0
  then show ?case by simp
next
  case (Suc n)
  have "le_nat (le_bytes (Suc n) k) = k mod 256 + 256 * (k div 256 mod 256 ^ n)"
    by (simp add: Suc.IH unat_of_nat)
  also have "\<dots> = k mod (256 * 256 ^ n)"
    by (simp add: mod_mult2_eq)
  finally show ?case by simp
qed

lemma le_nat_less: "le_nat bs < 256 ^ length bs"
proof (induction bs)
  case Nil
  then show ?case by simp
next
  case (Cons b bs)
  have "unat b + 256 * le_nat bs < 256 * (le_nat bs + 1)"
    using unat_u8_less [of b] by simp
  also have "\<dots> \<le> 256 * 256 ^ length bs"
    using Cons.IH by simp
  finally show ?case by simp
qed

lemma le_bytes_le_nat: "length bs = n \<Longrightarrow> le_bytes n (le_nat bs) = bs"
proof (induction bs arbitrary: n)
  case Nil
  then show ?case by simp
next
  case (Cons b bs)
  have "unat (word_of_nat (unat b + 256 * le_nat bs) :: byte) = unat b"
    by (simp only: unat_of_nat) simp
  then have "(word_of_nat (unat b + 256 * le_nat bs) :: byte) = b"
    by (simp only: word_eq_iff_unat)
  moreover have "(unat b + 256 * le_nat bs) div 256 = le_nat bs"
    by simp
  ultimately show ?case using Cons by auto
qed

lemma byte_power_div: "8 dvd n \<Longrightarrow> (256 :: nat) ^ (n div 8) = 2 ^ n"
  by (elim dvdE) (simp add: power_mult)

section \<open>WriteFixed and ReadFixed\<close>

text \<open>
  \<open>WriteFixed w\<close> is the byte sequence \<open>memcpy\<close> stores for the value \<open>w\<close>;
  the number of bytes is the width of its type.
\<close>

definition WriteFixed :: "'a::len word \<Rightarrow> byte list" where
  "WriteFixed w = le_bytes (LENGTH('a) div 8) (unat w)"

definition ReadFixed :: "byte list \<Rightarrow> 'a::len word" where
  "ReadFixed bs = word_of_nat (le_nat (take (LENGTH('a) div 8) bs))"

lemma length_WriteFixed [simp]: "length (WriteFixed (w :: 'a::len word)) = LENGTH('a) div 8"
  by (simp add: WriteFixed_def)

lemma ReadFixed_WriteFixed:
  assumes "8 dvd LENGTH('a::len)"
  shows "ReadFixed (WriteFixed (w :: 'a word) @ rest) = w"
proof -
  have "unat w mod 256 ^ (LENGTH('a) div 8) = unat w"
    using assms by (simp add: byte_power_div)
  then show ?thesis
    by (simp add: ReadFixed_def WriteFixed_def le_nat_le_bytes)
qed

lemma ReadFixed_WriteFixed_u16 [simp]: "ReadFixed (WriteFixed (w :: u16)) = w"
  using ReadFixed_WriteFixed [of w "[]"] by simp

lemma ReadFixed_WriteFixed_u32 [simp]: "ReadFixed (WriteFixed (w :: u32)) = w"
  using ReadFixed_WriteFixed [of w "[]"] by simp

lemma ReadFixed_WriteFixed_u64 [simp]: "ReadFixed (WriteFixed (w :: u64)) = w"
  using ReadFixed_WriteFixed [of w "[]"] by simp

lemma WriteFixed_ReadFixed:
  assumes "8 dvd LENGTH('a::len)" and "length bs = LENGTH('a) div 8"
  shows "WriteFixed (ReadFixed bs :: 'a word) = bs"
proof -
  have "le_nat bs < 2 ^ LENGTH('a)"
    using le_nat_less [of bs] assms by (simp add: byte_power_div)
  then show ?thesis
    using assms(2) by (simp add: WriteFixed_def ReadFixed_def unat_of_nat le_bytes_le_nat)
qed

text \<open>Reading an integer back out of a buffer, at an offset.\<close>

definition read_at :: "nat \<Rightarrow> byte list \<Rightarrow> 'a::len word" where
  "read_at off buf = ReadFixed (peek off (LENGTH('a) div 8) buf)"

definition write_at :: "nat \<Rightarrow> 'a::len word \<Rightarrow> byte list \<Rightarrow> byte list" where
  "write_at off w buf = poke off (WriteFixed w) buf"

lemma length_write_at [simp]: "length (write_at off w buf) = length buf"
  by (simp add: write_at_def)

lemma read_write_same [layout]:
  "off + 2 \<le> length buf \<Longrightarrow> read_at off (write_at off (w :: u16) buf) = w"
  "off + 4 \<le> length buf \<Longrightarrow> read_at off (write_at off (v :: u32) buf) = v"
  "off + 8 \<le> length buf \<Longrightarrow> read_at off (write_at off (x :: u64) buf) = x"
  by (simp_all add: read_at_def write_at_def peek_poke_same)

lemma read_write_disjoint [layout]:
  assumes "off + LENGTH('b) div 8 \<le> off' \<or> off' + LENGTH('a) div 8 \<le> off"
  shows "read_at off (write_at off' (w :: 'a::len word) buf) = (read_at off buf :: 'b::len word)"
  using assms by (simp add: read_at_def write_at_def peek_poke_disjoint)

lemma peek_write_disjoint [layout]:
  assumes "off + n \<le> off' \<or> off' + LENGTH('a) div 8 \<le> off"
  shows "peek off n (write_at off' (w :: 'a::len word) buf) = peek off n buf"
  using assms by (simp add: write_at_def peek_poke_disjoint)

lemma read_poke_disjoint [layout]:
  assumes "off + LENGTH('b) div 8 \<le> off' \<or> off' + length bs \<le> off"
  shows "read_at off (poke off' bs buf) = (read_at off buf :: 'b::len word)"
  using assms by (simp add: read_at_def peek_poke_disjoint)

section \<open>Strings as bytes\<close>

definition bytes_of_string :: "string \<Rightarrow> byte list" where
  "bytes_of_string s = map (\<lambda>c. word_of_nat (of_char c)) s"

definition string_of_bytes :: "byte list \<Rightarrow> string" where
  "string_of_bytes bs = map (\<lambda>b. char_of (unat b)) bs"

lemma length_bytes_of_string [simp]: "length (bytes_of_string s) = length s"
  by (simp add: bytes_of_string_def)

lemma string_of_bytes_of_string [simp]: "string_of_bytes (bytes_of_string s) = s"
  by (induction s) (simp_all add: bytes_of_string_def string_of_bytes_def unat_of_nat)

end
