(* ===== verification/Page_Manager.thy ===== *)
theory Page_Manager
  imports Bytes
begin

text \<open>
  The page manager of \<open>src/storage/page_manager.cpp\<close>: a data file of fixed-size
  pages behind a \<open>std::fstream\<close>, with the number of pages and the next page id kept in
  page 0. The stream is modelled with its sticky state bits, because the code only resets them
  at the end of a successful \<open>ReadPage\<close>; the outcome of the device is a schedule of
  faults, one entry for every write. A read fails at the end of the file or on a failed stream only; that the
  device fails in a read or in a \<open>flush\<close> is not modelled.
\<close>

section \<open>The file stream\<close>

text \<open>
  \<open>fs_fail\<close> stands for \<open>failbit\<close> or \<open>badbit\<close>. An entry \<open>Some k\<close>
  of the schedule makes the write fail after \<open>k\<close> bytes, \<open>None\<close> lets it succeed;
  an exhausted schedule means that the device works from now on. \<open>fs_access\<close> is what the process may do
  with the path.
\<close>

datatype file_access = ReadWrite | ReadOnly | WriteOnly | NoAccess

definition may_read :: "file_access \<Rightarrow> bool" where
  "may_read access \<longleftrightarrow> access = ReadWrite \<or> access = ReadOnly"

lemma may_read_ReadWrite [simp]: "may_read ReadWrite"
  by (simp add: may_read_def)

record fstream =
  fs_bytes :: "byte list"
  fs_open :: bool
  fs_fail :: bool
  fs_eof :: bool
  fs_pos :: nat
  fs_faults :: "nat option list"
  fs_access :: file_access

definition fs_good :: "fstream \<Rightarrow> bool" where
  "fs_good f \<longleftrightarrow> \<not> fs_fail f \<and> \<not> fs_eof f"

text \<open>\<open>seekg\<close> clears \<open>eofbit\<close> first; a failed stream is not repositioned.\<close>

definition fs_seekp :: "int \<Rightarrow> fstream \<Rightarrow> fstream" where
  "fs_seekp off f =
     (if fs_fail f then f
      else if off < 0 then f\<lparr>fs_fail := True\<rparr>
      else f\<lparr>fs_pos := nat off\<rparr>)"

definition fs_seekg :: "int \<Rightarrow> fstream \<Rightarrow> fstream" where
  "fs_seekg off f = fs_seekp off (f\<lparr>fs_eof := False\<rparr>)"

text \<open>
  A read on a stream that is not good only sets \<open>failbit\<close>; a short read stores what there
  is and sets \<open>failbit\<close> and \<open>eofbit\<close>.
\<close>

definition fs_read :: "byte list \<Rightarrow> fstream \<Rightarrow> byte list \<times> fstream" where
  "fs_read buf f =
     (if \<not> fs_good f then (buf, f\<lparr>fs_fail := True\<rparr>)
      else let got = peek (fs_pos f) (length buf) (fs_bytes f);
               f' = f\<lparr>fs_pos := fs_pos f + length got\<rparr>
           in (poke 0 got buf,
               if length got < length buf then f'\<lparr>fs_fail := True, fs_eof := True\<rparr> else f'))"

text \<open>Writing behind the end of a file fills the gap with zero bytes.\<close>

definition fs_put :: "nat \<Rightarrow> byte list \<Rightarrow> byte list \<Rightarrow> byte list" where
  "fs_put pos bs buf = poke pos bs (buf @ replicate (pos + length bs - length buf) 0)"

definition fs_write :: "byte list \<Rightarrow> fstream \<Rightarrow> fstream" where
  "fs_write bs f =
     (if \<not> fs_good f then f\<lparr>fs_fail := True\<rparr>
      else case fs_faults f of
          Some k # rest \<Rightarrow>
            f\<lparr>fs_bytes := fs_put (fs_pos f) (take k bs) (fs_bytes f), fs_fail := True, fs_faults := rest\<rparr>
        | faults \<Rightarrow>
            f\<lparr>fs_bytes := fs_put (fs_pos f) bs (fs_bytes f),
              fs_pos := fs_pos f + length bs, fs_faults := tl faults\<rparr>)"

definition fs_clear :: "fstream \<Rightarrow> fstream" where
  "fs_clear f = f\<lparr>fs_fail := False, fs_eof := False\<rparr>"

lemma length_fs_put [simp]: "length (fs_put pos bs buf) = max (length buf) (pos + length bs)"
  by (simp add: fs_put_def)

lemma peek_fs_put_same: "n = length bs \<Longrightarrow> peek pos n (fs_put pos bs buf) = bs"
  by (simp add: fs_put_def peek_poke_same)

lemma peek_fs_put_disjoint:
  assumes "off + n \<le> length buf" and "off + n \<le> pos \<or> pos + length bs \<le> off"
  shows "peek off n (fs_put pos bs buf) = peek off n buf"
  using assms by (simp add: fs_put_def peek_poke_disjoint peek_append1)

lemma length_fs_read [simp]: "length (fst (fs_read buf f)) = length buf"
  by (simp add: fs_read_def Let_def)

lemma fs_read_length: "fs_read buf f = (buf', f') \<Longrightarrow> length buf' = length buf"
  using length_fs_read [of buf f] by simp

section \<open>The page manager\<close>

record PageManager =
  pm_file :: fstream
  pm_next_page_id :: page_id_t
  pm_page_count :: nat

definition EncodeHeaderPage :: "page_id_t \<Rightarrow> nat \<Rightarrow> Page" where
  "EncodeHeaderPage next_page_id page_count =
     write_at 4 (word_of_nat page_count :: u32) (write_at 0 next_page_id Page_Reset)"

lemma length_EncodeHeaderPage [simp]: "length (EncodeHeaderPage pid n) = kPageSize"
  by (simp add: EncodeHeaderPage_def)

definition DecodeHeaderPage :: "Page \<Rightarrow> page_id_t \<times> nat" where
  "DecodeHeaderPage page = (read_at 0 page, unat (read_at 4 page :: u32))"

definition OffsetOf :: "page_id_t \<Rightarrow> int" where
  "OffsetOf page_id = sint page_id * int kPageSize"

definition PageManager_ReadFileHeader :: "PageManager \<Rightarrow> PageManager" where
  "PageManager_ReadFileHeader pm =
     (let (header_page, f) = fs_read Page_Reset (fs_seekg (OffsetOf kHeaderPageId) (pm_file pm));
          (next, count) = DecodeHeaderPage header_page
      in pm\<lparr>pm_file := f, pm_next_page_id := next, pm_page_count := count\<rparr>)"

definition PageManager_WriteFileHeader :: "PageManager \<Rightarrow> PageManager" where
  "PageManager_WriteFileHeader pm =
     pm\<lparr>pm_file := fs_write (EncodeHeaderPage (pm_next_page_id pm) (pm_page_count pm))
                   (fs_seekp (OffsetOf kHeaderPageId) (pm_file pm))\<rparr>"

text \<open>
  The constructor. \<open>contents\<close> is what the path holds before the call (\<open>None\<close>: there is no such file) and
  \<open>access\<close> what the process may do with it. A stream that could not be opened for reading and writing has
  \<open>failbit\<close> set; the attempt to create the file empties one that may be written and not read.
\<close>

definition fs_attach :: "file_access \<Rightarrow> byte list \<Rightarrow> nat option list \<Rightarrow> fstream" where
  "fs_attach access contents faults =
     \<lparr>fs_bytes = contents, fs_open = (access = ReadWrite), fs_fail = (access \<noteq> ReadWrite), fs_eof = False,
      fs_pos = 0, fs_faults = faults, fs_access = access\<rparr>"

definition open_or_create :: "file_access \<Rightarrow> byte list option \<Rightarrow> nat option list \<Rightarrow> fstream" where
  "open_or_create access contents faults =
     fs_attach access (case contents of None \<Rightarrow> [] | Some bs \<Rightarrow> if access = WriteOnly then [] else bs) faults"

definition PageManager_open :: "file_access \<Rightarrow> byte list option \<Rightarrow> nat option list \<Rightarrow> PageManager" where
  "PageManager_open access contents faults =
     (if contents \<noteq> None
      then PageManager_ReadFileHeader
             \<lparr>pm_file = open_or_create access contents faults, pm_next_page_id = kFirstDataPageId, pm_page_count = 0\<rparr>
      else PageManager_WriteFileHeader
             \<lparr>pm_file = open_or_create access contents faults, pm_next_page_id = kFirstDataPageId, pm_page_count = 1\<rparr>)"

text \<open>The destructor; the result is what the file holds afterwards.\<close>

definition PageManager_close :: "PageManager \<Rightarrow> byte list" where
  "PageManager_close pm =
     (if fs_open (pm_file pm) then fs_bytes (pm_file (PageManager_WriteFileHeader pm))
      else fs_bytes (pm_file pm))"

definition PageManager_AllocatePage :: "PageManager \<Rightarrow> page_id_t Result \<times> PageManager" where
  "PageManager_AllocatePage pm =
     (let new_id = pm_next_page_id pm;
          pm1 = pm\<lparr>pm_next_page_id := pm_next_page_id pm + 1, pm_page_count := pm_page_count pm + 1\<rparr>;
          f = fs_write Page_Reset (fs_seekp (OffsetOf new_id) (pm_file pm1));
          pm2 = pm1\<lparr>pm_file := f\<rparr>
      in if \<not> fs_good f
         then (Inl (Status_IOError ''failed to extend data file for new page''), pm2)
         else (Inr new_id, PageManager_WriteFileHeader pm2))"

definition PageManager_in_range :: "PageManager \<Rightarrow> page_id_t \<Rightarrow> bool" where
  "PageManager_in_range pm page_id \<longleftrightarrow> \<not> (sint page_id < 0 \<or> pm_page_count pm \<le> unat page_id)"

definition PageManager_ReadPage :: "page_id_t \<Rightarrow> Page \<Rightarrow> PageManager \<Rightarrow> Status \<times> Page \<times> PageManager" where
  "PageManager_ReadPage page_id out pm =
     (if \<not> PageManager_in_range pm page_id
      then (Status_InvalidArgument ''ReadPage: page_id out of range'', out, pm)
      else let (out', f) = fs_read out (fs_seekg (OffsetOf page_id) (pm_file pm))
           in if \<not> fs_good f \<and> \<not> fs_eof f
              then (Status_IOError ''ReadPage: I/O error'', out', pm\<lparr>pm_file := f\<rparr>)
              else (Status_OK, out', pm\<lparr>pm_file := fs_clear f\<rparr>))"

definition PageManager_WritePage :: "page_id_t \<Rightarrow> Page \<Rightarrow> PageManager \<Rightarrow> Status \<times> PageManager" where
  "PageManager_WritePage page_id page pm =
     (if \<not> PageManager_in_range pm page_id
      then (Status_InvalidArgument ''WritePage: page_id out of range'', pm)
      else let f = fs_write page (fs_seekp (OffsetOf page_id) (pm_file pm))
           in (if \<not> fs_good f then Status_IOError ''WritePage: I/O error'' else Status_OK,
               pm\<lparr>pm_file := f\<rparr>))"

definition PageManager_PageCount :: "PageManager \<Rightarrow> nat" where
  "PageManager_PageCount pm = pm_page_count pm"

section \<open>Well-formed page managers\<close>

text \<open>
  \<open>pm_count_ok\<close> is the part of the invariant that holds whatever the device does;
  \<open>pm_wf\<close> adds that the stream is usable and that the file holds all its pages;
  \<open>pm_live\<close> that no further write fails. Page ids stay below \<open>2 ^ 31\<close>, the range
  of \<open>int32_t\<close>.
\<close>

definition pm_count_ok :: "PageManager \<Rightarrow> bool" where
  "pm_count_ok pm \<longleftrightarrow>
     unat (pm_next_page_id pm) = pm_page_count pm \<and> 1 \<le> pm_page_count pm \<and> pm_page_count pm < 2 ^ 31"

definition pm_wf :: "PageManager \<Rightarrow> bool" where
  "pm_wf pm \<longleftrightarrow> pm_count_ok pm \<and> fs_open (pm_file pm) \<and> fs_good (pm_file pm) \<and>
     kPageSize * pm_page_count pm \<le> length (fs_bytes (pm_file pm))"

definition pm_live :: "PageManager \<Rightarrow> bool" where
  "pm_live pm \<longleftrightarrow> pm_wf pm \<and> fs_faults (pm_file pm) = []"

text \<open>The data pages: all pages but the header page.\<close>

definition pm_valid :: "PageManager \<Rightarrow> page_id_t \<Rightarrow> bool" where
  "pm_valid pm pid \<longleftrightarrow> 0 < unat pid \<and> unat pid < pm_page_count pm"

definition pm_page :: "PageManager \<Rightarrow> page_id_t \<Rightarrow> Page" where
  "pm_page pm pid = peek (kPageSize * unat pid) kPageSize (fs_bytes (pm_file pm))"

lemma sint_unat: "unat (w :: u32) < 2 ^ 31 \<Longrightarrow> sint w = int (unat w)"
proof -
  assume "unat w < 2 ^ 31"
  then have "int (unat w) < int (2 ^ 31)" by (simp only: of_nat_less_iff)
  then have "uint w < 2 ^ 31" by simp
  then have "sint w = uint w"
    unfolding sint_uint by (intro signed_take_bit_int_eq_self) (simp_all add: order.trans [OF _ uint_ge_0])
  then show ?thesis by simp
qed

lemma OffsetOf_unat: "unat pid < 2 ^ 31 \<Longrightarrow> OffsetOf pid = int (kPageSize * unat pid)"
  by (simp add: OffsetOf_def sint_unat)

lemma OffsetOf_header [simp]: "OffsetOf kHeaderPageId = 0"
  by (simp add: OffsetOf_def kHeaderPageId_def)

lemma in_range_iff: "pm_count_ok pm \<Longrightarrow> PageManager_in_range pm pid \<longleftrightarrow> unat pid < pm_page_count pm"
  by (auto simp: PageManager_in_range_def pm_count_ok_def sint_unat)

lemma pm_valid_in_range: "pm_count_ok pm \<Longrightarrow> pm_valid pm pid \<Longrightarrow> PageManager_in_range pm pid"
  by (simp add: in_range_iff pm_valid_def)

lemma pm_valid_not_invalid: "pm_count_ok pm \<Longrightarrow> \<not> pm_valid pm kInvalidPageId"
  by (simp add: pm_valid_def pm_count_ok_def kInvalidPageId_def unsigned_minus_1_eq_mask mask_eq_exp_minus_1)

lemma page_bounds:
  assumes "kPageSize * n \<le> len" and "i < n"
  shows "kPageSize * i + kPageSize \<le> len"
proof -
  have "kPageSize * (i + 1) \<le> kPageSize * n" using assms(2) by (intro mult_le_mono2) simp
  with assms(1) show ?thesis by simp
qed

lemma page_disjoint:
  "i \<noteq> j \<Longrightarrow> kPageSize * i + kPageSize \<le> kPageSize * j \<or> kPageSize * j + kPageSize \<le> kPageSize * i"
  using page_bounds [of j _ i] page_bounds [of i _ j] by (metis linorder_neqE_nat order_refl)

section \<open>What a page operation does\<close>

lemma ReadPage_ok:
  assumes "pm_wf pm" and "unat pid < pm_page_count pm" and "length out = kPageSize"
  shows "\<exists>f. PageManager_ReadPage pid out pm = (Status_OK, pm_page pm pid, pm\<lparr>pm_file := f\<rparr>) \<and>
     fs_bytes f = fs_bytes (pm_file pm) \<and> fs_faults f = fs_faults (pm_file pm) \<and>
     fs_open f = fs_open (pm_file pm) \<and> fs_good f"
  using assms page_bounds [of "pm_page_count pm" "length (fs_bytes (pm_file pm))" "unat pid"]
  by (auto simp: PageManager_ReadPage_def in_range_iff pm_wf_def pm_count_ok_def fs_seekg_def
      fs_seekp_def fs_read_def fs_good_def OffsetOf_unat fs_clear_def pm_page_def Let_def
      poke_def nat_mult_distrib simp del: of_nat_mult)

lemma good_not_fail [simp]: "fs_good f \<Longrightarrow> \<not> fs_fail f"
  by (simp add: fs_good_def)

lemma fs_seekp_good:
  "fs_good f \<Longrightarrow> unat pid < 2 ^ 31 \<Longrightarrow>
     fs_seekp (OffsetOf pid) f = f\<lparr>fs_pos := kPageSize * unat pid\<rparr>"
  by (simp add: fs_seekp_def OffsetOf_unat del: of_nat_mult)

text \<open>A write on a good stream either stores everything or leaves the stream failed.\<close>

lemma fs_write_cases:
  assumes "fs_good f"
  obtains (stored) "fs_good (fs_write bs f)"
      and "fs_bytes (fs_write bs f) = fs_put (fs_pos f) bs (fs_bytes f)"
      and "fs_faults (fs_write bs f) = tl (fs_faults f)"
  | (failed) k rest where "fs_faults f = Some k # rest" and "fs_fail (fs_write bs f)"
proof (cases "fs_faults f")
  case Nil
  then show thesis using assms by (intro stored) (simp_all add: fs_write_def fs_good_def)
next
  case (Cons a rest)
  show thesis
  proof (cases a)
    case None
    then show thesis using assms Cons by (intro stored) (simp_all add: fs_write_def fs_good_def)
  next
    case (Some k)
    then show thesis using assms Cons by (intro failed) (simp_all add: fs_write_def)
  qed
qed

lemma fs_write_open [simp]: "fs_open (fs_write bs f) = fs_open f"
  by (auto simp: fs_write_def split: list.splits option.splits)

lemma fs_seekp_open [simp]: "fs_open (fs_seekp off f) = fs_open f"
  by (simp add: fs_seekp_def)

text \<open>
  When \<open>WritePage\<close> reports OK the page is on disk, every other page is as it was, and the
  page manager is well formed again; it can only report something else on a page in range when
  the device failed.
\<close>

lemma WritePage_cases:
  assumes wf: "pm_wf pm" and pid: "unat pid < pm_page_count pm" and len: "length page = kPageSize"
  obtains (stored) pm' where "PageManager_WritePage pid page pm = (Status_OK, pm')"
      and "pm_wf pm'" and "pm_page_count pm' = pm_page_count pm"
      and "pm_page pm' pid = page"
      and "\<And>q. unat q < pm_page_count pm \<Longrightarrow> q \<noteq> pid \<Longrightarrow> pm_page pm' q = pm_page pm q"
      and "fs_faults (pm_file pm') = tl (fs_faults (pm_file pm))"
  | (failed) e pm' where "PageManager_WritePage pid page pm = (e, pm')"
      and "status_code e = kIOError" and "fs_faults (pm_file pm) \<noteq> []"
      and "fs_fail (pm_file pm')" and "pm_page_count pm' = pm_page_count pm"
proof -
  have good: "fs_good (pm_file pm)" and cnt: "pm_count_ok pm" using wf by (simp_all add: pm_wf_def)
  have small: "unat pid < 2 ^ 31" using cnt pid by (simp add: pm_count_ok_def)
  let ?f = "(pm_file pm)\<lparr>fs_pos := kPageSize * unat pid\<rparr>"
  let ?pm = "pm\<lparr>pm_file := fs_write page ?f\<rparr>"
  have W: "PageManager_WritePage pid page pm =
      (if \<not> fs_good (fs_write page ?f) then Status_IOError ''WritePage: I/O error'' else Status_OK, ?pm)"
    using good cnt pid small by (simp add: PageManager_WritePage_def in_range_iff fs_seekp_good)
  have "fs_good ?f" using good by (simp add: fs_good_def)
  then show thesis
  proof (cases rule: fs_write_cases [where bs = page])
    case stored
    have "pm_page ?pm q = pm_page pm q" if "unat q < pm_page_count pm" "q \<noteq> pid" for q
    proof -
      have "unat q \<noteq> unat pid" using that(2) by (simp add: word_eq_iff_unat)
      from page_disjoint [OF this]
        page_bounds [of "pm_page_count pm" "length (fs_bytes (pm_file pm))" "unat q"] wf that(1)
      show ?thesis by (simp add: pm_page_def stored(2) peek_fs_put_disjoint len pm_wf_def)
    qed
    moreover have "pm_wf ?pm"
      using wf stored by (simp add: pm_wf_def pm_count_ok_def max.coboundedI1)
    ultimately show thesis
      using that(1) W stored by (simp add: pm_page_def peek_fs_put_same len)
  next
    case (failed k rest)
    then show thesis using that(2) W by (simp add: fs_good_def status_defs)
  qed
qed

text \<open>Allocation hands out the next page, blank, and leaves the pages in use alone.\<close>

lemma WriteFileHeader_cases:
  assumes wf: "pm_wf pm"
  obtains (stored) "pm_wf (PageManager_WriteFileHeader pm)"
      and "pm_page (PageManager_WriteFileHeader pm) 0 = EncodeHeaderPage (pm_next_page_id pm) (pm_page_count pm)"
      and "\<And>q. pm_valid pm q \<Longrightarrow> pm_page (PageManager_WriteFileHeader pm) q = pm_page pm q"
      and "fs_faults (pm_file (PageManager_WriteFileHeader pm)) = tl (fs_faults (pm_file pm))"
  | (failed) "fs_faults (pm_file pm) \<noteq> []" and "fs_fail (pm_file (PageManager_WriteFileHeader pm))"
proof -
  let ?page = "EncodeHeaderPage (pm_next_page_id pm) (pm_page_count pm)"
  have len: "length ?page = kPageSize" by simp
  have in0: "unat (0 :: page_id_t) < pm_page_count pm" using wf by (simp add: pm_wf_def pm_count_ok_def)
  have W: "PageManager_WriteFileHeader pm = snd (PageManager_WritePage 0 ?page pm)"
    using wf in0 by (simp add: PageManager_WriteFileHeader_def PageManager_WritePage_def Let_def
        in_range_iff pm_wf_def kHeaderPageId_def)
  from wf in0 len show thesis
  proof (cases rule: WritePage_cases)
    case (stored pm')
    have "pm_page pm' q = pm_page pm q" if "pm_valid pm q" for q
      using stored(5) [of q] that by (cases "q = 0") (auto simp: pm_valid_def)
    then show thesis using that(1) W stored by simp
  next
    case (failed e pm')
    then show thesis using that(2) W by simp
  qed
qed

lemma WriteFileHeader_counts [simp]:
  "pm_page_count (PageManager_WriteFileHeader pm) = pm_page_count pm"
  "pm_next_page_id (PageManager_WriteFileHeader pm) = pm_next_page_id pm"
  by (simp_all add: PageManager_WriteFileHeader_def)

text \<open>The counters do not depend on the device.\<close>

lemma WritePage_counts [simp]:
  "pm_page_count (snd (PageManager_WritePage pid page pm)) = pm_page_count pm"
  "pm_next_page_id (snd (PageManager_WritePage pid page pm)) = pm_next_page_id pm"
  by (simp_all add: PageManager_WritePage_def Let_def)

lemma ReadPage_counts:
  "PageManager_ReadPage pid out pm = (st, out', pm') \<Longrightarrow>
     pm_page_count pm' = pm_page_count pm \<and> pm_next_page_id pm' = pm_next_page_id pm \<and>
     length out' = length out \<and> (Status_ok st \<longrightarrow> PageManager_in_range pm pid)"
  by (auto simp: PageManager_ReadPage_def Let_def dest: fs_read_length split: if_splits prod.splits)

lemma AllocatePage_counts:
  "PageManager_AllocatePage pm = (r, pm') \<Longrightarrow>
     pm_page_count pm' = Suc (pm_page_count pm) \<and> pm_next_page_id pm' = pm_next_page_id pm + 1 \<and>
     (\<forall>id. r = Inr id \<longrightarrow> id = pm_next_page_id pm)"
  by (auto simp: PageManager_AllocatePage_def Let_def split: if_splits)

lemma unat_Suc_u32: "unat (w :: u32) < 2 ^ 31 \<Longrightarrow> unat (w + 1) = Suc (unat w)"
proof -
  assume "unat w < 2 ^ 31"
  moreover have "w + 1 = word_of_nat (Suc (unat w))" by simp
  ultimately show ?thesis by (simp only: unat_of_nat) simp
qed

lemma AllocatePage_count_ok:
  assumes "pm_count_ok pm" and "Suc (pm_page_count pm) < 2 ^ 31"
    and "PageManager_AllocatePage pm = (r, pm')"
  shows "pm_count_ok pm'"
  using assms(1,2) AllocatePage_counts [OF assms(3)] by (auto simp: pm_count_ok_def unat_Suc_u32)

section \<open>A page manager on a working device\<close>

lemma WritePage_live:
  assumes "pm_live pm" and "unat pid < pm_page_count pm" and "length page = kPageSize"
  obtains pm' where "PageManager_WritePage pid page pm = (Status_OK, pm')"
      and "pm_live pm'" and "pm_page_count pm' = pm_page_count pm"
      and "pm_page pm' pid = page"
      and "\<And>q. unat q < pm_page_count pm \<Longrightarrow> q \<noteq> pid \<Longrightarrow> pm_page pm' q = pm_page pm q"
proof -
  have wf: "pm_wf pm" and nf: "fs_faults (pm_file pm) = []" using assms(1) by (simp_all add: pm_live_def)
  from wf assms(2,3) show thesis
  proof (cases rule: WritePage_cases)
    case (stored pm')
    show thesis by (rule that [OF stored(1) _ stored(3,4,5)]) (simp_all add: pm_live_def stored nf)
  next
    case (failed e pm')
    with nf show thesis by simp
  qed
qed

lemma ReadPage_live:
  assumes "pm_live pm" and "unat pid < pm_page_count pm" and "length out = kPageSize"
  obtains pm' where "PageManager_ReadPage pid out pm = (Status_OK, pm_page pm pid, pm')"
      and "pm_live pm'" and "pm_page_count pm' = pm_page_count pm" and "pm_page pm' = pm_page pm"
  using ReadPage_ok [of pm pid out] assms
  by (fastforce simp: pm_live_def pm_wf_def pm_count_ok_def pm_page_def)

lemma AllocatePage_live:
  assumes live: "pm_live pm" and bound: "Suc (pm_page_count pm) < 2 ^ 31"
  obtains pm' where "PageManager_AllocatePage pm = (Inr (pm_next_page_id pm), pm')"
      and "pm_live pm'" and "pm_page_count pm' = Suc (pm_page_count pm)"
      and "pm_page pm' (pm_next_page_id pm) = Page_Reset"
      and "\<And>q. pm_valid pm q \<Longrightarrow> pm_page pm' q = pm_page pm q"
proof -
  let ?id = "pm_next_page_id pm"
  let ?pm1 = "pm\<lparr>pm_next_page_id := ?id + 1, pm_page_count := Suc (pm_page_count pm)\<rparr>"
  have cnt: "pm_count_ok pm" and good: "fs_good (pm_file pm)" and nf: "fs_faults (pm_file pm) = []"
    and len: "kPageSize * pm_page_count pm \<le> length (fs_bytes (pm_file pm))"
    using live by (simp_all add: pm_live_def pm_wf_def)
  have id: "unat ?id = pm_page_count pm" using cnt by (simp add: pm_count_ok_def)
  let ?g = "(pm_file pm)\<lparr>fs_pos := kPageSize * unat ?id\<rparr>"
  let ?f = "fs_write Page_Reset ?g"
  let ?pm2 = "?pm1\<lparr>pm_file := ?f\<rparr>"
  have f: "fs_good ?f" "fs_bytes ?f = fs_put (kPageSize * unat ?id) Page_Reset (fs_bytes (pm_file pm))"
    "fs_faults ?f = []"
    using good nf by (simp_all add: fs_write_def fs_good_def)
  have seek: "fs_seekp (OffsetOf ?id) (pm_file pm) = ?g"
    using fs_seekp_good [OF good, of ?id] bound id by simp
  have A: "PageManager_AllocatePage pm = (Inr ?id, PageManager_WriteFileHeader ?pm2)"
    using f(1) by (simp add: PageManager_AllocatePage_def Let_def seek)
  have wf2: "pm_wf ?pm2"
    using live bound cnt id f by (simp add: pm_wf_def pm_live_def pm_count_ok_def unat_Suc_u32)
  have new: "pm_page ?pm2 ?id = Page_Reset" by (simp add: pm_page_def f peek_fs_put_same)
  have old: "pm_page ?pm2 q = pm_page pm q" if "pm_valid pm q" for q
    using that page_disjoint [of "unat q" "unat ?id"] page_bounds [OF len, of "unat q"] id
    by (simp add: pm_page_def f [unfolded id] pm_valid_def peek_fs_put_disjoint)
  from wf2 show thesis
  proof (cases rule: WriteFileHeader_cases)
    case stored
    have "pm_valid ?pm2 ?id" using cnt id by (simp add: pm_valid_def pm_count_ok_def)
    moreover have "pm_valid ?pm2 q" if "pm_valid pm q" for q using that by (simp add: pm_valid_def)
    moreover have "pm_live (PageManager_WriteFileHeader ?pm2)"
      using stored f(3) by (simp add: pm_live_def)
    ultimately show thesis using that [OF A] stored(3) new old by simp
  next
    case failed
    with f(3) show thesis by simp
  qed
qed

section \<open>Opening, closing, failing\<close>

lemma Decode_EncodeHeaderPage:
  "n < 2 ^ 32 \<Longrightarrow> DecodeHeaderPage (EncodeHeaderPage pid n) = (pid, n)"
  by (simp add: DecodeHeaderPage_def EncodeHeaderPage_def layout kPageSize_def unat_of_nat)

lemma PageManager_open_new:
  "pm_live (PageManager_open ReadWrite None [])"
  "pm_page_count (PageManager_open ReadWrite None []) = 1"
  by (simp_all add: PageManager_open_def open_or_create_def PageManager_WriteFileHeader_def fs_attach_def pm_live_def
      pm_wf_def pm_count_ok_def kFirstDataPageId_def fs_seekp_def fs_write_def fs_good_def
      EncodeHeaderPage_def)

text \<open>
  A page manager closed on a working device and opened again has the same counters and the same
  data pages.
\<close>

lemma PageManager_reopen:
  assumes live: "pm_live pm"
  defines "pm' \<equiv> PageManager_open ReadWrite (Some (PageManager_close pm)) []"
  shows "pm_live pm'" and "pm_page_count pm' = pm_page_count pm"
    and "pm_next_page_id pm' = pm_next_page_id pm"
    and "\<And>q. pm_valid pm q \<Longrightarrow> pm_page pm' q = pm_page pm q"
proof -
  let ?w = "PageManager_WriteFileHeader pm"
  have wf: "pm_wf pm" and nf: "fs_faults (pm_file pm) = []" using live by (simp_all add: pm_live_def)
  from wf have w: "pm_wf ?w" "\<And>q. pm_valid pm q \<Longrightarrow> pm_page ?w q = pm_page pm q"
    and hdr: "pm_page ?w 0 = EncodeHeaderPage (pm_next_page_id pm) (pm_page_count pm)"
    by (cases rule: WriteFileHeader_cases; simp add: nf)+
  have cnt: "pm_count_ok pm" using wf by (simp add: pm_wf_def)
  have len: "kPageSize * pm_page_count pm \<le> length (fs_bytes (pm_file ?w))"
    using w(1) by (simp add: pm_wf_def)
  have len1: "kPageSize \<le> length (fs_bytes (pm_file ?w))"
    using page_bounds [OF len, of 0] cnt by (simp add: pm_count_ok_def)
  have closed: "PageManager_close pm = fs_bytes (pm_file ?w)"
    using wf by (simp add: PageManager_close_def pm_wf_def)
  have header: "take kPageSize (fs_bytes (pm_file ?w)) =
      EncodeHeaderPage (pm_next_page_id pm) (pm_page_count pm)"
    using hdr by (simp add: pm_page_def peek_def)
  have pm': "pm' = \<lparr>pm_file = (fs_attach ReadWrite (fs_bytes (pm_file ?w)) [])\<lparr>fs_pos := kPageSize\<rparr>,
      pm_next_page_id = pm_next_page_id pm, pm_page_count = pm_page_count pm\<rparr>"
    using cnt len1 header Decode_EncodeHeaderPage [of "pm_page_count pm" "pm_next_page_id pm"]
    by (simp add: pm'_def closed PageManager_open_def open_or_create_def PageManager_ReadFileHeader_def fs_attach_def
        fs_seekg_def fs_seekp_def fs_read_def fs_good_def peek_def poke_def pm_count_ok_def Let_def)
  show "pm_live pm'" using cnt len
    by (simp add: pm' pm_live_def pm_wf_def pm_count_ok_def fs_attach_def fs_good_def)
  show "pm_page_count pm' = pm_page_count pm" "pm_next_page_id pm' = pm_next_page_id pm"
    by (simp_all add: pm')
  show "pm_page pm' q = pm_page pm q" if "pm_valid pm q" for q
    using w(2) [OF that] by (simp add: pm' pm_page_def fs_attach_def)
qed

text \<open>
  A failed write is never forgotten: the stream stays failed, so every later access to a page
  reports an I/O error and the file no longer changes.
\<close>

lemma failed_stream:
  assumes "fs_fail f"
  shows "fs_seekp off f = f" and "fs_seekg off f = f\<lparr>fs_eof := False\<rparr>"
    and "fs_write bs f = f" and "fs_read bs f = (bs, f)" and "\<not> fs_good f"
  using assms by (simp_all add: fs_seekp_def fs_seekg_def fs_write_def fs_read_def fs_good_def)

lemma failed_stream_stays:
  assumes "fs_fail (pm_file pm)"
  shows "PageManager_in_range pm pid \<Longrightarrow> status_code (fst (PageManager_ReadPage pid out pm)) = kIOError"
    and "fs_fail (pm_file (snd (snd (PageManager_ReadPage pid out pm))))"
    and "fs_bytes (pm_file (snd (snd (PageManager_ReadPage pid out pm)))) = fs_bytes (pm_file pm)"
    and "PageManager_in_range pm pid \<Longrightarrow> status_code (fst (PageManager_WritePage pid page pm)) = kIOError"
    and "fs_fail (pm_file (snd (PageManager_WritePage pid page pm)))"
    and "fs_bytes (pm_file (snd (PageManager_WritePage pid page pm))) = fs_bytes (pm_file pm)"
    and "\<exists>e. fst (PageManager_AllocatePage pm) = Inl e \<and> status_code e = kIOError"
    and "fs_fail (pm_file (snd (PageManager_AllocatePage pm)))"
    and "fs_bytes (pm_file (snd (PageManager_AllocatePage pm))) = fs_bytes (pm_file pm)"
  using assms
  by (simp_all add: PageManager_ReadPage_def PageManager_WritePage_def PageManager_AllocatePage_def
      failed_stream Let_def Status_IOError_def)

section \<open>Properties of the page manager\<close>

inductive pm_step :: "PageManager \<Rightarrow> PageManager \<Rightarrow> bool" where
  read_page: "pm_step pm (snd (snd (PageManager_ReadPage pid out pm)))"
| write_page: "pm_step pm (snd (PageManager_WritePage pid page pm))"
| alloc_page: "pm_step pm (snd (PageManager_AllocatePage pm))"

text \<open>
  C21. A failed write is never forgotten: once the stream has failed, no sequence of page
  operations changes the file any more, and every read or write of an existing page and every
  allocation reports an I/O error.
\<close>

theorem failed_write_is_sticky:
  assumes "rtranclp pm_step pm pm'" and "fs_fail (pm_file pm)"
  shows "fs_bytes (pm_file pm') = fs_bytes (pm_file pm) \<and>
    (PageManager_in_range pm' pid \<longrightarrow>
       status_code (fst (PageManager_ReadPage pid out pm')) = kIOError \<and>
       status_code (fst (PageManager_WritePage pid page pm')) = kIOError) \<and>
    (\<exists>e. fst (PageManager_AllocatePage pm') = Inl e \<and> status_code e = kIOError)"
proof -
  have "fs_fail (pm_file pm') \<and> fs_bytes (pm_file pm') = fs_bytes (pm_file pm)"
    using assms
  proof (induction rule: rtranclp_induct)
    case (step pm1 pm2)
    from step.hyps(2) step.IH step.prems show ?case by cases (simp_all add: failed_stream_stays)
  qed simp
  then show ?thesis using failed_stream_stays [of pm'] by blast
qed

text \<open>A device that fails on the second write: the first allocation fails.\<close>

definition demo_failed_pm :: PageManager where
  "demo_failed_pm = snd (PageManager_AllocatePage (PageManager_open ReadWrite None [None, Some 10]))"

lemma AllocatePage_fault:
  assumes "fs_good (pm_file pm)" and "fs_faults (pm_file pm) = Some k # rest" and "unat (pm_next_page_id pm) < 2 ^ 31"
  shows "fs_fail (pm_file (snd (PageManager_AllocatePage pm)))"
proof -
  let ?f = "fs_seekp (OffsetOf (pm_next_page_id pm)) (pm_file pm)"
  have "fs_good ?f" "fs_faults ?f = Some k # rest"
    using assms by (simp_all add: fs_seekp_good) (simp add: fs_good_def)
  then have "fs_fail (fs_write Page_Reset ?f)" by (simp add: fs_write_def)
  then show ?thesis by (simp add: PageManager_AllocatePage_def Let_def fs_good_def)
qed

lemma demo_open:
  defines "pm \<equiv> PageManager_open ReadWrite None [None, Some 10]"
  shows "fs_good (pm_file pm)" and "fs_faults (pm_file pm) = [Some 10]"
    and "pm_next_page_id pm = 1" and "pm_page_count pm = 1"
  by (simp_all add: pm_def PageManager_open_def open_or_create_def PageManager_WriteFileHeader_def fs_attach_def fs_seekp_def
      fs_write_def fs_good_def kFirstDataPageId_def)

theorem failed_write_is_sticky_witness:
  "fs_fail (pm_file demo_failed_pm) \<and>
   status_code (fst (PageManager_ReadPage 0 Page_Reset demo_failed_pm)) = kIOError"
proof -
  let ?pm = "PageManager_open ReadWrite None [None, Some 10]"
  have f: "fs_fail (pm_file demo_failed_pm)"
    unfolding demo_failed_pm_def by (rule AllocatePage_fault) (simp_all add: demo_open)
  have "pm_page_count demo_failed_pm = 2"
    using AllocatePage_counts [of ?pm "fst (PageManager_AllocatePage ?pm)" demo_failed_pm]
    by (simp add: demo_failed_pm_def demo_open)
  then have "PageManager_in_range demo_failed_pm 0" by (simp add: PageManager_in_range_def)
  with f failed_write_is_sticky [of demo_failed_pm demo_failed_pm 0 Page_Reset Page_Reset] show ?thesis by simp
qed

text \<open>
  Allocation on a working device appends one blank page: the id it returns is the old page
  count, no data page changes, and the result is a well-formed page manager.
\<close>

theorem AllocatePage_appends:
  assumes "pm_live pm" and "Suc (pm_page_count pm) < 2 ^ 31"
  shows "\<exists>new_id pm'. PageManager_AllocatePage pm = (Inr new_id, pm') \<and> unat new_id = pm_page_count pm \<and>
    pm_live pm' \<and> pm_page_count pm' = Suc (pm_page_count pm) \<and> pm_page pm' new_id = Page_Reset \<and>
    (\<forall>q. pm_valid pm q \<longrightarrow> pm_page pm' q = pm_page pm q)"
proof -
  have "unat (pm_next_page_id pm) = pm_page_count pm"
    using assms(1) by (simp add: pm_live_def pm_wf_def pm_count_ok_def)
  moreover from assms obtain pm' where "PageManager_AllocatePage pm = (Inr (pm_next_page_id pm), pm')"
    "pm_live pm'" "pm_page_count pm' = Suc (pm_page_count pm)" "pm_page pm' (pm_next_page_id pm) = Page_Reset"
    "\<And>q. pm_valid pm q \<Longrightarrow> pm_page pm' q = pm_page pm q"
    by (rule AllocatePage_live) blast
  ultimately show ?thesis by (intro exI [of _ "pm_next_page_id pm"] exI [of _ pm']) simp
qed

theorem AllocatePage_appends_witness:
  "\<exists>new_id pm'. PageManager_AllocatePage (PageManager_open ReadWrite None []) = (Inr new_id, pm') \<and> unat new_id = 1"
  using AllocatePage_appends [OF PageManager_open_new(1)] PageManager_open_new(2) by auto

end
