(* ===== verification/Lru_Replacer.thy ===== *)
theory Lru_Replacer
  imports Prelude
begin

text \<open>
  The replacement policy of \<open>src/buffer/Iru_replacer.hpp\<close>. \<open>lru_list\<close> is the
  linked list, most recent entry first; \<open>lru_position\<close> the keys of the hash map from a
  frame to its node in the list. The invariant says that the two agree, which is what makes the
  iterator stored under a key valid. The component is specified by the time at which each
  frame became evictable: \<open>Victim\<close> returns the frame that has been evictable longest.
\<close>

type_synonym frame_id_t = nat

record LRUReplacer =
  lru_capacity :: nat
  lru_list :: "frame_id_t list"
  lru_position :: "frame_id_t list"

definition LRUReplacer_new :: "nat \<Rightarrow> LRUReplacer" where
  "LRUReplacer_new capacity = \<lparr>lru_capacity = capacity, lru_list = [], lru_position = []\<rparr>"

definition LRUReplacer_Unpin :: "frame_id_t \<Rightarrow> LRUReplacer \<Rightarrow> LRUReplacer" where
  "LRUReplacer_Unpin frame_id r =
     (if frame_id \<in> set (lru_position r) then r
      else r\<lparr>lru_list := frame_id # lru_list r, lru_position := frame_id # lru_position r\<rparr>)"

definition LRUReplacer_Pin :: "frame_id_t \<Rightarrow> LRUReplacer \<Rightarrow> LRUReplacer" where
  "LRUReplacer_Pin frame_id r =
     (if frame_id \<notin> set (lru_position r) then r
      else r\<lparr>lru_list := remove1 frame_id (lru_list r),
             lru_position := removeAll frame_id (lru_position r)\<rparr>)"

definition LRUReplacer_Victim :: "LRUReplacer \<Rightarrow> frame_id_t option \<times> LRUReplacer" where
  "LRUReplacer_Victim r =
     (if lru_list r = [] then (None, r)
      else (Some (last (lru_list r)),
            r\<lparr>lru_list := butlast (lru_list r),
              lru_position := removeAll (last (lru_list r)) (lru_position r)\<rparr>))"

definition LRUReplacer_Size :: "LRUReplacer \<Rightarrow> nat" where
  "LRUReplacer_Size r = length (lru_list r)"

section \<open>Invariant\<close>

definition lru_wf :: "LRUReplacer \<Rightarrow> bool" where
  "lru_wf r \<longleftrightarrow> distinct (lru_list r) \<and> set (lru_position r) = set (lru_list r)"

abbreviation lru_set :: "LRUReplacer \<Rightarrow> frame_id_t set" where
  "lru_set r \<equiv> set (lru_list r)"

lemma lru_wf_new [simp]: "lru_wf (LRUReplacer_new c)" "lru_set (LRUReplacer_new c) = {}"
  by (simp_all add: lru_wf_def LRUReplacer_new_def)

lemma lru_wf_Unpin [preserves]: "lru_wf r \<Longrightarrow> lru_wf (LRUReplacer_Unpin f r)"
  by (auto simp: lru_wf_def LRUReplacer_Unpin_def)

lemma lru_set_Unpin [refines]: "lru_wf r \<Longrightarrow> lru_set (LRUReplacer_Unpin f r) = insert f (lru_set r)"
  by (auto simp: lru_wf_def LRUReplacer_Unpin_def)

lemma lru_wf_Pin [preserves]: "lru_wf r \<Longrightarrow> lru_wf (LRUReplacer_Pin f r)"
  by (auto simp: lru_wf_def LRUReplacer_Pin_def)

lemma lru_set_Pin [refines]: "lru_wf r \<Longrightarrow> lru_set (LRUReplacer_Pin f r) = lru_set r - {f}"
  by (auto simp: lru_wf_def LRUReplacer_Pin_def)

lemma last_notin_butlast: "distinct xs \<Longrightarrow> xs \<noteq> [] \<Longrightarrow> set (butlast xs) = set xs - {last xs}"
  by (cases xs rule: rev_cases) auto

lemma Victim_SomeD:
  assumes "lru_wf r" and "LRUReplacer_Victim r = (Some f, r')"
  shows "lru_wf r'" and "f \<in> lru_set r" and "lru_set r' = lru_set r - {f}"
proof -
  have "lru_list r \<noteq> []" and "f = last (lru_list r)"
    and r': "r' = r\<lparr>lru_list := butlast (lru_list r), lru_position := removeAll f (lru_position r)\<rparr>"
    using assms(2) by (auto simp: LRUReplacer_Victim_def split: if_splits)
  moreover have "distinct (lru_list r)" "set (lru_position r) = lru_set r"
    using assms(1) by (simp_all add: lru_wf_def)
  ultimately show "lru_wf r'" "f \<in> lru_set r" "lru_set r' = lru_set r - {f}"
    by (simp_all add: lru_wf_def distinct_butlast last_notin_butlast)
qed

lemma Victim_None_iff: "fst (LRUReplacer_Victim r) = None \<longleftrightarrow> lru_set r = {}"
  by (simp add: LRUReplacer_Victim_def)

lemma Victim_NoneD: "LRUReplacer_Victim r = (None, r') \<Longrightarrow> r' = r \<and> lru_set r = {}"
  by (auto simp: LRUReplacer_Victim_def split: if_splits)

section \<open>The policy: least recently made evictable\<close>

datatype LruOp = OpUnpin frame_id_t | OpPin frame_id_t | OpVictim

definition lru_step :: "LruOp \<Rightarrow> LRUReplacer \<Rightarrow> LRUReplacer" where
  "lru_step op r = (case op of
       OpUnpin f \<Rightarrow> LRUReplacer_Unpin f r
     | OpPin f \<Rightarrow> LRUReplacer_Pin f r
     | OpVictim \<Rightarrow> snd (LRUReplacer_Victim r))"

definition lru_run :: "LruOp list \<Rightarrow> LRUReplacer \<Rightarrow> LRUReplacer" where
  "lru_run ops r = fold lru_step ops r"

text \<open>
  \<open>since ops f\<close> is the position in the history \<open>ops\<close> (latest operation first) of
  the \<open>Unpin\<close> that made \<open>f\<close> evictable, if it still is. An \<open>Unpin\<close> of an
  evictable frame changes nothing; \<open>OpVictim\<close> takes the frame with the smallest position.
\<close>

definition oldest :: "(frame_id_t \<Rightarrow> nat option) \<Rightarrow> frame_id_t \<Rightarrow> bool" where
  "oldest t f \<longleftrightarrow> f \<in> dom t \<and> (\<forall>g \<in> dom t. the (t f) \<le> the (t g))"

fun since :: "LruOp list \<Rightarrow> frame_id_t \<Rightarrow> nat option" where
  "since [] = (\<lambda>_. None)"
| "since (OpUnpin f # ops) =
     (if since ops f = None then (since ops)(f := Some (length ops)) else since ops)"
| "since (OpPin f # ops) = (since ops)(f := None)"
| "since (OpVictim # ops) = (\<lambda>f. if oldest (since ops) f then None else since ops f)"

definition lru_sorted :: "(frame_id_t \<Rightarrow> nat option) \<Rightarrow> frame_id_t list \<Rightarrow> bool" where
  "lru_sorted t xs \<longleftrightarrow> dom t = set xs \<and> sorted_wrt (\<lambda>f g. the (t f) > the (t g)) xs"

lemma oldest_last:
  assumes "lru_sorted t xs" and "xs \<noteq> []"
  shows "oldest t f \<longleftrightarrow> f = last xs"
proof -
  obtain ys where xs: "xs = ys @ [last xs]" using assms(2) by (metis append_butlast_last_id)
  have less: "the (t (last xs)) < the (t g)" if "g \<in> set ys" for g
    using assms(1) that by (subst (asm) xs) (auto simp: lru_sorted_def sorted_wrt_append)
  have dom: "dom t = insert (last xs) (set ys)"
    using assms(1) by (subst (asm) xs) (simp add: lru_sorted_def)
  show ?thesis
  proof
    assume f: "oldest t f"
    show "f = last xs"
    proof (rule ccontr)
      assume "f \<noteq> last xs"
      with f less [of f] show False by (auto simp: oldest_def dom)
    qed
  next
    assume "f = last xs"
    then show "oldest t f" using less by (auto simp: oldest_def dom intro: less_imp_le)
  qed
qed

lemma since_less: "since ops f = Some n \<Longrightarrow> n < length ops"
proof (induction ops)
  case (Cons op ops)
  then show ?case by (cases op) (auto split: if_splits)
qed simp

lemma lru_sorted_sub:
  assumes "sorted_wrt (\<lambda>f g. the (t f) > the (t g)) xs" and "dom t' = set xs"
    and "\<And>f. f \<in> set xs \<Longrightarrow> t' f = t f"
  shows "lru_sorted t' xs"
  unfolding lru_sorted_def
  using assms(2) sorted_wrt_mono_rel [OF _ assms(1), of "\<lambda>f g. the (t' f) > the (t' g)"]
  by (simp add: assms(3))

lemma lru_sorted_Unpin:
  assumes "lru_wf r" and "lru_sorted t (lru_list r)" and "\<And>g m. t g = Some m \<Longrightarrow> m < n"
  shows "lru_sorted (if t f = None then t(f := Some n) else t) (lru_list (LRUReplacer_Unpin f r))"
proof (cases "t f")
  case None
  then have new: "f \<notin> lru_set r" using assms(2) by (auto simp: lru_sorted_def)
  have less: "the (t g) < n" if g: "g \<in> lru_set r" for g
  proof -
    obtain m where "t g = Some m" using g assms(2) by (auto simp: lru_sorted_def)
    with assms(3) show ?thesis by simp
  qed
  have "lru_sorted (t(f := Some n)) (f # lru_list r)"
    using assms(2) new less
    by (auto simp: lru_sorted_def intro!: sorted_wrt_mono_rel [of _ "\<lambda>f g. the (t f) > the (t g)"]
        split: if_splits)
  with None new assms(1) show ?thesis by (simp add: LRUReplacer_Unpin_def lru_wf_def)
next
  case (Some m)
  then have "f \<in> lru_set r" using assms(2) by (auto simp: lru_sorted_def)
  with Some assms(1,2) show ?thesis by (simp add: LRUReplacer_Unpin_def lru_wf_def)
qed

lemma lru_sorted_Pin:
  assumes "lru_wf r" and "lru_sorted t (lru_list r)"
  shows "lru_sorted (t(f := None)) (lru_list (LRUReplacer_Pin f r))"
proof (rule lru_sorted_sub [where t = t])
  have "lru_list (LRUReplacer_Pin f r) = filter (\<lambda>g. g \<noteq> f) (lru_list r)"
    using assms(1) filter_id_conv [of "\<lambda>g. g \<noteq> f" "lru_list r"]
    by (cases "f \<in> lru_set r")
      (auto simp: LRUReplacer_Pin_def lru_wf_def distinct_remove1_removeAll removeAll_filter_not_eq
        neq_commute [of f])
  then show "sorted_wrt (\<lambda>f g. the (t f) > the (t g)) (lru_list (LRUReplacer_Pin f r))"
    using assms(2) by (simp add: lru_sorted_def sorted_wrt_filter)
  show "dom (t(f := None)) = lru_set (LRUReplacer_Pin f r)"
    using assms by (simp add: lru_sorted_def lru_set_Pin)
  show "(t(f := None)) g = t g" if "g \<in> lru_set (LRUReplacer_Pin f r)" for g
    using that assms(1) by (simp add: lru_set_Pin)
qed

lemma lru_sorted_Victim:
  assumes "lru_wf r" and srt: "lru_sorted t (lru_list r)"
  shows "lru_sorted (\<lambda>f. if oldest t f then None else t f) (lru_list (snd (LRUReplacer_Victim r)))"
proof (cases "lru_list r = []")
  case True
  with srt show ?thesis by (simp add: LRUReplacer_Victim_def lru_sorted_def oldest_def)
next
  case False
  let ?xs = "lru_list r"
  have set: "set (butlast ?xs) = set ?xs - {last ?xs}"
    using assms(1) False by (simp add: lru_wf_def last_notin_butlast)
  have "lru_sorted (\<lambda>f. if f = last ?xs then None else t f) (butlast ?xs)"
  proof (rule lru_sorted_sub [where t = t])
    show "sorted_wrt (\<lambda>f g. the (t f) > the (t g)) (butlast ?xs)"
      using srt by (simp add: lru_sorted_def butlast_conv_take sorted_wrt_take)
    show "dom (\<lambda>f. if f = last ?xs then None else t f) = set (butlast ?xs)"
      using srt by (auto simp: lru_sorted_def set dom_def split: if_splits)
  qed (simp add: set)
  with False show ?thesis by (simp add: LRUReplacer_Victim_def oldest_last [OF srt False])
qed

lemma lru_wf_step: "lru_wf r \<Longrightarrow> lru_wf (lru_step op r)"
proof (cases op)
  case OpVictim
  assume "lru_wf r"
  with OpVictim show ?thesis
    by (simp add: lru_step_def LRUReplacer_Victim_def lru_wf_def distinct_butlast last_notin_butlast)
qed (simp_all add: lru_step_def preserves)

lemma run_sorted:
  "lru_wf (lru_run (rev ops) (LRUReplacer_new c)) \<and>
   lru_sorted (since ops) (lru_list (lru_run (rev ops) (LRUReplacer_new c)))"
proof (induction ops)
  case Nil
  then show ?case by (simp add: lru_run_def lru_sorted_def LRUReplacer_new_def lru_wf_def)
next
  case (Cons op ops)
  let ?r = "lru_run (rev ops) (LRUReplacer_new c)"
  have step: "lru_run (rev (op # ops)) (LRUReplacer_new c) = lru_step op ?r"
    by (simp add: lru_run_def)
  have "lru_sorted (since (op # ops)) (lru_list (lru_step op ?r))"
    using Cons.IH lru_sorted_Unpin [of ?r "since ops" "length ops"] lru_sorted_Pin [of ?r]
      lru_sorted_Victim [of ?r] since_less [of ops]
    by (cases op) (simp_all add: lru_step_def)
  moreover have "lru_wf (lru_step op ?r)" using Cons.IH by (simp add: lru_wf_step)
  ultimately show ?case unfolding step by simp
qed

text \<open>
  C18. The victim is the frame that has been evictable longest: after any sequence of operations
  \<open>Victim\<close> returns the frame whose \<open>Unpin\<close> lies furthest back, not counting frames that
  were pinned or evicted since, and reports that there is none exactly when no frame is evictable.
\<close>

theorem Victim_is_oldest:
  "case fst (LRUReplacer_Victim (lru_run ops (LRUReplacer_new c))) of
     Some f \<Rightarrow> oldest (since (rev ops)) f
   | None \<Rightarrow> since (rev ops) = (\<lambda>_. None)"
proof -
  let ?r = "lru_run ops (LRUReplacer_new c)"
  have srt: "lru_sorted (since (rev ops)) (lru_list ?r)" using run_sorted [of "rev ops" c] by simp
  show ?thesis
  proof (cases "lru_list ?r = []")
    case True
    with srt show ?thesis by (simp add: LRUReplacer_Victim_def lru_sorted_def)
  next
    case False
    with oldest_last [OF srt False, of "last (lru_list ?r)"] show ?thesis by (simp add: LRUReplacer_Victim_def)
  qed
qed

end
