(* ===== verification/Buffer_Pool.thy ===== *)
theory Buffer_Pool
  imports Page_Manager Lru_Replacer "HOL-Library.AList"
begin

text \<open>
  The buffer pool of \<open>src/buffer/buffer_pool.cpp\<close>. A page pointer handed out by
  \<open>FetchPage\<close> or \<open>NewPage\<close> is the index of the frame it points into, and a null
  pointer is \<open>None\<close>; a client writes through the pointer with \<open>BufferPool_put\<close>.
  The page table is an association list, so that \<open>FlushAll\<close> has an iteration order;
  the results about it hold for every order.
\<close>

record Frame =
  fr_page :: Page
  fr_page_id :: page_id_t
  fr_pin_count :: int
  fr_is_dirty :: bool

definition Frame_Reset :: Frame where
  "Frame_Reset =
     \<lparr>fr_page = Page_Reset, fr_page_id = kInvalidPageId, fr_pin_count = 0, fr_is_dirty = False\<rparr>"

record BufferPool =
  bp_page_manager :: PageManager
  bp_frames :: "Frame list"
  bp_page_table :: "(page_id_t \<times> frame_id_t) list"
  bp_free_list :: "frame_id_t list"
  bp_replacer :: LRUReplacer
  bp_hit_count :: nat
  bp_miss_count :: nat

definition BufferPool_new :: "PageManager \<Rightarrow> nat \<Rightarrow> BufferPool" where
  "BufferPool_new pm pool_size =
     \<lparr>bp_page_manager = pm, bp_frames = replicate pool_size Frame_Reset, bp_page_table = [],
      bp_free_list = [0..<pool_size], bp_replacer = LRUReplacer_new pool_size,
      bp_hit_count = 0, bp_miss_count = 0\<rparr>"

definition BufferPool_FindVictimFrame :: "BufferPool \<Rightarrow> frame_id_t option \<times> BufferPool" where
  "BufferPool_FindVictimFrame bp =
     (if bp_free_list bp \<noteq> []
      then (Some (last (bp_free_list bp)), bp\<lparr>bp_free_list := butlast (bp_free_list bp)\<rparr>)
      else let (victim, r) = LRUReplacer_Victim (bp_replacer bp) in (victim, bp\<lparr>bp_replacer := r\<rparr>))"

text \<open>
  What \<open>FetchPage\<close> and \<open>NewPage\<close> do with the frame they take over: write the old
  page back if it is dirty, whatever the outcome, forget it, and reset the frame.
\<close>

definition BufferPool_evict :: "frame_id_t \<Rightarrow> BufferPool \<Rightarrow> BufferPool" where
  "BufferPool_evict frame_id bp =
     (let frame = bp_frames bp ! frame_id;
          bp1 = (if fr_page_id frame \<noteq> kInvalidPageId
                 then let pm = (if fr_is_dirty frame
                                then snd (PageManager_WritePage (fr_page_id frame) (fr_page frame)
                                           (bp_page_manager bp))
                                else bp_page_manager bp)
                      in bp\<lparr>bp_page_manager := pm,
                            bp_page_table := AList.delete (fr_page_id frame) (bp_page_table bp)\<rparr>
                 else bp)
      in bp1\<lparr>bp_frames := (bp_frames bp1)[frame_id := Frame_Reset]\<rparr>)"

definition BufferPool_install :: "frame_id_t \<Rightarrow> page_id_t \<Rightarrow> Page \<Rightarrow> bool \<Rightarrow> BufferPool \<Rightarrow> BufferPool" where
  "BufferPool_install frame_id page_id page dirty bp =
     bp\<lparr>bp_frames := (bp_frames bp)[frame_id :=
           \<lparr>fr_page = page, fr_page_id = page_id, fr_pin_count = 1, fr_is_dirty = dirty\<rparr>],
        bp_page_table := AList.update page_id frame_id (bp_page_table bp)\<rparr>"

definition BufferPool_FetchPage :: "page_id_t \<Rightarrow> BufferPool \<Rightarrow> frame_id_t option \<times> BufferPool" where
  "BufferPool_FetchPage page_id bp =
     (case map_of (bp_page_table bp) page_id of
        Some i \<Rightarrow>
          let frame = bp_frames bp ! i;
              r = (if fr_pin_count frame = 0 then LRUReplacer_Pin i (bp_replacer bp) else bp_replacer bp)
          in (Some i,
              bp\<lparr>bp_replacer := r,
                 bp_frames := (bp_frames bp)[i := frame\<lparr>fr_pin_count := fr_pin_count frame + 1\<rparr>],
                 bp_hit_count := bp_hit_count bp + 1\<rparr>)
      | None \<Rightarrow>
          let bp1 = bp\<lparr>bp_miss_count := bp_miss_count bp + 1\<rparr>
          in case BufferPool_FindVictimFrame bp1 of
               (None, bp2) \<Rightarrow> (None, bp2)
             | (Some i, bp2) \<Rightarrow>
                 let bp3 = BufferPool_evict i bp2;
                     (status, page, pm) =
                       PageManager_ReadPage page_id (fr_page (bp_frames bp3 ! i)) (bp_page_manager bp3);
                     bp4 = bp3\<lparr>bp_page_manager := pm\<rparr>
                 in if \<not> Status_ok status
                    then (None, bp4\<lparr>bp_frames := (bp_frames bp4)[i := (bp_frames bp4 ! i)\<lparr>fr_page := page\<rparr>],
                                    bp_free_list := bp_free_list bp4 @ [i]\<rparr>)
                    else (Some i, BufferPool_install i page_id page False bp4))"

definition BufferPool_NewPage :: "BufferPool \<Rightarrow> (frame_id_t \<times> page_id_t) option \<times> BufferPool" where
  "BufferPool_NewPage bp =
     (case PageManager_AllocatePage (bp_page_manager bp) of
        (Inl e, pm) \<Rightarrow> (None, bp\<lparr>bp_page_manager := pm\<rparr>)
      | (Inr page_id, pm) \<Rightarrow>
          (case BufferPool_FindVictimFrame (bp\<lparr>bp_page_manager := pm\<rparr>) of
             (None, bp2) \<Rightarrow> (None, bp2)
           | (Some i, bp2) \<Rightarrow>
               (Some (i, page_id), BufferPool_install i page_id Page_Reset True (BufferPool_evict i bp2))))"

definition BufferPool_UnpinPage :: "page_id_t \<Rightarrow> bool \<Rightarrow> BufferPool \<Rightarrow> bool \<times> BufferPool" where
  "BufferPool_UnpinPage page_id is_dirty bp =
     (case map_of (bp_page_table bp) page_id of
        None \<Rightarrow> (False, bp)
      | Some i \<Rightarrow>
          let frame = bp_frames bp ! i
          in if fr_pin_count frame \<le> 0 then (False, bp)
             else let frame' = frame\<lparr>fr_is_dirty := fr_is_dirty frame \<or> is_dirty,
                                     fr_pin_count := fr_pin_count frame - 1\<rparr>
                  in (True,
                      bp\<lparr>bp_frames := (bp_frames bp)[i := frame'],
                         bp_replacer := if fr_pin_count frame' = 0
                                        then LRUReplacer_Unpin i (bp_replacer bp) else bp_replacer bp\<rparr>))"

definition BufferPool_flush_frame :: "page_id_t \<Rightarrow> frame_id_t \<Rightarrow> BufferPool \<Rightarrow> Status \<times> BufferPool" where
  "BufferPool_flush_frame page_id i bp =
     (let frame = bp_frames bp ! i;
          (status, pm) = PageManager_WritePage page_id (fr_page frame) (bp_page_manager bp);
          bp1 = bp\<lparr>bp_page_manager := pm\<rparr>
      in (status,
          if Status_ok status
          then bp1\<lparr>bp_frames := (bp_frames bp1)[i := frame\<lparr>fr_is_dirty := False\<rparr>]\<rparr> else bp1))"

definition BufferPool_FlushPage :: "page_id_t \<Rightarrow> BufferPool \<Rightarrow> Status \<times> BufferPool" where
  "BufferPool_FlushPage page_id bp =
     (case map_of (bp_page_table bp) page_id of
        None \<Rightarrow> (Status_NotFound ''FlushPage: page not resident'', bp)
      | Some i \<Rightarrow> BufferPool_flush_frame page_id i bp)"

fun BufferPool_flush_entries :: "(page_id_t \<times> frame_id_t) list \<Rightarrow> BufferPool \<Rightarrow> Status \<times> BufferPool" where
  "BufferPool_flush_entries [] bp = (Status_OK, bp)"
| "BufferPool_flush_entries ((page_id, i) # rest) bp =
     (if fr_is_dirty (bp_frames bp ! i)
      then let (status, bp') = BufferPool_flush_frame page_id i bp
           in if \<not> Status_ok status then (status, bp') else BufferPool_flush_entries rest bp'
      else BufferPool_flush_entries rest bp)"

definition BufferPool_FlushAll :: "BufferPool \<Rightarrow> Status \<times> BufferPool" where
  "BufferPool_FlushAll bp = BufferPool_flush_entries (bp_page_table bp) bp"

definition BufferPool_PoolSize :: "BufferPool \<Rightarrow> nat" where
  "BufferPool_PoolSize bp = length (bp_frames bp)"

definition BufferPool_ResetStats :: "BufferPool \<Rightarrow> BufferPool" where
  "BufferPool_ResetStats bp = bp\<lparr>bp_hit_count := 0, bp_miss_count := 0\<rparr>"

text \<open>Reading and writing through a page pointer.\<close>

definition BufferPool_page :: "frame_id_t \<Rightarrow> BufferPool \<Rightarrow> Page" where
  "BufferPool_page i bp = fr_page (bp_frames bp ! i)"

definition BufferPool_put :: "frame_id_t \<Rightarrow> Page \<Rightarrow> BufferPool \<Rightarrow> BufferPool" where
  "BufferPool_put i page bp = bp\<lparr>bp_frames := (bp_frames bp)[i := (bp_frames bp ! i)\<lparr>fr_page := page\<rparr>]\<rparr>"

section \<open>Structural invariant\<close>

text \<open>
  Every frame is in exactly one of three places: on the free list (it holds no page), in the
  replacer (it holds a page nobody has pinned), or pinned. \<open>X\<close> holds the frames that an
  operation has taken from the free list or the replacer and not yet handed on. The page table
  is the inverse of the frames' page ids. None of this depends on the device.
\<close>

definition frame_ok :: "nat set \<Rightarrow> BufferPool \<Rightarrow> nat \<Rightarrow> bool" where
  "frame_ok X bp i \<longleftrightarrow>
     (let f = bp_frames bp ! i; resident = (fr_page_id f \<noteq> kInvalidPageId)
      in length (fr_page f) = kPageSize \<and> 0 \<le> fr_pin_count f \<and>
         (resident \<longrightarrow> unat (fr_page_id f) < pm_page_count (bp_page_manager bp)) \<and>
         (\<not> resident \<or> i \<in> X \<longrightarrow> fr_pin_count f = 0) \<and>
         (i \<in> set (bp_free_list bp) \<longleftrightarrow> i \<notin> X \<and> \<not> resident) \<and>
         (i \<in> lru_set (bp_replacer bp) \<longleftrightarrow> i \<notin> X \<and> resident \<and> fr_pin_count f = 0))"

definition table_ok :: "BufferPool \<Rightarrow> bool" where
  "table_ok bp \<longleftrightarrow> distinct (map fst (bp_page_table bp)) \<and>
     (\<forall>pid i. map_of (bp_page_table bp) pid = Some i \<longleftrightarrow>
        i < length (bp_frames bp) \<and> pid \<noteq> kInvalidPageId \<and> fr_page_id (bp_frames bp ! i) = pid)"

definition bp_struct :: "nat set \<Rightarrow> BufferPool \<Rightarrow> bool" where
  "bp_struct X bp \<longleftrightarrow>
     pm_count_ok (bp_page_manager bp) \<and> lru_wf (bp_replacer bp) \<and>
     distinct (bp_free_list bp) \<and>
     set (bp_free_list bp) \<union> lru_set (bp_replacer bp) \<subseteq> {..<length (bp_frames bp)} \<and>
     table_ok bp \<and> (\<forall>i < length (bp_frames bp). frame_ok X bp i)"

lemma bp_struct_new:
  "pm_count_ok pm \<Longrightarrow> bp_struct {} (BufferPool_new pm n)"
  by (auto simp: bp_struct_def BufferPool_new_def table_ok_def frame_ok_def Frame_Reset_def)

lemma bp_struct_miss [simp]: "bp_struct X (bp\<lparr>bp_miss_count := n\<rparr>) = bp_struct X bp"
  by (simp add: bp_struct_def table_ok_def frame_ok_def Let_def)

lemma bp_structD:
  assumes "bp_struct X bp"
  shows "pm_count_ok (bp_page_manager bp)" and "lru_wf (bp_replacer bp)"
    and "distinct (bp_free_list bp)" and "table_ok bp"
    and "i \<in> set (bp_free_list bp) \<Longrightarrow> i < length (bp_frames bp)"
    and "i \<in> lru_set (bp_replacer bp) \<Longrightarrow> i < length (bp_frames bp)"
    and "i < length (bp_frames bp) \<Longrightarrow> frame_ok X bp i"
  using assms by (auto simp: bp_struct_def)

lemma table_Some:
  assumes "table_ok bp"
  shows "map_of (bp_page_table bp) pid = Some i \<longleftrightarrow>
     i < length (bp_frames bp) \<and> pid \<noteq> kInvalidPageId \<and> fr_page_id (bp_frames bp ! i) = pid"
  using assms by (simp add: table_ok_def)

lemma table_inj:
  assumes "table_ok bp" and "i < length (bp_frames bp)" and "j < length (bp_frames bp)"
    and "fr_page_id (bp_frames bp ! i) = fr_page_id (bp_frames bp ! j)"
    and "fr_page_id (bp_frames bp ! j) \<noteq> kInvalidPageId"
  shows "i = j"
proof -
  have "map_of (bp_page_table bp) (fr_page_id (bp_frames bp ! j)) = Some i"
    and "map_of (bp_page_table bp) (fr_page_id (bp_frames bp ! j)) = Some j"
    using assms by (simp_all add: table_Some)
  then show ?thesis by simp
qed

text \<open>Changing a frame but not its page id does not concern the page table.\<close>

lemma table_ok_frame:
  assumes "table_ok bp" and "bp_page_table bp' = bp_page_table bp"
    and "bp_frames bp' = (bp_frames bp)[i := f]" and "fr_page_id f = fr_page_id (bp_frames bp ! i)"
  shows "table_ok bp'"
proof -
  have "fr_page_id (bp_frames bp' ! j) = fr_page_id (bp_frames bp ! j)" if "j < length (bp_frames bp)" for j
    using that assms by (cases "i = j") (simp_all add: nth_list_update)
  then show ?thesis using assms(1) unfolding table_ok_def assms(2,3) by auto
qed

text \<open>
  An operation that changes only frame \<open>i\<close>, and moves only \<open>i\<close> between the free list,
  the replacer and \<open>X\<close>, has to establish the invariant for \<open>i\<close> alone.
\<close>

lemma bp_struct_frame:
  assumes bp: "bp_struct X bp" and i: "i < length (bp_frames bp)"
    and frames: "bp_frames bp' = (bp_frames bp)[i := f]"
    and cnt: "pm_count_ok (bp_page_manager bp')"
      "pm_page_count (bp_page_manager bp) \<le> pm_page_count (bp_page_manager bp')"
    and lists: "lru_wf (bp_replacer bp')" "distinct (bp_free_list bp')"
    and free: "\<And>j. j \<noteq> i \<Longrightarrow> j \<in> set (bp_free_list bp') \<longleftrightarrow> j \<in> set (bp_free_list bp)"
    and lru: "\<And>j. j \<noteq> i \<Longrightarrow> j \<in> lru_set (bp_replacer bp') \<longleftrightarrow> j \<in> lru_set (bp_replacer bp)"
    and X: "\<And>j. j \<noteq> i \<Longrightarrow> j \<in> X' \<longleftrightarrow> j \<in> X"
    and table: "table_ok bp'" and ok: "frame_ok X' bp' i"
  shows "bp_struct X' bp'"
proof -
  have "frame_ok X' bp' j" if j: "j < length (bp_frames bp)" for j
  proof (cases "j = i")
    case False
    have "frame_ok X bp j" using bp j by (rule bp_structD)
    with False cnt(2) show ?thesis
      by (auto simp: frame_ok_def Let_def frames free lru X)
  qed (use ok in simp)
  moreover have "j < length (bp_frames bp)" if "j \<in> set (bp_free_list bp') \<union> lru_set (bp_replacer bp')" for j
    using that bp_structD(5,6) [OF bp] free lru i by (cases "j = i") auto
  ultimately show ?thesis
    using cnt lists table by (auto simp: bp_struct_def frames)
qed

lemma FindVictim_Some:
  assumes bp: "bp_struct {} bp" and "BufferPool_FindVictimFrame bp = (Some i, bp')"
  shows "i < length (bp_frames bp)" and "bp_struct {i} bp'" and "bp_frames bp' = bp_frames bp"
    and "bp_page_table bp' = bp_page_table bp" and "bp_page_manager bp' = bp_page_manager bp"
proof -
  let ?fl = "bp_free_list bp"
  have "i < length (bp_frames bp) \<and> bp_frames bp' = bp_frames bp \<and>
      bp_page_table bp' = bp_page_table bp \<and> bp_page_manager bp' = bp_page_manager bp \<and>
      lru_wf (bp_replacer bp') \<and> distinct (bp_free_list bp') \<and>
      set (bp_free_list bp') = set ?fl - {i} \<and> lru_set (bp_replacer bp') = lru_set (bp_replacer bp) - {i} \<and>
      i \<in> set ?fl \<union> lru_set (bp_replacer bp)"
  proof (cases "?fl = []")
    case False
    then have b: "i = last ?fl" "bp' = bp\<lparr>bp_free_list := butlast ?fl\<rparr>"
      using assms(2) by (auto simp: BufferPool_FindVictimFrame_def)
    have i: "i \<in> set ?fl" using False b by simp
    then have "i < length (bp_frames bp)" using bp by (rule bp_structD(5) [rotated])
    moreover from this have "i \<notin> lru_set (bp_replacer bp)"
      using i bp_structD(7) [OF bp] by (auto simp: frame_ok_def Let_def)
    ultimately show ?thesis
      using False b bp_structD [OF bp] i
      by (simp add: last_notin_butlast distinct_butlast)
  next
    case True
    then obtain r where r: "LRUReplacer_Victim (bp_replacer bp) = (Some i, r)" "bp' = bp\<lparr>bp_replacer := r\<rparr>"
      using assms(2) by (auto simp: BufferPool_FindVictimFrame_def split: prod.splits)
    from Victim_SomeD [OF bp_structD(2) [OF bp] r(1)] r(2) True bp_structD [OF bp]
    show ?thesis by simp
  qed
  note b = this
  then show "i < length (bp_frames bp)" "bp_frames bp' = bp_frames bp"
    "bp_page_table bp' = bp_page_table bp" "bp_page_manager bp' = bp_page_manager bp" by simp_all
  have "frame_ok {} bp i" using b bp by (simp add: bp_structD)
  then have "frame_ok {i} bp' i" using b by (auto simp: frame_ok_def Let_def)
  moreover have "table_ok bp'" using b bp_structD(4) [OF bp] by (simp add: table_ok_def)
  ultimately show "bp_struct {i} bp'"
    using b bp_structD(1) [OF bp] by (intro bp_struct_frame [OF bp, of i bp' "bp_frames bp ! i"]) auto
qed

lemma FindVictim_None:
  assumes bp: "bp_struct {} bp" and "BufferPool_FindVictimFrame bp = (None, bp')"
  shows "bp' = bp" and "i < length (bp_frames bp) \<Longrightarrow> 0 < fr_pin_count (bp_frames bp ! i)"
proof -
  have fl: "bp_free_list bp = []" and "LRUReplacer_Victim (bp_replacer bp) = (None, bp_replacer bp')"
    and b: "bp' = bp\<lparr>bp_replacer := bp_replacer bp'\<rparr>"
    using assms(2) by (auto simp: BufferPool_FindVictimFrame_def split: if_splits prod.splits)
  then have lru: "bp_replacer bp' = bp_replacer bp" "lru_set (bp_replacer bp) = {}"
    using Victim_NoneD by auto
  with b show "bp' = bp" by simp
  show "0 < fr_pin_count (bp_frames bp ! i)" if "i < length (bp_frames bp)"
    using bp_structD(7) [OF bp that] fl lru(2) by (auto simp: frame_ok_def Let_def)
qed

lemma evict_frames [simp]: "bp_frames (BufferPool_evict i bp) = (bp_frames bp)[i := Frame_Reset]"
  by (simp add: BufferPool_evict_def Let_def)

lemma evict_others [simp]:
  "bp_free_list (BufferPool_evict i bp) = bp_free_list bp"
  "bp_replacer (BufferPool_evict i bp) = bp_replacer bp"
  "pm_page_count (bp_page_manager (BufferPool_evict i bp)) = pm_page_count (bp_page_manager bp)"
  "pm_next_page_id (bp_page_manager (BufferPool_evict i bp)) = pm_next_page_id (bp_page_manager bp)"
  by (simp_all add: BufferPool_evict_def Let_def)

lemma evict_table:
  assumes "table_ok bp" and "i < length (bp_frames bp)"
  shows "map_of (bp_page_table (BufferPool_evict i bp)) =
    (map_of (bp_page_table bp))(fr_page_id (bp_frames bp ! i) := None)"
  using assms table_Some [OF assms(1), of kInvalidPageId]
  by (cases "map_of (bp_page_table bp) kInvalidPageId")
    (auto simp: BufferPool_evict_def Let_def delete_conv')

lemma evict_struct:
  assumes bp: "bp_struct {i} bp" and i: "i < length (bp_frames bp)"
  shows "bp_struct {i} (BufferPool_evict i bp)"
proof (rule bp_struct_frame [OF bp i evict_frames])
  note t = bp_structD(4) [OF bp]
  show "table_ok (BufferPool_evict i bp)"
    unfolding table_ok_def evict_table [OF t i]
    using t i by (auto simp: table_Some [OF t] nth_list_update Frame_Reset_def table_ok_def
        BufferPool_evict_def Let_def distinct_delete dest: table_inj [OF t])
  show "pm_count_ok (bp_page_manager (BufferPool_evict i bp))"
    using bp_structD(1) [OF bp] by (simp add: pm_count_ok_def)
  show "frame_ok {i} (BufferPool_evict i bp) i"
    using bp_structD(7) [OF bp i] i by (auto simp: frame_ok_def Let_def Frame_Reset_def)
qed (use bp_structD [OF bp] in auto)

lemma install_struct:
  assumes bp: "bp_struct {i} bp" and i: "i < length (bp_frames bp)"
    and free: "fr_page_id (bp_frames bp ! i) = kInvalidPageId"
    and pid: "pid \<noteq> kInvalidPageId" "unat pid < pm_page_count (bp_page_manager bp)"
      "map_of (bp_page_table bp) pid = None"
    and len: "length page = kPageSize"
  shows "bp_struct {} (BufferPool_install i pid page d bp)"
proof (rule bp_struct_frame [OF bp i])
  note t = bp_structD(4) [OF bp]
  let ?bp = "BufferPool_install i pid page d bp"
  have no: "fr_page_id (bp_frames bp ! j) \<noteq> pid" if "j < length (bp_frames bp)" for j
    using table_Some [OF t, of pid j] that pid by simp
  have "map_of (bp_page_table bp) q \<noteq> Some i" for q using table_Some [OF t, of q i] free by auto
  then show "table_ok ?bp"
    using t i pid no by (auto simp: table_ok_def BufferPool_install_def update_conv' distinct_update
        table_Some [OF t] nth_list_update split: if_splits)
  show "frame_ok {} ?bp i"
    using bp_structD(7) [OF bp i] i pid len by (auto simp: frame_ok_def Let_def BufferPool_install_def)
qed (use bp_structD [OF bp] in \<open>auto simp: BufferPool_install_def\<close>)

text \<open>A failed read puts the frame back on the free list.\<close>

lemma release_struct:
  assumes bp: "bp_struct {i} bp" and i: "i < length (bp_frames bp)"
    and free: "fr_page_id (bp_frames bp ! i) = kInvalidPageId" and len: "length page = kPageSize"
  shows "bp_struct {} (bp\<lparr>bp_frames := (bp_frames bp)[i := (bp_frames bp ! i)\<lparr>fr_page := page\<rparr>],
     bp_free_list := bp_free_list bp @ [i]\<rparr>)" (is "bp_struct {} ?bp")
proof (rule bp_struct_frame [OF bp i])
  show "table_ok ?bp" by (rule table_ok_frame [OF bp_structD(4) [OF bp], where i = i], simp, simp, simp)
  show "frame_ok {} ?bp i" "distinct (bp_free_list ?bp)"
    using bp_structD(3) [OF bp] bp_structD(7) [OF bp i] i free len
    by (auto simp: frame_ok_def Let_def)
qed (use bp_structD [OF bp] in auto)

lemma pm_struct:
  assumes "bp_struct X bp" and "pm_count_ok pm"
    and "pm_page_count (bp_page_manager bp) \<le> pm_page_count pm"
  shows "bp_struct X (bp\<lparr>bp_page_manager := pm\<rparr>)"
  using assms by (fastforce simp: bp_struct_def table_ok_def frame_ok_def Let_def)

lemma FetchPage_hit:
  assumes "map_of (bp_page_table bp) pid = Some i"
  shows "BufferPool_FetchPage pid bp =
    (Some i, bp\<lparr>bp_replacer := if fr_pin_count (bp_frames bp ! i) = 0
                   then LRUReplacer_Pin i (bp_replacer bp) else bp_replacer bp,
                 bp_frames := (bp_frames bp)
                   [i := (bp_frames bp ! i)\<lparr>fr_pin_count := fr_pin_count (bp_frames bp ! i) + 1\<rparr>],
                 bp_hit_count := bp_hit_count bp + 1\<rparr>)"
  using assms by (simp add: BufferPool_FetchPage_def Let_def)

lemma UnpinPage_pinned:
  assumes "map_of (bp_page_table bp) pid = Some i" and "0 < fr_pin_count (bp_frames bp ! i)"
  shows "BufferPool_UnpinPage pid d bp =
    (True, bp\<lparr>bp_frames := (bp_frames bp)
                [i := (bp_frames bp ! i)\<lparr>fr_is_dirty := fr_is_dirty (bp_frames bp ! i) \<or> d,
                                         fr_pin_count := fr_pin_count (bp_frames bp ! i) - 1\<rparr>],
              bp_replacer := if fr_pin_count (bp_frames bp ! i) = 1
                then LRUReplacer_Unpin i (bp_replacer bp) else bp_replacer bp\<rparr>)"
  using assms by (simp add: BufferPool_UnpinPage_def Let_def)

lemma resident_frame:
  assumes "bp_struct X bp" and "map_of (bp_page_table bp) pid = Some i"
  shows "i < length (bp_frames bp)" and "fr_page_id (bp_frames bp ! i) = pid"
    and "pid \<noteq> kInvalidPageId" and "unat pid < pm_page_count (bp_page_manager bp)"
    and "length (fr_page (bp_frames bp ! i)) = kPageSize" and "0 \<le> fr_pin_count (bp_frames bp ! i)"
proof -
  show i: "i < length (bp_frames bp)" and p: "fr_page_id (bp_frames bp ! i) = pid" "pid \<noteq> kInvalidPageId"
    using assms(2) by (simp_all add: table_Some [OF bp_structD(4) [OF assms(1)]])
  show "unat pid < pm_page_count (bp_page_manager bp)" "length (fr_page (bp_frames bp ! i)) = kPageSize"
    "0 \<le> fr_pin_count (bp_frames bp ! i)"
    using bp_structD(7) [OF assms(1) i] p by (simp_all add: frame_ok_def Let_def)
qed

lemma hit_struct:
  assumes bp: "bp_struct {} bp" and t: "map_of (bp_page_table bp) pid = Some i"
  shows "bp_struct {} (snd (BufferPool_FetchPage pid bp))"
proof -
  note r = resident_frame [OF bp t] and lru = bp_structD(2) [OF bp]
  have ok: "frame_ok {} bp i" using bp r(1) by (rule bp_structD)
  show ?thesis unfolding FetchPage_hit [OF t] snd_conv
  proof (rule bp_struct_frame [OF bp r(1)], goal_cases)
    case 9 show ?case by (rule table_ok_frame [OF bp_structD(4) [OF bp], where i = i], simp, simp, simp)
  next
    case 10 show ?case using ok r by (auto simp: frame_ok_def Let_def lru_set_Pin [OF lru])
  qed (use bp_structD [OF bp] lru in \<open>auto simp: lru_set_Pin preserves\<close>)
qed

lemma unpin_struct:
  assumes bp: "bp_struct {} bp" and t: "map_of (bp_page_table bp) pid = Some i"
    and pin: "0 < fr_pin_count (bp_frames bp ! i)"
  shows "bp_struct {} (snd (BufferPool_UnpinPage pid d bp))"
proof -
  note r = resident_frame [OF bp t] and lru = bp_structD(2) [OF bp]
  have ok: "frame_ok {} bp i" using bp r(1) by (rule bp_structD)
  show ?thesis unfolding UnpinPage_pinned [OF t pin] snd_conv
  proof (rule bp_struct_frame [OF bp r(1)], goal_cases)
    case 9 show ?case by (rule table_ok_frame [OF bp_structD(4) [OF bp], where i = i], simp, simp, simp)
  next
    case 10 show ?case using ok r pin by (auto simp: frame_ok_def Let_def lru_set_Unpin [OF lru])
  qed (use bp_structD [OF bp] lru in \<open>auto simp: lru_set_Unpin preserves\<close>)
qed

lemma put_struct:
  assumes bp: "bp_struct {} bp" and i: "i < length (bp_frames bp)" and "length page = kPageSize"
  shows "bp_struct {} (BufferPool_put i page bp)"
  unfolding BufferPool_put_def
proof (rule bp_struct_frame [OF bp i], goal_cases)
  case 9 show ?case by (rule table_ok_frame [OF bp_structD(4) [OF bp], where i = i], simp, simp, simp)
next
  case 10 show ?case using bp_structD(7) [OF bp i] assms(3) i by (auto simp: frame_ok_def Let_def)
qed (use bp_structD [OF bp] in auto)

lemma ReadPage_count_ok:
  "PageManager_ReadPage pid out pm = (st, out', pm') \<Longrightarrow> pm_count_ok pm' = pm_count_ok pm"
  using ReadPage_counts by (fastforce simp: pm_count_ok_def)

lemma in_range_not_invalid:
  "pm_count_ok pm \<Longrightarrow> unat pid < pm_page_count pm \<Longrightarrow> pid \<noteq> kInvalidPageId"
  by (auto simp: pm_count_ok_def kInvalidPageId_def unsigned_minus_1_eq_mask mask_eq_exp_minus_1)

lemma FetchPage_struct [preserves]:
  assumes bp: "bp_struct {} bp"
  shows "bp_struct {} (snd (BufferPool_FetchPage pid bp))"
proof (cases "map_of (bp_page_table bp) pid")
  case (Some i)
  with bp show ?thesis by (rule hit_struct)
next
  case None
  let ?bp1 = "bp\<lparr>bp_miss_count := bp_miss_count bp + 1\<rparr>"
  have bp1: "bp_struct {} ?bp1" using bp by simp
  obtain v bp2 where fv: "BufferPool_FindVictimFrame ?bp1 = (v, bp2)" by fastforce
  show ?thesis
  proof (cases v)
    case None
    with bp1 fv \<open>map_of (bp_page_table bp) pid = None\<close> show ?thesis
      using FindVictim_None(1) [OF bp1] by (simp add: BufferPool_FetchPage_def)
  next
    case (Some i)
    note f = FindVictim_Some [OF bp1 fv [unfolded Some]]
    let ?bp3 = "BufferPool_evict i bp2"
    obtain st page pm where rd: "PageManager_ReadPage pid Page_Reset (bp_page_manager ?bp3) = (st, page, pm)"
      by (metis prod.exhaust)
    have i: "i < length (bp_frames bp2)" using f by simp
    have bp4: "bp_struct {i} (?bp3\<lparr>bp_page_manager := pm\<rparr>)"
      using evict_struct [OF f(2) i] ReadPage_counts [OF rd] ReadPage_count_ok [OF rd]
      by (intro pm_struct) (auto dest: bp_structD(1))
    have tab: "map_of (bp_page_table ?bp3) pid = None"
      using None f evict_table [OF bp_structD(4) [OF f(2)] i] by simp
    have len: "length page = kPageSize" using ReadPage_counts [OF rd] by simp
    show ?thesis
    proof (cases "Status_ok st")
      case True
      have "unat pid < pm_page_count pm" "pid \<noteq> kInvalidPageId"
        using True ReadPage_counts [OF rd] bp_structD(1) [OF evict_struct [OF f(2) i]]
          in_range_not_invalid in_range_iff by auto
      then show ?thesis
        using None fv Some rd True tab i len install_struct [OF bp4, of pid page False]
        by (simp add: BufferPool_FetchPage_def Let_def Frame_Reset_def)
    next
      case False
      then show ?thesis
        using None fv Some rd i len release_struct [OF bp4, of page]
        by (simp add: BufferPool_FetchPage_def Let_def Frame_Reset_def)
    qed
  qed
qed

lemma NewPage_struct [preserves]:
  assumes bp: "bp_struct {} bp" and bound: "Suc (pm_page_count (bp_page_manager bp)) < 2 ^ 31"
  shows "bp_struct {} (snd (BufferPool_NewPage bp))"
proof -
  obtain r pm where al: "PageManager_AllocatePage (bp_page_manager bp) = (r, pm)" by fastforce
  note c = AllocatePage_counts [OF al] AllocatePage_count_ok [OF bp_structD(1) [OF bp] bound al]
  let ?bp1 = "bp\<lparr>bp_page_manager := pm\<rparr>"
  have bp1: "bp_struct {} ?bp1" using bp c by (intro pm_struct) auto
  show ?thesis
  proof (cases r)
    case (Inl e)
    then show ?thesis using al bp1 by (simp add: BufferPool_NewPage_def)
  next
    case (Inr pid)
    have pid: "unat pid = pm_page_count (bp_page_manager bp)"
      using c Inr bp_structD(1) [OF bp] by (simp add: pm_count_ok_def)
    obtain v bp2 where fv: "BufferPool_FindVictimFrame ?bp1 = (v, bp2)" by fastforce
    show ?thesis
    proof (cases v)
      case None
      then show ?thesis
        using al Inr fv bp1 FindVictim_None(1) [OF bp1] by (simp add: BufferPool_NewPage_def)
    next
      case (Some i)
      note f = FindVictim_Some [OF bp1 fv [unfolded Some]]
      have i: "i < length (bp_frames bp2)" using f by simp
      have "map_of (bp_page_table bp) pid = None"
        using resident_frame(4) [OF bp] pid by (metis less_irrefl not_None_eq)
      then have tab: "map_of (bp_page_table (BufferPool_evict i bp2)) pid = None"
        using f evict_table [OF bp_structD(4) [OF f(2)] i] by simp
      have "pid \<noteq> kInvalidPageId" using c(2) pid c(1) by (intro in_range_not_invalid) auto
      then show ?thesis
        using al Inr fv Some pid tab i c(1) f install_struct [OF evict_struct [OF f(2) i]]
        by (simp add: BufferPool_NewPage_def Frame_Reset_def)
    qed
  qed
qed

lemma UnpinPage_struct [preserves]:
  assumes bp: "bp_struct {} bp"
  shows "bp_struct {} (snd (BufferPool_UnpinPage pid d bp))"
proof (cases "\<exists>i. map_of (bp_page_table bp) pid = Some i \<and> 0 < fr_pin_count (bp_frames bp ! i)")
  case True
  then show ?thesis using unpin_struct [OF bp] by blast
next
  case False
  then have "BufferPool_UnpinPage pid d bp = (False, bp)"
    by (auto simp: BufferPool_UnpinPage_def Let_def not_less split: option.splits)
  then show ?thesis using bp by simp
qed

lemma dirty_struct:
  assumes bp: "bp_struct {} bp" and i: "i < length (bp_frames bp)"
  shows "bp_struct {} (bp\<lparr>bp_frames := (bp_frames bp)[i := (bp_frames bp ! i)\<lparr>fr_is_dirty := d\<rparr>]\<rparr>)"
proof (rule bp_struct_frame [OF bp i], goal_cases)
  case 9 show ?case by (rule table_ok_frame [OF bp_structD(4) [OF bp], where i = i], simp, simp, simp)
next
  case 10 show ?case using bp_structD(7) [OF bp i] i by (auto simp: frame_ok_def Let_def)
qed (use bp_structD [OF bp] in auto)

section \<open>The pages as a client sees them\<close>

text \<open>
  The contents of a data page is the frame that holds it, or else what is on disk. A page is
  \<open>synced\<close> when dropping its frame loses nothing. On a well-formed pool every page that
  nobody has pinned is synced; a page being modified through a pointer need not be.
\<close>

definition bp_addr :: "BufferPool \<Rightarrow> page_id_t \<Rightarrow> frame_id_t option" where
  "bp_addr bp pid = map_of (bp_page_table bp) pid"

definition bp_view :: "BufferPool \<Rightarrow> page_id_t \<Rightarrow> Page option" where
  "bp_view bp pid =
     (if pm_valid (bp_page_manager bp) pid
      then Some (case bp_addr bp pid of
          Some i \<Rightarrow> BufferPool_page i bp
        | None \<Rightarrow> pm_page (bp_page_manager bp) pid)
      else None)"

definition bp_pins :: "BufferPool \<Rightarrow> page_id_t \<Rightarrow> nat" where
  "bp_pins bp pid =
     (case bp_addr bp pid of Some i \<Rightarrow> nat (fr_pin_count (bp_frames bp ! i)) | None \<Rightarrow> 0)"

definition bp_synced :: "BufferPool \<Rightarrow> page_id_t \<Rightarrow> bool" where
  "bp_synced bp pid \<longleftrightarrow>
     (case bp_addr bp pid of
        Some i \<Rightarrow> pm_valid (bp_page_manager bp) pid \<longrightarrow>
          fr_is_dirty (bp_frames bp ! i) \<or> BufferPool_page i bp = pm_page (bp_page_manager bp) pid
      | None \<Rightarrow> True)"

definition bp_room :: "BufferPool \<Rightarrow> bool" where
  "bp_room bp \<longleftrightarrow> card {pid. 0 < bp_pins bp pid} < length (bp_frames bp)"

definition bp_avail :: "BufferPool \<Rightarrow> nat" where
  "bp_avail bp = 2 ^ 31 - 1 - pm_page_count (bp_page_manager bp)"

definition bp_wf :: "BufferPool \<Rightarrow> bool" where
  "bp_wf bp \<longleftrightarrow> bp_struct {} bp \<and> pm_live (bp_page_manager bp) \<and>
     (\<forall>pid. bp_pins bp pid = 0 \<longrightarrow> bp_synced bp pid)"

lemma bp_wf_new: "pm_live pm \<Longrightarrow> bp_wf (BufferPool_new pm n)"
  using bp_struct_new [of pm n]
  by (simp add: bp_wf_def pm_live_def pm_wf_def bp_synced_def bp_addr_def BufferPool_new_def)

lemma bp_pins_new: "bp_pins (BufferPool_new pm n) = (\<lambda>_. 0)"
  by (rule ext) (simp add: bp_pins_def bp_addr_def BufferPool_new_def)

lemma bp_view_new: "bp_view (BufferPool_new pm n) pid = (if pm_valid pm pid then Some (pm_page pm pid) else None)"
  by (simp add: bp_view_def bp_addr_def BufferPool_new_def)

text \<open>Pinned pages and pinned frames correspond one to one, so a frame is left to take over
  exactly when fewer pages are pinned than there are frames.\<close>

lemma pinned_pages:
  assumes bp: "bp_struct {} bp"
  shows "card {pid. 0 < bp_pins bp pid} = card {i. i < length (bp_frames bp) \<and> 0 < fr_pin_count (bp_frames bp ! i)}"
proof (rule sym, rule bij_betw_same_card)
  let ?I = "{i. i < length (bp_frames bp) \<and> 0 < fr_pin_count (bp_frames bp ! i)}"
  note t = bp_structD(4) [OF bp]
  have res: "fr_page_id (bp_frames bp ! i) \<noteq> kInvalidPageId" if "i \<in> ?I" for i
    using that bp_structD(7) [OF bp, of i] by (auto simp: frame_ok_def Let_def)
  show "bij_betw (\<lambda>i. fr_page_id (bp_frames bp ! i)) ?I {pid. 0 < bp_pins bp pid}"
    unfolding bij_betw_def
  proof
    show "inj_on (\<lambda>i. fr_page_id (bp_frames bp ! i)) ?I"
    proof (rule inj_onI)
      fix i j assume "i \<in> ?I" "j \<in> ?I" "fr_page_id (bp_frames bp ! i) = fr_page_id (bp_frames bp ! j)"
      then show "i = j" using table_inj [OF t, of i j] res by simp
    qed
    show "(\<lambda>i. fr_page_id (bp_frames bp ! i)) ` ?I = {pid. 0 < bp_pins bp pid}"
    proof safe
      fix i assume i: "i < length (bp_frames bp)" "0 < fr_pin_count (bp_frames bp ! i)"
      then have "bp_addr bp (fr_page_id (bp_frames bp ! i)) = Some i"
        using res [of i] by (simp add: bp_addr_def table_Some [OF t])
      with i show "0 < bp_pins bp (fr_page_id (bp_frames bp ! i))" by (simp add: bp_pins_def)
    next
      fix pid assume "0 < bp_pins bp pid"
      then obtain i where "bp_addr bp pid = Some i" "0 < fr_pin_count (bp_frames bp ! i)"
        by (auto simp: bp_pins_def split: option.splits)
      then show "pid \<in> (\<lambda>i. fr_page_id (bp_frames bp ! i)) ` ?I"
        by (auto simp: bp_addr_def table_Some [OF t])
    qed
  qed
qed

lemma FindVictim_None_iff:
  assumes bp: "bp_struct {} bp"
  shows "fst (BufferPool_FindVictimFrame bp) = None \<longleftrightarrow> \<not> bp_room bp"
proof -
  let ?I = "{i. i < length (bp_frames bp) \<and> 0 < fr_pin_count (bp_frames bp ! i)}"
  have room: "bp_room bp \<longleftrightarrow> ?I \<noteq> {..<length (bp_frames bp)}"
  proof -
    have sub: "?I \<subseteq> {..<length (bp_frames bp)}" by auto
    show ?thesis
    proof (cases "?I = {..<length (bp_frames bp)}")
      case True
      then show ?thesis unfolding bp_room_def pinned_pages [OF bp] True by simp
    next
      case False
      with sub have "card ?I < card {..<length (bp_frames bp)}" by (intro psubset_card_mono) auto
      with False show ?thesis unfolding bp_room_def pinned_pages [OF bp] by simp
    qed
  qed
  show ?thesis
  proof (cases "fst (BufferPool_FindVictimFrame bp)")
    case None
    then have "BufferPool_FindVictimFrame bp = (None, snd (BufferPool_FindVictimFrame bp))"
      by (metis prod.collapse)
    from FindVictim_None(2) [OF bp this] None room show ?thesis by auto
  next
    case (Some i)
    then have "BufferPool_FindVictimFrame bp = (Some i, snd (BufferPool_FindVictimFrame bp))"
      by (metis prod.collapse)
    note f = FindVictim_Some [OF bp this]
    have "i \<notin> ?I" using bp_structD(7) [OF f(2), of i] f by (auto simp: frame_ok_def Let_def)
    with f(1) Some room show ?thesis by auto
  qed
qed

subsection \<open>Taking over a frame\<close>

lemma evict_addr:
  assumes "bp_struct X bp" and "i < length (bp_frames bp)"
  shows "bp_addr (BufferPool_evict i bp) q =
    (if q = fr_page_id (bp_frames bp ! i) then None else bp_addr bp q)"
  using evict_table [OF bp_structD(4) [OF assms(1)] assms(2)] by (simp add: bp_addr_def)

text \<open>A page other than the evicted one is in another frame.\<close>

lemma addr_other:
  assumes "bp_struct X bp" and "bp_addr bp q = Some j" and "q \<noteq> fr_page_id (bp_frames bp ! i)"
  shows "j \<noteq> i"
  using resident_frame(2) [OF assms(1), of q j] assms(2,3) by (auto simp: bp_addr_def)

lemma evict_disk:
  assumes bp: "bp_struct {i} bp" and i: "i < length (bp_frames bp)"
    and live: "pm_live (bp_page_manager bp)"
  defines "pid \<equiv> fr_page_id (bp_frames bp ! i)" and "pm' \<equiv> bp_page_manager (BufferPool_evict i bp)"
  shows "pm_live pm'"
    and "q \<noteq> pid \<Longrightarrow> unat q < pm_page_count (bp_page_manager bp) \<Longrightarrow>
       pm_page pm' q = pm_page (bp_page_manager bp) q"
    and "bp_synced bp pid \<Longrightarrow> pm_valid (bp_page_manager bp) pid \<Longrightarrow> pm_page pm' pid = fr_page (bp_frames bp ! i)"
proof -
  let ?f = "bp_frames bp ! i"
  let ?pm = "bp_page_manager bp"
  have ok: "frame_ok {i} bp i" using bp i by (rule bp_structD)
  have res: "bp_addr bp pid = Some i" if "pid \<noteq> kInvalidPageId"
    using that i by (simp add: bp_addr_def table_Some [OF bp_structD(4) [OF bp]] pid_def)
  have "pm_live pm' \<and> (\<forall>q. q \<noteq> pid \<longrightarrow> unat q < pm_page_count ?pm \<longrightarrow> pm_page pm' q = pm_page ?pm q) \<and>
      (bp_synced bp pid \<longrightarrow> pm_valid ?pm pid \<longrightarrow> pm_page pm' pid = fr_page ?f)"
  proof (cases "pid \<noteq> kInvalidPageId \<and> fr_is_dirty ?f")
    case True
    have rng: "unat pid < pm_page_count ?pm" "length (fr_page ?f) = kPageSize"
      using ok True by (auto simp: frame_ok_def Let_def pid_def)
    from live rng obtain pm1 where w: "PageManager_WritePage pid (fr_page ?f) ?pm = (Status_OK, pm1)"
      "pm_live pm1" "pm_page pm1 pid = fr_page ?f"
      "\<And>q. unat q < pm_page_count ?pm \<Longrightarrow> q \<noteq> pid \<Longrightarrow> pm_page pm1 q = pm_page ?pm q"
      by (rule WritePage_live) blast
    have "pm' = pm1" using True w(1) by (simp add: pm'_def BufferPool_evict_def Let_def pid_def)
    with w show ?thesis by simp
  next
    case False
    then have pm: "pm' = ?pm" by (auto simp: pm'_def BufferPool_evict_def Let_def pid_def)
    have "pid \<noteq> kInvalidPageId" if "pm_valid ?pm pid"
      using that pm_valid_not_invalid [OF bp_structD(1) [OF bp]] by auto
    with False res live show ?thesis by (auto simp: pm bp_synced_def BufferPool_page_def)
  qed
  then show "pm_live pm'" "q \<noteq> pid \<Longrightarrow> unat q < pm_page_count ?pm \<Longrightarrow> pm_page pm' q = pm_page ?pm q"
    "bp_synced bp pid \<Longrightarrow> pm_valid ?pm pid \<Longrightarrow> pm_page pm' pid = fr_page ?f" by blast+
qed

lemma evict_view:
  assumes bp: "bp_struct {i} bp" and i: "i < length (bp_frames bp)"
    and live: "pm_live (bp_page_manager bp)" and sync: "bp_synced bp (fr_page_id (bp_frames bp ! i))"
  defines "bp' \<equiv> BufferPool_evict i bp"
  shows "bp_view bp' = bp_view bp" and "bp_pins bp' = bp_pins bp"
    and "bp_synced bp q \<Longrightarrow> bp_synced bp' q"
proof -
  let ?pid = "fr_page_id (bp_frames bp ! i)"
  let ?pm = "bp_page_manager bp"
  note addr = evict_addr [OF bp i, folded bp'_def]
    and disk = evict_disk [OF bp i live, folded bp'_def]
  have valid: "pm_valid (bp_page_manager bp') q = pm_valid ?pm q" for q
    by (simp add: pm_valid_def bp'_def)
  have disk2: "pm_page (bp_page_manager bp') q = pm_page ?pm q" if "pm_valid ?pm q" "q \<noteq> ?pid" for q
    using disk(2) [of q] that by (simp add: pm_valid_def)
  have other: "bp_frames bp' ! j = bp_frames bp ! j" if "bp_addr bp q = Some j" "q \<noteq> ?pid" for q j
    using addr_other [OF bp that] by (simp add: bp'_def)
  have at_pid: "bp_addr bp ?pid = Some i" if "pm_valid ?pm ?pid"
    using that i pm_valid_not_invalid [OF bp_structD(1) [OF bp]]
    by (auto simp: bp_addr_def table_Some [OF bp_structD(4) [OF bp]])
  show "bp_view bp' = bp_view bp"
  proof
    fix q
    show "bp_view bp' q = bp_view bp q"
    proof (cases "q = ?pid")
      case True
      with disk(3) [OF sync] at_pid show ?thesis by (simp add: bp_view_def valid addr BufferPool_page_def)
    next
      case False
      with disk2 [of q] other [of q] show ?thesis
        by (auto simp: bp_view_def valid addr BufferPool_page_def split: option.splits)
    qed
  qed
  have "fr_pin_count (bp_frames bp ! i) = 0"
    using bp_structD(7) [OF bp i] by (simp add: frame_ok_def Let_def)
  moreover have "bp_addr bp ?pid = Some j \<Longrightarrow> j = i" for j
    using i by (auto simp: bp_addr_def table_Some [OF bp_structD(4) [OF bp]]
        dest: table_inj [OF bp_structD(4) [OF bp]])
  ultimately show "bp_pins bp' = bp_pins bp"
    using other by (auto simp: bp_pins_def addr fun_eq_iff split: option.splits)
  show "bp_synced bp' q" if "bp_synced bp q"
    using that disk2 [of q] other [of q]
    by (auto simp: bp_synced_def addr valid BufferPool_page_def split: option.splits)
qed

lemma install_view:
  fixes page :: Page and d :: bool
  assumes bp: "bp_struct {i} bp" and i: "i < length (bp_frames bp)"
    and free: "fr_page_id (bp_frames bp ! i) = kInvalidPageId"
    and pid: "bp_addr bp pid = None" "pid \<noteq> kInvalidPageId"
  defines "bp' \<equiv> BufferPool_install i pid page d bp"
  shows "bp_addr bp' q = (if q = pid then Some i else bp_addr bp q)"
    and "bp_view bp' = (if pm_valid (bp_page_manager bp) pid then (bp_view bp)(pid \<mapsto> page) else bp_view bp)"
    and "bp_pins bp' = (bp_pins bp)(pid := 1)"
    and "bp_synced bp' q \<longleftrightarrow>
      (if q = pid then pm_valid (bp_page_manager bp) pid \<longrightarrow> d \<or> page = pm_page (bp_page_manager bp) pid
       else bp_synced bp q)"
    and "bp_page_manager bp' = bp_page_manager bp" and "length (bp_frames bp') = length (bp_frames bp)"
proof -
  have addr: "bp_addr bp' q = (if q = pid then Some i else bp_addr bp q)" for q
    by (simp add: bp_addr_def bp'_def BufferPool_install_def update_conv')
  have frame: "bp_frames bp' ! j = bp_frames bp ! j" if "bp_addr bp q = Some j" for q j
  proof -
    have "q \<noteq> fr_page_id (bp_frames bp ! i)"
      using that resident_frame(3) [OF bp, of q j] free by (simp add: bp_addr_def)
    then have "j \<noteq> i" by (rule addr_other [OF bp that])
    then show ?thesis by (simp add: bp'_def BufferPool_install_def)
  qed
  have new: "bp_frames bp' ! i = \<lparr>fr_page = page, fr_page_id = pid, fr_pin_count = 1, fr_is_dirty = d\<rparr>"
    using i by (simp add: bp'_def BufferPool_install_def)
  show pm: "bp_page_manager bp' = bp_page_manager bp" and "length (bp_frames bp') = length (bp_frames bp)"
    by (simp_all add: bp'_def BufferPool_install_def)
  show "bp_addr bp' q = (if q = pid then Some i else bp_addr bp q)" by (rule addr)
  show "bp_view bp' = (if pm_valid (bp_page_manager bp) pid then (bp_view bp)(pid \<mapsto> page) else bp_view bp)"
    using frame new by (auto simp: fun_eq_iff bp_view_def addr pm BufferPool_page_def split: option.splits)
  show "bp_pins bp' = (bp_pins bp)(pid := 1)"
    using frame new by (auto simp: fun_eq_iff bp_pins_def addr split: option.splits)
  show "bp_synced bp' q \<longleftrightarrow>
      (if q = pid then pm_valid (bp_page_manager bp) pid \<longrightarrow> d \<or> page = pm_page (bp_page_manager bp) pid
       else bp_synced bp q)"
    using frame [of q] new by (auto simp: bp_synced_def addr pm BufferPool_page_def split: option.splits)
qed

text \<open>The client's view depends on the counters, the addresses, the frames and the disk only.\<close>

lemma bp_obs_cong:
  assumes "bp_frames bp' = bp_frames bp" and "bp_page_table bp' = bp_page_table bp"
    and "pm_page_count (bp_page_manager bp') = pm_page_count (bp_page_manager bp)"
    and "\<And>q. pm_valid (bp_page_manager bp) q \<Longrightarrow>
       pm_page (bp_page_manager bp') q = pm_page (bp_page_manager bp) q"
  shows "bp_addr bp' = bp_addr bp" and "bp_view bp' = bp_view bp" and "bp_pins bp' = bp_pins bp"
    and "bp_synced bp' = bp_synced bp"
proof -
  have valid: "pm_valid (bp_page_manager bp') q = pm_valid (bp_page_manager bp) q" for q
    using assms(3) by (simp add: pm_valid_def)
  show "bp_addr bp' = bp_addr bp" by (rule ext) (simp add: bp_addr_def assms)
  then show "bp_view bp' = bp_view bp" "bp_pins bp' = bp_pins bp" "bp_synced bp' = bp_synced bp"
    using assms by (auto simp: fun_eq_iff bp_view_def bp_pins_def bp_synced_def BufferPool_page_def valid
        split: option.splits)
qed

subsection \<open>The operations on a working device\<close>

lemma bp_wfD:
  assumes "bp_wf bp"
  shows "bp_struct {} bp" and "pm_live (bp_page_manager bp)" and "bp_pins bp pid = 0 \<Longrightarrow> bp_synced bp pid"
  using assms by (simp_all add: bp_wf_def)

lemma pins_pos_addr: "0 < bp_pins bp pid \<Longrightarrow> \<exists>i. bp_addr bp pid = Some i"
  by (auto simp: bp_pins_def split: option.splits)

lemma view_in_range: "bp_view bp pid = Some p \<Longrightarrow> unat pid < pm_page_count (bp_page_manager bp)"
  by (simp add: bp_view_def pm_valid_def split: if_splits)

lemma addr_inj:
  assumes "bp_struct X bp" and "bp_addr bp pid = Some i" and "bp_addr bp q = Some i"
  shows "q = pid"
  using assms by (auto simp: bp_addr_def table_Some [OF bp_structD(4) [OF assms(1)]])

text \<open>
  Taking over a frame keeps every page and every pin; \<open>takeover\<close> is the common part of
  \<open>FetchPage\<close> on a miss and \<open>NewPage\<close>.
\<close>

lemma takeover:
  assumes wf: "bp_wf bp" and fv: "BufferPool_FindVictimFrame bp = (Some i, bp2)"
  defines "bp3 \<equiv> BufferPool_evict i bp2"
  shows "bp_struct {i} bp3" and "i < length (bp_frames bp3)" and "bp_frames bp3 ! i = Frame_Reset"
    and "pm_live (bp_page_manager bp3)"
    and "bp_view bp3 = bp_view bp" and "bp_pins bp3 = bp_pins bp" and "bp_synced bp q \<Longrightarrow> bp_synced bp3 q"
    and "length (bp_frames bp3) = length (bp_frames bp)"
    and "pm_page_count (bp_page_manager bp3) = pm_page_count (bp_page_manager bp)"
    and "0 < bp_pins bp q \<Longrightarrow> bp_addr bp3 q = bp_addr bp q"
    and "bp_addr bp q = None \<Longrightarrow> bp_addr bp3 q = None"
proof -
  note bp = bp_wfD [OF wf]
  note f = FindVictim_Some [OF bp(1) fv]
  have i: "i < length (bp_frames bp2)" using f by simp
  have obs: "bp_addr bp2 = bp_addr bp" "bp_view bp2 = bp_view bp" "bp_pins bp2 = bp_pins bp"
    "bp_synced bp2 = bp_synced bp"
    by (rule bp_obs_cong; simp add: f)+
  have live: "pm_live (bp_page_manager bp2)" using bp(2) f by simp
  let ?pid = "fr_page_id (bp_frames bp2 ! i)"
  have "fr_pin_count (bp_frames bp2 ! i) = 0"
    using bp_structD(7) [OF f(2) i] by (simp add: frame_ok_def Let_def)
  moreover have "bp_addr bp2 ?pid = Some j \<Longrightarrow> j = i" for j
    using i by (auto simp: bp_addr_def table_Some [OF bp_structD(4) [OF f(2)]]
        dest: table_inj [OF bp_structD(4) [OF f(2)]])
  ultimately have pin0: "bp_pins bp2 ?pid = 0" by (auto simp: bp_pins_def split: option.splits)
  have sync: "bp_synced bp2 ?pid" using bp(3) pin0 obs by simp
  note v = evict_view [OF f(2) i live sync, folded bp3_def]
  show "bp_struct {i} bp3" unfolding bp3_def using f(2) i by (rule evict_struct)
  show "i < length (bp_frames bp3)" "bp_frames bp3 ! i = Frame_Reset"
    "length (bp_frames bp3) = length (bp_frames bp)" using i f by (simp_all add: bp3_def)
  show "pm_live (bp_page_manager bp3)" unfolding bp3_def by (rule evict_disk(1) [OF f(2) i live])
  show "bp_view bp3 = bp_view bp" "bp_pins bp3 = bp_pins bp" "bp_synced bp q \<Longrightarrow> bp_synced bp3 q"
    using v obs by simp_all
  show "pm_page_count (bp_page_manager bp3) = pm_page_count (bp_page_manager bp)"
    using f by (simp add: bp3_def)
  show "bp_addr bp3 q = bp_addr bp q" if "0 < bp_pins bp q"
    using that pin0 by (auto simp: bp3_def evict_addr [OF f(2) i] obs)
  show "bp_addr bp3 q = None" if "bp_addr bp q = None"
    using that by (simp add: bp3_def evict_addr [OF f(2) i] obs)
qed

text \<open>What a client may rely on after a call that hands out a pinned page.\<close>

definition bp_handed :: "BufferPool \<Rightarrow> page_id_t \<Rightarrow> frame_id_t \<Rightarrow> BufferPool \<Rightarrow> bool" where
  "bp_handed bp pid i bp' \<longleftrightarrow> bp_wf bp' \<and> bp_addr bp' pid = Some i \<and>
     bp_pins bp' = (bp_pins bp)(pid := bp_pins bp pid + 1) \<and>
     length (bp_frames bp') = length (bp_frames bp) \<and>
     (\<forall>q. bp_synced bp q \<longrightarrow> bp_synced bp' q) \<and>
     (\<forall>q. 0 < bp_pins bp q \<longrightarrow> bp_addr bp' q = bp_addr bp q)"

lemma fst_SomeE:
  assumes "fst r \<noteq> None"
  obtains x y where "r = (Some x, y)"
  using assms by (cases r) auto

lemma FetchPage_resident:
  assumes wf: "bp_wf bp" and at: "bp_addr bp pid = Some i"
  obtains bp' where "BufferPool_FetchPage pid bp = (Some i, bp')" and "bp_handed bp pid i bp'"
    and "bp_view bp' = bp_view bp" and "bp_avail bp' = bp_avail bp"
proof -
  note bp = bp_wfD [OF wf]
  have t: "map_of (bp_page_table bp) pid = Some i" using at by (simp add: bp_addr_def)
  define bp' where "bp' = snd (BufferPool_FetchPage pid bp)"
  note hit = FetchPage_hit [OF t]
  note r = resident_frame [OF bp(1) t]
  have addr: "bp_addr bp' = bp_addr bp" and pm: "bp_page_manager bp' = bp_page_manager bp"
    by (simp_all add: bp'_def hit bp_addr_def fun_eq_iff)
  have frames: "bp_frames bp' = (bp_frames bp)
      [i := (bp_frames bp ! i)\<lparr>fr_pin_count := fr_pin_count (bp_frames bp ! i) + 1\<rparr>]"
    by (simp add: bp'_def hit)
  have page: "BufferPool_page j bp' = BufferPool_page j bp"
    "fr_is_dirty (bp_frames bp' ! j) = fr_is_dirty (bp_frames bp ! j)" for j
    using r(1) by (cases "j = i"; simp add: BufferPool_page_def frames)+
  have view: "bp_view bp' = bp_view bp" and sync: "bp_synced bp' = bp_synced bp"
    using page by (auto simp: bp_view_def bp_synced_def addr pm fun_eq_iff split: option.splits)
  have pins: "bp_pins bp' = (bp_pins bp)(pid := bp_pins bp pid + 1)"
    using r(1,6) addr_inj [OF bp(1) at]
    by (auto simp: bp_pins_def addr at frames fun_eq_iff nth_list_update nat_add_distrib
        split: option.splits)
  have "bp_wf bp'"
    using hit_struct [OF bp(1) t] bp wf by (auto simp: bp_wf_def bp'_def [symmetric] pm pins sync)
  then have "bp_handed bp pid i bp'"
    by (simp add: bp_handed_def addr at pins sync frames)
  with that [of bp'] view show thesis by (simp add: bp'_def hit bp_avail_def)
qed

lemma FetchPage_absent:
  assumes wf: "bp_wf bp" and at: "bp_addr bp pid = None" and room: "bp_room bp"
    and p: "unat pid < pm_page_count (bp_page_manager bp)"
  obtains i bp' where "BufferPool_FetchPage pid bp = (Some i, bp')" and "bp_handed bp pid i bp'"
    and "bp_view bp' = bp_view bp" and "bp_avail bp' = bp_avail bp"
proof -
  let ?bp1 = "bp\<lparr>bp_miss_count := bp_miss_count bp + 1\<rparr>"
  have obs: "bp_addr ?bp1 = bp_addr bp" "bp_view ?bp1 = bp_view bp" "bp_pins ?bp1 = bp_pins bp"
    "bp_synced ?bp1 = bp_synced bp"
    by (rule bp_obs_cong; simp)+
  have wf1: "bp_wf ?bp1"
    using wf unfolding bp_wf_def obs by simp
  have "fst (BufferPool_FindVictimFrame ?bp1) \<noteq> None"
    using room unfolding FindVictim_None_iff [OF bp_wfD(1) [OF wf1]] bp_room_def obs by simp
  then obtain i bp2 where fv: "BufferPool_FindVictimFrame ?bp1 = (Some i, bp2)"
    by (rule fst_SomeE)
  note t = takeover [OF wf1 fv, unfolded obs]
  let ?bp3 = "BufferPool_evict i bp2"
  have rng: "unat pid < pm_page_count (bp_page_manager ?bp3)" using p t(9) by simp
  from t(4) rng length_Page_Reset obtain pm where
    rd: "PageManager_ReadPage pid Page_Reset (bp_page_manager ?bp3) =
       (Status_OK, pm_page (bp_page_manager ?bp3) pid, pm)"
    and pm: "pm_live pm" "pm_page_count pm = pm_page_count (bp_page_manager ?bp3)"
      "pm_page pm = pm_page (bp_page_manager ?bp3)"
    by (rule ReadPage_live)
  let ?bp4 = "?bp3\<lparr>bp_page_manager := pm\<rparr>"
  let ?p = "pm_page pm pid"
  have obs4: "bp_addr ?bp4 = bp_addr ?bp3" "bp_view ?bp4 = bp_view ?bp3" "bp_pins ?bp4 = bp_pins ?bp3"
    "bp_synced ?bp4 = bp_synced ?bp3"
    by (rule bp_obs_cong; simp add: pm)+
  have cnt: "pm_count_ok pm" using pm(1) by (simp add: pm_live_def pm_wf_def)
  have bp4: "bp_struct {i} ?bp4" using t(1) cnt pm(2) by (intro pm_struct) simp_all
  have i4: "i < length (bp_frames ?bp4)" "bp_frames ?bp4 ! i = Frame_Reset" using t(2,3) by simp_all
  have pid: "pid \<noteq> kInvalidPageId" "unat pid < pm_page_count pm"
    using in_range_not_invalid [OF cnt] rng pm(2) by simp_all
  have none: "bp_addr ?bp4 pid = None" using obs4 t(11) [of pid] at by simp
  have len: "length ?p = kPageSize" using ReadPage_counts [OF rd] pm(3) by simp
  have fp: "BufferPool_FetchPage pid bp = (Some i, BufferPool_install i pid ?p False ?bp4)"
    using at fv rd t(3) pm(3) by (simp add: BufferPool_FetchPage_def bp_addr_def Frame_Reset_def Let_def)
  note v = install_view [OF bp4 i4(1) _ none pid(1), of ?p False]
  have free: "fr_page_id (bp_frames ?bp4 ! i) = kInvalidPageId"
    using i4(2) by (simp add: Frame_Reset_def)
  define bp' where "bp' = BufferPool_install i pid ?p False ?bp4"
  note v = v [OF free, folded bp'_def]
  have "bp_addr ?bp3 pid = None" using none obs4(1) by simp
  then have "pm_valid (bp_page_manager ?bp3) pid \<Longrightarrow> bp_view ?bp3 pid = Some ?p"
    using pm(3) by (simp add: bp_view_def [of ?bp3])
  moreover have "pm_valid pm pid = pm_valid (bp_page_manager ?bp3) pid" using pm(2) by (simp add: pm_valid_def)
  ultimately have view: "bp_view bp' = bp_view bp"
    unfolding v(2) obs4 t(5) [symmetric] by (auto simp: fun_upd_idem_iff)
  have "bp_struct {} bp'" unfolding bp'_def
    using install_struct [OF bp4 i4(1) free pid(1)] pid(2) none len by (simp add: bp_addr_def)
  moreover have "bp_synced bp q \<Longrightarrow> bp_synced bp' q" for q
    using t(7) [of q] v(4) [of q] obs4 by (auto simp: pm)
  moreover have pins: "bp_pins bp' = (bp_pins bp)(pid := bp_pins bp pid + 1)"
    using at unfolding v(3) obs4 t(6) by (simp add: bp_pins_def)
  ultimately have "bp_wf bp'"
    using bp_wfD(3) [OF wf] pm(1) by (auto simp: bp_wf_def v(5) split: if_splits)
  moreover have "bp_addr bp' q = bp_addr bp q" if "0 < bp_pins bp q" for q
    using that at t(10) [of q] by (auto simp: v(1) obs4 bp_pins_def split: option.splits)
  ultimately have "bp_handed bp pid i bp'"
    using pins v(1) [of pid] v(6) t(8) \<open>\<And>q. bp_synced bp q \<Longrightarrow> bp_synced bp' q\<close>
    by (simp add: bp_handed_def)
  then show thesis using that [of i bp'] fp view t(9) pm(2) by (simp add: bp'_def [symmetric] bp_avail_def v(5))
qed

lemma NewPage_live:
  assumes wf: "bp_wf bp" and room: "bp_room bp" and avail: "0 < bp_avail bp"
  obtains i pid bp' where "BufferPool_NewPage bp = (Some (i, pid), bp')" and "bp_handed bp pid i bp'"
    and "bp_view bp pid = None" and "bp_view bp' = (bp_view bp)(pid \<mapsto> Page_Reset)"
    and "bp_pins bp pid = 0" and "bp_synced bp' pid" and "Suc (bp_avail bp') = bp_avail bp"
proof -
  note bp = bp_wfD [OF wf]
  have bound: "Suc (pm_page_count (bp_page_manager bp)) < 2 ^ 31" using avail by (simp add: bp_avail_def)
  define pid where "pid = pm_next_page_id (bp_page_manager bp)"
  from bp(2) bound obtain pm where al: "PageManager_AllocatePage (bp_page_manager bp) = (Inr pid, pm)"
    and pm: "pm_live pm" "pm_page_count pm = Suc (pm_page_count (bp_page_manager bp))"
      "pm_page pm pid = Page_Reset"
      "\<And>q. pm_valid (bp_page_manager bp) q \<Longrightarrow> pm_page pm q = pm_page (bp_page_manager bp) q"
    unfolding pid_def by (rule AllocatePage_live) blast
  have cnt: "pm_count_ok pm" using pm(1) by (simp add: pm_live_def pm_wf_def)
  have unat: "unat pid = pm_page_count (bp_page_manager bp)" "1 \<le> unat pid"
    using bp_structD(1) [OF bp(1)] by (simp_all add: pm_count_ok_def pid_def)
  let ?bp1 = "bp\<lparr>bp_page_manager := pm\<rparr>"
  have none: "bp_addr bp pid = None"
    using resident_frame(4) [OF bp(1)] unat(1) by (metis bp_addr_def less_irrefl not_None_eq)
  have addr: "bp_addr ?bp1 = bp_addr bp" and pins: "bp_pins ?bp1 = bp_pins bp"
    by (simp_all add: bp_addr_def bp_pins_def fun_eq_iff split: option.splits)
  have valid: "pm_valid pm q \<longleftrightarrow> pm_valid (bp_page_manager bp) q \<or> q = pid" for q
    using unat pm(2) by (auto simp: pm_valid_def less_Suc_eq word_eq_iff_unat)
  have notv: "\<not> pm_valid (bp_page_manager bp) pid" using unat by (simp add: pm_valid_def)
  have sync: "bp_synced bp q \<Longrightarrow> bp_synced ?bp1 q" for q
    using none pm(4) [of q]
    by (auto simp: bp_synced_def addr BufferPool_page_def valid split: option.splits)
  have view1: "bp_view ?bp1 = (bp_view bp)(pid \<mapsto> Page_Reset)"
    using none pm(3,4) notv
    by (auto simp: bp_view_def addr BufferPool_page_def valid fun_eq_iff split: option.splits)
  have "bp_struct {} ?bp1" using bp(1) cnt pm(2) by (intro pm_struct) simp_all
  then have wf1: "bp_wf ?bp1" using bp(3) sync pm(1) by (simp add: bp_wf_def pins)
  have "fst (BufferPool_FindVictimFrame ?bp1) \<noteq> None"
    using room FindVictim_None_iff [OF bp_wfD(1) [OF wf1]] by (simp add: bp_room_def pins)
  then obtain i bp2 where fv: "BufferPool_FindVictimFrame ?bp1 = (Some i, bp2)"
    by (rule fst_SomeE)
  note t = takeover [OF wf1 fv, unfolded addr pins]
  let ?bp3 = "BufferPool_evict i bp2"
  define bp' where "bp' = BufferPool_install i pid Page_Reset True ?bp3"
  have free: "fr_page_id (bp_frames ?bp3 ! i) = kInvalidPageId" using t(3) by (simp add: Frame_Reset_def)
  have none3: "bp_addr ?bp3 pid = None" using t(11) none by simp
  have rng: "unat pid < pm_page_count (bp_page_manager ?bp3)" using t(9) unat pm(2) by simp
  have pid: "pid \<noteq> kInvalidPageId" using in_range_not_invalid [OF bp_structD(1) [OF t(1)] rng] .
  note v = install_view [OF t(1,2) free none3 pid, of Page_Reset True, folded bp'_def]
  have view: "bp_view bp' = (bp_view bp)(pid \<mapsto> Page_Reset)"
    unfolding v(2) t(5) view1 by auto
  have pins': "bp_pins bp' = (bp_pins bp)(pid := bp_pins bp pid + 1)"
    using none unfolding v(3) t(6) by (simp add: bp_pins_def)
  have "bp_struct {} bp'" unfolding bp'_def
    using install_struct [OF t(1,2) free pid rng] none3 by (simp add: bp_addr_def)
  moreover have sync': "bp_synced bp' q" if "bp_synced bp q" for q
    using t(7) [OF sync [OF that]] v(4) [of q] by simp
  ultimately have "bp_wf bp'"
    using bp(3) t(4) by (auto simp: bp_wf_def v(5) pins' split: if_splits)
  moreover have "bp_addr bp' q = bp_addr bp q" if "0 < bp_pins bp q" for q
    using that none t(10) [of q] by (auto simp: v(1) bp_pins_def split: option.splits)
  ultimately have "bp_handed bp pid i bp'"
    using pins' v(1) [of pid] v(6) t(8) sync' by (simp add: bp_handed_def)
  moreover have "BufferPool_NewPage bp = (Some (i, pid), bp')"
    using al fv by (simp add: BufferPool_NewPage_def bp'_def)
  moreover have "bp_view bp pid = None" using notv by (simp add: bp_view_def)
  moreover have "Suc (bp_avail bp') = bp_avail bp"
    using avail t(9) pm(2) by (simp add: bp_avail_def v(5))
  ultimately show thesis using that [of i pid bp'] view none v(4) [of pid] by (simp add: bp_pins_def)
qed

text \<open>Writing through the pointer of a pinned page.\<close>

lemma put_live:
  assumes wf: "bp_wf bp" and at: "bp_addr bp pid = Some i" and pin: "0 < bp_pins bp pid"
    and len: "length page = kPageSize" and p: "bp_view bp pid \<noteq> None"
  defines "bp' \<equiv> BufferPool_put i page bp"
  shows "bp_wf bp'" and "bp_view bp' = (bp_view bp)(pid \<mapsto> page)" and "bp_pins bp' = bp_pins bp"
    and "bp_addr bp' = bp_addr bp" and "q \<noteq> pid \<Longrightarrow> bp_synced bp' q = bp_synced bp q"
    and "bp_avail bp' = bp_avail bp" and "length (bp_frames bp') = length (bp_frames bp)"
proof -
  note bp = bp_wfD [OF wf]
  have t: "map_of (bp_page_table bp) pid = Some i" using at by (simp add: bp_addr_def)
  note r = resident_frame [OF bp(1) t]
  show addr: "bp_addr bp' = bp_addr bp" by (simp add: bp_addr_def bp'_def BufferPool_put_def fun_eq_iff)
  have pm: "bp_page_manager bp' = bp_page_manager bp" by (simp add: bp'_def BufferPool_put_def)
  have frames: "bp_frames bp' = (bp_frames bp)[i := (bp_frames bp ! i)\<lparr>fr_page := page\<rparr>]"
    by (simp add: bp'_def BufferPool_put_def)
  have valid: "pm_valid (bp_page_manager bp) pid" using p by (simp add: bp_view_def split: if_splits)
  note inj = addr_inj [OF bp(1) at]
  show "bp_view bp' = (bp_view bp)(pid \<mapsto> page)"
    using valid r(1) inj by (auto simp: bp_view_def addr at pm BufferPool_page_def frames fun_eq_iff
        nth_list_update split: option.splits)
  show pins: "bp_pins bp' = bp_pins bp"
    using r(1) by (auto simp: bp_pins_def addr frames fun_eq_iff nth_list_update split: option.splits)
  show sync: "bp_synced bp' q = bp_synced bp q" if "q \<noteq> pid" for q
    using that r(1) inj [of q]
    by (auto simp: bp_synced_def addr pm BufferPool_page_def frames nth_list_update split: option.splits)
  have "bp_struct {} bp'" unfolding bp'_def using bp(1) r(1) len by (rule put_struct)
  moreover have "bp_synced bp' q" if "bp_pins bp q = 0" for q
    using that pin sync [of q] bp(3) [of q] by (cases "q = pid") auto
  ultimately show "bp_wf bp'" using bp(2) by (simp add: bp_wf_def pm pins)
  show "bp_avail bp' = bp_avail bp" "length (bp_frames bp') = length (bp_frames bp)"
    by (simp_all add: bp_avail_def pm frames)
qed

text \<open>
  Unpinning. A page that was modified has to be unpinned as dirty, unless somebody else still
  holds it pinned.
\<close>

lemma UnpinPage_live:
  assumes wf: "bp_wf bp" and pin: "0 < bp_pins bp pid"
    and d: "d \<or> bp_synced bp pid \<or> 1 < bp_pins bp pid"
  obtains bp' where "BufferPool_UnpinPage pid d bp = (True, bp')" and "bp_wf bp'"
    and "bp_view bp' = bp_view bp" and "bp_pins bp' = (bp_pins bp)(pid := bp_pins bp pid - 1)"
    and "bp_addr bp' = bp_addr bp" and "\<And>q. bp_synced bp q \<Longrightarrow> bp_synced bp' q"
    and "d \<Longrightarrow> bp_synced bp' pid"
    and "bp_avail bp' = bp_avail bp" and "length (bp_frames bp') = length (bp_frames bp)"
proof -
  note bp = bp_wfD [OF wf]
  obtain i where at: "bp_addr bp pid = Some i" using pins_pos_addr [OF pin] by blast
  have t: "map_of (bp_page_table bp) pid = Some i" using at by (simp add: bp_addr_def)
  have pc: "0 < fr_pin_count (bp_frames bp ! i)" using pin at by (simp add: bp_pins_def)
  note r = resident_frame [OF bp(1) t] and u = UnpinPage_pinned [OF t pc, of d]
  define bp' where "bp' = snd (BufferPool_UnpinPage pid d bp)"
  have addr: "bp_addr bp' = bp_addr bp" and pm: "bp_page_manager bp' = bp_page_manager bp"
    by (simp_all add: bp'_def u bp_addr_def fun_eq_iff)
  have frames: "bp_frames bp' = (bp_frames bp)
      [i := (bp_frames bp ! i)\<lparr>fr_is_dirty := fr_is_dirty (bp_frames bp ! i) \<or> d,
                               fr_pin_count := fr_pin_count (bp_frames bp ! i) - 1\<rparr>]"
    by (simp add: bp'_def u)
  have page: "BufferPool_page j bp' = BufferPool_page j bp"
    "fr_is_dirty (bp_frames bp' ! j) \<longleftrightarrow> fr_is_dirty (bp_frames bp ! j) \<or> j = i \<and> d" for j
    using r(1) by (cases "j = i"; simp add: BufferPool_page_def frames)+
  have view: "bp_view bp' = bp_view bp"
    using page by (auto simp: bp_view_def addr pm fun_eq_iff split: option.splits)
  have sync: "bp_synced bp' q" if "bp_synced bp q" for q
    using that page by (auto simp: bp_synced_def addr pm split: option.splits)
  have dsync: "bp_synced bp' pid" if d using that page(2) [of i] by (simp add: bp_synced_def addr at)
  have pins: "bp_pins bp' = (bp_pins bp)(pid := bp_pins bp pid - 1)"
    using r(1) pc addr_inj [OF bp(1) at]
    by (auto simp: bp_pins_def addr at frames fun_eq_iff nth_list_update nat_diff_distrib
        split: option.splits)
  have "bp_synced bp' q" if "bp_pins bp' q = 0" for q
    using that pins d pin sync dsync bp(3) [of q] by (cases "q = pid") auto
  moreover have "bp_struct {} bp'" unfolding bp'_def by (rule unpin_struct [OF bp(1) t pc])
  ultimately have "bp_wf bp'" using bp(2) by (simp add: bp_wf_def pm)
  with that [of bp'] view pins addr sync dsync show thesis
    by (simp add: bp_avail_def pm frames) (simp add: bp'_def u)
qed

text \<open>A page id that is out of range is refused, and nothing a client sees changes.\<close>

lemma FetchPage_bad:
  assumes wf: "bp_wf bp" and bad: "pm_page_count (bp_page_manager bp) \<le> unat pid"
  obtains bp' where "BufferPool_FetchPage pid bp = (None, bp')" and "bp_wf bp'"
    and "bp_view bp' = bp_view bp" and "bp_pins bp' = bp_pins bp"
    and "\<And>q. 0 < bp_pins bp q \<Longrightarrow> bp_addr bp' q = bp_addr bp q"
    and "\<And>q. bp_synced bp q \<Longrightarrow> bp_synced bp' q"
    and "bp_avail bp' = bp_avail bp" and "length (bp_frames bp') = length (bp_frames bp)"
proof -
  let ?bp1 = "bp\<lparr>bp_miss_count := bp_miss_count bp + 1\<rparr>"
  have obs: "bp_addr ?bp1 = bp_addr bp" "bp_view ?bp1 = bp_view bp" "bp_pins ?bp1 = bp_pins bp"
    "bp_synced ?bp1 = bp_synced bp"
    by (rule bp_obs_cong; simp)+
  have wf1: "bp_wf ?bp1" using wf unfolding bp_wf_def obs by simp
  have none: "map_of (bp_page_table bp) pid = None"
    using resident_frame(4) [OF bp_wfD(1) [OF wf], of pid] bad
    by (cases "map_of (bp_page_table bp) pid") auto
  show thesis
  proof (cases "fst (BufferPool_FindVictimFrame ?bp1)")
    case None
    then have fv: "BufferPool_FindVictimFrame ?bp1 = (None, snd (BufferPool_FindVictimFrame ?bp1))"
      by (metis prod.collapse)
    then have "BufferPool_FetchPage pid bp = (None, ?bp1)"
      using none FindVictim_None(1) [OF bp_wfD(1) [OF wf1] fv] by (simp add: BufferPool_FetchPage_def)
    then show thesis
      by (rule that) (unfold obs, simp_all add: wf1 [simplified] bp_avail_def)
  next
    case (Some i)
    then obtain bp2 where fv: "BufferPool_FindVictimFrame ?bp1 = (Some i, bp2)" by (metis prod.collapse)
    note t = takeover [OF wf1 fv, unfolded obs]
    let ?bp3 = "BufferPool_evict i bp2"
    let ?bp' = "?bp3\<lparr>bp_frames := (bp_frames ?bp3)[i := (bp_frames ?bp3 ! i)\<lparr>fr_page := Page_Reset\<rparr>],
      bp_free_list := bp_free_list ?bp3 @ [i]\<rparr>"
    have "\<not> PageManager_in_range (bp_page_manager ?bp3) pid"
      using bad t(9) by (simp add: in_range_iff [OF bp_structD(1) [OF t(1)]])
    then have fp: "BufferPool_FetchPage pid bp = (None, ?bp')"
      using none fv t(3)
      by (simp add: BufferPool_FetchPage_def PageManager_ReadPage_def Let_def Frame_Reset_def)
    have "(bp_frames ?bp3 ! i)\<lparr>fr_page := Page_Reset\<rparr> = bp_frames ?bp3 ! i"
      unfolding t(3) by (simp add: Frame_Reset_def)
    then have frames: "bp_frames ?bp' = bp_frames ?bp3" by (simp add: distinct_map_list_update_eq)
    have obs': "bp_addr ?bp' = bp_addr ?bp3" "bp_view ?bp' = bp_view ?bp3" "bp_pins ?bp' = bp_pins ?bp3"
      "bp_synced ?bp' = bp_synced ?bp3"
      by (rule bp_obs_cong [OF frames]; simp)+
    have "bp_struct {} ?bp'"
      by (rule release_struct [OF t(1,2)]) (simp_all add: t(3) Frame_Reset_def del: evict_frames)
    then have "bp_wf ?bp'"
      unfolding bp_wf_def obs' t(6) using t(4,7) bp_wfD(3) [OF wf] by simp
    with fp show thesis
      by (rule that) (unfold obs', simp_all add: t(5-11) t(9) [simplified] bp_avail_def del: evict_frames)
  qed
qed

lemma view_length: "bp_wf bp \<Longrightarrow> bp_view bp pid = Some p \<Longrightarrow> length p = kPageSize"
proof -
  assume wf: "bp_wf bp" and p: "bp_view bp pid = Some p"
  note bp = bp_wfD [OF wf]
  have rng: "unat pid < pm_page_count (bp_page_manager bp)" using p by (rule view_in_range)
  have "length (pm_page (bp_page_manager bp) pid) = kPageSize"
    using bp(2) page_bounds [OF _ rng, of "length (fs_bytes (pm_file (bp_page_manager bp)))"]
    by (simp add: pm_live_def pm_wf_def pm_page_def)
  with p resident_frame(5) [OF bp(1), of pid] show ?thesis
    by (auto simp: bp_view_def bp_addr_def BufferPool_page_def split: if_splits option.splits)
qed

lemma view_invalid: "bp_wf bp \<Longrightarrow> bp_view bp kInvalidPageId = None"
  using pm_valid_not_invalid [OF bp_structD(1) [OF bp_wfD(1)]] by (simp add: bp_view_def)

section \<open>The contract of a page cache\<close>

text \<open>
  What the storage structures rely on. \<open>view\<close> is the contents of the pages, \<open>pins\<close>
  how often each is pinned, \<open>addr\<close> where a pinned page is, \<open>synced\<close> whether a page
  may be dropped, \<open>cap\<close> the number of frames and \<open>avail\<close> the number of pages that can
  still be allocated.
\<close>

locale page_cache =
  fixes inv :: "'s \<Rightarrow> bool"
    and view :: "'s \<Rightarrow> page_id_t \<Rightarrow> Page option"
    and pins :: "'s \<Rightarrow> page_id_t \<Rightarrow> nat"
    and addr :: "'s \<Rightarrow> page_id_t \<Rightarrow> 'f option"
    and synced :: "'s \<Rightarrow> page_id_t \<Rightarrow> bool"
    and cap :: "'s \<Rightarrow> nat"
    and avail :: "'s \<Rightarrow> nat"
    and fetch :: "page_id_t \<Rightarrow> 's \<Rightarrow> 'f option \<times> 's"
    and alloc :: "'s \<Rightarrow> ('f \<times> page_id_t) option \<times> 's"
    and unpin :: "page_id_t \<Rightarrow> bool \<Rightarrow> 's \<Rightarrow> bool \<times> 's"
    and page :: "'f \<Rightarrow> 's \<Rightarrow> Page"
    and put :: "'f \<Rightarrow> Page \<Rightarrow> 's \<Rightarrow> 's"
  assumes unpinned_synced: "inv s \<Longrightarrow> pins s pid = 0 \<Longrightarrow> synced s pid"
    and page_length: "inv s \<Longrightarrow> view s pid = Some p \<Longrightarrow> length p = kPageSize"
    and no_invalid_page: "inv s \<Longrightarrow> view s kInvalidPageId = None"
    and page_view: "inv s \<Longrightarrow> addr s pid = Some f \<Longrightarrow> view s pid = Some p \<Longrightarrow> page f s = p"
    and put_same: "put f (page f s) s = s"
    and fetch_law: "inv s \<Longrightarrow> view s pid = Some p \<Longrightarrow> card {q. 0 < pins s q} < cap s \<or> 0 < pins s pid \<Longrightarrow>
      \<exists>f s'. fetch pid s = (Some f, s') \<and> inv s' \<and> addr s' pid = Some f \<and> view s' = view s \<and>
        pins s' = (pins s)(pid := pins s pid + 1) \<and> cap s' = cap s \<and> avail s' = avail s \<and>
        (\<forall>q. synced s q \<longrightarrow> synced s' q) \<and> (\<forall>q. 0 < pins s q \<longrightarrow> addr s' q = addr s q)"
    and fetch_unknown: "inv s \<Longrightarrow> view s pid = None \<Longrightarrow> pid \<noteq> kHeaderPageId \<Longrightarrow>
      \<exists>s'. fetch pid s = (None, s') \<and> inv s' \<and> view s' = view s \<and> pins s' = pins s \<and>
        cap s' = cap s \<and> avail s' = avail s \<and>
        (\<forall>q. synced s q \<longrightarrow> synced s' q) \<and> (\<forall>q. 0 < pins s q \<longrightarrow> addr s' q = addr s q)"
    and alloc_law: "inv s \<Longrightarrow> card {q. 0 < pins s q} < cap s \<Longrightarrow> 0 < avail s \<Longrightarrow>
      \<exists>f pid s'. alloc s = (Some (f, pid), s') \<and> inv s' \<and> addr s' pid = Some f \<and>
        view s pid = None \<and> view s' = (view s)(pid \<mapsto> Page_Reset) \<and> pins s pid = 0 \<and>
        pins s' = (pins s)(pid := 1) \<and> cap s' = cap s \<and> Suc (avail s') = avail s \<and>
        (\<forall>q. synced s q \<longrightarrow> synced s' q) \<and> (\<forall>q. 0 < pins s q \<longrightarrow> addr s' q = addr s q)"
    and put_law: "inv s \<Longrightarrow> addr s pid = Some f \<Longrightarrow> 0 < pins s pid \<Longrightarrow> view s pid \<noteq> None \<Longrightarrow>
      length p' = kPageSize \<Longrightarrow>
      inv (put f p' s) \<and> view (put f p' s) = (view s)(pid \<mapsto> p') \<and> pins (put f p' s) = pins s \<and>
        addr (put f p' s) = addr s \<and> cap (put f p' s) = cap s \<and> avail (put f p' s) = avail s \<and>
        (\<forall>q. q \<noteq> pid \<longrightarrow> synced (put f p' s) q = synced s q)"
    and unpin_law: "inv s \<Longrightarrow> 0 < pins s pid \<Longrightarrow> d \<or> synced s pid \<or> 1 < pins s pid \<Longrightarrow>
      \<exists>s'. unpin pid d s = (True, s') \<and> inv s' \<and> view s' = view s \<and>
        pins s' = (pins s)(pid := pins s pid - 1) \<and> addr s' = addr s \<and> cap s' = cap s \<and>
        avail s' = avail s \<and> (\<forall>q. synced s q \<longrightarrow> synced s' q) \<and> (d \<longrightarrow> synced s' pid)"
begin

text \<open>
  Between calls of a storage structure no page has unsaved changes and at least one frame can be
  taken over.
\<close>

definition ready :: "'s \<Rightarrow> bool" where
  "ready s \<longleftrightarrow> inv s \<and> card {q. 0 < pins s q} < cap s \<and> (\<forall>pid. synced s pid)"

definition same_use :: "'s \<Rightarrow> 's \<Rightarrow> bool" where
  "same_use s s' \<longleftrightarrow> pins s' = pins s \<and> cap s' = cap s"

lemma ready_inv: "ready s \<Longrightarrow> inv s"
  by (simp add: ready_def)

lemma ready_keep:
  "ready s \<Longrightarrow> inv s' \<Longrightarrow> same_use s s' \<Longrightarrow> (\<And>q. synced s' q) \<Longrightarrow> ready s'"
  by (simp add: ready_def same_use_def)

text \<open>Fetch a page, possibly replace its contents, unpin it.\<close>

lemma fetch_put_unpin:
  assumes s: "ready s" and p: "view s pid = Some p"
  obtains f s1 where "fetch pid s = (Some f, s1)" and "page f s1 = p" and "inv s1"
    and "view s1 = view s"
    and "\<And>p' d. length p' = kPageSize \<Longrightarrow> d \<or> p' = p \<Longrightarrow>
      \<exists>s2. unpin pid d (put f p' s1) = (True, s2) \<and> ready s2 \<and> same_use s s2 \<and>
        view s2 = (view s)(pid \<mapsto> p') \<and> avail s2 = avail s"
proof -
  have inv: "inv s" and sync: "\<And>q. synced s q" and room: "card {q. 0 < pins s q} < cap s"
    using s by (auto simp: ready_def)
  from fetch_law [OF inv p] room obtain f s1 where
    f: "fetch pid s = (Some f, s1)" "inv s1" "addr s1 pid = Some f" "view s1 = view s"
      "pins s1 = (pins s)(pid := pins s pid + 1)" "cap s1 = cap s" "avail s1 = avail s"
      "\<And>q. synced s1 q"
    using sync by blast
  have pg: "page f s1 = p" using page_view f p by simp
  have "\<exists>s2. unpin pid d (put f p' s1) = (True, s2) \<and> ready s2 \<and> same_use s s2 \<and>
      view s2 = (view s)(pid \<mapsto> p') \<and> avail s2 = avail s"
    if len: "length p' = kPageSize" and d: "d \<or> p' = p" for p' d
  proof -
    let ?s = "put f p' s1"
    have w: "inv ?s" "view ?s = (view s)(pid \<mapsto> p')" "pins ?s = (pins s)(pid := pins s pid + 1)"
      "cap ?s = cap s" "avail ?s = avail s" "\<And>q. q \<noteq> pid \<Longrightarrow> synced ?s q"
      using put_law [OF f(2,3) _ _ len] f p by auto
    have d': "d \<or> synced ?s pid \<or> 1 < pins ?s pid"
      using d put_same [of f s1] pg f(8) by auto
    from w(1,3) unpin_law [OF w(1) _ d'] obtain s2 where u: "unpin pid d ?s = (True, s2)" "inv s2"
      "view s2 = view ?s" "pins s2 = (pins ?s)(pid := pins ?s pid - 1)" "cap s2 = cap ?s"
      "avail s2 = avail ?s" "\<And>q. synced ?s q \<Longrightarrow> synced s2 q" "d \<Longrightarrow> synced s2 pid"
      by auto
    have "synced s2 q" for q
      using u(7) [of q] w(6) [of q] u(8) d put_same [of f s1] pg f(8) by (cases "q = pid") auto
    moreover have "same_use s s2" using u w by (simp add: same_use_def)
    ultimately have "ready s2" using ready_keep [OF s u(2)] by blast
    with u w \<open>same_use s s2\<close> show ?thesis by auto
  qed
  with that f pg show thesis by blast
qed

text \<open>Allocate a page, fill it, unpin it.\<close>

lemma alloc_put_unpin:
  assumes s: "ready s" and av: "0 < avail s"
  obtains f pid s1 where "alloc s = (Some (f, pid), s1)" and "view s pid = None"
    and "pid \<noteq> kInvalidPageId" and "page f s1 = Page_Reset"
    and "\<And>p'. length p' = kPageSize \<Longrightarrow>
      \<exists>s2. unpin pid True (put f p' s1) = (True, s2) \<and> ready s2 \<and> same_use s s2 \<and>
        view s2 = (view s)(pid \<mapsto> p') \<and> Suc (avail s2) = avail s"
proof -
  have inv: "inv s" and sync: "\<And>q. synced s q" and room: "card {q. 0 < pins s q} < cap s"
    using s by (auto simp: ready_def)
  from alloc_law [OF inv room av] obtain f pid s1 where
    f: "alloc s = (Some (f, pid), s1)" "inv s1" "addr s1 pid = Some f" "view s pid = None"
      "view s1 = (view s)(pid \<mapsto> Page_Reset)" "pins s pid = 0" "pins s1 = (pins s)(pid := 1)"
      "cap s1 = cap s" "Suc (avail s1) = avail s" "\<And>q. synced s1 q"
    using sync by blast
  have "pid \<noteq> kInvalidPageId" using no_invalid_page [OF f(2)] f(5) by auto
  moreover have "page f s1 = Page_Reset" using page_view [OF f(2,3)] f(5) by simp
  moreover have "\<exists>s2. unpin pid True (put f p' s1) = (True, s2) \<and> ready s2 \<and> same_use s s2 \<and>
      view s2 = (view s)(pid \<mapsto> p') \<and> Suc (avail s2) = avail s"
    if len: "length p' = kPageSize" for p'
  proof -
    let ?s = "put f p' s1"
    have w: "inv ?s" "view ?s = (view s)(pid \<mapsto> p')" "pins ?s = (pins s)(pid := 1)"
      "cap ?s = cap s" "avail ?s = avail s1" "\<And>q. q \<noteq> pid \<Longrightarrow> synced ?s q"
      using put_law [OF f(2,3) _ _ len] f by auto
    from w(1,3) unpin_law [OF w(1), of pid True] obtain s2 where u: "unpin pid True ?s = (True, s2)"
      "inv s2" "view s2 = view ?s" "pins s2 = (pins ?s)(pid := pins ?s pid - 1)" "cap s2 = cap ?s"
      "avail s2 = avail ?s" "\<And>q. synced ?s q \<Longrightarrow> synced s2 q" "synced s2 pid"
      by auto
    have "synced s2 q" for q using u(7) [of q] w(6) [of q] u(8) by (cases "q = pid") auto
    moreover have "same_use s s2" using u w f(6) by (auto simp: same_use_def)
    ultimately have "ready s2" using ready_keep [OF s u(2)] by blast
    with u w f(9) \<open>same_use s s2\<close> show ?thesis by auto
  qed
  ultimately show thesis using that [OF f(1,4)] by blast
qed

lemma fetch_unknown_ready:
  assumes s: "ready s" and "view s pid = None" and "pid \<noteq> kHeaderPageId"
  obtains s' where "fetch pid s = (None, s')" and "ready s'" and "same_use s s'" and "view s' = view s"
    and "avail s' = avail s"
  using fetch_unknown [OF ready_inv [OF s] assms(2,3)] s by (auto simp: ready_def same_use_def)

end

interpretation pool: page_cache bp_wf bp_view bp_pins bp_addr bp_synced
  "\<lambda>bp. length (bp_frames bp)" bp_avail BufferPool_FetchPage BufferPool_NewPage
  BufferPool_UnpinPage BufferPool_page BufferPool_put
proof (unfold_locales, goal_cases)
  case (1 s pid)
  then show ?case by (rule bp_wfD)
next
  case (2 s pid p)
  then show ?case by (rule view_length)
next
  case (3 s)
  then show ?case by (rule view_invalid)
next
  case (4 s pid f p)
  then show ?case by (simp add: bp_view_def split: if_splits)
next
  case (5 f s)
  then show ?case by (simp add: BufferPool_put_def BufferPool_page_def)
next
  case (6 s pid p)
  show ?case
  proof (cases "bp_addr s pid")
    case None
    then have "bp_room s" using 6(3) by (simp add: bp_room_def bp_pins_def [of s pid])
    from 6(1) None this view_in_range [OF 6(2)] obtain i s' where
      "BufferPool_FetchPage pid s = (Some i, s')" "bp_handed s pid i s'" "bp_view s' = bp_view s"
      "bp_avail s' = bp_avail s"
      by (rule FetchPage_absent)
    then show ?thesis by (intro exI [of _ i] exI [of _ s']) (simp add: bp_handed_def)
  next
    case (Some i)
    from 6(1) Some obtain s' where
      "BufferPool_FetchPage pid s = (Some i, s')" "bp_handed s pid i s'" "bp_view s' = bp_view s"
      "bp_avail s' = bp_avail s"
      by (rule FetchPage_resident)
    then show ?thesis by (intro exI [of _ i] exI [of _ s']) (simp add: bp_handed_def)
  qed
next
  case (7 s pid)
  then have "pm_page_count (bp_page_manager s) \<le> unat pid"
    by (auto simp: bp_view_def pm_valid_def kHeaderPageId_def word_eq_iff_unat split: if_splits)
  with 7(1) show ?case by (rule FetchPage_bad) metis
next
  case (8 s)
  then have "bp_room s" by (simp add: bp_room_def)
  from 8(1) this 8(3) obtain i pid bp' where
    n: "BufferPool_NewPage s = (Some (i, pid), bp')" "bp_handed s pid i bp'" "bp_view s pid = None"
      "bp_view bp' = (bp_view s)(pid \<mapsto> Page_Reset)" "bp_pins s pid = 0" "Suc (bp_avail bp') = bp_avail s"
    by (rule NewPage_live)
  then show ?case by (intro exI [of _ i] exI [of _ pid] exI [of _ bp']) (simp add: bp_handed_def)
next
  case (9 s pid f p')
  then show ?case using put_live [OF 9(1-3,5,4)] by simp
next
  case (10 s pid d)
  then show ?case by (rule UnpinPage_live) metis
qed

section \<open>Flushing and durability\<close>

lemma flush_frame_live:
  assumes wf: "bp_wf bp" and at: "bp_addr bp pid = Some i"
  obtains bp' where "BufferPool_flush_frame pid i bp = (Status_OK, bp')" and "bp_wf bp'"
    and "bp_view bp' = bp_view bp" and "bp_addr bp' = bp_addr bp"
    and "\<And>q. bp_synced bp q \<Longrightarrow> bp_synced bp' q"
    and "\<And>j. fr_is_dirty (bp_frames bp' ! j) \<longleftrightarrow> j \<noteq> i \<and> fr_is_dirty (bp_frames bp ! j)"
proof -
  note bp = bp_wfD [OF wf]
  have t: "map_of (bp_page_table bp) pid = Some i" using at by (simp add: bp_addr_def)
  note r = resident_frame [OF bp(1) t]
  let ?f = "bp_frames bp ! i"
  from bp(2) r(4,5) obtain pm where
    w: "PageManager_WritePage pid (fr_page ?f) (bp_page_manager bp) = (Status_OK, pm)" "pm_live pm"
      "pm_page_count pm = pm_page_count (bp_page_manager bp)" "pm_page pm pid = fr_page ?f"
      "\<And>q. unat q < pm_page_count (bp_page_manager bp) \<Longrightarrow> q \<noteq> pid \<Longrightarrow>
         pm_page pm q = pm_page (bp_page_manager bp) q"
    by (rule WritePage_live) blast
  let ?bp1 = "bp\<lparr>bp_page_manager := pm\<rparr>"
  define bp' where "bp' = ?bp1\<lparr>bp_frames := (bp_frames bp)[i := ?f\<lparr>fr_is_dirty := False\<rparr>]\<rparr>"
  have ff: "BufferPool_flush_frame pid i bp = (Status_OK, bp')"
    using w(1) by (simp add: BufferPool_flush_frame_def bp'_def)
  have addr: "bp_addr bp' = bp_addr bp" and pm': "bp_page_manager bp' = pm"
    and frames: "bp_frames bp' = (bp_frames bp)[i := ?f\<lparr>fr_is_dirty := False\<rparr>]"
    by (simp_all add: bp'_def bp_addr_def fun_eq_iff)
  have page: "BufferPool_page j bp' = BufferPool_page j bp"
    "fr_is_dirty (bp_frames bp' ! j) \<longleftrightarrow> j \<noteq> i \<and> fr_is_dirty (bp_frames bp ! j)"
    "fr_pin_count (bp_frames bp' ! j) = fr_pin_count (bp_frames bp ! j)" for j
    using r(1) by (cases "j = i"; simp add: BufferPool_page_def frames)+
  have valid: "pm_valid pm q = pm_valid (bp_page_manager bp) q" for q using w(3) by (simp add: pm_valid_def)
  have disk: "pm_page pm q = pm_page (bp_page_manager bp) q"
    if "pm_valid (bp_page_manager bp) q" "q \<noteq> pid" for q
    using w(5) that by (simp add: pm_valid_def)
  have view: "bp_view bp' q = bp_view bp q" for q
    using at disk [of q] by (cases "q = pid") (auto simp: bp_view_def addr pm' valid page split: option.splits)
  have sync: "bp_synced bp' q" if "bp_synced bp q" for q
  proof (cases "q = pid")
    case True
    with w(4) at show ?thesis by (simp add: bp_synced_def addr pm' page(1) BufferPool_page_def [of i bp])
  next
    case False
    with addr_inj [OF bp(1) at, of q] have "bp_addr bp q \<noteq> Some i" by auto
    with that disk [OF _ False] show ?thesis
      by (simp add: bp_synced_def addr pm' valid page(1,2) split: option.splits)
  qed
  have "bp_struct {} ?bp1" using bp(1) w(2,3) by (intro pm_struct) (simp_all add: pm_live_def pm_wf_def)
  then have "bp_struct {} bp'" unfolding bp'_def
    using r(1) by (intro dirty_struct [of ?bp1, simplified]) simp_all
  then have "bp_wf bp'"
    using w(2) bp(3) sync by (simp add: bp_wf_def pm' bp_pins_def addr page split: option.splits)
  then show thesis using that [OF ff] view addr sync page(2) by (simp add: fun_eq_iff)
qed

lemma flush_entries_live:
  assumes "bp_wf bp" and "\<And>q. bp_synced bp q" and "\<And>pid i. (pid, i) \<in> set es \<Longrightarrow> bp_addr bp pid = Some i"
  shows "\<exists>bp'. BufferPool_flush_entries es bp = (Status_OK, bp') \<and> bp_wf bp' \<and>
     bp_view bp' = bp_view bp \<and> bp_addr bp' = bp_addr bp \<and> (\<forall>q. bp_synced bp' q) \<and>
     (\<forall>i. i \<in> snd ` set es \<longrightarrow> \<not> fr_is_dirty (bp_frames bp' ! i)) \<and>
     (\<forall>i. fr_is_dirty (bp_frames bp' ! i) \<longrightarrow> fr_is_dirty (bp_frames bp ! i))"
  using assms
proof (induction es arbitrary: bp)
  case Nil
  then show ?case by auto
next
  case (Cons e es)
  obtain pid i where e: "e = (pid, i)" by fastforce
  show ?case
  proof (cases "fr_is_dirty (bp_frames bp ! i)")
    case True
    have "bp_addr bp pid = Some i" using Cons.prems(3) e by simp
    with Cons.prems(1) obtain bp1 where f: "BufferPool_flush_frame pid i bp = (Status_OK, bp1)"
      "bp_wf bp1" "bp_view bp1 = bp_view bp" "bp_addr bp1 = bp_addr bp"
      "\<And>q. bp_synced bp q \<Longrightarrow> bp_synced bp1 q"
      "\<And>j. fr_is_dirty (bp_frames bp1 ! j) \<longleftrightarrow> j \<noteq> i \<and> fr_is_dirty (bp_frames bp ! j)"
      by (rule flush_frame_live) blast
    from Cons.IH [OF f(2)] Cons.prems(2,3) f(4,5) obtain bp' where
      "BufferPool_flush_entries es bp1 = (Status_OK, bp')" "bp_wf bp'" "bp_view bp' = bp_view bp1"
      "bp_addr bp' = bp_addr bp1" "\<forall>q. bp_synced bp' q"
      "\<forall>i. i \<in> snd ` set es \<longrightarrow> \<not> fr_is_dirty (bp_frames bp' ! i)"
      "\<forall>i. fr_is_dirty (bp_frames bp' ! i) \<longrightarrow> fr_is_dirty (bp_frames bp1 ! i)"
      by fastforce
    with f True show ?thesis by (auto simp: e)
  next
    case False
    from Cons.IH [OF Cons.prems(1,2)] Cons.prems(3) obtain bp' where
      "BufferPool_flush_entries es bp = (Status_OK, bp')" "bp_wf bp'" "bp_view bp' = bp_view bp"
      "bp_addr bp' = bp_addr bp" "\<forall>q. bp_synced bp' q"
      "\<forall>i. i \<in> snd ` set es \<longrightarrow> \<not> fr_is_dirty (bp_frames bp' ! i)"
      "\<forall>i. fr_is_dirty (bp_frames bp' ! i) \<longrightarrow> fr_is_dirty (bp_frames bp ! i)"
      by fastforce
    with False show ?thesis by (auto simp: e)
  qed
qed

text \<open>
  Flushing the entries of the page table, in whatever order the hash map yields them, puts every
  page on disk.
\<close>

lemma flush_table:
  assumes wf: "bp_wf bp" and sync: "\<And>q. bp_synced bp q" and es: "set es = set (bp_page_table bp)"
  obtains bp' where "BufferPool_flush_entries es bp = (Status_OK, bp')" and "bp_wf bp'"
    and "bp_view bp' = bp_view bp"
    and "\<And>pid p. bp_view bp pid = Some p \<Longrightarrow> pm_page (bp_page_manager bp') pid = p"
proof -
  have tab: "table_ok bp" using bp_structD(4) [OF bp_wfD(1) [OF wf]] .
  have at: "bp_addr bp pid = Some i \<longleftrightarrow> (pid, i) \<in> set es" for pid i
    unfolding bp_addr_def es using tab by (intro map_of_eq_Some_iff) (simp add: table_ok_def)
  obtain bp' where f: "BufferPool_flush_entries es bp = (Status_OK, bp')" "bp_wf bp'"
    "bp_view bp' = bp_view bp" "bp_addr bp' = bp_addr bp" "\<And>q. bp_synced bp' q"
    "\<And>i. i \<in> snd ` set es \<Longrightarrow> \<not> fr_is_dirty (bp_frames bp' ! i)"
    using flush_entries_live [OF wf sync, of es] at by blast
  have "pm_page (bp_page_manager bp') pid = p" if p: "bp_view bp pid = Some p" for pid p
  proof (cases "bp_addr bp pid")
    case None
    with p show ?thesis using f(3,4) by (metis bp_view_def option.case(1) option.distinct(1) option.inject)
  next
    case (Some i)
    then have "i \<in> snd ` set es" using at by force
    moreover have "bp_view bp' pid = Some p" using p f(3) by simp
    ultimately show ?thesis
      using f(4) f(5) [of pid] f(6) [of i] Some by (auto simp: bp_view_def bp_synced_def split: if_splits)
  qed
  with f that show thesis by blast
qed

text \<open>
  Durability: everything a client has written survives \<open>FlushAll\<close>, closing the file and
  opening it again with an empty pool of any size.
\<close>

lemma flush_reopen:
  assumes wf: "bp_wf bp" and sync: "\<And>q. bp_synced bp q"
  obtains bp' where "BufferPool_FlushAll bp = (Status_OK, bp')"
    and "bp_wf (BufferPool_new (PageManager_open ReadWrite (Some (PageManager_close (bp_page_manager bp'))) []) n)"
    and "bp_view (BufferPool_new (PageManager_open ReadWrite (Some (PageManager_close (bp_page_manager bp'))) []) n)
       = bp_view bp"
proof -
  from wf sync obtain bp' where f: "BufferPool_FlushAll bp = (Status_OK, bp')" "bp_wf bp'"
    "bp_view bp' = bp_view bp" "\<And>pid p. bp_view bp pid = Some p \<Longrightarrow> pm_page (bp_page_manager bp') pid = p"
    using flush_table [OF wf sync refl] unfolding BufferPool_FlushAll_def by metis
  let ?pm = "PageManager_open ReadWrite (Some (PageManager_close (bp_page_manager bp'))) []"
  note r = PageManager_reopen [OF bp_wfD(2) [OF f(2)]]
  have valid: "pm_valid ?pm q = pm_valid (bp_page_manager bp') q" for q using r(2) by (simp add: pm_valid_def)
  have "bp_view (BufferPool_new ?pm n) q = bp_view bp q" for q
  proof (cases "pm_valid (bp_page_manager bp') q")
    case True
    then obtain p where "bp_view bp q = Some p" using f(3) by (metis bp_view_def)
    with f(4) [OF this] r(4) [OF True] True show ?thesis by (simp add: bp_view_new valid)
  next
    case False
    then have "bp_view bp q = None" using f(3) by (metis bp_view_def)
    with False show ?thesis by (simp add: bp_view_new valid)
  qed
  then have "bp_view (BufferPool_new ?pm n) = bp_view bp" by (rule ext)
  with that [OF f(1)] bp_wf_new [OF r(1)] show thesis by blast
qed

section \<open>Reachable pools\<close>

text \<open>
  The states a pool goes through, whatever its clients do: any sequence of calls, with writes
  through the pointers of pinned pages in between. The device may fail at any time.
\<close>

inductive bp_step :: "BufferPool \<Rightarrow> BufferPool \<Rightarrow> bool" where
  fetch: "bp_step bp (snd (BufferPool_FetchPage pid bp))"
| new_page: "Suc (pm_page_count (bp_page_manager bp)) < 2 ^ 31 \<Longrightarrow> bp_step bp (snd (BufferPool_NewPage bp))"
| unpin: "bp_step bp (snd (BufferPool_UnpinPage pid d bp))"
| put: "bp_addr bp pid = Some i \<Longrightarrow> 0 < bp_pins bp pid \<Longrightarrow> length page = kPageSize \<Longrightarrow>
    bp_step bp (BufferPool_put i page bp)"
| flush: "bp_step bp (snd (BufferPool_FlushPage pid bp))"
| flush_all: "bp_step bp (snd (BufferPool_FlushAll bp))"
| reset_stats: "bp_step bp (BufferPool_ResetStats bp)"

inductive bp_reachable :: "PageManager \<Rightarrow> nat \<Rightarrow> BufferPool \<Rightarrow> bool" for pm n where
  start: "bp_reachable pm n (BufferPool_new pm n)"
| step: "bp_reachable pm n bp \<Longrightarrow> bp_step bp bp' \<Longrightarrow> bp_reachable pm n bp'"

lemma flush_frame_struct [preserves]:
  assumes bp: "bp_struct {} bp" and i: "i < length (bp_frames bp)"
  shows "bp_struct {} (snd (BufferPool_flush_frame pid i bp))"
    and "length (bp_frames (snd (BufferPool_flush_frame pid i bp))) = length (bp_frames bp)"
proof -
  obtain st pm where w: "PageManager_WritePage pid (fr_page (bp_frames bp ! i)) (bp_page_manager bp) = (st, pm)"
    by fastforce
  have cnt: "pm_page_count pm = pm_page_count (bp_page_manager bp)"
    "pm_next_page_id pm = pm_next_page_id (bp_page_manager bp)"
    using WritePage_counts [of pid "fr_page (bp_frames bp ! i)" "bp_page_manager bp"] w by simp_all
  have bp1: "bp_struct {} (bp\<lparr>bp_page_manager := pm\<rparr>)"
    using bp bp_structD(1) [OF bp] cnt by (intro pm_struct) (simp_all add: pm_count_ok_def)
  show "bp_struct {} (snd (BufferPool_flush_frame pid i bp))"
    using bp1 dirty_struct [OF bp1, of i False] i w by (simp add: BufferPool_flush_frame_def Let_def)
  show "length (bp_frames (snd (BufferPool_flush_frame pid i bp))) = length (bp_frames bp)"
    using w by (simp add: BufferPool_flush_frame_def Let_def)
qed

lemma flush_entries_struct [preserves]:
  assumes "bp_struct {} bp" and "\<And>pid i. (pid, i) \<in> set es \<Longrightarrow> i < length (bp_frames bp)"
  shows "bp_struct {} (snd (BufferPool_flush_entries es bp))"
  using assms
proof (induction es arbitrary: bp)
  case (Cons e es)
  obtain pid i where e: "e = (pid, i)" by fastforce
  have i: "i < length (bp_frames bp)" using Cons.prems(2) [of pid i] e by simp
  note f = flush_frame_struct [OF Cons.prems(1) i, of pid]
  have "bp_struct {} (snd (BufferPool_flush_entries es (snd (BufferPool_flush_frame pid i bp))))"
    using f Cons.prems(2) by (intro Cons.IH) auto
  moreover have "bp_struct {} (snd (BufferPool_flush_entries es bp))"
    using Cons.prems by (intro Cons.IH) auto
  ultimately show ?case using f(1) by (auto simp: e split: prod.splits)
qed simp

lemma bp_step_struct:
  assumes "bp_step bp bp'" and bp: "bp_struct {} bp"
  shows "bp_struct {} bp'"
  using assms(1)
proof cases
  case (put pid i page)
  then show ?thesis using resident_frame(1) [OF bp] put_struct [OF bp] by (simp add: bp_addr_def)
next
  case (flush pid)
  then show ?thesis
    using bp resident_frame(1) [OF bp] flush_frame_struct(1) [OF bp]
    by (auto simp: BufferPool_FlushPage_def split: option.splits)
next
  case flush_all
  have "i < length (bp_frames bp)" if "(pid, i) \<in> set (bp_page_table bp)" for pid i
    using that bp_structD(4) [OF bp] map_of_is_SomeI [of "bp_page_table bp" pid i]
    by (auto simp: table_ok_def)
  then show ?thesis using flush_all flush_entries_struct [OF bp] by (simp add: BufferPool_FlushAll_def)
next
  case reset_stats
  then show ?thesis using bp
    by (simp add: BufferPool_ResetStats_def bp_struct_def table_ok_def frame_ok_def Let_def)
qed (use bp in \<open>simp_all add: preserves\<close>)

lemma bp_reachable_struct: "bp_reachable pm n bp \<Longrightarrow> pm_count_ok pm \<Longrightarrow> bp_struct {} bp"
  by (induction rule: bp_reachable.induct) (auto simp: bp_struct_new intro: bp_step_struct)

lemma pool_ready_new: "pm_live pm \<Longrightarrow> 0 < n \<Longrightarrow> pool.ready (BufferPool_new pm n)"
  using bp_wfD(3) [OF bp_wf_new [of pm n]]
  by (simp add: pool.ready_def bp_wf_new bp_pins_new) (simp add: BufferPool_new_def)

lemma avail_new: "bp_avail (BufferPool_new pm n) = 2 ^ 31 - 1 - pm_page_count pm"
  by (simp add: bp_avail_def BufferPool_new_def)

section \<open>Properties of the buffer pool\<close>

text \<open>
  C11. In every state a pool can reach, each frame is in exactly one place, on the free list, in the
  replacer, or pinned, and the page table maps a page to a frame exactly when the frame holds that
  page. This holds even when writes to the file fail.
\<close>

theorem frames_partitioned:
  assumes "bp_reachable pm n bp" and "pm_count_ok pm" and "i < length (bp_frames bp)"
  shows "of_bool (i \<in> set (bp_free_list bp)) + of_bool (i \<in> lru_set (bp_replacer bp)) +
      of_bool (0 < fr_pin_count (bp_frames bp ! i)) = (1 :: nat) \<and>
    (map_of (bp_page_table bp) pid = Some i \<longleftrightarrow>
      pid \<noteq> kInvalidPageId \<and> fr_page_id (bp_frames bp ! i) = pid)"
proof -
  have bp: "bp_struct {} bp" by (rule bp_reachable_struct [OF assms(1,2)])
  from bp_structD(7) [OF bp assms(3)] table_Some [OF bp_structD(4) [OF bp]] assms(3)
  show ?thesis by (auto simp: frame_ok_def Let_def)
qed

definition demo_pm :: PageManager where
  "demo_pm = PageManager_open ReadWrite None []"

definition demo_pool :: BufferPool where
  "demo_pool = BufferPool_new demo_pm 4"

lemma demo_pm_ok: "pm_live demo_pm" "pm_count_ok demo_pm" "pm_page_count demo_pm = 1"
  using PageManager_open_new by (simp_all add: demo_pm_def pm_live_def pm_wf_def)

lemma demo_pool_ok: "bp_wf demo_pool" "pool.ready demo_pool" "bp_room demo_pool" "0 < bp_avail demo_pool"
  using bp_wf_new [OF demo_pm_ok(1)] pool_ready_new [OF demo_pm_ok(1)] avail_new [of demo_pm 4] demo_pm_ok(3)
  by (simp_all add: demo_pool_def bp_room_def bp_pins_new) (simp add: BufferPool_new_def)

theorem frames_partitioned_witness:
  "of_bool (0 \<in> set (bp_free_list demo_pool)) + of_bool (0 \<in> lru_set (bp_replacer demo_pool)) +
      of_bool (0 < fr_pin_count (bp_frames demo_pool ! 0)) = (1 :: nat)"
  using frames_partitioned [of demo_pm 4 demo_pool 0 1] bp_reachable.start [of demo_pm 4] demo_pm_ok(2)
  by (simp add: demo_pool_def) (simp add: BufferPool_new_def)

text \<open>
  C10. \<open>FetchPage\<close> implements lookup in the map of pages: if a frame is free, or the page is
  pinned already, it returns a frame that holds the current contents of the page; no page changes
  its contents, the page is pinned once more, and pinned pages stay where they are, so the
  pointers clients hold remain valid.
\<close>

theorem FetchPage_refines:
  assumes "bp_wf bp" and "bp_view bp pid = Some p" and "bp_room bp \<or> 0 < bp_pins bp pid"
  shows "\<exists>i bp'. BufferPool_FetchPage pid bp = (Some i, bp') \<and> BufferPool_page i bp' = p \<and> bp_wf bp' \<and>
    bp_view bp' = bp_view bp \<and> bp_pins bp' = (bp_pins bp)(pid := bp_pins bp pid + 1) \<and>
    (\<forall>q. 0 < bp_pins bp q \<longrightarrow> bp_addr bp' q = bp_addr bp q)"
proof -
  obtain i bp' where f: "BufferPool_FetchPage pid bp = (Some i, bp')" "bp_wf bp'" "bp_addr bp' pid = Some i"
    "bp_view bp' = bp_view bp" "bp_pins bp' = (bp_pins bp)(pid := bp_pins bp pid + 1)"
    "\<forall>q. 0 < bp_pins bp q \<longrightarrow> bp_addr bp' q = bp_addr bp q"
    using pool.fetch_law [OF assms(1,2)] assms(3) unfolding bp_room_def by blast
  moreover have "BufferPool_page i bp' = p" using pool.page_view [OF f(2,3)] f(4) assms(2) by simp
  ultimately show ?thesis by blast
qed

lemma demo_page:
  obtains pid bp where "bp_wf bp" and "bp_view bp pid = Some Page_Reset" and "0 < bp_pins bp pid"
    and "bp = snd (BufferPool_NewPage demo_pool)" and "\<And>q. bp_synced bp q"
proof -
  from demo_pool_ok(1,3,4) obtain i pid bp where n: "BufferPool_NewPage demo_pool = (Some (i, pid), bp)"
    "bp_handed demo_pool pid i bp" "bp_view bp = (bp_view demo_pool)(pid \<mapsto> Page_Reset)"
    by (rule NewPage_live)
  have sync: "bp_synced demo_pool q" for q using demo_pool_ok(2) by (simp add: pool.ready_def)
  have h: "bp_wf bp" "bp_pins bp pid = Suc (bp_pins demo_pool pid)" "\<And>q. bp_synced demo_pool q \<Longrightarrow> bp_synced bp q"
    using n(2) by (simp_all add: bp_handed_def)
  show thesis
  proof (rule that)
    show "bp_wf bp" "0 < bp_pins bp pid" "\<And>q. bp_synced bp q" using h sync by simp_all
    show "bp_view bp pid = Some Page_Reset" "bp = snd (BufferPool_NewPage demo_pool)" using n by simp_all
  qed
qed

theorem FetchPage_refines_witness:
  "\<exists>pid i bp'. BufferPool_FetchPage pid (snd (BufferPool_NewPage demo_pool)) = (Some i, bp') \<and>
     BufferPool_page i bp' = Page_Reset"
proof -
  obtain pid bp where "bp_wf bp" "bp_view bp pid = Some Page_Reset" "0 < bp_pins bp pid"
    and bp: "bp = snd (BufferPool_NewPage demo_pool)" by (rule demo_page)
  then have "\<exists>i bp'. BufferPool_FetchPage pid bp = (Some i, bp') \<and> BufferPool_page i bp' = Page_Reset"
    using FetchPage_refines [of bp pid Page_Reset] by blast
  then show ?thesis unfolding bp by blast
qed

text \<open>
  On a working device \<open>FetchPage\<close> returns a null pointer exactly when the page is not in the
  pool and either every frame is pinned or the page id is not below the page count of the file.
\<close>

theorem FetchPage_null_iff:
  assumes wf: "bp_wf bp"
  shows "fst (BufferPool_FetchPage pid bp) = None \<longleftrightarrow>
    bp_addr bp pid = None \<and> (\<not> bp_room bp \<or> pm_page_count (bp_page_manager bp) \<le> unat pid)"
proof (cases "bp_addr bp pid")
  case (Some i)
  from wf Some obtain bp' where "BufferPool_FetchPage pid bp = (Some i, bp')" by (rule FetchPage_resident)
  with Some show ?thesis by simp
next
  case None
  show ?thesis
  proof (cases "unat pid < pm_page_count (bp_page_manager bp) \<and> bp_room bp")
    case True
    from wf None conjunct2 [OF True] conjunct1 [OF True]
    obtain i bp' where "BufferPool_FetchPage pid bp = (Some i, bp')" by (rule FetchPage_absent)
    with True show ?thesis by simp
  next
    case False
    let ?bp1 = "bp\<lparr>bp_miss_count := bp_miss_count bp + 1\<rparr>"
    have pins: "bp_pins ?bp1 = bp_pins bp" by (rule bp_obs_cong) simp_all
    have "fst (BufferPool_FetchPage pid bp) = None" if "\<not> bp_room bp"
    proof -
      have "fst (BufferPool_FindVictimFrame ?bp1) = None"
        using that bp_wfD(1) [OF wf] unfolding FindVictim_None_iff [OF bp_struct_miss [THEN iffD2, OF bp_wfD(1) [OF wf]]]
        by (simp only: bp_room_def pins) simp
      with None show ?thesis by (auto simp: BufferPool_FetchPage_def bp_addr_def split: prod.splits option.splits)
    qed
    moreover have "fst (BufferPool_FetchPage pid bp) = None" if "pm_page_count (bp_page_manager bp) \<le> unat pid"
    proof -
      from wf that obtain bp' where "BufferPool_FetchPage pid bp = (None, bp')" by (rule FetchPage_bad)
      then show ?thesis by simp
    qed
    ultimately show ?thesis using False None by auto
  qed
qed

theorem FetchPage_null_iff_witness: "fst (BufferPool_FetchPage 7 demo_pool) = None"
  using FetchPage_null_iff [OF demo_pool_ok(1), of 7] demo_pm_ok(3)
  by (simp add: demo_pool_def BufferPool_new_def bp_addr_def)

text \<open>
  C8. Durability: if no page has unsaved changes, \<open>FlushAll\<close> succeeds, and after closing the
  file and opening it again, with an empty pool of any size, every page has the contents the
  clients last wrote.
\<close>

theorem FlushAll_durable:
  assumes "bp_wf bp" and "\<forall>q. bp_synced bp q"
  shows "\<exists>bp'. BufferPool_FlushAll bp = (Status_OK, bp') \<and>
    bp_view (BufferPool_new (PageManager_open ReadWrite (Some (PageManager_close (bp_page_manager bp'))) []) n) = bp_view bp"
  using flush_reopen [OF assms(1), of n] assms(2) by metis

theorem FlushAll_durable_witness:
  "\<exists>pid bp'. BufferPool_FlushAll (snd (BufferPool_NewPage demo_pool)) = (Status_OK, bp') \<and>
    bp_view (BufferPool_new (PageManager_open ReadWrite (Some (PageManager_close (bp_page_manager bp'))) []) 1) pid
      = Some Page_Reset"
proof -
  obtain pid bp where "bp_wf bp" and v: "bp_view bp pid = Some Page_Reset" and "\<And>q. bp_synced bp q"
    and bp: "bp = snd (BufferPool_NewPage demo_pool)" using demo_page by metis
  then obtain bp' where "BufferPool_FlushAll bp = (Status_OK, bp')"
    "bp_view (BufferPool_new (PageManager_open ReadWrite (Some (PageManager_close (bp_page_manager bp'))) []) 1) = bp_view bp"
    using FlushAll_durable [of bp 1] by blast
  with v show ?thesis unfolding bp by metis
qed

end
