(* ===== verification/Slotted_Page.thy ===== *)
theory Slotted_Page
  imports Bytes
begin

text \<open>
  The slotted-page layout of \<open>src/storage/slotted_page.hpp\<close>, byte for byte: a 12-byte
  header, a directory of 4-byte slots that grows upwards and record bytes that grow downwards
  from the end of the page. A tombstone is a slot of length 0. The operations of class
  \<open>SlottedPage\<close> read and return the 4096-byte page they are a view of.

  The abstract view \<open>sp_slots\<close> is the list of slots, each holding a record or nothing;
  the lemmas show that every operation implements an update of that list and keeps the layout
  invariant \<open>sp_wf\<close>.
\<close>

record PageHeader =
  hdr_page_id :: page_id_t
  hdr_next_page_id :: page_id_t
  hdr_slot_count :: u16
  hdr_free_space_offset :: u16

record Slot =
  slot_offset :: u16
  slot_length :: u16

definition kHeaderSize :: nat where
  "kHeaderSize = 4 * 2 + 2 * 2"

definition kSlotSize :: nat where
  "kSlotSize = 2 * 2"

definition SlottedPage_ReadHeader :: "Page \<Rightarrow> PageHeader" where
  "SlottedPage_ReadHeader p =
     \<lparr>hdr_page_id = read_at 0 p, hdr_next_page_id = read_at 4 p,
      hdr_slot_count = read_at 8 p, hdr_free_space_offset = read_at 10 p\<rparr>"

definition SlottedPage_WriteHeader :: "PageHeader \<Rightarrow> Page \<Rightarrow> Page" where
  "SlottedPage_WriteHeader h p =
     write_at 10 (hdr_free_space_offset h)
      (write_at 8 (hdr_slot_count h)
        (write_at 4 (hdr_next_page_id h)
          (write_at 0 (hdr_page_id h) p)))"

definition SlottedPage_ReadSlot :: "Page \<Rightarrow> slot_id_t \<Rightarrow> Slot" where
  "SlottedPage_ReadSlot p i =
     (let base = kHeaderSize + unat i * kSlotSize
      in \<lparr>slot_offset = read_at base p, slot_length = read_at (base + 2) p\<rparr>)"

definition SlottedPage_WriteSlot :: "slot_id_t \<Rightarrow> Slot \<Rightarrow> Page \<Rightarrow> Page" where
  "SlottedPage_WriteSlot i s p =
     (let base = kHeaderSize + unat i * kSlotSize
      in write_at (base + 2) (slot_length s) (write_at base (slot_offset s) p))"

definition SlottedPage_Init :: "page_id_t \<Rightarrow> page_id_t \<Rightarrow> Page \<Rightarrow> Page" where
  "SlottedPage_Init page_id next_page_id p =
     SlottedPage_WriteHeader
       \<lparr>hdr_page_id = page_id, hdr_next_page_id = next_page_id,
        hdr_slot_count = 0, hdr_free_space_offset = word_of_nat kPageSize\<rparr> p"

definition SlottedPage_PageId :: "Page \<Rightarrow> page_id_t" where
  "SlottedPage_PageId p = hdr_page_id (SlottedPage_ReadHeader p)"

definition SlottedPage_NextPageId :: "Page \<Rightarrow> page_id_t" where
  "SlottedPage_NextPageId p = hdr_next_page_id (SlottedPage_ReadHeader p)"

definition SlottedPage_SetNextPageId :: "page_id_t \<Rightarrow> Page \<Rightarrow> Page" where
  "SlottedPage_SetNextPageId nxt p =
     SlottedPage_WriteHeader ((SlottedPage_ReadHeader p)\<lparr>hdr_next_page_id := nxt\<rparr>) p"

definition SlottedPage_SlotCount :: "Page \<Rightarrow> u16" where
  "SlottedPage_SlotCount p = hdr_slot_count (SlottedPage_ReadHeader p)"

definition SlottedPage_FreeSpace :: "Page \<Rightarrow> nat" where
  "SlottedPage_FreeSpace p =
     (let h = SlottedPage_ReadHeader p;
          directory_end = kHeaderSize + unat (hdr_slot_count h) * kSlotSize
      in if directory_end > unat (hdr_free_space_offset h) then 0
         else unat (hdr_free_space_offset h) - directory_end)"

text \<open>
  \<open>InsertRecord\<close> first looks for a tombstoned slot to reuse, then checks that the
  directory (grown by one slot when none is reused) and the record fit, then writes the
  record bytes, the slot and the header, in this order.
\<close>

definition SlottedPage_reuse_slot :: "Page \<Rightarrow> slot_id_t option" where
  "SlottedPage_reuse_slot p =
     find (\<lambda>i. slot_length (SlottedPage_ReadSlot p i) = 0)
       (map word_of_nat [0..<unat (hdr_slot_count (SlottedPage_ReadHeader p))])"

definition SlottedPage_InsertRecord ::
  "Page \<Rightarrow> byte list \<Rightarrow> u16 \<Rightarrow> slot_id_t option \<times> Page" where
  "SlottedPage_InsertRecord p data len =
     (let h = SlottedPage_ReadHeader p;
          reuse_slot = SlottedPage_reuse_slot p;
          needed_directory_growth = (if reuse_slot \<noteq> None then 0 else kSlotSize);
          directory_end = kHeaderSize + unat (hdr_slot_count h) * kSlotSize;
          needed_before_record = directory_end + needed_directory_growth
      in if needed_before_record > unat (hdr_free_space_offset h) then (None, p)
         else if unat (hdr_free_space_offset h) - needed_before_record < unat len
         then (None, p)
         else
           let new_offset = hdr_free_space_offset h - len;
               p1 = poke (unat new_offset) (take (unat len) data) p;
               slot = \<lparr>slot_offset = new_offset, slot_length = len\<rparr>
           in case reuse_slot of
                Some slot_id \<Rightarrow>
                  (Some slot_id,
                   SlottedPage_WriteHeader (h\<lparr>hdr_free_space_offset := new_offset\<rparr>)
                     (SlottedPage_WriteSlot slot_id slot p1))
              | None \<Rightarrow>
                  (Some (hdr_slot_count h),
                   SlottedPage_WriteHeader
                     (h\<lparr>hdr_slot_count := hdr_slot_count h + 1,
                        hdr_free_space_offset := new_offset\<rparr>)
                     (SlottedPage_WriteSlot (hdr_slot_count h) slot p1)))"

definition SlottedPage_GetRecord :: "Page \<Rightarrow> slot_id_t \<Rightarrow> byte list option" where
  "SlottedPage_GetRecord p slot_id =
     (if slot_id \<ge> SlottedPage_SlotCount p then None
      else let s = SlottedPage_ReadSlot p slot_id
           in if slot_length s = 0 then None
              else Some (peek (unat (slot_offset s)) (unat (slot_length s)) p))"

definition SlottedPage_DeleteRecord :: "Page \<Rightarrow> slot_id_t \<Rightarrow> bool \<times> Page" where
  "SlottedPage_DeleteRecord p slot_id =
     (if slot_id \<ge> SlottedPage_SlotCount p then (False, p)
      else let s = SlottedPage_ReadSlot p slot_id
           in if slot_length s = 0 then (False, p)
              else (True, SlottedPage_WriteSlot slot_id (s\<lparr>slot_length := 0\<rparr>) p))"

definition SlottedPage_UpdateRecordInPlace ::
  "Page \<Rightarrow> slot_id_t \<Rightarrow> byte list \<Rightarrow> u16 \<Rightarrow> bool \<times> Page" where
  "SlottedPage_UpdateRecordInPlace p slot_id data len =
     (if slot_id \<ge> SlottedPage_SlotCount p then (False, p)
      else let s = SlottedPage_ReadSlot p slot_id
           in if slot_length s = 0 then (False, p)
              else if len > slot_length s then (False, p)
              else (True,
                    SlottedPage_WriteSlot slot_id (s\<lparr>slot_length := len\<rparr>)
                      (poke (unat (slot_offset s)) (take (unat len) data) p)))"

definition SlottedPage_IsTombstoned :: "Page \<Rightarrow> slot_id_t \<Rightarrow> bool" where
  "SlottedPage_IsTombstoned p slot_id =
     (if slot_id \<ge> SlottedPage_SlotCount p then True
      else slot_length (SlottedPage_ReadSlot p slot_id) = 0)"

section \<open>Fields of a page\<close>

text \<open>The fields as numbers: slot count, free-space offset, offset and length of slot i.\<close>

definition sp_sc :: "Page \<Rightarrow> nat" where
  "sp_sc p = unat (read_at 8 p :: u16)"

definition sp_fso :: "Page \<Rightarrow> nat" where
  "sp_fso p = unat (read_at 10 p :: u16)"

definition sp_off :: "Page \<Rightarrow> nat \<Rightarrow> nat" where
  "sp_off p i = unat (read_at (12 + i * 4) p :: u16)"

definition sp_len :: "Page \<Rightarrow> nat \<Rightarrow> nat" where
  "sp_len p i = unat (read_at (12 + i * 4 + 2) p :: u16)"

definition sp_rec :: "Page \<Rightarrow> nat \<Rightarrow> byte list option" where
  "sp_rec p i = (if sp_len p i = 0 then None else Some (peek (sp_off p i) (sp_len p i) p))"

definition sp_slots :: "Page \<Rightarrow> byte list option list" where
  "sp_slots p = map (sp_rec p) [0..<sp_sc p]"

text \<open>
  The layout invariant. Live records lie between the free-space offset and the end of the
  page and do not overlap; the slot directory ends before the free-space offset.
\<close>

definition sp_wf :: "Page \<Rightarrow> bool" where
  "sp_wf p \<longleftrightarrow>
     length p = kPageSize \<and>
     12 + sp_sc p * 4 \<le> sp_fso p \<and> sp_fso p \<le> kPageSize \<and>
     (\<forall>i < sp_sc p. sp_len p i \<noteq> 0 \<longrightarrow>
        sp_fso p \<le> sp_off p i \<and> sp_off p i + sp_len p i \<le> kPageSize) \<and>
     (\<forall>i < sp_sc p. \<forall>j < sp_sc p. i \<noteq> j \<longrightarrow> sp_len p i \<noteq> 0 \<longrightarrow> sp_len p j \<noteq> 0 \<longrightarrow>
        sp_off p i + sp_len p i \<le> sp_off p j \<or> sp_off p j + sp_len p j \<le> sp_off p i)"

lemmas sp_field_defs = sp_sc_def sp_fso_def sp_off_def sp_len_def

lemma length_sp_slots [simp]: "length (sp_slots p) = sp_sc p"
  by (simp add: sp_slots_def)

lemma nth_sp_slots: "i < sp_sc p \<Longrightarrow> sp_slots p ! i = sp_rec p i"
  by (simp add: sp_slots_def)

lemma length_WriteHeader [simp]: "length (SlottedPage_WriteHeader h p) = length p"
  by (simp add: SlottedPage_WriteHeader_def)

lemma length_WriteSlot [simp]: "length (SlottedPage_WriteSlot i s p) = length p"
  by (simp add: SlottedPage_WriteSlot_def Let_def)

text \<open>What the header fields are after a header write.\<close>

lemma WriteHeader_fields:
  assumes "12 \<le> length p"
  shows "read_at 0 (SlottedPage_WriteHeader h p) = hdr_page_id h"
    and "read_at 4 (SlottedPage_WriteHeader h p) = hdr_next_page_id h"
    and "sp_sc (SlottedPage_WriteHeader h p) = unat (hdr_slot_count h)"
    and "sp_fso (SlottedPage_WriteHeader h p) = unat (hdr_free_space_offset h)"
  using assms by (simp_all add: SlottedPage_WriteHeader_def sp_field_defs layout)

lemma WriteHeader_frame [simp]:
  "sp_off (SlottedPage_WriteHeader h p) i = sp_off p i"
  "sp_len (SlottedPage_WriteHeader h p) i = sp_len p i"
  "12 \<le> off \<Longrightarrow> peek off n (SlottedPage_WriteHeader h p) = peek off n p"
  by (simp_all add: SlottedPage_WriteHeader_def sp_field_defs layout)

lemma ReadHeader_WriteHeader:
  "12 \<le> length p \<Longrightarrow> SlottedPage_ReadHeader (SlottedPage_WriteHeader h p) = h"
  by (simp add: SlottedPage_ReadHeader_def SlottedPage_WriteHeader_def layout)

lemma WriteSlot_frame [simp]:
  "read_at 0 (SlottedPage_WriteSlot i s p) = (read_at 0 p :: page_id_t)"
  "read_at 4 (SlottedPage_WriteSlot i s p) = (read_at 4 p :: page_id_t)"
  "sp_sc (SlottedPage_WriteSlot i s p) = sp_sc p"
  "sp_fso (SlottedPage_WriteSlot i s p) = sp_fso p"
  "16 + unat i * 4 \<le> off \<Longrightarrow> peek off n (SlottedPage_WriteSlot i s p) = peek off n p"
  by (simp_all add: SlottedPage_WriteSlot_def Let_def kHeaderSize_def kSlotSize_def
      sp_field_defs layout)

lemma WriteSlot_off:
  assumes "16 + unat i * 4 \<le> length p"
  shows "sp_off (SlottedPage_WriteSlot i s p) j =
           (if j = unat i then unat (slot_offset s) else sp_off p j)"
    and "sp_len (SlottedPage_WriteSlot i s p) j =
           (if j = unat i then unat (slot_length s) else sp_len p j)"
proof -
  have "j = unat i \<or> j * 4 + 4 \<le> unat i * 4 \<or> unat i * 4 + 4 \<le> j * 4"
    by arith
  with assms show "sp_off (SlottedPage_WriteSlot i s p) j =
           (if j = unat i then unat (slot_offset s) else sp_off p j)"
    and "sp_len (SlottedPage_WriteSlot i s p) j =
           (if j = unat i then unat (slot_length s) else sp_len p j)"
    by (auto simp: SlottedPage_WriteSlot_def Let_def kHeaderSize_def kSlotSize_def
        sp_field_defs layout)
qed

lemma poke_frame [simp]:
  "12 \<le> off \<Longrightarrow> read_at 0 (poke off bs p) = (read_at 0 p :: page_id_t)"
  "12 \<le> off \<Longrightarrow> read_at 4 (poke off bs p) = (read_at 4 p :: page_id_t)"
  "12 \<le> off \<Longrightarrow> sp_sc (poke off bs p) = sp_sc p"
  "12 \<le> off \<Longrightarrow> sp_fso (poke off bs p) = sp_fso p"
  "16 + i * 4 \<le> off \<Longrightarrow> sp_off (poke off bs p) i = sp_off p i"
  "16 + i * 4 \<le> off \<Longrightarrow> sp_len (poke off bs p) i = sp_len p i"
  by (simp_all add: sp_field_defs layout)

lemma ReadHeader_numbers [simp]:
  "hdr_page_id (SlottedPage_ReadHeader p) = read_at 0 p"
  "hdr_next_page_id (SlottedPage_ReadHeader p) = read_at 4 p"
  "unat (hdr_slot_count (SlottedPage_ReadHeader p)) = sp_sc p"
  "unat (hdr_free_space_offset (SlottedPage_ReadHeader p)) = sp_fso p"
  by (simp_all add: SlottedPage_ReadHeader_def sp_field_defs)

lemma ReadSlot_numbers [simp]:
  "unat (slot_offset (SlottedPage_ReadSlot p i)) = sp_off p (unat i)"
  "unat (slot_length (SlottedPage_ReadSlot p i)) = sp_len p (unat i)"
  by (simp_all add: SlottedPage_ReadSlot_def Let_def kHeaderSize_def kSlotSize_def sp_field_defs)

lemma ReadSlot_length_0 [simp]:
  "slot_length (SlottedPage_ReadSlot p i) = 0 \<longleftrightarrow> sp_len p (unat i) = 0"
  by (simp add: word_eq_iff_unat)

lemma SlotCount_number [simp]: "unat (SlottedPage_SlotCount p) = sp_sc p"
  by (simp add: SlottedPage_SlotCount_def)

lemma SlotCount_le_iff [simp]: "SlottedPage_SlotCount p \<le> i \<longleftrightarrow> sp_sc p \<le> unat i"
  by (simp add: word_le_nat_alt)

lemma sp_sc_less [simp]: "sp_sc p < 65536"
  by (simp add: sp_sc_def)

section \<open>The contract of a page of slots\<close>

text \<open>
  What a heap file relies on: a page is a list of slots, each holding a record or nothing.
  Inserting takes the first empty slot, or a new one at the end.
\<close>

fun first_empty :: "'r option list \<Rightarrow> nat" where
  "first_empty [] = 0"
| "first_empty (None # xs) = 0"
| "first_empty (Some r # xs) = Suc (first_empty xs)"

definition slots_put :: "'r option list \<Rightarrow> nat \<Rightarrow> 'r \<Rightarrow> 'r option list" where
  "slots_put xs i r = (if i < length xs then xs[i := Some r] else xs @ [Some r])"

definition slot_at :: "'r option list \<Rightarrow> nat \<Rightarrow> 'r option" where
  "slot_at xs i = (if i < length xs then xs ! i else None)"

lemma first_empty_le: "first_empty xs \<le> length xs"
  by (induction xs rule: first_empty.induct) auto

lemma slot_at_first_empty: "slot_at xs (first_empty xs) = None"
  by (induction xs rule: first_empty.induct) (auto simp: slot_at_def)

lemma first_empty_slot:
  "first_empty xs \<le> length xs" "first_empty xs = length xs \<longleftrightarrow> None \<notin> set xs"
  by (induction xs rule: first_empty.induct) auto

lemma slot_at_slots_put:
  assumes "i \<le> length xs"
  shows "slot_at (slots_put xs i r) j = (if j = i then Some r else slot_at xs j)"
  using assms by (auto simp: slot_at_def slots_put_def nth_append)

lemma slot_at_update:
  "i < length xs \<Longrightarrow> slot_at (xs[i := v]) j = (if j = i then v else slot_at xs j)"
  by (auto simp: slot_at_def)

lemma first_empty_find:
  assumes "find (\<lambda>i. xs ! i = None) [0..<length xs] = r"
  shows "first_empty xs = (case r of Some i \<Rightarrow> i | None \<Rightarrow> length xs)"
  using assms
proof (induction xs arbitrary: r rule: first_empty.induct)
  case (3 x xs)
  have "find (\<lambda>i. (Some x # xs) ! i = None) [0..<length (Some x # xs)] =
        find (\<lambda>i. (Some x # xs) ! i = None) (map Suc [0..<length xs])"
    by (simp add: upt_conv_Cons map_Suc_upt del: upt_Suc)
  also have "\<dots> = map_option Suc (find (\<lambda>i. xs ! i = None) [0..<length xs])"
    by (simp add: find_map comp_def)
  finally show ?case
    using 3 by (auto split: option.splits)
qed (auto simp: upt_conv_Cons simp del: upt_Suc)

locale slot_store =
  fixes inv :: "'p \<Rightarrow> bool"
    and slots :: "'p \<Rightarrow> 'r option list"
    and valid :: "'r \<Rightarrow> bool"
    and idx :: "'i \<Rightarrow> nat"
    and get :: "'p \<Rightarrow> 'i \<Rightarrow> 'r option"
    and insert_rec :: "'p \<Rightarrow> 'r \<Rightarrow> 'i option \<times> 'p"
    and delete_rec :: "'p \<Rightarrow> 'i \<Rightarrow> bool \<times> 'p"
    and update_rec :: "'p \<Rightarrow> 'i \<Rightarrow> 'r \<Rightarrow> bool \<times> 'p"
  assumes idx_inj: "idx i = idx j \<Longrightarrow> i = j"
    and get_slots: "inv p \<Longrightarrow> get p i = slot_at (slots p) (idx i)"
    and insert_Some: "inv p \<Longrightarrow> valid r \<Longrightarrow> insert_rec p r = (Some i, p') \<Longrightarrow>
          inv p' \<and> idx i = first_empty (slots p) \<and> slots p' = slots_put (slots p) (idx i) r"
    and insert_None: "insert_rec p r = (None, p') \<Longrightarrow> p' = p"
    and delete_slots: "inv p \<Longrightarrow> delete_rec p i = (ok, p') \<Longrightarrow>
          (ok \<longleftrightarrow> slot_at (slots p) (idx i) \<noteq> None) \<and>
          (if ok then inv p' \<and> slots p' = (slots p)[idx i := None] else p' = p)"
    and update_slots: "inv p \<Longrightarrow> valid r \<Longrightarrow> update_rec p i r = (ok, p') \<Longrightarrow>
          (ok \<longrightarrow> slot_at (slots p) (idx i) \<noteq> None) \<and>
          (if ok then inv p' \<and> slots p' = (slots p)[idx i := Some r] else p' = p)"
begin

lemma idx_eq_iff [simp]: "idx i = idx j \<longleftrightarrow> i = j"
  using idx_inj by blast

lemma slot_at_live: "slot_at (slots p) k \<noteq> None \<Longrightarrow> k < length (slots p)"
  by (auto simp: slot_at_def split: if_splits)

text \<open>A new record takes a slot that was empty, is found there, and moves nothing else.\<close>

lemma insert_get:
  assumes "inv p" and "valid r" and "insert_rec p r = (Some i, p')"
  shows "inv p'" and "get p i = None" and "get p' j = (if j = i then Some r else get p j)"
proof -
  from insert_Some [OF assms] have inv': "inv p'"
    and i: "idx i = first_empty (slots p)"
    and s: "slots p' = slots_put (slots p) (idx i) r" by auto
  show "inv p'" by (rule inv')
  show "get p i = None"
    using assms(1) by (simp add: get_slots i slot_at_first_empty)
  have "idx i \<le> length (slots p)" by (simp add: i first_empty_le)
  then show "get p' j = (if j = i then Some r else get p j)"
    using assms(1) inv' by (simp add: get_slots s slot_at_slots_put)
qed

lemma delete_get:
  assumes "inv p" and "delete_rec p i = (ok, p')"
  shows "inv p'" and "ok \<longleftrightarrow> get p i \<noteq> None"
    and "get p' j = (if j = i then None else get p j)"
proof -
  note d = delete_slots [OF assms]
  show inv': "inv p'" using d assms(1) by (auto split: if_splits)
  show ok: "ok \<longleftrightarrow> get p i \<noteq> None" using d assms(1) by (simp add: get_slots)
  show "get p' j = (if j = i then None else get p j)"
    using d ok slot_at_live [of p "idx i"] inv' assms(1)
    by (auto simp: get_slots slot_at_update split: if_splits)
qed

lemma update_get:
  assumes "inv p" and "valid r" and "update_rec p i r = (ok, p')"
  shows "inv p'" and "ok \<Longrightarrow> get p i \<noteq> None"
    and "get p' j = (if ok \<and> j = i then Some r else get p j)"
proof -
  note u = update_slots [OF assms]
  show inv': "inv p'" using u assms(1) by (auto split: if_splits)
  show "ok \<Longrightarrow> get p i \<noteq> None" using u assms(1) by (simp add: get_slots)
  show "get p' j = (if ok \<and> j = i then Some r else get p j)"
    using u slot_at_live [of p "idx i"] inv' assms(1)
    by (auto simp: get_slots slot_at_update split: if_splits)
qed

end

section \<open>The operations refine the slot list\<close>

lemma sp_wf_length: "sp_wf p \<Longrightarrow> length p = 4096"
  by (simp add: sp_wf_def kPageSize_def)

lemma sp_wf_directory: "sp_wf p \<Longrightarrow> 12 + sp_sc p * 4 \<le> sp_fso p \<and> sp_fso p \<le> 4096"
  by (simp add: sp_wf_def kPageSize_def)

lemma sp_wf_record:
  "sp_wf p \<Longrightarrow> i < sp_sc p \<Longrightarrow> sp_len p i \<noteq> 0 \<Longrightarrow>
     sp_fso p \<le> sp_off p i \<and> sp_off p i + sp_len p i \<le> 4096"
  by (simp add: sp_wf_def kPageSize_def)

lemma sp_wf_disjoint:
  "sp_wf p \<Longrightarrow> i < sp_sc p \<Longrightarrow> j < sp_sc p \<Longrightarrow> i \<noteq> j \<Longrightarrow> sp_len p i \<noteq> 0 \<Longrightarrow> sp_len p j \<noteq> 0 \<Longrightarrow>
     sp_off p i + sp_len p i \<le> sp_off p j \<or> sp_off p j + sp_len p j \<le> sp_off p i"
  by (simp add: sp_wf_def)

lemma sp_wfI:
  assumes "length p = 4096" and "12 + sp_sc p * 4 \<le> sp_fso p" and "sp_fso p \<le> 4096"
    and "\<And>i. i < sp_sc p \<Longrightarrow> sp_len p i \<noteq> 0 \<Longrightarrow>
           sp_fso p \<le> sp_off p i \<and> sp_off p i + sp_len p i \<le> 4096"
    and "\<And>i j. i < sp_sc p \<Longrightarrow> j < sp_sc p \<Longrightarrow> i \<noteq> j \<Longrightarrow> sp_len p i \<noteq> 0 \<Longrightarrow> sp_len p j \<noteq> 0 \<Longrightarrow>
           sp_off p i + sp_len p i \<le> sp_off p j \<or> sp_off p j + sp_len p j \<le> sp_off p i"
  shows "sp_wf p"
  using assms by (simp add: sp_wf_def kPageSize_def)

lemma sp_slots_eqI:
  assumes "sp_sc q = length xs" and "\<And>i. i < length xs \<Longrightarrow> sp_rec q i = xs ! i"
  shows "sp_slots q = xs"
  using assms by (auto intro!: nth_equalityI simp: nth_sp_slots)

lemma slot_at_sp_slots: "slot_at (sp_slots p) i = (if i < sp_sc p then sp_rec p i else None)"
  by (simp add: slot_at_def nth_sp_slots)

lemma GetRecord_refines [refines]:
  "SlottedPage_GetRecord p i = slot_at (sp_slots p) (unat i)"
  by (simp add: SlottedPage_GetRecord_def slot_at_sp_slots sp_rec_def Let_def)

lemma IsTombstoned_iff: "SlottedPage_IsTombstoned p i \<longleftrightarrow> SlottedPage_GetRecord p i = None"
  by (simp add: SlottedPage_IsTombstoned_def SlottedPage_GetRecord_def Let_def)

lemma reuse_slot_first_empty:
  "first_empty (sp_slots p) =
     (case SlottedPage_reuse_slot p of Some i \<Rightarrow> unat i | None \<Rightarrow> sp_sc p)"
  and reuse_slot_less: "SlottedPage_reuse_slot p = Some i \<Longrightarrow> unat i < sp_sc p"
proof -
  let ?P = "\<lambda>i. sp_slots p ! i = None"
  have u: "i < sp_sc p \<Longrightarrow> unat (word_of_nat i :: slot_id_t) = i" for i
    using sp_sc_less [of p] by (intro unat_word_of_nat_u16) linarith
  have r: "SlottedPage_reuse_slot p = map_option word_of_nat (find ?P [0..<sp_sc p])"
    unfolding SlottedPage_reuse_slot_def find_map
    by (rule arg_cong [where f = "map_option _"], rule find_cong)
      (simp_all add: u nth_sp_slots sp_rec_def)
  have b: "find ?P [0..<sp_sc p] = Some k \<Longrightarrow> k < sp_sc p" for k
    by (auto simp: find_Some_iff)
  show "first_empty (sp_slots p) =
     (case SlottedPage_reuse_slot p of Some i \<Rightarrow> unat i | None \<Rightarrow> sp_sc p)"
    using first_empty_find [of "sp_slots p", OF refl] b
    by (auto simp: r u split: option.splits)
  show "SlottedPage_reuse_slot p = Some i \<Longrightarrow> unat i < sp_sc p"
    using b by (auto simp: r u)
qed

text \<open>
  The common step of both branches of \<open>InsertRecord\<close>: the record bytes, the slot and the
  header are written in a page whose directory has \<open>n'\<close> slots afterwards.
\<close>

lemma place_record:
  assumes wf: "sp_wf p"
    and i: "unat i \<le> sp_sc p" and n': "n' = max (sp_sc p) (Suc (unat i))"
    and fit: "12 + n' * 4 + unat len \<le> sp_fso p"
    and len: "length data = unat len" "0 < unat len"
    and free: "unat i < sp_sc p \<longrightarrow> sp_len p (unat i) = 0"
    and h: "unat (hdr_slot_count h) = n'" "unat (hdr_free_space_offset h) = sp_fso p - unat len"
    and off: "unat off = sp_fso p - unat len"
  defines "q \<equiv> SlottedPage_WriteHeader h
             (SlottedPage_WriteSlot i \<lparr>slot_offset = off, slot_length = len\<rparr>
               (poke (unat off) data p))"
  shows "sp_wf q" and "sp_slots q = slots_put (sp_slots p) (unat i) data"
proof -
  note lp = sp_wf_length [OF wf] and dir = sp_wf_directory [OF wf]
  have o: "12 + n' * 4 \<le> unat off" "unat off + unat len = sp_fso p"
    using fit off by linarith+
  have sc: "sp_sc q = n'" and fso: "sp_fso q = unat off"
    using lp h off by (simp_all add: q_def WriteHeader_fields)
  have in_dir: "16 + j * 4 \<le> unat off" if "j < n'" for j
    using that o(1) by linarith
  have io: "16 + unat i * 4 \<le> unat off" using in_dir [of "unat i"] n' by simp
  have ilen: "16 + unat i * 4 \<le> length p" using io o(2) dir lp by linarith
  have offs: "sp_off q j = (if j = unat i then unat off else sp_off p j)"
    and lens: "sp_len q j = (if j = unat i then unat len else sp_len p j)" if "j < n'" for j
    using in_dir [OF that] ilen by (simp_all add: q_def WriteSlot_off)
  have bytes: "peek o' n q = peek o' n (poke (unat off) data p)" if "sp_fso q \<le> o'" for o' n
    using that io fso by (simp add: q_def)
  have live: "j < sp_sc p" "sp_fso p \<le> sp_off p j" "sp_off p j + sp_len p j \<le> 4096"
    if "j < n'" "j \<noteq> unat i" "sp_len p j \<noteq> 0" for j
    using that n' i sp_wf_record [OF wf, of j] by auto
  show "sp_wf q"
  proof (rule sp_wfI)
    show "length q = 4096" using lp by (simp add: q_def)
    show "12 + sp_sc q * 4 \<le> sp_fso q" using o(1) by (simp add: sc fso)
    show "sp_fso q \<le> 4096" using o(2) dir by (simp add: fso)
    show "sp_fso q \<le> sp_off q j \<and> sp_off q j + sp_len q j \<le> 4096"
      if "j < sp_sc q" "sp_len q j \<noteq> 0" for j
      using that live [of j] o(2) dir by (auto simp: offs lens sc fso split: if_splits)
    show "sp_off q j + sp_len q j \<le> sp_off q k \<or> sp_off q k + sp_len q k \<le> sp_off q j"
      if "j < sp_sc q" "k < sp_sc q" "j \<noteq> k" "sp_len q j \<noteq> 0" "sp_len q k \<noteq> 0" for j k
      using that live [of j] live [of k] o(2) sp_wf_disjoint [OF wf, of j k]
      by (auto simp: offs lens sc split: if_splits)
  qed
  have len_put: "length (slots_put (sp_slots p) (unat i) data) = n'"
    using i n' by (auto simp: slots_put_def max_def)
  have "sp_rec q j = slots_put (sp_slots p) (unat i) data ! j" if j: "j < n'" for j
  proof (cases "j = unat i")
    case True
    have "peek (unat off) (unat len) q = data"
      using bytes [of "unat off"] fso o(2) dir lp len by (simp add: peek_poke_same)
    then show ?thesis
      using True j i len n' offs [OF j] lens [OF j]
      by (auto simp: sp_rec_def slots_put_def nth_append)
  next
    case False
    then have "j < sp_sc p" using j n' i by auto
    moreover have "sp_rec q j = sp_rec p j"
    proof (cases "sp_len p j = 0")
      case True
      with False show ?thesis using lens [OF j] by (simp add: sp_rec_def)
    next
      case live': False
      then have "sp_fso p \<le> sp_off p j" using live [OF j False] by simp
      then have "peek (sp_off p j) (sp_len p j) q = peek (sp_off p j) (sp_len p j) p"
        using o(2) len by (simp add: bytes fso peek_poke_disjoint)
      with False show ?thesis using offs [OF j] lens [OF j] by (simp add: sp_rec_def)
    qed
    ultimately show ?thesis
      using False i by (simp add: slots_put_def nth_sp_slots nth_append)
  qed
  then show "sp_slots q = slots_put (sp_slots p) (unat i) data"
    by (intro sp_slots_eqI) (simp_all add: sc len_put)
qed

lemma word_1_plus_u16: "unat x < 65535 \<Longrightarrow> unat (x + 1 :: u16) = Suc (unat x)"
  by (simp add: unat_word_ariths)

lemma unat_diff_u16: "unat y \<le> unat x \<Longrightarrow> unat (x - y :: u16) = unat x - unat y"
  by (simp add: unat_sub word_le_nat_alt)

text \<open>When an insertion succeeds: enough room for the record and for a grown directory.\<close>

definition sp_room :: "Page \<Rightarrow> nat \<Rightarrow> bool" where
  "sp_room p n \<longleftrightarrow>
     12 + max (sp_sc p) (Suc (first_empty (sp_slots p))) * 4 + n \<le> sp_fso p"

lemma InsertRecord_SomeE:
  assumes wf: "sp_wf p" and len: "length data = unat len"
    and ins: "SlottedPage_InsertRecord p data len = (Some i, q)"
  obtains h where
    "12 + max (sp_sc p) (Suc (unat i)) * 4 + unat len \<le> sp_fso p"
    "unat i = first_empty (sp_slots p)" "unat i \<le> sp_sc p"
    "unat (hdr_slot_count h) = max (sp_sc p) (Suc (unat i))"
    "hdr_free_space_offset h = hdr_free_space_offset (SlottedPage_ReadHeader p) - len"
    "hdr_page_id h = read_at 0 p" "hdr_next_page_id h = read_at 4 p"
    "q = SlottedPage_WriteHeader h
           (SlottedPage_WriteSlot i
             \<lparr>slot_offset = hdr_free_space_offset h, slot_length = len\<rparr>
             (poke (unat (hdr_free_space_offset h)) data p))"
proof (cases "SlottedPage_reuse_slot p")
  case None
  let ?h = "SlottedPage_ReadHeader p"
  let ?off = "hdr_free_space_offset ?h - len"
  from ins None have fit: "12 + (sp_sc p + 1) * 4 + unat len \<le> sp_fso p"
    and i: "i = hdr_slot_count ?h"
    by (auto simp: SlottedPage_InsertRecord_def Let_def kHeaderSize_def kSlotSize_def
        split: if_splits)
  have "unat (hdr_slot_count ?h) < 65535"
    using fit sp_wf_directory [OF wf] by simp
  then show thesis
    using ins None fit reuse_slot_first_empty [of p] len
    by (intro that [of "?h\<lparr>hdr_slot_count := hdr_slot_count ?h + 1,
                          hdr_free_space_offset := ?off\<rparr>"])
      (auto simp: i SlottedPage_InsertRecord_def Let_def word_1_plus_u16 split: if_splits)
next
  case (Some k)
  let ?h = "SlottedPage_ReadHeader p"
  have "unat k < sp_sc p" using Some by (rule reuse_slot_less)
  with ins Some reuse_slot_first_empty [of p] len show thesis
    by (intro that [of "?h\<lparr>hdr_free_space_offset := hdr_free_space_offset ?h - len\<rparr>"])
      (auto simp: SlottedPage_InsertRecord_def Let_def kHeaderSize_def kSlotSize_def max_def
        split: if_splits)
qed

lemma InsertRecord_refines [refines]:
  assumes wf: "sp_wf p" and len: "length data = unat len" "0 < unat len"
    and ins: "SlottedPage_InsertRecord p data len = (Some i, q)"
  shows "sp_wf q" and "unat i = first_empty (sp_slots p)"
    and "sp_slots q = slots_put (sp_slots p) (unat i) data"
    and "read_at 0 q = (read_at 0 p :: page_id_t)" and "read_at 4 q = (read_at 4 p :: page_id_t)"
    and "sp_room p (unat len)"
proof -
  from wf len(1) ins obtain h where room: "12 + max (sp_sc p) (Suc (unat i)) * 4 + unat len \<le> sp_fso p"
    and i: "unat i = first_empty (sp_slots p)" "unat i \<le> sp_sc p"
    and h: "unat (hdr_slot_count h) = max (sp_sc p) (Suc (unat i))"
      "hdr_free_space_offset h = hdr_free_space_offset (SlottedPage_ReadHeader p) - len"
      "hdr_page_id h = read_at 0 p" "hdr_next_page_id h = read_at 4 p"
    and q: "q = SlottedPage_WriteHeader h
        (SlottedPage_WriteSlot i \<lparr>slot_offset = hdr_free_space_offset h, slot_length = len\<rparr>
          (poke (unat (hdr_free_space_offset h)) data p))"
    by (rule InsertRecord_SomeE)
  have off: "unat (hdr_free_space_offset h) = sp_fso p - unat len"
    using room by (simp add: h(2) unat_diff_u16)
  have free: "unat i < sp_sc p \<longrightarrow> sp_len p (unat i) = 0"
    using slot_at_first_empty [of "sp_slots p"]
    by (auto simp: i(1) slot_at_sp_slots sp_rec_def split: if_splits)
  note pr = place_record [OF wf i(2) refl room len free h(1) off off]
  show "sp_wf q" and "sp_slots q = slots_put (sp_slots p) (unat i) data"
    using pr by (simp_all add: q)
  show "unat i = first_empty (sp_slots p)" by (rule i)
  have "12 \<le> unat (hdr_free_space_offset h)" using off room by simp
  then show "read_at 0 q = (read_at 0 p :: page_id_t)" and "read_at 4 q = (read_at 4 p :: page_id_t)"
    using sp_wf_length [OF wf] by (simp_all add: q WriteHeader_fields h(3,4))
  show "sp_room p (unat len)" using room i by (simp add: sp_room_def)
qed

lemma InsertRecord_None_iff:
  assumes "sp_wf p"
  shows "fst (SlottedPage_InsertRecord p data len) = None \<longleftrightarrow> \<not> sp_room p (unat len)"
  using reuse_slot_first_empty [of p] reuse_slot_less [of p] sp_wf_directory [OF assms]
  by (auto simp: SlottedPage_InsertRecord_def Let_def sp_room_def kHeaderSize_def kSlotSize_def
      max_def split: option.splits if_splits)

lemma InsertRecord_None_unchanged:
  "SlottedPage_InsertRecord p data len = (None, q) \<Longrightarrow> q = p"
  by (auto simp: SlottedPage_InsertRecord_def Let_def split: option.splits if_splits)

text \<open>
  The common step of deletion and of an update in place: the record of a live slot is
  overwritten by one that is not longer, with length 0 for a deletion.
\<close>

lemma shrink_record:
  assumes wf: "sp_wf p" and i: "unat i < sp_sc p" and live: "sp_len p (unat i) \<noteq> 0"
    and n: "unat n \<le> sp_len p (unat i)" "length data = unat n"
    and s: "unat (slot_offset s) = sp_off p (unat i)" "slot_length s = n"
  defines "q \<equiv> SlottedPage_WriteSlot i s (poke (sp_off p (unat i)) data p)"
  shows "sp_wf q"
    and "sp_slots q = (sp_slots p)[unat i := if unat n = 0 then None else Some data]"
    and "read_at 0 q = (read_at 0 p :: page_id_t)" and "read_at 4 q = (read_at 4 p :: page_id_t)"
proof -
  let ?o = "sp_off p (unat i)"
  note lp = sp_wf_length [OF wf] and dir = sp_wf_directory [OF wf]
  have o: "sp_fso p \<le> ?o" "?o + sp_len p (unat i) \<le> 4096"
    using sp_wf_record [OF wf i live] by auto
  have in_dir: "16 + j * 4 \<le> ?o" if "j < sp_sc p" for j
    using that dir o(1) by linarith
  have ilen: "16 + unat i * 4 \<le> length p" using in_dir [OF i] o lp by linarith
  have sc: "sp_sc q = sp_sc p" and fso: "sp_fso q = sp_fso p"
    using dir o(1) by (simp_all add: q_def)
  have offs: "sp_off q j = sp_off p j"
    and lens: "sp_len q j = (if j = unat i then unat n else sp_len p j)" if "j < sp_sc p" for j
    using in_dir [OF that] ilen s by (auto simp: q_def WriteSlot_off)
  have bytes: "peek o' k q = peek o' k (poke ?o data p)" if "sp_fso p \<le> o'" for o' k
    using that i dir by (simp add: q_def)
  show "sp_wf q"
  proof (rule sp_wfI)
    show "length q = 4096" using lp by (simp add: q_def)
    show "12 + sp_sc q * 4 \<le> sp_fso q" "sp_fso q \<le> 4096" using dir by (simp_all add: sc fso)
    show "sp_fso q \<le> sp_off q j \<and> sp_off q j + sp_len q j \<le> 4096"
      if "j < sp_sc q" "sp_len q j \<noteq> 0" for j
      using that sp_wf_record [OF wf, of j] n live by (auto simp: offs lens sc fso split: if_splits)
    show "sp_off q j + sp_len q j \<le> sp_off q k \<or> sp_off q k + sp_len q k \<le> sp_off q j"
      if "j < sp_sc q" "k < sp_sc q" "j \<noteq> k" "sp_len q j \<noteq> 0" "sp_len q k \<noteq> 0" for j k
      using that sp_wf_disjoint [OF wf, of j k] n live
      by (auto simp: offs lens sc split: if_splits)
  qed
  have "sp_rec q j = (sp_slots p)[unat i := if unat n = 0 then None else Some data] ! j"
    if j: "j < sp_sc p" for j
  proof (cases "j = unat i")
    case True
    have "peek ?o (unat n) q = data"
      using bytes [OF o(1)] o(2) n lp by (simp add: peek_poke_same)
    then show ?thesis using True i offs [OF j] lens [OF j] by (simp add: sp_rec_def)
  next
    case False
    have "peek (sp_off p j) (sp_len p j) q = peek (sp_off p j) (sp_len p j) p" if "sp_len p j \<noteq> 0"
      using that sp_wf_disjoint [OF wf j i False that live] sp_wf_record [OF wf j that] n
      by (auto simp: bytes intro!: peek_poke_disjoint)
    then show ?thesis
      using False j offs [OF j] lens [OF j] by (simp add: sp_rec_def nth_sp_slots)
  qed
  then show "sp_slots q = (sp_slots p)[unat i := if unat n = 0 then None else Some data]"
    by (intro sp_slots_eqI) (simp_all add: sc)
  show "read_at 0 q = (read_at 0 p :: page_id_t)" and "read_at 4 q = (read_at 4 p :: page_id_t)"
    using dir o(1) by (simp_all add: q_def)
qed

lemma poke_Nil [simp]: "poke off [] p = p"
  by (simp add: poke_def)

lemma DeleteRecord_refines [refines]:
  assumes wf: "sp_wf p" and del: "SlottedPage_DeleteRecord p i = (ok, q)"
  shows "ok \<longleftrightarrow> slot_at (sp_slots p) (unat i) \<noteq> None"
    and "\<not> ok \<Longrightarrow> q = p"
    and "ok \<Longrightarrow> sp_wf q" and "ok \<Longrightarrow> sp_slots q = (sp_slots p)[unat i := None]"
    and "read_at 0 q = (read_at 0 p :: page_id_t)" and "read_at 4 q = (read_at 4 p :: page_id_t)"
proof -
  let ?s = "SlottedPage_ReadSlot p i"
  have cases: "ok \<and> unat i < sp_sc p \<and> sp_len p (unat i) \<noteq> 0 \<and>
      q = SlottedPage_WriteSlot i (?s\<lparr>slot_length := 0\<rparr>) p \<or>
      \<not> ok \<and> q = p \<and> (sp_sc p \<le> unat i \<or> sp_len p (unat i) = 0)"
    using del by (auto simp: SlottedPage_DeleteRecord_def Let_def split: if_splits)
  show "ok \<longleftrightarrow> slot_at (sp_slots p) (unat i) \<noteq> None" and "\<not> ok \<Longrightarrow> q = p"
    using cases by (auto simp: slot_at_sp_slots sp_rec_def)
  note sr = shrink_record [OF wf, of i 0 "[]" "?s\<lparr>slot_length := 0\<rparr>", simplified]
  show "ok \<Longrightarrow> sp_wf q" and "ok \<Longrightarrow> sp_slots q = (sp_slots p)[unat i := None]"
    and "read_at 0 q = (read_at 0 p :: page_id_t)" and "read_at 4 q = (read_at 4 p :: page_id_t)"
    using cases sr by auto
qed

lemma UpdateRecordInPlace_refines [refines]:
  assumes wf: "sp_wf p" and len: "length data = unat len" "0 < unat len"
    and upd: "SlottedPage_UpdateRecordInPlace p i data len = (ok, q)"
  shows "ok \<longleftrightarrow> (\<exists>r. slot_at (sp_slots p) (unat i) = Some r \<and> unat len \<le> length r)"
    and "\<not> ok \<Longrightarrow> q = p"
    and "ok \<Longrightarrow> sp_wf q" and "ok \<Longrightarrow> sp_slots q = (sp_slots p)[unat i := Some data]"
    and "read_at 0 q = (read_at 0 p :: page_id_t)" and "read_at 4 q = (read_at 4 p :: page_id_t)"
proof -
  let ?s = "SlottedPage_ReadSlot p i"
  have cases: "ok \<and> unat i < sp_sc p \<and> sp_len p (unat i) \<noteq> 0 \<and> unat len \<le> sp_len p (unat i) \<and>
      q = SlottedPage_WriteSlot i (?s\<lparr>slot_length := len\<rparr>) (poke (sp_off p (unat i)) data p) \<or>
      \<not> ok \<and> q = p \<and> (sp_sc p \<le> unat i \<or> sp_len p (unat i) = 0 \<or> sp_len p (unat i) < unat len)"
    using upd len(1)
    by (auto simp: SlottedPage_UpdateRecordInPlace_def Let_def word_less_nat_alt split: if_splits)
  have "length (peek (sp_off p (unat i)) (sp_len p (unat i)) p) = sp_len p (unat i)"
    if "unat i < sp_sc p" "sp_len p (unat i) \<noteq> 0"
    using sp_wf_record [OF wf that] sp_wf_length [OF wf] by (auto simp: min_def)
  then show "ok \<longleftrightarrow> (\<exists>r. slot_at (sp_slots p) (unat i) = Some r \<and> unat len \<le> length r)"
    and "\<not> ok \<Longrightarrow> q = p"
    using cases by (auto simp: slot_at_sp_slots sp_rec_def)
  note sr = shrink_record [OF wf, of i len data "?s\<lparr>slot_length := len\<rparr>", simplified]
  show "ok \<Longrightarrow> sp_wf q" and "ok \<Longrightarrow> sp_slots q = (sp_slots p)[unat i := Some data]"
    and "read_at 0 q = (read_at 0 p :: page_id_t)" and "read_at 4 q = (read_at 4 p :: page_id_t)"
    using cases sr len by auto
qed

lemma length_Init: "length (SlottedPage_Init pid nxt p) = length p"
  by (simp add: SlottedPage_Init_def)

lemma Init_refines [refines]:
  assumes "length p = kPageSize"
  shows "sp_wf (SlottedPage_Init pid nxt p)" and "sp_slots (SlottedPage_Init pid nxt p) = []"
    and "SlottedPage_PageId (SlottedPage_Init pid nxt p) = pid"
    and "SlottedPage_NextPageId (SlottedPage_Init pid nxt p) = nxt"
proof -
  have f: "sp_sc (SlottedPage_Init pid nxt p) = 0" "sp_fso (SlottedPage_Init pid nxt p) = 4096"
    using assms
    by (simp_all add: SlottedPage_Init_def WriteHeader_fields kPageSize_def unat_word_of_nat_u16)
  show "sp_wf (SlottedPage_Init pid nxt p)"
    using assms f by (intro sp_wfI) (simp_all add: length_Init kPageSize_def)
  show "sp_slots (SlottedPage_Init pid nxt p) = []" by (simp add: sp_slots_def f)
  show "SlottedPage_PageId (SlottedPage_Init pid nxt p) = pid"
    and "SlottedPage_NextPageId (SlottedPage_Init pid nxt p) = nxt"
    using assms by (simp_all add: SlottedPage_PageId_def SlottedPage_NextPageId_def
        SlottedPage_Init_def WriteHeader_fields kPageSize_def)
qed

lemma SetNextPageId_refines [refines]:
  assumes wf: "sp_wf p"
  shows "sp_wf (SlottedPage_SetNextPageId nxt p)"
    and "sp_slots (SlottedPage_SetNextPageId nxt p) = sp_slots p"
    and "SlottedPage_PageId (SlottedPage_SetNextPageId nxt p) = SlottedPage_PageId p"
    and "SlottedPage_NextPageId (SlottedPage_SetNextPageId nxt p) = nxt"
proof -
  let ?q = "SlottedPage_SetNextPageId nxt p"
  note lp = sp_wf_length [OF wf]
  have f: "sp_sc ?q = sp_sc p" "sp_fso ?q = sp_fso p" "\<And>i. sp_off ?q i = sp_off p i"
    "\<And>i. sp_len ?q i = sp_len p i"
    using lp by (simp_all add: SlottedPage_SetNextPageId_def WriteHeader_fields)
  show "sp_wf ?q"
    using wf by (simp add: sp_wf_def f) (simp add: SlottedPage_SetNextPageId_def)
  have "sp_rec ?q i = sp_rec p i" if "i < sp_sc p" for i
    using sp_wf_record [OF wf that] sp_wf_directory [OF wf]
    by (auto simp: sp_rec_def f) (simp add: SlottedPage_SetNextPageId_def)
  then show "sp_slots ?q = sp_slots p"
    by (intro sp_slots_eqI) (simp_all add: f nth_sp_slots)
  show "SlottedPage_PageId ?q = SlottedPage_PageId p" and "SlottedPage_NextPageId ?q = nxt"
    using lp by (simp_all add: SlottedPage_PageId_def SlottedPage_NextPageId_def
        SlottedPage_SetNextPageId_def WriteHeader_fields)
qed

text \<open>Records a page can hold: not empty (length 0 marks a tombstone) and at most 65535 bytes.\<close>

definition storable :: "byte list \<Rightarrow> bool" where
  "storable r \<longleftrightarrow> 0 < length r \<and> length r < 65536"

lemma storable_len: "storable r \<Longrightarrow> unat (word_of_nat (length r) :: u16) = length r"
  by (simp add: storable_def unat_word_of_nat_u16)

interpretation page: slot_store sp_wf sp_slots storable unat SlottedPage_GetRecord
  "\<lambda>p r. SlottedPage_InsertRecord p r (word_of_nat (length r))" SlottedPage_DeleteRecord
  "\<lambda>p i r. SlottedPage_UpdateRecordInPlace p i r (word_of_nat (length r))"
proof (unfold_locales, goal_cases)
  case (1 i j)
  then show ?case by (simp add: word_eq_iff_unat)
next
  case (2 p i)
  show ?case by (rule GetRecord_refines)
next
  case (3 p r i p')
  have len: "length r = unat (word_of_nat (length r) :: u16)"
    "0 < unat (word_of_nat (length r) :: u16)"
    using 3(2) by (simp_all add: storable_len) (simp add: storable_def)
  from InsertRecord_refines [OF 3(1) len 3(3)] show ?case by simp
next
  case (4 p r p')
  then show ?case by (rule InsertRecord_None_unchanged)
next
  case (5 p i ok p')
  then show ?case using DeleteRecord_refines [of p i ok p'] by auto
next
  case (6 p r i ok p')
  have len: "length r = unat (word_of_nat (length r) :: u16)"
    "0 < unat (word_of_nat (length r) :: u16)"
    using 6(2) by (simp_all add: storable_len) (simp add: storable_def)
  from UpdateRecordInPlace_refines [OF 6(1) len 6(3)] show ?case by auto
qed

lemma FreeSpace_wf: "sp_wf p \<Longrightarrow> SlottedPage_FreeSpace p = sp_fso p - (12 + sp_sc p * 4)"
  by (simp add: SlottedPage_FreeSpace_def Let_def kHeaderSize_def kSlotSize_def)

section \<open>Properties of slotted pages\<close>

text \<open>
  C12. Inserting a record into a well-formed page keeps the page well formed: live records stay
  disjoint and inside the page, the slot directory does not run into them. The new record can be
  read back under the returned slot, which was free before, and every other slot reads as before.
\<close>

theorem InsertRecord_then_GetRecord:
  assumes "sp_wf p" and "length data = unat len" and "0 < unat len"
    and "SlottedPage_InsertRecord p data len = (Some i, q)"
  shows "sp_wf q \<and> SlottedPage_GetRecord p i = None \<and> SlottedPage_GetRecord q i = Some data \<and>
    (\<forall>j. j \<noteq> i \<longrightarrow> SlottedPage_GetRecord q j = SlottedPage_GetRecord p j)"
proof -
  have data: "storable data" and len: "len = word_of_nat (length data)"
    using assms(2,3) unat_u16_less [of len] by (simp_all add: storable_def)
  show ?thesis
    using page.insert_get [OF assms(1) data, of i q] assms(4) len
      InsertRecord_refines(1) [OF assms] by auto
qed

definition demo_page_bytes :: Page where
  "demo_page_bytes = SlottedPage_Init 5 kInvalidPageId Page_Reset"

lemma demo_page_bytes_ok: "sp_wf demo_page_bytes" "sp_slots demo_page_bytes = []" "sp_fso demo_page_bytes = 4096"
  using Init_refines [OF length_Page_Reset, of 5 kInvalidPageId]
  by (simp_all add: demo_page_bytes_def)
    (simp add: SlottedPage_Init_def WriteHeader_fields kPageSize_def unat_word_of_nat_u16)

lemma demo_page_room: "sp_room demo_page_bytes 3"
  using demo_page_bytes_ok length_sp_slots [of demo_page_bytes] by (simp add: sp_room_def)

theorem InsertRecord_then_GetRecord_witness:
  "\<exists>i q. SlottedPage_InsertRecord demo_page_bytes [1, 2, 3] 3 = (Some i, q) \<and>
     SlottedPage_GetRecord q i = Some [1, 2, 3]"
proof -
  have "fst (SlottedPage_InsertRecord demo_page_bytes [1, 2, 3] 3) \<noteq> None"
    using InsertRecord_None_iff [OF demo_page_bytes_ok(1), of "[1, 2, 3]" 3] demo_page_room by simp
  then obtain i q where "SlottedPage_InsertRecord demo_page_bytes [1, 2, 3] 3 = (Some i, q)"
    by (cases "SlottedPage_InsertRecord demo_page_bytes [1, 2, 3] 3") auto
  with InsertRecord_then_GetRecord [OF demo_page_bytes_ok(1) _ _ this] show ?thesis by simp
qed

text \<open>
  C19. On a well-formed page an insertion fails exactly when the slot directory, grown by one slot
  unless a deleted slot can be reused, and the record do not fit in front of the records that are
  there; a failed insertion leaves the page as it was.
\<close>

theorem InsertRecord_fails_iff:
  assumes "sp_wf p"
  shows "(fst (SlottedPage_InsertRecord p data len) = None \<longleftrightarrow>
      sp_fso p < 12 + 4 * (sp_sc p + (if None \<in> set (sp_slots p) then 0 else 1)) + unat len) \<and>
    (fst (SlottedPage_InsertRecord p data len) = None \<longrightarrow> snd (SlottedPage_InsertRecord p data len) = p)"
proof -
  have "max (sp_sc p) (Suc (first_empty (sp_slots p))) = sp_sc p + (if None \<in> set (sp_slots p) then 0 else 1)"
    using first_empty_slot [of "sp_slots p"] by (auto simp: max_def)
  then show ?thesis
    using InsertRecord_None_iff [OF assms, of data len] InsertRecord_None_unchanged [of p data len]
    by (cases "SlottedPage_InsertRecord p data len") (auto simp: sp_room_def mult.commute)
qed

theorem InsertRecord_fails_iff_witness:
  "fst (SlottedPage_InsertRecord demo_page_bytes [1, 2, 3] 3) \<noteq> None \<and>
   fst (SlottedPage_InsertRecord demo_page_bytes [] 5000) = None"
  using InsertRecord_fails_iff [OF demo_page_bytes_ok(1), of "[1, 2, 3]" 3]
    InsertRecord_fails_iff [OF demo_page_bytes_ok(1), of "[]" 5000]
    demo_page_bytes_ok length_sp_slots [of demo_page_bytes] by simp

end
