(* ===== verification/Heap_File.thy ===== *)
theory Heap_File
  imports Buffer_Pool Slotted_Page
begin

text \<open>
  Heap files (\<open>src/storage/heap_file.cpp\<close>): a chain of slotted pages, linked through the
  next-page field of their headers and reached through the buffer pool. A result \<open>None\<close>
  means that the call does not return normally: it dereferences a null page pointer, or it
  follows a cyclic chain for ever. The results below show that neither happens on well-formed
  files.
\<close>

record RecordId =
  rid_page_id :: page_id_t
  rid_slot_id :: slot_id_t

definition RecordId_IsValid :: "RecordId \<Rightarrow> bool" where
  "RecordId_IsValid rid \<longleftrightarrow> rid_page_id rid \<noteq> kInvalidPageId"

record HeapFile =
  hf_first_page_id :: page_id_t
  hf_last_insert_page_id :: page_id_t

definition HeapFile_FirstPageId :: "HeapFile \<Rightarrow> page_id_t" where
  "HeapFile_FirstPageId hf = hf_first_page_id hf"

text \<open>Unpinning as the code does it: the returned flag is ignored.\<close>

definition unpin_page :: "page_id_t \<Rightarrow> bool \<Rightarrow> BufferPool \<Rightarrow> BufferPool" where
  "unpin_page pid dirty bp = snd (BufferPool_UnpinPage pid dirty bp)"

text \<open>The constructor: an invalid page id asks for a new file.\<close>

definition HeapFile_new :: "page_id_t \<Rightarrow> BufferPool \<Rightarrow> (HeapFile \<times> BufferPool) option" where
  "HeapFile_new first_page_id bp =
     (if first_page_id = kInvalidPageId
      then case BufferPool_NewPage bp of
          (None, _) \<Rightarrow> None
        | (Some (i, new_page_id), bp1) \<Rightarrow>
            let bp2 = BufferPool_put i
                  (SlottedPage_Init new_page_id kInvalidPageId (BufferPool_page i bp1)) bp1
            in Some (\<lparr>hf_first_page_id = new_page_id, hf_last_insert_page_id = new_page_id\<rparr>,
                     unpin_page new_page_id True bp2)
      else Some (\<lparr>hf_first_page_id = first_page_id, hf_last_insert_page_id = first_page_id\<rparr>, bp))"

definition HeapFile_AllocateNewPage :: "page_id_t \<Rightarrow> BufferPool \<Rightarrow> (page_id_t \<times> BufferPool) option" where
  "HeapFile_AllocateNewPage link_from_page_id bp =
     (case BufferPool_NewPage bp of
        (None, _) \<Rightarrow> None
      | (Some (i, new_page_id), bp1) \<Rightarrow>
          let bp2 = BufferPool_put i
                (SlottedPage_Init new_page_id kInvalidPageId (BufferPool_page i bp1)) bp1;
              bp3 = unpin_page new_page_id True bp2
          in case BufferPool_FetchPage link_from_page_id bp3 of
               (None, _) \<Rightarrow> None
             | (Some j, bp4) \<Rightarrow>
                 let bp5 = BufferPool_put j
                       (SlottedPage_SetNextPageId new_page_id (BufferPool_page j bp4)) bp4
                 in Some (new_page_id, unpin_page link_from_page_id True bp5))"

text \<open>
  The loop of \<open>InsertRecord\<close>. Its result holds the value the function returns from inside
  the loop, if it does, and the last page visited.
\<close>

partial_function (option) heap_insert_loop ::
  "byte list \<Rightarrow> u16 \<Rightarrow> page_id_t \<Rightarrow> page_id_t \<Rightarrow> BufferPool \<Rightarrow>
     (RecordId Result option \<times> page_id_t \<times> BufferPool) option" where
  [code]: "heap_insert_loop data len current prev bp =
     (if current = kInvalidPageId then Some (None, prev, bp)
      else case BufferPool_FetchPage current bp of
          (None, bp1) \<Rightarrow>
            Some (Some (Inl (Status_IOError ''InsertRecord: failed to fetch page'')), prev, bp1)
        | (Some i, bp1) \<Rightarrow>
            (case SlottedPage_InsertRecord (BufferPool_page i bp1) data len of
               (Some slot, p) \<Rightarrow>
                 Some (Some (Inr \<lparr>rid_page_id = current, rid_slot_id = slot\<rparr>), prev,
                       unpin_page current True (BufferPool_put i p bp1))
             | (None, p) \<Rightarrow>
                 heap_insert_loop data len (SlottedPage_NextPageId p) current
                   (unpin_page current False (BufferPool_put i p bp1))))"

text \<open>Behind the loop: a new page is linked behind the last one, and the record goes there.\<close>

definition heap_insert_new_page ::
  "byte list \<Rightarrow> u16 \<Rightarrow> page_id_t \<Rightarrow> HeapFile \<Rightarrow> BufferPool \<Rightarrow>
     (RecordId Result \<times> HeapFile \<times> BufferPool) option" where
  "heap_insert_new_page data len link_source hf bp =
     (case HeapFile_AllocateNewPage link_source bp of
        None \<Rightarrow> None
      | Some (new_page_id, bp2) \<Rightarrow>
          (case BufferPool_FetchPage new_page_id bp2 of
             (None, _) \<Rightarrow> None
           | (Some i, bp3) \<Rightarrow>
               let (slot, p) = SlottedPage_InsertRecord (BufferPool_page i bp3) data len;
                   bp4 = unpin_page new_page_id True (BufferPool_put i p bp3)
               in case slot of
                    None \<Rightarrow> Some (Inl (Status_OutOfSpace
                      ''InsertRecord: record too large for an empty page''), hf, bp4)
                  | Some s \<Rightarrow> Some (Inr \<lparr>rid_page_id = new_page_id, rid_slot_id = s\<rparr>,
                      hf\<lparr>hf_last_insert_page_id := new_page_id\<rparr>, bp4)))"

definition HeapFile_InsertRecord ::
  "byte list \<Rightarrow> u16 \<Rightarrow> HeapFile \<Rightarrow> BufferPool \<Rightarrow> (RecordId Result \<times> HeapFile \<times> BufferPool) option" where
  "HeapFile_InsertRecord data len hf bp =
     (case heap_insert_loop data len (hf_last_insert_page_id hf) kInvalidPageId bp of
        None \<Rightarrow> None
      | Some (Some (Inl e), prev, bp1) \<Rightarrow> Some (Inl e, hf, bp1)
      | Some (Some (Inr rid), prev, bp1) \<Rightarrow>
          Some (Inr rid, hf\<lparr>hf_last_insert_page_id := rid_page_id rid\<rparr>, bp1)
      | Some (None, prev, bp1) \<Rightarrow>
          heap_insert_new_page data len
            (if prev \<noteq> kInvalidPageId then prev else hf_last_insert_page_id hf) hf bp1)"

definition HeapFile_GetRecordBytes :: "RecordId \<Rightarrow> BufferPool \<Rightarrow> byte list Result \<times> BufferPool" where
  "HeapFile_GetRecordBytes rid bp =
     (case BufferPool_FetchPage (rid_page_id rid) bp of
        (None, bp1) \<Rightarrow> (Inl (Status_NotFound ''GetRecordBytes: page not found''), bp1)
      | (Some i, bp1) \<Rightarrow>
          (case SlottedPage_GetRecord (BufferPool_page i bp1) (rid_slot_id rid) of
             None \<Rightarrow> (Inl (Status_NotFound ''GetRecordBytes: record deleted or slot invalid''),
                      unpin_page (rid_page_id rid) False bp1)
           | Some bytes \<Rightarrow> (Inr bytes, unpin_page (rid_page_id rid) False bp1)))"

definition HeapFile_DeleteRecord :: "RecordId \<Rightarrow> BufferPool \<Rightarrow> Status \<times> BufferPool" where
  "HeapFile_DeleteRecord rid bp =
     (case BufferPool_FetchPage (rid_page_id rid) bp of
        (None, bp1) \<Rightarrow> (Status_NotFound ''DeleteRecord: page not found'', bp1)
      | (Some i, bp1) \<Rightarrow>
          let (ok, p) = SlottedPage_DeleteRecord (BufferPool_page i bp1) (rid_slot_id rid);
              bp2 = unpin_page (rid_page_id rid) ok (BufferPool_put i p bp1)
          in if \<not> ok
             then (Status_NotFound ''DeleteRecord: record already deleted or invalid slot'', bp2)
             else (Status_OK, bp2))"

definition HeapFile_UpdateRecord ::
  "RecordId \<Rightarrow> byte list \<Rightarrow> u16 \<Rightarrow> HeapFile \<Rightarrow> BufferPool \<Rightarrow>
     (RecordId Result \<times> HeapFile \<times> BufferPool) option" where
  "HeapFile_UpdateRecord rid data len hf bp =
     (case BufferPool_FetchPage (rid_page_id rid) bp of
        (None, bp1) \<Rightarrow> Some (Inl (Status_NotFound ''UpdateRecord: page not found''), hf, bp1)
      | (Some i, bp1) \<Rightarrow>
          let (in_place, p) =
                SlottedPage_UpdateRecordInPlace (BufferPool_page i bp1) (rid_slot_id rid) data len;
              bp2 = unpin_page (rid_page_id rid) in_place (BufferPool_put i p bp1)
          in if in_place then Some (Inr rid, hf, bp2)
             else let (del_status, bp3) = HeapFile_DeleteRecord rid bp2
                  in if \<not> Status_ok del_status then Some (Inl del_status, hf, bp3)
                     else HeapFile_InsertRecord data len hf bp3)"

text \<open>
  \<open>Scan\<close> calls the visitor on every record. The visitor is a state transformer; it does
  not touch the buffer pool.
\<close>

definition scan_page :: "page_id_t \<Rightarrow> Page \<Rightarrow> (RecordId \<Rightarrow> byte list \<Rightarrow> 'v \<Rightarrow> 'v) \<Rightarrow> 'v \<Rightarrow> 'v" where
  "scan_page current p visitor acc =
     fold (\<lambda>s acc. case SlottedPage_GetRecord p (word_of_nat s) of
              None \<Rightarrow> acc
            | Some rec \<Rightarrow> visitor \<lparr>rid_page_id = current, rid_slot_id = word_of_nat s\<rparr> rec acc)
          [0..<unat (SlottedPage_SlotCount p)] acc"

partial_function (option) heap_scan_loop ::
  "(RecordId \<Rightarrow> byte list \<Rightarrow> 'v \<Rightarrow> 'v) \<Rightarrow> page_id_t \<Rightarrow> 'v \<Rightarrow> BufferPool \<Rightarrow> ('v \<times> BufferPool) option" where
  [code]: "heap_scan_loop visitor current acc bp =
     (if current = kInvalidPageId then Some (acc, bp)
      else case BufferPool_FetchPage current bp of
          (None, bp1) \<Rightarrow> Some (acc, bp1)
        | (Some i, bp1) \<Rightarrow>
            heap_scan_loop visitor (SlottedPage_NextPageId (BufferPool_page i bp1))
              (scan_page current (BufferPool_page i bp1) visitor acc) (unpin_page current False bp1))"

definition HeapFile_Scan ::
  "(RecordId \<Rightarrow> byte list \<Rightarrow> 'v \<Rightarrow> 'v) \<Rightarrow> 'v \<Rightarrow> HeapFile \<Rightarrow> BufferPool \<Rightarrow> ('v \<times> BufferPool) option" where
  "HeapFile_Scan visitor acc hf bp = heap_scan_loop visitor (hf_first_page_id hf) acc bp"

section \<open>Page accesses\<close>

text \<open>
  \<open>pool_to bp v n bp'\<close>: from \<open>bp\<close> the pool has come to \<open>bp'\<close>, where no page
  has unsaved changes, the pins are the same, the pages are \<open>v\<close> and \<open>n\<close> pages can
  still be allocated.
\<close>

definition pool_to :: "BufferPool \<Rightarrow> (page_id_t \<Rightarrow> Page option) \<Rightarrow> nat \<Rightarrow> BufferPool \<Rightarrow> bool" where
  "pool_to bp v n bp' \<longleftrightarrow>
     pool.ready bp' \<and> pool.same_use bp bp' \<and> bp_view bp' = v \<and> bp_avail bp' = n"

lemma pool_to_refl: "pool.ready bp \<Longrightarrow> pool_to bp (bp_view bp) (bp_avail bp) bp"
  by (simp add: pool_to_def pool.same_use_def)

lemma pool_to_trans: "pool_to bp v n bp1 \<Longrightarrow> pool_to bp1 v' n' bp2 \<Longrightarrow> pool_to bp v' n' bp2"
  by (simp add: pool_to_def pool.same_use_def)

lemma pool_toD:
  assumes "pool_to bp v n bp'"
  shows "pool.ready bp'" and "bp_view bp' = v" and "bp_avail bp' = n" and "pool.same_use bp bp'"
  using assms by (simp_all add: pool_to_def)

lemma access_page:
  assumes "pool.ready bp" and "bp_view bp pid = Some p"
  obtains i bp1 where "BufferPool_FetchPage pid bp = (Some i, bp1)" and "BufferPool_page i bp1 = p"
    and "\<And>p' d. length p' = kPageSize \<Longrightarrow> d \<or> p' = p \<Longrightarrow>
       pool_to bp ((bp_view bp)(pid \<mapsto> p')) (bp_avail bp) (unpin_page pid d (BufferPool_put i p' bp1))"
    and "pool_to bp (bp_view bp) (bp_avail bp) (unpin_page pid False bp1)"
proof -
  have len: "length p = kPageSize" using view_length [OF pool.ready_inv [OF assms(1)] assms(2)] .
  from assms obtain i bp1 where f: "BufferPool_FetchPage pid bp = (Some i, bp1)"
    "BufferPool_page i bp1 = p"
    and u: "\<And>p' d. length p' = kPageSize \<Longrightarrow> d \<or> p' = p \<Longrightarrow>
      \<exists>s2. BufferPool_UnpinPage pid d (BufferPool_put i p' bp1) = (True, s2) \<and> pool.ready s2 \<and>
        pool.same_use bp s2 \<and> bp_view s2 = (bp_view bp)(pid \<mapsto> p') \<and> bp_avail s2 = bp_avail bp"
    by (rule pool.fetch_put_unpin) blast
  have upd: "pool_to bp ((bp_view bp)(pid \<mapsto> p')) (bp_avail bp) (unpin_page pid d (BufferPool_put i p' bp1))"
    if "length p' = kPageSize" "d \<or> p' = p" for p' d
    using u [OF that] by (auto simp: pool_to_def unpin_page_def)
  have "pool_to bp (bp_view bp) (bp_avail bp) (unpin_page pid False bp1)"
    using upd [of p False] len pool.put_same [of i bp1] f(2) assms(2) by (simp add: fun_upd_idem)
  with that [OF f upd] show thesis by blast
qed

lemma unknown_page:
  assumes "pool.ready bp" and "bp_view bp pid = None" and "pid \<noteq> kHeaderPageId"
  obtains bp1 where "BufferPool_FetchPage pid bp = (None, bp1)"
    and "pool_to bp (bp_view bp) (bp_avail bp) bp1"
  using pool.fetch_unknown_ready [OF assms] by (metis pool_to_def)

lemma fresh_page:
  assumes "pool.ready bp" and "0 < bp_avail bp"
  obtains i pid bp1 where "BufferPool_NewPage bp = (Some (i, pid), bp1)" and "bp_view bp pid = None"
    and "pid \<noteq> kInvalidPageId" and "BufferPool_page i bp1 = Page_Reset"
    and "\<And>p'. length p' = kPageSize \<Longrightarrow>
       pool_to bp ((bp_view bp)(pid \<mapsto> p')) (bp_avail bp - 1) (unpin_page pid True (BufferPool_put i p' bp1))"
proof -
  from assms obtain i pid bp1 where f: "BufferPool_NewPage bp = (Some (i, pid), bp1)"
    "bp_view bp pid = None" "pid \<noteq> kInvalidPageId" "BufferPool_page i bp1 = Page_Reset"
    and u: "\<And>p'. length p' = kPageSize \<Longrightarrow>
      \<exists>s2. BufferPool_UnpinPage pid True (BufferPool_put i p' bp1) = (True, s2) \<and> pool.ready s2 \<and>
        pool.same_use bp s2 \<and> bp_view s2 = (bp_view bp)(pid \<mapsto> p') \<and> Suc (bp_avail s2) = bp_avail bp"
    by (rule pool.alloc_put_unpin) blast
  have "pool_to bp ((bp_view bp)(pid \<mapsto> p')) (bp_avail bp - 1) (unpin_page pid True (BufferPool_put i p' bp1))"
    if "length p' = kPageSize" for p'
    using u [OF that] by (auto simp: pool_to_def unpin_page_def)
  with that [OF f] show thesis by blast
qed

section \<open>Chains of pages\<close>

fun hchain :: "(page_id_t \<Rightarrow> Page option) \<Rightarrow> page_id_t \<Rightarrow> page_id_t list \<Rightarrow> bool" where
  "hchain v pid [] \<longleftrightarrow> pid = kInvalidPageId"
| "hchain v pid (q # qs) \<longleftrightarrow> pid = q \<and> pid \<noteq> kInvalidPageId \<and>
     (case v q of None \<Rightarrow> False | Some p \<Rightarrow> sp_wf p \<and> hchain v (SlottedPage_NextPageId p) qs)"

text \<open>A chain is determined by its head, so it cannot visit a page twice.\<close>

lemma hchain_unique: "hchain v pid qs \<Longrightarrow> hchain v pid qs' \<Longrightarrow> qs = qs'"
proof (induction qs arbitrary: pid qs')
  case Nil
  then show ?case by (cases qs') auto
next
  case (Cons q qs)
  then show ?case by (cases qs') (auto split: option.splits)
qed

lemma hchain_suffix: "hchain v pid (as @ q # bs) \<Longrightarrow> hchain v q (q # bs)"
proof (induction as arbitrary: pid)
  case Nil
  then show ?case by auto
next
  case (Cons a as)
  then obtain p where "hchain v (SlottedPage_NextPageId p) (as @ q # bs)" by (auto split: option.splits)
  then show ?case by (rule Cons.IH)
qed

lemma hchain_distinct: "hchain v pid qs \<Longrightarrow> distinct qs"
proof (rule ccontr)
  assume c: "hchain v pid qs" and "\<not> distinct qs"
  then obtain as q bs cs where qs: "qs = as @ [q] @ bs @ [q] @ cs" using not_distinct_decomp by blast
  have "hchain v q (q # bs @ q # cs)" using c qs hchain_suffix [of v pid as q "bs @ q # cs"] by simp
  moreover have "hchain v q (q # cs)" using c qs hchain_suffix [of v pid "as @ q # bs" q cs] by simp
  ultimately have "q # bs @ q # cs = q # cs" by (rule hchain_unique)
  then have "length (q # bs @ q # cs) = length (q # cs)" by metis
  then show False by simp
qed

lemma hchain_page: "hchain v pid qs \<Longrightarrow> q \<in> set qs \<Longrightarrow> \<exists>p. v q = Some p \<and> sp_wf p \<and> q \<noteq> kInvalidPageId"
  by (induction qs arbitrary: pid) (auto split: option.splits)

lemma hchain_frame: "(\<And>q. q \<in> set qs \<Longrightarrow> v' q = v q) \<Longrightarrow> hchain v' pid qs = hchain v pid qs"
  by (induction qs arbitrary: pid) (auto split: option.splits)

lemma hchain_update:
  assumes "hchain v pid qs" and "v q = Some p" and "sp_wf p'"
    and "SlottedPage_NextPageId p' = SlottedPage_NextPageId p"
  shows "hchain (v(q \<mapsto> p')) pid qs"
  using assms(1) by (induction qs arbitrary: pid) (use assms(2-4) in \<open>auto split: option.splits\<close>)

lemma hchain_extend:
  assumes "hchain v pid (qs @ [l])" and "v l = Some p" and "v n = None" and "n \<noteq> kInvalidPageId"
    and "sp_wf p'" and "SlottedPage_NextPageId p' = n" and "sp_wf p0" and "SlottedPage_NextPageId p0 = kInvalidPageId"
  shows "hchain (v(n \<mapsto> p0, l \<mapsto> p')) pid (qs @ [l, n])"
  using assms(1) hchain_distinct [OF assms(1)]
proof (induction qs arbitrary: pid)
  case Nil
  with assms show ?case by auto
next
  case (Cons q qs)
  then have "q \<noteq> n" using assms(3) by (auto split: option.splits)
  with Cons show ?case by (auto split: option.splits)
qed

section \<open>Heap files as maps from record ids to records\<close>

definition heap_wf :: "HeapFile \<Rightarrow> (page_id_t \<Rightarrow> Page option) \<Rightarrow> page_id_t list \<Rightarrow> bool" where
  "heap_wf hf v ps \<longleftrightarrow> hchain v (hf_first_page_id hf) ps \<and> hf_last_insert_page_id hf \<in> set ps"

definition heap_map :: "(page_id_t \<Rightarrow> Page option) \<Rightarrow> page_id_t list \<Rightarrow> RecordId \<Rightarrow> byte list option" where
  "heap_map v ps rid =
     (if rid_page_id rid \<in> set ps
      then (case v (rid_page_id rid) of
          None \<Rightarrow> None
        | Some p \<Rightarrow> slot_at (sp_slots p) (unat (rid_slot_id rid)))
      else None)"

lemma heap_map_frame: "(\<And>q. q \<in> set ps \<Longrightarrow> v' q = v q) \<Longrightarrow> heap_map v' ps = heap_map v ps"
  by (rule ext) (simp add: heap_map_def)

text \<open>Changing one slot of one page changes one record.\<close>

lemma heap_map_slot:
  assumes "rid_page_id rid \<in> set ps" and "v (rid_page_id rid) = Some p"
    and "\<And>k. slot_at (sp_slots p') k = (if k = unat (rid_slot_id rid) then r else slot_at (sp_slots p) k)"
  shows "heap_map (v(rid_page_id rid \<mapsto> p')) ps = (heap_map v ps)(rid := r)"
proof
  fix x :: RecordId
  show "heap_map (v(rid_page_id rid \<mapsto> p')) ps x = ((heap_map v ps)(rid := r)) x"
  proof (cases "rid_page_id x = rid_page_id rid")
    case True
    then have "x = rid \<longleftrightarrow> unat (rid_slot_id x) = unat (rid_slot_id rid)"
      by (cases x; cases rid) auto
    with True assms show ?thesis by (simp add: heap_map_def)
  next
    case False
    then have "x \<noteq> rid" by auto
    with False show ?thesis by (simp add: heap_map_def)
  qed
qed

lemma insert_slot:
  assumes wf: "sp_wf p" and data: "storable data"
    and ins: "SlottedPage_InsertRecord p data (word_of_nat (length data)) = (Some s, p')"
  shows "sp_wf p'" and "SlottedPage_NextPageId p' = SlottedPage_NextPageId p"
    and "slot_at (sp_slots p) (unat s) = None"
    and "slot_at (sp_slots p') k = (if k = unat s then Some data else slot_at (sp_slots p) k)"
    and "length data \<le> 4080"
proof -
  have len: "length data = unat (word_of_nat (length data) :: u16)"
    "0 < unat (word_of_nat (length data) :: u16)"
    using data by (simp_all add: storable_len) (simp add: storable_def)
  note r = InsertRecord_refines [OF wf len ins]
  show "sp_wf p'" by (rule r(1))
  show "SlottedPage_NextPageId p' = SlottedPage_NextPageId p"
    using r(5) by (simp add: SlottedPage_NextPageId_def SlottedPage_ReadHeader_def)
  show "slot_at (sp_slots p) (unat s) = None" unfolding r(2) by (rule slot_at_first_empty)
  show "slot_at (sp_slots p') k = (if k = unat s then Some data else slot_at (sp_slots p) k)"
    unfolding r(3) using slot_at_slots_put [of "unat s" "sp_slots p" data k] first_empty_le [of "sp_slots p"]
    by (simp add: r(2))
  define m where "m = max (sp_sc p) (Suc (first_empty (sp_slots p)))"
  have "1 \<le> m" by (simp add: m_def)
  moreover have "12 + m * 4 + length data \<le> sp_fso p"
    using r(6) unfolding sp_room_def len(1) [symmetric] m_def .
  ultimately show "length data \<le> 4080" using sp_wf_directory [OF wf] by linarith
qed

lemma slot_nonempty:
  assumes "slot_at (sp_slots p) k = Some r" and wf: "sp_wf p"
  shows "0 < length r"
proof -
  have k: "k < sp_sc p" "sp_len p k \<noteq> 0" "r = peek (sp_off p k) (sp_len p k) p"
    using assms(1) by (auto simp: slot_at_sp_slots sp_rec_def split: if_splits)
  then show ?thesis using sp_wf_record [OF wf k(1,2)] sp_wf_length [OF wf] by auto
qed

lemma slot_length_le:
  assumes "slot_at (sp_slots p) k = Some r" and wf: "sp_wf p"
  shows "length r \<le> 4080"
proof -
  have k: "k < sp_sc p" "sp_len p k \<noteq> 0" "r = peek (sp_off p k) (sp_len p k) p"
    using assms(1) by (auto simp: slot_at_sp_slots sp_rec_def split: if_splits)
  then have "sp_fso p \<le> sp_off p k" "sp_off p k + sp_len p k \<le> 4096"
    using wf by (auto simp: sp_wf_def kPageSize_def)
  moreover have "length r \<le> sp_len p k" by (simp add: k(3))
  ultimately show ?thesis using k(1) sp_wf_directory [OF wf] by linarith
qed

text \<open>The record went into one of the pages \<open>qs\<close>.\<close>

definition inserted ::
  "(page_id_t \<Rightarrow> Page option) \<Rightarrow> page_id_t list \<Rightarrow> byte list \<Rightarrow> RecordId \<Rightarrow> (page_id_t \<Rightarrow> Page option) \<Rightarrow> bool" where
  "inserted v qs data rid v' \<longleftrightarrow>
     rid_page_id rid \<in> set qs \<and>
     (\<exists>p p'. v (rid_page_id rid) = Some p \<and> sp_wf p \<and>
        SlottedPage_InsertRecord p data (word_of_nat (length data)) = (Some (rid_slot_id rid), p') \<and>
        v' = v(rid_page_id rid \<mapsto> p'))"

lemma insert_loop_spec:
  assumes "pool.ready bp" and "hchain (bp_view bp) cur qs" and "storable data"
  shows "\<exists>r pr bp'. heap_insert_loop data (word_of_nat (length data)) cur prev bp = Some (r, pr, bp') \<and>
     pool_to bp (bp_view bp') (bp_avail bp) bp' \<and>
     (case r of
        None \<Rightarrow> pr = last (prev # qs) \<and> bp_view bp' = bp_view bp
      | Some (Inl e) \<Rightarrow> False
      | Some (Inr rid) \<Rightarrow> inserted (bp_view bp) qs data rid (bp_view bp'))"
  using assms(1,2)
proof (induction qs arbitrary: cur prev bp)
  case Nil
  then show ?case using pool_to_refl by (simp add: heap_insert_loop.simps [of _ _ kInvalidPageId])
next
  case (Cons q qs)
  let ?n = "word_of_nat (length data) :: u16"
  from Cons.prems(2) obtain p where q: "cur = q" "q \<noteq> kInvalidPageId" "bp_view bp q = Some p" "sp_wf p"
    and ch: "hchain (bp_view bp) (SlottedPage_NextPageId p) qs" by (auto split: option.splits)
  from Cons.prems(1) q(3) obtain i bp1 where f: "BufferPool_FetchPage q bp = (Some i, bp1)"
    "BufferPool_page i bp1 = p"
    and u: "\<And>p' d. length p' = kPageSize \<Longrightarrow> d \<or> p' = p \<Longrightarrow>
       pool_to bp ((bp_view bp)(q \<mapsto> p')) (bp_avail bp) (unpin_page q d (BufferPool_put i p' bp1))"
    by (rule access_page) blast
  obtain so p' where ins: "SlottedPage_InsertRecord p data ?n = (so, p')" by fastforce
  show ?case
  proof (cases so)
    case (Some s)
    have "length p' = kPageSize"
      using insert_slot(1) [OF q(4) assms(3) ins [unfolded Some]] by (simp add: sp_wf_def)
    with u [of p' True] have t: "pool_to bp ((bp_view bp)(q \<mapsto> p')) (bp_avail bp)
        (unpin_page q True (BufferPool_put i p' bp1))" by simp
    have "heap_insert_loop data ?n cur prev bp = Some (Some (Inr \<lparr>rid_page_id = q, rid_slot_id = s\<rparr>), prev,
        unpin_page q True (BufferPool_put i p' bp1))"
      using q f ins Some by (simp add: heap_insert_loop.simps [of _ _ q])
    with t pool_toD(2) [OF t] q(3,4) ins Some show ?thesis by (simp add: inserted_def)
  next
    case None
    then have p': "p' = p" using ins InsertRecord_None_unchanged by blast
    let ?bp2 = "unpin_page q False (BufferPool_put i p bp1)"
    have t: "pool_to bp (bp_view bp) (bp_avail bp) ?bp2"
      using u [of p False] q(3,4) by (simp add: sp_wf_def fun_upd_idem)
    note v = pool_toD [OF t]
    have step: "heap_insert_loop data ?n cur prev bp =
        heap_insert_loop data ?n (SlottedPage_NextPageId p) q ?bp2"
      using q f ins None p' by (simp add: heap_insert_loop.simps [of _ _ q])
    from Cons.IH [OF v(1), of "SlottedPage_NextPageId p" q] ch v(2) obtain r pr bp' where
      l: "heap_insert_loop data ?n cur prev bp = Some (r, pr, bp')"
      and t': "pool_to ?bp2 (bp_view bp') (bp_avail bp) bp'"
      and r: "case r of None \<Rightarrow> pr = last (q # qs) \<and> bp_view bp' = bp_view bp | Some (Inl e) \<Rightarrow> False
        | Some (Inr rid) \<Rightarrow> inserted (bp_view bp) qs data rid (bp_view bp')"
      unfolding step v(2,3) by auto
    have "case r of None \<Rightarrow> pr = last (prev # q # qs) \<and> bp_view bp' = bp_view bp | Some (Inl e) \<Rightarrow> False
        | Some (Inr rid) \<Rightarrow> inserted (bp_view bp) (q # qs) data rid (bp_view bp')"
      using r by (auto simp: inserted_def split: option.splits sum.splits)
    with l pool_to_trans [OF t t'] show ?thesis by blast
  qed
qed

text \<open>Linking a new, empty page behind the last one.\<close>

lemma AllocateNewPage_spec:
  assumes bp: "pool.ready bp" and av: "0 < bp_avail bp" and ch: "hchain (bp_view bp) a (qs @ [l])"
  obtains n p0 bp' where "HeapFile_AllocateNewPage l bp = Some (n, bp')"
    and "pool_to bp (bp_view bp') (bp_avail bp - 1) bp'" and "bp_view bp n = None"
    and "bp_view bp' n = Some p0" and "sp_wf p0" and "sp_slots p0 = []" and "sp_fso p0 = kPageSize"
    and "hchain (bp_view bp') a (qs @ [l, n])"
    and "heap_map (bp_view bp') (qs @ [l, n]) = heap_map (bp_view bp) (qs @ [l])"
    and "\<And>q. q \<noteq> l \<Longrightarrow> q \<noteq> n \<Longrightarrow> bp_view bp' q = bp_view bp q"
proof -
  obtain p where p: "bp_view bp l = Some p" "sp_wf p" using hchain_page [OF ch, of l] by auto
  from bp av obtain i n bp1 where f: "BufferPool_NewPage bp = (Some (i, n), bp1)" "bp_view bp n = None"
    "n \<noteq> kInvalidPageId" "BufferPool_page i bp1 = Page_Reset"
    and u: "\<And>p'. length p' = kPageSize \<Longrightarrow> pool_to bp ((bp_view bp)(n \<mapsto> p')) (bp_avail bp - 1)
       (unpin_page n True (BufferPool_put i p' bp1))"
    by (rule fresh_page) blast
  define p0 where "p0 = SlottedPage_Init n kInvalidPageId Page_Reset"
  note ini = Init_refines [OF length_Page_Reset, of n kInvalidPageId, folded p0_def]
  define bp3 where "bp3 = unpin_page n True (BufferPool_put i p0 bp1)"
  have t: "pool_to bp ((bp_view bp)(n \<mapsto> p0)) (bp_avail bp - 1) bp3"
    unfolding bp3_def using ini(1) by (intro u) (simp add: sp_wf_def)
  note v = pool_toD [OF t]
  have ln: "l \<noteq> n" using p f(2) by auto
  then have "bp_view bp3 l = Some p" using v(2) p(1) by simp
  with v(1) obtain j bp4 where g: "BufferPool_FetchPage l bp3 = (Some j, bp4)" "BufferPool_page j bp4 = p"
    and w: "\<And>p' d. length p' = kPageSize \<Longrightarrow> d \<or> p' = p \<Longrightarrow>
       pool_to bp3 ((bp_view bp3)(l \<mapsto> p')) (bp_avail bp3) (unpin_page l d (BufferPool_put j p' bp4))"
    by (rule access_page) blast
  define p' where "p' = SlottedPage_SetNextPageId n p"
  note lnk = SetNextPageId_refines [OF p(2), of n, folded p'_def]
  define bp' where "bp' = unpin_page l True (BufferPool_put j p' bp4)"
  have t': "pool_to bp3 ((bp_view bp3)(l \<mapsto> p')) (bp_avail bp3) bp'"
    unfolding bp'_def using lnk(1) by (intro w) (simp_all add: sp_wf_def)
  have view: "bp_view bp' = (bp_view bp)(n \<mapsto> p0, l \<mapsto> p')" using pool_toD(2) [OF t'] v(2) by simp
  have call: "HeapFile_AllocateNewPage l bp = Some (n, bp')"
    using f g by (simp add: HeapFile_AllocateNewPage_def Let_def bp'_def bp3_def p'_def p0_def)
  have "pool_to bp (bp_view bp') (bp_avail bp - 1) bp'"
    using pool_to_trans [OF t t'] pool_toD(2) [OF t'] v(3) by simp
  moreover have "hchain (bp_view bp') a (qs @ [l, n])"
    unfolding view by (rule hchain_extend [OF ch p(1) f(2,3) lnk(1,4) ini(1,4)])
  moreover have "heap_map (bp_view bp') (qs @ [l, n]) = heap_map (bp_view bp) (qs @ [l])"
    using p(1) f(2) lnk(2) ini(2) by (auto simp: fun_eq_iff heap_map_def view slot_at_def)
  moreover have "sp_fso p0 = kPageSize"
    by (simp add: p0_def SlottedPage_Init_def WriteHeader_fields kPageSize_def unat_word_of_nat_u16)
  ultimately show thesis using that [OF call] f(2) ini(1,2) ln by (simp add: view)
qed

text \<open>
  Insertion. \<open>kept\<close> says that pages outside the file are untouched; it is what lets several
  heap files share one buffer pool.
\<close>

definition kept :: "page_id_t list \<Rightarrow> (page_id_t \<Rightarrow> Page option) \<Rightarrow> (page_id_t \<Rightarrow> Page option) \<Rightarrow> bool" where
  "kept ps v v' \<longleftrightarrow> (\<forall>q. q \<notin> set ps \<longrightarrow> v q \<noteq> None \<longrightarrow> v' q = v q)"

lemma keptI: "(\<And>q. q \<notin> set ps \<Longrightarrow> v q \<noteq> None \<Longrightarrow> v' q = v q) \<Longrightarrow> kept ps v v'"
  by (simp add: kept_def)

lemma inserted_spec:
  assumes ins: "inserted v ps data rid v'" and ch: "hchain v a ps" and data: "storable data"
  shows "hchain v' a ps" and "heap_map v ps rid = None" and "heap_map v' ps = (heap_map v ps)(rid \<mapsto> data)"
    and "length data \<le> 4080" and "\<And>q. q \<notin> set ps \<Longrightarrow> v' q = v q"
proof -
  obtain q s where rid: "rid = \<lparr>rid_page_id = q, rid_slot_id = s\<rparr>" by (cases rid)
  obtain p p' where q: "q \<in> set ps" "v q = Some p" "sp_wf p" and v': "v' = v(q \<mapsto> p')"
    and i: "SlottedPage_InsertRecord p data (word_of_nat (length data)) = (Some s, p')"
    using ins by (auto simp: inserted_def rid)
  note sl = insert_slot [OF q(3) data i]
  show "hchain v' a ps" unfolding v' by (rule hchain_update [OF ch q(2) sl(1,2)])
  show "heap_map v ps rid = None" using q sl(3) by (simp add: heap_map_def rid)
  show "heap_map v' ps = (heap_map v ps)(rid \<mapsto> data)"
    using heap_map_slot [of rid ps v p p' "Some data"] q sl(4) by (simp add: v' rid)
  show "length data \<le> 4080" by (rule sl(5))
  show "v' r = v r" if "r \<notin> set ps" for r using that q(1) by (auto simp: v')
qed

lemma InsertRecord_empty_page:
  assumes "sp_wf p" and "sp_slots p = []" and "sp_fso p = kPageSize" and "storable data"
  shows "fst (SlottedPage_InsertRecord p data (word_of_nat (length data))) = None \<longleftrightarrow> 4080 < length data"
proof -
  have "sp_sc p = 0" using assms(2) length_sp_slots [of p] by simp
  then show ?thesis
    unfolding InsertRecord_None_iff [OF assms(1)] sp_room_def storable_len [OF assms(4)]
    by (simp add: assms(2,3) kPageSize_def not_le)
qed

text \<open>
  The state after an insertion that started from the pages \<open>v\<close> and returned \<open>r\<close>.
  A record of up to 4080 bytes is stored under a new id; a longer one is refused and changes no
  record, although the file keeps the page allocated for it.
\<close>

definition insert_post ::
  "HeapFile \<Rightarrow> (page_id_t \<Rightarrow> Page option) \<Rightarrow> page_id_t list \<Rightarrow> byte list \<Rightarrow>
     RecordId Result \<Rightarrow> HeapFile \<Rightarrow> (page_id_t \<Rightarrow> Page option) \<Rightarrow> page_id_t list \<Rightarrow> bool" where
  "insert_post hf v ps data r hf' v' ps' \<longleftrightarrow>
     heap_wf hf' v' ps' \<and> hf_first_page_id hf' = hf_first_page_id hf \<and> set ps \<subseteq> set ps' \<and>
     (\<forall>q. q \<in> set ps' \<longrightarrow> q \<notin> set ps \<longrightarrow> v q = None) \<and> kept ps v v' \<and>
     (case r of
        Inr rid \<Rightarrow> length data \<le> 4080 \<and> heap_map v ps rid = None \<and>
          heap_map v' ps' = (heap_map v ps)(rid \<mapsto> data)
      | Inl e \<Rightarrow> 4080 < length data \<and> status_code e = kOutOfSpace \<and> heap_map v' ps' = heap_map v ps)"

lemma insert_new_page_spec:
  assumes bp: "pool.ready bp" and av: "0 < bp_avail bp" and data: "storable data"
    and ch: "hchain (bp_view bp) (hf_first_page_id hf) (qs @ [l])" and la: "hf_last_insert_page_id hf \<in> set (qs @ [l])"
  obtains r hf' bp' ps' where
    "heap_insert_new_page data (word_of_nat (length data)) l hf bp = Some (r, hf', bp')"
    and "pool_to bp (bp_view bp') (bp_avail bp - 1) bp'"
    and "insert_post hf (bp_view bp) (qs @ [l]) data r hf' (bp_view bp') ps'"
proof -
  let ?len = "word_of_nat (length data) :: u16"
  from bp av ch obtain n p0 bp2 where al: "HeapFile_AllocateNewPage l bp = Some (n, bp2)"
    and t2: "pool_to bp (bp_view bp2) (bp_avail bp - 1) bp2"
    and n: "bp_view bp n = None" "bp_view bp2 n = Some p0" "sp_wf p0" "sp_slots p0 = []" "sp_fso p0 = kPageSize"
    and ch2: "hchain (bp_view bp2) (hf_first_page_id hf) (qs @ [l, n])"
    and hm: "heap_map (bp_view bp2) (qs @ [l, n]) = heap_map (bp_view bp) (qs @ [l])"
    and fr: "\<And>q. q \<noteq> l \<Longrightarrow> q \<noteq> n \<Longrightarrow> bp_view bp2 q = bp_view bp q"
    by (rule AllocateNewPage_spec) blast
  obtain so p' where i: "SlottedPage_InsertRecord p0 data ?len = (so, p')" by fastforce
  from pool_toD(1) [OF t2] n(2) obtain j bp3 where f: "BufferPool_FetchPage n bp2 = (Some j, bp3)"
    "BufferPool_page j bp3 = p0"
    and u: "\<And>p' d. length p' = kPageSize \<Longrightarrow> d \<or> p' = p0 \<Longrightarrow>
       pool_to bp2 ((bp_view bp2)(n \<mapsto> p')) (bp_avail bp2) (unpin_page n d (BufferPool_put j p' bp3))"
    by (rule access_page) blast
  define bp4 where "bp4 = unpin_page n True (BufferPool_put j p' bp3)"
  have "sp_wf p'"
    using i insert_slot(1) [OF n(3) data] InsertRecord_None_unchanged n(3) by (cases so) fastforce+
  then have t4: "pool_to bp2 ((bp_view bp2)(n \<mapsto> p')) (bp_avail bp2) bp4"
    unfolding bp4_def by (intro u) (simp_all add: sp_wf_def)
  note view4 = pool_toD(2) [OF t4]
  have t: "pool_to bp (bp_view bp4) (bp_avail bp - 1) bp4"
    using pool_to_trans [OF t2 t4] pool_toD(3) [OF t2] by (simp add: view4)
  have kp: "kept (qs @ [l]) (bp_view bp) (bp_view bp4)"
    using fr n(1) by (auto simp: kept_def view4)
  show thesis
  proof (cases so)
    case (Some s)
    have ins: "inserted (bp_view bp2) (qs @ [l, n]) data \<lparr>rid_page_id = n, rid_slot_id = s\<rparr> (bp_view bp4)"
      using n(2,3) i Some by (simp add: inserted_def view4)
    note sp = inserted_spec [OF ins ch2 data]
    have "heap_insert_new_page data ?len l hf bp =
        Some (Inr \<lparr>rid_page_id = n, rid_slot_id = s\<rparr>, hf\<lparr>hf_last_insert_page_id := n\<rparr>, bp4)"
      using al f i Some by (simp add: heap_insert_new_page_def bp4_def)
    then show thesis
      by (rule that [OF _ t, of _ _ "qs @ [l, n]"])
        (use sp hm kp n(1) in \<open>auto simp: insert_post_def heap_wf_def\<close>)
  next
    case None
    then have "4080 < length data" using InsertRecord_empty_page [OF n(3-5) data] i by simp
    moreover have "bp_view bp4 = bp_view bp2"
      using None i InsertRecord_None_unchanged n(2) view4 by (auto simp: fun_upd_idem)
    moreover have "heap_insert_new_page data ?len l hf bp =
        Some (Inl (Status_OutOfSpace ''InsertRecord: record too large for an empty page''), hf, bp4)"
      using al f i None by (simp add: heap_insert_new_page_def bp4_def)
    ultimately show thesis
      using that [OF _ t, of _ _ "qs @ [l, n]"] hm kp n(1) ch2 la
      by (auto simp: insert_post_def heap_wf_def Status_OutOfSpace_def)
  qed
qed

lemma InsertRecord_spec:
  assumes bp: "pool.ready bp" and hf: "heap_wf hf (bp_view bp) ps" and data: "storable data"
    and av: "0 < bp_avail bp"
  obtains r hf' bp' ps' where
    "HeapFile_InsertRecord data (word_of_nat (length data)) hf bp = Some (r, hf', bp')"
    and "pool_to bp (bp_view bp') (bp_avail bp') bp'" and "bp_avail bp - 1 \<le> bp_avail bp'"
    and "insert_post hf (bp_view bp) ps data r hf' (bp_view bp') ps'"
proof -
  let ?len = "word_of_nat (length data) :: u16"
  let ?la = "hf_last_insert_page_id hf"
  have ch: "hchain (bp_view bp) (hf_first_page_id hf) ps" and la: "?la \<in> set ps"
    using hf by (simp_all add: heap_wf_def)
  obtain as bs where ps: "ps = as @ ?la # bs" using la by (meson split_list)
  have ch2: "hchain (bp_view bp) ?la (?la # bs)" using hchain_suffix ch ps by blast
  from insert_loop_spec [OF bp ch2 data, of kInvalidPageId] obtain r pr bp1 where
    l: "heap_insert_loop data ?len ?la kInvalidPageId bp = Some (r, pr, bp1)"
    and t: "pool_to bp (bp_view bp1) (bp_avail bp) bp1"
    and r: "case r of None \<Rightarrow> pr = last (kInvalidPageId # ?la # bs) \<and> bp_view bp1 = bp_view bp
      | Some (Inl e) \<Rightarrow> False | Some (Inr rid) \<Rightarrow> inserted (bp_view bp) (?la # bs) data rid (bp_view bp1)"
    by blast
  note tD = pool_toD [OF t]
  show thesis
  proof (cases r)
    case (Some x)
    then obtain rid where x: "r = Some (Inr rid)" and "inserted (bp_view bp) (?la # bs) data rid (bp_view bp1)"
      using r by (cases x) auto
    then have ins: "inserted (bp_view bp) ps data rid (bp_view bp1)" by (auto simp: inserted_def ps)
    note sp = inserted_spec [OF ins ch data]
    have "insert_post hf (bp_view bp) ps data (Inr rid) (hf\<lparr>hf_last_insert_page_id := rid_page_id rid\<rparr>)
        (bp_view bp1) ps"
      using sp ins by (auto simp: insert_post_def heap_wf_def inserted_def kept_def)
    moreover have "HeapFile_InsertRecord data ?len hf bp =
        Some (Inr rid, hf\<lparr>hf_last_insert_page_id := rid_page_id rid\<rparr>, bp1)"
      using l x by (simp add: HeapFile_InsertRecord_def)
    ultimately show thesis using that t tD(3) by simp
  next
    case None
    then have pr: "pr = last ps" "bp_view bp1 = bp_view bp" using r by (simp_all add: ps)
    have psl: "butlast ps @ [last ps] = ps" using ps by (intro append_butlast_last_id) simp
    have "last ps \<in> set ps" using ps by (intro last_in_set) simp
    then have prv: "last ps \<noteq> kInvalidPageId" using hchain_page [OF ch] by blast
    from tD(1) av tD(3) data ch la obtain r' hf' bp' ps' where
      "heap_insert_new_page data ?len (last ps) hf bp1 = Some (r', hf', bp')"
      "pool_to bp1 (bp_view bp') (bp_avail bp1 - 1) bp'"
      "insert_post hf (bp_view bp1) ps data r' hf' (bp_view bp') ps'"
      using insert_new_page_spec [of bp1 data hf "butlast ps" "last ps"] unfolding psl pr(2) by metis
    moreover from this(1) have "HeapFile_InsertRecord data ?len hf bp = Some (r', hf', bp')"
      using l None pr prv by (simp add: HeapFile_InsertRecord_def)
    ultimately show thesis
      using that pool_to_trans [OF t] tD(3) pr(2) pool_toD(3) by (metis order_refl)
  qed
qed

section \<open>Lookup, deletion, update and scan\<close>

text \<open>
  An id whose page belongs to the file is answered from the page; an id of a page that does not
  exist is reported as not found.
\<close>

lemma GetRecordBytes_spec:
  assumes bp: "pool.ready bp" and ch: "hchain (bp_view bp) a ps"
    and rid: "rid_page_id rid \<in> set ps \<or> bp_view bp (rid_page_id rid) = None \<and> rid_page_id rid \<noteq> kHeaderPageId"
  obtains r bp' where "HeapFile_GetRecordBytes rid bp = (r, bp')"
    and "pool_to bp (bp_view bp) (bp_avail bp) bp'"
    and "case heap_map (bp_view bp) ps rid of Some bytes \<Rightarrow> r = Inr bytes
       | None \<Rightarrow> \<exists>e. r = Inl e \<and> status_code e = kNotFound"
proof (cases "bp_view bp (rid_page_id rid)")
  case None
  then have "rid_page_id rid \<noteq> kHeaderPageId" using rid hchain_page [OF ch, of "rid_page_id rid"] by auto
  with bp None obtain bp1 where "BufferPool_FetchPage (rid_page_id rid) bp = (None, bp1)"
    "pool_to bp (bp_view bp) (bp_avail bp) bp1"
    by (rule unknown_page)
  with None that show thesis
    by (simp add: HeapFile_GetRecordBytes_def heap_map_def Status_NotFound_def)
next
  case (Some p)
  then have ps: "rid_page_id rid \<in> set ps" using rid by auto
  from bp Some obtain i bp1 where "BufferPool_FetchPage (rid_page_id rid) bp = (Some i, bp1)"
    "BufferPool_page i bp1 = p"
    "pool_to bp (bp_view bp) (bp_avail bp) (unpin_page (rid_page_id rid) False bp1)"
    by (rule access_page) blast
  with Some ps that show thesis
    by (cases "slot_at (sp_slots p) (unat (rid_slot_id rid))")
      (simp_all add: HeapFile_GetRecordBytes_def GetRecord_refines heap_map_def Status_NotFound_def)
qed

lemma DeleteRecord_spec:
  assumes bp: "pool.ready bp" and hf: "heap_wf hf (bp_view bp) ps"
    and rid: "rid_page_id rid \<in> set ps \<or> bp_view bp (rid_page_id rid) = None \<and> rid_page_id rid \<noteq> kHeaderPageId"
  obtains st bp' where "HeapFile_DeleteRecord rid bp = (st, bp')"
    and "pool_to bp (bp_view bp') (bp_avail bp) bp'" and "heap_wf hf (bp_view bp') ps"
    and "heap_map (bp_view bp') ps = (heap_map (bp_view bp) ps)(rid := None)"
    and "kept ps (bp_view bp) (bp_view bp')"
    and "status_code st = (if heap_map (bp_view bp) ps rid = None then kNotFound else kOk)"
proof (cases "bp_view bp (rid_page_id rid)")
  case None
  have ch: "hchain (bp_view bp) (hf_first_page_id hf) ps" using hf by (simp add: heap_wf_def)
  have ps: "rid_page_id rid \<notin> set ps" and "rid_page_id rid \<noteq> kHeaderPageId"
    using None rid hchain_page [OF ch, of "rid_page_id rid"] by auto
  with bp None obtain bp1 where "BufferPool_FetchPage (rid_page_id rid) bp = (None, bp1)"
    "pool_to bp (bp_view bp) (bp_avail bp) bp1"
    by (metis unknown_page)
  with ps hf that show thesis
    by (simp add: HeapFile_DeleteRecord_def heap_map_def Status_NotFound_def pool_to_def kept_def fun_upd_idem)
next
  case (Some p)
  have ch: "hchain (bp_view bp) (hf_first_page_id hf) ps" using hf by (simp add: heap_wf_def)
  have ps: "rid_page_id rid \<in> set ps" using rid Some by auto
  then have wf: "sp_wf p" using hchain_page [OF ch] Some by fastforce
  obtain ok p' where d: "SlottedPage_DeleteRecord p (rid_slot_id rid) = (ok, p')" by fastforce
  note r = DeleteRecord_refines [OF wf d]
  have wf': "sp_wf p'" using r(2,3) wf by (cases ok) auto
  have nx: "SlottedPage_NextPageId p' = SlottedPage_NextPageId p"
    using r(6) by (simp add: SlottedPage_NextPageId_def SlottedPage_ReadHeader_def)
  have sl: "slot_at (sp_slots p') k = (if k = unat (rid_slot_id rid) then None else slot_at (sp_slots p) k)" for k
    using r(1,2,4) by (cases ok) (auto simp: slot_at_def nth_list_update split: if_splits)
  from bp Some obtain i bp1 where f: "BufferPool_FetchPage (rid_page_id rid) bp = (Some i, bp1)"
    "BufferPool_page i bp1 = p"
    and u: "\<And>p' d. length p' = kPageSize \<Longrightarrow> d \<or> p' = p \<Longrightarrow>
      pool_to bp ((bp_view bp)(rid_page_id rid \<mapsto> p')) (bp_avail bp)
        (unpin_page (rid_page_id rid) d (BufferPool_put i p' bp1))"
    by (rule access_page) blast
  define bp' where "bp' = unpin_page (rid_page_id rid) ok (BufferPool_put i p' bp1)"
  have t: "pool_to bp ((bp_view bp)(rid_page_id rid \<mapsto> p')) (bp_avail bp) bp'"
    unfolding bp'_def using wf' r(2) by (intro u) (auto simp: sp_wf_def)
  note v = pool_toD(2) [OF t]
  have "heap_map (bp_view bp') ps = (heap_map (bp_view bp) ps)(rid := None)"
    unfolding v using ps Some sl by (rule heap_map_slot)
  moreover have "heap_wf hf (bp_view bp') ps"
    using hchain_update [OF ch Some wf' nx] hf by (simp add: heap_wf_def v)
  moreover have "kept ps (bp_view bp) (bp_view bp')" using ps by (auto simp: kept_def v)
  moreover have "status_code (fst (HeapFile_DeleteRecord rid bp)) =
      (if heap_map (bp_view bp) ps rid = None then kNotFound else kOk)"
    "HeapFile_DeleteRecord rid bp = (fst (HeapFile_DeleteRecord rid bp), bp')"
    using f d r(1) ps Some
    by (auto simp: HeapFile_DeleteRecord_def Let_def bp'_def heap_map_def status_defs)
  ultimately show thesis using that t v by metis
qed

text \<open>
  An update returns the id under which the record is now. If the new contents does not fit into
  the slot the record moves; if it does not fit into any page the old record is gone as well.
\<close>

lemma UpdateRecord_spec:
  assumes bp: "pool.ready bp" and hf: "heap_wf hf (bp_view bp) ps" and data: "storable data"
    and av: "0 < bp_avail bp" and old: "heap_map (bp_view bp) ps rid = Some old"
  obtains r hf' bp' ps' where
    "HeapFile_UpdateRecord rid data (word_of_nat (length data)) hf bp = Some (r, hf', bp')"
    and "pool_to bp (bp_view bp') (bp_avail bp') bp'" and "heap_wf hf' (bp_view bp') ps'"
    and "kept ps (bp_view bp) (bp_view bp')"
    and "length data \<le> length old \<Longrightarrow> bp_avail bp' = bp_avail bp"
    and "case r of
        Inr rid' \<Rightarrow> length data \<le> 4080 \<and> (rid' = rid \<or> length old < length data \<and> heap_map (bp_view bp) ps rid' = None) \<and>
          heap_map (bp_view bp') ps' = (heap_map (bp_view bp) ps)(rid := None, rid' \<mapsto> data)
      | Inl e \<Rightarrow> 4080 < length data \<and> status_code e = kOutOfSpace \<and>
          heap_map (bp_view bp') ps' = (heap_map (bp_view bp) ps)(rid := None)"
    and "hf_first_page_id hf' = hf_first_page_id hf" and "bp_avail bp - 1 \<le> bp_avail bp'"
    and "\<And>q. q \<in> set ps' \<Longrightarrow> q \<notin> set ps \<Longrightarrow> bp_view bp q = None"
proof -
  let ?len = "word_of_nat (length data) :: u16"
  have ch: "hchain (bp_view bp) (hf_first_page_id hf) ps" using hf by (simp add: heap_wf_def)
  obtain p where ps: "rid_page_id rid \<in> set ps" and p: "bp_view bp (rid_page_id rid) = Some p"
    and sl: "slot_at (sp_slots p) (unat (rid_slot_id rid)) = Some old"
    using old by (auto simp: heap_map_def split: if_splits option.splits)
  have wf: "sp_wf p" using hchain_page [OF ch ps] p by auto
  have len: "length data = unat ?len" "0 < unat ?len"
    using data by (simp_all add: storable_len) (simp add: storable_def)
  obtain ok p' where d: "SlottedPage_UpdateRecordInPlace p (rid_slot_id rid) data ?len = (ok, p')" by fastforce
  note r = UpdateRecordInPlace_refines [OF wf len d]
  have wf': "sp_wf p'" using r(2,3) wf by (cases ok) auto
  from bp p obtain i bp1 where f: "BufferPool_FetchPage (rid_page_id rid) bp = (Some i, bp1)"
    "BufferPool_page i bp1 = p"
    and u: "\<And>p' d. length p' = kPageSize \<Longrightarrow> d \<or> p' = p \<Longrightarrow>
      pool_to bp ((bp_view bp)(rid_page_id rid \<mapsto> p')) (bp_avail bp)
        (unpin_page (rid_page_id rid) d (BufferPool_put i p' bp1))"
    by (rule access_page) blast
  define bp2 where "bp2 = unpin_page (rid_page_id rid) ok (BufferPool_put i p' bp1)"
  have t: "pool_to bp ((bp_view bp)(rid_page_id rid \<mapsto> p')) (bp_avail bp) bp2"
    unfolding bp2_def using wf' r(2) by (intro u) (auto simp: sp_wf_def)
  note v = pool_toD [OF t]
  show thesis
  proof (cases ok)
    case True
    have nx: "SlottedPage_NextPageId p' = SlottedPage_NextPageId p"
      using r(6) by (simp add: SlottedPage_NextPageId_def SlottedPage_ReadHeader_def)
    have "heap_map (bp_view bp2) ps = (heap_map (bp_view bp) ps)(rid \<mapsto> data)"
      unfolding v(2) using ps p
      by (rule heap_map_slot) (use r(4) True sl in \<open>auto simp: slot_at_def nth_list_update split: if_splits\<close>)
    moreover have "heap_wf hf (bp_view bp2) ps"
      using hchain_update [OF ch p wf' nx] hf by (simp add: heap_wf_def v)
    moreover have "length old \<le> 4080" using sl wf by (rule slot_length_le)
    moreover have "HeapFile_UpdateRecord rid data ?len hf bp = Some (Inr rid, hf, bp2)"
      using f d True by (simp add: HeapFile_UpdateRecord_def bp2_def)
    ultimately show thesis
      using that [of "Inr rid" hf bp2 ps] t v r(1) True sl len(1) ps by (simp add: kept_def)
  next
    case False
    then have v2: "bp_view bp2 = bp_view bp" using v(2) r(2) p by (simp add: fun_upd_idem)
    have "rid_page_id rid \<in> set ps \<or> bp_view bp2 (rid_page_id rid) = None \<and> rid_page_id rid \<noteq> kHeaderPageId"
      using ps by simp
    with v(1) hf [folded v2] obtain st bp3 where del: "HeapFile_DeleteRecord rid bp2 = (st, bp3)"
      and t3: "pool_to bp2 (bp_view bp3) (bp_avail bp2) bp3" and hf3: "heap_wf hf (bp_view bp3) ps"
      and m3: "heap_map (bp_view bp3) ps = (heap_map (bp_view bp2) ps)(rid := None)"
      and k3: "kept ps (bp_view bp2) (bp_view bp3)"
      and st: "status_code st = (if heap_map (bp_view bp2) ps rid = None then kNotFound else kOk)"
      by (rule DeleteRecord_spec)
    have av3: "0 < bp_avail bp3" using av v(3) pool_toD(3) [OF t3] by simp
    from pool_toD(1) [OF t3] hf3 data av3 obtain r' hf' bp' ps' where
      ins: "HeapFile_InsertRecord data ?len hf bp3 = Some (r', hf', bp')"
      and t4: "pool_to bp3 (bp_view bp') (bp_avail bp') bp'" and av4: "bp_avail bp3 - 1 \<le> bp_avail bp'"
      and post: "insert_post hf (bp_view bp3) ps data r' hf' (bp_view bp') ps'"
      by (rule InsertRecord_spec)
    have fr: "bp_view bp q = None" if "q \<in> set ps'" "q \<notin> set ps" for q
      using post that k3 v2 by (fastforce simp: kept_def insert_post_def)
    have "HeapFile_UpdateRecord rid data ?len hf bp = Some (r', hf', bp')"
      using f d False del st old v2 ins by (simp add: HeapFile_UpdateRecord_def bp2_def Status_ok_def)
    moreover have "pool_to bp (bp_view bp') (bp_avail bp') bp'"
      using pool_to_trans [OF pool_to_trans [OF t t3] t4] .
    moreover have "heap_wf hf' (bp_view bp') ps'" using post by (simp add: insert_post_def)
    moreover have "kept ps (bp_view bp) (bp_view bp')"
      using k3 post v2 by (fastforce simp: kept_def insert_post_def)
    ultimately show thesis
      by (rule that) (use post m3 v2 r(1) False sl len(1) av4 fr v(3) pool_toD(3) [OF t3] in \<open>auto simp: insert_post_def split: sum.splits if_splits\<close>)
  qed
qed

text \<open>The records of a page and of a file, in the order in which \<open>Scan\<close> visits them.\<close>

definition page_records :: "page_id_t \<Rightarrow> Page \<Rightarrow> (RecordId \<times> byte list) list" where
  "page_records q p =
     List.map_filter (\<lambda>s. map_option (Pair \<lparr>rid_page_id = q, rid_slot_id = word_of_nat s\<rparr>)
       (slot_at (sp_slots p) s)) [0..<length (sp_slots p)]"

definition heap_records :: "(page_id_t \<Rightarrow> Page option) \<Rightarrow> page_id_t list \<Rightarrow> (RecordId \<times> byte list) list" where
  "heap_records v ps = concat (map (\<lambda>q. case v q of Some p \<Rightarrow> page_records q p | None \<Rightarrow> []) ps)"

lemma unat_slot_id: "s < sp_sc p \<Longrightarrow> unat (word_of_nat s :: slot_id_t) = s"
  using sp_sc_less [of p] by (intro unat_word_of_nat_u16) linarith

lemma scan_page_records: "scan_page q p f acc = fold (\<lambda>(rid, r). f rid r) (page_records q p) acc"
proof -
  have "fold (\<lambda>s acc. case SlottedPage_GetRecord p (word_of_nat s) of None \<Rightarrow> acc
        | Some rec \<Rightarrow> f \<lparr>rid_page_id = q, rid_slot_id = word_of_nat s\<rparr> rec acc) ss acc =
      fold (\<lambda>(rid, r). f rid r) (List.map_filter (\<lambda>s. map_option (Pair \<lparr>rid_page_id = q, rid_slot_id = word_of_nat s\<rparr>)
        (slot_at (sp_slots p) s)) ss) acc" if "set ss \<subseteq> {..<sp_sc p}" for ss
    using that
  proof (induction ss arbitrary: acc)
    case (Cons s ss)
    then have "unat (word_of_nat s :: slot_id_t) = s" by (intro unat_slot_id [of s p]) simp
    with Cons show ?case
      by (cases "slot_at (sp_slots p) s") (simp_all add: GetRecord_refines List.map_filter_simps)
  qed (simp add: List.map_filter_simps)
  from this [of "[0..<sp_sc p]"] show ?thesis
    by (simp add: scan_page_def page_records_def lessThan_atLeast0)
qed

lemma Scan_loop:
  assumes "pool.ready bp" and "hchain (bp_view bp) cur qs"
  shows "\<exists>bp'. heap_scan_loop f cur acc bp = Some (fold (\<lambda>(rid, r). f rid r) (heap_records (bp_view bp) qs) acc, bp') \<and>
     pool_to bp (bp_view bp) (bp_avail bp) bp'"
  using assms
proof (induction qs arbitrary: cur acc bp)
  case Nil
  then show ?case
    using pool_to_refl by (simp add: heap_scan_loop.simps [of _ kInvalidPageId] heap_records_def)
next
  case (Cons q qs)
  from Cons.prems(2) obtain p where q: "cur = q" "q \<noteq> kInvalidPageId" "bp_view bp q = Some p"
    and ch: "hchain (bp_view bp) (SlottedPage_NextPageId p) qs" by (auto split: option.splits)
  from Cons.prems(1) q(3) obtain i bp1 where fe: "BufferPool_FetchPage q bp = (Some i, bp1)"
    "BufferPool_page i bp1 = p"
    and t: "pool_to bp (bp_view bp) (bp_avail bp) (unpin_page q False bp1)"
    by (rule access_page) blast
  note v = pool_toD [OF t]
  have step: "heap_scan_loop f cur acc bp =
      heap_scan_loop f (SlottedPage_NextPageId p) (scan_page q p f acc) (unpin_page q False bp1)"
    using q fe by (simp add: heap_scan_loop.simps [of _ q])
  from Cons.IH [OF v(1), of "SlottedPage_NextPageId p" "scan_page q p f acc"] ch v(2)
  obtain bp' where "heap_scan_loop f cur acc bp =
      Some (fold (\<lambda>(rid, r). f rid r) (heap_records (bp_view bp) qs) (scan_page q p f acc), bp')"
    "pool_to (unpin_page q False bp1) (bp_view bp) (bp_avail bp) bp'"
    unfolding step using v by auto
  then show ?case
    using pool_to_trans [OF t] q(3) by (auto simp: heap_records_def scan_page_records)
qed

text \<open>Every live record occurs in a scan, under its own id, and no id occurs twice.\<close>

lemma set_map_filter: "set (List.map_filter f xs) = {y. \<exists>x \<in> set xs. f x = Some y}"
  by (auto simp: List.map_filter_def image_iff) (metis option.sel)

lemma page_records_iff:
  "(rid, r) \<in> set (page_records q p) \<longleftrightarrow>
     rid_page_id rid = q \<and> slot_at (sp_slots p) (unat (rid_slot_id rid)) = Some r"
proof
  assume "(rid, r) \<in> set (page_records q p)"
  then obtain s where s: "s < sp_sc p" "slot_at (sp_slots p) s = Some r"
    "rid = \<lparr>rid_page_id = q, rid_slot_id = word_of_nat s\<rparr>"
    by (auto simp: page_records_def set_map_filter)
  then show "rid_page_id rid = q \<and> slot_at (sp_slots p) (unat (rid_slot_id rid)) = Some r"
    using unat_slot_id [of s p] by simp
next
  assume a: "rid_page_id rid = q \<and> slot_at (sp_slots p) (unat (rid_slot_id rid)) = Some r"
  then have "unat (rid_slot_id rid) < sp_sc p" by (auto simp: slot_at_def split: if_splits)
  with a show "(rid, r) \<in> set (page_records q p)"
    by (cases rid) (auto simp: page_records_def set_map_filter intro!: bexI [of _ "unat (rid_slot_id rid)"])
qed

lemma distinct_map_filter:
  "distinct xs \<Longrightarrow> (\<And>x y z. x \<in> set xs \<Longrightarrow> y \<in> set xs \<Longrightarrow> f x = Some z \<Longrightarrow> map_option g (f y) = Some (g z) \<Longrightarrow> x = y)
    \<Longrightarrow> distinct (map g (List.map_filter f xs))"
proof (induction xs)
  case (Cons a xs)
  show ?case
  proof (cases "f a")
    case (Some z)
    have "g z \<notin> g ` set (List.map_filter f xs)"
    proof
      assume "g z \<in> g ` set (List.map_filter f xs)"
      then obtain y w where "y \<in> set xs" "f y = Some w" "g w = g z" by (auto simp: set_map_filter)
      with Cons.prems(2) [of a y z] Some Cons.prems(1) show False by auto
    qed
    with Some Cons show ?thesis by (auto simp: List.map_filter_simps)
  qed (use Cons in \<open>auto simp: List.map_filter_simps\<close>)
qed (simp add: List.map_filter_simps)

lemma distinct_page_records: "distinct (map fst (page_records q p))"
  unfolding page_records_def
proof (rule distinct_map_filter)
  fix x y z
  assume x: "x \<in> set [0..<length (sp_slots p)]" and y: "y \<in> set [0..<length (sp_slots p)]"
    and "map_option (Pair \<lparr>rid_page_id = q, rid_slot_id = word_of_nat x\<rparr>) (slot_at (sp_slots p) x) = Some z"
    and "map_option fst (map_option (Pair \<lparr>rid_page_id = q, rid_slot_id = word_of_nat y\<rparr>)
       (slot_at (sp_slots p) y)) = Some (fst z)"
  then have "(word_of_nat x :: slot_id_t) = word_of_nat y" by (auto split: option.splits)
  then have "unat (word_of_nat x :: slot_id_t) = unat (word_of_nat y :: slot_id_t)" by simp
  with x y show "x = y" using unat_slot_id [of x p] unat_slot_id [of y p] by simp
qed simp

lemma heap_records_iff:
  "(rid, r) \<in> set (heap_records v ps) \<longleftrightarrow> heap_map v ps rid = Some r"
proof -
  have "(rid, r) \<in> set (heap_records v ps) \<longleftrightarrow>
      (\<exists>q \<in> set ps. \<exists>p. v q = Some p \<and> (rid, r) \<in> set (page_records q p))"
    by (induction ps) (auto simp: heap_records_def split: option.splits)
  then show ?thesis by (auto simp: heap_map_def page_records_iff split: option.splits)
qed

lemma distinct_heap_records: "distinct ps \<Longrightarrow> distinct (map fst (heap_records v ps))"
proof (induction ps)
  case (Cons q ps)
  have disj: "rid \<notin> fst ` set (heap_records v ps)" if "rid_page_id rid = q" for rid
    using that Cons.prems heap_records_iff [of rid _ v ps]
    by (auto simp: heap_map_def split: if_splits)
  have "heap_records v (q # ps) = (case v q of Some p \<Rightarrow> page_records q p | None \<Rightarrow> []) @ heap_records v ps"
    by (simp add: heap_records_def)
  then show ?case
    using Cons disj
    by (auto simp: distinct_page_records page_records_iff image_iff split: option.splits) fastforce
qed (simp add: heap_records_def)

text \<open>A new heap file is empty.\<close>

lemma HeapFile_new_spec:
  assumes "pool.ready bp" and "0 < bp_avail bp"
  obtains hf bp' n where "HeapFile_new kInvalidPageId bp = Some (hf, bp')"
    and "pool_to bp (bp_view bp') (bp_avail bp - 1) bp'" and "heap_wf hf (bp_view bp') [n]"
    and "hf_first_page_id hf = n" and "bp_view bp n = None"
    and "heap_map (bp_view bp') [n] = (\<lambda>_. None)" and "kept [] (bp_view bp) (bp_view bp')"
proof -
  from assms obtain i n bp1 where f: "BufferPool_NewPage bp = (Some (i, n), bp1)" "bp_view bp n = None"
    "n \<noteq> kInvalidPageId" "BufferPool_page i bp1 = Page_Reset"
    and u: "\<And>p'. length p' = kPageSize \<Longrightarrow> pool_to bp ((bp_view bp)(n \<mapsto> p')) (bp_avail bp - 1)
       (unpin_page n True (BufferPool_put i p' bp1))"
    by (rule fresh_page) blast
  define p0 where "p0 = SlottedPage_Init n kInvalidPageId Page_Reset"
  note ini = Init_refines [OF length_Page_Reset, of n kInvalidPageId, folded p0_def]
  define bp' where "bp' = unpin_page n True (BufferPool_put i p0 bp1)"
  have t: "pool_to bp ((bp_view bp)(n \<mapsto> p0)) (bp_avail bp - 1) bp'"
    unfolding bp'_def using ini(1) by (intro u) (simp add: sp_wf_def)
  note v = pool_toD(2) [OF t]
  have "HeapFile_new kInvalidPageId bp =
      Some (\<lparr>hf_first_page_id = n, hf_last_insert_page_id = n\<rparr>, bp')"
    using f by (simp add: HeapFile_new_def bp'_def p0_def)
  moreover have "heap_map (bp_view bp') [n] = (\<lambda>_. None)"
    using ini(2) by (simp add: heap_map_def v slot_at_def fun_eq_iff)
  ultimately show thesis
    using that t f(2,3) ini(1,4) by (simp add: heap_wf_def kept_def v)
qed

end
