(* ===== verification/Values.thy ===== *)
theory Values
  imports Bytes
begin

text \<open>
  Column types, values and schemas, after \<open>src/common/value.hpp\<close> and
  \<open>src/common/schema.hpp\<close>. A \<open>double\<close> is its IEEE-754 binary64 bit pattern, a
  \<open>64 word\<close>: storage copies the pattern, and nothing of the storage engine computes
  with it.
\<close>

datatype ColumnType = kInt | kBigInt | kDouble | kBool | kVarchar

definition ColumnTypeName :: "ColumnType \<Rightarrow> string" where
  "ColumnTypeName t =
     (case t of
        kInt \<Rightarrow> ''INT''
      | kBigInt \<Rightarrow> ''BIGINT''
      | kDouble \<Rightarrow> ''DOUBLE''
      | kBool \<Rightarrow> ''BOOLEAN''
      | kVarchar \<Rightarrow> ''VARCHAR'')"

datatype Value =
    VNull
  | VInt "32 word"
  | VBigInt "64 word"
  | VDouble "64 word"
  | VBool bool
  | VVarchar string

definition IsNull :: "Value \<Rightarrow> bool" where
  "IsNull v \<longleftrightarrow> v = VNull"

definition ValueMatchesType :: "Value \<Rightarrow> ColumnType \<Rightarrow> bool" where
  "ValueMatchesType v t =
     (if IsNull v then True
      else case t of
        kInt \<Rightarrow> (case v of VInt _ \<Rightarrow> True | _ \<Rightarrow> False)
      | kBigInt \<Rightarrow> (case v of VBigInt _ \<Rightarrow> True | _ \<Rightarrow> False)
      | kDouble \<Rightarrow> (case v of VDouble _ \<Rightarrow> True | _ \<Rightarrow> False)
      | kBool \<Rightarrow> (case v of VBool _ \<Rightarrow> True | _ \<Rightarrow> False)
      | kVarchar \<Rightarrow> (case v of VVarchar _ \<Rightarrow> True | _ \<Rightarrow> False))"

record Column =
  col_name :: string
  col_type :: ColumnType
  col_nullable :: bool
  col_max_length :: u16

type_synonym Schema = "Column list"

definition Schema_ColumnCount :: "Schema \<Rightarrow> nat" where
  "Schema_ColumnCount s = length s"

fun index_from :: "nat \<Rightarrow> Column list \<Rightarrow> string \<Rightarrow> nat option" where
  "index_from i [] name = None"
| "index_from i (c # cs) name = (if col_name c = name then Some i else index_from (Suc i) cs name)"

definition Schema_IndexOf :: "Schema \<Rightarrow> string \<Rightarrow> nat option" where
  "Schema_IndexOf s name = index_from 0 s name"

lemma IsNull_simps [simp]:
  "IsNull VNull" "\<not> IsNull (VInt a)" "\<not> IsNull (VBigInt b)" "\<not> IsNull (VDouble d)"
  "\<not> IsNull (VBool e)" "\<not> IsNull (VVarchar s)"
  by (simp_all add: IsNull_def)

lemma ValueMatchesType_cases:
  "ValueMatchesType v t \<longleftrightarrow>
     v = VNull \<or>
     (case t of kInt \<Rightarrow> (\<exists>x. v = VInt x) | kBigInt \<Rightarrow> (\<exists>x. v = VBigInt x)
      | kDouble \<Rightarrow> (\<exists>x. v = VDouble x) | kBool \<Rightarrow> (\<exists>x. v = VBool x)
      | kVarchar \<Rightarrow> (\<exists>x. v = VVarchar x))"
  by (cases v; cases t) (simp_all add: ValueMatchesType_def)

text \<open>\<open>IndexOf\<close> finds the first column of the name, and nothing only if there is none.\<close>

lemma index_from_Some:
  "index_from i cs name = Some k \<longleftrightarrow>
     i \<le> k \<and> k - i < length cs \<and> col_name (cs ! (k - i)) = name \<and>
     (\<forall>j < k - i. col_name (cs ! j) \<noteq> name)"
proof (induction cs arbitrary: i)
  case Nil
  then show ?case by simp
next
  case (Cons c cs)
  show ?case
  proof (cases "col_name c = name")
    case True
    show ?thesis
    proof (cases "k - i")
      case 0
      with True show ?thesis by auto
    next
      case (Suc m)
      then have "k \<noteq> i" by simp
      moreover have "\<not> (\<forall>j < k - i. col_name ((c # cs) ! j) \<noteq> name)"
        using True Suc by (auto intro!: exI [of _ 0])
      ultimately show ?thesis using True by auto
    qed
  next
    case False
    show ?thesis
    proof (cases "k - i")
      case 0
      with False Cons.IH [of "Suc i"] show ?thesis by auto
    next
      case (Suc m)
      then have "k - Suc i = m" "Suc i \<le> k" by auto
      with False Cons.IH [of "Suc i"] Suc show ?thesis
        by (auto simp: less_Suc_eq_0_disj)
    qed
  qed
qed

lemma IndexOf_Some_iff:
  "Schema_IndexOf s name = Some k \<longleftrightarrow>
     k < length s \<and> col_name (s ! k) = name \<and> (\<forall>j < k. col_name (s ! j) \<noteq> name)"
  by (simp add: Schema_IndexOf_def index_from_Some)

lemma index_from_None: "index_from i cs name = None \<longleftrightarrow> name \<notin> col_name ` set cs"
  by (induction cs arbitrary: i) auto

lemma IndexOf_None_iff: "Schema_IndexOf s name = None \<longleftrightarrow> name \<notin> col_name ` set s"
  by (simp add: Schema_IndexOf_def index_from_None)

end
