(* ===== verification/Record_Codec.thy ===== *)
theory Record_Codec
  imports Values
begin

unbundle bit_operations_syntax

text \<open>
  The row codec of \<open>src/storage/record.hpp\<close> and \<open>src/storage/record.cpp\<close>: a null
  bitmap of one bit per column, then the non-null values in schema order. \<open>Encode\<close> and
  \<open>Decode\<close> are loops over the columns; \<open>encode_cols\<close> and \<open>decode_cols\<close> are
  these loops, with the column index, the output and the read cursor as arguments.
\<close>

definition NullBitmapBytes :: "nat \<Rightarrow> nat" where
  "NullBitmapBytes column_count = (column_count + 7) div 8"

text \<open>The \<open>switch\<close> over the column type in \<open>Encode\<close>, after the type check.\<close>

definition encode_value :: "Column \<Rightarrow> Value \<Rightarrow> byte list Result" where
  "encode_value c v =
     (case v of
        VInt iv \<Rightarrow> Inr (WriteFixed iv)
      | VBigInt iv \<Rightarrow> Inr (WriteFixed iv)
      | VDouble dv \<Rightarrow> Inr (WriteFixed dv)
      | VBool bv \<Rightarrow> Inr [if bv then 1 else 0]
      | VVarchar sv \<Rightarrow>
          (if length sv > unat (col_max_length c)
           then Inl (Status_InvalidArgument
             (''RecordCodec::Encode: value too long for column '' @ [CHR 0x27] @ col_name c @ [CHR 0x27]))
           else if length sv > 65535
           then Inl (Status_InvalidArgument
             ''RecordCodec::Encode: value exceeds 65535-byte codec limit'')
           else Inr (WriteFixed (word_of_nat (length sv) :: u16) @ bytes_of_string sv))
      | VNull \<Rightarrow> Inr [])"

definition mark_null :: "nat \<Rightarrow> byte list \<Rightarrow> byte list" where
  "mark_null i out = out[i div 8 := out ! (i div 8) OR push_bit (i mod 8) 1]"

fun encode_cols :: "nat \<Rightarrow> Column list \<Rightarrow> Value list \<Rightarrow> byte list \<Rightarrow> byte list Result" where
  "encode_cols i (c # cs) (v # vs) out =
     (if \<not> ValueMatchesType v (col_type c)
      then Inl (Status_InvalidArgument
        (''RecordCodec::Encode: type mismatch for column '' @ [CHR 0x27] @ col_name c @ [CHR 0x27]))
      else if IsNull v then
        (if \<not> col_nullable c
         then Inl (Status_InvalidArgument
           (''RecordCodec::Encode: NULL given for NOT NULL column '' @ [CHR 0x27] @ col_name c @ [CHR 0x27]))
         else encode_cols (Suc i) cs vs (mark_null i out))
      else bind_result (encode_value c v) (\<lambda>bs. encode_cols (Suc i) cs vs (out @ bs)))"
| "encode_cols i _ _ out = Inr out"

definition RecordCodec_Encode :: "Schema \<Rightarrow> Value list \<Rightarrow> byte list Result" where
  "RecordCodec_Encode schema values =
     (if length values \<noteq> Schema_ColumnCount schema
      then Inl (Status_InvalidArgument
        ''RecordCodec::Encode: value count does not match schema'')
      else encode_cols 0 schema values
        (replicate (NullBitmapBytes (Schema_ColumnCount schema)) 0))"

text \<open>
  The \<open>switch\<close> in \<open>Decode\<close>: the value at the cursor and the cursor behind it.
\<close>

definition decode_value :: "ColumnType \<Rightarrow> byte list \<Rightarrow> nat \<Rightarrow> (Value \<times> nat) Result" where
  "decode_value t bytes cursor =
     (case t of
        kInt \<Rightarrow>
          (if cursor + 4 > length bytes
           then Inl (Status_Corruption ''RecordCodec::Decode: truncated INT'')
           else Inr (VInt (read_at cursor bytes), cursor + 4))
      | kBigInt \<Rightarrow>
          (if cursor + 8 > length bytes
           then Inl (Status_Corruption ''RecordCodec::Decode: truncated BIGINT'')
           else Inr (VBigInt (read_at cursor bytes), cursor + 8))
      | kDouble \<Rightarrow>
          (if cursor + 8 > length bytes
           then Inl (Status_Corruption ''RecordCodec::Decode: truncated DOUBLE'')
           else Inr (VDouble (read_at cursor bytes), cursor + 8))
      | kBool \<Rightarrow>
          (if cursor + 1 > length bytes
           then Inl (Status_Corruption ''RecordCodec::Decode: truncated BOOLEAN'')
           else Inr (VBool (bytes ! cursor \<noteq> 0), cursor + 1))
      | kVarchar \<Rightarrow>
          (if cursor + 2 > length bytes
           then Inl (Status_Corruption ''RecordCodec::Decode: truncated VARCHAR length'')
           else let len = unat (read_at cursor bytes :: u16)
                in if cursor + 2 + len > length bytes
                   then Inl (Status_Corruption ''RecordCodec::Decode: truncated VARCHAR payload'')
                   else Inr (VVarchar (string_of_bytes (peek (cursor + 2) len bytes)),
                             cursor + 2 + len)))"

fun decode_cols :: "nat \<Rightarrow> Column list \<Rightarrow> byte list \<Rightarrow> nat \<Rightarrow> Value list Result" where
  "decode_cols i [] bytes cursor = Inr []"
| "decode_cols i (c # cs) bytes cursor =
     (if bytes ! (i div 8) AND push_bit (i mod 8) 1 \<noteq> 0
      then bind_result (decode_cols (Suc i) cs bytes cursor) (\<lambda>vs. Inr (VNull # vs))
      else bind_result (decode_value (col_type c) bytes cursor) (\<lambda>(v, cursor').
             bind_result (decode_cols (Suc i) cs bytes cursor') (\<lambda>vs. Inr (v # vs))))"

definition RecordCodec_Decode :: "Schema \<Rightarrow> byte list \<Rightarrow> Value list Result" where
  "RecordCodec_Decode schema bytes =
     (if length bytes < NullBitmapBytes (Schema_ColumnCount schema)
      then Inl (Status_Corruption ''RecordCodec::Decode: record shorter than null bitmap'')
      else decode_cols 0 schema bytes (NullBitmapBytes (Schema_ColumnCount schema)))"

section \<open>The null bitmap\<close>

definition bitmap_bit :: "byte list \<Rightarrow> nat \<Rightarrow> bool" where
  "bitmap_bit bm k = bit (bm ! (k div 8)) (k mod 8)"

lemma and_push_bit_1: "(b :: byte) AND push_bit n 1 \<noteq> 0 \<longleftrightarrow> bit b n"
proof -
  have "bit (b AND push_bit n 1) m \<longleftrightarrow> bit b n \<and> m = n" for m
    by (auto simp: bit_and_iff bit_exp_iff dest: bit_imp_le_length)
  then show ?thesis by (metis bit_0_eq bit_eqI bot_apply bot_bool_def)
qed

lemma bit_or_push_bit_1:
  "n < 8 \<Longrightarrow> bit ((b :: byte) OR push_bit n 1) m \<longleftrightarrow> bit b m \<or> m = n"
  by (auto simp: bit_or_iff bit_exp_iff)

lemma bitmap_bit_set:
  assumes "i < 8 * length bm"
  shows "bitmap_bit (mark_null i bm) k \<longleftrightarrow>
     bitmap_bit bm k \<or> k = i"
proof -
  have "i div 8 < length bm" using assms by (simp add: less_mult_imp_div_less mult.commute)
  moreover have "k = i \<longleftrightarrow> k div 8 = i div 8 \<and> k mod 8 = i mod 8"
    by (metis div_mult_mod_eq)
  ultimately show ?thesis
    by (cases "k div 8 = i div 8") (auto simp: mark_null_def bitmap_bit_def bit_or_iff bit_exp_iff)
qed

text \<open>The bitmap and the payload \<open>Encode\<close> produces, described without its loop.\<close>

fun set_nulls :: "nat \<Rightarrow> Value list \<Rightarrow> byte list \<Rightarrow> byte list" where
  "set_nulls i [] bm = bm"
| "set_nulls i (v # vs) bm =
     set_nulls (Suc i) vs
       (if IsNull v then mark_null i bm else bm)"

fun value_bytes :: "Value \<Rightarrow> byte list" where
  "value_bytes VNull = []"
| "value_bytes (VInt x) = WriteFixed x"
| "value_bytes (VBigInt x) = WriteFixed x"
| "value_bytes (VDouble x) = WriteFixed x"
| "value_bytes (VBool b) = [if b then 1 else 0]"
| "value_bytes (VVarchar s) = WriteFixed (word_of_nat (length s) :: u16) @ bytes_of_string s"

definition payload :: "Value list \<Rightarrow> byte list" where
  "payload vs = concat (map value_bytes vs)"

text \<open>The rows \<open>Encode\<close> accepts.\<close>

definition encodable :: "Column \<Rightarrow> Value \<Rightarrow> bool" where
  "encodable c v \<longleftrightarrow>
     ValueMatchesType v (col_type c) \<and> (IsNull v \<longrightarrow> col_nullable c) \<and>
     (\<forall>s. v = VVarchar s \<longrightarrow> length s \<le> unat (col_max_length c))"

lemma length_mark_null [simp]: "length (mark_null i bm) = length bm"
  by (simp add: mark_null_def)

lemma length_set_nulls [simp]: "length (set_nulls i vs bm) = length bm"
  by (induction i vs bm rule: set_nulls.induct) auto

lemma payload_simps [simp]: "payload [] = []" "payload (v # vs) = value_bytes v @ payload vs"
  by (simp_all add: payload_def)

lemma bitmap_bit_set_nulls:
  assumes "i + length vs \<le> 8 * length bm"
  shows "bitmap_bit (set_nulls i vs bm) k \<longleftrightarrow>
     bitmap_bit bm k \<or> (i \<le> k \<and> k < i + length vs \<and> IsNull (vs ! (k - i)))"
  using assms
proof (induction i vs bm rule: set_nulls.induct)
  case (1 i bm)
  then show ?case by auto
next
  case (2 i v vs bm)
  have "i \<le> k \<and> k < i + length (v # vs) \<and> IsNull ((v # vs) ! (k - i)) \<longleftrightarrow>
      k = i \<and> IsNull v \<or> (Suc i \<le> k \<and> k < Suc i + length vs \<and> IsNull (vs ! (k - Suc i)))"
    by (auto simp: nth_Cons')
  with 2 show ?case by (auto simp: bitmap_bit_set)
qed

lemma encode_value_encodable:
  assumes "ValueMatchesType v (col_type c)"
  shows "(\<exists>bs. encode_value c v = Inr bs) \<longleftrightarrow> (\<forall>s. v = VVarchar s \<longrightarrow> length s \<le> unat (col_max_length c))"
    and "encode_value c v = Inr bs \<Longrightarrow> bs = value_bytes v"
  using unat_u16_le [of "col_max_length c"] le_trans [OF _ unat_u16_le]
  by (fastforce simp: encode_value_def split: Value.splits if_splits)+

section \<open>Round trip\<close>

lemma mark_null_append: "i div 8 < length bm \<Longrightarrow> mark_null i (bm @ pl) = mark_null i bm @ pl"
  by (simp add: mark_null_def nth_append list_update_append)

lemma encode_cols_iff:
  assumes "length cs = length vs" and "i + length vs \<le> 8 * length bm"
  shows "encode_cols i cs vs (bm @ pl) = Inr out \<longleftrightarrow>
     list_all2 encodable cs vs \<and> out = set_nulls i vs bm @ pl @ payload vs"
  using assms
proof (induction cs vs arbitrary: i bm pl rule: list_induct2)
  case Nil
  then show ?case by auto
next
  case (Cons c cs v vs)
  have i: "i div 8 < length bm"
    using Cons.prems by (simp add: less_mult_imp_div_less mult.commute)
  show ?case
  proof (cases "IsNull v")
    case True
    with Cons.prems Cons.IH [of "Suc i" "mark_null i bm" pl] i
    show ?thesis
      by (auto simp: encodable_def mark_null_append IsNull_def)
  next
    case False
    show ?thesis
    proof (cases "encodable c v")
      case True
      then obtain bs where "encode_value c v = Inr bs"
        using encode_value_encodable(1) [of v c] by (auto simp: encodable_def)
      with True False Cons.prems Cons.IH [of "Suc i" bm "pl @ value_bytes v"]
        encode_value_encodable(2) [of v c bs]
      show ?thesis by (simp add: encodable_def)
    next
      case not: False
      with False encode_value_encodable(1) [of v c] show ?thesis
        by (auto simp: encodable_def bind_result_Inr_iff)
    qed
  qed
qed

lemma NullBitmapBytes_enough: "n \<le> 8 * NullBitmapBytes n"
  by (simp add: NullBitmapBytes_def)

text \<open>What \<open>Encode\<close> accepts and what it returns.\<close>

lemma Encode_iff:
  "RecordCodec_Encode cs vs = Inr out \<longleftrightarrow>
     list_all2 encodable cs vs \<and>
     out = set_nulls 0 vs (replicate (NullBitmapBytes (length cs)) 0) @ payload vs"
proof (cases "length vs = length cs")
  case True
  then show ?thesis
    using encode_cols_iff [of cs vs 0 "replicate (NullBitmapBytes (length cs)) 0" "[]" out]
      NullBitmapBytes_enough [of "length cs"]
    by (simp add: RecordCodec_Encode_def Schema_ColumnCount_def)
next
  case False
  then show ?thesis
    by (auto simp: RecordCodec_Encode_def Schema_ColumnCount_def dest: list_all2_lengthD)
qed

lemma read_at_append:
  "length pre = off \<Longrightarrow> read_at off (pre @ WriteFixed (w :: u16) @ post) = w"
  "length pre = off \<Longrightarrow> read_at off (pre @ WriteFixed (v :: u32) @ post) = v"
  "length pre = off \<Longrightarrow> read_at off (pre @ WriteFixed (x :: u64) @ post) = x"
  by (simp_all add: read_at_def peek_def)

lemma decode_value_bytes:
  assumes "encodable c v" and "\<not> IsNull v"
  shows "decode_value (col_type c) (pre @ value_bytes v @ post) (length pre) =
     Inr (v, length pre + length (value_bytes v))"
proof (cases v)
  case (VVarchar s)
  then have len: "length s < 65536"
    using assms le_less_trans [OF _ unat_u16_less] by (auto simp: encodable_def)
  have "peek (length pre + 2) (length s)
      (pre @ WriteFixed (word_of_nat (length s) :: u16) @ bytes_of_string s @ post) = bytes_of_string s"
    by (simp add: peek_def)
  with VVarchar assms len show ?thesis
    by (auto simp: encodable_def ValueMatchesType_cases decode_value_def Let_def read_at_append
        unat_word_of_nat_u16 split: ColumnType.splits)
qed (use assms in \<open>auto simp: encodable_def ValueMatchesType_cases decode_value_def read_at_append
       split: ColumnType.splits\<close>)

lemma decode_cols_payload:
  assumes "list_all2 encodable cs vs"
    and "\<forall>k < length vs. bitmap_bit (pre @ payload vs @ post) (i + k) = IsNull (vs ! k)"
  shows "decode_cols i cs (pre @ payload vs @ post) (length pre) = Inr vs"
  using assms
proof (induction cs vs arbitrary: i pre rule: list_all2_induct)
  case Nil
  then show ?case by simp
next
  case (Cons c cs v vs)
  let ?bytes = "pre @ payload (v # vs) @ post"
  have bit0: "?bytes ! (i div 8) AND push_bit (i mod 8) 1 \<noteq> 0 \<longleftrightarrow> IsNull v"
    unfolding and_push_bit_1 using Cons.prems [rule_format, of 0] by (simp add: bitmap_bit_def)
  have rest: "\<forall>k < length vs. bitmap_bit ?bytes (Suc i + k) = IsNull (vs ! k)"
    using Cons.prems by auto
  have step: "decode_cols (Suc i) cs ?bytes (length pre + length (value_bytes v)) = Inr vs"
    using Cons.IH [of "pre @ value_bytes v" "Suc i"] rest by simp
  show ?case
  proof (cases "IsNull v")
    case True
    with bit0 step show ?thesis by (simp add: IsNull_def)
  next
    case False
    with bit0 step decode_value_bytes [OF Cons.hyps(1) False, of pre "payload vs @ post"]
    show ?thesis by simp
  qed
qed

lemma bitmap_bit_append: "k < 8 * length bm \<Longrightarrow> bitmap_bit (bm @ xs) k = bitmap_bit bm k"
  by (simp add: bitmap_bit_def nth_append less_mult_imp_div_less mult.commute)

lemma bitmap_bit_blank: "k < 8 * n \<Longrightarrow> \<not> bitmap_bit (replicate n 0) k"
  by (simp add: bitmap_bit_def less_mult_imp_div_less mult.commute)

lemma Decode_Encode:
  assumes "RecordCodec_Encode cs vs = Inr bs"
  shows "RecordCodec_Decode cs (bs @ junk) = Inr vs"
proof -
  let ?n = "NullBitmapBytes (length cs)"
  let ?bm = "set_nulls 0 vs (replicate ?n 0)"
  from assms have enc: "list_all2 encodable cs vs" and bs: "bs = ?bm @ payload vs"
    by (simp_all add: Encode_iff)
  have len: "length vs = length cs" using enc by (simp add: list_all2_lengthD)
  have "bitmap_bit (?bm @ payload vs @ junk) k = IsNull (vs ! k)" if "k < length vs" for k
  proof -
    have "k < 8 * length ?bm" using that NullBitmapBytes_enough [of "length cs"] len by simp
    then show ?thesis
      using that bitmap_bit_set_nulls [of 0 vs "replicate ?n 0" k] NullBitmapBytes_enough [of "length cs"]
      by (simp add: bitmap_bit_append bitmap_bit_blank len)
  qed
  then show ?thesis
    using decode_cols_payload [OF enc, of ?bm junk 0]
    by (simp add: RecordCodec_Decode_def Schema_ColumnCount_def bs)
qed

section \<open>What Decode returns on arbitrary bytes\<close>

lemma decode_value_typed:
  "decode_value t bs cur = Inr (v, cur') \<Longrightarrow> ValueMatchesType v t \<and> cur \<le> cur' \<and> cur' \<le> length bs"
  by (auto simp: decode_value_def ValueMatchesType_def Let_def split: ColumnType.splits if_splits)

lemma decode_value_Corruption: "decode_value t bs cur = Inl e \<Longrightarrow> status_code e = kCorruption"
  by (auto simp: decode_value_def Let_def status_defs split: ColumnType.splits if_splits)

lemma decode_cols_typed:
  "decode_cols i cs bs cur = Inr vs \<Longrightarrow> list_all2 (\<lambda>c v. ValueMatchesType v (col_type c)) cs vs"
proof (induction i cs bs cur arbitrary: vs rule: decode_cols.induct)
  case (2 i c cs bs cur)
  show ?case
  proof (cases "bs ! (i div 8) AND push_bit (i mod 8) 1 \<noteq> 0")
    case True
    with 2 show ?thesis by (auto simp: bind_result_Inr_iff ValueMatchesType_cases)
  next
    case False
    with 2 show ?thesis
      by (auto simp: bind_result_Inr_iff dest: decode_value_typed split: prod.splits)
  qed
qed simp

lemma decode_cols_Corruption: "decode_cols i cs bs cur = Inl e \<Longrightarrow> status_code e = kCorruption"
proof (induction i cs bs cur rule: decode_cols.induct)
  case (2 i c cs bs cur)
  then show ?case
    by (cases "decode_value (col_type c) bs cur")
      (auto simp: bind_result_def dest: decode_value_Corruption
        split: sum.splits prod.splits if_splits)
qed simp

lemma Decode_Corruption: "RecordCodec_Decode cs bs = Inl e \<Longrightarrow> status_code e = kCorruption"
  by (auto simp: RecordCodec_Decode_def status_defs dest: decode_cols_Corruption split: if_splits)

lemma decode_value_truncated:
  assumes "encodable c v" and "\<not> IsNull v" and k: "k < length (value_bytes v)"
  shows "\<exists>e. decode_value (col_type c) (pre @ take k (value_bytes v)) (length pre) = Inl e"
proof (cases v)
  case (VVarchar s)
  then have len: "length s < 65536"
    using assms le_less_trans [OF _ unat_u16_less] by (auto simp: encodable_def)
  let ?w = "word_of_nat (length s) :: u16"
  have "read_at (length pre) (pre @ take k (WriteFixed ?w @ bytes_of_string s)) = ?w" if "2 \<le> k"
    using that read_at_append(1) [of pre _ ?w "take (k - 2) (bytes_of_string s)"] by simp
  with VVarchar assms len show ?thesis
    by (auto simp: encodable_def ValueMatchesType_cases decode_value_def Let_def
        unat_word_of_nat_u16 not_less split: ColumnType.splits)
qed (use assms in \<open>auto simp: encodable_def ValueMatchesType_cases decode_value_def
       split: ColumnType.splits\<close>)

lemma decode_cols_truncated:
  assumes "list_all2 encodable cs vs"
    and "\<forall>k < length vs. bitmap_bit (take n (pre @ payload vs)) (i + k) = IsNull (vs ! k)"
    and "length pre \<le> n" and "n < length pre + length (payload vs)"
  shows "\<exists>e. decode_cols i cs (take n (pre @ payload vs)) (length pre) = Inl e"
  using assms
proof (induction cs vs arbitrary: i pre rule: list_all2_induct)
  case Nil
  then show ?case by simp
next
  case (Cons c cs v vs)
  let ?bytes = "take n (pre @ payload (v # vs))"
  have bit0: "?bytes ! (i div 8) AND push_bit (i mod 8) 1 \<noteq> 0 \<longleftrightarrow> IsNull v"
    unfolding and_push_bit_1
    using Cons.prems(1) [rule_format, of 0] by (simp add: bitmap_bit_def)
  have rest: "\<forall>k < length vs. bitmap_bit ?bytes (Suc i + k) = IsNull (vs ! k)"
    using Cons.prems(1) by auto
  show ?case
  proof (cases "length pre + length (value_bytes v) \<le> n")
    case True
    have step: "\<exists>e. decode_cols (Suc i) cs ?bytes (length pre + length (value_bytes v)) = Inl e"
      using Cons.IH [of "pre @ value_bytes v" "Suc i"] rest True Cons.prems by simp
    define B where "B = ?bytes"
    have B: "B = pre @ value_bytes v @ take (n - length pre - length (value_bytes v)) (payload vs)"
      using True by (simp add: B_def)
    have "decode_value (col_type c) B (length pre) = Inr (v, length pre + length (value_bytes v))"
      if "\<not> IsNull v"
      unfolding B using decode_value_bytes [OF Cons.hyps(1) that] .
    with bit0 step show ?thesis
      unfolding B_def [symmetric] by (cases "IsNull v") (auto simp: IsNull_def)
  next
    case False
    then have "\<not> IsNull v" using Cons.prems(2) by (auto simp: IsNull_def)
    moreover have "?bytes = pre @ take (n - length pre) (value_bytes v)"
      using False Cons.prems(2) by simp
    moreover have "n - length pre < length (value_bytes v)" using False Cons.prems(2) by linarith
    ultimately show ?thesis
      using bit0 decode_value_truncated [OF Cons.hyps(1), of "n - length pre" pre] by auto
  qed
qed

lemma Decode_truncated:
  assumes enc: "RecordCodec_Encode cs vs = Inr bs" and n: "n < length bs"
  shows "\<exists>e. RecordCodec_Decode cs (take n bs) = Inl e \<and> status_code e = kCorruption"
proof -
  let ?n = "NullBitmapBytes (length cs)"
  let ?bm = "set_nulls 0 vs (replicate ?n 0)"
  from enc have all: "list_all2 encodable cs vs" and bs: "bs = ?bm @ payload vs"
    by (simp_all add: Encode_iff)
  have len: "length vs = length cs" using all by (simp add: list_all2_lengthD)
  have "\<exists>e. RecordCodec_Decode cs (take n bs) = Inl e"
  proof (cases "n < ?n")
    case True
    then show ?thesis
      by (simp add: RecordCodec_Decode_def Schema_ColumnCount_def min.strict_coboundedI2)
  next
    case False
    have "bitmap_bit (take n (?bm @ payload vs)) k = IsNull (vs ! k)" if "k < length vs" for k
    proof -
      have "k < 8 * length ?bm" using that NullBitmapBytes_enough [of "length cs"] len by simp
      moreover have "take n (?bm @ payload vs) = ?bm @ take (n - ?n) (payload vs)"
        using False by simp
      ultimately show ?thesis
        using that bitmap_bit_set_nulls [of 0 vs "replicate ?n 0" k]
          NullBitmapBytes_enough [of "length cs"]
        by (simp add: bitmap_bit_append bitmap_bit_blank len)
    qed
    then show ?thesis
      using decode_cols_truncated [OF all, of n ?bm 0] False n
      by (simp add: RecordCodec_Decode_def Schema_ColumnCount_def bs)
  qed
  then show ?thesis using Decode_Corruption by blast
qed

text \<open>An encoded row of at least one column is never empty.\<close>

lemma Encode_nonempty:
  "RecordCodec_Encode cs vs = Inr bs \<Longrightarrow> cs \<noteq> [] \<Longrightarrow> 0 < length bs"
  by (cases cs) (auto simp: Encode_iff NullBitmapBytes_def)

section \<open>Properties of the row codec\<close>

text \<open>
  C13. Decoding undoes encoding: whatever \<open>Encode\<close> produces for a row, \<open>Decode\<close> with the
  same schema returns the row, even when bytes follow it.
\<close>

theorem codec_roundtrip:
  assumes "RecordCodec_Encode cs vs = Inr bs"
  shows "RecordCodec_Decode cs (bs @ junk) = Inr vs"
  using assms by (rule Decode_Encode)

definition demo_schema :: Schema where
  "demo_schema =
     [\<lparr>col_name = ''id'', col_type = kInt, col_nullable = False, col_max_length = 0\<rparr>,
      \<lparr>col_name = ''name'', col_type = kVarchar, col_nullable = True, col_max_length = 10\<rparr>,
      \<lparr>col_name = ''flag'', col_type = kBool, col_nullable = True, col_max_length = 0\<rparr>]"

definition demo_row :: "Value list" where
  "demo_row = [VInt 7, VVarchar ''ab'', VNull]"

lemma demo_row_encodes: "\<exists>bs. RecordCodec_Encode demo_schema demo_row = Inr bs \<and> length bs = 9"
  by (simp add: Encode_iff demo_schema_def demo_row_def encodable_def ValueMatchesType_def IsNull_def
      NullBitmapBytes_def payload_def)

theorem codec_roundtrip_witness:
  "\<exists>bs. RecordCodec_Encode demo_schema demo_row = Inr bs \<and> RecordCodec_Decode demo_schema (bs @ [255]) = Inr demo_row"
  using demo_row_encodes codec_roundtrip [of demo_schema demo_row _ "[255]"] by blast

text \<open>
  C20. \<open>Encode\<close> accepts exactly the rows that have one value per column, each of the column's type
  or null where the column allows it, and no string longer than the maximum length of its column.
\<close>

theorem Encode_accepts_iff:
  "(\<exists>bs. RecordCodec_Encode cs vs = Inr bs) \<longleftrightarrow> list_all2 encodable cs vs"
  by (simp add: Encode_iff)

text \<open>
  C14. A record cut short is never taken for a row: decoding any proper prefix of an encoded row
  reports corruption.
\<close>

theorem Decode_prefix_corrupt:
  assumes "RecordCodec_Encode cs vs = Inr bs" and "n < length bs"
  shows "\<exists>e. RecordCodec_Decode cs (take n bs) = Inl e \<and> status_code e = kCorruption"
  using assms by (rule Decode_truncated)

theorem Decode_prefix_corrupt_witness:
  "\<exists>bs e. RecordCodec_Encode demo_schema demo_row = Inr bs \<and>
     RecordCodec_Decode demo_schema (take 3 bs) = Inl e \<and> status_code e = kCorruption"
proof -
  obtain bs where bs: "RecordCodec_Encode demo_schema demo_row = Inr bs" "length bs = 9"
    using demo_row_encodes by blast
  then show ?thesis using Decode_prefix_corrupt [OF bs(1), of 3] by auto
qed

text \<open>
  Whatever the bytes are, a row that \<open>Decode\<close> returns has one value per column, of the
  column's type or null; every failure is reported as corruption.
\<close>

theorem Decode_typed:
  "case RecordCodec_Decode cs bs of
     Inr vs \<Rightarrow> list_all2 (\<lambda>c v. ValueMatchesType v (col_type c)) cs vs
   | Inl e \<Rightarrow> status_code e = kCorruption"
  using decode_cols_typed Decode_Corruption [of cs bs]
  by (auto simp: RecordCodec_Decode_def split: sum.splits if_splits)

end
