(* ===== verification/Record_Manager.thy ===== *)
theory Record_Manager
  imports Heap_File Record_Codec
begin

text \<open>
  Typed rows on top of a heap file (\<open>src/storage/record_manager.hpp\<close>). The contract of a
  record store, the laws of the row codec and what follows for rows are stated in two locales;
  they are interpreted on the heap file and the record codec of the preceding theories.
\<close>

record RecordManager =
  rm_heap_file :: HeapFile
  rm_schema :: Schema

definition RecordManager_InsertRow ::
  "Value list \<Rightarrow> RecordManager \<Rightarrow> BufferPool \<Rightarrow> (RecordId Result \<times> RecordManager \<times> BufferPool) option" where
  "RecordManager_InsertRow values rm bp =
     (case RecordCodec_Encode (rm_schema rm) values of
        Inl e \<Rightarrow> Some (Inl e, rm, bp)
      | Inr bytes \<Rightarrow>
          if 65535 < length bytes
          then Some (Inl (Status_InvalidArgument ''InsertRow: encoded row exceeds 65535-byte codec limit''), rm, bp)
          else (case HeapFile_InsertRecord bytes (word_of_nat (length bytes)) (rm_heap_file rm) bp of
                  None \<Rightarrow> None
                | Some (r, hf, bp') \<Rightarrow> Some (r, rm\<lparr>rm_heap_file := hf\<rparr>, bp')))"

definition RecordManager_GetRow :: "RecordId \<Rightarrow> RecordManager \<Rightarrow> BufferPool \<Rightarrow> Value list Result \<times> BufferPool" where
  "RecordManager_GetRow rid rm bp =
     (case HeapFile_GetRecordBytes rid bp of
        (Inl e, bp') \<Rightarrow> (Inl e, bp')
      | (Inr bytes, bp') \<Rightarrow> (RecordCodec_Decode (rm_schema rm) bytes, bp'))"

definition RecordManager_UpdateRow ::
  "RecordId \<Rightarrow> Value list \<Rightarrow> RecordManager \<Rightarrow> BufferPool \<Rightarrow> (RecordId Result \<times> RecordManager \<times> BufferPool) option" where
  "RecordManager_UpdateRow rid values rm bp =
     (case RecordCodec_Encode (rm_schema rm) values of
        Inl e \<Rightarrow> Some (Inl e, rm, bp)
      | Inr bytes \<Rightarrow>
          if 65535 < length bytes
          then Some (Inl (Status_InvalidArgument ''UpdateRow: encoded row exceeds 65535-byte codec limit''), rm, bp)
          else (case HeapFile_UpdateRecord rid bytes (word_of_nat (length bytes)) (rm_heap_file rm) bp of
                  None \<Rightarrow> None
                | Some (r, hf, bp') \<Rightarrow> Some (r, rm\<lparr>rm_heap_file := hf\<rparr>, bp')))"

definition RecordManager_DeleteRow :: "RecordId \<Rightarrow> BufferPool \<Rightarrow> Status \<times> BufferPool" where
  "RecordManager_DeleteRow rid bp = HeapFile_DeleteRecord rid bp"

text \<open>Rows that do not decode are skipped silently.\<close>

definition RecordManager_Scan ::
  "(RecordId \<Rightarrow> Value list \<Rightarrow> 'v \<Rightarrow> 'v) \<Rightarrow> 'v \<Rightarrow> RecordManager \<Rightarrow> BufferPool \<Rightarrow> ('v \<times> BufferPool) option" where
  "RecordManager_Scan visitor acc rm bp =
     HeapFile_Scan (\<lambda>rid bytes acc. case RecordCodec_Decode (rm_schema rm) bytes of
         Inl e \<Rightarrow> acc | Inr row \<Rightarrow> visitor rid row acc) acc (rm_heap_file rm) bp"

section \<open>Record stores\<close>

text \<open>
  \<open>rep s m\<close>: the store \<open>s\<close> holds the records \<open>m\<close>. \<open>fits r\<close>: the record is
  short enough to be stored at all; \<open>room s\<close>: the store can still grow.
\<close>

locale record_store =
  fixes rep :: "'s \<Rightarrow> ('i \<Rightarrow> 'r option) \<Rightarrow> bool"
    and room :: "'s \<Rightarrow> bool"
    and fits :: "'r \<Rightarrow> bool"
    and ins :: "'r \<Rightarrow> 's \<Rightarrow> ('i Result \<times> 's) option"
    and get :: "'i \<Rightarrow> 's \<Rightarrow> 'r Result \<times> 's"
    and del :: "'i \<Rightarrow> 's \<Rightarrow> Status \<times> 's"
    and upd :: "'i \<Rightarrow> 'r \<Rightarrow> 's \<Rightarrow> ('i Result \<times> 's) option"
    and scan :: "'s \<Rightarrow> (('i \<times> 'r) list \<times> 's) option"
    and sz :: "'r \<Rightarrow> nat"
  assumes ins_law: "rep s m \<Longrightarrow> room s \<Longrightarrow> fits r \<Longrightarrow>
      \<exists>i s'. ins r s = Some (Inr i, s') \<and> m i = None \<and> rep s' (m(i \<mapsto> r))"
    and get_law: "rep s m \<Longrightarrow> m i = Some r \<Longrightarrow> \<exists>s'. get i s = (Inr r, s') \<and> rep s' m \<and> (room s \<longrightarrow> room s')"
    and del_law: "rep s m \<Longrightarrow> m i = Some r \<Longrightarrow>
      \<exists>st s'. del i s = (st, s') \<and> Status_ok st \<and> rep s' (m(i := None))"
    and upd_law: "rep s m \<Longrightarrow> room s \<Longrightarrow> fits r \<Longrightarrow> m i = Some r0 \<Longrightarrow>
      \<exists>j s'. upd i r s = Some (Inr j, s') \<and> (j = i \<or> sz r0 < sz r \<and> m j = None) \<and>
        rep s' (m(i := None, j \<mapsto> r)) \<and> (sz r \<le> sz r0 \<longrightarrow> room s')"
    and scan_law: "rep s m \<Longrightarrow>
      \<exists>xs s'. scan s = Some (xs, s') \<and> distinct (map fst xs) \<and> map_of xs = m \<and> rep s' m"
begin

text \<open>What was inserted can be read back, and everything else is as before.\<close>

lemma ins_get:
  assumes "rep s m" and "room s" and "fits r"
  shows "\<exists>i s' s''. ins r s = Some (Inr i, s') \<and> m i = None \<and> rep s' (m(i \<mapsto> r)) \<and>
     get i s' = (Inr r, s'') \<and> rep s'' (m(i \<mapsto> r))"
proof -
  obtain i s' where s': "ins r s = Some (Inr i, s')" "m i = None" "rep s' (m(i \<mapsto> r))"
    using ins_law [OF assms] by blast
  moreover obtain s'' where "get i s' = (Inr r, s'')" "rep s'' (m(i \<mapsto> r))"
    using get_law [OF s'(3), of i r] by auto
  ultimately show ?thesis by blast
qed

text \<open>A record that does not grow is updated in place.\<close>

lemma upd_in_place:
  assumes "rep s m" and "room s" and "fits r" and "m i = Some r0" and "sz r \<le> sz r0"
  shows "\<exists>s'. upd i r s = Some (Inr i, s') \<and> rep s' (m(i \<mapsto> r)) \<and> room s'"
  using upd_law [OF assms(1-4)] assms(5) by auto

end

text \<open>A codec between rows and records, with which a record store becomes a row store.\<close>

locale row_store = record_store rep room fits ins get del upd scan sz
  for rep :: "'s \<Rightarrow> ('i \<Rightarrow> 'r option) \<Rightarrow> bool" and room fits ins get del upd scan sz +
  fixes enc :: "'v \<Rightarrow> 'r Result" and dec :: "'r \<Rightarrow> 'v Result"
  assumes dec_enc: "enc v = Inr r \<Longrightarrow> dec r = Inr v"
begin

definition decodes :: "('i \<Rightarrow> 'r option) \<Rightarrow> ('i \<Rightarrow> 'v option) \<Rightarrow> bool" where
  "decodes m t \<longleftrightarrow> (\<forall>i. rel_option (\<lambda>r v. dec r = Inr v) (m i) (t i))"

definition rows :: "'s \<Rightarrow> ('i \<Rightarrow> 'v option) \<Rightarrow> bool" where
  "rows s t \<longleftrightarrow> (\<exists>m. rep s m \<and> decodes m t)"

lemma decodes_upd:
  "decodes m t \<Longrightarrow> rel_option (\<lambda>r v. dec r = Inr v) x y \<Longrightarrow> decodes (m(i := x)) (t(i := y))"
  by (simp add: decodes_def)

lemma decodes_None: "decodes m t \<Longrightarrow> m i = None \<longleftrightarrow> t i = None"
  by (cases "m i"; cases "t i") (auto simp: decodes_def dest: spec [of _ i])

lemma decodes_Some: "decodes m t \<Longrightarrow> t i = Some v \<Longrightarrow> \<exists>r. m i = Some r \<and> dec r = Inr v"
  by (auto simp: decodes_def option_rel_Some2 dest: spec [of _ i])

lemma rows_get:
  assumes "rows s t" and "t i = Some v"
  shows "\<exists>r s'. get i s = (Inr r, s') \<and> dec r = Inr v \<and> rows s' t"
proof -
  obtain m where m: "rep s m" "decodes m t" using assms(1) by (auto simp: rows_def)
  obtain r where "m i = Some r" "dec r = Inr v" using decodes_Some [OF m(2) assms(2)] by blast
  with get_law [OF m(1), of i r] m(2) show ?thesis unfolding rows_def by blast
qed

lemma rows_ins:
  assumes "rows s t" and "room s" and "enc v = Inr r" and "fits r"
  shows "\<exists>i s'. ins r s = Some (Inr i, s') \<and> t i = None \<and> rows s' (t(i \<mapsto> v))"
proof -
  obtain m where m: "rep s m" "decodes m t" using assms(1) by (auto simp: rows_def)
  obtain i s' where i: "ins r s = Some (Inr i, s')" "m i = None" "rep s' (m(i \<mapsto> r))"
    using ins_law [OF m(1) assms(2,4)] by blast
  have "rows s' (t(i \<mapsto> v))"
    unfolding rows_def using i(3) decodes_upd [OF m(2)] dec_enc [OF assms(3)] by fastforce
  with i decodes_None [OF m(2)] show ?thesis by blast
qed

lemma rows_upd:
  assumes "rows s t" and "room s" and "enc v = Inr r" and "fits r" and "t i = Some v0"
  shows "\<exists>j s'. upd i r s = Some (Inr j, s') \<and> (j = i \<or> t j = None) \<and> rows s' (t(i := None, j \<mapsto> v))"
proof -
  obtain m where m: "rep s m" "decodes m t" using assms(1) by (auto simp: rows_def)
  obtain r0 where "m i = Some r0" using decodes_Some [OF m(2) assms(5)] by blast
  then obtain j s' where j: "upd i r s = Some (Inr j, s')" "j = i \<or> m j = None" "rep s' (m(i := None, j \<mapsto> r))"
    using upd_law [OF m(1) assms(2,4)] by blast
  have "decodes (m(i := None, j \<mapsto> r)) (t(i := None, j \<mapsto> v))"
    using m(2) dec_enc [OF assms(3)] by (intro decodes_upd) simp_all
  with j decodes_None [OF m(2)] show ?thesis unfolding rows_def by blast
qed

lemma rows_del:
  assumes "rows s t" and "t i = Some v"
  shows "\<exists>st s'. del i s = (st, s') \<and> Status_ok st \<and> rows s' (t(i := None))"
proof -
  obtain m where m: "rep s m" "decodes m t" using assms(1) by (auto simp: rows_def)
  obtain r where "m i = Some r" using decodes_Some [OF m(2) assms(2)] by blast
  then obtain st s' where "del i s = (st, s')" "Status_ok st" "rep s' (m(i := None))"
    using del_law [OF m(1)] by blast
  moreover have "decodes (m(i := None)) (t(i := None))" using m(2) by (intro decodes_upd) simp_all
  ultimately show ?thesis unfolding rows_def by blast
qed

definition decoded :: "'r \<Rightarrow> 'v option" where
  "decoded r = (case dec r of Inr v \<Rightarrow> Some v | Inl e \<Rightarrow> None)"

lemma decodes_bind: "decodes m t \<Longrightarrow> Option.bind (m i) decoded = t i"
  using decodes_None [of m t i] decodes_Some [of m t i]
  by (cases "t i") (auto simp: decoded_def)

lemma rows_scan:
  assumes "rows s t"
  shows "\<exists>xs s'. scan s = Some (xs, s') \<and> distinct (map fst xs) \<and>
    map_of (map_entries (\<lambda>_. decoded) xs) = t \<and> rows s' t"
proof -
  obtain m where m: "rep s m" "decodes m t" using assms by (auto simp: rows_def)
  obtain xs s' where xs: "scan s = Some (xs, s')" "distinct (map fst xs)" "map_of xs = m" "rep s' m"
    using scan_law [OF m(1)] by blast
  have "map_of (map_entries (\<lambda>_. decoded) xs) = t"
    using xs(2,3) decodes_bind [OF m(2)] by (auto simp: map_of_map_entries)
  then show ?thesis using xs m(2) unfolding rows_def by blast
qed

end

section \<open>The heap file is a record store\<close>

type_synonym heap = "HeapFile \<times> BufferPool"

definition heap_rep :: "heap \<Rightarrow> (RecordId \<Rightarrow> byte list option) \<Rightarrow> bool" where
  "heap_rep s m \<longleftrightarrow> pool.ready (snd s) \<and>
     (\<exists>ps. heap_wf (fst s) (bp_view (snd s)) ps \<and> heap_map (bp_view (snd s)) ps = m)"

definition heap_room :: "heap \<Rightarrow> bool" where
  "heap_room s \<longleftrightarrow> 0 < bp_avail (snd s)"

definition heap_fits :: "byte list \<Rightarrow> bool" where
  "heap_fits r \<longleftrightarrow> 0 < length r \<and> length r \<le> 4080"

definition heap_ins :: "byte list \<Rightarrow> heap \<Rightarrow> (RecordId Result \<times> heap) option" where
  "heap_ins r s = HeapFile_InsertRecord r (word_of_nat (length r)) (fst s) (snd s)"

definition heap_get :: "RecordId \<Rightarrow> heap \<Rightarrow> byte list Result \<times> heap" where
  "heap_get rid s = (let (r, bp) = HeapFile_GetRecordBytes rid (snd s) in (r, fst s, bp))"

definition heap_del :: "RecordId \<Rightarrow> heap \<Rightarrow> Status \<times> heap" where
  "heap_del rid s = (let (st, bp) = HeapFile_DeleteRecord rid (snd s) in (st, fst s, bp))"

definition heap_upd :: "RecordId \<Rightarrow> byte list \<Rightarrow> heap \<Rightarrow> (RecordId Result \<times> heap) option" where
  "heap_upd rid r s = HeapFile_UpdateRecord rid r (word_of_nat (length r)) (fst s) (snd s)"

definition heap_scan :: "heap \<Rightarrow> ((RecordId \<times> byte list) list \<times> heap) option" where
  "heap_scan s = map_option (\<lambda>(xs, bp). (xs, fst s, bp))
     (HeapFile_Scan (\<lambda>rid r acc. acc @ [(rid, r)]) [] (fst s) (snd s))"

lemma heap_repE:
  assumes "heap_rep (hf, bp) m"
  obtains ps where "pool.ready bp" and "heap_wf hf (bp_view bp) ps" and "heap_map (bp_view bp) ps = m"
  using assms by (auto simp: heap_rep_def)

lemma heap_repI:
  "pool_to bp0 (bp_view bp) n bp \<Longrightarrow> heap_wf hf (bp_view bp) ps \<Longrightarrow> heap_map (bp_view bp) ps = m \<Longrightarrow>
     heap_rep (hf, bp) m"
  by (auto simp: heap_rep_def pool_to_def)

lemma fits_storable: "heap_fits r \<Longrightarrow> storable r"
  by (simp add: heap_fits_def storable_def)

lemma heap_rid_page: "heap_map v ps rid = Some r \<Longrightarrow> rid_page_id rid \<in> set ps"
  by (simp add: heap_map_def split: if_splits)

lemma fold_snoc: "fold (\<lambda>(rid, r) acc. acc @ [(rid, r)]) xs acc = acc @ xs"
  by (induction xs arbitrary: acc) auto

lemma scan_fold:
  assumes "heap_rep (hf, bp) m"
  shows "\<exists>xs bp'. HeapFile_Scan f acc hf bp = Some (fold (\<lambda>(rid, r). f rid r) xs acc, bp') \<and>
    distinct (map fst xs) \<and> map_of xs = m \<and> heap_rep (hf, bp') m"
proof -
  obtain ps where h: "pool.ready bp" "heap_wf hf (bp_view bp) ps" "heap_map (bp_view bp) ps = m"
    using assms by (rule heap_repE)
  have ch: "hchain (bp_view bp) (hf_first_page_id hf) ps" using h(2) by (simp add: heap_wf_def)
  let ?xs = "heap_records (bp_view bp) ps"
  have dist: "distinct (map fst ?xs)" by (rule distinct_heap_records [OF hchain_distinct [OF ch]])
  have "map_of ?xs i = Some r \<longleftrightarrow> m i = Some r" for i r
    using map_of_eq_Some_iff [OF dist, of i r] heap_records_iff [of i r "bp_view bp" ps] h(3) by simp
  then have "map_of ?xs i = m i" for i by (metis option.exhaust)
  then have map: "map_of ?xs = m" by (rule ext)
  obtain bp' where sc: "HeapFile_Scan f acc hf bp = Some (fold (\<lambda>(rid, r). f rid r) ?xs acc, bp')"
    and t: "pool_to bp (bp_view bp) (bp_avail bp) bp'"
    using Scan_loop [OF h(1) ch, of f acc] by (auto simp: HeapFile_Scan_def)
  have "heap_rep (hf, bp') m" using h(2,3) pool_toD [OF t] by (auto simp: heap_rep_def)
  with sc dist map show ?thesis by blast
qed

lemma rep_fits:
  assumes "heap_rep s m" and "m i = Some r"
  shows "heap_fits r"
proof -
  obtain ps where h: "heap_wf (fst s) (bp_view (snd s)) ps" "heap_map (bp_view (snd s)) ps i = Some r"
    using assms by (auto simp: heap_rep_def)
  then obtain p where p: "rid_page_id i \<in> set ps" "bp_view (snd s) (rid_page_id i) = Some p"
    and sl: "slot_at (sp_slots p) (unat (rid_slot_id i)) = Some r"
    by (auto simp: heap_map_def split: if_splits option.splits)
  have ch: "hchain (bp_view (snd s)) (hf_first_page_id (fst s)) ps" using h(1) by (simp add: heap_wf_def)
  have wf: "sp_wf p" using hchain_page [OF ch p(1)] p(2) by auto
  show ?thesis using slot_length_le [OF sl wf] slot_nonempty [OF sl wf] by (simp add: heap_fits_def)
qed

interpretation heap: record_store heap_rep heap_room heap_fits heap_ins heap_get heap_del heap_upd heap_scan length
proof (unfold_locales, goal_cases)
  case (1 s m r)
  obtain hf bp where s: "s = (hf, bp)" by fastforce
  obtain ps where h: "pool.ready bp" "heap_wf hf (bp_view bp) ps" "heap_map (bp_view bp) ps = m"
    using 1(1) unfolding s by (rule heap_repE)
  have "0 < bp_avail bp" using 1(2) by (simp add: heap_room_def s)
  with h(1,2) fits_storable [OF 1(3)] obtain res hf' bp' ps' where
    i: "HeapFile_InsertRecord r (word_of_nat (length r)) hf bp = Some (res, hf', bp')"
      "pool_to bp (bp_view bp') (bp_avail bp') bp'"
      "insert_post hf (bp_view bp) ps r res hf' (bp_view bp') ps'"
    by (rule InsertRecord_spec)
  then show ?case
    using 1(3) h(3) by (auto simp: heap_ins_def s insert_post_def heap_fits_def
        intro: heap_repI split: sum.splits)
next
  case (2 s m i r)
  obtain hf bp where s: "s = (hf, bp)" by fastforce
  obtain ps where h: "pool.ready bp" "heap_wf hf (bp_view bp) ps" "heap_map (bp_view bp) ps = m"
    using 2(1) unfolding s by (rule heap_repE)
  have "hchain (bp_view bp) (hf_first_page_id hf) ps" using h(2) by (simp add: heap_wf_def)
  moreover have "rid_page_id i \<in> set ps \<or>
      bp_view bp (rid_page_id i) = None \<and> rid_page_id i \<noteq> kHeaderPageId"
    using h(3) 2(2) heap_rid_page by blast
  ultimately obtain res bp' where "HeapFile_GetRecordBytes i bp = (res, bp')"
    "pool_to bp (bp_view bp) (bp_avail bp) bp'"
    "case heap_map (bp_view bp) ps i of Some bytes \<Rightarrow> res = Inr bytes
       | None \<Rightarrow> \<exists>e. res = Inl e \<and> status_code e = kNotFound"
    by (rule GetRecordBytes_spec [OF h(1)])
  with h 2(2) show ?case by (auto simp: heap_get_def heap_room_def s heap_rep_def pool_to_def)
next
  case (3 s m i r)
  obtain hf bp where s: "s = (hf, bp)" by fastforce
  obtain ps where h: "pool.ready bp" "heap_wf hf (bp_view bp) ps" "heap_map (bp_view bp) ps = m"
    using 3(1) unfolding s by (rule heap_repE)
  have "rid_page_id i \<in> set ps \<or> bp_view bp (rid_page_id i) = None \<and> rid_page_id i \<noteq> kHeaderPageId"
    using h(3) 3(2) heap_rid_page by blast
  with h(1,2) obtain st bp' where "HeapFile_DeleteRecord i bp = (st, bp')"
    "pool_to bp (bp_view bp') (bp_avail bp) bp'" "heap_wf hf (bp_view bp') ps"
    "heap_map (bp_view bp') ps = (heap_map (bp_view bp) ps)(i := None)"
    "status_code st = (if heap_map (bp_view bp) ps i = None then kNotFound else kOk)"
    by (rule DeleteRecord_spec)
  with h(3) 3(2) show ?case by (auto simp: heap_del_def s Status_ok_def intro: heap_repI)
next
  case (4 s m r i r0)
  obtain hf bp where s: "s = (hf, bp)" by fastforce
  obtain ps where h: "pool.ready bp" "heap_wf hf (bp_view bp) ps" "heap_map (bp_view bp) ps = m"
    using 4(1) unfolding s by (rule heap_repE)
  have "0 < bp_avail bp" "heap_map (bp_view bp) ps i = Some r0" using 4(2,4) h(3) by (simp_all add: heap_room_def s)
  with h(1,2) fits_storable [OF 4(3)] obtain res hf' bp' ps' where
    "HeapFile_UpdateRecord i r (word_of_nat (length r)) hf bp = Some (res, hf', bp')"
    "pool_to bp (bp_view bp') (bp_avail bp') bp'" "heap_wf hf' (bp_view bp') ps'"
    "case res of
        Inr rid' \<Rightarrow> length r \<le> 4080 \<and> (rid' = i \<or> length r0 < length r \<and> heap_map (bp_view bp) ps rid' = None) \<and>
          heap_map (bp_view bp') ps' = (heap_map (bp_view bp) ps)(i := None, rid' \<mapsto> r)
      | Inl e \<Rightarrow> 4080 < length r \<and> status_code e = kOutOfSpace \<and>
          heap_map (bp_view bp') ps' = (heap_map (bp_view bp) ps)(i := None)"
    "length r \<le> length r0 \<Longrightarrow> bp_avail bp' = bp_avail bp"
    by (rule UpdateRecord_spec) blast
  with h(3) 4(2,3) show ?case
    by (auto simp: heap_upd_def heap_room_def s heap_fits_def intro: heap_repI split: sum.splits)
next
  case (5 s m)
  obtain hf bp where s: "s = (hf, bp)" by fastforce
  from scan_fold [OF 5 [unfolded s], of "\<lambda>rid r acc. acc @ [(rid, r)]" "[]"] show ?case
    by (auto simp: heap_scan_def s fold_snoc)
qed

interpretation row: row_store heap_rep heap_room heap_fits heap_ins heap_get heap_del heap_upd heap_scan length
  "RecordCodec_Encode cs" "RecordCodec_Decode cs" for cs
  by unfold_locales (use Decode_Encode [where junk = "[]"] in simp)

section \<open>Properties of heap files\<close>

text \<open>A freshly created heap file on a fresh database file, and one with a record in it.\<close>

definition demo_heap :: heap where
  "demo_heap = the (HeapFile_new kInvalidPageId demo_pool)"

lemma demo_heap_ok: "heap_rep demo_heap (\<lambda>_. None)" "1 < bp_avail (snd demo_heap)" "heap_room demo_heap"
proof -
  from demo_pool_ok(2,4) obtain hf bp n where h: "HeapFile_new kInvalidPageId demo_pool = Some (hf, bp)"
    "pool_to demo_pool (bp_view bp) (bp_avail demo_pool - 1) bp" "heap_wf hf (bp_view bp) [n]"
    "heap_map (bp_view bp) [n] = (\<lambda>_. None)"
    by (rule HeapFile_new_spec)
  have d: "demo_heap = (hf, bp)" using h(1) by (simp add: demo_heap_def)
  show "heap_rep demo_heap (\<lambda>_. None)" unfolding d by (rule heap_repI [OF h(2,3,4)])
  show "1 < bp_avail (snd demo_heap)"
    using pool_toD(3) [OF h(2)] avail_new [of demo_pm 4] demo_pm_ok(3) by (simp add: d demo_pool_def)
  then show "heap_room demo_heap" by (simp add: heap_room_def)
qed

text \<open>
  C9. \<open>HeapFile::InsertRecord\<close> on a well-formed file always returns, following the chain of pages
  to its end at most once. A record of up to 4080 bytes is stored under a record id that was not
  in use; all other records, and all pages outside the file, are unchanged. A longer record is
  refused with \<open>OutOfSpace\<close> and no record changes.
\<close>

theorem HeapFile_InsertRecord_correct:
  assumes "pool.ready bp" and "heap_wf hf (bp_view bp) ps" and "storable data" and "0 < bp_avail bp"
  shows "\<exists>r hf' bp' ps'.
    HeapFile_InsertRecord data (word_of_nat (length data)) hf bp = Some (r, hf', bp') \<and> pool.ready bp' \<and>
    heap_wf hf' (bp_view bp') ps' \<and> kept ps (bp_view bp) (bp_view bp') \<and>
    (case r of
       Inr rid \<Rightarrow> length data \<le> 4080 \<and> heap_map (bp_view bp) ps rid = None \<and>
         heap_map (bp_view bp') ps' = (heap_map (bp_view bp) ps)(rid \<mapsto> data)
     | Inl e \<Rightarrow> 4080 < length data \<and> status_code e = kOutOfSpace \<and>
         heap_map (bp_view bp') ps' = heap_map (bp_view bp) ps)"
proof -
  from assms obtain r hf' bp' ps' where
    "HeapFile_InsertRecord data (word_of_nat (length data)) hf bp = Some (r, hf', bp')"
    "pool_to bp (bp_view bp') (bp_avail bp') bp'"
    "insert_post hf (bp_view bp) ps data r hf' (bp_view bp') ps'"
    by (rule InsertRecord_spec)
  then show ?thesis unfolding insert_post_def pool_to_def by blast
qed

theorem HeapFile_InsertRecord_correct_witness:
  "\<exists>r hf' bp'. HeapFile_InsertRecord (replicate 5000 0) 5000 (fst demo_heap) (snd demo_heap) = Some (r, hf', bp') \<and>
     (\<exists>e. r = Inl e \<and> status_code e = kOutOfSpace)"
proof -
  obtain ps where "pool.ready (snd demo_heap)" "heap_wf (fst demo_heap) (bp_view (snd demo_heap)) ps"
    using demo_heap_ok(1) by (auto simp: heap_rep_def)
  moreover have "storable (replicate 5000 0)" by (simp add: storable_def)
  moreover have "0 < bp_avail (snd demo_heap)" using demo_heap_ok(2) by simp
  ultimately obtain r hf' bp' where
    "HeapFile_InsertRecord (replicate 5000 0) 5000 (fst demo_heap) (snd demo_heap) = Some (r, hf', bp')"
    "case r of Inr rid \<Rightarrow> False | Inl e \<Rightarrow> status_code e = kOutOfSpace"
    using HeapFile_InsertRecord_correct [of "snd demo_heap" "fst demo_heap" ps "replicate 5000 0"]
    by (fastforce split: sum.splits)
  then show ?thesis by (cases r) auto
qed

text \<open>
  C15. \<open>HeapFile::Scan\<close> terminates on a well-formed file and calls the visitor exactly once for every
  live record, with its record id and its bytes, and for nothing else.
\<close>

theorem HeapFile_Scan_complete:
  assumes "pool.ready bp" and "heap_wf hf (bp_view bp) ps"
  shows "\<exists>xs bp'. HeapFile_Scan (\<lambda>rid r acc. acc @ [(rid, r)]) [] hf bp = Some (xs, bp') \<and>
    distinct (map fst xs) \<and> map_of xs = heap_map (bp_view bp) ps \<and> bp_view bp' = bp_view bp"
proof -
  have ch: "hchain (bp_view bp) (hf_first_page_id hf) ps" using assms(2) by (simp add: heap_wf_def)
  have "heap_rep (hf, bp) (heap_map (bp_view bp) ps)" using assms by (auto simp: heap_rep_def)
  from heap.scan_law [OF this] Scan_loop [OF assms(1) ch, of "\<lambda>rid r acc. acc @ [(rid, r)]" "[]"]
  show ?thesis by (auto simp: heap_scan_def HeapFile_Scan_def pool_to_def)
qed

theorem HeapFile_Scan_complete_witness:
  "\<exists>bp'. HeapFile_Scan (\<lambda>rid r acc. acc @ [(rid, r)]) [] (fst demo_heap) (snd demo_heap) = Some ([], bp')"
proof -
  obtain ps where p: "pool.ready (snd demo_heap)" "heap_wf (fst demo_heap) (bp_view (snd demo_heap)) ps"
    "heap_map (bp_view (snd demo_heap)) ps = (\<lambda>_. None)"
    using demo_heap_ok(1) by (auto simp: heap_rep_def)
  from HeapFile_Scan_complete [OF p(1,2)] p(3) show ?thesis by auto
qed

text \<open>
  C17. Updating a record to contents that no page can hold loses it: \<open>UpdateRecord\<close> deletes the old
  record before it tries to insert the new one, and the failed insertion does not bring it back.
\<close>

theorem HeapFile_UpdateRecord_loses:
  assumes "pool.ready bp" and "heap_wf hf (bp_view bp) ps" and "0 < bp_avail bp"
    and "heap_map (bp_view bp) ps rid = Some old" and "4080 < length data" and "length data < 65536"
  shows "\<exists>e hf' bp' ps'.
    HeapFile_UpdateRecord rid data (word_of_nat (length data)) hf bp = Some (Inl e, hf', bp') \<and>
    status_code e = kOutOfSpace \<and> heap_wf hf' (bp_view bp') ps' \<and>
    heap_map (bp_view bp') ps' = (heap_map (bp_view bp) ps)(rid := None)"
proof -
  have data: "storable data" using assms(5,6) by (auto simp: storable_def)
  from assms(1,2) data assms(3,4) obtain r hf' bp' ps' where
    "HeapFile_UpdateRecord rid data (word_of_nat (length data)) hf bp = Some (r, hf', bp')"
    "heap_wf hf' (bp_view bp') ps'"
    "case r of
        Inr rid' \<Rightarrow> length data \<le> 4080 \<and> (rid' = rid \<or> length old < length data \<and> heap_map (bp_view bp) ps rid' = None) \<and>
          heap_map (bp_view bp') ps' = (heap_map (bp_view bp) ps)(rid := None, rid' \<mapsto> data)
      | Inl e \<Rightarrow> 4080 < length data \<and> status_code e = kOutOfSpace \<and>
          heap_map (bp_view bp') ps' = (heap_map (bp_view bp) ps)(rid := None)"
    by (rule UpdateRecord_spec)
  with assms(5) show ?thesis by (cases r) auto
qed

lemma demo_insert:
  assumes "heap_fits data"
  obtains rid hf bp where "heap_ins data demo_heap = Some (Inr rid, hf, bp)"
    and "heap_rep (hf, bp) [rid \<mapsto> data]" and "0 < bp_avail bp"
proof -
  obtain ps where p: "pool.ready (snd demo_heap)" "heap_wf (fst demo_heap) (bp_view (snd demo_heap)) ps"
    "heap_map (bp_view (snd demo_heap)) ps = (\<lambda>_. None)"
    using demo_heap_ok(1) by (auto simp: heap_rep_def)
  have av: "0 < bp_avail (snd demo_heap)" using demo_heap_ok(2) by simp
  from p(1,2) fits_storable [OF assms] av obtain r hf bp ps' where
    i: "HeapFile_InsertRecord data (word_of_nat (length data)) (fst demo_heap) (snd demo_heap) = Some (r, hf, bp)"
      "pool_to (snd demo_heap) (bp_view bp) (bp_avail bp) bp" "bp_avail (snd demo_heap) - 1 \<le> bp_avail bp"
      "insert_post (fst demo_heap) (bp_view (snd demo_heap)) ps data r hf (bp_view bp) ps'"
    by (rule InsertRecord_spec)
  from i(4) assms obtain rid where "r = Inr rid" "heap_wf hf (bp_view bp) ps'"
    "heap_map (bp_view bp) ps' = [rid \<mapsto> data]"
    by (auto simp: insert_post_def heap_fits_def p(3) split: sum.splits)
  with i that [of rid hf bp] demo_heap_ok(2) heap_repI show thesis by (simp add: heap_ins_def)
qed

theorem HeapFile_UpdateRecord_loses_witness:
  "\<exists>rid hf bp e hf' bp'. heap_ins [1, 2, 3] demo_heap = Some (Inr rid, hf, bp) \<and>
     HeapFile_UpdateRecord rid (replicate 5000 0) 5000 hf bp = Some (Inl e, hf', bp') \<and>
     status_code e = kOutOfSpace"
proof -
  obtain rid hf bp where d: "heap_ins [1, 2, 3] demo_heap = Some (Inr rid, hf, bp)"
    "heap_rep (hf, bp) [rid \<mapsto> [1, 2, 3]]" "0 < bp_avail bp"
    by (rule demo_insert [of "[1, 2, 3]"]) (simp add: heap_fits_def)
  from d(2) obtain ps where p: "pool.ready bp" "heap_wf hf (bp_view bp) ps"
    "heap_map (bp_view bp) ps = [rid \<mapsto> [1, 2, 3]]" by (rule heap_repE)
  from HeapFile_UpdateRecord_loses [OF p(1,2) d(3), of rid "[1, 2, 3]" "replicate 5000 0"] p(3) d(1)
  show ?thesis by fastforce
qed

section \<open>Properties of the record manager\<close>

text \<open>\<open>rm_rows rm bp t\<close>: the table behind the record manager holds the rows \<open>t\<close>.\<close>

definition rm_rows :: "RecordManager \<Rightarrow> BufferPool \<Rightarrow> (RecordId \<Rightarrow> Value list option) \<Rightarrow> bool" where
  "rm_rows rm bp t \<longleftrightarrow> row.rows (rm_schema rm) (rm_heap_file rm, bp) t"

lemma encoded_fits:
  "RecordCodec_Encode cs vs = Inr bytes \<Longrightarrow> cs \<noteq> [] \<Longrightarrow> length bytes \<le> 4080 \<Longrightarrow> heap_fits bytes"
  using Encode_nonempty by (simp add: heap_fits_def)

text \<open>
  C6. Rows survive the trip through the storage layers: a row that encodes to at most 4080 bytes is
  stored under a new record id, all other rows are unchanged, and reading the row back, from the
  pages through the buffer pool, returns the values that were inserted.
\<close>

theorem InsertRow_GetRow:
  assumes "rm_rows rm bp t" and "0 < bp_avail bp" and "rm_schema rm \<noteq> []"
    and "RecordCodec_Encode (rm_schema rm) values = Inr bytes" and "length bytes \<le> 4080"
  shows "\<exists>rid rm' bp' bp''. RecordManager_InsertRow values rm bp = Some (Inr rid, rm', bp') \<and> t rid = None \<and>
    rm_rows rm' bp' (t(rid \<mapsto> values)) \<and> RecordManager_GetRow rid rm' bp' = (Inr values, bp'') \<and>
    rm_rows rm' bp'' (t(rid \<mapsto> values))"
proof -
  have fits: "heap_fits bytes" using encoded_fits assms(3-5) by blast
  have room: "heap_room (rm_heap_file rm, bp)" using assms(2) by (simp add: heap_room_def)
  obtain rid hf bp' where i: "heap_ins bytes (rm_heap_file rm, bp) = Some (Inr rid, hf, bp')" "t rid = None"
    "row.rows (rm_schema rm) (hf, bp') (t(rid \<mapsto> values))"
    using row.rows_ins [OF assms(1) [unfolded rm_rows_def] room assms(4) fits] by auto
  obtain r s'' where g: "heap_get rid (hf, bp') = (Inr r, s'')" "RecordCodec_Decode (rm_schema rm) r = Inr values"
    "row.rows (rm_schema rm) s'' (t(rid \<mapsto> values))"
    using row.rows_get [OF i(3), of rid "values"] by auto
  obtain bp'' where "HeapFile_GetRecordBytes rid bp' = (Inr r, bp'')" "s'' = (hf, bp'')"
    using g(1) by (auto simp: heap_get_def split: prod.splits)
  with i g assms(4,5) show ?thesis
    by (simp add: RecordManager_InsertRow_def RecordManager_GetRow_def heap_ins_def rm_rows_def)
qed

definition demo_rm :: RecordManager where
  "demo_rm = \<lparr>rm_heap_file = fst demo_heap, rm_schema = demo_schema\<rparr>"

lemma demo_rm_ok: "rm_rows demo_rm (snd demo_heap) (\<lambda>_. None)"
  using demo_heap_ok(1) by (auto simp: rm_rows_def demo_rm_def row.rows_def row.decodes_def)

theorem InsertRow_GetRow_witness:
  "\<exists>rid rm' bp' bp''. RecordManager_InsertRow demo_row demo_rm (snd demo_heap) = Some (Inr rid, rm', bp') \<and>
     RecordManager_GetRow rid rm' bp' = (Inr demo_row, bp'')"
proof -
  obtain bytes where b: "RecordCodec_Encode (rm_schema demo_rm) demo_row = Inr bytes" "length bytes = 9"
    using demo_row_encodes by (auto simp: demo_rm_def)
  have "0 < bp_avail (snd demo_heap)" "rm_schema demo_rm \<noteq> []" "length bytes \<le> 4080"
    using demo_heap_ok(2) b(2) by (simp_all add: demo_rm_def demo_schema_def)
  from InsertRow_GetRow [OF demo_rm_ok this(1,2) b(1) this(3)] show ?thesis by blast
qed

text \<open>
  C16. Updating a stored row to values that encode to at most 4080 bytes replaces it by the new
  row, under the same or a new record id, and deleting a stored row removes it; other rows are
  unchanged.
\<close>

theorem UpdateRow_DeleteRow:
  assumes "rm_rows rm bp t" and "0 < bp_avail bp" and "rm_schema rm \<noteq> []"
    and "RecordCodec_Encode (rm_schema rm) values = Inr bytes" and "length bytes \<le> 4080" and "t rid = Some row"
  shows "(\<exists>rid' rm' bp'. RecordManager_UpdateRow rid values rm bp = Some (Inr rid', rm', bp') \<and>
      (rid' = rid \<or> t rid' = None) \<and> rm_rows rm' bp' (t(rid := None, rid' \<mapsto> values))) \<and>
    (\<exists>st bp'. RecordManager_DeleteRow rid bp = (st, bp') \<and> Status_ok st \<and> rm_rows rm bp' (t(rid := None)))"
proof
  have fits: "heap_fits bytes" using encoded_fits assms(3-5) by blast
  have room: "heap_room (rm_heap_file rm, bp)" using assms(2) by (simp add: heap_room_def)
  note rows = assms(1) [unfolded rm_rows_def]
  show "\<exists>rid' rm' bp'. RecordManager_UpdateRow rid values rm bp = Some (Inr rid', rm', bp') \<and>
      (rid' = rid \<or> t rid' = None) \<and> rm_rows rm' bp' (t(rid := None, rid' \<mapsto> values))"
    using row.rows_upd [OF rows room assms(4) fits assms(6)] assms(4,5)
    by (auto simp: RecordManager_UpdateRow_def heap_upd_def rm_rows_def)
  show "\<exists>st bp'. RecordManager_DeleteRow rid bp = (st, bp') \<and> Status_ok st \<and> rm_rows rm bp' (t(rid := None))"
    using row.rows_del [OF rows assms(6)]
    by (auto simp: RecordManager_DeleteRow_def heap_del_def rm_rows_def split: prod.splits)
qed

theorem UpdateRow_DeleteRow_witness:
  "\<exists>rid rm bp rid' rm' bp' st bp''. rm_rows rm bp [rid \<mapsto> demo_row] \<and>
     RecordManager_UpdateRow rid demo_row rm bp = Some (Inr rid', rm', bp') \<and>
     RecordManager_DeleteRow rid bp = (st, bp'') \<and> Status_ok st"
proof -
  obtain bytes where b: "RecordCodec_Encode demo_schema demo_row = Inr bytes" "length bytes = 9"
    using demo_row_encodes by blast
  then have dec: "RecordCodec_Decode demo_schema bytes = Inr demo_row"
    using Decode_Encode [OF b(1), of "[]"] by simp
  obtain rid hf bp where h: "heap_rep (hf, bp) [rid \<mapsto> bytes]" "0 < bp_avail bp"
    by (rule demo_insert [of bytes]) (use b(2) in \<open>auto simp: heap_fits_def\<close>)
  define rm where "rm = \<lparr>rm_heap_file = hf, rm_schema = demo_schema\<rparr>"
  have r: "rm_rows rm bp [rid \<mapsto> demo_row]"
    unfolding rm_rows_def row.rows_def row.decodes_def rm_def
    using h(1) dec by (intro exI [of _ "[rid \<mapsto> bytes]"]) simp
  have "rm_schema rm \<noteq> []" "RecordCodec_Encode (rm_schema rm) demo_row = Inr bytes" "length bytes \<le> 4080"
    using b by (simp_all add: rm_def demo_schema_def)
  from UpdateRow_DeleteRow [OF r h(2) this, of rid demo_row] r show ?thesis by fastforce
qed

end
