(* ===== verification/Transactions.thy ===== *)
theory Transactions
  imports Status
begin

text \<open>
  Transactions and the transaction manager of \<open>src/transaction/transaction.hpp\<close> and
  \<open>src/transaction/transaction_manager.cpp\<close>. A \<open>Transaction*\<close> is \<open>None\<close> for
  the null pointer and otherwise the key under which the manager owns the object; the manager
  never removes a transaction, so a pointer it handed out stays valid. Each call runs under the
  manager's mutex and is one atomic step of the relation \<open>tm_step\<close>.
\<close>

type_synonym txn_id_t = "64 word"

definition kInvalidTxnId :: txn_id_t where
  "kInvalidTxnId = 0"

datatype TxnState = kActive | kCommitted | kAborted

datatype IsolationLevel = kReadCommitted | kSnapshotIsolation

record Transaction =
  txn_id :: txn_id_t
  txn_state :: TxnState
  isolation_level :: IsolationLevel
  active_at_start :: "txn_id_t set"

record TransactionManager =
  next_txn_id :: txn_id_t
  transactions :: "txn_id_t \<rightharpoonup> Transaction"
  active_txn_ids :: "txn_id_t set"

definition TransactionManager_new :: TransactionManager where
  "TransactionManager_new = \<lparr>next_txn_id = 1, transactions = Map.empty, active_txn_ids = {}\<rparr>"

definition TransactionManager_Begin ::
  "IsolationLevel \<Rightarrow> TransactionManager \<Rightarrow> txn_id_t \<times> TransactionManager" where
  "TransactionManager_Begin level tm =
     (let txn = \<lparr>txn_id = next_txn_id tm, txn_state = kActive, isolation_level = level,
                 active_at_start = active_txn_ids tm\<rparr>
      in (txn_id txn,
          \<lparr>next_txn_id = next_txn_id tm + 1,
           transactions = (transactions tm)(txn_id txn \<mapsto> txn),
           active_txn_ids = insert (txn_id txn) (active_txn_ids tm)\<rparr>))"

definition TransactionManager_GetTransaction ::
  "txn_id_t \<Rightarrow> TransactionManager \<Rightarrow> Transaction option" where
  "TransactionManager_GetTransaction i tm = transactions tm i"

definition TransactionManager_Commit ::
  "txn_id_t option \<Rightarrow> TransactionManager \<Rightarrow> Status \<times> TransactionManager" where
  "TransactionManager_Commit ptr tm =
     (case Option.bind ptr (transactions tm) of
        None \<Rightarrow> (Status_InvalidArgument ''Commit: transaction is not active'', tm)
      | Some txn \<Rightarrow>
          if txn_state txn \<noteq> kActive
          then (Status_InvalidArgument ''Commit: transaction is not active'', tm)
          else (Status_OK,
                tm\<lparr>transactions := (transactions tm)(the ptr \<mapsto> txn\<lparr>txn_state := kCommitted\<rparr>),
                   active_txn_ids := active_txn_ids tm - {txn_id txn}\<rparr>))"

definition TransactionManager_Abort ::
  "txn_id_t option \<Rightarrow> TransactionManager \<Rightarrow> Status \<times> TransactionManager" where
  "TransactionManager_Abort ptr tm =
     (case Option.bind ptr (transactions tm) of
        None \<Rightarrow> (Status_InvalidArgument ''Abort: transaction is not active'', tm)
      | Some txn \<Rightarrow>
          if txn_state txn \<noteq> kActive
          then (Status_InvalidArgument ''Abort: transaction is not active'', tm)
          else (Status_OK,
                tm\<lparr>transactions := (transactions tm)(the ptr \<mapsto> txn\<lparr>txn_state := kAborted\<rparr>),
                   active_txn_ids := active_txn_ids tm - {txn_id txn}\<rparr>))"

definition TransactionManager_IsCommitted :: "txn_id_t \<Rightarrow> TransactionManager \<Rightarrow> bool" where
  "TransactionManager_IsCommitted i tm =
     (case TransactionManager_GetTransaction i tm of
        None \<Rightarrow> False | Some txn \<Rightarrow> txn_state txn = kCommitted)"

definition TransactionManager_IsActive :: "txn_id_t \<Rightarrow> TransactionManager \<Rightarrow> bool" where
  "TransactionManager_IsActive i tm =
     (case TransactionManager_GetTransaction i tm of
        None \<Rightarrow> False | Some txn \<Rightarrow> txn_state txn = kActive)"

section \<open>Steps of the manager\<close>

text \<open>
  The counter of transaction ids is a 64-bit word. A \<open>Begin\<close> step is taken only while the
  counter has not reached its maximum: the statements cover the first \<open>2 ^ 64 - 2\<close>
  transactions of a process.
\<close>

inductive tm_step :: "TransactionManager \<Rightarrow> TransactionManager \<Rightarrow> bool" where
  begin_step: "next_txn_id tm \<noteq> -1 \<Longrightarrow> tm_step tm (snd (TransactionManager_Begin level tm))"
| commit_step: "tm_step tm (snd (TransactionManager_Commit ptr tm))"
| abort_step: "tm_step tm (snd (TransactionManager_Abort ptr tm))"

abbreviation tm_steps :: "TransactionManager \<Rightarrow> TransactionManager \<Rightarrow> bool" where
  "tm_steps \<equiv> tm_step\<^sup>*\<^sup>*"

abbreviation tm_reachable :: "TransactionManager \<Rightarrow> bool" where
  "tm_reachable \<equiv> tm_steps TransactionManager_new"

lemmas tm_op_defs =
  TransactionManager_Begin_def TransactionManager_Commit_def TransactionManager_Abort_def Let_def

section \<open>Invariant\<close>

definition txn_wf :: "TransactionManager \<Rightarrow> txn_id_t \<Rightarrow> Transaction \<Rightarrow> bool" where
  "txn_wf tm i txn \<longleftrightarrow>
     txn_id txn = i \<and> i \<noteq> kInvalidTxnId \<and> i < next_txn_id tm \<and>
     (\<forall>j \<in> active_at_start txn. j < i)"

definition tm_wf :: "TransactionManager \<Rightarrow> bool" where
  "tm_wf tm \<longleftrightarrow>
     next_txn_id tm \<noteq> kInvalidTxnId \<and>
     (\<forall>i. i < next_txn_id tm \<and> i \<noteq> kInvalidTxnId \<longleftrightarrow> i \<in> dom (transactions tm)) \<and>
     (\<forall>i txn. transactions tm i = Some txn \<longrightarrow> txn_wf tm i txn) \<and>
     active_txn_ids tm = {i. TransactionManager_IsActive i tm}"

lemma tm_wf_new: "tm_wf TransactionManager_new"
  by (auto simp: tm_wf_def TransactionManager_new_def kInvalidTxnId_def TransactionManager_IsActive_def
      TransactionManager_GetTransaction_def word_less_nat_alt unat_eq_zero)

lemma succ_word_nonzero: "x \<noteq> -1 \<Longrightarrow> 1 + x \<noteq> (0 :: 'a::len word)"
  by (simp add: add_eq_0_iff)

lemma less_succ_word:
  assumes "x \<noteq> -1"
  shows "i < x + 1 \<longleftrightarrow> i < x \<or> i = (x :: 'a::len word)"
proof -
  have "unat (x + 1) = Suc (unat x)"
    using unatSuc [OF succ_word_nonzero [OF assms]] by (simp add: add.commute)
  then show ?thesis
    by (simp add: word_less_nat_alt word_unat_eq_iff less_Suc_eq)
qed

lemma IsActive_iff:
  "TransactionManager_IsActive i tm \<longleftrightarrow>
     (\<exists>txn. transactions tm i = Some txn \<and> txn_state txn = kActive)"
  by (auto simp: TransactionManager_IsActive_def TransactionManager_GetTransaction_def
      split: option.splits)

lemma IsCommitted_iff:
  "TransactionManager_IsCommitted i tm \<longleftrightarrow>
     (\<exists>txn. transactions tm i = Some txn \<and> txn_state txn = kCommitted)"
  by (auto simp: TransactionManager_IsCommitted_def TransactionManager_GetTransaction_def
      split: option.splits)

lemma tm_wf_Begin [preserves]:
  assumes "tm_wf tm" and "next_txn_id tm \<noteq> -1"
  shows "tm_wf (snd (TransactionManager_Begin level tm))"
proof -
  have lt: "i < next_txn_id tm + 1 \<longleftrightarrow> i < next_txn_id tm \<or> i = next_txn_id tm" for i
    by (rule less_succ_word [OF assms(2)])
  have active: "j < next_txn_id tm" if "j \<in> active_txn_ids tm" for j
    using that assms(1) by (auto simp: tm_wf_def IsActive_iff txn_wf_def)
  show ?thesis
    using assms(1) succ_word_nonzero [OF assms(2)] active
    by (auto simp: add.commute [of 1] tm_wf_def TransactionManager_Begin_def Let_def IsActive_iff txn_wf_def lt
        kInvalidTxnId_def split: if_splits)
qed

text \<open>
  \<open>Commit\<close> and \<open>Abort\<close> are the same step with another final state: they end an active
  transaction and leave every other state alone.
\<close>

definition tm_end :: "TxnState \<Rightarrow> txn_id_t \<Rightarrow> TransactionManager \<Rightarrow> TransactionManager" where
  "tm_end st i tm =
     tm\<lparr>transactions := (transactions tm)(i := map_option (txn_state_update (\<lambda>_. st)) (transactions tm i)),
        active_txn_ids := active_txn_ids tm - {i}\<rparr>"

lemma tm_wf_end:
  assumes "tm_wf tm" and "st \<noteq> kActive"
  shows "tm_wf (tm_end st i tm)"
proof -
  have "active_txn_ids (tm_end st i tm) = {j. TransactionManager_IsActive j (tm_end st i tm)}"
    using assms by (auto simp: tm_wf_def tm_end_def IsActive_iff)
  moreover have "txn_wf (tm_end st i tm) j txn" if "transactions (tm_end st i tm) j = Some txn" for j txn
    using that assms(1) by (auto simp: tm_wf_def tm_end_def txn_wf_def split: if_splits)
  moreover have "dom (transactions (tm_end st i tm)) = dom (transactions tm)"
    by (auto simp: tm_end_def split: if_splits)
  ultimately show ?thesis
    using assms(1) by (simp add: tm_wf_def) (simp add: tm_end_def)
qed

lemma Commit_cases:
  assumes "tm_wf tm"
  obtains (accepted) i where "ptr = Some i" "TransactionManager_IsActive i tm"
      "TransactionManager_Commit ptr tm = (Status_OK, tm_end kCommitted i tm)"
  | (refused) "\<And>i. ptr = Some i \<Longrightarrow> \<not> TransactionManager_IsActive i tm"
      "TransactionManager_Commit ptr tm =
         (Status_InvalidArgument ''Commit: transaction is not active'', tm)"
  using assms
  by (cases ptr; cases "transactions tm (the ptr)")
    (auto simp: TransactionManager_Commit_def tm_end_def IsActive_iff tm_wf_def txn_wf_def split: if_splits)

lemma Abort_cases:
  assumes "tm_wf tm"
  obtains (accepted) i where "ptr = Some i" "TransactionManager_IsActive i tm"
      "TransactionManager_Abort ptr tm = (Status_OK, tm_end kAborted i tm)"
  | (refused) "\<And>i. ptr = Some i \<Longrightarrow> \<not> TransactionManager_IsActive i tm"
      "TransactionManager_Abort ptr tm =
         (Status_InvalidArgument ''Abort: transaction is not active'', tm)"
  using assms
  by (cases ptr; cases "transactions tm (the ptr)")
    (auto simp: TransactionManager_Abort_def tm_end_def IsActive_iff tm_wf_def txn_wf_def split: if_splits)

lemma tm_step_cases:
  assumes "tm_step tm tm'" and "tm_wf tm"
  obtains (started) level where "next_txn_id tm \<noteq> -1" "tm' = snd (TransactionManager_Begin level tm)"
  | (ended) st i where "st \<noteq> kActive" "TransactionManager_IsActive i tm" "tm' = tm_end st i tm"
  | (same) "tm' = tm"
  using assms(1)
proof (cases rule: tm_step.cases)
  case (begin_step level)
  then show ?thesis using started by blast
next
  case (commit_step ptr)
  show ?thesis
    by (rule Commit_cases [OF assms(2), of ptr]) (use commit_step ended same in auto)
next
  case (abort_step ptr)
  show ?thesis
    by (rule Abort_cases [OF assms(2), of ptr]) (use abort_step ended same in auto)
qed

lemma tm_wf_step [preserves]: "tm_step tm tm' \<Longrightarrow> tm_wf tm \<Longrightarrow> tm_wf tm'"
  by (erule tm_step_cases) (simp_all add: tm_wf_Begin tm_wf_end)

lemma tm_wf_steps [preserves]: "tm_steps tm tm' \<Longrightarrow> tm_wf tm \<Longrightarrow> tm_wf tm'"
  by (induction rule: rtranclp_induct) (auto intro: tm_wf_step)

lemma tm_wf_reachable: "tm_reachable tm \<Longrightarrow> tm_wf tm"
  by (erule tm_wf_steps) (rule tm_wf_new)

section \<open>What later steps keep\<close>

text \<open>
  \<open>outlives txn txn'\<close>: the same transaction at a later time. Identity, isolation level and
  snapshot are fixed at the start, and a final state is final.
\<close>

definition outlives :: "Transaction \<Rightarrow> Transaction \<Rightarrow> bool" where
  "outlives txn txn' \<longleftrightarrow>
     txn_id txn' = txn_id txn \<and> isolation_level txn' = isolation_level txn \<and>
     active_at_start txn' = active_at_start txn \<and>
     (txn_state txn \<noteq> kActive \<longrightarrow> txn_state txn' = txn_state txn)"

lemma step_outlives:
  assumes "tm_step tm tm'" and "tm_wf tm" and "transactions tm i = Some txn"
  shows "\<exists>txn'. transactions tm' i = Some txn' \<and> outlives txn txn'"
  using assms(1,2)
proof (cases rule: tm_step_cases)
  case (started level)
  have "i \<noteq> next_txn_id tm"
    using assms(2,3) by (auto simp: tm_wf_def txn_wf_def)
  with started assms(3) show ?thesis
    by (auto simp: TransactionManager_Begin_def Let_def outlives_def)
next
  case (ended st j)
  with assms(3) show ?thesis by (auto simp: tm_end_def outlives_def IsActive_iff)
next
  case same
  with assms(3) show ?thesis by (simp add: outlives_def)
qed

lemma steps_outlive:
  assumes "tm_steps tm tm'" and "tm_wf tm" and "transactions tm i = Some txn"
  shows "\<exists>txn'. transactions tm' i = Some txn' \<and> outlives txn txn'"
  using assms
proof (induction rule: rtranclp_induct)
  case base
  then show ?case by (simp add: outlives_def)
next
  case (step tm1 tm2)
  then obtain txn1 where txn1: "transactions tm1 i = Some txn1" "outlives txn txn1" by blast
  from step_outlives [OF step.hyps(2) tm_wf_steps [OF step.hyps(1) step.prems(1)] txn1(1)]
  obtain txn2 where "transactions tm2 i = Some txn2" "outlives txn1 txn2" by blast
  with txn1(2) show ?case by (auto simp: outlives_def)
qed

section \<open>Properties\<close>

text \<open>
  A transaction that is finished, or that starts later, is told apart from the ones in flight by
  the snapshot taken in \<open>Begin\<close>.
\<close>

lemma Begin_later:
  assumes "tm_wf tm" and "next_txn_id tm \<noteq> -1" and "TransactionManager_Begin level tm = (i, tm1)"
    and "tm_steps tm1 tm'"
  obtains txn where "transactions tm' i = Some txn" "txn_id txn = i" "isolation_level txn = level"
    "active_at_start txn = active_txn_ids tm" "i = next_txn_id tm" "tm_steps tm tm'"
proof -
  have tm1: "tm1 = snd (TransactionManager_Begin level tm)" using assms(3) by simp
  have wf1: "tm_wf tm1" unfolding tm1 by (rule tm_wf_Begin [OF assms(1,2)])
  have i: "i = next_txn_id tm"
    using arg_cong [OF assms(3), of fst] by (simp add: TransactionManager_Begin_def Let_def)
  then obtain txn where txn: "transactions tm1 i = Some txn" "txn_id txn = i"
    "isolation_level txn = level" "active_at_start txn = active_txn_ids tm"
    unfolding tm1 by (simp add: TransactionManager_Begin_def Let_def)
  from steps_outlive [OF assms(4) wf1 txn(1)] obtain txn' where
    "transactions tm' i = Some txn'" "outlives txn txn'" by blast
  moreover have "tm_steps tm tm'"
    using begin_step [OF assms(2), of level] assms(4) by (simp add: tm1 converse_rtranclp_into_rtranclp)
  ultimately show thesis using that [of txn'] txn i by (simp add: outlives_def)
qed

text \<open>
  C30. Transaction ids are unique and a transaction's snapshot is exact: \<open>Begin\<close> hands out an id
  that no transaction had before, the object keeps that id, its isolation level and, as its
  snapshot, the set of ids that were active at that moment, whatever happens later; and the
  manager's set of active ids is at all times the set of transactions in the active state.
\<close>

theorem Begin_snapshot:
  assumes "tm_reachable tm" and "next_txn_id tm \<noteq> -1"
    and "TransactionManager_Begin level tm = (i, tm1)" and "tm_steps tm1 tm'"
  shows "transactions tm i = None \<and> i \<noteq> kInvalidTxnId \<and>
    (\<exists>txn. TransactionManager_GetTransaction i tm' = Some txn \<and> txn_id txn = i \<and>
       isolation_level txn = level \<and> active_at_start txn = {j. TransactionManager_IsActive j tm}) \<and>
    active_txn_ids tm' = {j. TransactionManager_IsActive j tm'}"
proof -
  have wf: "tm_wf tm" by (rule tm_wf_reachable [OF assms(1)])
  obtain txn where txn: "transactions tm' i = Some txn" "txn_id txn = i" "isolation_level txn = level"
    "active_at_start txn = active_txn_ids tm" "i = next_txn_id tm" "tm_steps tm tm'"
    by (rule Begin_later [OF wf assms(2-4)])
  have "tm_wf tm'" by (rule tm_wf_steps [OF txn(6) wf])
  moreover have "transactions tm i = None"
    using wf txn(5) by (auto simp: tm_wf_def txn_wf_def)
  ultimately show ?thesis
    using wf txn by (auto simp: tm_wf_def TransactionManager_GetTransaction_def)
qed

theorem Begin_snapshot_witness:
  "\<exists>tm1 tm2 tm3 txn. TransactionManager_Begin kReadCommitted TransactionManager_new = (1, tm1) \<and>
     TransactionManager_Begin kSnapshotIsolation tm1 = (2, tm2) \<and>
     TransactionManager_Commit (Some 1) tm2 = (Status_OK, tm3) \<and>
     TransactionManager_GetTransaction 2 tm3 = Some txn \<and> active_at_start txn = {1}"
proof -
  define tm1 where "tm1 = snd (TransactionManager_Begin kReadCommitted TransactionManager_new)"
  define tm2 where "tm2 = snd (TransactionManager_Begin kSnapshotIsolation tm1)"
  define tm3 where "tm3 = snd (TransactionManager_Commit (Some 1) tm2)"
  have b1: "TransactionManager_Begin kReadCommitted TransactionManager_new = (1, tm1)"
    by (simp add: tm1_def TransactionManager_Begin_def TransactionManager_new_def Let_def)
  have n1: "next_txn_id tm1 = 2" "{j. TransactionManager_IsActive j tm1} = {1}"
    by (auto simp: tm1_def TransactionManager_Begin_def TransactionManager_new_def Let_def IsActive_iff
        split: if_splits)
  have b2: "TransactionManager_Begin kSnapshotIsolation tm1 = (2, tm2)"
    using n1(1) by (simp add: tm2_def TransactionManager_Begin_def Let_def)
  have b3: "TransactionManager_Commit (Some 1) tm2 = (Status_OK, tm3)"
    by (simp add: tm3_def tm2_def tm1_def tm_op_defs TransactionManager_new_def)
  have "tm_reachable tm1"
    unfolding tm1_def by (intro r_into_rtranclp begin_step) (simp add: TransactionManager_new_def)
  moreover have "next_txn_id tm1 \<noteq> -1" by (simp add: n1)
  moreover have "tm_steps tm2 tm3" unfolding tm3_def by (intro r_into_rtranclp commit_step)
  ultimately show ?thesis
    using Begin_snapshot [OF _ _ b2, of tm3] b1 b2 b3 n1(2) by auto
qed

end
