(* ===== verification/Mvcc.thy ===== *)
theory Mvcc
  imports Transactions Record_Manager
begin

text \<open>
  Row versions and their visibility (\<open>src/transaction/mvcc.cpp\<close>): a stored row is preceded by a
  16-byte header with the ids of the transactions that created and deleted it. The first part is
  the visibility rule against the transaction manager, the second the versioned store on top of a
  heap file. A result \<open>None\<close> marks a call with no defined result: a record shorter than the
  header is read out of bounds.
\<close>

section \<open>Version headers\<close>

record VersionMeta =
  xmin :: txn_id_t
  xmax :: txn_id_t

definition kVersionHeaderSize :: nat where
  "kVersionHeaderSize = 16"

definition EncodeVersioned :: "VersionMeta \<Rightarrow> byte list \<Rightarrow> byte list" where
  "EncodeVersioned meta encoded_row =
     write_at 8 (xmax meta) (write_at 0 (xmin meta) (replicate kVersionHeaderSize 0)) @ encoded_row"

definition DecodeVersionMeta :: "byte list \<Rightarrow> VersionMeta option" where
  "DecodeVersionMeta bytes =
     (if length bytes < kVersionHeaderSize then None
      else Some \<lparr>xmin = read_at 0 bytes, xmax = read_at 8 bytes\<rparr>)"

definition RowPayload :: "byte list \<Rightarrow> byte list" where
  "RowPayload bytes = drop kVersionHeaderSize bytes"

lemma length_EncodeVersioned [simp]: "length (EncodeVersioned meta row) = 16 + length row"
  by (simp add: EncodeVersioned_def kVersionHeaderSize_def)

lemma DecodeVersionMeta_Encode [simp]: "DecodeVersionMeta (EncodeVersioned meta row) = Some meta"
proof -
  let ?h = "write_at 8 (xmax meta) (write_at 0 (xmin meta) (replicate kVersionHeaderSize (0 :: byte)))"
  have "read_at 0 (?h @ row) = (read_at 0 ?h :: u64)" "read_at 8 (?h @ row) = (read_at 8 ?h :: u64)"
    by (simp_all add: read_at_def peek_append1 kVersionHeaderSize_def)
  moreover have "read_at 0 ?h = xmin meta" "read_at 8 ?h = xmax meta"
    by (simp_all add: layout kVersionHeaderSize_def)
  ultimately show ?thesis
    by (simp add: DecodeVersionMeta_def kVersionHeaderSize_def) (simp add: EncodeVersioned_def kVersionHeaderSize_def)
qed

lemma RowPayload_Encode [simp]: "RowPayload (EncodeVersioned meta row) = row"
  by (simp add: RowPayload_def EncodeVersioned_def kVersionHeaderSize_def)

section \<open>Visibility\<close>

definition CommittedAndVisibleTo :: "txn_id_t \<Rightarrow> Transaction \<Rightarrow> TransactionManager \<Rightarrow> bool" where
  "CommittedAndVisibleTo i reader tm =
     (if i = kInvalidTxnId then False
      else case TransactionManager_GetTransaction i tm of
          None \<Rightarrow> False
        | Some actor \<Rightarrow>
            if txn_state actor \<noteq> kCommitted then False
            else if isolation_level reader = kReadCommitted then True
            else i < txn_id reader \<and> i \<notin> active_at_start reader)"

definition IsVisible :: "VersionMeta \<Rightarrow> Transaction \<Rightarrow> TransactionManager \<Rightarrow> bool" where
  "IsVisible meta reader tm =
     (let created_by_self = (xmin meta = txn_id reader);
          deleted_by_self = (xmax meta = txn_id reader)
      in if deleted_by_self then False
         else let creator_visible = created_by_self \<or> CommittedAndVisibleTo (xmin meta) reader tm
              in if \<not> creator_visible then False
                 else if xmax meta = kInvalidTxnId then True
                 else \<not> CommittedAndVisibleTo (xmax meta) reader tm)"

text \<open>
  What a transaction sees is fixed by a set of transactions whose effects count for it:
  \<open>sees S i meta\<close> is visibility for the transaction \<open>i\<close> when \<open>S\<close> is that set.
\<close>

definition sees :: "(txn_id_t \<Rightarrow> bool) \<Rightarrow> txn_id_t \<Rightarrow> VersionMeta \<Rightarrow> bool" where
  "sees S i meta \<longleftrightarrow> (xmin meta = i \<or> S (xmin meta)) \<and> xmax meta \<noteq> i \<and> \<not> S (xmax meta)"

lemma IsCommitted_invalid: "tm_wf tm \<Longrightarrow> \<not> TransactionManager_IsCommitted kInvalidTxnId tm"
  by (auto simp: IsCommitted_iff tm_wf_def txn_wf_def)

lemma IsVisible_sees:
  assumes "\<And>j. CommittedAndVisibleTo j reader tm = S j"
  shows "IsVisible meta reader tm \<longleftrightarrow> sees S (txn_id reader) meta"
proof -
  have "\<not> S kInvalidTxnId" using assms [of kInvalidTxnId] by (simp add: CommittedAndVisibleTo_def)
  then show ?thesis by (auto simp: IsVisible_def sees_def Let_def assms)
qed

lemma read_committed_visible:
  assumes "tm_wf tm" and "isolation_level reader = kReadCommitted"
  shows "CommittedAndVisibleTo j reader tm = TransactionManager_IsCommitted j tm"
  using assms IsCommitted_invalid [OF assms(1)]
  by (auto simp: CommittedAndVisibleTo_def TransactionManager_IsCommitted_def split: option.splits)

lemma snapshot_visible:
  assumes "tm_wf tm" and "next_txn_id tm \<noteq> -1"
    and "TransactionManager_Begin kSnapshotIsolation tm = (i, tm1)" and "tm_steps tm1 tm'"
    and "transactions tm' i = Some reader"
  shows "CommittedAndVisibleTo j reader tm' = TransactionManager_IsCommitted j tm"
proof -
  from assms(1-4) obtain txn where "transactions tm' i = Some txn" "txn_id txn = i"
    "isolation_level txn = kSnapshotIsolation" "active_at_start txn = active_txn_ids tm"
    "i = next_txn_id tm" "tm_steps tm tm'"
    by (rule Begin_later)
  with assms(5) have r: "txn_id reader = next_txn_id tm" "isolation_level reader = kSnapshotIsolation"
    "active_at_start reader = active_txn_ids tm" and st: "tm_steps tm tm'" by simp_all
  have act: "j \<in> active_txn_ids tm \<longleftrightarrow> TransactionManager_IsActive j tm"
    and dom: "j < next_txn_id tm \<and> j \<noteq> kInvalidTxnId \<longleftrightarrow> j \<in> dom (transactions tm)"
    using assms(1) by (simp_all add: tm_wf_def)
  show ?thesis
  proof (cases "transactions tm j")
    case None
    then show ?thesis using dom r
      by (auto simp: CommittedAndVisibleTo_def IsCommitted_iff split: option.splits)
  next
    case (Some txn)
    from steps_outlive [OF st assms(1) Some] obtain txn' where
      "transactions tm' j = Some txn'" "outlives txn txn'" by blast
    moreover have "j < next_txn_id tm" "j \<noteq> kInvalidTxnId" using dom Some by auto
    ultimately show ?thesis using Some r act
      by (cases "txn_state txn")
        (auto simp: CommittedAndVisibleTo_def IsCommitted_iff IsActive_iff outlives_def
          TransactionManager_GetTransaction_def)
  qed
qed

section \<open>The versioned record store\<close>

record VersionedRecordStore =
  vrs_heap_file :: HeapFile
  vrs_schema :: Schema

definition VersionedRecordStore_InsertVersion ::
  "txn_id_t \<Rightarrow> Value list \<Rightarrow> VersionedRecordStore \<Rightarrow> BufferPool \<Rightarrow>
     (RecordId Result \<times> VersionedRecordStore \<times> BufferPool) option" where
  "VersionedRecordStore_InsertVersion txn values vs bp =
     (case RecordCodec_Encode (vrs_schema vs) values of
        Inl e \<Rightarrow> Some (Inl e, vs, bp)
      | Inr encoded \<Rightarrow>
          let versioned = EncodeVersioned \<lparr>xmin = txn, xmax = kInvalidTxnId\<rparr> encoded
          in if 65535 < length versioned
             then Some (Inl (Status_InvalidArgument ''InsertVersion: encoded row exceeds codec limit''), vs, bp)
             else (case HeapFile_InsertRecord versioned (word_of_nat (length versioned)) (vrs_heap_file vs) bp of
                     None \<Rightarrow> None
                   | Some (r, hf, bp') \<Rightarrow> Some (r, vs\<lparr>vrs_heap_file := hf\<rparr>, bp')))"

definition VersionedRecordStore_DeleteVersion ::
  "txn_id_t \<Rightarrow> RecordId \<Rightarrow> VersionedRecordStore \<Rightarrow> BufferPool \<Rightarrow>
     (Status \<times> VersionedRecordStore \<times> BufferPool) option" where
  "VersionedRecordStore_DeleteVersion txn rid vs bp =
     (case HeapFile_GetRecordBytes rid bp of
        (Inl e, bp1) \<Rightarrow> Some (e, vs, bp1)
      | (Inr bytes, bp1) \<Rightarrow>
          (case DecodeVersionMeta bytes of
             None \<Rightarrow> None
           | Some meta \<Rightarrow>
               let versioned = EncodeVersioned (meta\<lparr>xmax := txn\<rparr>) (RowPayload bytes)
               in (case HeapFile_UpdateRecord rid versioned (word_of_nat (length versioned))
                          (vrs_heap_file vs) bp1 of
                     None \<Rightarrow> None
                   | Some (r, hf, bp') \<Rightarrow>
                       Some (case r of Inl e \<Rightarrow> e | Inr _ \<Rightarrow> Status_OK, vs\<lparr>vrs_heap_file := hf\<rparr>, bp'))))"

definition VersionedRecordStore_UpdateVersion ::
  "txn_id_t \<Rightarrow> RecordId \<Rightarrow> Value list \<Rightarrow> VersionedRecordStore \<Rightarrow> BufferPool \<Rightarrow>
     (RecordId Result \<times> VersionedRecordStore \<times> BufferPool) option" where
  "VersionedRecordStore_UpdateVersion txn old_rid new_values vs bp =
     (case VersionedRecordStore_DeleteVersion txn old_rid vs bp of
        None \<Rightarrow> None
      | Some (del_status, vs1, bp1) \<Rightarrow>
          if \<not> Status_ok del_status then Some (Inl del_status, vs1, bp1)
          else VersionedRecordStore_InsertVersion txn new_values vs1 bp1)"

text \<open>The callback of \<open>ScanVisible\<close>; the accumulator \<open>None\<close> marks an out-of-bounds read.\<close>

definition scan_visible_visitor ::
  "(RecordId \<Rightarrow> Value list \<Rightarrow> 'v \<Rightarrow> 'v) \<Rightarrow> Transaction \<Rightarrow> TransactionManager \<Rightarrow> Schema \<Rightarrow>
     RecordId \<Rightarrow> byte list \<Rightarrow> 'v option \<Rightarrow> 'v option" where
  "scan_visible_visitor visitor reader tm cs rid bytes acc =
     (case DecodeVersionMeta bytes of
        None \<Rightarrow> None
      | Some meta \<Rightarrow>
          if \<not> IsVisible meta reader tm then acc
          else (case RecordCodec_Decode cs (RowPayload bytes) of
                  Inl e \<Rightarrow> acc
                | Inr row \<Rightarrow> map_option (visitor rid row) acc))"

definition VersionedRecordStore_ScanVisible ::
  "Transaction \<Rightarrow> TransactionManager \<Rightarrow> (RecordId \<Rightarrow> Value list \<Rightarrow> 'v \<Rightarrow> 'v) \<Rightarrow> 'v \<Rightarrow>
     VersionedRecordStore \<Rightarrow> BufferPool \<Rightarrow> ('v \<times> BufferPool) option" where
  "VersionedRecordStore_ScanVisible reader tm visitor acc vs bp =
     (case HeapFile_Scan (scan_visible_visitor visitor reader tm (vrs_schema vs)) (Some acc) (vrs_heap_file vs) bp of
        Some (Some a, bp') \<Rightarrow> Some (a, bp')
      | _ \<Rightarrow> None)"

section \<open>Versions as rows of a row store\<close>

text \<open>A version is a header and a row; this is the codec under which the heap file stores versions.\<close>

definition version_enc :: "Schema \<Rightarrow> VersionMeta \<times> Value list \<Rightarrow> byte list Result" where
  "version_enc cs v = map_sum id (EncodeVersioned (fst v)) (RecordCodec_Encode cs (snd v))"

definition version_dec :: "Schema \<Rightarrow> byte list \<Rightarrow> (VersionMeta \<times> Value list) Result" where
  "version_dec cs bytes = (case DecodeVersionMeta bytes of
       None \<Rightarrow> Inl (Status_Corruption [])
     | Some meta \<Rightarrow> map_sum id (Pair meta) (RecordCodec_Decode cs (RowPayload bytes)))"

lemma version_dec_Inr:
  "version_dec cs r = Inr (meta, row) \<longleftrightarrow>
     DecodeVersionMeta r = Some meta \<and> RecordCodec_Decode cs (RowPayload r) = Inr row"
  by (cases "RecordCodec_Decode cs (RowPayload r)") (auto simp: version_dec_def split: option.splits)

interpretation ver: row_store heap_rep heap_room heap_fits heap_ins heap_get heap_del heap_upd heap_scan length
  "version_enc cs" "version_dec cs" for cs
proof (unfold_locales, goal_cases)
  case (1 v r)
  then obtain bytes where "RecordCodec_Encode cs (snd v) = Inr bytes" "r = EncodeVersioned (fst v) bytes"
    by (cases "RecordCodec_Encode cs (snd v)") (auto simp: version_enc_def)
  then show ?case
    using Decode_Encode [of cs "snd v" bytes "[]"] by (simp add: version_dec_def)
qed

definition vrs_versions ::
  "VersionedRecordStore \<Rightarrow> BufferPool \<Rightarrow> (RecordId \<Rightarrow> (VersionMeta \<times> Value list) option) \<Rightarrow> bool" where
  "vrs_versions vs bp t \<longleftrightarrow> ver.rows (vrs_schema vs) (vrs_heap_file vs, bp) t"

lemma InsertVersion_spec:
  assumes "vrs_versions vs bp t" and "0 < bp_avail bp"
    and "RecordCodec_Encode (vrs_schema vs) values = Inr bytes" and "length bytes \<le> 4064"
  obtains rid vs' bp' where
    "VersionedRecordStore_InsertVersion txn values vs bp = Some (Inr rid, vs', bp')"
    and "t rid = None" and "vrs_versions vs' bp' (t(rid \<mapsto> (\<lparr>xmin = txn, xmax = kInvalidTxnId\<rparr>, values)))"
    and "vrs_schema vs' = vrs_schema vs"
proof -
  let ?meta = "\<lparr>xmin = txn, xmax = kInvalidTxnId\<rparr>" and ?s = "(vrs_heap_file vs, bp)"
  let ?r = "EncodeVersioned ?meta bytes"
  have enc: "version_enc (vrs_schema vs) (?meta, values) = Inr ?r"
    using assms(3) by (simp add: version_enc_def)
  have "heap_fits ?r" "heap_room ?s" using assms(2,4) by (simp_all add: heap_fits_def heap_room_def)
  then obtain rid hf bp' where "heap_ins ?r ?s = Some (Inr rid, hf, bp')" "t rid = None"
    "ver.rows (vrs_schema vs) (hf, bp') (t(rid \<mapsto> (?meta, values)))"
    using ver.rows_ins [OF assms(1) [unfolded vrs_versions_def] _ enc] by auto
  with that [of rid "vs\<lparr>vrs_heap_file := hf\<rparr>" bp'] assms(3,4) show thesis
    by (simp add: VersionedRecordStore_InsertVersion_def heap_ins_def vrs_versions_def)
qed

lemma DeleteVersion_spec:
  assumes "vrs_versions vs bp t" and "0 < bp_avail bp" and "t rid = Some (meta, row)"
  obtains vs' bp' where
    "VersionedRecordStore_DeleteVersion txn rid vs bp = Some (Status_OK, vs', bp')"
    and "vrs_versions vs' bp' (t(rid \<mapsto> (meta\<lparr>xmax := txn\<rparr>, row)))"
    and "vrs_schema vs' = vrs_schema vs" and "0 < bp_avail bp'"
proof -
  let ?hf = "vrs_heap_file vs" and ?cs = "vrs_schema vs"
  obtain m where m: "heap_rep (?hf, bp) m" "ver.decodes ?cs m t"
    using assms(1) by (auto simp: vrs_versions_def ver.rows_def)
  obtain r0 where r0: "m rid = Some r0" "DecodeVersionMeta r0 = Some meta"
    "RecordCodec_Decode ?cs (RowPayload r0) = Inr row"
    using ver.decodes_Some [OF m(2) assms(3)] by (auto simp: version_dec_Inr)
  obtain bp1 where g: "HeapFile_GetRecordBytes rid bp = (Inr r0, bp1)" "heap_rep (?hf, bp1) m"
    "heap_room (?hf, bp1)"
    using heap.get_law [OF m(1) r0(1)] assms(2) by (auto simp: heap_get_def heap_room_def split: prod.splits)
  define r where "r = EncodeVersioned (meta\<lparr>xmax := txn\<rparr>) (RowPayload r0)"
  have len: "length r = length r0"
    using r0(2) by (simp add: r_def RowPayload_def DecodeVersionMeta_def kVersionHeaderSize_def split: if_splits)
  have "heap_fits r" using rep_fits [OF m(1) r0(1)] len by (simp add: heap_fits_def)
  then obtain hf' bp' where u: "heap_upd rid r (?hf, bp1) = Some (Inr rid, hf', bp')"
    "heap_rep (hf', bp') (m(rid \<mapsto> r))" "heap_room (hf', bp')"
    using heap.upd_in_place [OF g(2,3) _ r0(1), of r] len by auto
  have "ver.decodes ?cs (m(rid \<mapsto> r)) (t(rid \<mapsto> (meta\<lparr>xmax := txn\<rparr>, row)))"
    by (rule ver.decodes_upd [OF m(2)]) (simp add: version_dec_Inr r_def r0(3))
  with u g r0 that [of "vs\<lparr>vrs_heap_file := hf'\<rparr>" bp'] show thesis
    by (auto simp: VersionedRecordStore_DeleteVersion_def vrs_versions_def ver.rows_def heap_upd_def
        heap_room_def r_def [symmetric] Let_def)
qed

text \<open>The rows a transaction sees in a table of versions.\<close>

definition visible_rows ::
  "Transaction \<Rightarrow> TransactionManager \<Rightarrow> (RecordId \<Rightarrow> (VersionMeta \<times> Value list) option) \<Rightarrow>
     RecordId \<Rightarrow> Value list option" where
  "visible_rows reader tm t rid =
     Option.bind (t rid) (\<lambda>(meta, row). if IsVisible meta reader tm then Some row else None)"

lemma visible_fold:
  assumes "\<And>rid r. (rid, r) \<in> set xs \<Longrightarrow> \<exists>v. version_dec cs r = Inr v"
  shows "fold (\<lambda>(rid, r). scan_visible_visitor (\<lambda>rid row acc. acc @ [(rid, row)]) reader tm cs rid r) xs (Some acc) =
    Some (acc @ map_entries (\<lambda>_ r. Option.bind (ver.decoded cs r)
       (\<lambda>(meta, row). if IsVisible meta reader tm then Some row else None)) xs)"
  using assms
proof (induction xs arbitrary: acc)
  case (Cons x xs)
  obtain rid r where x: "x = (rid, r)" by fastforce
  obtain meta row where v: "version_dec cs r = Inr (meta, row)" using Cons.prems [of rid r] x by auto
  then have d: "DecodeVersionMeta r = Some meta" "RecordCodec_Decode cs (RowPayload r) = Inr row"
    by (simp_all add: version_dec_Inr)
  from Cons.IH [of "if IsVisible meta reader tm then acc @ [(rid, row)] else acc"] Cons.prems show ?case
    by (cases "IsVisible meta reader tm") (auto simp: x d v scan_visible_visitor_def ver.decoded_def)
qed simp

lemma ScanVisible_spec:
  assumes "vrs_versions vs bp t"
  shows "\<exists>xs bp'. VersionedRecordStore_ScanVisible reader tm (\<lambda>rid row acc. acc @ [(rid, row)]) [] vs bp =
      Some (xs, bp') \<and> distinct (map fst xs) \<and> map_of xs = visible_rows reader tm t \<and> vrs_versions vs bp' t"
proof -
  let ?hf = "vrs_heap_file vs" and ?cs = "vrs_schema vs"
  let ?f = "scan_visible_visitor (\<lambda>rid row acc. acc @ [(rid, row)]) reader tm ?cs"
  let ?g = "\<lambda>_ r. Option.bind (ver.decoded ?cs r) (\<lambda>(meta, row). if IsVisible meta reader tm then Some row else None)"
  obtain m where m: "heap_rep (?hf, bp) m" "ver.decodes ?cs m t"
    using assms(1) by (auto simp: vrs_versions_def ver.rows_def)
  obtain xs bp' where xs: "HeapFile_Scan ?f (Some []) ?hf bp = Some (fold (\<lambda>(rid, r). ?f rid r) xs (Some []), bp')"
    "distinct (map fst xs)" "map_of xs = m" "heap_rep (?hf, bp') m"
    using scan_fold [OF m(1), of ?f "Some []"] by blast
  have dec: "\<exists>v. version_dec ?cs r = Inr v" if "(rid, r) \<in> set xs" for rid r
  proof -
    have "m rid = Some r" using that xs(2,3) by auto
    then show ?thesis
      using ver.decodes_None [OF m(2), of rid] ver.decodes_Some [OF m(2), of rid] by fastforce
  qed
  have "map_of (map_entries ?g xs) = visible_rows reader tm t"
    using xs(2,3) ver.decodes_bind [OF m(2)]
    by (auto simp: map_of_map_entries visible_rows_def bind_assoc [symmetric])
  then show ?thesis
    using xs m(2) visible_fold [OF dec, where reader = reader and tm = tm and acc = "[]"] distinct_map_entries [OF xs(2), of ?g]
    by (auto simp: VersionedRecordStore_ScanVisible_def vrs_versions_def ver.rows_def)
qed

section \<open>Properties\<close>

text \<open>
  A manager on which transaction 1 has committed, and the transaction 2 that starts there, for the
  examples below.
\<close>

definition demo_tm :: TransactionManager where
  "demo_tm = snd (TransactionManager_Commit (Some 1)
     (snd (TransactionManager_Begin kReadCommitted TransactionManager_new)))"

definition demo_tm2 :: TransactionManager where
  "demo_tm2 = snd (TransactionManager_Begin kSnapshotIsolation demo_tm)"

definition demo_reader :: Transaction where
  "demo_reader = \<lparr>txn_id = 2, txn_state = kActive, isolation_level = kSnapshotIsolation, active_at_start = {}\<rparr>"

lemma demo_tm_ok:
  "tm_reachable demo_tm" "next_txn_id demo_tm = 2" "TransactionManager_IsCommitted j demo_tm \<longleftrightarrow> j = 1"
proof -
  have "tm_step TransactionManager_new (snd (TransactionManager_Begin kReadCommitted TransactionManager_new))"
    by (rule begin_step) (simp add: TransactionManager_new_def)
  then show "tm_reachable demo_tm"
    unfolding demo_tm_def by (rule converse_rtranclp_into_rtranclp) (intro r_into_rtranclp commit_step)
  show "next_txn_id demo_tm = 2" "TransactionManager_IsCommitted j demo_tm \<longleftrightarrow> j = 1"
    by (simp_all add: demo_tm_def tm_op_defs TransactionManager_new_def IsCommitted_iff)
qed

lemma demo_reader_ok:
  "TransactionManager_Begin kSnapshotIsolation demo_tm = (2, demo_tm2)"
  "TransactionManager_GetTransaction 2 demo_tm2 = Some demo_reader"
  by (simp_all add: demo_tm2_def demo_reader_def TransactionManager_GetTransaction_def)
    (simp_all add: demo_tm_def tm_op_defs TransactionManager_new_def)

lemma demo_version:
  obtains rid vs bp where "vrs_versions vs bp [rid \<mapsto> (meta, demo_row)]" and "0 < bp_avail bp"
    and "vrs_schema vs = demo_schema"
proof -
  obtain bytes where b: "RecordCodec_Encode demo_schema demo_row = Inr bytes" "length bytes = 9"
    using demo_row_encodes by blast
  obtain rid hf bp where h: "heap_rep (hf, bp) [rid \<mapsto> EncodeVersioned meta bytes]" "0 < bp_avail bp"
    by (rule demo_insert [of "EncodeVersioned meta bytes"]) (use b(2) in \<open>auto simp: heap_fits_def\<close>)
  have "version_dec demo_schema (EncodeVersioned meta bytes) = Inr (meta, demo_row)"
    using Decode_Encode [OF b(1), of "[]"] by (simp add: version_dec_Inr)
  then have "ver.rows demo_schema (hf, bp) [rid \<mapsto> (meta, demo_row)]"
    using h(1) unfolding ver.rows_def ver.decodes_def
    by (intro exI [of _ "[rid \<mapsto> EncodeVersioned meta bytes]"]) simp
  then show thesis
    using that [of "\<lparr>vrs_heap_file = hf, vrs_schema = demo_schema\<rparr>" bp rid] h(2)
    by (simp add: vrs_versions_def)
qed

text \<open>
  C27. Snapshot isolation: a transaction that started under snapshot isolation sees, at every later
  moment and whatever other transactions begin, commit or abort, exactly the versions that its own
  writes or the transactions committed at its start created and that neither it nor they deleted.
\<close>

theorem snapshot_isolation:
  assumes "tm_reachable tm" and "next_txn_id tm \<noteq> -1"
    and "TransactionManager_Begin kSnapshotIsolation tm = (i, tm1)" and "tm_steps tm1 tm'"
    and "TransactionManager_GetTransaction i tm' = Some reader"
  shows "IsVisible meta reader tm' \<longleftrightarrow> sees (\<lambda>j. TransactionManager_IsCommitted j tm) i meta"
proof -
  have wf: "tm_wf tm" by (rule tm_wf_reachable [OF assms(1)])
  have r: "transactions tm' i = Some reader"
    using assms(5) by (simp add: TransactionManager_GetTransaction_def)
  obtain txn where "transactions tm' i = Some txn" "txn_id txn = i"
    by (rule Begin_later [OF wf assms(2-4)]) blast
  with r have i: "txn_id reader = i" by simp
  show ?thesis
    unfolding IsVisible_sees [OF snapshot_visible [OF wf assms(2-4) r]] i ..
qed

theorem snapshot_isolation_witness:
  "IsVisible \<lparr>xmin = 1, xmax = 0\<rparr> demo_reader demo_tm2 \<and>
   \<not> IsVisible \<lparr>xmin = 3, xmax = 0\<rparr> demo_reader demo_tm2"
  using snapshot_isolation [OF demo_tm_ok(1) _ demo_reader_ok(1) rtranclp.rtrancl_refl demo_reader_ok(2),
      of "\<lparr>xmin = 1, xmax = 0\<rparr>"]
    snapshot_isolation [OF demo_tm_ok(1) _ demo_reader_ok(1) rtranclp.rtrancl_refl demo_reader_ok(2),
      of "\<lparr>xmin = 3, xmax = 0\<rparr>"]
  by (simp add: demo_tm_ok sees_def)

text \<open>
  Read committed: such a transaction sees its own writes and those of every transaction that is
  committed at the moment of the read.
\<close>

lemma read_committed:
  assumes "tm_reachable tm" and "isolation_level reader = kReadCommitted"
  shows "IsVisible meta reader tm \<longleftrightarrow>
    sees (\<lambda>j. TransactionManager_IsCommitted j tm) (txn_id reader) meta"
  by (rule IsVisible_sees) (rule read_committed_visible [OF tm_wf_reachable [OF assms(1)] assms(2)])

text \<open>
  C28. A scan returns, each exactly once, the rows of the versions that the reader sees, and while the
  reader runs other transactions can neither add to nor take from them: a version inserted by a
  transaction that is not in the reader's snapshot stays invisible, and so does the deletion by
  such a transaction of a version that was not deleted before.
\<close>

theorem ScanVisible_stable:
  assumes "vrs_versions vs bp t" and "0 < bp_avail bp"
    and "\<not> CommittedAndVisibleTo j reader tm" and "j \<noteq> txn_id reader" and "txn_id reader \<noteq> kInvalidTxnId"
    and "RecordCodec_Encode (vrs_schema vs) values = Inr bytes" and "length bytes \<le> 4064"
    and "t rid = Some (meta, row)" and "xmax meta = kInvalidTxnId"
  shows "(\<exists>xs bp'. VersionedRecordStore_ScanVisible reader tm (\<lambda>rid row acc. acc @ [(rid, row)]) [] vs bp =
      Some (xs, bp') \<and> distinct (map fst xs) \<and> map_of xs = visible_rows reader tm t) \<and>
    (\<exists>new vs' bp' t'. VersionedRecordStore_InsertVersion j values vs bp = Some (Inr new, vs', bp') \<and>
      vrs_versions vs' bp' t' \<and> visible_rows reader tm t' = visible_rows reader tm t) \<and>
    (\<exists>vs' bp' t'. VersionedRecordStore_DeleteVersion j rid vs bp = Some (Status_OK, vs', bp') \<and>
      vrs_versions vs' bp' t' \<and> visible_rows reader tm t' = visible_rows reader tm t)"
proof (intro conjI)
  show "\<exists>xs bp'. VersionedRecordStore_ScanVisible reader tm (\<lambda>rid row acc. acc @ [(rid, row)]) [] vs bp =
      Some (xs, bp') \<and> distinct (map fst xs) \<and> map_of xs = visible_rows reader tm t"
    using ScanVisible_spec [OF assms(1)] by blast
  obtain new vs1 bp1 where i: "VersionedRecordStore_InsertVersion j values vs bp = Some (Inr new, vs1, bp1)"
    "t new = None" "vrs_versions vs1 bp1 (t(new \<mapsto> (\<lparr>xmin = j, xmax = kInvalidTxnId\<rparr>, values)))"
    by (rule InsertVersion_spec [OF assms(1,2,6,7)])
  have "visible_rows reader tm (t(new \<mapsto> (\<lparr>xmin = j, xmax = kInvalidTxnId\<rparr>, values))) = visible_rows reader tm t"
    using i(2) assms(3-5) by (auto simp: visible_rows_def IsVisible_def)
  with i show "\<exists>new vs' bp' t'. VersionedRecordStore_InsertVersion j values vs bp = Some (Inr new, vs', bp') \<and>
      vrs_versions vs' bp' t' \<and> visible_rows reader tm t' = visible_rows reader tm t" by blast
  obtain vs2 bp2 where d: "VersionedRecordStore_DeleteVersion j rid vs bp = Some (Status_OK, vs2, bp2)"
    "vrs_versions vs2 bp2 (t(rid \<mapsto> (meta\<lparr>xmax := j\<rparr>, row)))"
    by (rule DeleteVersion_spec [OF assms(1,2,8)])
  have "visible_rows reader tm (t(rid \<mapsto> (meta\<lparr>xmax := j\<rparr>, row))) = visible_rows reader tm t"
    using assms(3-5,8,9) by (auto simp: visible_rows_def IsVisible_def Let_def)
  with d show "\<exists>vs' bp' t'. VersionedRecordStore_DeleteVersion j rid vs bp = Some (Status_OK, vs', bp') \<and>
      vrs_versions vs' bp' t' \<and> visible_rows reader tm t' = visible_rows reader tm t" by blast
qed

lemma demo_invisible: "\<not> CommittedAndVisibleTo 3 demo_reader demo_tm2"
  by (simp add: CommittedAndVisibleTo_def demo_reader_def split: option.split)

theorem ScanVisible_stable_witness:
  "\<exists>rid vs bp vs' bp' t'. vrs_versions vs bp [rid \<mapsto> (\<lparr>xmin = 1, xmax = 0\<rparr>, demo_row)] \<and>
     VersionedRecordStore_DeleteVersion 3 rid vs bp = Some (Status_OK, vs', bp') \<and>
     vrs_versions vs' bp' t' \<and> visible_rows demo_reader demo_tm2 t' rid = Some demo_row"
proof -
  let ?meta = "\<lparr>xmin = 1, xmax = 0\<rparr>"
  obtain rid vs bp where v: "vrs_versions vs bp [rid \<mapsto> (?meta, demo_row)]" "0 < bp_avail bp"
    "vrs_schema vs = demo_schema"
    by (rule demo_version)
  obtain bytes where b: "RecordCodec_Encode (vrs_schema vs) demo_row = Inr bytes" "length bytes \<le> 4064"
    using demo_row_encodes v(3) by auto
  have vis: "visible_rows demo_reader demo_tm2 [rid \<mapsto> (?meta, demo_row)] rid = Some demo_row"
    using snapshot_visible [OF tm_wf_reachable [OF demo_tm_ok(1)] _ demo_reader_ok(1) rtranclp.rtrancl_refl, of demo_reader 1]
      demo_reader_ok(2)
    by (simp add: visible_rows_def IsVisible_def demo_tm_ok kInvalidTxnId_def TransactionManager_GetTransaction_def)
      (simp add: demo_reader_def)
  have "3 \<noteq> txn_id demo_reader" "txn_id demo_reader \<noteq> kInvalidTxnId" "xmax ?meta = kInvalidTxnId"
    by (simp_all add: demo_reader_def kInvalidTxnId_def)
  with ScanVisible_stable [OF v(1,2) demo_invisible _ _ b, of rid ?meta demo_row] v(1) vis show ?thesis
    by (metis (no_types, lifting) map_upd_Some_unfold)
qed

text \<open>
  C29. \<open>DeleteVersion\<close> does not look at the deleter already recorded: deleting a version a second time
  overwrites it. If the first deleter is in the reader's snapshot and the second is not, a row
  that was deleted for the reader becomes visible to it again.
\<close>

theorem DeleteVersion_resurrects:
  assumes "vrs_versions vs bp t" and "0 < bp_avail bp" and "t rid = Some (meta, row)"
    and "CommittedAndVisibleTo (xmin meta) reader tm" and "CommittedAndVisibleTo (xmax meta) reader tm"
    and "\<not> CommittedAndVisibleTo j reader tm" and "j \<noteq> txn_id reader"
  shows "visible_rows reader tm t rid = None \<and>
    (\<exists>vs' bp' t'. VersionedRecordStore_DeleteVersion j rid vs bp = Some (Status_OK, vs', bp') \<and>
       vrs_versions vs' bp' t' \<and> visible_rows reader tm t' rid = Some row)"
proof
  show "visible_rows reader tm t rid = None"
    using assms(3,5) by (auto simp: visible_rows_def IsVisible_def Let_def CommittedAndVisibleTo_def)
  obtain vs2 bp2 where d: "VersionedRecordStore_DeleteVersion j rid vs bp = Some (Status_OK, vs2, bp2)"
    "vrs_versions vs2 bp2 (t(rid \<mapsto> (meta\<lparr>xmax := j\<rparr>, row)))"
    by (rule DeleteVersion_spec [OF assms(1,2,3)])
  moreover have "visible_rows reader tm (t(rid \<mapsto> (meta\<lparr>xmax := j\<rparr>, row))) rid = Some row"
    using assms(4,6,7) by (simp add: visible_rows_def IsVisible_def)
  ultimately show "\<exists>vs' bp' t'. VersionedRecordStore_DeleteVersion j rid vs bp = Some (Status_OK, vs', bp') \<and>
       vrs_versions vs' bp' t' \<and> visible_rows reader tm t' rid = Some row" by blast
qed

theorem DeleteVersion_resurrects_witness:
  "\<exists>rid vs bp vs' bp' t'. vrs_versions vs bp [rid \<mapsto> (\<lparr>xmin = 1, xmax = 1\<rparr>, demo_row)] \<and>
     VersionedRecordStore_DeleteVersion 3 rid vs bp = Some (Status_OK, vs', bp') \<and>
     vrs_versions vs' bp' t' \<and> visible_rows demo_reader demo_tm2 t' rid = Some demo_row"
proof -
  let ?meta = "\<lparr>xmin = 1, xmax = 1\<rparr> :: VersionMeta"
  obtain rid vs bp where v: "vrs_versions vs bp [rid \<mapsto> (?meta, demo_row)]" "0 < bp_avail bp"
    by (rule demo_version)
  have "CommittedAndVisibleTo 1 demo_reader demo_tm2"
    using snapshot_visible [OF tm_wf_reachable [OF demo_tm_ok(1)] _ demo_reader_ok(1) rtranclp.rtrancl_refl, of demo_reader 1]
      demo_reader_ok(2)
    by (simp add: demo_tm_ok TransactionManager_GetTransaction_def)
  moreover have "3 \<noteq> txn_id demo_reader" by (simp add: demo_reader_def)
  ultimately show ?thesis
    using DeleteVersion_resurrects [OF v, of rid ?meta demo_row demo_reader demo_tm2 3] demo_invisible v(1)
    by fastforce
qed

end
