(* ===== verification/Lock_Manager.thy ===== *)
theory Lock_Manager
  imports Transactions Heap_File
begin

text \<open>
  Row locks (\<open>src/transaction/lock_manager.cpp\<close>). The lock table maps a record id to its shared
  holders and its exclusive holder; a second map holds, for each transaction, the rows it has
  locked. The hash sets are sets, except where the code iterates over one: there the elements are
  a list, and the results hold for every order. Every call runs under the mutex and is one step.
\<close>

record LockEntry =
  shared_holders :: "txn_id_t set"
  exclusive_holder :: txn_id_t

record LockManager =
  lock_table :: "RecordId \<rightharpoonup> LockEntry"
  txn_locks :: "txn_id_t \<rightharpoonup> RecordId list"

definition LockManager_new :: LockManager where
  "LockManager_new = \<lparr>lock_table = Map.empty, txn_locks = Map.empty\<rparr>"

text \<open>\<open>lock_table_[rid]\<close> creates an empty entry, \<open>txn_locks_[txn_id]\<close> an empty set.\<close>

definition lock_entry :: "RecordId \<Rightarrow> LockManager \<Rightarrow> LockEntry" where
  "lock_entry rid lm = (case lock_table lm rid of
       None \<Rightarrow> \<lparr>shared_holders = {}, exclusive_holder = kInvalidTxnId\<rparr>
     | Some e \<Rightarrow> e)"

definition locked_rows :: "txn_id_t \<Rightarrow> LockManager \<Rightarrow> RecordId list" where
  "locked_rows txn lm = (case txn_locks lm txn of None \<Rightarrow> [] | Some rids \<Rightarrow> rids)"

definition set_entry :: "RecordId \<Rightarrow> LockEntry \<Rightarrow> LockManager \<Rightarrow> LockManager" where
  "set_entry rid e lm = lm\<lparr>lock_table := (lock_table lm)(rid \<mapsto> e)\<rparr>"

definition add_txn_lock :: "txn_id_t \<Rightarrow> RecordId \<Rightarrow> LockManager \<Rightarrow> LockManager" where
  "add_txn_lock txn rid lm = lm\<lparr>txn_locks := (txn_locks lm)(txn \<mapsto> List.insert rid (locked_rows txn lm))\<rparr>"

definition LockManager_LockShared :: "txn_id_t \<Rightarrow> RecordId \<Rightarrow> LockManager \<Rightarrow> Status \<times> LockManager" where
  "LockManager_LockShared txn rid lm =
     (let e = lock_entry rid lm
      in if exclusive_holder e \<noteq> kInvalidTxnId \<and> exclusive_holder e \<noteq> txn
         then (Status_Conflict ''LockShared: row is exclusively locked by another transaction'',
               set_entry rid e lm)
         else (Status_OK,
               add_txn_lock txn rid
                 (set_entry rid (e\<lparr>shared_holders := insert txn (shared_holders e)\<rparr>) lm)))"

definition LockManager_LockExclusive :: "txn_id_t \<Rightarrow> RecordId \<Rightarrow> LockManager \<Rightarrow> Status \<times> LockManager" where
  "LockManager_LockExclusive txn rid lm =
     (let e = lock_entry rid lm
      in if exclusive_holder e \<noteq> kInvalidTxnId \<and> exclusive_holder e \<noteq> txn
         then (Status_Conflict ''LockExclusive: row is exclusively locked by another transaction'',
               set_entry rid e lm)
         else if \<exists>holder \<in> shared_holders e. holder \<noteq> txn
         then (Status_Conflict ''LockExclusive: row is share-locked by another transaction'',
               set_entry rid e lm)
         else (Status_OK,
               add_txn_lock txn rid
                 (set_entry rid (e\<lparr>shared_holders := {}, exclusive_holder := txn\<rparr>) lm)))"

definition LockManager_Unlock :: "txn_id_t \<Rightarrow> RecordId \<Rightarrow> LockManager \<Rightarrow> Status \<times> LockManager" where
  "LockManager_Unlock txn rid lm =
     (case lock_table lm rid of
        None \<Rightarrow> (Status_NotFound ''Unlock: no lock held on this row'', lm)
      | Some e \<Rightarrow>
          let held = (txn \<in> shared_holders e \<or> exclusive_holder e = txn);
              e' = e\<lparr>shared_holders := shared_holders e - {txn},
                     exclusive_holder := (if exclusive_holder e = txn then kInvalidTxnId
                                          else exclusive_holder e)\<rparr>;
              table = (if shared_holders e' = {} \<and> exclusive_holder e' = kInvalidTxnId
                       then (lock_table lm)(rid := None) else (lock_table lm)(rid \<mapsto> e'));
              lm' = lm\<lparr>lock_table := table,
                       txn_locks := (txn_locks lm)(txn := map_option (removeAll rid) (txn_locks lm txn))\<rparr>
          in (if held then Status_OK
              else Status_NotFound ''Unlock: this transaction does not hold a lock on this row'', lm'))"

definition LockManager_ReleaseAll :: "txn_id_t \<Rightarrow> LockManager \<Rightarrow> LockManager" where
  "LockManager_ReleaseAll txn lm =
     (case txn_locks lm txn of
        None \<Rightarrow> lm
      | Some held \<Rightarrow>
          let lm' = fold (\<lambda>rid lm. snd (LockManager_Unlock txn rid lm)) held lm
          in lm'\<lparr>txn_locks := (txn_locks lm')(txn := None)\<rparr>)"

section \<open>Deadlock detection\<close>

text \<open>
  The wait-for graph is a list of nodes with their successors, in the order in which the code
  iterates over its hash map and sets; the results hold for every order. The recursive closure
  \<open>visit\<close> updates the colours and the stack it captures. Its recursion depth is bounded by
  fuel: \<open>None\<close> means that the bound was reached. The fuel \<open>DetectDeadlock\<close> gives it, one more
  than the number of node occurrences in the graph, is shown to be enough.
\<close>

type_synonym WaitForGraph = "(txn_id_t \<times> txn_id_t list) list"

datatype Color = kWhite | kGray | kBlack

record DfsState =
  color :: "txn_id_t \<rightharpoonup> Color"
  dfs_stack :: "txn_id_t list"
  cycle_out :: "txn_id_t list"

definition color_of :: "txn_id_t \<Rightarrow> DfsState \<Rightarrow> Color" where
  "color_of v s = (case color s v of None \<Rightarrow> kWhite | Some c \<Rightarrow> c)"

fun visit_neighbors ::
  "(txn_id_t \<Rightarrow> DfsState \<Rightarrow> (bool \<times> DfsState) option) \<Rightarrow> txn_id_t list \<Rightarrow> DfsState \<Rightarrow> (bool \<times> DfsState) option" where
  "visit_neighbors visit [] s = Some (False, s)"
| "visit_neighbors visit (neighbor # ns) s =
     (let c = color_of neighbor s
      in if c = kGray
         then Some (True, s\<lparr>cycle_out := dropWhile (\<lambda>v. v \<noteq> neighbor) (dfs_stack s)\<rparr>)
         else if c = kWhite
         then (case visit neighbor s of
                 None \<Rightarrow> None
               | Some (True, s') \<Rightarrow> Some (True, s')
               | Some (False, s') \<Rightarrow> visit_neighbors visit ns s')
         else visit_neighbors visit ns s)"

fun visit :: "nat \<Rightarrow> WaitForGraph \<Rightarrow> txn_id_t \<Rightarrow> DfsState \<Rightarrow> (bool \<times> DfsState) option" where
  "visit 0 g node s = None"
| "visit (Suc fuel) g node s =
     (let s1 = s\<lparr>color := (color s)(node \<mapsto> kGray), dfs_stack := dfs_stack s @ [node]\<rparr>
      in case visit_neighbors (visit fuel g) (case map_of g node of None \<Rightarrow> [] | Some ns \<Rightarrow> ns) s1 of
           None \<Rightarrow> None
         | Some (True, s2) \<Rightarrow> Some (True, s2)
         | Some (False, s2) \<Rightarrow>
             Some (False, s2\<lparr>dfs_stack := butlast (dfs_stack s2), color := (color s2)(node \<mapsto> kBlack)\<rparr>))"

fun detect_loop :: "nat \<Rightarrow> WaitForGraph \<Rightarrow> txn_id_t list \<Rightarrow> DfsState \<Rightarrow> (bool \<times> DfsState) option" where
  "detect_loop fuel g [] s = Some (False, s)"
| "detect_loop fuel g (node # nodes) s =
     (if color_of node s = kWhite
      then (case visit fuel g node s of
              None \<Rightarrow> None
            | Some (True, s') \<Rightarrow> Some (True, s')
            | Some (False, s') \<Rightarrow> detect_loop fuel g nodes s')
      else detect_loop fuel g nodes s)"

definition LockManager_DetectDeadlock :: "WaitForGraph \<Rightarrow> (bool \<times> txn_id_t list) option" where
  "LockManager_DetectDeadlock g =
     map_option (map_prod id cycle_out)
       (detect_loop (Suc (length (concat (map (\<lambda>(v, ns). v # ns) g)))) g (map fst g)
          \<lparr>color = Map.empty, dfs_stack = [], cycle_out = []\<rparr>)"

section \<open>The locks that are held\<close>

datatype LockMode = Shared | Exclusive

definition holds :: "LockManager \<Rightarrow> txn_id_t \<Rightarrow> RecordId \<Rightarrow> LockMode \<Rightarrow> bool" where
  "holds lm txn rid mode = (case mode of
       Shared \<Rightarrow> txn \<in> shared_holders (lock_entry rid lm)
     | Exclusive \<Rightarrow> exclusive_holder (lock_entry rid lm) = txn \<and> txn \<noteq> kInvalidTxnId)"

lemma holds_simps [simp]:
  "holds lm txn rid Shared \<longleftrightarrow> txn \<in> shared_holders (lock_entry rid lm)"
  "holds lm txn rid Exclusive \<longleftrightarrow> exclusive_holder (lock_entry rid lm) = txn \<and> txn \<noteq> kInvalidTxnId"
  by (simp_all add: holds_def)

text \<open>
  The invariant: an exclusive holder excludes all other holders, every entry of the table has a
  holder, and the rows recorded for a transaction are the ones it holds a lock on.
\<close>

definition entry_ok :: "LockEntry \<Rightarrow> bool" where
  "entry_ok e \<longleftrightarrow>
     kInvalidTxnId \<notin> shared_holders e \<and>
     (exclusive_holder e \<noteq> kInvalidTxnId \<longrightarrow> shared_holders e \<subseteq> {exclusive_holder e})"

definition lm_wf :: "LockManager \<Rightarrow> bool" where
  "lm_wf lm \<longleftrightarrow>
     (\<forall>rid. entry_ok (lock_entry rid lm)) \<and>
     (\<forall>rid \<in> dom (lock_table lm). \<exists>txn mode. holds lm txn rid mode) \<and>
     (\<forall>txn rid. txn \<noteq> kInvalidTxnId \<longrightarrow>
        (rid \<in> set (locked_rows txn lm) \<longleftrightarrow> (\<exists>mode. holds lm txn rid mode)))"

lemma lm_wf_new: "lm_wf LockManager_new"
  by (auto simp: lm_wf_def LockManager_new_def lock_entry_def entry_ok_def locked_rows_def holds_def
      split: LockMode.splits)

lemma lock_entry_set [simp]:
  "lock_entry rid (set_entry rid' e lm) = (if rid = rid' then e else lock_entry rid lm)"
  by (simp add: lock_entry_def set_entry_def)

lemma lock_entry_add [simp]: "lock_entry rid (add_txn_lock txn rid' lm) = lock_entry rid lm"
  by (simp add: lock_entry_def add_txn_lock_def)

lemma locked_rows_set [simp]: "locked_rows txn (set_entry rid e lm) = locked_rows txn lm"
  by (simp add: locked_rows_def set_entry_def)

lemma locked_rows_add [simp]:
  "locked_rows txn' (add_txn_lock txn rid lm) =
     (if txn' = txn then List.insert rid (locked_rows txn lm) else locked_rows txn' lm)"
  by (simp add: locked_rows_def add_txn_lock_def)

section \<open>What each operation does to the locks\<close>

lemma LockShared_ok:
  "fst (LockManager_LockShared txn rid lm) = Status_OK \<longleftrightarrow>
     (\<forall>other. other \<noteq> txn \<longrightarrow> \<not> holds lm other rid Exclusive)"
  by (auto simp: LockManager_LockShared_def Let_def status_defs)

lemma LockShared_holds:
  "holds (snd (LockManager_LockShared txn rid lm)) t r mode \<longleftrightarrow>
     holds lm t r mode \<or>
     fst (LockManager_LockShared txn rid lm) = Status_OK \<and> t = txn \<and> r = rid \<and> mode = Shared"
  by (cases mode) (auto simp: LockManager_LockShared_def Let_def status_defs)

lemma LockExclusive_ok:
  "fst (LockManager_LockExclusive txn rid lm) = Status_OK \<longleftrightarrow>
     (\<forall>other mode. other \<noteq> txn \<longrightarrow> \<not> holds lm other rid mode)"
proof -
  have "(\<forall>other mode. other \<noteq> txn \<longrightarrow> \<not> holds lm other rid mode) \<longleftrightarrow>
      (\<forall>other. other \<noteq> txn \<longrightarrow> \<not> holds lm other rid Shared \<and> \<not> holds lm other rid Exclusive)"
    by (metis LockMode.exhaust)
  then show ?thesis by (auto simp: LockManager_LockExclusive_def Let_def status_defs)
qed

lemma LockExclusive_holds:
  assumes "txn \<noteq> kInvalidTxnId"
  shows "holds (snd (LockManager_LockExclusive txn rid lm)) t r mode \<longleftrightarrow>
     (if fst (LockManager_LockExclusive txn rid lm) = Status_OK \<and> r = rid
      then t = txn \<and> mode = Exclusive else holds lm t r mode)"
  using assms by (cases mode) (auto simp: LockManager_LockExclusive_def Let_def status_defs)

lemma lock_entry_Unlock:
  "lock_entry r (snd (LockManager_Unlock txn rid lm)) =
     (if r = rid \<and> rid \<in> dom (lock_table lm)
      then (lock_entry rid lm)\<lparr>shared_holders := shared_holders (lock_entry rid lm) - {txn},
              exclusive_holder := (if exclusive_holder (lock_entry rid lm) = txn then kInvalidTxnId
                                   else exclusive_holder (lock_entry rid lm))\<rparr>
      else lock_entry r lm)"
  by (auto simp: LockManager_Unlock_def Let_def lock_entry_def split: option.splits)

lemma no_entry_no_lock: "rid \<notin> dom (lock_table lm) \<Longrightarrow> \<not> holds lm t rid mode"
  by (cases mode) (auto simp: lock_entry_def domIff)

lemma Unlock_holds:
  "holds (snd (LockManager_Unlock txn rid lm)) t r mode \<longleftrightarrow> holds lm t r mode \<and> \<not> (t = txn \<and> r = rid)"
proof (cases "r = rid \<and> rid \<in> dom (lock_table lm)")
  case True
  then show ?thesis by (cases mode) (auto simp: lock_entry_Unlock)
next
  case False
  then have "lock_entry r (snd (LockManager_Unlock txn rid lm)) = lock_entry r lm"
    by (auto simp: lock_entry_Unlock)
  then have "holds (snd (LockManager_Unlock txn rid lm)) t r mode = holds lm t r mode"
    by (cases mode) simp_all
  with False show ?thesis using no_entry_no_lock by auto
qed

lemma Unlock_ok:
  assumes "txn \<noteq> kInvalidTxnId"
  shows "fst (LockManager_Unlock txn rid lm) = Status_OK \<longleftrightarrow> (\<exists>mode. holds lm txn rid mode)"
proof -
  have "(\<exists>mode. holds lm txn rid mode) \<longleftrightarrow> holds lm txn rid Shared \<or> holds lm txn rid Exclusive"
    by (metis LockMode.exhaust)
  with assms show ?thesis
    by (auto simp: LockManager_Unlock_def Let_def lock_entry_def status_defs split: option.splits)
qed

lemma locked_rows_Unlock:
  "rid' \<in> set (locked_rows txn' (snd (LockManager_Unlock txn rid lm))) \<longleftrightarrow>
     rid' \<in> set (locked_rows txn' lm) \<and>
     \<not> (txn' = txn \<and> rid' = rid \<and> rid \<in> dom (lock_table lm))"
  by (cases "lock_table lm rid"; cases "txn_locks lm txn")
    (auto simp: LockManager_Unlock_def Let_def locked_rows_def)

section \<open>The operations keep the invariant\<close>

lemma LockShared_entry:
  "lock_entry r (snd (LockManager_LockShared txn rid lm)) =
     (if r = rid \<and> fst (LockManager_LockShared txn rid lm) = Status_OK
      then (lock_entry r lm)\<lparr>shared_holders := insert txn (shared_holders (lock_entry r lm))\<rparr>
      else lock_entry r lm)"
  by (simp add: LockManager_LockShared_def Let_def status_defs)

lemma LockExclusive_entry:
  "lock_entry r (snd (LockManager_LockExclusive txn rid lm)) =
     (if r = rid \<and> fst (LockManager_LockExclusive txn rid lm) = Status_OK
      then \<lparr>shared_holders = {}, exclusive_holder = txn\<rparr> else lock_entry r lm)"
  by (simp add: LockManager_LockExclusive_def Let_def status_defs)

lemma lock_locked_rows:
  "set (locked_rows t (snd (LockManager_LockShared txn rid lm))) =
     (if t = txn \<and> fst (LockManager_LockShared txn rid lm) = Status_OK
      then insert rid (set (locked_rows t lm)) else set (locked_rows t lm))"
  "set (locked_rows t (snd (LockManager_LockExclusive txn rid lm))) =
     (if t = txn \<and> fst (LockManager_LockExclusive txn rid lm) = Status_OK
      then insert rid (set (locked_rows t lm)) else set (locked_rows t lm))"
  by (simp_all add: LockManager_LockShared_def LockManager_LockExclusive_def Let_def status_defs)

lemma lock_dom:
  "dom (lock_table (snd (LockManager_LockShared txn rid lm))) = insert rid (dom (lock_table lm))"
  "dom (lock_table (snd (LockManager_LockExclusive txn rid lm))) = insert rid (dom (lock_table lm))"
  by (auto simp: LockManager_LockShared_def LockManager_LockExclusive_def Let_def set_entry_def add_txn_lock_def)

lemma Unlock_dom:
  "r \<in> dom (lock_table (snd (LockManager_Unlock txn rid lm))) \<longleftrightarrow>
     r \<in> dom (lock_table lm) \<and>
     (r = rid \<longrightarrow> shared_holders (lock_entry rid lm) - {txn} \<noteq> {} \<or>
        exclusive_holder (lock_entry rid lm) \<notin> {txn, kInvalidTxnId})"
  by (cases "lock_table lm rid") (auto simp: LockManager_Unlock_def Let_def lock_entry_def)

lemma lm_wfD:
  assumes "lm_wf lm"
  shows "entry_ok (lock_entry rid lm)"
    and "rid \<in> dom (lock_table lm) \<Longrightarrow> \<exists>t mode. holds lm t rid mode"
    and "txn \<noteq> kInvalidTxnId \<Longrightarrow> rid \<in> set (locked_rows txn lm) \<longleftrightarrow> (\<exists>mode. holds lm txn rid mode)"
  using assms by (simp_all add: lm_wf_def)

lemma LockShared_wf [preserves]:
  assumes wf: "lm_wf lm" and txn: "txn \<noteq> kInvalidTxnId"
  shows "lm_wf (snd (LockManager_LockShared txn rid lm))"
proof -
  let ?lm = "snd (LockManager_LockShared txn rid lm)" and ?ok = "fst (LockManager_LockShared txn rid lm) = Status_OK"
  have ok: "?ok \<longleftrightarrow> exclusive_holder (lock_entry rid lm) \<in> {txn, kInvalidTxnId}"
    using LockShared_ok [of txn rid lm] by auto
  have "entry_ok (lock_entry r ?lm)" for r
    using lm_wfD(1) [OF wf, of r] txn ok by (auto simp: LockShared_entry entry_ok_def)
  moreover have "\<exists>t mode. holds ?lm t r mode" if "r \<in> dom (lock_table ?lm)" for r
    using that lm_wfD(2) [OF wf, of r] LockShared_holds [of txn rid lm] LockShared_ok [of txn rid lm]
    by (metis insert_iff lock_dom(1))
  moreover have "r \<in> set (locked_rows t ?lm) \<longleftrightarrow> (\<exists>mode. holds ?lm t r mode)" if "t \<noteq> kInvalidTxnId" for t r
    using lm_wfD(3) [OF wf that, of r] by (auto simp: lock_locked_rows LockShared_holds)
  ultimately show ?thesis by (simp add: lm_wf_def)
qed

lemma LockExclusive_wf [preserves]:
  assumes wf: "lm_wf lm" and txn: "txn \<noteq> kInvalidTxnId"
  shows "lm_wf (snd (LockManager_LockExclusive txn rid lm))"
proof -
  let ?lm = "snd (LockManager_LockExclusive txn rid lm)"
  let ?ok = "fst (LockManager_LockExclusive txn rid lm) = Status_OK"
  note ok = LockExclusive_ok [of txn rid lm] and hold = LockExclusive_holds [OF txn, of rid lm]
  have "entry_ok (lock_entry r ?lm)" for r
    using lm_wfD(1) [OF wf, of r] by (auto simp: LockExclusive_entry entry_ok_def)
  moreover have "\<exists>t mode. holds ?lm t r mode" if "r \<in> dom (lock_table ?lm)" for r
    using that lm_wfD(2) [OF wf, of r] hold ok by (metis insert_iff lock_dom(2))
  moreover have "r \<in> set (locked_rows t ?lm) \<longleftrightarrow> (\<exists>mode. holds ?lm t r mode)" if "t \<noteq> kInvalidTxnId" for t r
    using lm_wfD(3) [OF wf that, of r] ok by (auto simp: lock_locked_rows hold)
  ultimately show ?thesis by (simp add: lm_wf_def)
qed

lemma Unlock_wf [preserves]:
  assumes wf: "lm_wf lm" and txn: "txn \<noteq> kInvalidTxnId"
  shows "lm_wf (snd (LockManager_Unlock txn rid lm))"
proof -
  let ?lm = "snd (LockManager_Unlock txn rid lm)"
  have "entry_ok (lock_entry r ?lm)" for r
    using lm_wfD(1) [OF wf, of r] by (auto simp: lock_entry_Unlock entry_ok_def)
  moreover have "\<exists>t mode. holds ?lm t r mode" if r: "r \<in> dom (lock_table ?lm)" for r
  proof (cases "r = rid")
    case True
    then have "(\<exists>t. t \<noteq> txn \<and> holds lm t rid Shared) \<or> (\<exists>t. t \<noteq> txn \<and> holds lm t rid Exclusive)"
      using r by (auto simp: Unlock_dom)
    with True show ?thesis using Unlock_holds [of txn rid lm] by metis
  next
    case False
    then show ?thesis using r lm_wfD(2) [OF wf, of r] by (auto simp: Unlock_dom Unlock_holds)
  qed
  moreover have "r \<in> set (locked_rows t ?lm) \<longleftrightarrow> (\<exists>mode. holds ?lm t r mode)" if "t \<noteq> kInvalidTxnId" for t r
    using lm_wfD(3) [OF wf that, of r] no_entry_no_lock [of rid lm t]
    by (auto simp: locked_rows_Unlock Unlock_holds)
  ultimately show ?thesis by (simp add: lm_wf_def)
qed

text \<open>The first and the last critical section of \<open>ReleaseAll\<close> around its sequence of unlocks.\<close>

definition forget_txn :: "txn_id_t \<Rightarrow> LockManager \<Rightarrow> LockManager" where
  "forget_txn txn lm = lm\<lparr>txn_locks := (txn_locks lm)(txn := None)\<rparr>"

lemma forget_txn_simps [simp]:
  "lock_entry r (forget_txn txn lm) = lock_entry r lm" "holds (forget_txn txn lm) t r mode = holds lm t r mode"
  "locked_rows t (forget_txn txn lm) = (if t = txn then [] else locked_rows t lm)"
  "lock_table (forget_txn txn lm) = lock_table lm"
  by (cases mode; simp add: forget_txn_def lock_entry_def locked_rows_def)+

lemma forget_txn_wf: "lm_wf lm \<Longrightarrow> (\<And>r mode. \<not> holds lm txn r mode) \<Longrightarrow> lm_wf (forget_txn txn lm)"
  by (auto simp: lm_wf_def)

text \<open>
  \<open>releasing txn held lm lm'\<close>: a call \<open>ReleaseAll(txn)\<close> that still has the rows \<open>held\<close>
  to unlock can end in \<open>lm'\<close>. Between its critical sections other transactions call the lock
  manager, in \<open>ReleaseAll\<close> calls of their own as well: the last critical section of such a call is
  \<open>forget_step\<close>, which the transaction reaches when it holds no lock any more (\<open>releasing_ok\<close>).
\<close>

inductive lock_step :: "txn_id_t \<Rightarrow> LockManager \<Rightarrow> LockManager \<Rightarrow> bool" where
  shared_step: "lock_step txn lm (snd (LockManager_LockShared txn rid lm))"
| exclusive_step: "lock_step txn lm (snd (LockManager_LockExclusive txn rid lm))"
| unlock_step: "lock_step txn lm (snd (LockManager_Unlock txn rid lm))"
| forget_step: "\<forall>r mode. \<not> holds lm txn r mode \<Longrightarrow> lock_step txn lm (forget_txn txn lm)"

inductive releasing :: "txn_id_t \<Rightarrow> RecordId list \<Rightarrow> LockManager \<Rightarrow> LockManager \<Rightarrow> bool" where
  finish: "releasing txn [] lm (forget_txn txn lm)"
| unlock: "releasing txn held (snd (LockManager_Unlock txn rid lm)) lm' \<Longrightarrow> releasing txn (rid # held) lm lm'"
| other: "lock_step other lm lm1 \<Longrightarrow> other \<noteq> txn \<Longrightarrow> other \<noteq> kInvalidTxnId \<Longrightarrow> releasing txn held lm1 lm' \<Longrightarrow>
    releasing txn held lm lm'"

lemma lock_step_wf: "lock_step txn lm lm' \<Longrightarrow> txn \<noteq> kInvalidTxnId \<Longrightarrow> lm_wf lm \<Longrightarrow> lm_wf lm'"
  by (erule lock_step.cases) (auto simp: preserves forget_txn_wf)

lemma lock_step_other:
  assumes "lock_step other lm lm'" and "other \<noteq> kInvalidTxnId" and "txn \<noteq> other"
  shows "holds lm' txn r mode \<longleftrightarrow> holds lm txn r mode"
  using assms(1)
proof cases
  case (shared_step rid)
  with assms(3) show ?thesis by (auto simp: LockShared_holds)
next
  case (exclusive_step rid)
  then show ?thesis
    using LockExclusive_ok [of other rid lm] assms(2,3) by (auto simp: LockExclusive_holds)
next
  case (unlock_step rid)
  with assms(3) show ?thesis by (simp add: Unlock_holds)
next
  case forget_step
  then show ?thesis by simp
qed

lemma ReleaseAll_releasing:
  "releasing txn (locked_rows txn lm) lm (LockManager_ReleaseAll txn lm)"
proof -
  have "releasing txn held lm' (forget_txn txn (fold (\<lambda>rid lm. snd (LockManager_Unlock txn rid lm)) held lm'))" for held lm'
    by (induction held arbitrary: lm') (auto intro: releasing.intros)
  then show ?thesis
    using releasing.finish [of txn lm]
    by (cases "txn_locks lm txn") (auto simp: LockManager_ReleaseAll_def locked_rows_def forget_txn_def Let_def fun_upd_idem)
qed

section \<open>Correctness of deadlock detection\<close>

definition edges :: "WaitForGraph \<Rightarrow> (txn_id_t \<times> txn_id_t) set" where
  "edges g = {(v, w). \<exists>ns. map_of g v = Some ns \<and> w \<in> set ns}"

definition is_cycle :: "WaitForGraph \<Rightarrow> txn_id_t list \<Rightarrow> bool" where
  "is_cycle g c \<longleftrightarrow> c \<noteq> [] \<and> distinct c \<and> successively (\<lambda>v w. (v, w) \<in> edges g) c \<and> (last c, hd c) \<in> edges g"

abbreviation black :: "DfsState \<Rightarrow> txn_id_t set" where
  "black s \<equiv> {v. color_of v s = kBlack}"

definition dfs_inv :: "WaitForGraph \<Rightarrow> DfsState \<Rightarrow> bool" where
  "dfs_inv g s \<longleftrightarrow>
     {v. color_of v s = kGray} = set (dfs_stack s) \<and> distinct (dfs_stack s) \<and>
     successively (\<lambda>v w. (v, w) \<in> edges g) (dfs_stack s) \<and>
     edges g `` black s \<subseteq> black s \<and>
     (\<forall>v \<in> black s. (v, v) \<notin> (edges g)\<^sup>+)"

text \<open>The nodes of the graph that have not been reached yet bound the depth of the recursion.\<close>

definition nodes :: "WaitForGraph \<Rightarrow> txn_id_t set" where
  "nodes g = set (concat (map (\<lambda>(v, ns). v # ns) g))"

definition whites :: "WaitForGraph \<Rightarrow> DfsState \<Rightarrow> txn_id_t set" where
  "whites g s = {v \<in> nodes g. color_of v s = kWhite}"

text \<open>What a part of the search that found no cycle leaves behind.\<close>

definition explored :: "WaitForGraph \<Rightarrow> DfsState \<Rightarrow> DfsState \<Rightarrow> bool" where
  "explored g s s' \<longleftrightarrow> dfs_inv g s' \<and> dfs_stack s' = dfs_stack s \<and> black s \<subseteq> black s' \<and> whites g s' \<subseteq> whites g s"

definition found :: "WaitForGraph \<Rightarrow> (bool \<times> DfsState) option \<Rightarrow> (DfsState \<Rightarrow> bool) \<Rightarrow> bool" where
  "found g r Q = (case r of None \<Rightarrow> False | Some (True, s') \<Rightarrow> is_cycle g (cycle_out s') | Some (False, s') \<Rightarrow> Q s')"

lemma found_simps [simp]:
  "\<not> found g None Q" "found g (Some (True, s)) Q \<longleftrightarrow> is_cycle g (cycle_out s)" "found g (Some (False, s)) Q \<longleftrightarrow> Q s"
  by (simp_all add: found_def)

lemma foundE:
  assumes "found g r Q"
  obtains (cycle) s' where "r = Some (True, s')" "is_cycle g (cycle_out s')"
  | (clean) s' where "r = Some (False, s')" "Q s'"
  using assms by (auto simp: found_def split: option.splits prod.splits bool.splits)

lemma found_mono: "found g r Q \<Longrightarrow> (\<And>s'. Q s' \<Longrightarrow> Q' s') \<Longrightarrow> found g r Q'"
  by (erule foundE) simp_all

lemma finite_nodes [simp]: "finite (nodes g)"
  by (simp add: nodes_def)

lemma finite_whites [simp]: "finite (whites g s)"
  by (simp add: whites_def)

lemma edges_nodes: "(v, w) \<in> edges g \<Longrightarrow> v \<in> nodes g \<and> w \<in> nodes g"
  by (auto simp: edges_def nodes_def dest: map_of_SomeD)

lemma gray_stack: "dfs_inv g s \<Longrightarrow> color_of v s = kGray \<longleftrightarrow> v \<in> set (dfs_stack s)"
  by (auto simp: dfs_inv_def)

lemma back_edge_cycle:
  assumes "dfs_inv g s" and "color_of v s = kGray" and "(last (dfs_stack s), v) \<in> edges g"
  shows "is_cycle g (dropWhile (\<lambda>w. w \<noteq> v) (dfs_stack s))"
proof -
  have "v \<in> set (dfs_stack s)" using gray_stack [OF assms(1)] assms(2) by blast
  then obtain xs ys where st: "dfs_stack s = xs @ v # ys" "v \<notin> set xs" by (metis split_list_first)
  then have "dropWhile (\<lambda>w. w \<noteq> v) (dfs_stack s) = v # ys"
    by (induction xs arbitrary: s) (auto simp: dropWhile_append)
  with st assms(1,3) show ?thesis
    by (auto simp: is_cycle_def dfs_inv_def successively_append_iff)
qed

lemma explored_refl: "dfs_inv g s \<Longrightarrow> explored g s s"
  by (simp add: explored_def)

lemma explored_trans: "explored g s s1 \<Longrightarrow> explored g s1 s2 \<Longrightarrow> explored g s s2"
  by (auto simp: explored_def)

lemma explored_card: "explored g s s1 \<Longrightarrow> card (whites g s1) \<le> card (whites g s)"
  by (intro card_mono) (simp_all add: explored_def)

lemma found_step:
  assumes "explored g s s1" and "v \<in> black s1"
    and "found g r (\<lambda>s'. explored g s1 s' \<and> set vs \<subseteq> black s')"
  shows "found g r (\<lambda>s'. explored g s s' \<and> set (v # vs) \<subseteq> black s')"
  using assms(3)
proof (rule found_mono)
  fix s' assume s': "explored g s1 s' \<and> set vs \<subseteq> black s'"
  then have "v \<in> black s'" using assms(2) unfolding explored_def by blast
  with s' explored_trans [OF assms(1), of s'] show "explored g s s' \<and> set (v # vs) \<subseteq> black s'" by simp
qed

lemma visit_neighbors_ok:
  assumes vis: "\<And>v s. \<lbrakk>dfs_inv g s; color_of v s = kWhite; (last (dfs_stack s), v) \<in> edges g;
      card (whites g s) \<le> fuel\<rbrakk> \<Longrightarrow> found g (vis v s) (\<lambda>s'. explored g s s' \<and> v \<in> black s')"
    and "dfs_inv g s" and "\<forall>n \<in> set ns. (last (dfs_stack s), n) \<in> edges g" and "card (whites g s) \<le> fuel"
  shows "found g (visit_neighbors vis ns s) (\<lambda>s'. explored g s s' \<and> set ns \<subseteq> black s')"
  using assms(2-4)
proof (induction ns arbitrary: s)
  case Nil
  then show ?case by (simp add: found_def explored_refl)
next
  case (Cons n ns)
  have step: "found g (visit_neighbors vis ns s1) (\<lambda>s'. explored g s s' \<and> set (n # ns) \<subseteq> black s')"
    if e: "explored g s s1" "n \<in> black s1" for s1
    using e(1) explored_card [OF e(1)] Cons.prems
    by (intro found_step [OF e] Cons.IH) (simp_all add: explored_def)
  show ?case
  proof (cases "color_of n s")
    case kGray
    with back_edge_cycle [OF Cons.prems(1) kGray] Cons.prems(2) show ?thesis by (simp add: found_def)
  next
    case kWhite
    have "found g (vis n s) (\<lambda>s'. explored g s s' \<and> n \<in> black s')"
      using vis [OF Cons.prems(1) kWhite] Cons.prems(2,3) by simp
    then show ?thesis by (cases rule: foundE) (use step kWhite in simp_all)
  next
    case kBlack
    with step [OF explored_refl [OF Cons.prems(1)]] show ?thesis by simp
  qed
qed

lemma enter_inv:
  assumes "dfs_inv g s" and "color_of v s = kWhite" and "dfs_stack s = [] \<or> (last (dfs_stack s), v) \<in> edges g"
  shows "dfs_inv g (s\<lparr>color := (color s)(v \<mapsto> kGray), dfs_stack := dfs_stack s @ [v]\<rparr>)"
proof -
  let ?s = "s\<lparr>color := (color s)(v \<mapsto> kGray), dfs_stack := dfs_stack s @ [v]\<rparr>"
  have col: "color_of w ?s = (if w = v then kGray else color_of w s)" for w
    by (simp add: color_of_def)
  have "v \<notin> set (dfs_stack s)" using assms(2) gray_stack [OF assms(1), of v] by auto
  moreover have "black ?s = black s" using assms(2) by (auto simp: col)
  moreover have "{w. color_of w ?s = kGray} = insert v {w. color_of w s = kGray}" by (auto simp: col)
  ultimately show ?thesis
    using assms(1,3) by (auto simp: dfs_inv_def successively_append_iff)
qed

text \<open>A node whose successors are all finished can be finished: no cycle leads through it.\<close>

lemma leave_inv:
  assumes inv: "dfs_inv g s" and st: "dfs_stack s = st @ [v]" and succ: "edges g `` {v} \<subseteq> black s"
  shows "dfs_inv g (s\<lparr>dfs_stack := st, color := (color s)(v \<mapsto> kBlack)\<rparr>)"
proof -
  let ?s = "s\<lparr>dfs_stack := st, color := (color s)(v \<mapsto> kBlack)\<rparr>"
  have col: "color_of w ?s = (if w = v then kBlack else color_of w s)" for w
    by (simp add: color_of_def)
  have blk: "black ?s = insert v (black s)" by (auto simp: col)
  have "color_of v s = kGray" using gray_stack [OF inv] st by simp
  then have v: "v \<notin> black s" "v \<notin> set st" using inv st by (auto simp: dfs_inv_def)
  have closed: "edges g `` black s \<subseteq> black s" using inv by (simp add: dfs_inv_def)
  have "(v, v) \<notin> (edges g)\<^sup>+"
  proof
    assume "(v, v) \<in> (edges g)\<^sup>+"
    then obtain w where "(v, w) \<in> edges g" "(w, v) \<in> (edges g)\<^sup>*" by (meson tranclD)
    moreover from this succ have "w \<in> black s" by blast
    ultimately have "v \<in> black s" using Image_closed_trancl [OF closed] by blast
    with v show False by simp
  qed
  moreover have "{w. color_of w ?s = kGray} = set st"
    using inv st v(2) by (auto simp: dfs_inv_def col)
  ultimately show ?thesis
    using inv st succ closed unfolding dfs_inv_def blk by (auto simp: successively_append_iff)
qed

lemma visit_ok:
  assumes "dfs_inv g s" and "color_of v s = kWhite" and "dfs_stack s = [] \<or> (last (dfs_stack s), v) \<in> edges g"
    and "v \<in> nodes g" and "card (whites g s) \<le> fuel"
  shows "found g (visit fuel g v s) (\<lambda>s'. explored g s s' \<and> v \<in> black s')"
  using assms
proof (induction fuel arbitrary: v s)
  case 0
  then have "v \<in> whites g s" by (simp add: whites_def)
  with 0 show ?case by (metis card_0_eq empty_iff finite_whites le_zero_eq)
next
  case (Suc fuel)
  let ?s1 = "s\<lparr>color := (color s)(v \<mapsto> kGray), dfs_stack := dfs_stack s @ [v]\<rparr>"
  let ?ns = "case map_of g v of None \<Rightarrow> [] | Some ns \<Rightarrow> ns"
  have ns: "set ?ns = edges g `` {v}" by (cases "map_of g v") (auto simp: edges_def)
  have inv1: "dfs_inv g ?s1" by (rule enter_inv [OF Suc.prems(1-3)])
  have wh: "whites g ?s1 = whites g s - {v}" by (auto simp: whites_def color_of_def)
  have "v \<in> whites g s" using Suc.prems by (simp add: whites_def)
  then have "card (whites g ?s1) \<le> fuel" using Suc.prems(5) by (simp add: wh)
  moreover have "\<forall>n \<in> set ?ns. (last (dfs_stack ?s1), n) \<in> edges g" using ns by auto
  ultimately have "found g (visit_neighbors (visit fuel g) ?ns ?s1) (\<lambda>s'. explored g ?s1 s' \<and> set ?ns \<subseteq> black s')" (is ?A)
    using inv1 by (intro visit_neighbors_ok [where fuel = fuel] Suc.IH) (auto dest: edges_nodes)
  have leave: "explored g s s3 \<and> v \<in> black s3"
    if e: "explored g ?s1 s2" "set ?ns \<subseteq> black s2"
      and s3: "s3 = s2\<lparr>dfs_stack := butlast (dfs_stack s2), color := (color s2)(v \<mapsto> kBlack)\<rparr>" for s2 s3
  proof -
    have st: "dfs_stack s2 = dfs_stack s @ [v]" "dfs_inv g s2" using e(1) by (simp_all add: explored_def)
    have "dfs_inv g s3" unfolding s3 using leave_inv [OF st(2,1)] e(2) ns st(1) by simp
    moreover have "black s \<subseteq> black s3"
      using e(1) Suc.prems(2) by (auto simp: explored_def s3 color_of_def)
    moreover have "whites g s3 \<subseteq> whites g s"
      using e(1) by (auto simp: explored_def s3 whites_def color_of_def split: if_splits)
    ultimately show ?thesis using st by (simp add: explored_def s3 color_of_def)
  qed
  from \<open>?A\<close> show ?case by (cases rule: foundE) (use leave in \<open>simp_all add: Let_def\<close>)
qed

lemma detect_loop_ok:
  assumes "dfs_inv g s" and "dfs_stack s = []" and "set vs \<subseteq> nodes g" and "card (whites g s) \<le> fuel"
  shows "found g (detect_loop fuel g vs s) (\<lambda>s'. explored g s s' \<and> set vs \<subseteq> black s')"
  using assms
proof (induction vs arbitrary: s)
  case Nil
  then show ?case by (simp add: found_def explored_refl)
next
  case (Cons v vs)
  have step: "found g (detect_loop fuel g vs s1) (\<lambda>s'. explored g s s' \<and> set (v # vs) \<subseteq> black s')"
    if e: "explored g s s1" "v \<in> black s1" for s1
    using e(1) explored_card [OF e(1)] Cons.prems
    by (intro found_step [OF e] Cons.IH) (simp_all add: explored_def)
  show ?case
  proof (cases "color_of v s")
    case kGray
    then show ?thesis using gray_stack [OF Cons.prems(1)] Cons.prems(2) by simp
  next
    case kWhite
    have "found g (visit fuel g v s) (\<lambda>s'. explored g s s' \<and> v \<in> black s')"
      using visit_ok [OF Cons.prems(1) kWhite] Cons.prems(2-4) by simp
    then show ?thesis by (cases rule: foundE) (use step kWhite in simp_all)
  next
    case kBlack
    with step [OF explored_refl [OF Cons.prems(1)]] show ?thesis by simp
  qed
qed

lemma black_acyclic:
  assumes "dfs_inv g s" and "fst ` set g \<subseteq> black s" and "is_cycle g c"
  shows False
proof -
  have c: "c \<noteq> []" "successively (\<lambda>v w. (v, w) \<in> edges g) c" "(last c, hd c) \<in> edges g"
    using assms(3) by (simp_all add: is_cycle_def)
  have "(hd c, v) \<in> (edges g)\<^sup>*" if "v \<in> set c" for v
    using c(2) that
  proof (induction c)
    case (Cons w ws)
    then show ?case by (cases ws) (auto intro: converse_rtrancl_into_rtrancl)
  qed simp
  then have "(hd c, last c) \<in> (edges g)\<^sup>*" using c(1) by simp
  then have "(hd c, hd c) \<in> (edges g)\<^sup>+" using c(3) by (rule rtrancl_into_trancl1)
  moreover have "hd c \<in> fst ` set g"
  proof -
    from \<open>(hd c, hd c) \<in> (edges g)\<^sup>+\<close> obtain w where "(hd c, w) \<in> edges g" by (meson tranclD)
    then show ?thesis by (auto simp: edges_def dest!: map_of_SomeD intro: rev_image_eqI)
  qed
  ultimately show False using assms(1,2) by (auto simp: dfs_inv_def)
qed

section \<open>Properties\<close>

text \<open>
  C31. Deadlock detection is exact: on every wait-for graph the search terminates within its recursion
  bound; it reports a deadlock if and only if the graph has a cycle, and then the transactions it
  returns are distinct and wait for each other in a circle.
\<close>

theorem DetectDeadlock_correct:
  "\<exists>found c. LockManager_DetectDeadlock g = Some (found, c) \<and>
     (if found then is_cycle g c else \<not> (\<exists>c'. is_cycle g c'))"
proof -
  let ?s = "\<lparr>color = Map.empty, dfs_stack = [], cycle_out = []\<rparr>"
  let ?n = "Suc (length (concat (map (\<lambda>(v, ns). v # ns) g)))"
  have inv: "dfs_inv g ?s" by (simp add: dfs_inv_def color_of_def)
  have "card (whites g ?s) \<le> card (nodes g)" by (intro card_mono) (auto simp: whites_def)
  also have "\<dots> \<le> ?n" unfolding nodes_def using card_length le_SucI by blast
  finally have "found g (detect_loop ?n g (map fst g) ?s) (\<lambda>s'. explored g ?s s' \<and> set (map fst g) \<subseteq> black s')"
    by (intro detect_loop_ok [OF inv]) (auto simp: nodes_def)
  then show ?thesis
  proof (cases rule: foundE)
    case (cycle s')
    then show ?thesis by (auto simp: LockManager_DetectDeadlock_def)
  next
    case (clean s')
    then have "dfs_inv g s'" "fst ` set g \<subseteq> black s'" by (simp_all add: explored_def)
    then have "\<not> is_cycle g c" for c using black_acyclic by blast
    with clean show ?thesis by (auto simp: LockManager_DetectDeadlock_def)
  qed
qed

text \<open>The states the lock manager can be in, with calls of \<open>ReleaseAll\<close> interleaved with others.\<close>

inductive lm_reachable :: "LockManager \<Rightarrow> bool" where
  init: "lm_reachable LockManager_new"
| step: "lm_reachable lm \<Longrightarrow> txn \<noteq> kInvalidTxnId \<Longrightarrow> lock_step txn lm lm' \<Longrightarrow> lm_reachable lm'"
| release: "lm_reachable lm \<Longrightarrow> txn \<noteq> kInvalidTxnId \<Longrightarrow> releasing txn (locked_rows txn lm) lm lm' \<Longrightarrow>
    lm_reachable lm'"

lemma releasing_ok:
  assumes "releasing txn held lm lm'" and "txn \<noteq> kInvalidTxnId" and "lm_wf lm"
    and "\<And>r mode. holds lm txn r mode \<Longrightarrow> r \<in> set held"
  shows "lm_wf lm' \<and> (\<forall>r mode. \<not> holds lm' txn r mode)"
  using assms
proof (induction rule: releasing.induct)
  case (finish txn lm)
  then have "\<not> holds lm txn r mode" for r mode by fastforce
  with finish.prems(2) show ?case by (simp add: forget_txn_wf)
next
  case (unlock txn held rid lm lm')
  show ?case
    by (rule unlock.IH) (use unlock.prems in \<open>auto simp: preserves Unlock_holds\<close>)
next
  case (other oth lm lm1 txn held lm')
  have "holds lm1 txn r mode \<longleftrightarrow> holds lm txn r mode" for r mode
    by (rule lock_step_other [OF other.hyps(1,3)]) (use other.hyps(2) in simp)
  with other.IH [OF other.prems(1) lock_step_wf [OF other.hyps(1,3) other.prems(2)]] other.prems(3)
  show ?case by blast
qed

lemma locked_rows_cover:
  "lm_wf lm \<Longrightarrow> txn \<noteq> kInvalidTxnId \<Longrightarrow> holds lm txn r mode \<Longrightarrow> r \<in> set (locked_rows txn lm)"
  using lm_wfD(3) by blast

lemma lm_reachable_wf: "lm_reachable lm \<Longrightarrow> lm_wf lm"
proof (induction rule: lm_reachable.induct)
  case init
  then show ?case by (rule lm_wf_new)
next
  case (step lm txn lm')
  then show ?case by (blast intro: lock_step_wf)
next
  case (release lm txn lm')
  then show ?case using releasing_ok [OF release.hyps(3,2) release.IH] locked_rows_cover by blast
qed

text \<open>
  C32. Mutual exclusion: in every reachable state of the lock manager, an exclusive lock on a row
  excludes every lock of another transaction on it.
\<close>

theorem lock_exclusion:
  assumes "lm_reachable lm" and "holds lm txn rid Exclusive" and "holds lm other rid mode"
  shows "other = txn"
  using lm_wfD(1) [OF lm_reachable_wf [OF assms(1)], of rid] assms(2,3)
  by (cases mode) (auto simp: entry_ok_def)

theorem lock_exclusion_witness:
  "let rid = \<lparr>rid_page_id = 1, rid_slot_id = 0\<rparr>; lm = snd (LockManager_LockExclusive 5 rid LockManager_new)
   in holds lm 5 rid Exclusive \<and> (\<forall>mode. \<not> holds lm 6 rid mode)"
proof -
  let ?rid = "\<lparr>rid_page_id = 1, rid_slot_id = 0\<rparr>"
  let ?lm = "snd (LockManager_LockExclusive 5 ?rid LockManager_new)"
  have r: "lm_reachable ?lm"
    by (rule lm_reachable.step [OF lm_reachable.init, of 5])
      (simp_all add: kInvalidTxnId_def exclusive_step)
  have h: "holds ?lm 5 ?rid Exclusive"
    by (simp add: LockManager_LockExclusive_def LockManager_new_def lock_entry_def kInvalidTxnId_def
        set_entry_def add_txn_lock_def)
  show ?thesis using lock_exclusion [OF r h, of 6] h by (auto simp: Let_def simp del: holds_simps)
qed

text \<open>
  C33. The lock calls implement the lock rules, for every state and on every branch. A shared lock is
  granted unless another transaction holds the exclusive lock, an exclusive lock unless another
  transaction holds any lock, where an own shared lock is upgraded; a refused call changes no
  lock. Unlocking gives up exactly the caller's locks on the row and fails if there were none.
\<close>

theorem lock_calls_refine:
  assumes "txn \<noteq> kInvalidTxnId"
  shows "(case LockManager_LockShared txn rid lm of (st, lm') \<Rightarrow>
      status_code st = (if \<forall>other. other \<noteq> txn \<longrightarrow> \<not> holds lm other rid Exclusive then kOk else kConflict) \<and>
      holds lm' = (if st = Status_OK then (\<lambda>t r mode. holds lm t r mode \<or> t = txn \<and> r = rid \<and> mode = Shared)
                   else holds lm)) \<and>
    (case LockManager_LockExclusive txn rid lm of (st, lm') \<Rightarrow>
      status_code st = (if \<forall>other mode. other \<noteq> txn \<longrightarrow> \<not> holds lm other rid mode then kOk else kConflict) \<and>
      holds lm' = (if st = Status_OK
                   then (\<lambda>t r mode. if r = rid then t = txn \<and> mode = Exclusive else holds lm t r mode)
                   else holds lm)) \<and>
    (case LockManager_Unlock txn rid lm of (st, lm') \<Rightarrow>
      status_code st = (if \<exists>mode. holds lm txn rid mode then kOk else kNotFound) \<and>
      holds lm' = (\<lambda>t r mode. holds lm t r mode \<and> \<not> (t = txn \<and> r = rid)))"
proof -
  have st: "status_code (fst (LockManager_LockShared txn rid lm)) =
        (if fst (LockManager_LockShared txn rid lm) = Status_OK then kOk else kConflict)"
      "status_code (fst (LockManager_LockExclusive txn rid lm)) =
        (if fst (LockManager_LockExclusive txn rid lm) = Status_OK then kOk else kConflict)"
      "status_code (fst (LockManager_Unlock txn rid lm)) =
        (if fst (LockManager_Unlock txn rid lm) = Status_OK then kOk else kNotFound)"
    by (simp_all add: LockManager_LockShared_def LockManager_LockExclusive_def LockManager_Unlock_def
        Let_def status_defs split: option.split)
  show ?thesis
    unfolding case_prod_unfold
    by ((intro conjI ext, simp_all only: st LockShared_ok LockExclusive_ok Unlock_ok [OF assms] LockShared_holds
        LockExclusive_holds [OF assms] Unlock_holds simp_thms split: if_split); blast)
qed

theorem lock_calls_refine_witness:
  "let rid = \<lparr>rid_page_id = 1, rid_slot_id = 0\<rparr>
   in (5 :: txn_id_t) \<noteq> kInvalidTxnId \<and> status_code (fst (LockManager_Unlock 5 rid LockManager_new)) = kNotFound"
proof -
  have n: "(5 :: txn_id_t) \<noteq> kInvalidTxnId" by (simp add: kInvalidTxnId_def)
  have "\<not> holds LockManager_new 5 rid mode" for rid mode
    by (cases mode) (simp_all add: LockManager_new_def lock_entry_def kInvalidTxnId_def)
  with n lock_calls_refine [OF n, where rid = "\<lparr>rid_page_id = 1, rid_slot_id = 0\<rparr>" and lm = LockManager_new] show ?thesis
    by (simp add: Let_def case_prod_unfold)
qed

text \<open>
  C34. \<open>ReleaseAll\<close> gives up all locks of a transaction although it is not atomic: it copies the set of
  locked rows and unlocks them one by one. Whatever other transactions lock and unlock between
  these steps, at the end the transaction holds no lock; and if nothing interferes, no lock of
  another transaction has changed.
\<close>

theorem ReleaseAll_releases:
  assumes "lm_reachable lm" and "txn \<noteq> kInvalidTxnId" and "releasing txn (locked_rows txn lm) lm lm'"
  shows "\<not> holds lm' txn rid mode \<and>
    holds (LockManager_ReleaseAll txn lm) = (\<lambda>t r mode. holds lm t r mode \<and> t \<noteq> txn)"
proof -
  note wf = lm_reachable_wf [OF assms(1)]
  have none: "\<not> holds lm1 txn r mode" if "releasing txn (locked_rows txn lm) lm lm1" for lm1 r mode
    using releasing_ok [OF that assms(2) wf] locked_rows_cover [OF wf assms(2)] by blast
  have unl: "holds (fold (\<lambda>rid lm. snd (LockManager_Unlock txn rid lm)) held lm) t r mode = holds lm t r mode"
    if "t \<noteq> txn" for held t r mode
    using that by (induction held arbitrary: lm) (simp_all add: Unlock_holds)
  have "holds (LockManager_ReleaseAll txn lm) t r mode = holds lm t r mode" if "t \<noteq> txn" for t r mode
    using unl [OF that]
    by (auto simp: LockManager_ReleaseAll_def Let_def forget_txn_def [symmetric] split: option.splits)
  with none [OF ReleaseAll_releasing]
  have "holds (LockManager_ReleaseAll txn lm) t r mode \<longleftrightarrow> holds lm t r mode \<and> t \<noteq> txn" for t r mode
    by (cases "t = txn") simp_all
  with none [OF assms(3)] show ?thesis by (intro conjI ext) blast+
qed

theorem ReleaseAll_releases_witness:
  "let rid = \<lparr>rid_page_id = 1, rid_slot_id = 0\<rparr>; lm = snd (LockManager_LockExclusive 5 rid LockManager_new)
   in holds lm 5 rid Exclusive \<and> \<not> holds (LockManager_ReleaseAll 5 lm) 5 rid Exclusive"
proof -
  let ?rid = "\<lparr>rid_page_id = 1, rid_slot_id = 0\<rparr>"
  let ?lm = "snd (LockManager_LockExclusive 5 ?rid LockManager_new)"
  have r: "lm_reachable ?lm"
    by (rule lm_reachable.step [OF lm_reachable.init, of 5])
      (simp_all add: kInvalidTxnId_def exclusive_step)
  have h: "holds ?lm 5 ?rid Exclusive"
    by (simp add: LockManager_LockExclusive_def LockManager_new_def lock_entry_def kInvalidTxnId_def
        set_entry_def add_txn_lock_def)
  have "(5 :: txn_id_t) \<noteq> kInvalidTxnId" by (simp add: kInvalidTxnId_def)
  from ReleaseAll_releases [OF r this ReleaseAll_releasing] h show ?thesis
    by (simp add: Let_def del: holds_simps)
qed

end
