(* ===== verification/Wal.thy ===== *)
theory Wal
  imports Transactions Page_Manager
begin

text \<open>
  The write-ahead log (\<open>src/recovery/wal_record.hpp\<close>, \<open>src/recovery/wal_manager.cpp\<close>): records are
  appended to a file, each preceded by its length, and read back from the start. The stream is
  the one of the page manager, with its sticky state bits and its schedule of device faults. A
  result \<open>None\<close> of \<open>ReadAll\<close> stands for a read beyond a buffer, which happens on a record
  shorter than its fixed part.
\<close>

type_synonym lsn_t = "64 word"

definition kInvalidLsn :: lsn_t where
  "kInvalidLsn = 0"

text \<open>An enumeration with a fixed underlying type: a byte read from the file may be none of its values.\<close>

datatype WALRecordType = kUpdate | kCommit | kAbort | kCheckpoint | kUnnamed byte

definition type_byte :: "WALRecordType \<Rightarrow> byte" where
  "type_byte t = (case t of kUpdate \<Rightarrow> 1 | kCommit \<Rightarrow> 2 | kAbort \<Rightarrow> 3 | kCheckpoint \<Rightarrow> 4 | kUnnamed b \<Rightarrow> b)"

definition byte_type :: "byte \<Rightarrow> WALRecordType" where
  "byte_type b = (if b = 1 then kUpdate else if b = 2 then kCommit else if b = 3 then kAbort
     else if b = 4 then kCheckpoint else kUnnamed b)"

record WALRecord =
  wr_lsn :: lsn_t
  wr_type :: WALRecordType
  wr_txn_id :: txn_id_t
  wr_page_id :: page_id_t
  before_image :: "byte list"
  after_image :: "byte list"

definition WALRecord_default :: WALRecord where
  "WALRecord_default = \<lparr>wr_lsn = kInvalidLsn, wr_type = kUpdate, wr_txn_id = kInvalidTxnId,
     wr_page_id = kInvalidPageId, before_image = [], after_image = []\<rparr>"

record WALManager =
  wal_file :: fstream
  wal_next_lsn :: lsn_t

definition fs_seekp_end :: "fstream \<Rightarrow> fstream" where
  "fs_seekp_end f = (if fs_fail f then f else f\<lparr>fs_pos := length (fs_bytes f)\<rparr>)"

section \<open>Appending\<close>

definition wal_body :: "WALRecord \<Rightarrow> byte list" where
  "wal_body r =
     (let fixed = write_at 17 (wr_page_id r) (write_at 9 (wr_txn_id r)
            ((write_at 0 (wr_lsn r) (replicate 21 0))[8 := type_byte (wr_type r)]))
      in fixed @ (if wr_type r = kUpdate then before_image r @ after_image r else []))"

definition WALManager_AppendRecord :: "WALRecord \<Rightarrow> WALManager \<Rightarrow> lsn_t \<times> WALManager" where
  "WALManager_AppendRecord record wal =
     (let r = record\<lparr>wr_lsn := wal_next_lsn wal\<rparr>;
          buf = wal_body r;
          len_buf = WriteFixed (word_of_nat (length buf) :: u32)
      in (wr_lsn r,
          \<lparr>wal_file = fs_write buf (fs_write len_buf (fs_seekp_end (wal_file wal))),
           wal_next_lsn = wal_next_lsn wal + 1\<rparr>))"

definition WALManager_AppendUpdate ::
  "txn_id_t \<Rightarrow> page_id_t \<Rightarrow> Page \<Rightarrow> Page \<Rightarrow> WALManager \<Rightarrow> lsn_t \<times> WALManager" where
  "WALManager_AppendUpdate txn page_id before after wal =
     WALManager_AppendRecord
       (WALRecord_default\<lparr>wr_type := kUpdate, wr_txn_id := txn, wr_page_id := page_id,
          before_image := take kPageSize before, after_image := take kPageSize after\<rparr>) wal"

definition WALManager_AppendCommit :: "txn_id_t \<Rightarrow> WALManager \<Rightarrow> lsn_t \<times> WALManager" where
  "WALManager_AppendCommit txn wal =
     WALManager_AppendRecord (WALRecord_default\<lparr>wr_type := kCommit, wr_txn_id := txn\<rparr>) wal"

definition WALManager_AppendAbort :: "txn_id_t \<Rightarrow> WALManager \<Rightarrow> lsn_t \<times> WALManager" where
  "WALManager_AppendAbort txn wal =
     WALManager_AppendRecord (WALRecord_default\<lparr>wr_type := kAbort, wr_txn_id := txn\<rparr>) wal"

definition WALManager_AppendCheckpoint :: "WALManager \<Rightarrow> lsn_t \<times> WALManager" where
  "WALManager_AppendCheckpoint wal =
     WALManager_AppendRecord (WALRecord_default\<lparr>wr_type := kCheckpoint\<rparr>) wal"

section \<open>Reading\<close>

text \<open>One record out of its buffer, which holds at least the 21 bytes of the fixed part.\<close>

definition wal_record_of :: "byte list \<Rightarrow> WALRecord Result" where
  "wal_record_of buf =
     (let r = WALRecord_default\<lparr>wr_lsn := read_at 0 buf, wr_type := byte_type (buf ! 8),
                wr_txn_id := read_at 9 buf, wr_page_id := read_at 17 buf\<rparr>
      in if wr_type r = kUpdate
         then if length buf < 21 + 2 * kPageSize
              then Inl (Status_Corruption ''WAL: truncated update record images'')
              else Inr (r\<lparr>before_image := peek 21 kPageSize buf,
                          after_image := peek (21 + kPageSize) kPageSize buf\<rparr>)
         else Inr r)"

text \<open>The loop of \<open>ReadAll\<close> on the bytes of the file that are still to be read.\<close>

function wal_read_loop :: "byte list \<Rightarrow> WALRecord list \<Rightarrow> WALRecord list Result option" where
  "wal_read_loop bs records =
     (if length bs < 4 then Some (Inr records)
      else let len = unat (ReadFixed (take 4 bs) :: u32);
               buf = take len (drop 4 bs)
           in if length buf < len
              then Some (Inl (Status_Corruption ''WAL: truncated record (possible mid-write crash)''))
              else if length buf < 21 then None
              else case wal_record_of buf of
                  Inl e \<Rightarrow> Some (Inl e)
                | Inr r \<Rightarrow> wal_read_loop (drop (4 + len) bs) (records @ [r]))"
  by pat_completeness auto
termination
  by (relation "measure (length \<circ> fst)") auto

declare wal_read_loop.simps [simp del]

definition WALManager_ReadAll :: "WALManager \<Rightarrow> WALRecord list Result option" where
  "WALManager_ReadAll wal =
     (if \<not> may_read (fs_access (wal_file wal)) then Some (Inr [])
      else wal_read_loop (fs_bytes (wal_file wal)) [])"

text \<open>
  The constructor; \<open>contents\<close> is what the path holds before the call, and an absent file is
  created empty. A log that cannot be read leaves the counter at 1.
\<close>

definition WALManager_open :: "file_access \<Rightarrow> byte list option \<Rightarrow> nat option list \<Rightarrow> WALManager option" where
  "WALManager_open access contents faults =
     (let wal = \<lparr>wal_file = open_or_create access contents faults, wal_next_lsn = 1\<rparr>
      in case WALManager_ReadAll wal of
           None \<Rightarrow> None
         | Some existing \<Rightarrow>
             let next = (case existing of
                     Inl e \<Rightarrow> 1
                   | Inr records \<Rightarrow> if records = [] then 1 else wr_lsn (last records) + 1)
             in Some \<lparr>wal_file = fs_seekp_end (wal_file wal), wal_next_lsn = next\<rparr>)"

text \<open>The destructor: what the file holds afterwards.\<close>

definition WALManager_close :: "WALManager \<Rightarrow> byte list" where
  "WALManager_close wal = fs_bytes (wal_file wal)"

section \<open>Well-formed records\<close>

definition record_wf :: "WALRecord \<Rightarrow> bool" where
  "record_wf r \<longleftrightarrow> byte_type (type_byte (wr_type r)) = wr_type r \<and>
     (if wr_type r = kUpdate then length (before_image r) = kPageSize \<and> length (after_image r) = kPageSize
      else before_image r = [] \<and> after_image r = [])"

definition wal_bytes :: "WALRecord \<Rightarrow> byte list" where
  "wal_bytes r = WriteFixed (word_of_nat (length (wal_body r)) :: u32) @ wal_body r"

lemma length_wal_body: "record_wf r \<Longrightarrow> length (wal_body r) = (if wr_type r = kUpdate then 8213 else 21)"
  by (auto simp: wal_body_def record_wf_def Let_def kPageSize_def)

lemma read_list_update [layout]:
  "i < off \<or> off + LENGTH('a) div 8 \<le> i \<Longrightarrow> read_at off (buf[i := b]) = (read_at off buf :: 'a::len word)"
  by (auto simp: read_at_def peek_def drop_update_cancel take_update_cancel drop_update_swap not_less
      intro!: arg_cong [where f = ReadFixed])

definition wal_fixed :: "WALRecord \<Rightarrow> byte list" where
  "wal_fixed r = write_at 17 (wr_page_id r) (write_at 9 (wr_txn_id r)
     ((write_at 0 (wr_lsn r) (replicate 21 0))[8 := type_byte (wr_type r)]))"

lemma wal_body_fixed:
  "wal_body r = wal_fixed r @ (if wr_type r = kUpdate then before_image r @ after_image r else [])"
  by (simp add: wal_body_def wal_fixed_def)

lemma wal_fixed_fields:
  "length (wal_fixed r) = 21" "wal_fixed r ! 8 = type_byte (wr_type r)" "read_at 0 (wal_fixed r) = wr_lsn r"
  "read_at 9 (wal_fixed r) = wr_txn_id r" "read_at 17 (wal_fixed r) = wr_page_id r"
proof -
  show "wal_fixed r ! 8 = type_byte (wr_type r)"
    by (simp add: wal_fixed_def write_at_def [of 17] write_at_def [of 9] nth_poke)
  show "length (wal_fixed r) = 21" "read_at 0 (wal_fixed r) = wr_lsn r"
    "read_at 9 (wal_fixed r) = wr_txn_id r" "read_at 17 (wal_fixed r) = wr_page_id r"
    by (simp_all add: wal_fixed_def layout)
qed

lemma wal_record_of_body:
  assumes "record_wf r"
  shows "wal_record_of (wal_body r) = Inr r"
proof -
  have app: "read_at off (wal_fixed r @ rest) = (read_at off (wal_fixed r) :: 'a::len word)"
    if "off + LENGTH('a) div 8 \<le> 21" for off rest
    using that by (simp add: read_at_def peek_append1 wal_fixed_fields)
  have f: "read_at 0 (wal_body r) = wr_lsn r" "read_at 9 (wal_body r) = wr_txn_id r"
    "read_at 17 (wal_body r) = wr_page_id r" "wal_body r ! 8 = type_byte (wr_type r)"
    by (simp_all add: wal_body_fixed app wal_fixed_fields nth_append)
  show ?thesis
  proof (cases "wr_type r = kUpdate")
    case True
    then have "peek 21 kPageSize (wal_body r) = before_image r"
      "peek (21 + kPageSize) kPageSize (wal_body r) = after_image r" "length (wal_body r) = 21 + 2 * kPageSize"
      using assms by (simp_all add: wal_body_fixed peek_append2 peek_append1 wal_fixed_fields record_wf_def peek_full)
    with True assms show ?thesis
      by (auto simp: wal_record_of_def f record_wf_def WALRecord_default_def Let_def intro: WALRecord.equality)
  next
    case False
    with assms show ?thesis
      by (auto simp: wal_record_of_def f record_wf_def WALRecord_default_def Let_def intro: WALRecord.equality)
  qed
qed

section \<open>Reading back what was appended\<close>

lemma read_loop_wal_bytes:
  assumes "record_wf r"
  shows "wal_read_loop (wal_bytes r @ rest) acc = wal_read_loop rest (acc @ [r])"
proof -
  have len: "unat (word_of_nat (length (wal_body r)) :: u32) = length (wal_body r)" "21 \<le> length (wal_body r)"
    by (simp_all add: length_wal_body [OF assms] unat_of_nat)
  then show ?thesis
    unfolding wal_bytes_def by (subst wal_read_loop.simps) (simp add: Let_def wal_record_of_body [OF assms])
qed

lemma read_loop_log:
  "list_all record_wf rs \<Longrightarrow> wal_read_loop (concat (map wal_bytes rs) @ rest) acc = wal_read_loop rest (acc @ rs)"
  by (induction rs arbitrary: acc) (simp_all add: read_loop_wal_bytes)

text \<open>\<open>wal_log wal rs\<close>: the file is usable, holds exactly the records \<open>rs\<close>, and the counter is ahead of them.\<close>

definition wal_log :: "WALManager \<Rightarrow> WALRecord list \<Rightarrow> bool" where
  "wal_log wal rs \<longleftrightarrow>
     fs_open (wal_file wal) \<and> may_read (fs_access (wal_file wal)) \<and> fs_good (wal_file wal) \<and> fs_faults (wal_file wal) = [] \<and>
     fs_bytes (wal_file wal) = concat (map wal_bytes rs) \<and> list_all record_wf rs \<and>
     wal_next_lsn wal = (if rs = [] then 1 else wr_lsn (last rs) + 1)"

lemma ReadAll_log: "wal_log wal rs \<Longrightarrow> WALManager_ReadAll wal = Some (Inr rs)"
  using read_loop_log [of rs "[]" "[]"]
  by (simp add: wal_log_def WALManager_ReadAll_def) (simp add: wal_read_loop.simps)

lemma fs_write_end:
  assumes "fs_good f" and "fs_faults f = []" and "fs_pos f = length (fs_bytes f)"
  shows "fs_write bs f = f\<lparr>fs_bytes := fs_bytes f @ bs, fs_pos := length (fs_bytes f @ bs)\<rparr>"
  using assms by (simp add: fs_write_def fs_put_def poke_def)

lemma AppendRecord_log:
  assumes "wal_log wal rs" and "record_wf (record\<lparr>wr_lsn := wal_next_lsn wal\<rparr>)"
    and "WALManager_AppendRecord record wal = (lsn, wal')"
  shows "lsn = wal_next_lsn wal \<and> wal_log wal' (rs @ [record\<lparr>wr_lsn := lsn\<rparr>])"
proof -
  let ?r = "record\<lparr>wr_lsn := wal_next_lsn wal\<rparr>" and ?f = "wal_file wal"
  let ?len = "WriteFixed (word_of_nat (length (wal_body ?r)) :: u32)"
  have f: "fs_good ?f" "fs_open ?f" "fs_faults ?f = []" "fs_bytes ?f = concat (map wal_bytes rs)" "\<not> fs_fail ?f"
    using assms(1) by (simp_all add: wal_log_def)
  let ?f1 = "?f\<lparr>fs_pos := length (fs_bytes ?f)\<rparr>"
  let ?f2 = "?f1\<lparr>fs_bytes := fs_bytes ?f @ ?len, fs_pos := length (fs_bytes ?f @ ?len)\<rparr>"
  let ?f3 = "?f2\<lparr>fs_bytes := fs_bytes ?f @ wal_bytes ?r, fs_pos := length (fs_bytes ?f @ wal_bytes ?r)\<rparr>"
  have "fs_seekp_end ?f = ?f1" using f(5) by (simp add: fs_seekp_end_def)
  moreover have "fs_write ?len ?f1 = ?f2" using f by (subst fs_write_end) (simp_all add: fs_good_def)
  moreover have "fs_write (wal_body ?r) ?f2 = ?f3"
    using f by (subst fs_write_end) (simp_all add: fs_good_def wal_bytes_def)
  moreover have "WALManager_AppendRecord record wal = (wal_next_lsn wal,
      \<lparr>wal_file = fs_write (wal_body ?r) (fs_write ?len (fs_seekp_end ?f)), wal_next_lsn = wal_next_lsn wal + 1\<rparr>)"
    by (simp add: WALManager_AppendRecord_def Let_def)
  ultimately have "WALManager_AppendRecord record wal =
      (wal_next_lsn wal, \<lparr>wal_file = ?f3, wal_next_lsn = wal_next_lsn wal + 1\<rparr>)"
    by (simp only:)
  then have "lsn = wal_next_lsn wal" "wal' = \<lparr>wal_file = ?f3, wal_next_lsn = wal_next_lsn wal + 1\<rparr>"
    using assms(3) by (simp_all only: prod.inject)
  then show ?thesis
    using f assms(1,2) by (simp add: wal_log_def fs_good_def)
qed

lemma wal_log_open:
  assumes "list_all record_wf rs"
  shows "\<exists>wal. WALManager_open ReadWrite (Some (concat (map wal_bytes rs))) [] = Some wal \<and> wal_log wal rs"
proof -
  let ?wal = "\<lparr>wal_file = fs_attach ReadWrite (concat (map wal_bytes rs)) [], wal_next_lsn = 1\<rparr>"
  have "WALManager_ReadAll ?wal = Some (Inr rs)"
    using read_loop_log [OF assms, of "[]" "[]"]
    by (simp add: WALManager_ReadAll_def fs_attach_def) (simp add: wal_read_loop.simps)
  with assms show ?thesis
    by (simp add: WALManager_open_def open_or_create_def Let_def wal_log_def fs_attach_def fs_seekp_end_def fs_good_def)
qed

lemma wal_log_new: "WALManager_open ReadWrite None [] = Some \<lparr>wal_file = fs_attach ReadWrite [] [], wal_next_lsn = 1\<rparr>"
  "wal_log \<lparr>wal_file = fs_attach ReadWrite [] [], wal_next_lsn = 1\<rparr> []"
  by (simp_all add: WALManager_open_def open_or_create_def Let_def wal_log_def fs_attach_def fs_seekp_end_def fs_good_def
      WALManager_ReadAll_def wal_read_loop.simps)

section \<open>Properties\<close>

text \<open>The append operations as data, and the record each one stores.\<close>

datatype WalOp =
    OpUpdate txn_id_t page_id_t Page Page
  | OpCommit txn_id_t
  | OpAbort txn_id_t
  | OpCheckpoint

definition wal_step :: "WalOp \<Rightarrow> WALManager \<Rightarrow> lsn_t \<times> WALManager" where
  "wal_step op = (case op of
       OpUpdate txn pid before after \<Rightarrow> WALManager_AppendUpdate txn pid before after
     | OpCommit txn \<Rightarrow> WALManager_AppendCommit txn
     | OpAbort txn \<Rightarrow> WALManager_AppendAbort txn
     | OpCheckpoint \<Rightarrow> WALManager_AppendCheckpoint)"

definition op_ok :: "WalOp \<Rightarrow> bool" where
  "op_ok op = (case op of
       OpUpdate txn pid before after \<Rightarrow> length before = kPageSize \<and> length after = kPageSize
     | _ \<Rightarrow> True)"

definition op_record :: "WalOp \<Rightarrow> lsn_t \<Rightarrow> WALRecord" where
  "op_record op lsn = (case op of
       OpUpdate txn pid before after \<Rightarrow>
         \<lparr>wr_lsn = lsn, wr_type = kUpdate, wr_txn_id = txn, wr_page_id = pid,
          before_image = before, after_image = after\<rparr>
     | OpCommit txn \<Rightarrow> WALRecord_default\<lparr>wr_lsn := lsn, wr_type := kCommit, wr_txn_id := txn\<rparr>
     | OpAbort txn \<Rightarrow> WALRecord_default\<lparr>wr_lsn := lsn, wr_type := kAbort, wr_txn_id := txn\<rparr>
     | OpCheckpoint \<Rightarrow> WALRecord_default\<lparr>wr_lsn := lsn, wr_type := kCheckpoint\<rparr>)"

fun wal_run :: "WalOp list \<Rightarrow> WALManager \<Rightarrow> lsn_t list \<times> WALManager" where
  "wal_run [] wal = ([], wal)"
| "wal_run (op # ops) wal =
     (let (lsn, wal1) = wal_step op wal; (lsns, wal2) = wal_run ops wal1 in (lsn # lsns, wal2))"

lemma wal_step_append:
  assumes "op_ok op"
  shows "\<exists>r. wal_step op wal = WALManager_AppendRecord r wal \<and>
    (\<forall>lsn. r\<lparr>wr_lsn := lsn\<rparr> = op_record op lsn \<and> record_wf (op_record op lsn))"
  using assms
  by (cases op)
    (auto simp: wal_step_def op_record_def op_ok_def WALManager_AppendUpdate_def WALManager_AppendCommit_def
      WALManager_AppendAbort_def WALManager_AppendCheckpoint_def WALRecord_default_def record_wf_def
      byte_type_def type_byte_def)

lemma wr_lsn_op_record [simp]: "wr_lsn (op_record op lsn) = lsn"
  by (cases op) (simp_all add: op_record_def)

lemma wal_run_log:
  assumes "list_all op_ok ops" and "wal_log wal rs"
  shows "\<exists>wal'. wal_run ops wal = (map (\<lambda>i. wal_next_lsn wal + word_of_nat i) [0..<length ops], wal') \<and>
    wal_log wal' (rs @ map (\<lambda>i. op_record (ops ! i) (wal_next_lsn wal + word_of_nat i)) [0..<length ops])"
  using assms
proof (induction ops arbitrary: wal rs)
  case Nil
  then show ?case by simp
next
  case (Cons op ops)
  let ?n = "wal_next_lsn wal"
  obtain r where r: "wal_step op wal = WALManager_AppendRecord r wal"
    "\<And>lsn. r\<lparr>wr_lsn := lsn\<rparr> = op_record op lsn" "\<And>lsn. record_wf (op_record op lsn)"
    using wal_step_append [of op wal] Cons.prems(1) by auto
  obtain lsn wal1 where a: "WALManager_AppendRecord r wal = (lsn, wal1)" by fastforce
  have l1: "lsn = ?n" "wal_log wal1 (rs @ [op_record op ?n])"
    using AppendRecord_log [OF Cons.prems(2) _ a] r(2,3) by auto
  have n1: "wal_next_lsn wal1 = ?n + 1" using l1(2) by (simp add: wal_log_def)
  have shift: "map f [0..<length (op # ops)] = f 0 # map (\<lambda>i. f (Suc i)) [0..<length ops]" for f :: "nat \<Rightarrow> 'a"
    by (simp add: map_upt_Suc del: upt_Suc)
  obtain wal2 where w2: "wal_run ops wal1 = (map (\<lambda>i. ?n + 1 + word_of_nat i) [0..<length ops], wal2)"
    "wal_log wal2 ((rs @ [op_record op ?n]) @ map (\<lambda>i. op_record (ops ! i) (?n + 1 + word_of_nat i)) [0..<length ops])"
    using Cons.IH [OF _ l1(2)] Cons.prems(1) n1 by auto
  then show ?case
    using r(1) a l1(1) unfolding shift by (simp add: add.assoc)
qed

text \<open>
  C25. The log returns what was appended: after any sequence of append calls on a new log, reading it
  back gives one record per call, in order, with the call's arguments and the sequence number the
  call returned; the numbers count up from 1. The same is read after closing and reopening the
  file, and numbering continues where it stopped.
\<close>

theorem wal_roundtrip:
  assumes "list_all op_ok ops" and "WALManager_open ReadWrite None [] = Some wal0"
  shows "\<exists>wal wal'. wal_run ops wal0 = (map (\<lambda>i. 1 + word_of_nat i) [0..<length ops], wal) \<and>
    WALManager_ReadAll wal = Some (Inr (map (\<lambda>i. op_record (ops ! i) (1 + word_of_nat i)) [0..<length ops])) \<and>
    WALManager_open ReadWrite (Some (WALManager_close wal)) [] = Some wal' \<and>
    WALManager_ReadAll wal' = WALManager_ReadAll wal \<and> wal_next_lsn wal' = wal_next_lsn wal"
proof -
  have w0: "wal_log wal0 []" "wal_next_lsn wal0 = 1" using wal_log_new assms(2) by simp_all
  define rs where "rs = map (\<lambda>i. op_record (ops ! i) (1 + word_of_nat i)) [0..<length ops]"
  obtain wal where w: "wal_run ops wal0 = (map (\<lambda>i. 1 + word_of_nat i) [0..<length ops], wal)" "wal_log wal rs"
    using wal_run_log [OF assms(1) w0(1)] w0(2) by (auto simp: rs_def)
  have "list_all record_wf rs" "WALManager_close wal = concat (map wal_bytes rs)"
    using w(2) by (simp_all add: wal_log_def WALManager_close_def)
  then obtain wal' where w': "WALManager_open ReadWrite (Some (WALManager_close wal)) [] = Some wal'" "wal_log wal' rs"
    using wal_log_open by auto
  moreover have "wal_next_lsn wal' = wal_next_lsn wal" using w(2) w'(2) by (simp add: wal_log_def)
  ultimately show ?thesis using w ReadAll_log [OF w(2)] ReadAll_log [OF w'(2)] by (auto simp: rs_def)
qed

definition demo_wal_ops :: "WalOp list" where
  "demo_wal_ops = [OpUpdate 7 1 Page_Reset Page_Reset, OpCommit 7]"

theorem wal_roundtrip_witness:
  "\<exists>wal0 wal rs. WALManager_open ReadWrite None [] = Some wal0 \<and> wal_run demo_wal_ops wal0 = ([1, 2], wal) \<and>
     WALManager_ReadAll wal = Some (Inr rs) \<and> map wr_type rs = [kUpdate, kCommit] \<and> map wr_txn_id rs = [7, 7]"
proof -
  have "list_all op_ok demo_wal_ops" by (simp add: demo_wal_ops_def op_ok_def)
  from wal_roundtrip [OF this wal_log_new(1)] show ?thesis
    using wal_log_new(1) by (fastforce simp: demo_wal_ops_def op_record_def WALRecord_default_def)
qed

text \<open>
  C26. A log whose last record was written only in part: if not even the length made it to the file,
  reading returns the complete records; otherwise the whole log is reported as corrupt, complete
  records included, and a log opened on such a file starts numbering at 1 again.
\<close>

theorem wal_torn_tail:
  assumes "list_all record_wf rs" and "record_wf r" and "n < length (wal_bytes r)"
    and "contents = concat (map wal_bytes rs) @ take n (wal_bytes r)"
  shows "\<exists>wal. WALManager_open ReadWrite (Some contents) [] = Some wal \<and>
    (if n < 4 then WALManager_ReadAll wal = Some (Inr rs)
     else (\<exists>e. WALManager_ReadAll wal = Some (Inl e) \<and> status_code e = kCorruption) \<and> wal_next_lsn wal = 1)"
proof -
  have len: "unat (word_of_nat (length (wal_body r)) :: u32) = length (wal_body r)"
    by (simp add: length_wal_body [OF assms(2)] unat_of_nat)
  have "wal_read_loop (take n (wal_bytes r)) rs =
      (if n < 4 then Some (Inr rs)
       else Some (Inl (Status_Corruption ''WAL: truncated record (possible mid-write crash)'')))"
  proof (cases "n < 4")
    case True
    then show ?thesis by (subst wal_read_loop.simps) (simp add: wal_bytes_def)
  next
    case False
    define lb where "lb = WriteFixed (word_of_nat (length (wal_body r)) :: u32)"
    have lb: "length lb = 4" "ReadFixed lb = (word_of_nat (length (wal_body r)) :: u32)" by (simp_all add: lb_def)
    have "take n (wal_bytes r) = lb @ take (n - 4) (wal_body r)" "n - 4 < length (wal_body r)"
      using False assms(3) lb(1) by (auto simp: wal_bytes_def lb_def [symmetric])
    with False lb len show ?thesis by (subst wal_read_loop.simps) (simp add: Let_def)
  qed
  then have "wal_read_loop contents [] =
      (if n < 4 then Some (Inr rs)
       else Some (Inl (Status_Corruption ''WAL: truncated record (possible mid-write crash)'')))"
    unfolding assms(4) read_loop_log [OF assms(1)] by simp
  then show ?thesis
    by (auto simp: WALManager_open_def open_or_create_def WALManager_ReadAll_def fs_attach_def fs_seekp_end_def Status_Corruption_def Let_def)
qed

theorem wal_torn_tail_witness:
  "\<exists>wal e. WALManager_open ReadWrite (Some (wal_bytes (op_record (OpCommit 7) 1) @ take 10 (wal_bytes (op_record (OpCommit 8) 2)))) [] =
     Some wal \<and> WALManager_ReadAll wal = Some (Inl e) \<and> status_code e = kCorruption"
proof -
  have wf: "record_wf (op_record (OpCommit t) l)" for t l
    by (simp add: op_record_def record_wf_def WALRecord_default_def byte_type_def type_byte_def)
  have "10 < length (wal_bytes (op_record (OpCommit 8) 2))"
    by (simp add: wal_bytes_def length_wal_body [OF wf])
  from wal_torn_tail [OF _ wf this refl, of "[op_record (OpCommit 7) 1]"] wf show ?thesis by auto
qed

text \<open>
  Once the stream has failed, append calls still return sequence numbers but store nothing: the
  caller of \<open>AppendCommit\<close> cannot tell that its commit is not on disk.
\<close>

lemma failed_log_drops_records:
  assumes "fs_fail (wal_file wal)" and "WALManager_AppendRecord r wal = (lsn, wal')"
  shows "lsn = wal_next_lsn wal \<and> WALManager_close wal' = WALManager_close wal \<and> fs_fail (wal_file wal')"
  using assms
  by (auto simp: WALManager_AppendRecord_def WALManager_close_def fs_seekp_end_def fs_write_def fs_good_def Let_def)

end
