(* ===== verification/Recovery.thy ===== *)
theory Recovery
  imports Wal
begin

text \<open>
  Crash recovery (\<open>src/recovery/recovery_manager.cpp\<close>): one pass over the log collects the committed
  transactions and finds the last checkpoint, a second one redoes every update behind the
  checkpoint, and a third one, backwards over the whole log, writes the before-images of the
  updates of transactions without a commit record.
\<close>

record RecoveryStats =
  redo_count :: nat
  undo_count :: nat
  checkpoint_lsn_used :: lsn_t

text \<open>
  The analysis pass; \<open>i\<close> is the index of the first of the remaining records. The set of aborted
  transactions is collected as in the code, which does not use it afterwards.
\<close>

fun recover_analysis ::
  "nat \<Rightarrow> WALRecord list \<Rightarrow> txn_id_t set \<Rightarrow> txn_id_t set \<Rightarrow> nat \<Rightarrow> RecoveryStats \<Rightarrow>
     txn_id_t set \<times> txn_id_t set \<times> nat \<times> RecoveryStats" where
  "recover_analysis i [] committed aborted redo_start_index stats =
     (committed, aborted, redo_start_index, stats)"
| "recover_analysis i (r # rs) committed aborted redo_start_index stats =
     (if wr_type r = kCommit
      then recover_analysis (i + 1) rs (insert (wr_txn_id r) committed) aborted redo_start_index stats
      else if wr_type r = kAbort
      then recover_analysis (i + 1) rs committed (insert (wr_txn_id r) aborted) redo_start_index stats
      else if wr_type r = kCheckpoint
      then recover_analysis (i + 1) rs committed aborted (i + 1) (stats\<lparr>checkpoint_lsn_used := wr_lsn r\<rparr>)
      else recover_analysis (i + 1) rs committed aborted redo_start_index stats)"

fun recover_redo :: "WALRecord list \<Rightarrow> RecoveryStats \<Rightarrow> PageManager \<Rightarrow> RecoveryStats Result \<times> PageManager" where
  "recover_redo [] stats pm = (Inr stats, pm)"
| "recover_redo (r # rs) stats pm =
     (if wr_type r \<noteq> kUpdate then recover_redo rs stats pm
      else case PageManager_WritePage (wr_page_id r) (take kPageSize (after_image r)) pm of
          (status, pm') \<Rightarrow>
            if \<not> Status_ok status then (Inl status, pm')
            else recover_redo rs (stats\<lparr>redo_count := redo_count stats + 1\<rparr>) pm')"

text \<open>The undo pass takes the records in reverse order.\<close>

fun recover_undo ::
  "txn_id_t set \<Rightarrow> WALRecord list \<Rightarrow> RecoveryStats \<Rightarrow> PageManager \<Rightarrow> RecoveryStats Result \<times> PageManager" where
  "recover_undo committed [] stats pm = (Inr stats, pm)"
| "recover_undo committed (r # rs) stats pm =
     (if wr_type r \<noteq> kUpdate then recover_undo committed rs stats pm
      else if wr_txn_id r \<in> committed then recover_undo committed rs stats pm
      else case PageManager_WritePage (wr_page_id r) (take kPageSize (before_image r)) pm of
          (status, pm') \<Rightarrow>
            if \<not> Status_ok status then (Inl status, pm')
            else recover_undo committed rs (stats\<lparr>undo_count := undo_count stats + 1\<rparr>) pm')"

definition RecoveryManager_Recover ::
  "WALManager \<Rightarrow> PageManager \<Rightarrow> (RecoveryStats Result \<times> PageManager) option" where
  "RecoveryManager_Recover wal pm =
     (case WALManager_ReadAll wal of
        None \<Rightarrow> None
      | Some (Inl e) \<Rightarrow> Some (Inl e, pm)
      | Some (Inr records) \<Rightarrow>
          let (committed, aborted, redo_start_index, stats) =
                recover_analysis 0 records {} {} 0
                  \<lparr>redo_count = 0, undo_count = 0, checkpoint_lsn_used = kInvalidLsn\<rparr>
          in case recover_redo (drop redo_start_index records) stats pm of
               (Inl e, pm') \<Rightarrow> Some (Inl e, pm')
             | (Inr stats', pm') \<Rightarrow> Some (recover_undo committed (rev records) stats' pm'))"

section \<open>What the passes compute\<close>

definition updates :: "WALRecord list \<Rightarrow> WALRecord list" where
  "updates rs = filter (\<lambda>r. wr_type r = kUpdate) rs"

definition committed_txns :: "WALRecord list \<Rightarrow> txn_id_t set" where
  "committed_txns rs = wr_txn_id ` set (filter (\<lambda>r. wr_type r = kCommit) rs)"

text \<open>The records behind the last checkpoint, and the updates of transactions that did not commit.\<close>

definition since_checkpoint :: "WALRecord list \<Rightarrow> WALRecord list" where
  "since_checkpoint rs = rev (takeWhile (\<lambda>r. wr_type r \<noteq> kCheckpoint) (rev rs))"

definition loser_updates :: "WALRecord list \<Rightarrow> WALRecord list" where
  "loser_updates rs = filter (\<lambda>r. wr_txn_id r \<notin> committed_txns rs) (updates rs)"

text \<open>The pages after recovery, as a function of the log and the pages before it.\<close>

definition recovered :: "WALRecord list \<Rightarrow> (page_id_t \<Rightarrow> Page) \<Rightarrow> page_id_t \<Rightarrow> Page" where
  "recovered rs pages pid =
     (case filter (\<lambda>r. wr_page_id r = pid) (loser_updates rs) of
        loser # _ \<Rightarrow> before_image loser
      | [] \<Rightarrow>
          (case rev (filter (\<lambda>r. wr_page_id r = pid) (updates (since_checkpoint rs))) of
             r # _ \<Rightarrow> after_image r
           | [] \<Rightarrow> pages pid))"

section \<open>The passes\<close>

lemma since_checkpoint_Cons:
  "since_checkpoint (r # rs) =
     (if \<exists>x \<in> set rs. wr_type x = kCheckpoint then since_checkpoint rs
      else if wr_type r = kCheckpoint then rs else r # rs)"
proof (cases "\<exists>x \<in> set rs. wr_type x = kCheckpoint")
  case True
  then show ?thesis by (auto simp: since_checkpoint_def takeWhile_append1)
next
  case False
  then have "takeWhile (\<lambda>x. wr_type x \<noteq> kCheckpoint) (rev rs @ ys) = rev rs @ takeWhile (\<lambda>x. wr_type x \<noteq> kCheckpoint) ys" for ys
    by (intro takeWhile_append2) auto
  with False show ?thesis by (auto simp: since_checkpoint_def)
qed

lemma since_checkpoint_suffix: "\<exists>ys. rs = ys @ since_checkpoint rs"
  unfolding since_checkpoint_def by (metis rev_append rev_rev_ident takeWhile_dropWhile_id)

lemma analysis_result:
  assumes "recover_analysis i rs C A start stats = (C', A', start', stats')"
  shows "C' = C \<union> committed_txns rs \<and>
    start' = (if \<exists>r \<in> set rs. wr_type r = kCheckpoint then i + length rs - length (since_checkpoint rs) else start) \<and>
    redo_count stats' = redo_count stats \<and> undo_count stats' = undo_count stats"
  using assms
proof (induction i rs C A start stats rule: recover_analysis.induct)
  case (1 i C A start stats)
  then show ?case by (simp add: committed_txns_def)
next
  case (2 i r rs C A start stats)
  have com: "committed_txns (r # rs) = (if wr_type r = kCommit then {wr_txn_id r} else {}) \<union> committed_txns rs"
    by (auto simp: committed_txns_def)
  show ?case
  proof (cases "wr_type r")
    case kUpdate
    with 2 show ?thesis by (auto simp: com since_checkpoint_Cons)
  next
    case kCommit
    with 2 show ?thesis by (auto simp: com since_checkpoint_Cons)
  next
    case kAbort
    with 2 show ?thesis by (auto simp: com since_checkpoint_Cons)
  next
    case kCheckpoint
    with 2 show ?thesis by (auto simp: com since_checkpoint_Cons)
  next
    case (kUnnamed b)
    with 2 show ?thesis by (auto simp: com since_checkpoint_Cons)
  qed
qed

lemma analysis_drop:
  assumes "recover_analysis 0 rs C A 0 stats = (C', A', start, stats')"
  shows "drop start rs = since_checkpoint rs"
proof (cases "\<exists>r \<in> set rs. wr_type r = kCheckpoint")
  case True
  then have "start = length rs - length (since_checkpoint rs)" using analysis_result [OF assms] by simp
  moreover obtain ys where "rs = ys @ since_checkpoint rs" using since_checkpoint_suffix by blast
  ultimately show ?thesis by (metis add_diff_cancel_right' append_eq_conv_conj length_append)
next
  case False
  then have "start = 0" using analysis_result [OF assms] by simp
  moreover have "takeWhile (\<lambda>r. wr_type r \<noteq> kCheckpoint) (rev rs) = rev rs"
    using False by (intro takeWhile_eq_all_conv [THEN iffD2]) auto
  then have "since_checkpoint rs = rs" by (simp only: since_checkpoint_def rev_rev_ident)
  ultimately show ?thesis by simp
qed

text \<open>\<open>holds_pages pm pages\<close>: the data file works and its pages are \<open>pages\<close>.\<close>

definition holds_pages :: "PageManager \<Rightarrow> (page_id_t \<Rightarrow> Page) \<Rightarrow> bool" where
  "holds_pages pm pages \<longleftrightarrow> pm_live pm \<and> (\<forall>q. unat q < pm_page_count pm \<longrightarrow> pm_page pm q = pages q)"

lemma WritePage_pages:
  assumes "holds_pages pm pages" and "unat pid < pm_page_count pm" and "length page = kPageSize"
  shows "\<exists>pm'. PageManager_WritePage pid page pm = (Status_OK, pm') \<and> holds_pages pm' (pages(pid := page)) \<and>
    pm_page_count pm' = pm_page_count pm"
proof -
  have live: "pm_live pm" using assms(1) by (simp add: holds_pages_def)
  obtain pm' where "PageManager_WritePage pid page pm = (Status_OK, pm')" "pm_live pm'"
    "pm_page_count pm' = pm_page_count pm" "pm_page pm' pid = page"
    "\<And>q. unat q < pm_page_count pm \<Longrightarrow> q \<noteq> pid \<Longrightarrow> pm_page pm' q = pm_page pm q"
    by (rule WritePage_live [OF live assms(2,3)]) blast
  with assms(1) show ?thesis by (auto simp: holds_pages_def)
qed

definition replayable :: "PageManager \<Rightarrow> WALRecord list \<Rightarrow> bool" where
  "replayable pm rs \<longleftrightarrow> (\<forall>r \<in> set (updates rs). unat (wr_page_id r) < pm_page_count pm \<and>
     length (before_image r) = kPageSize \<and> length (after_image r) = kPageSize)"

definition write_images :: "(WALRecord \<Rightarrow> Page) \<Rightarrow> WALRecord list \<Rightarrow> (page_id_t \<Rightarrow> Page) \<Rightarrow> page_id_t \<Rightarrow> Page" where
  "write_images img rs = fold (\<lambda>r pages. pages(wr_page_id r := img r)) rs"

lemma write_images_simps [simp]:
  "write_images img [] pages = pages"
  "write_images img (r # rs) pages = write_images img rs (pages(wr_page_id r := img r))"
  by (simp_all add: write_images_def)

lemma write_images_last:
  "write_images img rs pages q =
     (case rev (filter (\<lambda>r. wr_page_id r = q) rs) of r # _ \<Rightarrow> img r | [] \<Rightarrow> pages q)"
proof (induction rs arbitrary: pages)
  case (Cons r rs)
  then show ?case by (cases "rev (filter (\<lambda>r. wr_page_id r = q) rs)") auto
qed simp

lemma updates_simps [simp]:
  "updates [] = []" "updates (r # rs) = (if wr_type r = kUpdate then r # updates rs else updates rs)"
  by (simp_all add: updates_def)

lemma redo_pages:
  assumes "holds_pages pm pages" and "replayable pm rs"
  shows "\<exists>pm'. recover_redo rs stats pm = (Inr (stats\<lparr>redo_count := redo_count stats + length (updates rs)\<rparr>), pm') \<and>
    holds_pages pm' (write_images after_image (updates rs) pages) \<and> pm_page_count pm' = pm_page_count pm"
  using assms
proof (induction rs arbitrary: stats pm pages)
  case Nil
  then show ?case by simp
next
  case (Cons r rs)
  show ?case
  proof (cases "wr_type r = kUpdate")
    case True
    then have r: "unat (wr_page_id r) < pm_page_count pm" "length (after_image r) = kPageSize"
      using Cons.prems(2) by (simp_all add: replayable_def)
    obtain pm1 where w: "PageManager_WritePage (wr_page_id r) (after_image r) pm = (Status_OK, pm1)"
      "holds_pages pm1 (pages(wr_page_id r := after_image r))" "pm_page_count pm1 = pm_page_count pm"
      using WritePage_pages [OF Cons.prems(1) r] by blast
    moreover have "replayable pm1 rs" using Cons.prems(2) w(3) by (simp add: replayable_def)
    ultimately show ?thesis
      using Cons.IH [of pm1 "pages(wr_page_id r := after_image r)" "stats\<lparr>redo_count := redo_count stats + 1\<rparr>"] True r(2)
      by (auto simp del: fun_upd_apply)
  next
    case False
    with Cons.IH [OF Cons.prems(1), of stats] Cons.prems(2) show ?thesis
      by (simp add: replayable_def)
  qed
qed

lemma undo_pages:
  assumes "holds_pages pm pages" and "replayable pm rs"
  shows "\<exists>pm'. recover_undo C rs stats pm =
      (Inr (stats\<lparr>undo_count := undo_count stats + length (filter (\<lambda>r. wr_txn_id r \<notin> C) (updates rs))\<rparr>), pm') \<and>
    holds_pages pm' (write_images before_image (filter (\<lambda>r. wr_txn_id r \<notin> C) (updates rs)) pages) \<and>
    pm_page_count pm' = pm_page_count pm"
  using assms
proof (induction rs arbitrary: stats pm pages)
  case Nil
  then show ?case by simp
next
  case (Cons r rs)
  show ?case
  proof (cases "wr_type r = kUpdate \<and> wr_txn_id r \<notin> C")
    case True
    then have r: "unat (wr_page_id r) < pm_page_count pm" "length (before_image r) = kPageSize"
      using Cons.prems(2) by (simp_all add: replayable_def)
    obtain pm1 where w: "PageManager_WritePage (wr_page_id r) (before_image r) pm = (Status_OK, pm1)"
      "holds_pages pm1 (pages(wr_page_id r := before_image r))" "pm_page_count pm1 = pm_page_count pm"
      using WritePage_pages [OF Cons.prems(1) r] by blast
    moreover have "replayable pm1 rs" using Cons.prems(2) w(3) by (simp add: replayable_def)
    ultimately show ?thesis
      using Cons.IH [of pm1 "pages(wr_page_id r := before_image r)" "stats\<lparr>undo_count := undo_count stats + 1\<rparr>"] True r(2)
      by (auto simp del: fun_upd_apply)
  next
    case False
    with Cons.IH [OF Cons.prems(1), of stats] Cons.prems(2) show ?thesis
      by (auto simp: replayable_def)
  qed
qed

lemma recovered_write_images:
  "recovered rs pages =
     write_images before_image (rev (loser_updates rs)) (write_images after_image (updates (since_checkpoint rs)) pages)"
  by (rule ext) (simp only: recovered_def write_images_last rev_filter rev_rev_ident)

lemma replayable_sub: "replayable pm rs \<Longrightarrow> set rs' \<subseteq> set rs \<Longrightarrow> replayable pm rs'"
  by (auto simp: replayable_def updates_def)

lemma Recover_spec:
  assumes "wal_log wal rs" and "holds_pages pm pages" and "replayable pm rs"
  shows "\<exists>stats pm'. RecoveryManager_Recover wal pm = Some (Inr stats, pm') \<and>
    holds_pages pm' (recovered rs pages) \<and> pm_page_count pm' = pm_page_count pm \<and>
    redo_count stats = length (updates (since_checkpoint rs)) \<and> undo_count stats = length (loser_updates rs)"
proof -
  let ?s0 = "\<lparr>redo_count = 0, undo_count = 0, checkpoint_lsn_used = kInvalidLsn\<rparr>"
  obtain C A start s1 where an: "recover_analysis 0 rs {} {} 0 ?s0 = (C, A, start, s1)"
    by (metis prod_cases4)
  have C: "C = committed_txns rs" and s1: "redo_count s1 = 0" "undo_count s1 = 0"
    using analysis_result [OF an] by simp_all
  have st: "drop start rs = since_checkpoint rs" by (rule analysis_drop [OF an])
  have "set (since_checkpoint rs) \<subseteq> set rs" using since_checkpoint_suffix [of rs] by (metis Un_upper2 set_append)
  then have "replayable pm (since_checkpoint rs)" using replayable_sub [OF assms(3)] by blast
  then obtain pm1 where redo: "recover_redo (since_checkpoint rs) s1 pm =
      (Inr (s1\<lparr>redo_count := length (updates (since_checkpoint rs))\<rparr>), pm1)"
    "holds_pages pm1 (write_images after_image (updates (since_checkpoint rs)) pages)"
    "pm_page_count pm1 = pm_page_count pm"
    using redo_pages [OF assms(2), of "since_checkpoint rs" s1] s1 by auto
  have "replayable pm1 (rev rs)"
    using replayable_sub [OF assms(3), of "rev rs"] redo(3) by (simp add: replayable_def)
  moreover have los: "filter (\<lambda>r. wr_txn_id r \<notin> C) (updates (rev rs)) = rev (loser_updates rs)"
    by (simp add: C loser_updates_def updates_def rev_filter [symmetric])
  ultimately obtain pm2 where undo:
    "recover_undo C (rev rs) (s1\<lparr>redo_count := length (updates (since_checkpoint rs))\<rparr>) pm1 =
      (Inr (s1\<lparr>redo_count := length (updates (since_checkpoint rs)), undo_count := length (loser_updates rs)\<rparr>), pm2)"
    "holds_pages pm2 (recovered rs pages)" "pm_page_count pm2 = pm_page_count pm"
    using undo_pages [OF redo(2), of "rev rs" C "s1\<lparr>redo_count := length (updates (since_checkpoint rs))\<rparr>"] s1 redo(3) by (auto simp: recovered_write_images)
  have "RecoveryManager_Recover wal pm =
      Some (Inr (s1\<lparr>redo_count := length (updates (since_checkpoint rs)), undo_count := length (loser_updates rs)\<rparr>), pm2)"
    using an st redo(1) undo(1) by (simp add: RecoveryManager_Recover_def ReadAll_log [OF assms(1)])
  with undo(2,3) show ?thesis by auto
qed

lemma redo_lsn: "recover_redo rs stats pm = (Inr stats', pm') \<Longrightarrow> checkpoint_lsn_used stats' = checkpoint_lsn_used stats"
  by (induction rs arbitrary: stats pm) (auto split: if_splits prod.splits)

lemma undo_lsn: "recover_undo C rs stats pm = (Inr stats', pm') \<Longrightarrow> checkpoint_lsn_used stats' = checkpoint_lsn_used stats"
  by (induction rs arbitrary: stats pm) (auto split: if_splits prod.splits)

lemma Recover_stats:
  assumes "wal_log wal rs" and "RecoveryManager_Recover wal pm = Some (Inr stats, pm')"
  shows "checkpoint_lsn_used stats = checkpoint_lsn_used (snd (snd (snd (recover_analysis 0 rs {} {} 0
    \<lparr>redo_count = 0, undo_count = 0, checkpoint_lsn_used = kInvalidLsn\<rparr>))))"
  using assms(2) redo_lsn undo_lsn
  by (auto simp: RecoveryManager_Recover_def ReadAll_log [OF assms(1)] split: prod.splits sum.splits)

section \<open>Recovery restores the committed state\<close>







lemma write_images_append: "write_images img (xs @ ys) pages = write_images img ys (write_images img xs pages)"
  by (simp add: write_images_def)




section \<open>Properties\<close>

text \<open>
  C23. What recovery does, exactly: on a readable log whose updates lie inside the data file it succeeds,
  counts the updates it redid and undid, and leaves every page with the before-image of the first
  update by a transaction without commit record, if the log has one for it, otherwise with the
  after-image of its last update behind the last checkpoint, otherwise unchanged. Running it again,
  after a crash during or behind recovery, gives the same pages.
\<close>

theorem Recover_exact:
  assumes "wal_log wal rs" and "holds_pages pm pages" and "replayable pm rs"
  shows "\<exists>stats pm' pm''. RecoveryManager_Recover wal pm = Some (Inr stats, pm') \<and>
    holds_pages pm' (recovered rs pages) \<and>
    redo_count stats = length (updates (since_checkpoint rs)) \<and> undo_count stats = length (loser_updates rs) \<and>
    RecoveryManager_Recover wal pm' = Some (Inr stats, pm'') \<and> holds_pages pm'' (recovered rs pages)"
proof -
  obtain stats pm' where r: "RecoveryManager_Recover wal pm = Some (Inr stats, pm')" "holds_pages pm' (recovered rs pages)"
    "pm_page_count pm' = pm_page_count pm"
    "redo_count stats = length (updates (since_checkpoint rs))" "undo_count stats = length (loser_updates rs)"
    using Recover_spec [OF assms] by blast
  have "replayable pm' rs" using assms(3) r(3) by (simp add: replayable_def)
  from Recover_spec [OF assms(1) r(2) this] obtain stats' pm'' where
    r': "RecoveryManager_Recover wal pm' = Some (Inr stats', pm'')" "holds_pages pm'' (recovered rs (recovered rs pages))"
    "redo_count stats' = redo_count stats" "undo_count stats' = undo_count stats" using r(4,5) by auto
  have "recovered rs (recovered rs pages) = recovered rs pages"
    by (rule ext) (simp add: recovered_def split: list.split)
  moreover have "stats' = stats"
    using Recover_stats [OF assms(1) r(1)] Recover_stats [OF assms(1) r'(1)] r'(3,4) by simp
  ultimately show ?thesis using r r' by auto
qed

text \<open>A data file with one page, and page contents to write there.\<close>

definition demo_data_file :: PageManager where
  "demo_data_file = snd (PageManager_AllocatePage (PageManager_open ReadWrite None []))"

definition demo_image :: "byte \<Rightarrow> Page" where
  "demo_image b = replicate kPageSize b"

lemma demo_data_file_ok: "holds_pages demo_data_file (pm_page demo_data_file)" "pm_page_count demo_data_file = 2"
proof -
  let ?pm = "PageManager_open ReadWrite None []"
  have bound: "Suc (pm_page_count ?pm) < 2 ^ 31" by (simp add: PageManager_open_new)
  obtain pm' where "PageManager_AllocatePage ?pm = (Inr (pm_next_page_id ?pm), pm')" "pm_live pm'"
    "pm_page_count pm' = Suc (pm_page_count ?pm)"
    by (rule AllocatePage_live [OF PageManager_open_new(1) bound])
  then show "holds_pages demo_data_file (pm_page demo_data_file)" "pm_page_count demo_data_file = 2"
    by (simp_all add: demo_data_file_def holds_pages_def PageManager_open_new)
qed

lemma length_demo_image [simp]: "length (demo_image b) = kPageSize"
  by (simp add: demo_image_def)

lemma demo_image_inject [simp]: "demo_image a = demo_image b \<longleftrightarrow> a = b"
  by (simp add: demo_image_def kPageSize_def)

text \<open>A log built by the append calls on a new file.\<close>

lemma demo_log:
  assumes "list_all op_ok ops"
  obtains wal where "wal_log wal (map (\<lambda>i. op_record (ops ! i) (1 + word_of_nat i)) [0..<length ops])"
  using wal_run_log [OF assms wal_log_new(2)] by auto

definition demo_undo_ops :: "WalOp list" where
  "demo_undo_ops = [OpUpdate 7 1 (demo_image 0) (demo_image 1), OpAbort 7,
     OpUpdate 8 1 (demo_image 0) (demo_image 2), OpCommit 8]"

definition demo_undo_log :: "WALRecord list" where
  "demo_undo_log = map (\<lambda>i. op_record (demo_undo_ops ! i) (1 + word_of_nat i)) [0..<length demo_undo_ops]"

lemma demo_undo_ok:
  "list_all op_ok demo_undo_ops" "replayable demo_data_file demo_undo_log"
  "updates demo_undo_log = [op_record (demo_undo_ops ! 0) 1, op_record (demo_undo_ops ! 2) 3]"
  "committed_txns demo_undo_log = {8}"
  by (auto simp: demo_undo_ops_def op_ok_def demo_undo_log_def replayable_def op_record_def WALRecord_default_def
      demo_data_file_ok committed_txns_def upt_rec)

theorem Recover_exact_witness:
  "\<exists>wal stats pm'. RecoveryManager_Recover wal demo_data_file = Some (Inr stats, pm') \<and>
     wal_log wal demo_undo_log \<and> redo_count stats = 2 \<and> undo_count stats = 1"
proof -
  obtain wal where w: "wal_log wal demo_undo_log"
    by (rule demo_log [OF demo_undo_ok(1)]) (simp add: demo_undo_log_def)
  have "since_checkpoint demo_undo_log = demo_undo_log"
    by (simp add: since_checkpoint_def demo_undo_log_def demo_undo_ops_def op_record_def WALRecord_default_def upt_rec)
  moreover have "length (loser_updates demo_undo_log) = 1"
    by (simp add: loser_updates_def demo_undo_ok) (simp add: demo_undo_ops_def op_record_def WALRecord_default_def)
  ultimately show ?thesis
    using Recover_exact [OF w demo_data_file_ok(1) demo_undo_ok(2)] w demo_undo_ok(3) by fastforce
qed


text \<open>
  C24. Without that discipline recovery loses committed data: if the log has an update of a page by a
  transaction without commit record, one that aborted and was rolled back long ago for example,
  the page is reset to the before-image of that update, whatever a transaction that committed
  later wrote to it.
\<close>

theorem Recover_loses_committed:
  assumes "wal_log wal rs" and "holds_pages pm pages" and "replayable pm rs"
    and "filter (\<lambda>r. wr_page_id r = q) (loser_updates rs) = l # ls"
    and "r \<in> set (updates rs)" and "wr_page_id r = q" and "wr_txn_id r \<in> committed_txns rs"
    and "after_image r \<noteq> before_image l"
  shows "\<exists>stats pm'. RecoveryManager_Recover wal pm = Some (Inr stats, pm') \<and>
    pm_page pm' q = before_image l \<and> pm_page pm' q \<noteq> after_image r"
proof -
  have q: "unat q < pm_page_count pm" using assms(3,5,6) by (auto simp: replayable_def)
  have "recovered rs pages q = before_image l" using assms(4) by (simp add: recovered_def)
  with Recover_spec [OF assms(1-3)] q assms(8) show ?thesis by (fastforce simp: holds_pages_def)
qed

theorem Recover_loses_committed_witness:
  "\<exists>wal stats pm'. wal_log wal demo_undo_log \<and> 8 \<in> committed_txns demo_undo_log \<and>
     RecoveryManager_Recover wal demo_data_file = Some (Inr stats, pm') \<and> pm_page pm' 1 = demo_image 0"
proof -
  obtain wal where w: "wal_log wal demo_undo_log"
    by (rule demo_log [OF demo_undo_ok(1)]) (simp add: demo_undo_log_def)
  let ?l = "op_record (demo_undo_ops ! 0) 1" and ?r = "op_record (demo_undo_ops ! 2) 3"
  have f: "wr_page_id ?l = 1" "wr_page_id ?r = 1" "wr_txn_id ?l = 7" "wr_txn_id ?r = 8"
    "before_image ?l = demo_image 0" "after_image ?r = demo_image 2"
    by (simp_all add: demo_undo_ops_def op_record_def)
  then have "filter (\<lambda>r. wr_page_id r = 1) (loser_updates demo_undo_log) = [?l]"
    by (simp add: loser_updates_def demo_undo_ok)
  from Recover_loses_committed [OF w demo_data_file_ok(1) demo_undo_ok(2) this, of ?r] f w show ?thesis
    by (auto simp: demo_undo_ok)
qed


end
