(* ===== verification/Tokenizer.thy ===== *)
theory Tokenizer
  imports Status
begin

text \<open>
  The scanner of SQL text (\<open>src/parser/token.hpp\<close>, \<open>src/parser/lexer.hpp\<close>,
  \<open>src/parser/tokenizer.cpp\<close>). A lexer is the text that has not been read and the position
  reached. The inner loops recurse over that text; the outer ones have a termination proof.
\<close>

section \<open>Tokens\<close>

datatype (plugins only: code size) TokenType =
    kIdentifier | kIntLiteral | kFloatLiteral | kStringLiteral
  | kSelect | kFrom | kWhere | kInsert | kInto | kValues | kUpdate | kSet | kDelete
  | kCreate | kTable | kDrop | kOrder | kBy | kAsc | kDesc | kLimit | kAnd | kOr
  | kNot | kNull | kTrue | kFalse | kAs | kIndex | kOn
  | kInt | kBigInt | kDouble | kBoolean | kVarchar
  | kCount | kSum | kAvg | kMin | kMax
  | kStar | kComma | kLParen | kRParen | kSemicolon | kDot
  | kEq | kNeq | kLt | kLte | kGt | kGte
  | kEndOfInput | kInvalid

record Token =
  tok_type :: TokenType
  tok_lexeme :: string
  tok_position :: nat

definition TokenTypeName :: "TokenType \<Rightarrow> string" where
  "TokenTypeName t = (case t of
       kIdentifier \<Rightarrow> ''identifier'' | kIntLiteral \<Rightarrow> ''integer literal''
     | kFloatLiteral \<Rightarrow> ''float literal'' | kStringLiteral \<Rightarrow> ''string literal''
     | kSelect \<Rightarrow> ''SELECT'' | kFrom \<Rightarrow> ''FROM'' | kWhere \<Rightarrow> ''WHERE'' | kInsert \<Rightarrow> ''INSERT''
     | kInto \<Rightarrow> ''INTO'' | kValues \<Rightarrow> ''VALUES'' | kUpdate \<Rightarrow> ''UPDATE'' | kSet \<Rightarrow> ''SET''
     | kDelete \<Rightarrow> ''DELETE'' | kCreate \<Rightarrow> ''CREATE'' | kTable \<Rightarrow> ''TABLE'' | kDrop \<Rightarrow> ''DROP''
     | kOrder \<Rightarrow> ''ORDER'' | kBy \<Rightarrow> ''BY'' | kAsc \<Rightarrow> ''ASC'' | kDesc \<Rightarrow> ''DESC'' | kLimit \<Rightarrow> ''LIMIT''
     | kAnd \<Rightarrow> ''AND'' | kOr \<Rightarrow> ''OR'' | kNot \<Rightarrow> ''NOT'' | kNull \<Rightarrow> ''NULL'' | kTrue \<Rightarrow> ''TRUE''
     | kFalse \<Rightarrow> ''FALSE'' | kAs \<Rightarrow> ''AS'' | kIndex \<Rightarrow> ''INDEX'' | kOn \<Rightarrow> ''ON''
     | kInt \<Rightarrow> ''INT'' | kBigInt \<Rightarrow> ''BIGINT'' | kDouble \<Rightarrow> ''DOUBLE'' | kBoolean \<Rightarrow> ''BOOLEAN''
     | kVarchar \<Rightarrow> ''VARCHAR'' | kCount \<Rightarrow> ''COUNT'' | kSum \<Rightarrow> ''SUM'' | kAvg \<Rightarrow> ''AVG''
     | kMin \<Rightarrow> ''MIN'' | kMax \<Rightarrow> ''MAX'' | kStar \<Rightarrow> ''*'' | kComma \<Rightarrow> '','' | kLParen \<Rightarrow> ''(''
     | kRParen \<Rightarrow> '')'' | kSemicolon \<Rightarrow> '';'' | kDot \<Rightarrow> ''.'' | kEq \<Rightarrow> ''='' | kNeq \<Rightarrow> ''!=''
     | kLt \<Rightarrow> ''<'' | kLte \<Rightarrow> ''<='' | kGt \<Rightarrow> ''>'' | kGte \<Rightarrow> ''>=''
     | kEndOfInput \<Rightarrow> ''<end of input>'' | kInvalid \<Rightarrow> ''<invalid>'')"

section \<open>The lexer\<close>

record Lexer =
  lx_rest :: string
  lx_pos :: nat

definition Lexer_AtEnd :: "Lexer \<Rightarrow> bool" where
  "Lexer_AtEnd lx \<longleftrightarrow> lx_rest lx = []"

definition Lexer_Peek :: "Lexer \<Rightarrow> char" where
  "Lexer_Peek lx = (case lx_rest lx of [] \<Rightarrow> CHR 0x00 | c # _ \<Rightarrow> c)"

definition Lexer_PeekNext :: "Lexer \<Rightarrow> char" where
  "Lexer_PeekNext lx = (case lx_rest lx of _ # c # _ \<Rightarrow> c | _ \<Rightarrow> CHR 0x00)"

text \<open>The position after \<open>Advance\<close>; the character it returns is the one \<open>Peek\<close> gave before.\<close>

definition Lexer_Advance :: "Lexer \<Rightarrow> Lexer" where
  "Lexer_Advance lx = \<lparr>lx_rest = tl (lx_rest lx), lx_pos = lx_pos lx + 1\<rparr>"

definition char_in :: "char \<Rightarrow> char \<Rightarrow> char \<Rightarrow> bool" where
  "char_in lo hi c \<longleftrightarrow> (of_char lo :: nat) \<le> of_char c \<and> (of_char c :: nat) \<le> of_char hi"

definition Lexer_IsDigit :: "char \<Rightarrow> bool" where
  "Lexer_IsDigit c \<longleftrightarrow> char_in CHR ''0'' CHR ''9'' c"

definition Lexer_IsAlpha :: "char \<Rightarrow> bool" where
  "Lexer_IsAlpha c \<longleftrightarrow>
     char_in CHR ''a'' CHR ''z'' c \<or> char_in CHR ''A'' CHR ''Z'' c \<or> c = CHR ''_''"

definition Lexer_IsAlphaNumeric :: "char \<Rightarrow> bool" where
  "Lexer_IsAlphaNumeric c \<longleftrightarrow> Lexer_IsAlpha c \<or> Lexer_IsDigit c"

definition Lexer_IsWhitespace :: "char \<Rightarrow> bool" where
  "Lexer_IsWhitespace c \<longleftrightarrow> c = CHR '' '' \<or> c = CHR 0x09 \<or> c = CHR 0x0D \<or> c = CHR 0x0A"

definition KeywordTable :: "(string \<times> TokenType) list" where
  "KeywordTable =
     [(''SELECT'', kSelect), (''FROM'', kFrom), (''WHERE'', kWhere),
      (''INSERT'', kInsert), (''INTO'', kInto), (''VALUES'', kValues),
      (''UPDATE'', kUpdate), (''SET'', kSet), (''DELETE'', kDelete),
      (''CREATE'', kCreate), (''TABLE'', kTable), (''DROP'', kDrop),
      (''ORDER'', kOrder), (''BY'', kBy), (''ASC'', kAsc),
      (''DESC'', kDesc), (''LIMIT'', kLimit), (''AND'', kAnd),
      (''OR'', kOr), (''NOT'', kNot), (''NULL'', kNull),
      (''TRUE'', kTrue), (''FALSE'', kFalse), (''AS'', kAs),
      (''INDEX'', kIndex), (''ON'', kOn),
      (''INT'', kInt), (''INTEGER'', kInt), (''BIGINT'', kBigInt),
      (''DOUBLE'', kDouble), (''BOOLEAN'', kBoolean), (''BOOL'', kBoolean),
      (''VARCHAR'', kVarchar), (''TEXT'', kVarchar),
      (''COUNT'', kCount), (''SUM'', kSum), (''AVG'', kAvg),
      (''MIN'', kMin), (''MAX'', kMax)]"

text \<open>\<open>std::toupper\<close> in the \<open>C\<close> locale changes the lower-case ASCII letters only.\<close>

definition upper_char :: "char \<Rightarrow> char" where
  "upper_char c = (if char_in CHR ''a'' CHR ''z'' c then char_of (of_char c - 32 :: nat) else c)"

definition ToUpper :: "string \<Rightarrow> string" where
  "ToUpper s = map upper_char s"

section \<open>The scanner\<close>

text \<open>Reading on while a condition on the next character holds.\<close>

fun lex_while :: "(char \<Rightarrow> bool) \<Rightarrow> string \<Rightarrow> nat \<Rightarrow> string \<Rightarrow> string \<times> Lexer" where
  "lex_while P [] pos lexeme = (lexeme, \<lparr>lx_rest = [], lx_pos = pos\<rparr>)"
| "lex_while P (c # cs) pos lexeme =
     (if P c then lex_while P cs (pos + 1) (lexeme @ [c]) else (lexeme, \<lparr>lx_rest = c # cs, lx_pos = pos\<rparr>))"

definition Lexer_while :: "(char \<Rightarrow> bool) \<Rightarrow> Lexer \<Rightarrow> string \<Rightarrow> string \<times> Lexer" where
  "Lexer_while P lx lexeme = lex_while P (lx_rest lx) (lx_pos lx) lexeme"

lemma lex_while_spec:
  "lex_while P cs pos lexeme =
     (lexeme @ takeWhile P cs, \<lparr>lx_rest = dropWhile P cs, lx_pos = pos + length (takeWhile P cs)\<rparr>)"
  by (induction cs arbitrary: pos lexeme) auto

lemma Lexer_while_spec:
  "Lexer_while P lx lexeme =
     (lexeme @ takeWhile P (lx_rest lx),
      \<lparr>lx_rest = dropWhile P (lx_rest lx), lx_pos = lx_pos lx + length (takeWhile P (lx_rest lx))\<rparr>)"
  by (simp add: Lexer_while_def lex_while_spec)

function Tokenizer_SkipWhitespaceAndComments :: "Lexer \<Rightarrow> Lexer" where
  "Tokenizer_SkipWhitespaceAndComments lx =
     (if Lexer_AtEnd lx then lx
      else let c = Lexer_Peek lx
           in if Lexer_IsWhitespace c then Tokenizer_SkipWhitespaceAndComments (Lexer_Advance lx)
              else if c = CHR ''-'' \<and> Lexer_PeekNext lx = CHR ''-''
              then Tokenizer_SkipWhitespaceAndComments (snd (Lexer_while (\<lambda>c. c \<noteq> CHR 0x0A) lx []))
              else lx)"
  by pat_completeness auto
termination
proof (relation "measure (length \<circ> lx_rest)", goal_cases)
  case (2 lx c)
  then show ?case by (cases "lx_rest lx") (simp_all add: Lexer_AtEnd_def Lexer_Advance_def)
next
  case (3 lx c)
  then obtain cs where "lx_rest lx = CHR ''-'' # cs"
    by (cases "lx_rest lx") (simp_all add: Lexer_AtEnd_def Lexer_Peek_def)
  then show ?case by (simp add: Lexer_while_spec le_imp_less_Suc length_dropWhile_le)
qed simp

declare Tokenizer_SkipWhitespaceAndComments.simps [simp del]

definition Tokenizer_ScanNumber :: "Lexer \<Rightarrow> Token \<times> Lexer" where
  "Tokenizer_ScanNumber lx =
     (let start = lx_pos lx;
          (lexeme, lx1) = Lexer_while Lexer_IsDigit lx []
      in if \<not> Lexer_AtEnd lx1 \<and> Lexer_Peek lx1 = CHR ''.'' \<and> Lexer_IsDigit (Lexer_PeekNext lx1)
         then let (lexeme2, lx2) = Lexer_while Lexer_IsDigit (Lexer_Advance lx1) (lexeme @ [Lexer_Peek lx1])
              in (\<lparr>tok_type = kFloatLiteral, tok_lexeme = lexeme2, tok_position = start\<rparr>, lx2)
         else (\<lparr>tok_type = kIntLiteral, tok_lexeme = lexeme, tok_position = start\<rparr>, lx1))"

text \<open>\<open>std::to_string\<close> of an unsigned integer.\<close>

definition digit_char :: "nat \<Rightarrow> char" where
  "digit_char d = char_of (48 + d)"

fun show_nat :: "nat \<Rightarrow> string" where
  "show_nat n = (if n < 10 then [digit_char n] else show_nat (n div 10) @ [digit_char (n mod 10)])"

declare show_nat.simps [simp del]

text \<open>The loop of \<open>ScanString\<close>, behind the opening quote; \<open>None\<close> stands for the end of the input.\<close>

fun scan_string_loop :: "string \<Rightarrow> nat \<Rightarrow> string \<Rightarrow> (string \<times> Lexer) option" where
  "scan_string_loop [] pos acc = None"
| "scan_string_loop (c # cs) pos acc =
     (if c = CHR 0x27
      then case cs of
          [] \<Rightarrow> Some (acc, \<lparr>lx_rest = cs, lx_pos = pos + 1\<rparr>)
        | d # cs' \<Rightarrow>
            if d = CHR 0x27 then scan_string_loop cs' (pos + 2) (acc @ [CHR 0x27])
            else Some (acc, \<lparr>lx_rest = cs, lx_pos = pos + 1\<rparr>)
      else scan_string_loop cs (pos + 1) (acc @ [c]))"

definition Tokenizer_ScanString :: "Lexer \<Rightarrow> (Token \<times> Lexer) Result" where
  "Tokenizer_ScanString lx =
     (let start = lx_pos lx; lx1 = Lexer_Advance lx
      in case scan_string_loop (lx_rest lx1) (lx_pos lx1) [] of
           None \<Rightarrow> Inl (Status_InvalidArgument
             (''unterminated string literal starting at position '' @ show_nat start))
         | Some (v, lx2) \<Rightarrow>
             Inr (\<lparr>tok_type = kStringLiteral, tok_lexeme = v, tok_position = start\<rparr>, lx2))"

definition Tokenizer_ScanIdentifierOrKeyword :: "Lexer \<Rightarrow> Token \<times> Lexer" where
  "Tokenizer_ScanIdentifierOrKeyword lx =
     (let start = lx_pos lx;
          (lexeme, lx1) = Lexer_while Lexer_IsAlphaNumeric lx []
      in (\<lparr>tok_type = (case map_of KeywordTable (ToUpper lexeme) of Some t \<Rightarrow> t | None \<Rightarrow> kIdentifier),
           tok_lexeme = lexeme, tok_position = start\<rparr>, lx1))"

definition Tokenizer_ScanOperatorOrPunctuation :: "Lexer \<Rightarrow> Token \<times> Lexer" where
  "Tokenizer_ScanOperatorOrPunctuation lx =
     (let start = lx_pos lx; c = Lexer_Peek lx; lx1 = Lexer_Advance lx;
          one = (\<lambda>t s. (\<lparr>tok_type = t, tok_lexeme = s, tok_position = start\<rparr>, lx1));
          two = (\<lambda>t s. (\<lparr>tok_type = t, tok_lexeme = s, tok_position = start\<rparr>, Lexer_Advance lx1));
          follows = (\<lambda>d. \<not> Lexer_AtEnd lx1 \<and> Lexer_Peek lx1 = d)
      in if c = CHR ''*'' then one kStar ''*''
         else if c = CHR '','' then one kComma '',''
         else if c = CHR ''('' then one kLParen ''(''
         else if c = CHR '')'' then one kRParen '')''
         else if c = CHR '';'' then one kSemicolon '';''
         else if c = CHR ''.'' then one kDot ''.''
         else if c = CHR ''='' then one kEq ''=''
         else if c = CHR ''!''
         then if follows CHR ''='' then two kNeq ''!='' else one kInvalid ''!''
         else if c = CHR ''<''
         then if follows CHR ''='' then two kLte ''<=''
              else if follows CHR ''>'' then two kNeq ''<>'' else one kLt ''<''
         else if c = CHR ''>''
         then if follows CHR ''='' then two kGte ''>='' else one kGt ''>''
         else one kInvalid [c])"

definition Tokenizer_NextToken :: "Lexer \<Rightarrow> (Token \<times> Lexer) Result" where
  "Tokenizer_NextToken lx0 =
     (let lx = Tokenizer_SkipWhitespaceAndComments lx0
      in if Lexer_AtEnd lx
         then Inr (\<lparr>tok_type = kEndOfInput, tok_lexeme = [], tok_position = lx_pos lx\<rparr>, lx)
         else let c = Lexer_Peek lx
              in if Lexer_IsDigit c then Inr (Tokenizer_ScanNumber lx)
                 else if Lexer_IsAlpha c then Inr (Tokenizer_ScanIdentifierOrKeyword lx)
                 else if c = CHR 0x27 then Tokenizer_ScanString lx
                 else let (tok, lx1) = Tokenizer_ScanOperatorOrPunctuation lx
                      in if tok_type tok = kInvalid
                         then Inl (Status_InvalidArgument (''unexpected character '' @ [CHR 0x27] @ tok_lexeme tok @
                           [CHR 0x27] @ '' at position '' @ show_nat (tok_position tok)))
                         else Inr (tok, lx1))"

section \<open>Progress\<close>

lemma skip_le: "length (lx_rest (Tokenizer_SkipWhitespaceAndComments lx)) \<le> length (lx_rest lx)"
proof (induction lx rule: Tokenizer_SkipWhitespaceAndComments.induct)
  case (1 lx)
  have "length (dropWhile P (lx_rest lx)) \<le> length (lx_rest lx)" for P by (rule length_dropWhile_le)
  with 1 show ?case
    by (subst Tokenizer_SkipWhitespaceAndComments.simps)
      (fastforce simp: Let_def Lexer_Advance_def Lexer_while_spec intro: order_trans)
qed

lemma scan_string_loop_le:
  "scan_string_loop cs pos acc = Some (v, lx) \<Longrightarrow> length (lx_rest lx) < length cs"
  by (induction cs pos acc rule: scan_string_loop.induct) (auto split: if_splits list.splits)

lemma Peek_Cons: "\<not> Lexer_AtEnd lx \<Longrightarrow> \<exists>cs. lx_rest lx = Lexer_Peek lx # cs"
  by (cases "lx_rest lx") (simp_all add: Lexer_AtEnd_def Lexer_Peek_def)

lemma while_le: "P c \<Longrightarrow> length (dropWhile P (c # cs)) < length (c # cs)"
  by (simp add: le_imp_less_Suc length_dropWhile_le)

lemma ScanNumber_less:
  assumes "\<not> Lexer_AtEnd lx" and "Lexer_IsDigit (Lexer_Peek lx)"
  shows "length (lx_rest (snd (Tokenizer_ScanNumber lx))) < length (lx_rest lx)"
proof -
  obtain cs where cs: "lx_rest lx = Lexer_Peek lx # cs" using Peek_Cons [OF assms(1)] by blast
  let ?r = "dropWhile Lexer_IsDigit (lx_rest lx)"
  have "length ?r < length (lx_rest lx)"
    using while_le [of Lexer_IsDigit "Lexer_Peek lx" cs] assms(2) cs by simp
  moreover have "length (dropWhile Lexer_IsDigit (tl ?r)) \<le> length ?r"
    using length_dropWhile_le [of Lexer_IsDigit "tl ?r"] by simp
  ultimately show ?thesis
    by (auto simp: Tokenizer_ScanNumber_def Lexer_while_spec Lexer_Advance_def Let_def)
qed

lemma ScanIdentifier_less:
  assumes "\<not> Lexer_AtEnd lx" and "Lexer_IsAlpha (Lexer_Peek lx)"
  shows "length (lx_rest (snd (Tokenizer_ScanIdentifierOrKeyword lx))) < length (lx_rest lx)"
proof -
  obtain cs where cs: "lx_rest lx = Lexer_Peek lx # cs" using Peek_Cons [OF assms(1)] by blast
  have "Lexer_IsAlphaNumeric (Lexer_Peek lx)" using assms(2) by (simp add: Lexer_IsAlphaNumeric_def)
  with while_le [of Lexer_IsAlphaNumeric "Lexer_Peek lx" cs] cs show ?thesis
    by (simp add: Tokenizer_ScanIdentifierOrKeyword_def Lexer_while_spec Let_def)
qed

lemma ScanOperator_less:
  assumes "\<not> Lexer_AtEnd lx"
  shows "length (lx_rest (snd (Tokenizer_ScanOperatorOrPunctuation lx))) < length (lx_rest lx)"
proof -
  have "length (tl (lx_rest lx)) < length (lx_rest lx)" "length (tl (tl (lx_rest lx))) < length (lx_rest lx)"
    using assms by (simp_all add: Lexer_AtEnd_def)
  then show ?thesis by (simp add: Tokenizer_ScanOperatorOrPunctuation_def Lexer_Advance_def Let_def)
qed

lemma ScanString_less:
  assumes "Tokenizer_ScanString lx = Inr (tok, lx1)"
  shows "length (lx_rest lx1) < length (lx_rest lx)"
proof -
  obtain v where "scan_string_loop (tl (lx_rest lx)) (lx_pos lx + 1) [] = Some (v, lx1)"
    using assms by (auto simp: Tokenizer_ScanString_def Let_def Lexer_Advance_def split: option.splits)
  from scan_string_loop_le [OF this] show ?thesis by (cases "lx_rest lx") simp_all
qed

lemma NextToken_less:
  assumes "Tokenizer_NextToken lx0 = Inr (tok, lx1)" and "tok_type tok \<noteq> kEndOfInput"
  shows "length (lx_rest lx1) < length (lx_rest lx0)"
proof -
  let ?lx = "Tokenizer_SkipWhitespaceAndComments lx0" and ?c = "Lexer_Peek (Tokenizer_SkipWhitespaceAndComments lx0)"
  have ne: "\<not> Lexer_AtEnd ?lx" using assms by (auto simp: Tokenizer_NextToken_def Let_def)
  note nt = assms(1) [unfolded Tokenizer_NextToken_def Let_def]
  have "length (lx_rest lx1) < length (lx_rest ?lx)"
  proof (cases "Lexer_IsDigit ?c")
    case True
    with nt ne have "Tokenizer_ScanNumber ?lx = (tok, lx1)" by simp
    with ScanNumber_less [OF ne True] show ?thesis by simp
  next
    case nd: False
    show ?thesis
    proof (cases "Lexer_IsAlpha ?c")
      case True
      with nt ne nd have "Tokenizer_ScanIdentifierOrKeyword ?lx = (tok, lx1)" by simp
      with ScanIdentifier_less [OF ne True] show ?thesis by simp
    next
      case na: False
      show ?thesis
      proof (cases "?c = CHR 0x27")
        case True
        with nt ne nd na have "Tokenizer_ScanString ?lx = Inr (tok, lx1)" by simp
        then show ?thesis by (rule ScanString_less)
      next
        case False
        obtain tok' lx' where op: "Tokenizer_ScanOperatorOrPunctuation ?lx = (tok', lx')" by fastforce
        with nt ne nd na False have "lx' = lx1" by (simp split: if_splits)
        with ScanOperator_less [OF ne] op show ?thesis by simp
      qed
    qed
  qed
  with skip_le [of lx0] show ?thesis by simp
qed

section \<open>The whole input\<close>

function tokenize_loop :: "Lexer \<Rightarrow> Token list \<Rightarrow> Token list Result" where
  "tokenize_loop lx tokens =
     (case Tokenizer_NextToken lx of
        Inl e \<Rightarrow> Inl e
      | Inr (tok, lx1) \<Rightarrow>
          if tok_type tok = kEndOfInput then Inr (tokens @ [tok])
          else tokenize_loop lx1 (tokens @ [tok]))"
  by pat_completeness auto
termination
  by (relation "measure (length \<circ> lx_rest \<circ> fst)") (auto dest: NextToken_less)

declare tokenize_loop.simps [simp del]

definition Tokenizer_TokenizeAll :: "string \<Rightarrow> Token list Result" where
  "Tokenizer_TokenizeAll source = tokenize_loop \<lparr>lx_rest = source, lx_pos = 0\<rparr> []"

section \<open>Printing tokens\<close>

definition OperatorTable :: "(TokenType \<times> string) list" where
  "OperatorTable =
     [(kStar, ''*''), (kComma, '',''), (kLParen, ''(''), (kRParen, '')''), (kSemicolon, '';''), (kDot, ''.''),
      (kEq, ''=''), (kNeq, ''!=''), (kNeq, ''<>''), (kLt, ''<''), (kLte, ''<=''), (kGt, ''>''), (kGte, ''>='')]"

text \<open>The text of a token: a string literal is quoted, with its quotes doubled.\<close>

definition quote_string :: "string \<Rightarrow> string" where
  "quote_string s = CHR 0x27 # concat (map (\<lambda>c. if c = CHR 0x27 then [c, c] else [c]) s) @ [CHR 0x27]"

definition render :: "TokenType \<times> string \<Rightarrow> string" where
  "render t = (if fst t = kStringLiteral then quote_string (snd t) else snd t)"

fun is_word :: "string \<Rightarrow> bool" where
  "is_word [] \<longleftrightarrow> False"
| "is_word (c # cs) \<longleftrightarrow> Lexer_IsAlpha c \<and> list_all Lexer_IsAlphaNumeric cs"

definition is_digits :: "string \<Rightarrow> bool" where
  "is_digits s \<longleftrightarrow> s \<noteq> [] \<and> list_all Lexer_IsDigit s"

definition token_ok :: "TokenType \<times> string \<Rightarrow> bool" where
  "token_ok t = (case t of (ty, str) \<Rightarrow>
     if ty = kStringLiteral then True
     else if ty = kIntLiteral then is_digits str
     else if ty = kFloatLiteral
     then is_digits (takeWhile (\<lambda>c. c \<noteq> CHR ''.'') str) \<and> is_digits (tl (dropWhile (\<lambda>c. c \<noteq> CHR ''.'') str))
     else if t \<in> set OperatorTable then True
     else is_word str \<and> ty = (case map_of KeywordTable (ToUpper str) of Some k \<Rightarrow> k | None \<Rightarrow> kIdentifier))"

definition is_space :: "string \<Rightarrow> bool" where
  "is_space s \<longleftrightarrow> s \<noteq> [] \<and> list_all Lexer_IsWhitespace s"

section \<open>Scanning printed tokens\<close>

lemmas char_class_defs =
  Lexer_IsDigit_def Lexer_IsAlpha_def Lexer_IsAlphaNumeric_def Lexer_IsWhitespace_def char_in_def

lemma skip_space:
  "list_all Lexer_IsWhitespace ws \<Longrightarrow>
     Tokenizer_SkipWhitespaceAndComments \<lparr>lx_rest = ws @ cs, lx_pos = p\<rparr> =
     Tokenizer_SkipWhitespaceAndComments \<lparr>lx_rest = cs, lx_pos = p + length ws\<rparr>"
proof (induction ws arbitrary: p)
  case (Cons c ws)
  then show ?case
    by (subst Tokenizer_SkipWhitespaceAndComments.simps)
      (simp add: Lexer_AtEnd_def Lexer_Peek_def Lexer_Advance_def)
qed simp

lemma skip_none:
  "\<not> Lexer_IsWhitespace c \<Longrightarrow> c \<noteq> CHR ''-'' \<Longrightarrow>
     Tokenizer_SkipWhitespaceAndComments \<lparr>lx_rest = c # cs, lx_pos = p\<rparr> = \<lparr>lx_rest = c # cs, lx_pos = p\<rparr>"
  by (subst Tokenizer_SkipWhitespaceAndComments.simps) (simp add: Lexer_AtEnd_def Lexer_Peek_def)

lemma skip_end: "Tokenizer_SkipWhitespaceAndComments \<lparr>lx_rest = [], lx_pos = p\<rparr> = \<lparr>lx_rest = [], lx_pos = p\<rparr>"
  by (subst Tokenizer_SkipWhitespaceAndComments.simps) (simp add: Lexer_AtEnd_def)

lemma digit_other:
  assumes "Lexer_IsDigit c"
  shows "\<not> Lexer_IsWhitespace c" "c \<noteq> CHR ''-''" "c \<noteq> CHR ''.''"
  using assms by (auto simp: char_class_defs)

lemma alpha_other:
  assumes "Lexer_IsAlpha c"
  shows "\<not> Lexer_IsWhitespace c" "c \<noteq> CHR ''-''" "\<not> Lexer_IsDigit c"
  using assms by (auto simp: char_class_defs)

lemma space_other:
  assumes "Lexer_IsWhitespace c"
  shows "\<not> Lexer_IsDigit c" "\<not> Lexer_IsAlphaNumeric c" "c \<noteq> CHR ''.''" "c \<noteq> CHR ''=''" "c \<noteq> CHR ''>''" "c \<noteq> CHR 0x27"
  using assms by (auto simp: char_class_defs)

lemma takeWhile_stop:
  "list_all P xs \<Longrightarrow> \<not> P y \<Longrightarrow> takeWhile P (xs @ y # ys) = xs"
  "list_all P xs \<Longrightarrow> \<not> P y \<Longrightarrow> dropWhile P (xs @ y # ys) = y # ys"
  by (induction xs) auto

lemma scan_string_quoted:
  "c \<noteq> CHR 0x27 \<Longrightarrow>
     scan_string_loop (concat (map (\<lambda>c. if c = CHR 0x27 then [c, c] else [c]) s) @ CHR 0x27 # c # cs) p acc =
     Some (acc @ s, \<lparr>lx_rest = c # cs,
       lx_pos = p + length (concat (map (\<lambda>c. if c = CHR 0x27 then [c, c] else [c]) s)) + 1\<rparr>)"
  by (induction s arbitrary: p acc) auto

text \<open>\<open>scans t\<close>: in front of white space, the text of \<open>t\<close> is scanned as exactly that token.\<close>

definition scans :: "TokenType \<times> string \<Rightarrow> bool" where
  "scans t \<longleftrightarrow> (\<forall>w cs p. Lexer_IsWhitespace w \<longrightarrow>
     Tokenizer_NextToken \<lparr>lx_rest = render t @ w # cs, lx_pos = p\<rparr> =
     Inr (\<lparr>tok_type = fst t, tok_lexeme = snd t, tok_position = p\<rparr>,
          \<lparr>lx_rest = w # cs, lx_pos = p + length (render t)\<rparr>))"

lemma scans_int:
  assumes "is_digits s"
  shows "scans (kIntLiteral, s)"
  unfolding scans_def
proof (intro allI impI)
  fix w cs p assume w: "Lexer_IsWhitespace w"
  obtain c s' where s: "s = c # s'" and d: "Lexer_IsDigit c" "list_all Lexer_IsDigit s'"
    using assms by (cases s) (auto simp: is_digits_def)
  note stop = takeWhile_stop [OF d(2) space_other(1) [OF w], of cs]
  show "Tokenizer_NextToken \<lparr>lx_rest = render (kIntLiteral, s) @ w # cs, lx_pos = p\<rparr> =
     Inr (\<lparr>tok_type = fst (kIntLiteral, s), tok_lexeme = snd (kIntLiteral, s), tok_position = p\<rparr>,
          \<lparr>lx_rest = w # cs, lx_pos = p + length (render (kIntLiteral, s))\<rparr>)"
    using d(1) space_other(3) [OF w]
    by (simp add: render_def s Tokenizer_NextToken_def skip_none digit_other Lexer_AtEnd_def Lexer_Peek_def
        Tokenizer_ScanNumber_def Lexer_while_spec stop)
qed

lemma scans_float:
  assumes "is_digits a" and "is_digits b"
  shows "scans (kFloatLiteral, a @ CHR ''.'' # b)"
  unfolding scans_def
proof (intro allI impI)
  fix w cs p assume w: "Lexer_IsWhitespace w"
  obtain c a' where a: "a = c # a'" and d: "Lexer_IsDigit c" "list_all Lexer_IsDigit a'"
    using assms(1) by (cases a) (auto simp: is_digits_def)
  obtain e b' where b: "b = e # b'" and e: "Lexer_IsDigit e" "list_all Lexer_IsDigit b'"
    using assms(2) by (cases b) (auto simp: is_digits_def)
  have dot: "\<not> Lexer_IsDigit CHR ''.''" by (simp add: char_class_defs)
  note stop = takeWhile_stop [OF d(2) dot] takeWhile_stop [OF e(2) space_other(1) [OF w], of cs]
  show "Tokenizer_NextToken \<lparr>lx_rest = render (kFloatLiteral, a @ CHR ''.'' # b) @ w # cs, lx_pos = p\<rparr> =
     Inr (\<lparr>tok_type = fst (kFloatLiteral, a @ CHR ''.'' # b), tok_lexeme = snd (kFloatLiteral, a @ CHR ''.'' # b),
          tok_position = p\<rparr>,
          \<lparr>lx_rest = w # cs, lx_pos = p + length (render (kFloatLiteral, a @ CHR ''.'' # b))\<rparr>)"
    using d(1) e(1)
    by (simp add: render_def a b Tokenizer_NextToken_def skip_none digit_other Lexer_AtEnd_def Lexer_Peek_def
        Tokenizer_ScanNumber_def Lexer_while_spec stop Lexer_PeekNext_def Lexer_Advance_def)
qed

lemma scans_string: "scans (kStringLiteral, s)"
  unfolding scans_def
proof (intro allI impI)
  fix w cs p assume w: "Lexer_IsWhitespace w"
  have q: "\<not> Lexer_IsWhitespace CHR 0x27" "\<not> Lexer_IsDigit CHR 0x27" "\<not> Lexer_IsAlpha CHR 0x27"
    by (simp_all add: char_class_defs)
  show "Tokenizer_NextToken \<lparr>lx_rest = render (kStringLiteral, s) @ w # cs, lx_pos = p\<rparr> =
     Inr (\<lparr>tok_type = fst (kStringLiteral, s), tok_lexeme = snd (kStringLiteral, s), tok_position = p\<rparr>,
          \<lparr>lx_rest = w # cs, lx_pos = p + length (render (kStringLiteral, s))\<rparr>)"
    using q scan_string_quoted [OF space_other(6) [OF w], of s cs "Suc p" "[]"]
    by (simp add: render_def quote_string_def Tokenizer_NextToken_def skip_none Lexer_AtEnd_def Lexer_Peek_def
        Tokenizer_ScanString_def Lexer_Advance_def)
qed

lemma scans_word:
  assumes "is_word s" and "ty = (case map_of KeywordTable (ToUpper s) of Some k \<Rightarrow> k | None \<Rightarrow> kIdentifier)"
    and "ty \<noteq> kStringLiteral"
  shows "scans (ty, s)"
  unfolding scans_def
proof (intro allI impI)
  fix w cs p assume w: "Lexer_IsWhitespace w"
  obtain c s' where s: "s = c # s'" and d: "Lexer_IsAlpha c" "list_all Lexer_IsAlphaNumeric s'"
    using assms(1) by (cases s) auto
  have al: "Lexer_IsAlphaNumeric c" using d(1) by (simp add: Lexer_IsAlphaNumeric_def)
  note stop = takeWhile_stop [OF d(2) space_other(2) [OF w], of cs]
  have "Tokenizer_ScanIdentifierOrKeyword \<lparr>lx_rest = s @ w # cs, lx_pos = p\<rparr> =
      (\<lparr>tok_type = ty, tok_lexeme = s, tok_position = p\<rparr>, \<lparr>lx_rest = w # cs, lx_pos = p + length s\<rparr>)"
    unfolding Tokenizer_ScanIdentifierOrKeyword_def using al assms(2)
    by (simp add: Lexer_while_spec s stop)
  with d(1) assms(3) show "Tokenizer_NextToken \<lparr>lx_rest = render (ty, s) @ w # cs, lx_pos = p\<rparr> =
     Inr (\<lparr>tok_type = fst (ty, s), tok_lexeme = snd (ty, s), tok_position = p\<rparr>,
          \<lparr>lx_rest = w # cs, lx_pos = p + length (render (ty, s))\<rparr>)"
    by (simp add: render_def s Tokenizer_NextToken_def skip_none alpha_other Lexer_AtEnd_def Lexer_Peek_def)
qed

lemma scans_operator:
  assumes "t \<in> set OperatorTable"
  shows "scans t"
  unfolding scans_def
proof (intro allI impI)
  fix w cs p assume w: "Lexer_IsWhitespace w"
  note cls = Tokenizer_NextToken_def skip_none Lexer_AtEnd_def Lexer_Peek_def Lexer_Advance_def
    Tokenizer_ScanOperatorOrPunctuation_def Let_def char_class_defs
  show "Tokenizer_NextToken \<lparr>lx_rest = render t @ w # cs, lx_pos = p\<rparr> =
     Inr (\<lparr>tok_type = fst t, tok_lexeme = snd t, tok_position = p\<rparr>,
          \<lparr>lx_rest = w # cs, lx_pos = p + length (render t)\<rparr>)"
    using assms space_other(4,5) [OF w] unfolding OperatorTable_def
    by (simp only: list.set insert_iff empty_iff simp_thms) (elim disjE; simp add: render_def cls)
qed

lemma token_ok_scans:
  assumes "token_ok t"
  shows "scans t"
proof -
  obtain ty str where t: "t = (ty, str)" by fastforce
  show ?thesis
  proof (cases "ty = kFloatLiteral")
    case True
    let ?a = "takeWhile (\<lambda>c. c \<noteq> CHR ''.'') str" and ?d = "dropWhile (\<lambda>c. c \<noteq> CHR ''.'') str"
    have d: "is_digits ?a" "is_digits (tl ?d)" using assms True by (auto simp: token_ok_def t)
    then have "?d \<noteq> []" unfolding is_digits_def by (metis list.sel(2))
    then have "?d = CHR ''.'' # tl ?d"
      using hd_dropWhile [of "\<lambda>c. c \<noteq> CHR ''.''" str] by (cases ?d) auto
    then have "str = ?a @ CHR ''.'' # tl ?d" by (metis takeWhile_dropWhile_id)
    with scans_float [OF d] True show ?thesis by (simp add: t)
  next
    case False
    with assms show ?thesis
      using scans_int scans_string scans_word scans_operator
      by (auto simp: token_ok_def t split: if_splits)
  qed
qed

lemma NextToken_space:
  assumes "scans t" and "list_all Lexer_IsWhitespace ws" and "is_space sep"
  shows "Tokenizer_NextToken \<lparr>lx_rest = ws @ render t @ sep @ cs, lx_pos = p\<rparr> =
     Inr (\<lparr>tok_type = fst t, tok_lexeme = snd t, tok_position = p + length ws\<rparr>,
          \<lparr>lx_rest = sep @ cs, lx_pos = p + length ws + length (render t)\<rparr>)"
proof -
  obtain w sep' where "sep = w # sep'" "Lexer_IsWhitespace w" using assms(3) by (cases sep) (auto simp: is_space_def)
  then have "Tokenizer_NextToken \<lparr>lx_rest = render t @ sep @ cs, lx_pos = p + length ws\<rparr> =
     Inr (\<lparr>tok_type = fst t, tok_lexeme = snd t, tok_position = p + length ws\<rparr>,
          \<lparr>lx_rest = sep @ cs, lx_pos = p + length ws + length (render t)\<rparr>)"
    using assms(1) by (simp add: scans_def)
  moreover have "Tokenizer_NextToken \<lparr>lx_rest = ws @ xs, lx_pos = p\<rparr> =
      Tokenizer_NextToken \<lparr>lx_rest = xs, lx_pos = p + length ws\<rparr>" for xs
    by (simp add: Tokenizer_NextToken_def skip_space [OF assms(2)])
  ultimately show ?thesis by simp
qed

lemma tokenize_loop_rendered:
  assumes "list_all (\<lambda>(t, sep). token_ok t \<and> fst t \<noteq> kEndOfInput \<and> is_space sep) ts" and "list_all Lexer_IsWhitespace ws"
  shows "\<exists>toks. tokenize_loop \<lparr>lx_rest = ws @ concat (map (\<lambda>(t, sep). render t @ sep) ts), lx_pos = p\<rparr> acc =
      Inr (acc @ toks) \<and> map (\<lambda>tok. (tok_type tok, tok_lexeme tok)) toks = map fst ts @ [(kEndOfInput, [])]"
  using assms
proof (induction ts arbitrary: ws p acc)
  case Nil
  have "Tokenizer_NextToken \<lparr>lx_rest = ws, lx_pos = p\<rparr> =
      Inr (\<lparr>tok_type = kEndOfInput, tok_lexeme = [], tok_position = p + length ws\<rparr>, \<lparr>lx_rest = [], lx_pos = p + length ws\<rparr>)"
    using skip_space [OF Nil.prems(2), of "[]" p] by (simp add: Tokenizer_NextToken_def skip_end Lexer_AtEnd_def)
  then show ?case by (subst tokenize_loop.simps) simp
next
  case (Cons x ts)
  obtain t sep where x: "x = (t, sep)" by fastforce
  have t: "token_ok t" "fst t \<noteq> kEndOfInput" "is_space sep" using Cons.prems(1) by (simp_all add: x)
  let ?tok = "\<lparr>tok_type = fst t, tok_lexeme = snd t, tok_position = p + length ws\<rparr>"
  let ?cs = "concat (map (\<lambda>(t, sep). render t @ sep) ts)"
  have "Tokenizer_NextToken \<lparr>lx_rest = ws @ render t @ sep @ ?cs, lx_pos = p\<rparr> =
      Inr (?tok, \<lparr>lx_rest = sep @ ?cs, lx_pos = p + length ws + length (render t)\<rparr>)"
    using NextToken_space [OF token_ok_scans [OF t(1)] Cons.prems(2) t(3)] by simp
  moreover obtain toks where
    "tokenize_loop \<lparr>lx_rest = sep @ ?cs, lx_pos = p + length ws + length (render t)\<rparr> (acc @ [?tok]) =
      Inr ((acc @ [?tok]) @ toks)"
    "map (\<lambda>tok. (tok_type tok, tok_lexeme tok)) toks = map fst ts @ [(kEndOfInput, [])]"
    using Cons.IH [of sep "p + length ws + length (render t)" "acc @ [?tok]"] Cons.prems(1) t(3)
    by (auto simp: is_space_def)
  ultimately show ?case
    using t(2) by (intro exI [of _ "?tok # toks"]) (subst tokenize_loop.simps, simp add: x)
qed

text \<open>
  C38. Scanning undoes printing: a sequence of well-formed tokens, printed with arbitrary non-empty white
  space behind each of them, is scanned as exactly that sequence followed by the end of input.
  Keywords keep their spelling and are recognised in any case, strings may contain quotes, and
  numbers keep their digits. The scanner terminates on every input.
\<close>

theorem tokenize_rendered:
  assumes "list_all (\<lambda>(t, sep). token_ok t \<and> fst t \<noteq> kEndOfInput \<and> is_space sep) ts"
  shows "\<exists>toks. Tokenizer_TokenizeAll (concat (map (\<lambda>(t, sep). render t @ sep) ts)) = Inr toks \<and>
    map (\<lambda>tok. (tok_type tok, tok_lexeme tok)) toks = map fst ts @ [(kEndOfInput, [])]"
  using tokenize_loop_rendered [OF assms, of "[]" 0 "[]"] by (simp add: Tokenizer_TokenizeAll_def)

definition demo_tokens :: "((TokenType \<times> string) \<times> string) list" where
  "demo_tokens = [((kSelect, ''Select''), '' ''), ((kIdentifier, ''a1''), '' ''), ((kFrom, ''FROM''), '' ''),
     ((kIdentifier, ''t''), '' ''), ((kStringLiteral, ''it'' @ [CHR 0x27] @ ''s''), '' ''),
     ((kFloatLiteral, ''1.50''), '' ''), ((kLte, ''<=''), '' '')]"

theorem tokenize_rendered_witness:
  "\<exists>toks. Tokenizer_TokenizeAll (concat (map (\<lambda>(t, sep). render t @ sep) demo_tokens)) = Inr toks \<and>
     map tok_type toks = [kSelect, kIdentifier, kFrom, kIdentifier, kStringLiteral, kFloatLiteral, kLte, kEndOfInput]"
proof -
  have "list_all (\<lambda>(t, sep). token_ok t \<and> fst t \<noteq> kEndOfInput \<and> is_space sep) demo_tokens"
    by (simp add: demo_tokens_def token_ok_def is_digits_def is_space_def char_class_defs ToUpper_def upper_char_def
        KeywordTable_def OperatorTable_def char_of_def bit_0)
  from tokenize_rendered [OF this] obtain toks where
    t: "Tokenizer_TokenizeAll (concat (map (\<lambda>(t, sep). render t @ sep) demo_tokens)) = Inr toks"
      "map (\<lambda>tok. (tok_type tok, tok_lexeme tok)) toks = map fst demo_tokens @ [(kEndOfInput, [])]" by blast
  have "map tok_type toks = map fst (map (\<lambda>tok. (tok_type tok, tok_lexeme tok)) toks)" by simp
  with t show ?thesis by (simp add: demo_tokens_def)
qed

end
