(* ===== verification/Doubles.thy ===== *)
theory Doubles
  imports Prelude "HOL-Library.Log_Nat"
begin

text \<open>
  IEEE-754 binary64 numbers as bit patterns: the order, the conversion of integers and decimal
  numbers with rounding to nearest, ties to even, and addition and division, as the C++ code uses
  them on values of type \<open>double\<close>. A finite number is an integer multiple of \<open>2 ^ -1074\<close>;
  \<open>d_scaled\<close> is that integer.
\<close>

unbundle bit_operations_syntax

type_synonym double = "64 word"

definition d_negative :: "double \<Rightarrow> bool" where
  "d_negative w \<longleftrightarrow> 2 ^ 63 \<le> unat w"

text \<open>Exponent and fraction field of the pattern without its sign bit.\<close>

definition d_magnitude :: "double \<Rightarrow> nat" where
  "d_magnitude w = unat w mod 2 ^ 63"

definition d_nan :: "double \<Rightarrow> bool" where
  "d_nan w \<longleftrightarrow> 2047 * 2 ^ 52 < d_magnitude w"

definition d_inf :: "double \<Rightarrow> bool" where
  "d_inf w \<longleftrightarrow> d_magnitude w = 2047 * 2 ^ 52"

text \<open>
  The value of a magnitude in units of \<open>2 ^ -1074\<close>; for infinity it is a number above all
  finite ones, so that comparing scaled values compares infinities too.
\<close>

definition scaled_magnitude :: "nat \<Rightarrow> nat" where
  "scaled_magnitude m =
     (if m < 2 ^ 52 then m else (2 ^ 52 + m mod 2 ^ 52) * 2 ^ (m div 2 ^ 52 - 1))"

definition d_scaled :: "double \<Rightarrow> int" where
  "d_scaled w = (if d_negative w then - int (scaled_magnitude (d_magnitude w))
                 else int (scaled_magnitude (d_magnitude w)))"

definition d_less :: "double \<Rightarrow> double \<Rightarrow> bool" where
  "d_less a b \<longleftrightarrow> \<not> d_nan a \<and> \<not> d_nan b \<and> d_scaled a < d_scaled b"

definition d_eq :: "double \<Rightarrow> double \<Rightarrow> bool" where
  "d_eq a b \<longleftrightarrow> \<not> d_nan a \<and> \<not> d_nan b \<and> d_scaled a = d_scaled b"

section \<open>Rounding\<close>

text \<open>The integer nearest to \<open>n / d\<close>, the even one of two equally near.\<close>

definition round_even :: "nat \<Rightarrow> nat \<Rightarrow> nat" where
  "round_even n d =
     (let q = n div d; r = n mod d
      in if 2 * r < d \<or> 2 * r = d \<and> even q then q else q + 1)"

text \<open>
  The magnitude nearest to \<open>n / d\<close> units. The exponent is the least one for which the
  significand has at most 53 bits. A significand rounded up to \<open>2 ^ 53\<close> carries into the
  exponent field by the arithmetic on the pattern. Magnitudes beyond the largest finite number
  become infinity.
\<close>

definition round_exponent :: "nat \<Rightarrow> nat" where
  "round_exponent q = floorlog 2 q - 53"

definition round_magnitude :: "nat \<Rightarrow> nat \<Rightarrow> nat" where
  "round_magnitude n d =
     (let e = round_exponent (n div d); m = round_even n (d * 2 ^ e)
      in min (e * 2 ^ 52 + m) (2047 * 2 ^ 52))"

definition d_make :: "bool \<Rightarrow> nat \<Rightarrow> double" where
  "d_make neg m = word_of_nat ((if neg then 2 ^ 63 else 0) + m)"

definition d_of_ratio :: "int \<Rightarrow> nat \<Rightarrow> double" where
  "d_of_ratio n d = d_make (n < 0) (round_magnitude (nat \<bar>n\<bar>) d)"

text \<open>\<open>static_cast<double>\<close> of an integer.\<close>

definition d_of_int :: "int \<Rightarrow> double" where
  "d_of_int i = d_of_ratio (i * 2 ^ 1074) 1"

text \<open>
  Addition and division. \<open>d_quiet_nan\<close> is the result of an operation without a defined value.
  A sum of zero is positive zero unless both operands are negative.
\<close>

definition d_quiet_nan :: double where
  "d_quiet_nan = 0x7FF8000000000000"

definition d_infinity :: "bool \<Rightarrow> double" where
  "d_infinity neg = d_make neg (2047 * 2 ^ 52)"

definition d_add :: "double \<Rightarrow> double \<Rightarrow> double" where
  "d_add a b =
     (if d_nan a \<or> d_nan b then d_quiet_nan
      else if d_inf a then (if d_inf b \<and> d_negative a \<noteq> d_negative b then d_quiet_nan else a)
      else if d_inf b then b
      else let s = d_scaled a + d_scaled b
           in if s = 0 then d_make (d_negative a \<and> d_negative b) 0 else d_of_ratio s 1)"

definition d_div :: "double \<Rightarrow> double \<Rightarrow> double" where
  "d_div a b =
     (let neg = (d_negative a \<noteq> d_negative b)
      in if d_nan a \<or> d_nan b then d_quiet_nan
         else if d_inf a then (if d_inf b then d_quiet_nan else d_infinity neg)
         else if d_inf b then d_make neg 0
         else if d_scaled b = 0 then (if d_scaled a = 0 then d_quiet_nan else d_infinity neg)
         else d_make neg (round_magnitude (nat \<bar>d_scaled a\<bar> * 2 ^ 1074) (nat \<bar>d_scaled b\<bar>)))"

section \<open>Exactness and order\<close>

lemma round_even_exact: "0 < d \<Longrightarrow> round_even (q * d) d = q"
  by (simp add: round_even_def)

lemma round_even_mono:
  assumes "0 < d" and "n \<le> n'"
  shows "round_even n d \<le> round_even n' d"
proof -
  have q: "n div d \<le> n' div d" using assms(2) by (rule div_le_mono)
  show ?thesis
  proof (cases "n div d = n' div d")
    case True
    have "n' mod d = n' - d * (n div d)" "n mod d = n - d * (n div d)"
      using True by (simp_all add: minus_mult_div_eq_mod [symmetric])
    then have "n mod d \<le> n' mod d" using assms(2) by simp
    with True show ?thesis by (auto simp: round_even_def Let_def)
  next
    case False
    with q show ?thesis by (auto simp: round_even_def Let_def)
  qed
qed

lemma floorlog_bounds:
  assumes "0 < q"
  shows "2 ^ (floorlog 2 q - 1) \<le> q" "q < 2 ^ floorlog 2 q" "0 < floorlog 2 q"
  using floorlog_bounds [of q 2] assms floorlog_eq_zero_iff [of 2 q] by auto

lemma round_even_bounds:
  assumes "0 < d" and "0 < n"
  shows "l * d \<le> n \<Longrightarrow> l \<le> round_even n d" and "n \<le> l * d \<Longrightarrow> round_even n d \<le> l"
  using round_even_mono [OF assms(1), of "l * d" n] round_even_mono [OF assms(1), of n "l * d"]
    round_even_exact [OF assms(1), of l] by simp_all

lemma round_significand:
  assumes "0 < n" and "e = round_exponent n"
  shows "round_even n (2 ^ e) \<le> 2 ^ 53" and "0 < e \<Longrightarrow> 2 ^ 52 \<le> round_even n (2 ^ e)"
proof -
  let ?l = "floorlog 2 n"
  have b: "2 ^ (?l - 1) \<le> n" "n < 2 ^ ?l" "0 < ?l" using floorlog_bounds [OF assms(1)] by simp_all
  have "?l \<le> 53 + e" using assms(2) by (simp add: round_exponent_def)
  then have "(2 :: nat) ^ ?l \<le> 2 ^ (53 + e)" by (intro power_increasing) simp_all
  with b(2) have "n \<le> 2 ^ 53 * 2 ^ e" by (simp add: power_add)
  then show "round_even n (2 ^ e) \<le> 2 ^ 53" by (intro round_even_bounds) (simp_all add: assms(1))
  assume "0 < e"
  then have "?l - 1 = 52 + e" using assms(2) by (simp add: round_exponent_def)
  with b(1) have "2 ^ 52 * 2 ^ e \<le> n" by (simp add: power_add)
  then show "2 ^ 52 \<le> round_even n (2 ^ e)" by (intro round_even_bounds) (simp_all add: assms(1))
qed

lemma round_magnitude_mono:
  assumes "n \<le> n'"
  shows "round_magnitude n 1 \<le> round_magnitude n' 1"
proof (cases "0 < n")
  case True
  let ?e = "round_exponent n" and ?e' = "round_exponent n'"
  have ee: "?e \<le> ?e'" unfolding round_exponent_def using floorlog_mono [OF assms, of 2] by simp
  have "?e * 2 ^ 52 + round_even n (2 ^ ?e) \<le> ?e' * 2 ^ 52 + round_even n' (2 ^ ?e')"
  proof (cases "?e = ?e'")
    case True
    with round_even_mono [of "2 ^ ?e" n n'] assms show ?thesis by simp
  next
    case False
    then have less: "?e + 1 \<le> ?e'" using ee by simp
    have "?e * 2 ^ 52 + round_even n (2 ^ ?e) \<le> (?e + 1) * 2 ^ 52 + 2 ^ 52"
      using round_significand(1) [OF True, of ?e] by simp
    also have "\<dots> \<le> ?e' * 2 ^ 52 + 2 ^ 52"
      using less by (intro add_right_mono mult_right_mono) simp_all
    also have "\<dots> \<le> ?e' * 2 ^ 52 + round_even n' (2 ^ ?e')"
      using round_significand(2) [of n' ?e'] True assms less by simp
    finally show ?thesis .
  qed
  then show ?thesis by (simp add: round_magnitude_def Let_def)
qed (simp add: round_magnitude_def Let_def round_exponent_def round_even_def floorlog_def)

lemma scaled_magnitude_pattern:
  assumes "2 ^ 52 \<le> m" and "m < 2 ^ 53"
  shows "scaled_magnitude (e * 2 ^ 52 + m) = m * 2 ^ e"
proof -
  define f where "f = m - 2 ^ 52"
  have m: "m = 2 ^ 52 + f" "f < 2 ^ 52" using assms by (simp_all add: f_def)
  have x: "e * 2 ^ 52 + m = (e + 1) * 2 ^ 52 + f" by (simp add: m(1))
  have "(e * 2 ^ 52 + m) div 2 ^ 52 = e + 1" "(e * 2 ^ 52 + m) mod 2 ^ 52 = f"
    unfolding x using m(2) by (simp_all only: div_mult_self3 mod_mult_self3 mod_less) simp_all
  moreover have "\<not> e * 2 ^ 52 + m < 2 ^ 52" using assms(1) by simp
  ultimately show ?thesis by (simp add: scaled_magnitude_def m(1))
qed

text \<open>A number below \<open>2 ^ 53\<close>, times a power of two, is representable and is its own rounding.\<close>

lemma scaled_round_exact:
  assumes "0 < k" and "k < 2 ^ 53" and "53 \<le> E" and "E \<le> 1900"
  shows "scaled_magnitude (round_magnitude (k * 2 ^ E) 1) = k * 2 ^ E"
    and "round_magnitude (k * 2 ^ E) 1 < 2047 * 2 ^ 52"
proof -
  define L where "L = floorlog 2 k"
  have L: "2 ^ (L - 1) \<le> k" "k < 2 ^ L" "0 < L" using floorlog_bounds [OF assms(1)] by (simp_all add: L_def)
  have L53: "L \<le> 53" using floorlog_leI [of k 2 53] assms(2) by (simp add: L_def)
  define e where "e = L + E - 53"
  have e: "round_exponent (k * 2 ^ E) = e" using assms(1) by (simp add: round_exponent_def e_def L_def)
  define m where "m = k * 2 ^ (E - e)"
  have sh: "E - e = 53 - L" "e \<le> E" using L53 L(3) assms(3) by (simp_all add: e_def)
  have n: "k * 2 ^ E = m * 2 ^ e" unfolding m_def using sh(2) by (simp add: power_add [symmetric] mult.assoc)
  have "m < 2 ^ L * 2 ^ (53 - L)" unfolding m_def sh(1) using L(2) by simp
  then have m2: "m < 2 ^ 53" using L53 by (simp add: power_add [symmetric])
  have "2 ^ (L - 1) * 2 ^ (53 - L) \<le> m" unfolding m_def sh(1) using L(1) by simp
  moreover have "(L - 1) + (53 - L) = 52" using L53 L(3) by simp
  ultimately have m1: "2 ^ 52 \<le> m" by (simp add: power_add [symmetric])
  have "e \<le> 1900" using L53 assms(4) by (simp add: e_def)
  then have "e * 2 ^ 52 + m < 2047 * 2 ^ 52" using m2 by (simp add: algebra_simps)
  moreover have r: "round_even (m * 2 ^ e) (2 ^ e) = m" by (rule round_even_exact) simp
  ultimately have "round_magnitude (k * 2 ^ E) 1 = e * 2 ^ 52 + m"
    using e by (simp add: round_magnitude_def Let_def n)
  with scaled_magnitude_pattern [OF m1 m2, of e] \<open>e * 2 ^ 52 + m < 2047 * 2 ^ 52\<close>
  show "scaled_magnitude (round_magnitude (k * 2 ^ E) 1) = k * 2 ^ E"
    and "round_magnitude (k * 2 ^ E) 1 < 2047 * 2 ^ 52"
    by (simp_all only: n)
qed

lemma round_magnitude_le: "round_magnitude n d \<le> 2047 * 2 ^ 52"
  by (simp add: round_magnitude_def Let_def)

lemma round_magnitude_0 [simp]: "round_magnitude 0 d = 0"
  by (cases "d = 0") (simp_all add: round_magnitude_def round_exponent_def round_even_def floorlog_def Let_def)

lemma scaled_magnitude_mono:
  assumes "m \<le> m'"
  shows "scaled_magnitude m \<le> scaled_magnitude m'"
proof (cases "m div 2 ^ 52 = m' div 2 ^ 52")
  case True
  have "m mod 2 ^ 52 \<le> m' mod 2 ^ 52"
    using assms True by (metis add_le_cancel_left mult_div_mod_eq)
  with True assms show ?thesis
    by (simp only: scaled_magnitude_def div_eq_0_iff [symmetric] split: if_split) (auto simp: div_eq_0_iff)
next
  case False
  define q where "q = m div 2 ^ 52"
  define q' where "q' = m' div 2 ^ 52"
  have q: "q < q'" using False assms div_le_mono [OF assms, of "2 ^ 52"] by (simp add: q_def q'_def)
  have "m' = q' * 2 ^ 52 + m' mod 2 ^ 52" by (simp add: q'_def)
  moreover have "1 * 2 ^ 52 \<le> q' * 2 ^ 52" using q by (intro mult_right_mono) simp_all
  ultimately have big: "2 ^ 52 \<le> m'" by linarith
  have hi: "2 ^ 52 * 2 ^ (q' - 1) \<le> scaled_magnitude m'"
    using big by (simp add: scaled_magnitude_def q'_def)
  show ?thesis
  proof (cases "m < 2 ^ 52")
    case True
    then have "scaled_magnitude m \<le> 2 ^ 52 * 1" by (simp add: scaled_magnitude_def)
    also have "\<dots> \<le> 2 ^ 52 * 2 ^ (q' - 1)" by (intro mult_left_mono) simp_all
    finally show ?thesis using hi by linarith
  next
    case large: False
    then have "0 < q" unfolding q_def by (simp add: div_greater_zero_iff)
    then have "q = Suc (q - 1)" by simp
    have "scaled_magnitude m = (2 ^ 52 + m mod 2 ^ 52) * 2 ^ (q - 1)"
      using large by (simp add: scaled_magnitude_def q_def)
    also have "\<dots> \<le> 2 ^ 53 * 2 ^ (q - 1)"
      using mod_less_divisor [of "2 ^ 52" m] by (intro mult_right_mono) simp_all
    also have "\<dots> = 2 ^ 52 * 2 ^ Suc (q - 1)" by simp
    also have "\<dots> \<le> 2 ^ 52 * 2 ^ (q' - 1)"
      using q \<open>0 < q\<close> by (intro mult_left_mono power_increasing) simp_all
    finally show ?thesis using hi by linarith
  qed
qed

lemma d_make_fields:
  assumes "m < 2 ^ 63"
  shows "d_magnitude (d_make neg m) = m" and "d_negative (d_make neg m) = neg"
proof -
  have "unat (d_make neg m) = (if neg then 2 ^ 63 else 0) + m"
    unfolding d_make_def unat_of_nat by (rule mod_less) (use assms in simp)
  then show "d_magnitude (d_make neg m) = m" "d_negative (d_make neg m) = neg"
    using assms by (simp_all add: d_magnitude_def d_negative_def)
qed

lemma d_of_ratio_scaled:
  "d_scaled (d_of_ratio n d) = (if n < 0 then - int (scaled_magnitude (round_magnitude (nat \<bar>n\<bar>) d))
     else int (scaled_magnitude (round_magnitude (nat \<bar>n\<bar>) d)))"
  "\<not> d_nan (d_of_ratio n d)"
proof -
  have "round_magnitude (nat \<bar>n\<bar>) d < 2 ^ 63" using round_magnitude_le [of "nat \<bar>n\<bar>" d] by simp
  note f = d_make_fields [OF this]
  show "d_scaled (d_of_ratio n d) = (if n < 0 then - int (scaled_magnitude (round_magnitude (nat \<bar>n\<bar>) d))
     else int (scaled_magnitude (round_magnitude (nat \<bar>n\<bar>) d)))"
    by (simp only: d_of_ratio_def d_scaled_def f)
  show "\<not> d_nan (d_of_ratio n d)"
    unfolding d_of_ratio_def d_nan_def f using round_magnitude_le [of "nat \<bar>n\<bar>" d] by simp
qed

text \<open>Conversion of integers keeps the order, and is exact below \<open>2 ^ 53\<close>.\<close>

lemma d_of_int_not_nan [simp]: "\<not> d_nan (d_of_int i)"
  by (simp add: d_of_int_def d_of_ratio_scaled(2))

lemma d_of_int_mono:
  assumes "i \<le> j"
  shows "d_scaled (d_of_int i) \<le> d_scaled (d_of_int j)"
proof -
  let ?r = "\<lambda>k :: int. scaled_magnitude (round_magnitude (nat \<bar>k * 2 ^ 1074\<bar>) 1)"
  have mono: "?r k \<le> ?r l" if "\<bar>k\<bar> \<le> \<bar>l\<bar>" for k l
    using that by (intro scaled_magnitude_mono round_magnitude_mono nat_mono) (simp add: abs_mult mult_right_mono)
  have neg: "k * 2 ^ 1074 < 0 \<longleftrightarrow> k < 0" for k :: int by (simp add: mult_less_0_iff)
  show ?thesis
    unfolding d_of_int_def d_of_ratio_scaled(1) neg using assms mono [of i j] mono [of j i] by auto
qed

lemma d_of_int_exact:
  assumes "\<bar>i\<bar> < 2 ^ 53"
  shows "d_scaled (d_of_int i) = i * 2 ^ 1074"
proof (cases "i = 0")
  case True
  then show ?thesis by (simp add: d_of_int_def d_of_ratio_scaled(1) scaled_magnitude_def)
next
  case False
  define k where "k = nat \<bar>i\<bar>"
  have k: "0 < k" "k < 2 ^ 53" using assms False by (simp_all add: k_def nat_less_iff)
  have n: "nat \<bar>i * 2 ^ 1074\<bar> = k * 2 ^ 1074" by (simp add: k_def abs_mult nat_mult_distrib)
  have "scaled_magnitude (round_magnitude (nat \<bar>i * 2 ^ 1074\<bar>) 1) = k * 2 ^ 1074"
    unfolding n by (rule scaled_round_exact [OF k]) simp_all
  moreover have "i * 2 ^ 1074 < 0 \<longleftrightarrow> i < 0" by (simp add: mult_less_0_iff)
  moreover have "int k = \<bar>i\<bar>" by (simp add: k_def)
  ultimately show ?thesis
    unfolding d_of_int_def d_of_ratio_scaled(1) by (simp only: of_nat_mult of_nat_power) simp
qed

lemma d_of_int_order:
  assumes "\<bar>i\<bar> < 2 ^ 53" and "\<bar>j\<bar> < 2 ^ 53"
  shows "d_less (d_of_int i) (d_of_int j) \<longleftrightarrow> i < j" and "d_eq (d_of_int i) (d_of_int j) \<longleftrightarrow> i = j"
  using assms by (simp_all add: d_less_def d_eq_def d_of_int_exact)

end
