(* ===== verification/Ast.thy ===== *)
theory Ast
  imports Values Tokenizer Doubles
begin

text \<open>
  The syntax trees of \<open>src/parser/ast.hpp\<close> and the conversions of number literals. A null
  \<open>ExprPtr\<close> of a statement is \<open>None\<close>.
\<close>

datatype BinaryOp = kEq | kNeq | kLt | kLte | kGt | kGte | kAnd | kOr

datatype Expr =
    ColumnRefExpr string
  | LiteralExpr Value
  | BinaryExpr Expr BinaryOp Expr

datatype AggregateFunc = kCount | kSum | kAvg | kMin | kMax

record SelectItem =
  is_star :: bool
  si_column :: "string option"
  aggregate :: "AggregateFunc option"
  aggregate_star :: bool
  si_alias :: "string option"

definition SelectItem_default :: SelectItem where
  "SelectItem_default =
     \<lparr>is_star = False, si_column = None, aggregate = None, aggregate_star = False, si_alias = None\<rparr>"

record OrderByClause =
  ob_column :: string
  descending :: bool

datatype Statement =
    CreateTableStmt string "Column list"
  | DropTableStmt string
  | CreateIndexStmt string string string
  | DropIndexStmt string
  | InsertStmt string "string list" "Value list list"
  | UpdateStmt string "(string \<times> Value) list" "Expr option"
  | DeleteStmt string "Expr option"
  | SelectStmt "SelectItem list" string "Expr option" "OrderByClause option" "64 word option"

section \<open>Number literals\<close>

text \<open>
  \<open>std::stoll\<close>, \<open>std::stoul\<close> and \<open>std::stod\<close> on the digits of a literal token; \<open>None\<close>
  stands for the exception that reports a value out of range. \<open>std::stod\<close> rounds to nearest and
  reports overflow, and underflow to an inexact subnormal number.
\<close>

definition digits_nat :: "string \<Rightarrow> nat" where
  "digits_nat s = foldl (\<lambda>n c. 10 * n + (of_char c - 48)) 0 s"

definition stoll :: "string \<Rightarrow> 64 word option" where
  "stoll s = (if digits_nat s < 2 ^ 63 then Some (word_of_nat (digits_nat s)) else None)"

definition stoul :: "string \<Rightarrow> 64 word option" where
  "stoul s = (if digits_nat s < 2 ^ 64 then Some (word_of_nat (digits_nat s)) else None)"

definition stod :: "string \<Rightarrow> double option" where
  "stod s =
     (let whole = takeWhile (\<lambda>c. c \<noteq> CHR ''.'') s;
          frac = tl (dropWhile (\<lambda>c. c \<noteq> CHR ''.'') s);
          n = digits_nat (whole @ frac) * 2 ^ 1074;
          d = 10 ^ length frac;
          m = round_magnitude n d
      in if m = 2047 * 2 ^ 52 \<or> m < 2 ^ 52 \<and> n mod d \<noteq> 0 then None else Some (d_make False m))"

end
