(* ===== verification/Parser.thy ===== *)
theory Parser
  imports Ast
begin

text \<open>
  The recursive-descent parser (\<open>src/parser/parser.cpp\<close>). A parser state is the list of tokens from
  the current position on; a parsing function returns a status, or its result and the remaining
  tokens. The token vector ends with an end-of-input token, and no function advances beyond it:
  \<open>consumed\<close> states this for each of them, and makes the loops terminate.
\<close>

type_synonym 'a parsed = "('a \<times> Token list) Result"

definition Parser_Peek :: "Token list \<Rightarrow> Token" where
  "Parser_Peek ts = (case ts of t # _ \<Rightarrow> t | [] \<Rightarrow> \<lparr>tok_type = kInvalid, tok_lexeme = [], tok_position = 0\<rparr>)"

definition Parser_Check :: "TokenType \<Rightarrow> Token list \<Rightarrow> bool" where
  "Parser_Check t ts \<longleftrightarrow> tok_type (Parser_Peek ts) = t"

text \<open>\<open>Match\<close>: the remaining tokens if the next one has the type.\<close>

definition Parser_Match :: "TokenType \<Rightarrow> Token list \<Rightarrow> Token list option" where
  "Parser_Match t ts = (if Parser_Check t ts then Some (tl ts) else None)"

definition Parser_Expect :: "TokenType \<Rightarrow> string \<Rightarrow> Token list \<Rightarrow> Token list Result" where
  "Parser_Expect t context ts =
     (if \<not> Parser_Check t ts
      then Inl (Status_InvalidArgument (''expected '' @ TokenTypeName t @ '' in '' @ context @ '', got '' @
             TokenTypeName (tok_type (Parser_Peek ts)) @
             (if tok_lexeme (Parser_Peek ts) = [] then []
              else '' ('' @ [CHR 0x27] @ tok_lexeme (Parser_Peek ts) @ [CHR 0x27] @ '')'')))
      else Inr (tl ts))"

text \<open>
  The recurring step that checks for an identifier, reports an error otherwise, and takes its text.
\<close>

definition Parser_Identifier :: "string \<Rightarrow> Token list \<Rightarrow> string parsed" where
  "Parser_Identifier message ts =
     (if \<not> Parser_Check kIdentifier ts then Inl (Status_InvalidArgument message)
      else Inr (tok_lexeme (Parser_Peek ts), tl ts))"

section \<open>Consumed tokens\<close>

definition consumed :: "Token list \<Rightarrow> Token list \<Rightarrow> bool" where
  "consumed ts ts' \<longleftrightarrow> (\<exists>used. ts = used @ ts' \<and> (\<forall>t \<in> set used. tok_type t \<noteq> kEndOfInput))"

definition consumed1 :: "Token list \<Rightarrow> Token list \<Rightarrow> bool" where
  "consumed1 ts ts' \<longleftrightarrow> consumed ts ts' \<and> length ts' < length ts"

named_theorems consumes "parsing functions consume tokens and stop before the end of input"

lemma consumed_refl [simp]: "consumed ts ts"
  by (simp add: consumed_def)

lemma consumed_trans:
  assumes "consumed a b" and "consumed b c"
  shows "consumed a c"
proof -
  obtain u v where "a = u @ b" "b = v @ c" "\<forall>t \<in> set u. tok_type t \<noteq> kEndOfInput" "\<forall>t \<in> set v. tok_type t \<noteq> kEndOfInput"
    using assms by (auto simp: consumed_def)
  then show ?thesis unfolding consumed_def by (intro exI [of _ "u @ v"]) auto
qed

lemma consumed_length: "consumed a b \<Longrightarrow> length b \<le> length a"
  by (auto simp: consumed_def)

lemma consumed1_consumed: "consumed1 a b \<Longrightarrow> consumed a b"
  by (simp add: consumed1_def)

lemma consumed1_less: "consumed1 a b \<Longrightarrow> length b < length a"
  by (simp add: consumed1_def)

lemma consumed1_trans: "consumed1 a b \<Longrightarrow> consumed b c \<Longrightarrow> consumed1 a c"
  using consumed_trans consumed_length by (fastforce simp: consumed1_def)

lemma consumed_trans1: "consumed a b \<Longrightarrow> consumed1 b c \<Longrightarrow> consumed1 a c"
  using consumed_trans consumed_length by (fastforce simp: consumed1_def)

lemma Check_tl:
  assumes "Parser_Check t ts" and "t \<noteq> kEndOfInput" and "t \<noteq> kInvalid"
  shows "consumed1 ts (tl ts)"
proof (cases ts)
  case Nil
  with assms show ?thesis by (simp add: Parser_Check_def Parser_Peek_def)
next
  case (Cons x xs)
  with assms show ?thesis
    by (auto simp: Parser_Check_def Parser_Peek_def consumed1_def consumed_def intro!: exI [of _ "[x]"])
qed

lemma Match_consumes [consumes]:
  "Parser_Match t ts = Some ts' \<Longrightarrow> t \<noteq> kEndOfInput \<Longrightarrow> t \<noteq> kInvalid \<Longrightarrow> consumed1 ts ts'"
  using Check_tl by (auto simp: Parser_Match_def split: if_splits)

lemma Expect_consumes [consumes]:
  "Parser_Expect t context ts = Inr ts' \<Longrightarrow> t \<noteq> kEndOfInput \<Longrightarrow> t \<noteq> kInvalid \<Longrightarrow> consumed1 ts ts'"
  using Check_tl by (auto simp: Parser_Expect_def split: if_splits)

lemma Identifier_consumes [consumes]:
  "Parser_Identifier message ts = Inr (name, ts') \<Longrightarrow> consumed1 ts ts'"
  using Check_tl by (auto simp: Parser_Identifier_def split: if_splits)

section \<open>Column definitions\<close>

definition Parser_ParseColumnType :: "Token list \<Rightarrow> (ColumnType \<times> u16) parsed" where
  "Parser_ParseColumnType ts =
     (case tok_type (Parser_Peek ts) of
        TokenType.kInt \<Rightarrow> Inr ((ColumnType.kInt, 255), tl ts)
      | TokenType.kBigInt \<Rightarrow> Inr ((ColumnType.kBigInt, 255), tl ts)
      | TokenType.kDouble \<Rightarrow> Inr ((ColumnType.kDouble, 255), tl ts)
      | TokenType.kBoolean \<Rightarrow> Inr ((ColumnType.kBool, 255), tl ts)
      | TokenType.kVarchar \<Rightarrow>
          (case Parser_Match kLParen (tl ts) of
             None \<Rightarrow> Inr ((ColumnType.kVarchar, 255), tl ts)
           | Some ts1 \<Rightarrow>
               if \<not> Parser_Check kIntLiteral ts1
               then Inl (Status_InvalidArgument ''expected integer length in VARCHAR(n)'')
               else case stoul (tok_lexeme (Parser_Peek ts1)) of
                   None \<Rightarrow> Inl (Status_InvalidArgument ''invalid VARCHAR length'')
                 | Some n \<Rightarrow>
                     bind_result (Parser_Expect kRParen ''VARCHAR length'' (tl ts1)) (\<lambda>ts2.
                     Inr ((ColumnType.kVarchar, ucast n), ts2)))
      | other \<Rightarrow> Inl (Status_InvalidArgument
          (''expected a column type (INT/BIGINT/DOUBLE/BOOLEAN/VARCHAR), got '' @ TokenTypeName other)))"

definition Parser_ParseColumnDef :: "Token list \<Rightarrow> Column parsed" where
  "Parser_ParseColumnDef ts =
     bind_result (Parser_Identifier
       (''expected column name, got '' @ TokenTypeName (tok_type (Parser_Peek ts))) ts) (\<lambda>(name, ts1).
     bind_result (Parser_ParseColumnType ts1) (\<lambda>((type, max_length), ts2).
     case Parser_Match kNot ts2 of
       None \<Rightarrow> Inr (\<lparr>col_name = name, col_type = type, col_nullable = True, col_max_length = max_length\<rparr>, ts2)
     | Some ts3 \<Rightarrow>
         bind_result (Parser_Expect kNull ''NOT'' ts3) (\<lambda>ts4.
         Inr (\<lparr>col_name = name, col_type = type, col_nullable = False, col_max_length = max_length\<rparr>, ts4))))"

text \<open>Chaining: a function that consumes a token, followed by one that keeps the remaining tokens.\<close>

lemma consumed11: "consumed1 a b \<Longrightarrow> consumed1 b c \<Longrightarrow> consumed1 a c"
  using consumed1_trans consumed1_consumed by blast

lemma Peek_consumes:
  "tok_type (Parser_Peek ts) = t \<Longrightarrow> t \<noteq> kEndOfInput \<Longrightarrow> t \<noteq> kInvalid \<Longrightarrow> consumed1 ts (tl ts)"
  using Check_tl by (simp add: Parser_Check_def)

lemma ParseColumnType_consumes [consumes]:
  assumes "Parser_ParseColumnType ts = Inr (ty, ts')"
  shows "consumed1 ts ts'"
proof (cases "tok_type (Parser_Peek ts) = TokenType.kVarchar")
  case True
  have c: "consumed1 ts (tl ts)" by (rule Peek_consumes [OF True]) simp_all
  show ?thesis
  proof (cases "Parser_Match kLParen (tl ts)")
    case None
    with assms True c show ?thesis by (simp add: Parser_ParseColumnType_def)
  next
    case (Some ts1)
    with assms True have k: "Parser_Check kIntLiteral ts1" "Parser_Expect kRParen ''VARCHAR length'' (tl ts1) = Inr ts'"
      by (auto simp: Parser_ParseColumnType_def bind_result_Inr_iff split: if_splits option.splits)
    have "consumed1 (tl ts) ts1" "consumed1 ts1 (tl ts1)" "consumed1 (tl ts1) ts'"
      using Some k by (auto intro: consumes Check_tl)
    with c show ?thesis by (blast intro: consumed11)
  qed
next
  case False
  with assms have "ts' = tl ts" "tok_type (Parser_Peek ts) \<noteq> kEndOfInput" "tok_type (Parser_Peek ts) \<noteq> kInvalid"
    by (auto simp: Parser_ParseColumnType_def split: TokenType.splits)
  with Peek_consumes [OF refl] show ?thesis by simp
qed

lemma ParseColumnDef_consumes [consumes]:
  assumes "Parser_ParseColumnDef ts = Inr (col, ts')"
  shows "consumed1 ts ts'"
proof -
  obtain name ts1 ty ts2 where d: "consumed1 ts ts1" "consumed1 ts1 ts2"
    "case Parser_Match kNot ts2 of None \<Rightarrow> ts' = ts2 | Some ts3 \<Rightarrow> Parser_Expect kNull ''NOT'' ts3 = Inr ts'"
    using assms
    by (fastforce simp: Parser_ParseColumnDef_def bind_result_Inr_iff split: option.splits dest: consumes)
  then have "consumed ts2 ts'"
    by (auto split: option.splits dest!: consumes intro: consumed_trans consumed1_consumed)
  with d(1,2) show ?thesis by (blast intro: consumed11 consumed1_trans)
qed

section \<open>Definitions of tables and indexes\<close>

function parse_columns :: "Token list \<Rightarrow> Column list \<Rightarrow> Column list parsed" where
  "parse_columns ts columns =
     (case Parser_ParseColumnDef ts of
        Inl e \<Rightarrow> Inl e
      | Inr (col, ts1) \<Rightarrow>
          (case Parser_Match kComma ts1 of
             Some ts2 \<Rightarrow> parse_columns ts2 (columns @ [col])
           | None \<Rightarrow> Inr (columns @ [col], ts1)))"
  by pat_completeness auto
termination
  by (relation "measure (length \<circ> fst)")
    (auto dest!: consumes consumed1_less)

declare parse_columns.simps [simp del]

definition Parser_ParseCreateTable :: "Token list \<Rightarrow> Statement parsed" where
  "Parser_ParseCreateTable ts =
     bind_result (Parser_Expect kTable ''CREATE TABLE'' ts) (\<lambda>ts1.
     bind_result (Parser_Identifier ''expected table name after CREATE TABLE'' ts1) (\<lambda>(table_name, ts2).
     bind_result (Parser_Expect kLParen ''CREATE TABLE'' ts2) (\<lambda>ts3.
     bind_result (parse_columns ts3 []) (\<lambda>(columns, ts4).
     bind_result (Parser_Expect kRParen ''CREATE TABLE column list'' ts4) (\<lambda>ts5.
     if columns = [] then Inl (Status_InvalidArgument ''CREATE TABLE requires at least one column'')
     else Inr (CreateTableStmt table_name columns, ts5))))))"

definition Parser_ParseDropTable :: "Token list \<Rightarrow> Statement parsed" where
  "Parser_ParseDropTable ts =
     bind_result (Parser_Expect kTable ''DROP TABLE'' ts) (\<lambda>ts1.
     bind_result (Parser_Identifier ''expected table name after DROP TABLE'' ts1) (\<lambda>(table_name, ts2).
     Inr (DropTableStmt table_name, ts2)))"

definition Parser_ParseCreateIndex :: "Token list \<Rightarrow> Statement parsed" where
  "Parser_ParseCreateIndex ts =
     bind_result (Parser_Expect kIndex ''CREATE INDEX'' ts) (\<lambda>ts1.
     bind_result (Parser_Identifier ''expected index name after CREATE INDEX'' ts1) (\<lambda>(index_name, ts2).
     bind_result (Parser_Expect kOn ''CREATE INDEX'' ts2) (\<lambda>ts3.
     bind_result (Parser_Identifier ''expected table name after ON'' ts3) (\<lambda>(table_name, ts4).
     bind_result (Parser_Expect kLParen ''CREATE INDEX'' ts4) (\<lambda>ts5.
     bind_result (Parser_Identifier ''expected column name in CREATE INDEX'' ts5) (\<lambda>(column_name, ts6).
     bind_result (Parser_Expect kRParen ''CREATE INDEX'' ts6) (\<lambda>ts7.
     Inr (CreateIndexStmt index_name table_name column_name, ts7))))))))"

definition Parser_ParseDropIndex :: "Token list \<Rightarrow> Statement parsed" where
  "Parser_ParseDropIndex ts =
     bind_result (Parser_Expect kIndex ''DROP INDEX'' ts) (\<lambda>ts1.
     bind_result (Parser_Identifier ''expected index name after DROP INDEX'' ts1) (\<lambda>(index_name, ts2).
     Inr (DropIndexStmt index_name, ts2)))"

section \<open>Literals and INSERT\<close>

definition Parser_ParseLiteral :: "Token list \<Rightarrow> Value parsed" where
  "Parser_ParseLiteral ts =
     (if Parser_Check kNull ts then Inr (VNull, tl ts)
      else if Parser_Check kTrue ts then Inr (VBool True, tl ts)
      else if Parser_Check kFalse ts then Inr (VBool False, tl ts)
      else if Parser_Check kIntLiteral ts
      then (case stoll (tok_lexeme (Parser_Peek ts)) of
              Some n \<Rightarrow> Inr (VBigInt n, tl ts)
            | None \<Rightarrow> Inl (Status_InvalidArgument (''invalid integer literal '' @ [CHR 0x27] @
                        tok_lexeme (Parser_Peek ts) @ [CHR 0x27])))
      else if Parser_Check kFloatLiteral ts
      then (case stod (tok_lexeme (Parser_Peek ts)) of
              Some d \<Rightarrow> Inr (VDouble d, tl ts)
            | None \<Rightarrow> Inl (Status_InvalidArgument (''invalid float literal '' @ [CHR 0x27] @
                        tok_lexeme (Parser_Peek ts) @ [CHR 0x27])))
      else if Parser_Check kStringLiteral ts then Inr (VVarchar (tok_lexeme (Parser_Peek ts)), tl ts)
      else Inl (Status_InvalidArgument
             (''expected a literal value, got '' @ TokenTypeName (tok_type (Parser_Peek ts)))))"

lemma ParseLiteral_consumes [consumes]:
  assumes "Parser_ParseLiteral ts = Inr (v, ts')"
  shows "consumed1 ts ts'"
proof -
  have "ts' = tl ts \<and> (\<exists>t. Parser_Check t ts \<and> t \<noteq> kEndOfInput \<and> t \<noteq> kInvalid)"
    using assms by (auto simp: Parser_ParseLiteral_def split: if_splits option.splits)
  then show ?thesis using Check_tl by blast
qed

function parse_names :: "Token list \<Rightarrow> string list \<Rightarrow> string list parsed" where
  "parse_names ts names =
     (case Parser_Identifier ''expected column name in INSERT column list'' ts of
        Inl e \<Rightarrow> Inl e
      | Inr (name, ts1) \<Rightarrow>
          (case Parser_Match kComma ts1 of
             Some ts2 \<Rightarrow> parse_names ts2 (names @ [name])
           | None \<Rightarrow> Inr (names @ [name], ts1)))"
  by pat_completeness auto
termination
  by (relation "measure (length \<circ> fst)")
    (auto dest!: consumes consumed1_less)

function parse_row :: "Token list \<Rightarrow> Value list \<Rightarrow> Value list parsed" where
  "parse_row ts row =
     (case Parser_ParseLiteral ts of
        Inl e \<Rightarrow> Inl e
      | Inr (lit, ts1) \<Rightarrow>
          (case Parser_Match kComma ts1 of
             Some ts2 \<Rightarrow> parse_row ts2 (row @ [lit])
           | None \<Rightarrow> Inr (row @ [lit], ts1)))"
  by pat_completeness auto
termination
  by (relation "measure (length \<circ> fst)")
    (auto dest!: consumes consumed1_less)

declare parse_names.simps [simp del] parse_row.simps [simp del]

lemma parse_row_consumes [consumes]:
  "parse_row ts row = Inr (row', ts') \<Longrightarrow> consumed1 ts ts'"
proof (induction ts row rule: parse_row.induct)
  case (1 ts row)
  from 1(2) obtain lit ts1 where l: "Parser_ParseLiteral ts = Inr (lit, ts1)"
    by (subst (asm) parse_row.simps) (auto split: sum.splits)
  have c: "consumed1 ts ts1" by (rule ParseLiteral_consumes [OF l])
  show ?case
  proof (cases "Parser_Match kComma ts1")
    case None
    with 1(2) l c show ?thesis by (subst (asm) parse_row.simps) simp
  next
    case (Some ts2)
    with 1(2) l have "parse_row ts2 (row @ [lit]) = Inr (row', ts')" by (subst (asm) parse_row.simps) simp
    from 1(1) [OF l refl Some this] Match_consumes [OF Some] c show ?thesis by (blast intro: consumed11)
  qed
qed

function parse_rows :: "Token list \<Rightarrow> Value list list \<Rightarrow> Value list list parsed" where
  "parse_rows ts rows =
     (case Parser_Expect kLParen ''INSERT VALUES'' ts of
        Inl e \<Rightarrow> Inl e
      | Inr ts1 \<Rightarrow>
          (case parse_row ts1 [] of
             Inl e \<Rightarrow> Inl e
           | Inr (row, ts2) \<Rightarrow>
               (case Parser_Expect kRParen ''INSERT VALUES tuple'' ts2 of
                  Inl e \<Rightarrow> Inl e
                | Inr ts3 \<Rightarrow>
                    (case Parser_Match kComma ts3 of
                       Some ts4 \<Rightarrow> parse_rows ts4 (rows @ [row])
                     | None \<Rightarrow> Inr (rows @ [row], ts3)))))"
  by pat_completeness auto
termination
  by (relation "measure (length \<circ> fst)")
    (auto dest!: consumes consumed1_less)

declare parse_rows.simps [simp del]

definition Parser_ParseInsert :: "Token list \<Rightarrow> Statement parsed" where
  "Parser_ParseInsert ts =
     bind_result (Parser_Expect kInto ''INSERT'' ts) (\<lambda>ts1.
     bind_result (Parser_Identifier ''expected table name after INSERT INTO'' ts1) (\<lambda>(table_name, ts2).
     bind_result
       (case Parser_Match kLParen ts2 of
          None \<Rightarrow> Inr ([], ts2)
        | Some ts3 \<Rightarrow>
            bind_result (parse_names ts3 []) (\<lambda>(columns, ts4).
            bind_result (Parser_Expect kRParen ''INSERT column list'' ts4) (\<lambda>ts5.
            Inr (columns, ts5)))) (\<lambda>(columns, ts6).
     bind_result (Parser_Expect kValues ''INSERT'' ts6) (\<lambda>ts7.
     bind_result (parse_rows ts7 []) (\<lambda>(rows, ts8).
     Inr (InsertStmt table_name columns rows, ts8))))))"

section \<open>Expressions\<close>

definition comparison_op :: "TokenType \<Rightarrow> BinaryOp option" where
  "comparison_op t = (case t of
       TokenType.kEq \<Rightarrow> Some BinaryOp.kEq
     | TokenType.kNeq \<Rightarrow> Some BinaryOp.kNeq
     | TokenType.kLt \<Rightarrow> Some BinaryOp.kLt
     | TokenType.kLte \<Rightarrow> Some BinaryOp.kLte
     | TokenType.kGt \<Rightarrow> Some BinaryOp.kGt
     | TokenType.kGte \<Rightarrow> Some BinaryOp.kGte
     | _ \<Rightarrow> None)"

text \<open>The steps of the expression parser that take a token shorten the input.\<close>

lemma comparison_less: "comparison_op (tok_type (Parser_Peek ts)) = Some op \<Longrightarrow> length (tl ts) < length ts"
  by (cases ts) (simp_all add: comparison_op_def Parser_Peek_def)

lemma takes_less:
  "Parser_Match kLParen ts = Some ts' \<Longrightarrow> length ts' < length ts"
  "Parser_Match TokenType.kAnd ts = Some ts' \<Longrightarrow> length ts' < length ts"
  "Parser_Match TokenType.kOr ts = Some ts' \<Longrightarrow> length ts' < length ts"
  "Parser_Expect kRParen context ts = Inr ts' \<Longrightarrow> length ts' < length ts"
  "Parser_Check kIdentifier ts \<Longrightarrow> length (tl ts) < length ts"
  "Parser_ParseLiteral ts = Inr (v, ts') \<Longrightarrow> length ts' < length ts"
  "comparison_op (tok_type (Parser_Peek ts)) = Some op \<Longrightarrow> length (tl ts) < length ts"
  using Check_tl [of kIdentifier ts] comparison_less by (auto dest!: consumes consumed1_less)

text \<open>
  The four levels of the expression grammar call each other. The \<open>while\<close> loops of the two
  logical levels are functions of their own; the last parameter is the expression built so far.
\<close>

function Parser_ParsePrimary :: "Token list \<Rightarrow> Expr parsed"
  and Parser_ParseComparison :: "Token list \<Rightarrow> Expr parsed"
  and Parser_ParseAndExpr :: "Token list \<Rightarrow> Expr parsed"
  and and_loop :: "Token list \<Rightarrow> Expr \<Rightarrow> Expr parsed"
  and Parser_ParseOrExpr :: "Token list \<Rightarrow> Expr parsed"
  and or_loop :: "Token list \<Rightarrow> Expr \<Rightarrow> Expr parsed" where
  "Parser_ParsePrimary ts =
     (case Parser_Match kLParen ts of
        Some ts1 \<Rightarrow>
          (case Parser_ParseOrExpr ts1 of
             Inl e \<Rightarrow> Inl e
           | Inr (inner, ts2) \<Rightarrow>
               (case Parser_Expect kRParen ''parenthesized expression'' ts2 of
                  Inl e \<Rightarrow> Inl e
                | Inr ts3 \<Rightarrow> Inr (inner, ts3)))
      | None \<Rightarrow>
          if Parser_Check kIdentifier ts then Inr (ColumnRefExpr (tok_lexeme (Parser_Peek ts)), tl ts)
          else (case Parser_ParseLiteral ts of
                  Inl e \<Rightarrow> Inl e
                | Inr (lit, ts1) \<Rightarrow> Inr (LiteralExpr lit, ts1)))"
| "Parser_ParseComparison ts =
     (case Parser_ParsePrimary ts of
        Inl e \<Rightarrow> Inl e
      | Inr (expr, ts1) \<Rightarrow>
          (case comparison_op (tok_type (Parser_Peek ts1)) of
             None \<Rightarrow> Inr (expr, ts1)
           | Some op \<Rightarrow>
               (case Parser_ParsePrimary (tl ts1) of
                  Inl e \<Rightarrow> Inl e
                | Inr (right, ts2) \<Rightarrow> Inr (BinaryExpr expr op right, ts2))))"
| "Parser_ParseAndExpr ts =
     (case Parser_ParseComparison ts of
        Inl e \<Rightarrow> Inl e
      | Inr (expr, ts1) \<Rightarrow> and_loop ts1 expr)"
| "and_loop ts expr =
     (case Parser_Match TokenType.kAnd ts of
        None \<Rightarrow> Inr (expr, ts)
      | Some ts1 \<Rightarrow>
          (case Parser_ParseComparison ts1 of
             Inl e \<Rightarrow> Inl e
           | Inr (right, ts2) \<Rightarrow> and_loop ts2 (BinaryExpr expr BinaryOp.kAnd right)))"
| "Parser_ParseOrExpr ts =
     (case Parser_ParseAndExpr ts of
        Inl e \<Rightarrow> Inl e
      | Inr (expr, ts1) \<Rightarrow> or_loop ts1 expr)"
| "or_loop ts expr =
     (case Parser_Match TokenType.kOr ts of
        None \<Rightarrow> Inr (expr, ts)
      | Some ts1 \<Rightarrow>
          (case Parser_ParseAndExpr ts1 of
             Inl e \<Rightarrow> Inl e
           | Inr (right, ts2) \<Rightarrow> or_loop ts2 (BinaryExpr expr BinaryOp.kOr right)))"
  by pat_completeness auto

termination
proof -
  let ?dom = "Parser_ParsePrimary_Parser_ParseComparison_Parser_ParseAndExpr_and_loop_Parser_ParseOrExpr_or_loop_dom"
  have less:
    "?dom (Inl (Inl t1)) \<Longrightarrow> (\<And>e ts'. Parser_ParsePrimary t1 = Inr (e, ts') \<Longrightarrow> length ts' < length t1)"
    "?dom (Inl (Inr (Inl t2))) \<Longrightarrow> (\<And>e ts'. Parser_ParseComparison t2 = Inr (e, ts') \<Longrightarrow> length ts' < length t2)"
    "?dom (Inl (Inr (Inr t3))) \<Longrightarrow> (\<And>e ts'. Parser_ParseAndExpr t3 = Inr (e, ts') \<Longrightarrow> length ts' < length t3)"
    "?dom (Inr (Inl (t4, x4))) \<Longrightarrow> (\<And>e ts'. and_loop t4 x4 = Inr (e, ts') \<Longrightarrow> length ts' \<le> length t4)"
    "?dom (Inr (Inr (Inl t5))) \<Longrightarrow> (\<And>e ts'. Parser_ParseOrExpr t5 = Inr (e, ts') \<Longrightarrow> length ts' < length t5)"
    "?dom (Inr (Inr (Inr (t6, x6)))) \<Longrightarrow> (\<And>e ts'. or_loop t6 x6 = Inr (e, ts') \<Longrightarrow> length ts' \<le> length t6)"
    for t1 t2 t3 t4 x4 t5 t6 x6
  proof (induction t1 and t2 and t3 and t4 x4 and t5 and t6 x6
      rule: Parser_ParsePrimary_Parser_ParseComparison_Parser_ParseAndExpr_and_loop_Parser_ParseOrExpr_or_loop.pinduct)
    case (1 ts)
    show ?case using 1(2,3) unfolding Parser_ParsePrimary.psimps [OF 1(1)]
      by (fastforce split: option.splits sum.splits if_splits dest: takes_less)
  next
    case (2 ts)
    show ?case using 2(2-4) unfolding Parser_ParseComparison.psimps [OF 2(1)]
      by (fastforce split: option.splits sum.splits dest: takes_less)
  next
    case (3 ts)
    show ?case using 3(2-4) unfolding Parser_ParseAndExpr.psimps [OF 3(1)] by (fastforce split: sum.splits)
  next
    case (4 ts expr)
    show ?case using 4(2-4) unfolding and_loop.psimps [OF 4(1)]
      by (fastforce split: option.splits sum.splits dest: takes_less)
  next
    case (5 ts)
    show ?case using 5(2-4) unfolding Parser_ParseOrExpr.psimps [OF 5(1)] by (fastforce split: sum.splits)
  next
    case (6 ts expr)
    show ?case using 6(2-4) unfolding or_loop.psimps [OF 6(1)]
      by (fastforce split: option.splits sum.splits dest: takes_less)
  qed
  show ?thesis
    by (relation "measure (\<lambda>x. case x of
        Inl (Inl ts) \<Rightarrow> 4 * length ts
      | Inl (Inr (Inl ts)) \<Rightarrow> 4 * length ts + 1
      | Inl (Inr (Inr ts)) \<Rightarrow> 4 * length ts + 2
      | Inr (Inl (ts, _)) \<Rightarrow> 4 * length ts
      | Inr (Inr (Inl ts)) \<Rightarrow> 4 * length ts + 3
      | Inr (Inr (Inr (ts, _))) \<Rightarrow> 4 * length ts)")
      (auto dest!: takes_less, (force dest: less takes_less)+)
qed

declare Parser_ParsePrimary.simps [simp del] Parser_ParseComparison.simps [simp del]
  Parser_ParseAndExpr.simps [simp del] and_loop.simps [simp del]
  Parser_ParseOrExpr.simps [simp del] or_loop.simps [simp del]

definition Parser_ParseWhereClause :: "Token list \<Rightarrow> Expr parsed" where
  "Parser_ParseWhereClause ts =
     bind_result (Parser_Expect kWhere ''WHERE'' ts) (\<lambda>ts1. Parser_ParseOrExpr ts1)"

text \<open>The optional clause as the statements use it.\<close>

definition parse_optional_where :: "Token list \<Rightarrow> Expr option parsed" where
  "parse_optional_where ts =
     (if Parser_Check kWhere ts
      then bind_result (Parser_ParseWhereClause ts) (\<lambda>(w, ts1). Inr (Some w, ts1))
      else Inr (None, ts))"

section \<open>UPDATE and DELETE\<close>

function parse_assignments :: "Token list \<Rightarrow> (string \<times> Value) list \<Rightarrow> (string \<times> Value) list parsed" where
  "parse_assignments ts assignments =
     (case Parser_Identifier ''expected column name in UPDATE SET clause'' ts of
        Inl e \<Rightarrow> Inl e
      | Inr (col, ts1) \<Rightarrow>
          (case Parser_Expect TokenType.kEq ''UPDATE SET'' ts1 of
             Inl e \<Rightarrow> Inl e
           | Inr ts2 \<Rightarrow>
               (case Parser_ParseLiteral ts2 of
                  Inl e \<Rightarrow> Inl e
                | Inr (lit, ts3) \<Rightarrow>
                    (case Parser_Match kComma ts3 of
                       Some ts4 \<Rightarrow> parse_assignments ts4 (assignments @ [(col, lit)])
                     | None \<Rightarrow> Inr (assignments @ [(col, lit)], ts3)))))"
  by pat_completeness auto
termination
  by (relation "measure (length \<circ> fst)")
    (auto dest!: consumes consumed1_less)

declare parse_assignments.simps [simp del]

definition Parser_ParseUpdate :: "Token list \<Rightarrow> Statement parsed" where
  "Parser_ParseUpdate ts =
     bind_result (Parser_Identifier ''expected table name after UPDATE'' ts) (\<lambda>(table_name, ts1).
     bind_result (Parser_Expect kSet ''UPDATE'' ts1) (\<lambda>ts2.
     bind_result (parse_assignments ts2 []) (\<lambda>(assignments, ts3).
     bind_result (parse_optional_where ts3) (\<lambda>(where_clause, ts4).
     Inr (UpdateStmt table_name assignments where_clause, ts4)))))"

definition Parser_ParseDelete :: "Token list \<Rightarrow> Statement parsed" where
  "Parser_ParseDelete ts =
     bind_result (Parser_Expect kFrom ''DELETE'' ts) (\<lambda>ts1.
     bind_result (Parser_Identifier ''expected table name after DELETE FROM'' ts1) (\<lambda>(table_name, ts2).
     bind_result (parse_optional_where ts2) (\<lambda>(where_clause, ts3).
     Inr (DeleteStmt table_name where_clause, ts3))))"

section \<open>SELECT\<close>

definition AggregateForToken :: "TokenType \<Rightarrow> AggregateFunc option" where
  "AggregateForToken t = (case t of
       TokenType.kCount \<Rightarrow> Some AggregateFunc.kCount
     | TokenType.kSum \<Rightarrow> Some AggregateFunc.kSum
     | TokenType.kAvg \<Rightarrow> Some AggregateFunc.kAvg
     | TokenType.kMin \<Rightarrow> Some AggregateFunc.kMin
     | TokenType.kMax \<Rightarrow> Some AggregateFunc.kMax
     | _ \<Rightarrow> None)"

definition parse_alias :: "Token list \<Rightarrow> string option parsed" where
  "parse_alias ts =
     (case Parser_Match kAs ts of
        None \<Rightarrow> Inr (None, ts)
      | Some ts1 \<Rightarrow>
          bind_result (Parser_Identifier ''expected alias name after AS'' ts1) (\<lambda>(name, ts2).
          Inr (Some name, ts2)))"

definition Parser_ParseSelectItem :: "Token list \<Rightarrow> SelectItem parsed" where
  "Parser_ParseSelectItem ts =
     (case AggregateForToken (tok_type (Parser_Peek ts)) of
        Some agg \<Rightarrow>
          bind_result (Parser_Expect kLParen ''aggregate function'' (tl ts)) (\<lambda>ts1.
          bind_result
            (case Parser_Match kStar ts1 of
               Some ts2 \<Rightarrow>
                 if agg \<noteq> AggregateFunc.kCount
                 then Inl (Status_InvalidArgument ([CHR 0x27] @ ''*'' @ [CHR 0x27] @ '' is only valid inside COUNT(...)''))
                 else Inr ((None, True), ts2)
             | None \<Rightarrow>
                 bind_result (Parser_Identifier (''expected column name or '' @ [CHR 0x27] @ ''*'' @ [CHR 0x27] @
                   '' inside aggregate function'') ts1) (\<lambda>(col, ts2). Inr ((Some col, False), ts2))) (\<lambda>((col, star), ts3).
          bind_result (Parser_Expect kRParen ''aggregate function'' ts3) (\<lambda>ts4.
          bind_result (parse_alias ts4) (\<lambda>(name, ts5).
          Inr (SelectItem_default\<lparr>aggregate := Some agg, aggregate_star := star, si_column := col, si_alias := name\<rparr>, ts5)))))
      | None \<Rightarrow>
          bind_result (Parser_Identifier (''expected a column name or aggregate function in SELECT list, got '' @
            TokenTypeName (tok_type (Parser_Peek ts))) ts) (\<lambda>(col, ts1).
          bind_result (parse_alias ts1) (\<lambda>(name, ts2).
          Inr (SelectItem_default\<lparr>si_column := Some col, si_alias := name\<rparr>, ts2))))"

lemma alias_consumes: "parse_alias ts = Inr (name, ts') \<Longrightarrow> consumed ts ts'"
  by (auto simp: parse_alias_def bind_result_Inr_iff split: option.splits dest!: consumes
      intro: consumed_trans consumed1_consumed)

lemma AggregateForToken_consumes: "AggregateForToken (tok_type (Parser_Peek ts)) = Some agg \<Longrightarrow> consumed1 ts (tl ts)"
  by (rule Peek_consumes [OF refl]) (auto simp: AggregateForToken_def)

lemma ParseSelectItem_consumes [consumes]:
  assumes "Parser_ParseSelectItem ts = Inr (item, ts')"
  shows "consumed1 ts ts'"
proof (cases "AggregateForToken (tok_type (Parser_Peek ts))")
  case None
  with assms obtain col ts1 where "consumed1 ts ts1" "consumed ts1 ts'"
    by (auto simp: Parser_ParseSelectItem_def bind_result_Inr_iff dest: consumes alias_consumes)
  then show ?thesis by (rule consumed1_trans)
next
  case (Some agg)
  then have c: "consumed1 ts (tl ts)" by (rule AggregateForToken_consumes)
  from assms Some obtain ts1 col star ts3 ts4 name where a:
    "Parser_Expect kLParen ''aggregate function'' (tl ts) = Inr ts1"
    "(case Parser_Match kStar ts1 of
        Some ts2 \<Rightarrow> ts3 = ts2
      | None \<Rightarrow> \<exists>name. Parser_Identifier (''expected column name or '' @ [CHR 0x27] @ ''*'' @ [CHR 0x27] @
            '' inside aggregate function'') ts1 = Inr (name, ts3))"
    "Parser_Expect kRParen ''aggregate function'' ts3 = Inr ts4" "parse_alias ts4 = Inr (name, ts')"
    by (fastforce simp: Parser_ParseSelectItem_def bind_result_Inr_iff split: option.splits if_splits)
  have "consumed1 (tl ts) ts1" using a(1) by (rule Expect_consumes) simp_all
  moreover have "consumed1 ts1 ts3" using a(2) by (auto split: option.splits dest: consumes)
  moreover have "consumed1 ts3 ts4" using a(3) by (rule Expect_consumes) simp_all
  moreover have "consumed ts4 ts'" using a(4) by (rule alias_consumes)
  ultimately show ?thesis using c by (blast intro: consumed11 consumed1_trans)
qed

function parse_items :: "Token list \<Rightarrow> SelectItem list \<Rightarrow> SelectItem list parsed" where
  "parse_items ts items =
     (case Parser_ParseSelectItem ts of
        Inl e \<Rightarrow> Inl e
      | Inr (item, ts1) \<Rightarrow>
          (case Parser_Match kComma ts1 of
             Some ts2 \<Rightarrow> parse_items ts2 (items @ [item])
           | None \<Rightarrow> Inr (items @ [item], ts1)))"
  by pat_completeness auto
termination
  by (relation "measure (length \<circ> fst)")
    (auto dest!: consumes consumed1_less)

declare parse_items.simps [simp del]

definition parse_order_by :: "Token list \<Rightarrow> OrderByClause option parsed" where
  "parse_order_by ts =
     (case Parser_Match kOrder ts of
        None \<Rightarrow> Inr (None, ts)
      | Some ts1 \<Rightarrow>
          bind_result (Parser_Expect kBy ''ORDER'' ts1) (\<lambda>ts2.
          bind_result (Parser_Identifier ''expected column name after ORDER BY'' ts2) (\<lambda>(col, ts3).
          case Parser_Match kDesc ts3 of
            Some ts4 \<Rightarrow> Inr (Some \<lparr>ob_column = col, descending = True\<rparr>, ts4)
          | None \<Rightarrow>
              Inr (Some \<lparr>ob_column = col, descending = False\<rparr>,
                   case Parser_Match kAsc ts3 of Some ts4 \<Rightarrow> ts4 | None \<Rightarrow> ts3))))"

definition parse_limit :: "Token list \<Rightarrow> 64 word option parsed" where
  "parse_limit ts =
     (case Parser_Match kLimit ts of
        None \<Rightarrow> Inr (None, ts)
      | Some ts1 \<Rightarrow>
          if \<not> Parser_Check kIntLiteral ts1 then Inl (Status_InvalidArgument ''expected integer after LIMIT'')
          else case stoll (tok_lexeme (Parser_Peek ts1)) of
              None \<Rightarrow> Inl (Status_InvalidArgument ''invalid LIMIT value'')
            | Some n \<Rightarrow> Inr (Some n, tl ts1))"

definition Parser_ParseSelect :: "Token list \<Rightarrow> Statement parsed" where
  "Parser_ParseSelect ts =
     bind_result
       (case Parser_Match kStar ts of
          Some ts1 \<Rightarrow> Inr ([SelectItem_default\<lparr>is_star := True\<rparr>], ts1)
        | None \<Rightarrow> parse_items ts []) (\<lambda>(items, ts2).
     bind_result (Parser_Expect kFrom ''SELECT'' ts2) (\<lambda>ts3.
     bind_result (Parser_Identifier ''expected table name after FROM'' ts3) (\<lambda>(table_name, ts4).
     bind_result (parse_optional_where ts4) (\<lambda>(where_clause, ts5).
     bind_result (parse_order_by ts5) (\<lambda>(order_by, ts6).
     bind_result (parse_limit ts6) (\<lambda>(limit, ts7).
     Inr (SelectStmt items table_name where_clause order_by limit, ts7)))))))"

section \<open>Statements\<close>

definition parse_by_keyword :: "Token list \<Rightarrow> Statement parsed" where
  "parse_by_keyword ts =
     (case tok_type (Parser_Peek ts) of
        kSelect \<Rightarrow> Parser_ParseSelect (tl ts)
      | kInsert \<Rightarrow> Parser_ParseInsert (tl ts)
      | kUpdate \<Rightarrow> Parser_ParseUpdate (tl ts)
      | kDelete \<Rightarrow> Parser_ParseDelete (tl ts)
      | kCreate \<Rightarrow>
          if Parser_Check kTable (tl ts) then Parser_ParseCreateTable (tl ts)
          else if Parser_Check kIndex (tl ts) then Parser_ParseCreateIndex (tl ts)
          else Inl (Status_InvalidArgument (''expected TABLE or INDEX after CREATE, got '' @
                 TokenTypeName (tok_type (Parser_Peek (tl ts)))))
      | kDrop \<Rightarrow>
          if Parser_Check kTable (tl ts) then Parser_ParseDropTable (tl ts)
          else if Parser_Check kIndex (tl ts) then Parser_ParseDropIndex (tl ts)
          else Inl (Status_InvalidArgument (''expected TABLE or INDEX after DROP, got '' @
                 TokenTypeName (tok_type (Parser_Peek (tl ts)))))
      | other \<Rightarrow> Inl (Status_InvalidArgument
          (''expected a statement (SELECT/INSERT/UPDATE/DELETE/CREATE/DROP), got '' @ TokenTypeName other)))"

definition Parser_ParseStatement :: "Token list \<Rightarrow> Statement Result" where
  "Parser_ParseStatement ts =
     (if Parser_Check kEndOfInput ts then Inl (Status_InvalidArgument ''empty statement'')
      else bind_result (parse_by_keyword ts) (\<lambda>(result, ts1).
           let ts2 = (case Parser_Match kSemicolon ts1 of Some ts2 \<Rightarrow> ts2 | None \<Rightarrow> ts1)
           in if \<not> Parser_Check kEndOfInput ts2
              then Inl (Status_InvalidArgument (''unexpected trailing tokens starting at '' @ [CHR 0x27] @
                     tok_lexeme (Parser_Peek ts2) @ [CHR 0x27]))
              else Inr result))"

definition ParseSQL :: "string \<Rightarrow> Statement Result" where
  "ParseSQL sql = bind_result (Tokenizer_TokenizeAll sql) Parser_ParseStatement"

end
