(* ===== verification/Sql_Grammar.thy ===== *)
theory Sql_Grammar
  imports Parser
begin

text \<open>
  The grammar of the SQL dialect as relations between token sequences and syntax trees, and the
  proof that the parser decides it: \<open>ParseSQL\<close> returns a tree exactly if the token sequence of the
  text is a sentence of the grammar for this tree. Comma-separated lists are treated once, in the
  locale \<open>list_parser\<close>, which is interpreted on the six list loops of the parser.
\<close>

abbreviation next_type :: "Token list \<Rightarrow> TokenType" where
  "next_type ts \<equiv> tok_type (Parser_Peek ts)"

lemma Peek_simps [simp]: "Parser_Peek (t # ts) = t" "next_type [] = kInvalid"
  by (simp_all add: Parser_Peek_def)

lemma Check_simps [simp]: "Parser_Check t (x # ts) \<longleftrightarrow> tok_type x = t"
  by (simp add: Parser_Check_def)

lemma Match_Cons [simp]: "Parser_Match t (x # ts) = (if tok_type x = t then Some ts else None)"
  by (simp add: Parser_Match_def)

lemma Match_next: "next_type ts \<noteq> t \<Longrightarrow> Parser_Match t ts = None"
  by (simp add: Parser_Match_def Parser_Check_def)

lemma Expect_Cons [simp]: "tok_type x = t \<Longrightarrow> Parser_Expect t context (x # ts) = Inr ts"
  by (simp add: Parser_Expect_def)

lemma Identifier_Cons [simp]: "tok_type x = kIdentifier \<Longrightarrow> Parser_Identifier message (x # ts) = Inr (tok_lexeme x, ts)"
  by (simp add: Parser_Identifier_def)

lemma Check_iff: "t \<noteq> kInvalid \<Longrightarrow> Parser_Check t ts \<longleftrightarrow> (\<exists>x ts'. ts = x # ts' \<and> tok_type x = t)"
  by (cases ts) (auto simp: Parser_Check_def)

lemma Match_iff: "t \<noteq> kInvalid \<Longrightarrow> Parser_Match t ts = Some ts' \<longleftrightarrow> (\<exists>x. ts = x # ts' \<and> tok_type x = t)"
  by (cases ts) (auto simp: Parser_Match_def Parser_Check_def)

lemma Expect_iff: "t \<noteq> kInvalid \<Longrightarrow> Parser_Expect t context ts = Inr ts' \<longleftrightarrow> (\<exists>x. ts = x # ts' \<and> tok_type x = t)"
  by (cases ts) (auto simp: Parser_Expect_def Parser_Check_def)

lemma Identifier_iff:
  "Parser_Identifier message ts = Inr (name, ts') \<longleftrightarrow>
     (\<exists>x. ts = x # ts' \<and> tok_type x = kIdentifier \<and> name = tok_lexeme x)"
  by (cases ts) (auto simp: Parser_Identifier_def Parser_Check_def)

lemmas token_iffs = Match_iff Expect_iff Identifier_iff

section \<open>Lists\<close>

inductive g_list :: "(Token list \<Rightarrow> 'a \<Rightarrow> bool) \<Rightarrow> Token list \<Rightarrow> 'a list \<Rightarrow> bool" for G where
  single: "G us x \<Longrightarrow> g_list G us [x]"
| more: "g_list G us xs \<Longrightarrow> tok_type c = kComma \<Longrightarrow> G vs x \<Longrightarrow> g_list G (us @ c # vs) (xs @ [x])"

text \<open>
  The contract of a parsing function \<open>p\<close> for a phrase \<open>G\<close>: what it returns is a phrase at the front of
  the tokens, and it finds every phrase that is followed by a token of \<open>follow\<close>.
\<close>

locale phrase_parser =
  fixes p :: "Token list \<Rightarrow> 'a parsed"
    and G :: "Token list \<Rightarrow> 'a \<Rightarrow> bool"
    and follow :: "TokenType \<Rightarrow> bool"
  assumes sound: "p ts = Inr (x, ts') \<Longrightarrow> \<exists>us. ts = us @ ts' \<and> G us x"
    and complete: "G us x \<Longrightarrow> follow (next_type rest) \<Longrightarrow> p (us @ rest) = Inr (x, rest)"

locale list_parser = phrase_parser p G follow for p :: "Token list \<Rightarrow> 'a parsed" and G follow +
  fixes f :: "Token list \<Rightarrow> 'a list \<Rightarrow> 'a list parsed"
  assumes loop: "f ts xs =
      (case p ts of
         Inl e \<Rightarrow> Inl e
       | Inr (x, ts1) \<Rightarrow>
           (case Parser_Match kComma ts1 of
              Some ts2 \<Rightarrow> f ts2 (xs @ [x])
            | None \<Rightarrow> Inr (xs @ [x], ts1)))"
    and comma: "follow kComma"
begin

lemma loop_sound:
  "f ts xs = Inr (ys, ts') \<Longrightarrow>
     \<exists>us zs. ts = us @ ts' \<and> ys = xs @ zs \<and> g_list G us zs \<and> (\<forall>vs c ws. g_list G vs ws \<longrightarrow> tok_type c = kComma \<longrightarrow>
        g_list G (vs @ c # us) (ws @ zs))"
proof (induction "length ts" arbitrary: ts xs rule: less_induct)
  case less
  from less.prems obtain x ts1 where x: "p ts = Inr (x, ts1)" by (subst (asm) loop) (auto split: sum.splits)
  obtain us where us: "ts = us @ ts1" "G us x" using sound [OF x] by blast
  show ?case
  proof (cases "Parser_Match kComma ts1")
    case None
    with less.prems x us show ?thesis by (subst (asm) loop) (auto intro: g_list.intros)
  next
    case (Some ts2)
    then obtain c where c: "ts1 = c # ts2" "tok_type c = kComma" by (auto simp: Match_iff)
    from less.prems x Some have "f ts2 (xs @ [x]) = Inr (ys, ts')" by (subst (asm) loop) simp
    then obtain vs zs where v: "ts2 = vs @ ts'" "ys = (xs @ [x]) @ zs" "g_list G vs zs"
      "\<And>ws' c ws. g_list G ws' ws \<Longrightarrow> tok_type c = kComma \<Longrightarrow> g_list G (ws' @ c # vs) (ws @ zs)"
      using less.hyps [of ts2 "xs @ [x]"] us(1) c(1) by auto
    show ?thesis
      using v(4) [OF g_list.single [of G, OF us(2)] c(2)] v(4) [OF g_list.more [of G, OF _ _ us(2)] c(2)] us c v(1,2)
      by (intro exI [of _ "us @ c # vs"] exI [of _ "x # zs"]) simp
  qed
qed

lemma list_sound: "f ts [] = Inr (ys, ts') \<Longrightarrow> \<exists>us. ts = us @ ts' \<and> g_list G us ys"
  using loop_sound by fastforce

lemma loop_complete:
  "g_list G us ys \<Longrightarrow> follow (next_type rest) \<Longrightarrow>
     f (us @ rest) xs = (case Parser_Match kComma rest of
         Some ts2 \<Rightarrow> f ts2 (xs @ ys) | None \<Rightarrow> Inr (xs @ ys, rest))"
proof (induction arbitrary: rest rule: g_list.induct)
  case (single us x)
  then show ?case by (subst loop) (simp add: complete)
next
  case (more us ys c vs x)
  have "f (us @ c # vs @ rest) xs = f (vs @ rest) (xs @ ys)"
    using more.IH [of "c # vs @ rest"] more.hyps(2) comma by simp
  also have "\<dots> = (case Parser_Match kComma rest of
         Some ts2 \<Rightarrow> f ts2 ((xs @ ys) @ [x]) | None \<Rightarrow> Inr ((xs @ ys) @ [x], rest))"
    by (subst loop) (simp add: complete [OF more.hyps(3) more.prems])
  finally show ?case by (simp only: append_assoc append_Cons)
qed

lemma list_complete:
  "g_list G us ys \<Longrightarrow> follow (next_type rest) \<Longrightarrow> next_type rest \<noteq> kComma \<Longrightarrow> f (us @ rest) [] = Inr (ys, rest)"
  by (simp add: loop_complete Match_next)

end

section \<open>Expressions\<close>

inductive g_literal :: "Token list \<Rightarrow> Value \<Rightarrow> bool" where
  "tok_type t = kNull \<Longrightarrow> g_literal [t] VNull"
| "tok_type t = kTrue \<Longrightarrow> g_literal [t] (VBool True)"
| "tok_type t = kFalse \<Longrightarrow> g_literal [t] (VBool False)"
| "tok_type t = kIntLiteral \<Longrightarrow> stoll (tok_lexeme t) = Some n \<Longrightarrow> g_literal [t] (VBigInt n)"
| "tok_type t = kFloatLiteral \<Longrightarrow> stod (tok_lexeme t) = Some d \<Longrightarrow> g_literal [t] (VDouble d)"
| "tok_type t = kStringLiteral \<Longrightarrow> g_literal [t] (VVarchar (tok_lexeme t))"

interpretation literal: phrase_parser Parser_ParseLiteral g_literal "\<lambda>_. True"
proof
  fix ts x ts'
  assume p: "Parser_ParseLiteral ts = Inr (x, ts')"
  show "\<exists>us. ts = us @ ts' \<and> g_literal us x"
  proof (cases ts)
    case Nil
    with p show ?thesis by (simp add: Parser_ParseLiteral_def Parser_Check_def)
  next
    case (Cons t us)
    with p show ?thesis
      by (intro exI [of _ "[t]"])
        (auto simp: Parser_ParseLiteral_def split: if_splits option.splits intro: g_literal.intros)
  qed
next
  fix us x rest
  assume "g_literal us x"
  then show "Parser_ParseLiteral (us @ rest) = Inr (x, rest)"
    by cases (simp_all add: Parser_ParseLiteral_def)
qed

inductive g_primary :: "Token list \<Rightarrow> Expr \<Rightarrow> bool"
  and g_comparison :: "Token list \<Rightarrow> Expr \<Rightarrow> bool"
  and g_and :: "Token list \<Rightarrow> Expr \<Rightarrow> bool"
  and g_or :: "Token list \<Rightarrow> Expr \<Rightarrow> bool" where
  paren: "tok_type l = kLParen \<Longrightarrow> g_or us e \<Longrightarrow> tok_type r = kRParen \<Longrightarrow> g_primary (l # us @ [r]) e"
| column: "tok_type t = kIdentifier \<Longrightarrow> g_primary [t] (ColumnRefExpr (tok_lexeme t))"
| literal: "g_literal us v \<Longrightarrow> g_primary us (LiteralExpr v)"
| primary: "g_primary us e \<Longrightarrow> g_comparison us e"
| compare: "g_primary us l \<Longrightarrow> comparison_op (tok_type t) = Some op \<Longrightarrow> g_primary vs r \<Longrightarrow>
    g_comparison (us @ t # vs) (BinaryExpr l op r)"
| comparison: "g_comparison us e \<Longrightarrow> g_and us e"
| conj: "g_and us l \<Longrightarrow> tok_type t = TokenType.kAnd \<Longrightarrow> g_comparison vs r \<Longrightarrow>
    g_and (us @ t # vs) (BinaryExpr l BinaryOp.kAnd r)"
| conjunction: "g_and us e \<Longrightarrow> g_or us e"
| disj: "g_or us l \<Longrightarrow> tok_type t = TokenType.kOr \<Longrightarrow> g_and vs r \<Longrightarrow>
    g_or (us @ t # vs) (BinaryExpr l BinaryOp.kOr r)"

lemmas g_expr_intros = g_primary_g_comparison_g_and_g_or.intros

lemma expr_sound:
  "Parser_ParsePrimary t1 = Inr (e, ts') \<Longrightarrow> \<exists>us. t1 = us @ ts' \<and> g_primary us e"
  "Parser_ParseComparison t2 = Inr (e, ts') \<Longrightarrow> \<exists>us. t2 = us @ ts' \<and> g_comparison us e"
  "Parser_ParseAndExpr t3 = Inr (e, ts') \<Longrightarrow> \<exists>us. t3 = us @ ts' \<and> g_and us e"
  "and_loop t4 x4 = Inr (e, ts') \<Longrightarrow> g_and vs x4 \<Longrightarrow> \<exists>us. t4 = us @ ts' \<and> g_and (vs @ us) e"
  "Parser_ParseOrExpr t5 = Inr (e, ts') \<Longrightarrow> \<exists>us. t5 = us @ ts' \<and> g_or us e"
  "or_loop t6 x6 = Inr (e, ts') \<Longrightarrow> g_or ws x6 \<Longrightarrow> \<exists>us. t6 = us @ ts' \<and> g_or (ws @ us) e"
proof (induction t1 and t2 and t3 and t4 x4 and t5 and t6 x6 arbitrary: e ts' and e ts' and e ts' and e ts' vs and e ts' and e ts' ws
    rule: Parser_ParsePrimary_Parser_ParseComparison_Parser_ParseAndExpr_and_loop_Parser_ParseOrExpr_or_loop.induct)
  case (1 ts)
  show ?case
  proof (cases "Parser_Match kLParen ts")
    case None
    with 1(2) show ?thesis
      by (subst (asm) Parser_ParsePrimary.simps)
        (auto simp: Check_iff split: sum.splits if_splits dest!: literal.sound intro: g_expr_intros)
  next
    case (Some ts1)
    with 1(2) obtain ts2 where p: "Parser_ParseOrExpr ts1 = Inr (e, ts2)"
      "Parser_Expect kRParen ''parenthesized expression'' ts2 = Inr ts'"
      by (subst (asm) Parser_ParsePrimary.simps) (auto split: sum.splits)
    from 1(1) [OF Some p(1)] obtain us where "ts1 = us @ ts2" "g_or us e" by blast
    moreover obtain l where "ts = l # ts1" "tok_type l = kLParen" using Some by (auto simp: Match_iff)
    moreover obtain r where "ts2 = r # ts'" "tok_type r = kRParen" using p(2) by (auto simp: Expect_iff)
    ultimately show ?thesis by (intro exI [of _ "l # us @ [r]"]) (simp add: paren)
  qed
next
  case (2 ts)
  from 2(3) obtain expr ts1 where p: "Parser_ParsePrimary ts = Inr (expr, ts1)"
    by (subst (asm) Parser_ParseComparison.simps) (auto split: sum.splits)
  obtain us where us: "ts = us @ ts1" "g_primary us expr" using 2(1) [OF p] by blast
  show ?case
  proof (cases "comparison_op (next_type ts1)")
    case None
    with 2(3) p us show ?thesis by (subst (asm) Parser_ParseComparison.simps) (auto intro: g_expr_intros)
  next
    case (Some op)
    then obtain t ts2 where t: "ts1 = t # ts2" by (cases ts1) (auto simp: comparison_op_def)
    from 2(3) p Some obtain right where r: "Parser_ParsePrimary (tl ts1) = Inr (right, ts')"
      "e = BinaryExpr expr op right"
      by (subst (asm) Parser_ParseComparison.simps) (auto split: sum.splits)
    from 2(2) [OF p refl Some r(1)] obtain vs where "tl ts1 = vs @ ts'" "g_primary vs right" by blast
    with us t Some r(2) show ?thesis by (intro exI [of _ "us @ t # vs"]) (auto intro: g_expr_intros)
  qed
next
  case (3 ts)
  from 3(3) obtain expr ts1 where p: "Parser_ParseComparison ts = Inr (expr, ts1)" "and_loop ts1 expr = Inr (e, ts')"
    by (subst (asm) Parser_ParseAndExpr.simps) (auto split: sum.splits)
  obtain us where "ts = us @ ts1" "g_comparison us expr" using 3(1) [OF p(1)] by blast
  with 3(2) [OF p(1) refl p(2) comparison] show ?case by fastforce
next
  case (4 ts expr)
  show ?case
  proof (cases "Parser_Match TokenType.kAnd ts")
    case None
    with 4(3,4) show ?thesis by (subst (asm) and_loop.simps) simp
  next
    case (Some ts1)
    then obtain t where t: "ts = t # ts1" "tok_type t = TokenType.kAnd" by (auto simp: Match_iff)
    from 4(3) Some obtain right ts2 where p: "Parser_ParseComparison ts1 = Inr (right, ts2)"
      "and_loop ts2 (BinaryExpr expr BinaryOp.kAnd right) = Inr (e, ts')"
      by (subst (asm) and_loop.simps) (auto split: sum.splits)
    from 4(1) [OF Some p(1)] obtain us where us: "ts1 = us @ ts2" "g_comparison us right" by blast
    from 4(2) [OF Some p(1) refl p(2) conj [OF 4(4) t(2) us(2)]] us t show ?thesis by auto
  qed
next
  case (5 ts)
  from 5(3) obtain expr ts1 where p: "Parser_ParseAndExpr ts = Inr (expr, ts1)" "or_loop ts1 expr = Inr (e, ts')"
    by (subst (asm) Parser_ParseOrExpr.simps) (auto split: sum.splits)
  obtain us where "ts = us @ ts1" "g_and us expr" using 5(1) [OF p(1)] by blast
  with 5(2) [OF p(1) refl p(2) conjunction] show ?case by fastforce
next
  case (6 ts expr)
  show ?case
  proof (cases "Parser_Match TokenType.kOr ts")
    case None
    with 6(3,4) show ?thesis by (subst (asm) or_loop.simps) simp
  next
    case (Some ts1)
    then obtain t where t: "ts = t # ts1" "tok_type t = TokenType.kOr" by (auto simp: Match_iff)
    from 6(3) Some obtain right ts2 where p: "Parser_ParseAndExpr ts1 = Inr (right, ts2)"
      "or_loop ts2 (BinaryExpr expr BinaryOp.kOr right) = Inr (e, ts')"
      by (subst (asm) or_loop.simps) (auto split: sum.splits)
    from 6(1) [OF Some p(1)] obtain us where us: "ts1 = us @ ts2" "g_and us right" by blast
    from 6(2) [OF Some p(1) refl p(2) disj [OF 6(4) t(2) us(2)]] us t show ?thesis by auto
  qed
qed

text \<open>The tokens that may follow an expression.\<close>

definition ends_expr :: "TokenType \<Rightarrow> bool" where
  "ends_expr t \<longleftrightarrow> comparison_op t = None \<and> t \<noteq> TokenType.kAnd \<and> t \<noteq> TokenType.kOr"

lemma comparison_op_simps [simp]:
  "comparison_op TokenType.kAnd = None" "comparison_op TokenType.kOr = None" "comparison_op kRParen = None"
  by (simp_all add: comparison_op_def)

lemma literal_first:
  "g_literal us v \<Longrightarrow> \<exists>t. us = [t] \<and> tok_type t \<noteq> kLParen \<and> tok_type t \<noteq> kIdentifier"
  by (auto elim!: g_literal.cases)

lemma expr_complete:
  "g_primary us1 e1 \<Longrightarrow> Parser_ParsePrimary (us1 @ rest) = Inr (e1, rest)"
  "g_comparison us2 e2 \<Longrightarrow> comparison_op (next_type rest) = None \<longrightarrow> Parser_ParseComparison (us2 @ rest) = Inr (e2, rest)"
  "g_and us3 e3 \<Longrightarrow> comparison_op (next_type rest) = None \<longrightarrow> Parser_ParseAndExpr (us3 @ rest) = and_loop rest e3"
  "g_or us4 e4 \<Longrightarrow> comparison_op (next_type rest) = None \<longrightarrow> next_type rest \<noteq> TokenType.kAnd \<longrightarrow>
     Parser_ParseOrExpr (us4 @ rest) = or_loop rest e4"
proof (induction arbitrary: rest and rest and rest and rest rule: g_primary_g_comparison_g_and_g_or.inducts)
  case (paren l us e r)
  have "Parser_ParseOrExpr (us @ r # rest) = or_loop (r # rest) e" using paren by simp
  then show ?case using paren by (subst Parser_ParsePrimary.simps) (simp add: or_loop.simps)
next
  case (column t)
  then show ?case by (subst Parser_ParsePrimary.simps) simp
next
  case (literal us v)
  with literal_first [OF literal] literal.complete [OF literal TrueI, of rest] show ?case
    by (subst Parser_ParsePrimary.simps) auto
next
  case (primary us e)
  then show ?case by (subst Parser_ParseComparison.simps) simp
next
  case (compare us l t op vs r)
  then show ?case by (subst Parser_ParseComparison.simps) simp
next
  case (comparison us e)
  then show ?case by (subst Parser_ParseAndExpr.simps) simp
next
  case (conj us l t vs r)
  show ?case
  proof (intro impI)
    assume n: "comparison_op (next_type rest) = None"
    have "Parser_ParseAndExpr (us @ t # vs @ rest) = and_loop (t # vs @ rest) l" using conj by simp
    also have "\<dots> = and_loop rest (BinaryExpr l BinaryOp.kAnd r)"
      using conj n by (subst and_loop.simps) simp
    finally show "Parser_ParseAndExpr ((us @ t # vs) @ rest) = and_loop rest (BinaryExpr l BinaryOp.kAnd r)" by simp
  qed
next
  case (conjunction us e)
  show ?case
  proof (intro impI)
    assume "comparison_op (next_type rest) = None" "next_type rest \<noteq> TokenType.kAnd"
    then show "Parser_ParseOrExpr (us @ rest) = or_loop rest e"
      using conjunction by (subst Parser_ParseOrExpr.simps) (simp add: and_loop.simps Match_next)
  qed
next
  case (disj us l t vs r)
  show ?case
  proof (intro impI)
    assume n: "comparison_op (next_type rest) = None" "next_type rest \<noteq> TokenType.kAnd"
    have "Parser_ParseOrExpr (us @ t # vs @ rest) = or_loop (t # vs @ rest) l" using disj by simp
    also have "\<dots> = or_loop rest (BinaryExpr l BinaryOp.kOr r)"
      using disj n by (subst or_loop.simps) (simp add: and_loop.simps Match_next)
    finally show "Parser_ParseOrExpr ((us @ t # vs) @ rest) = or_loop rest (BinaryExpr l BinaryOp.kOr r)" by simp
  qed
qed

interpretation expr: phrase_parser Parser_ParseOrExpr g_or ends_expr
proof
  show "\<exists>us. ts = us @ ts' \<and> g_or us x" if "Parser_ParseOrExpr ts = Inr (x, ts')" for ts x ts'
    using expr_sound(5) that .
  show "Parser_ParseOrExpr (us @ rest) = Inr (x, rest)" if "g_or us x" "ends_expr (next_type rest)" for us x rest
    using that expr_complete(4) [OF that(1), of rest] by (simp add: ends_expr_def or_loop.simps Match_next)
qed

section \<open>Column definitions, names and rows\<close>

inductive g_name :: "Token list \<Rightarrow> string \<Rightarrow> bool" where
  "tok_type t = kIdentifier \<Longrightarrow> g_name [t] (tok_lexeme t)"

inductive g_type :: "Token list \<Rightarrow> ColumnType \<times> u16 \<Rightarrow> bool" where
  "tok_type t = TokenType.kInt \<Longrightarrow> g_type [t] (ColumnType.kInt, 255)"
| "tok_type t = TokenType.kBigInt \<Longrightarrow> g_type [t] (ColumnType.kBigInt, 255)"
| "tok_type t = TokenType.kDouble \<Longrightarrow> g_type [t] (ColumnType.kDouble, 255)"
| "tok_type t = TokenType.kBoolean \<Longrightarrow> g_type [t] (ColumnType.kBool, 255)"
| "tok_type t = TokenType.kVarchar \<Longrightarrow> g_type [t] (ColumnType.kVarchar, 255)"
| "tok_type t = TokenType.kVarchar \<Longrightarrow> tok_type l = kLParen \<Longrightarrow> tok_type i = kIntLiteral \<Longrightarrow>
     stoul (tok_lexeme i) = Some n \<Longrightarrow> tok_type r = kRParen \<Longrightarrow> g_type [t, l, i, r] (ColumnType.kVarchar, ucast n)"

inductive g_column :: "Token list \<Rightarrow> Column \<Rightarrow> bool" where
  "tok_type t = kIdentifier \<Longrightarrow> g_type us (ty, len) \<Longrightarrow>
     g_column (t # us) \<lparr>col_name = tok_lexeme t, col_type = ty, col_nullable = True, col_max_length = len\<rparr>"
| "tok_type t = kIdentifier \<Longrightarrow> g_type us (ty, len) \<Longrightarrow> tok_type n = kNot \<Longrightarrow> tok_type m = kNull \<Longrightarrow>
     g_column (t # us @ [n, m]) \<lparr>col_name = tok_lexeme t, col_type = ty, col_nullable = False, col_max_length = len\<rparr>"

interpretation name: phrase_parser "Parser_Identifier message" g_name "\<lambda>_. True" for message
  by unfold_locales (auto simp: Identifier_iff elim!: g_name.cases intro: g_name.intros)

interpretation coltype: phrase_parser Parser_ParseColumnType g_type "\<lambda>t. t \<noteq> kLParen"
proof
  fix ts x ts'
  assume p: "Parser_ParseColumnType ts = Inr (x, ts')"
  then obtain t us where ts: "ts = t # us"
    by (cases ts) (auto simp: Parser_ParseColumnType_def)
  show "\<exists>us. ts = us @ ts' \<and> g_type us x"
  proof (cases "Parser_Match kLParen us")
    case None
    with p ts show ?thesis
      by (intro exI [of _ "[t]"]) (auto simp: Parser_ParseColumnType_def split: TokenType.splits intro: g_type.intros)
  next
    case (Some vs)
    then obtain l where l: "us = l # vs" "tok_type l = kLParen" by (auto simp: Match_iff)
    show ?thesis
    proof (cases "tok_type t = TokenType.kVarchar")
      case True
      with p ts l show ?thesis
        by (fastforce simp: Parser_ParseColumnType_def Check_iff bind_result_Inr_iff Expect_iff
            split: if_splits option.splits intro: g_type.intros)
    next
      case False
      with p ts show ?thesis
        by (intro exI [of _ "[t]"]) (auto simp: Parser_ParseColumnType_def split: TokenType.splits intro: g_type.intros)
    qed
  qed
next
  fix us x rest
  assume "g_type us x" "next_type rest \<noteq> kLParen"
  then show "Parser_ParseColumnType (us @ rest) = Inr (x, rest)"
    by cases (simp_all add: Parser_ParseColumnType_def Match_next)
qed

interpretation column: phrase_parser Parser_ParseColumnDef g_column "\<lambda>t. t \<noteq> kLParen \<and> t \<noteq> kNot"
proof
  fix ts x ts'
  assume p: "Parser_ParseColumnDef ts = Inr (x, ts')"
  then obtain t ts1 ty len ts2 where t: "ts = t # ts1" "tok_type t = kIdentifier"
    "Parser_ParseColumnType ts1 = Inr ((ty, len), ts2)"
    by (auto simp: Parser_ParseColumnDef_def bind_result_Inr_iff Identifier_iff)
  obtain us where us: "ts1 = us @ ts2" "g_type us (ty, len)" using coltype.sound [OF t(3)] by blast
  show "\<exists>us. ts = us @ ts' \<and> g_column us x"
  proof (cases "Parser_Match kNot ts2")
    case None
    with p t us show ?thesis
      by (intro exI [of _ "t # us"]) (auto simp: Parser_ParseColumnDef_def intro: g_column.intros)
  next
    case (Some ts3)
    with p t obtain n m where "ts2 = n # m # ts'" "tok_type n = kNot" "tok_type m = kNull"
      "x = \<lparr>col_name = tok_lexeme t, col_type = ty, col_nullable = False, col_max_length = len\<rparr>"
      by (auto simp: Parser_ParseColumnDef_def bind_result_Inr_iff token_iffs)
    with t us show ?thesis by (intro exI [of _ "t # us @ [n, m]"]) (auto intro: g_column.intros)
  qed
next
  fix us x rest
  assume "g_column us x" "next_type rest \<noteq> kLParen \<and> next_type rest \<noteq> kNot"
  then show "Parser_ParseColumnDef (us @ rest) = Inr (x, rest)"
    by cases (auto simp: Parser_ParseColumnDef_def Match_next coltype.complete)
qed

interpretation columns: list_parser Parser_ParseColumnDef g_column "\<lambda>t. t \<noteq> kLParen \<and> t \<noteq> kNot" parse_columns
  by unfold_locales (simp_all add: parse_columns.simps)

interpretation names: list_parser "Parser_Identifier ''expected column name in INSERT column list''" g_name "\<lambda>_. True" parse_names
  by unfold_locales (simp_all add: parse_names.simps)

interpretation row_values: list_parser Parser_ParseLiteral g_literal "\<lambda>_. True" parse_row
  by unfold_locales (simp_all add: parse_row.simps)

text \<open>One tuple of \<open>VALUES\<close> and one assignment of \<open>SET\<close>: the bodies of their loops.\<close>

definition row_phrase :: "Token list \<Rightarrow> Value list parsed" where
  "row_phrase ts =
     bind_result (Parser_Expect kLParen ''INSERT VALUES'' ts) (\<lambda>ts1.
     bind_result (parse_row ts1 []) (\<lambda>(row, ts2).
     bind_result (Parser_Expect kRParen ''INSERT VALUES tuple'' ts2) (\<lambda>ts3. Inr (row, ts3))))"

definition assignment_phrase :: "Token list \<Rightarrow> (string \<times> Value) parsed" where
  "assignment_phrase ts =
     bind_result (Parser_Identifier ''expected column name in UPDATE SET clause'' ts) (\<lambda>(col, ts1).
     bind_result (Parser_Expect TokenType.kEq ''UPDATE SET'' ts1) (\<lambda>ts2.
     bind_result (Parser_ParseLiteral ts2) (\<lambda>(lit, ts3). Inr ((col, lit), ts3))))"

inductive g_row :: "Token list \<Rightarrow> Value list \<Rightarrow> bool" where
  "tok_type l = kLParen \<Longrightarrow> g_list g_literal us row \<Longrightarrow> tok_type r = kRParen \<Longrightarrow> g_row (l # us @ [r]) row"

inductive g_assignment :: "Token list \<Rightarrow> string \<times> Value \<Rightarrow> bool" where
  "tok_type t = kIdentifier \<Longrightarrow> tok_type q = TokenType.kEq \<Longrightarrow> g_literal us v \<Longrightarrow>
     g_assignment (t # q # us) (tok_lexeme t, v)"

interpretation rows: list_parser row_phrase g_row "\<lambda>_. True" parse_rows
proof
  show "\<exists>us. ts = us @ ts' \<and> g_row us x" if p: "row_phrase ts = Inr (x, ts')" for ts x ts'
  proof -
    obtain l ts1 ts2 r where "ts = l # ts1" "tok_type l = kLParen" "parse_row ts1 [] = Inr (x, ts2)"
      "ts2 = r # ts'" "tok_type r = kRParen"
      using p by (auto simp: row_phrase_def bind_result_Inr_iff Expect_iff)
    moreover then obtain us where "ts1 = us @ ts2" "g_list g_literal us x" using row_values.list_sound by blast
    ultimately show ?thesis by (intro exI [of _ "l # us @ [r]"]) (auto intro: g_row.intros)
  qed
  show "row_phrase (us @ rest) = Inr (x, rest)" if "g_row us x" for us x rest
    using that by cases (simp add: row_phrase_def row_values.list_complete)
  show "parse_rows ts xs = (case row_phrase ts of Inl e \<Rightarrow> Inl e | Inr (x, ts1) \<Rightarrow>
      (case Parser_Match kComma ts1 of Some ts2 \<Rightarrow> parse_rows ts2 (xs @ [x]) | None \<Rightarrow> Inr (xs @ [x], ts1)))" for ts xs
    by (subst parse_rows.simps) (simp add: row_phrase_def bind_result_def split: sum.splits prod.splits)
qed simp

interpretation assignments: list_parser assignment_phrase g_assignment "\<lambda>_. True" parse_assignments
proof
  show "\<exists>us. ts = us @ ts' \<and> g_assignment us x" if p: "assignment_phrase ts = Inr (x, ts')" for ts x ts'
  proof -
    obtain t q ts1 v where "ts = t # q # ts1" "tok_type t = kIdentifier" "tok_type q = TokenType.kEq"
      "Parser_ParseLiteral ts1 = Inr (v, ts')" "x = (tok_lexeme t, v)"
      using p by (auto simp: assignment_phrase_def bind_result_Inr_iff token_iffs)
    moreover then obtain us where "ts1 = us @ ts'" "g_literal us v" using literal.sound by blast
    ultimately show ?thesis by (intro exI [of _ "t # q # us"]) (auto intro: g_assignment.intros)
  qed
  show "assignment_phrase (us @ rest) = Inr (x, rest)" if "g_assignment us x" for us x rest
    using that by cases (simp add: assignment_phrase_def literal.complete)
  show "parse_assignments ts xs = (case assignment_phrase ts of Inl e \<Rightarrow> Inl e | Inr (x, ts1) \<Rightarrow>
      (case Parser_Match kComma ts1 of Some ts2 \<Rightarrow> parse_assignments ts2 (xs @ [x]) | None \<Rightarrow> Inr (xs @ [x], ts1)))" for ts xs
    by (subst parse_assignments.simps) (simp add: assignment_phrase_def bind_result_def split: sum.splits prod.splits)
qed simp

section \<open>Select lists\<close>

inductive g_alias :: "Token list \<Rightarrow> string option \<Rightarrow> bool" where
  "g_alias [] None"
| "tok_type a = kAs \<Longrightarrow> tok_type t = kIdentifier \<Longrightarrow> g_alias [a, t] (Some (tok_lexeme t))"

inductive g_item :: "Token list \<Rightarrow> SelectItem \<Rightarrow> bool" where
  "tok_type t = kIdentifier \<Longrightarrow> g_alias us name \<Longrightarrow>
     g_item (t # us) (SelectItem_default\<lparr>si_column := Some (tok_lexeme t), si_alias := name\<rparr>)"
| "AggregateForToken (tok_type a) = Some agg \<Longrightarrow> tok_type l = kLParen \<Longrightarrow> tok_type t = kIdentifier \<Longrightarrow>
     tok_type r = kRParen \<Longrightarrow> g_alias us name \<Longrightarrow>
     g_item (a # l # t # r # us)
       (SelectItem_default\<lparr>aggregate := Some agg, si_column := Some (tok_lexeme t), si_alias := name\<rparr>)"
| "tok_type a = TokenType.kCount \<Longrightarrow> tok_type l = kLParen \<Longrightarrow> tok_type t = kStar \<Longrightarrow>
     tok_type r = kRParen \<Longrightarrow> g_alias us name \<Longrightarrow>
     g_item (a # l # t # r # us)
       (SelectItem_default\<lparr>aggregate := Some AggregateFunc.kCount, aggregate_star := True, si_alias := name\<rparr>)"

interpretation alias_phrase: phrase_parser parse_alias g_alias "\<lambda>t. t \<noteq> kAs"
proof
  fix ts x ts'
  assume p: "parse_alias ts = Inr (x, ts')"
  show "\<exists>us. ts = us @ ts' \<and> g_alias us x"
  proof (cases "Parser_Match kAs ts")
    case None
    with p show ?thesis by (auto simp: parse_alias_def intro: g_alias.intros)
  next
    case (Some ts1)
    with p show ?thesis
      by (fastforce simp: parse_alias_def bind_result_Inr_iff token_iffs intro: g_alias.intros)
  qed
next
  fix us x rest
  assume "g_alias us x" "next_type rest \<noteq> kAs"
  then show "parse_alias (us @ rest) = Inr (x, rest)" by cases (simp_all add: parse_alias_def Match_next)
qed

lemma Aggregate_simps [simp]:
  "AggregateForToken kIdentifier = None"
  "AggregateForToken TokenType.kCount = Some AggregateFunc.kCount"
  by (simp_all add: AggregateForToken_def)

lemma Aggregate_count: "AggregateForToken t = Some AggregateFunc.kCount \<longleftrightarrow> t = TokenType.kCount"
  by (cases t) (simp_all add: AggregateForToken_def)

interpretation item: phrase_parser Parser_ParseSelectItem g_item "\<lambda>t. t \<noteq> kAs"
proof
  fix ts x ts'
  assume p: "Parser_ParseSelectItem ts = Inr (x, ts')"
  show "\<exists>us. ts = us @ ts' \<and> g_item us x"
  proof (cases "AggregateForToken (next_type ts)")
    case None
    with p obtain t ts1 name where t: "ts = t # ts1" "tok_type t = kIdentifier" "parse_alias ts1 = Inr (name, ts')"
      "x = SelectItem_default\<lparr>si_column := Some (tok_lexeme t), si_alias := name\<rparr>"
      by (auto simp: Parser_ParseSelectItem_def bind_result_Inr_iff Identifier_iff)
    obtain us where "ts1 = us @ ts'" "g_alias us name" using alias_phrase.sound [OF t(3)] by blast
    with t show ?thesis by (intro exI [of _ "t # us"]) (auto intro: g_item.intros)
  next
    case (Some agg)
    then obtain a ts0 where a: "ts = a # ts0" by (cases ts) (auto simp: AggregateForToken_def)
    from p Some a obtain l t r ts1 name where t: "ts0 = l # t # r # ts1" "tok_type l = kLParen" "tok_type r = kRParen"
      "parse_alias ts1 = Inr (name, ts')"
      "tok_type t = kStar \<and> agg = AggregateFunc.kCount \<and>
         x = SelectItem_default\<lparr>aggregate := Some AggregateFunc.kCount, aggregate_star := True, si_alias := name\<rparr> \<or>
       tok_type t = kIdentifier \<and>
         x = SelectItem_default\<lparr>aggregate := Some agg, si_column := Some (tok_lexeme t), si_alias := name\<rparr>"
      by (auto simp: Parser_ParseSelectItem_def bind_result_Inr_iff token_iffs SelectItem_default_def
          split: option.splits if_splits)
    obtain us where us: "ts1 = us @ ts'" "g_alias us name" using alias_phrase.sound [OF t(4)] by blast
    have "g_item (a # l # t # r # us) x"
      using t(2,3,5) us(2) Some a by (auto simp: Aggregate_count intro: g_item.intros)
    with a t us show ?thesis by (intro exI [of _ "a # l # t # r # us"]) simp
  qed
next
  fix us x rest
  assume "g_item us x" "next_type rest \<noteq> kAs"
  then show "Parser_ParseSelectItem (us @ rest) = Inr (x, rest)"
    by cases (simp_all add: Parser_ParseSelectItem_def alias_phrase.complete SelectItem_default_def)
qed

interpretation items: list_parser Parser_ParseSelectItem g_item "\<lambda>t. t \<noteq> kAs" parse_items
  by unfold_locales (simp_all add: parse_items.simps)

section \<open>Clauses\<close>

inductive g_where :: "Token list \<Rightarrow> Expr option \<Rightarrow> bool" where
  "g_where [] None"
| "tok_type w = kWhere \<Longrightarrow> g_or us e \<Longrightarrow> g_where (w # us) (Some e)"

inductive g_order :: "Token list \<Rightarrow> OrderByClause option \<Rightarrow> bool" where
  "g_order [] None"
| "tok_type a = kOrder \<Longrightarrow> tok_type b = kBy \<Longrightarrow> tok_type t = kIdentifier \<Longrightarrow>
     g_order [a, b, t] (Some \<lparr>ob_column = tok_lexeme t, descending = False\<rparr>)"
| "tok_type a = kOrder \<Longrightarrow> tok_type b = kBy \<Longrightarrow> tok_type t = kIdentifier \<Longrightarrow> tok_type d = kAsc \<or> tok_type d = kDesc \<Longrightarrow>
     g_order [a, b, t, d] (Some \<lparr>ob_column = tok_lexeme t, descending = (tok_type d = kDesc)\<rparr>)"

inductive g_limit :: "Token list \<Rightarrow> 64 word option \<Rightarrow> bool" where
  "g_limit [] None"
| "tok_type a = kLimit \<Longrightarrow> tok_type t = kIntLiteral \<Longrightarrow> stoll (tok_lexeme t) = Some n \<Longrightarrow> g_limit [a, t] (Some n)"

interpretation where_phrase: phrase_parser parse_optional_where g_where "\<lambda>t. t \<noteq> kWhere \<and> ends_expr t"
proof
  fix ts x ts'
  assume p: "parse_optional_where ts = Inr (x, ts')"
  show "\<exists>us. ts = us @ ts' \<and> g_where us x"
  proof (cases "Parser_Check kWhere ts")
    case False
    with p show ?thesis by (auto simp: parse_optional_where_def intro: g_where.intros)
  next
    case True
    then obtain w ts1 where w: "ts = w # ts1" "tok_type w = kWhere" by (auto simp: Check_iff)
    with p obtain e where e: "Parser_ParseOrExpr ts1 = Inr (e, ts')" "x = Some e"
      by (auto simp: parse_optional_where_def Parser_ParseWhereClause_def bind_result_Inr_iff)
    obtain us where "ts1 = us @ ts'" "g_or us e" using expr.sound [OF e(1)] by blast
    with w e show ?thesis by (intro exI [of _ "w # us"]) (auto intro: g_where.intros)
  qed
next
  fix us x rest
  assume "g_where us x" "next_type rest \<noteq> kWhere \<and> ends_expr (next_type rest)"
  then show "parse_optional_where (us @ rest) = Inr (x, rest)"
    by cases (auto simp: parse_optional_where_def Parser_ParseWhereClause_def expr.complete Parser_Check_def)
qed

interpretation order_phrase: phrase_parser parse_order_by g_order "\<lambda>t. t \<noteq> kOrder \<and> t \<noteq> kAsc \<and> t \<noteq> kDesc"
proof
  fix ts x ts'
  assume p: "parse_order_by ts = Inr (x, ts')"
  show "\<exists>us. ts = us @ ts' \<and> g_order us x"
  proof (cases "Parser_Match kOrder ts")
    case None
    with p show ?thesis by (auto simp: parse_order_by_def intro: g_order.intros)
  next
    case (Some ts1)
    with p obtain a b t ts3 where t: "ts = a # b # t # ts3" "tok_type a = kOrder" "tok_type b = kBy" "tok_type t = kIdentifier"
      by (auto simp: parse_order_by_def bind_result_Inr_iff token_iffs)
    show ?thesis
    proof (cases "\<exists>d ts4. ts3 = d # ts4 \<and> (tok_type d = kAsc \<or> tok_type d = kDesc)")
      case True
      then obtain d ts4 where "ts3 = d # ts4" "tok_type d = kAsc \<or> tok_type d = kDesc" by blast
      with p t g_order.intros(3) [OF t(2-4), of d] show ?thesis
        by (intro exI [of _ "[a, b, t, d]"]) (auto simp: parse_order_by_def)
    next
      case False
      then have "Parser_Match kDesc ts3 = None" "Parser_Match kAsc ts3 = None"
        by (cases ts3; auto simp: Parser_Match_def Parser_Check_def)+
      with p t g_order.intros(2) [OF t(2-4)] show ?thesis
        by (intro exI [of _ "[a, b, t]"]) (auto simp: parse_order_by_def)
    qed
  qed
next
  fix us x rest
  assume "g_order us x" "next_type rest \<noteq> kOrder \<and> next_type rest \<noteq> kAsc \<and> next_type rest \<noteq> kDesc"
  then show "parse_order_by (us @ rest) = Inr (x, rest)"
    by cases (auto simp: parse_order_by_def Match_next)
qed

interpretation limit_phrase: phrase_parser parse_limit g_limit "\<lambda>t. t \<noteq> kLimit"
proof
  fix ts x ts'
  assume p: "parse_limit ts = Inr (x, ts')"
  show "\<exists>us. ts = us @ ts' \<and> g_limit us x"
  proof (cases "Parser_Match kLimit ts")
    case None
    with p show ?thesis by (auto simp: parse_limit_def intro: g_limit.intros)
  next
    case (Some ts1)
    with p obtain a t where t: "ts = a # t # ts'" "tok_type a = kLimit" "tok_type t = kIntLiteral"
      "stoll (tok_lexeme t) = x" "x \<noteq> None"
      by (auto simp: parse_limit_def Match_iff Check_iff split: if_splits option.splits dest: sym)
    then show ?thesis by (intro exI [of _ "[a, t]"]) (auto intro: g_limit.intros)
  qed
next
  fix us x rest
  assume "g_limit us x" "next_type rest \<noteq> kLimit"
  then show "parse_limit (us @ rest) = Inr (x, rest)" by cases (auto simp: parse_limit_def Match_next)
qed

section \<open>Statements\<close>

inductive g_columns :: "Token list \<Rightarrow> string list \<Rightarrow> bool" where
  "g_columns [] []"
| "tok_type l = kLParen \<Longrightarrow> g_list g_name us names \<Longrightarrow> tok_type r = kRParen \<Longrightarrow> g_columns (l # us @ [r]) names"

inductive g_select_list :: "Token list \<Rightarrow> SelectItem list \<Rightarrow> bool" where
  "tok_type t = kStar \<Longrightarrow> g_select_list [t] [SelectItem_default\<lparr>is_star := True\<rparr>]"
| "g_list g_item us xs \<Longrightarrow> g_select_list us xs"

inductive g_statement :: "Token list \<Rightarrow> Statement \<Rightarrow> bool" where
  create_table: "map tok_type [k, t, n, l, r] = [kCreate, kTable, kIdentifier, kLParen, kRParen] \<Longrightarrow>
    g_list g_column us cols \<Longrightarrow>
    g_statement (k # t # n # l # us @ [r]) (CreateTableStmt (tok_lexeme n) cols)"
| drop_table: "map tok_type [k, t, n] = [kDrop, kTable, kIdentifier] \<Longrightarrow>
    g_statement [k, t, n] (DropTableStmt (tok_lexeme n))"
| create_index: "map tok_type [k, i, n, p, t, l, c, r] =
      [kCreate, kIndex, kIdentifier, kOn, kIdentifier, kLParen, kIdentifier, kRParen] \<Longrightarrow>
    g_statement [k, i, n, p, t, l, c, r] (CreateIndexStmt (tok_lexeme n) (tok_lexeme t) (tok_lexeme c))"
| drop_index: "map tok_type [k, i, n] = [kDrop, kIndex, kIdentifier] \<Longrightarrow>
    g_statement [k, i, n] (DropIndexStmt (tok_lexeme n))"
| insert: "map tok_type [k, i, t, v] = [kInsert, kInto, kIdentifier, kValues] \<Longrightarrow>
    g_columns us names \<Longrightarrow> g_list g_row vs rows \<Longrightarrow>
    g_statement (k # i # t # us @ v # vs) (InsertStmt (tok_lexeme t) names rows)"
| update: "map tok_type [k, t, s] = [kUpdate, kIdentifier, kSet] \<Longrightarrow>
    g_list g_assignment us assignments \<Longrightarrow> g_where vs w \<Longrightarrow>
    g_statement (k # t # s # us @ vs) (UpdateStmt (tok_lexeme t) assignments w)"
| delete: "map tok_type [k, f, t] = [kDelete, kFrom, kIdentifier] \<Longrightarrow> g_where us w \<Longrightarrow>
    g_statement (k # f # t # us) (DeleteStmt (tok_lexeme t) w)"
| select: "map tok_type [k, f, t] = [kSelect, kFrom, kIdentifier] \<Longrightarrow>
    g_select_list us xs \<Longrightarrow> g_where vs w \<Longrightarrow> g_order os ob \<Longrightarrow> g_limit ls lm \<Longrightarrow>
    g_statement (k # us @ f # t # vs @ os @ ls) (SelectStmt xs (tok_lexeme t) w ob lm)"

definition ends_statement :: "TokenType \<Rightarrow> bool" where
  "ends_statement t \<longleftrightarrow> t = kSemicolon \<or> t = kEndOfInput"

lemma CreateTable_sound:
  assumes "Parser_ParseCreateTable ts = Inr (x, ts')" and "tok_type k = kCreate"
  shows "\<exists>us. k # ts = us @ ts' \<and> g_statement us x"
proof -
  obtain t n l ts3 ts4 cols r where t: "ts = t # n # l # ts3" "tok_type t = kTable" "tok_type n = kIdentifier"
    "tok_type l = kLParen" "parse_columns ts3 [] = Inr (cols, ts4)" "ts4 = r # ts'" "tok_type r = kRParen"
    "x = CreateTableStmt (tok_lexeme n) cols"
    using assms(1) by (auto simp: Parser_ParseCreateTable_def bind_result_Inr_iff token_iffs split: if_splits)
  obtain us where "ts3 = us @ ts4" "g_list g_column us cols" using columns.list_sound [OF t(5)] by blast
  with t assms(2) show ?thesis
    by (intro exI [of _ "k # t # n # l # us @ [r]"]) (auto intro: create_table)
qed

lemma DropTable_sound:
  assumes "Parser_ParseDropTable ts = Inr (x, ts')" and "tok_type k = kDrop"
  shows "\<exists>us. k # ts = us @ ts' \<and> g_statement us x"
proof -
  obtain t n where "ts = t # n # ts'" "tok_type t = kTable" "tok_type n = kIdentifier" "x = DropTableStmt (tok_lexeme n)"
    using assms(1) by (auto simp: Parser_ParseDropTable_def bind_result_Inr_iff token_iffs)
  with assms(2) show ?thesis by (intro exI [of _ "[k, t, n]"]) (auto intro: drop_table)
qed

lemma CreateIndex_sound:
  assumes "Parser_ParseCreateIndex ts = Inr (x, ts')" and "tok_type k = kCreate"
  shows "\<exists>us. k # ts = us @ ts' \<and> g_statement us x"
proof -
  obtain i n p t l c r where "ts = [i, n, p, t, l, c, r] @ ts'"
    "map tok_type [i, n, p, t, l, c, r] = [kIndex, kIdentifier, kOn, kIdentifier, kLParen, kIdentifier, kRParen]"
    "x = CreateIndexStmt (tok_lexeme n) (tok_lexeme t) (tok_lexeme c)"
    using assms(1) by (auto simp: Parser_ParseCreateIndex_def bind_result_Inr_iff token_iffs)
  with assms(2) show ?thesis by (intro exI [of _ "[k, i, n, p, t, l, c, r]"]) (auto intro: create_index)
qed

lemma DropIndex_sound:
  assumes "Parser_ParseDropIndex ts = Inr (x, ts')" and "tok_type k = kDrop"
  shows "\<exists>us. k # ts = us @ ts' \<and> g_statement us x"
proof -
  obtain i n where "ts = i # n # ts'" "tok_type i = kIndex" "tok_type n = kIdentifier" "x = DropIndexStmt (tok_lexeme n)"
    using assms(1) by (auto simp: Parser_ParseDropIndex_def bind_result_Inr_iff token_iffs)
  with assms(2) show ?thesis by (intro exI [of _ "[k, i, n]"]) (auto intro: drop_index)
qed

text \<open>The optional column list of \<open>INSERT\<close> and the select list, as their statements parse them.\<close>

lemma Insert_columns_sound:
  assumes "(case Parser_Match kLParen ts of
       None \<Rightarrow> Inr ([], ts)
     | Some ts3 \<Rightarrow>
         bind_result (parse_names ts3 []) (\<lambda>(columns, ts4).
         bind_result (Parser_Expect kRParen ''INSERT column list'' ts4) (\<lambda>ts5. Inr (columns, ts5)))) = Inr (names, ts')"
  shows "\<exists>us. ts = us @ ts' \<and> g_columns us names"
proof (cases "Parser_Match kLParen ts")
  case None
  with assms show ?thesis by (auto intro: g_columns.intros)
next
  case (Some ts3)
  with assms obtain l ts4 r where t: "ts = l # ts3" "tok_type l = kLParen" "parse_names ts3 [] = Inr (names, ts4)"
    "ts4 = r # ts'" "tok_type r = kRParen"
    by (auto simp: bind_result_Inr_iff token_iffs)
  obtain us where "ts3 = us @ ts4" "g_list g_name us names" using names.list_sound [OF t(3)] by blast
  with t show ?thesis by (intro exI [of _ "l # us @ [r]"]) (auto intro: g_columns.intros)
qed

lemma Insert_sound:
  assumes "Parser_ParseInsert ts = Inr (x, ts')" and "tok_type k = kInsert"
  shows "\<exists>us. k # ts = us @ ts' \<and> g_statement us x"
proof -
  obtain i t ts2 names ts6 v ts7 rows where t: "ts = i # t # ts2" "tok_type i = kInto" "tok_type t = kIdentifier"
    "(case Parser_Match kLParen ts2 of
       None \<Rightarrow> Inr ([], ts2)
     | Some ts3 \<Rightarrow>
         bind_result (parse_names ts3 []) (\<lambda>(columns, ts4).
         bind_result (Parser_Expect kRParen ''INSERT column list'' ts4) (\<lambda>ts5. Inr (columns, ts5)))) = Inr (names, ts6)"
    "ts6 = v # ts7" "tok_type v = kValues" "parse_rows ts7 [] = Inr (rows, ts')" "x = InsertStmt (tok_lexeme t) names rows"
    using assms(1) unfolding Parser_ParseInsert_def bind_result_Inr_iff by (clarsimp simp: token_iffs bind_result_Inr_iff)
  obtain us where "ts2 = us @ ts6" "g_columns us names" using Insert_columns_sound [OF t(4)] by blast
  moreover obtain vs where "ts7 = vs @ ts'" "g_list g_row vs rows" using rows.list_sound [OF t(7)] by blast
  ultimately show ?thesis using t(1-3,5,6,8) assms(2)
    by (intro exI [of _ "k # i # t # us @ v # vs"]) (auto intro: insert)
qed

lemma Update_sound:
  assumes "Parser_ParseUpdate ts = Inr (x, ts')" and "tok_type k = kUpdate"
  shows "\<exists>us. k # ts = us @ ts' \<and> g_statement us x"
proof -
  obtain t s ts2 assignments ts3 w where t: "ts = t # s # ts2" "tok_type t = kIdentifier" "tok_type s = kSet"
    "parse_assignments ts2 [] = Inr (assignments, ts3)" "parse_optional_where ts3 = Inr (w, ts')"
    "x = UpdateStmt (tok_lexeme t) assignments w"
    using assms(1) by (auto simp: Parser_ParseUpdate_def bind_result_Inr_iff token_iffs)
  obtain us where "ts2 = us @ ts3" "g_list g_assignment us assignments" using assignments.list_sound [OF t(4)] by blast
  moreover obtain vs where "ts3 = vs @ ts'" "g_where vs w" using where_phrase.sound [OF t(5)] by blast
  ultimately show ?thesis using t assms(2) by (intro exI [of _ "k # t # s # us @ vs"]) (auto intro: update)
qed

lemma Delete_sound:
  assumes "Parser_ParseDelete ts = Inr (x, ts')" and "tok_type k = kDelete"
  shows "\<exists>us. k # ts = us @ ts' \<and> g_statement us x"
proof -
  obtain f t ts2 w where t: "ts = f # t # ts2" "tok_type f = kFrom" "tok_type t = kIdentifier"
    "parse_optional_where ts2 = Inr (w, ts')" "x = DeleteStmt (tok_lexeme t) w"
    using assms(1) by (auto simp: Parser_ParseDelete_def bind_result_Inr_iff token_iffs)
  obtain us where "ts2 = us @ ts'" "g_where us w" using where_phrase.sound [OF t(4)] by blast
  with t assms(2) show ?thesis by (intro exI [of _ "k # f # t # us"]) (auto intro: delete)
qed

lemma Select_list_sound:
  assumes "(case Parser_Match kStar ts of
          Some ts1 \<Rightarrow> Inr ([SelectItem_default\<lparr>is_star := True\<rparr>], ts1)
        | None \<Rightarrow> parse_items ts []) = Inr (xs, ts')"
  shows "\<exists>us. ts = us @ ts' \<and> g_select_list us xs"
proof (cases "Parser_Match kStar ts")
  case None
  with assms items.list_sound [of ts xs ts'] show ?thesis by (auto intro: g_select_list.intros)
next
  case (Some ts1)
  with assms obtain t where "ts = [t] @ ts'" "tok_type t = kStar" "xs = [SelectItem_default\<lparr>is_star := True\<rparr>]"
    by (auto simp: Match_iff)
  then show ?thesis using g_select_list.intros(1) by blast
qed

lemma Select_sound:
  assumes "Parser_ParseSelect ts = Inr (x, ts')" and "tok_type k = kSelect"
  shows "\<exists>us. k # ts = us @ ts' \<and> g_statement us x"
proof -
  obtain xs ts2 f t ts4 w ts5 ob ts6 lm where t:
    "(case Parser_Match kStar ts of
          Some ts1 \<Rightarrow> Inr ([SelectItem_default\<lparr>is_star := True\<rparr>], ts1)
        | None \<Rightarrow> parse_items ts []) = Inr (xs, ts2)"
    "ts2 = f # t # ts4" "tok_type f = kFrom" "tok_type t = kIdentifier"
    "parse_optional_where ts4 = Inr (w, ts5)" "parse_order_by ts5 = Inr (ob, ts6)" "parse_limit ts6 = Inr (lm, ts')"
    "x = SelectStmt xs (tok_lexeme t) w ob lm"
    using assms(1) unfolding Parser_ParseSelect_def bind_result_Inr_iff by (clarsimp simp: token_iffs bind_result_Inr_iff)
  obtain us where us: "ts = us @ ts2" "g_select_list us xs" using Select_list_sound [OF t(1)] by blast
  obtain vs where vs: "ts4 = vs @ ts5" "g_where vs w" using where_phrase.sound [OF t(5)] by blast
  obtain os where os: "ts5 = os @ ts6" "g_order os ob" using order_phrase.sound [OF t(6)] by blast
  obtain ls where ls: "ts6 = ls @ ts'" "g_limit ls lm" using limit_phrase.sound [OF t(7)] by blast
  from t(2-4,8) assms(2) us vs os ls show ?thesis
    by (intro exI [of _ "k # us @ f # t # vs @ os @ ls"]) (auto intro: select)
qed

lemmas statement_sound =
  CreateTable_sound DropTable_sound CreateIndex_sound DropIndex_sound Insert_sound Update_sound Delete_sound Select_sound

lemma keyword_sound:
  assumes "parse_by_keyword ts = Inr (x, ts')"
  shows "\<exists>us. ts = us @ ts' \<and> g_statement us x"
proof -
  obtain k ts1 where k: "ts = k # ts1" using assms by (cases ts) (auto simp: parse_by_keyword_def)
  show ?thesis
    using assms k by (auto simp: parse_by_keyword_def split: TokenType.splits if_splits dest: statement_sound)
qed

lemma items_first: "g_list g_item us xs \<Longrightarrow> \<exists>t ts. us = t # ts \<and> tok_type t \<noteq> kStar"
  by (induction rule: g_list.induct) (auto elim!: g_item.cases simp: AggregateForToken_def)

lemma keyword_complete:
  assumes "g_statement us x" and "ends_statement (next_type rest)"
  shows "parse_by_keyword (us @ rest) = Inr (x, rest)"
proof -
  have f: "next_type rest \<noteq> kComma" "next_type rest \<noteq> kWhere" "ends_expr (next_type rest)" "next_type rest \<noteq> kOrder"
    "next_type rest \<noteq> kAsc" "next_type rest \<noteq> kDesc" "next_type rest \<noteq> kLimit"
    using assms(2) by (auto simp: ends_statement_def ends_expr_def comparison_op_def)
  show ?thesis using assms(1)
  proof cases
    case (create_table k t n l r us cols)
    then show ?thesis
      by (auto simp: parse_by_keyword_def Parser_ParseCreateTable_def columns.list_complete elim: g_list.cases)
  next
    case (insert k i t v us names vs rows)
    then show ?thesis
      by (auto simp: parse_by_keyword_def Parser_ParseInsert_def names.list_complete rows.list_complete f elim!: g_columns.cases)
  next
    case (update k t s us assignments vs w)
    have "next_type (vs @ rest) \<noteq> kComma" using update(5) f by (auto elim!: g_where.cases)
    with update f show ?thesis
      by (simp add: parse_by_keyword_def Parser_ParseUpdate_def assignments.list_complete where_phrase.complete)
  next
    case (select k f t us xs vs w os ob ls lm)
    have l: "next_type (ls @ rest) = kLimit \<or> ls = []" using select(7) by (auto elim!: g_limit.cases)
    have o: "next_type (os @ ls @ rest) = kOrder \<or> os = []" using select(6) by (auto elim!: g_order.cases)
    have "ends_expr kLimit" "ends_expr kOrder" by (simp_all add: ends_expr_def comparison_op_def)
    with l o f have "parse_optional_where (vs @ os @ ls @ rest) = Inr (w, os @ ls @ rest)"
      by (intro where_phrase.complete [OF select(5)]) auto
    moreover have "parse_order_by (os @ ls @ rest) = Inr (ob, ls @ rest)"
      using l f by (intro order_phrase.complete [OF select(6)]) auto
    moreover have "parse_limit (ls @ rest) = Inr (lm, rest)"
      using f by (intro limit_phrase.complete [OF select(7)]) auto
    moreover have "(case Parser_Match kStar (us @ f # zs) of
          Some ts1 \<Rightarrow> Inr ([SelectItem_default\<lparr>is_star := True\<rparr>], ts1)
        | None \<Rightarrow> parse_items (us @ f # zs) []) = Inr (xs, f # zs)" for zs
      using select(4)
    proof cases
      case (1 s)
      then show ?thesis by simp
    next
      case 2
      have "next_type (us @ f # zs) \<noteq> kStar" using items_first [OF 2] by auto
      with 2 items.list_complete [OF 2, of "f # zs"] select(3) show ?thesis by (simp add: Match_next)
    qed
    ultimately show ?thesis using select(1-3)
      by (simp add: parse_by_keyword_def Parser_ParseSelect_def)
  qed (auto simp: parse_by_keyword_def Parser_ParseDropTable_def Parser_ParseCreateIndex_def Parser_ParseDropIndex_def
      Parser_ParseDelete_def where_phrase.complete f)
qed

text \<open>A sentence is a statement with an optional semicolon behind it.\<close>

definition g_sentence :: "Token list \<Rightarrow> Statement \<Rightarrow> bool" where
  "g_sentence us x \<longleftrightarrow> g_statement us x \<or> (\<exists>vs t. us = vs @ [t] \<and> tok_type t = kSemicolon \<and> g_statement vs x)"

lemma statement_first: "g_statement us x \<Longrightarrow> \<exists>t ts. us = t # ts \<and> tok_type t \<noteq> kEndOfInput"
  by (auto elim!: g_statement.cases)

lemma ParseStatement_complete:
  assumes "g_sentence us x" and "tok_type eof = kEndOfInput"
  shows "Parser_ParseStatement (us @ [eof]) = Inr x"
proof -
  have *: "parse_by_keyword (vs @ rest) = Inr (x, rest)" "\<not> Parser_Check kEndOfInput (vs @ rest)"
    if "g_statement vs x" "ends_statement (next_type rest)" for vs rest
    using keyword_complete [OF that] statement_first [OF that(1)] by auto
  from assms(1) show ?thesis
  proof (unfold g_sentence_def, elim disjE exE conjE)
    assume "g_statement us x"
    with assms(2) * [of us "[eof]"] show ?thesis by (simp add: Parser_ParseStatement_def ends_statement_def)
  next
    fix vs t
    assume "us = vs @ [t]" "tok_type t = kSemicolon" "g_statement vs x"
    with assms(2) * [of vs "[t, eof]"] show ?thesis by (simp add: Parser_ParseStatement_def ends_statement_def)
  qed
qed

lemma ParseStatement_sound:
  assumes "Parser_ParseStatement (us @ [eof]) = Inr x" and "\<forall>u \<in> set us. tok_type u \<noteq> kEndOfInput"
  shows "g_sentence us x"
proof -
  obtain ts1 where k: "parse_by_keyword (us @ [eof]) = Inr (x, ts1)"
    and e: "Parser_Check kEndOfInput (case Parser_Match kSemicolon ts1 of Some ts2 \<Rightarrow> ts2 | None \<Rightarrow> ts1)"
    using assms(1) by (auto simp: Parser_ParseStatement_def bind_result_Inr_iff Let_def split: if_splits)
  obtain vs where vs: "us @ [eof] = vs @ ts1" "g_statement vs x" using keyword_sound [OF k] by blast
  show ?thesis
  proof (cases "Parser_Match kSemicolon ts1")
    case None
    with e obtain t ts where t: "ts1 = t # ts" "tok_type t = kEndOfInput" by (auto simp: Check_iff)
    have "ts = []"
    proof (cases ts rule: rev_cases)
      case (snoc ys y)
      with vs(1) t(1) have "us = vs @ t # ys" by simp
      with assms(2) t(2) show ?thesis by simp
    qed
    with vs t show ?thesis by (simp add: g_sentence_def)
  next
    case (Some ts2)
    with e obtain s t ts where t: "ts1 = s # t # ts" "tok_type s = kSemicolon" "tok_type t = kEndOfInput"
      by (auto simp: Check_iff Match_iff)
    have "ts = []"
    proof (cases ts rule: rev_cases)
      case (snoc ys y)
      with vs(1) t(1) have "us = vs @ s # t # ys" by simp
      with assms(2) t(3) show ?thesis by simp
    qed
    with vs t show ?thesis by (auto simp: g_sentence_def)
  qed
qed

lemma tokenize_loop_shape:
  "tokenize_loop lx tokens = Inr ts \<Longrightarrow> \<exists>us eof. ts = tokens @ us @ [eof] \<and> tok_type eof = kEndOfInput \<and>
     (\<forall>u \<in> set us. tok_type u \<noteq> kEndOfInput)"
proof (induction lx tokens rule: tokenize_loop.induct)
  case (1 lx tokens)
  from 1(2) obtain tok lx1 where n: "Tokenizer_NextToken lx = Inr (tok, lx1)"
    by (subst (asm) tokenize_loop.simps) (auto split: sum.splits)
  show ?case
  proof (cases "tok_type tok = kEndOfInput")
    case True
    with 1(2) n show ?thesis by (subst (asm) tokenize_loop.simps) auto
  next
    case False
    with 1(2) n have "tokenize_loop lx1 (tokens @ [tok]) = Inr ts" by (subst (asm) tokenize_loop.simps) simp
    from 1(1) [OF n refl False this] obtain us eof where "ts = (tokens @ [tok]) @ us @ [eof]" "tok_type eof = kEndOfInput"
      "\<forall>u \<in> set us. tok_type u \<noteq> kEndOfInput" by blast
    with False show ?thesis by (intro exI [of _ "tok # us"] exI [of _ eof]) simp
  qed
qed

text \<open>
  The grammar of \<open>docs/modules/parser.md\<close> is another one: it allows \<open>*\<close> in every aggregate, and it has neither the
  statements for indexes nor the semicolon.
\<close>

lemma documented_grammar_differs:
  "\<forall>f \<in> {''SUM'', ''AVG'', ''MIN'', ''MAX''}. isl (ParseSQL (''SELECT '' @ f @ ''(*) FROM t''))"
  "\<not> isl (ParseSQL ''CREATE INDEX i ON t (a)'')" "\<not> isl (ParseSQL ''DROP INDEX i'')" "\<not> isl (ParseSQL ''DROP TABLE t;'')"
  by code_simp+

text \<open>
  C35. The parser decides the grammar of the dialect: \<open>ParseSQL\<close> returns a syntax tree for a text exactly
  if the scanner splits the text into the tokens of a sentence of the grammar with this tree and the
  end of input. In particular every sentence is accepted whatever its nesting, AND binds tighter
  than OR, both associate to the left, nothing behind the statement is ignored but one semicolon,
  and the grammar is unambiguous. The grammar is that of the code and of \<open>test_parser.cpp\<close>, with \<open>*\<close> in
  \<open>COUNT\<close> only, with the statements for indexes and with an optional semicolon at the end.
\<close>

theorem ParseSQL_decides_grammar:
  "ParseSQL sql = Inr stmt \<longleftrightarrow>
     (\<exists>us eof. Tokenizer_TokenizeAll sql = Inr (us @ [eof]) \<and> tok_type eof = kEndOfInput \<and> g_sentence us stmt)"
proof
  assume "ParseSQL sql = Inr stmt"
  then obtain ts where ts: "Tokenizer_TokenizeAll sql = Inr ts" "Parser_ParseStatement ts = Inr stmt"
    by (auto simp: ParseSQL_def bind_result_Inr_iff)
  obtain us eof where "ts = us @ [eof]" "tok_type eof = kEndOfInput" "\<forall>u \<in> set us. tok_type u \<noteq> kEndOfInput"
    using tokenize_loop_shape [OF ts(1) [unfolded Tokenizer_TokenizeAll_def]] by auto
  with ts ParseStatement_sound [of us eof stmt]
  show "\<exists>us eof. Tokenizer_TokenizeAll sql = Inr (us @ [eof]) \<and> tok_type eof = kEndOfInput \<and> g_sentence us stmt" by auto
next
  assume "\<exists>us eof. Tokenizer_TokenizeAll sql = Inr (us @ [eof]) \<and> tok_type eof = kEndOfInput \<and> g_sentence us stmt"
  then show "ParseSQL sql = Inr stmt" by (auto simp: ParseSQL_def ParseStatement_complete)
qed

end
