(* ===== verification/Protocol.thy ===== *)
theory Protocol
  imports Bytes Status
begin

text \<open>
  Frames and responses (\<open>src/network/protocol.cpp\<close>). A socket has the bytes that the peer sends before it
  closes the connection, the bytes sent to the peer, and the outcomes of the next system calls: a
  call transfers some of the bytes it was given, is interrupted, or fails. A transfer of no bytes is
  the value 0 of the call. When the outcomes are used up, calls transfer everything they can.
\<close>

datatype sock_event = Transfer nat | Interrupt | Fail

record Socket =
  so_in :: "byte list"
  so_out :: "byte list"
  so_events :: "sock_event list"

definition kMaxFrameSize :: nat where
  "kMaxFrameSize = 64 * 1024 * 1024"

text \<open>
  The outcome of the next call for \<open>len\<close> bytes: the number of bytes, where \<open>None\<close> is a call that the code
  repeats (\<open>-1\<close> with \<open>EINTR\<close> or, in \<open>WriteAll\<close>, a 0 while \<open>errno\<close> still is \<open>EINTR\<close>), and 0 stands for
  every other outcome.
\<close>

definition next_event :: "nat \<Rightarrow> Socket \<Rightarrow> nat option \<times> Socket" where
  "next_event len s =
     (case so_events s of
        [] \<Rightarrow> (Some len, s)
      | e # es \<Rightarrow>
          ((case e of Transfer n \<Rightarrow> Some (min n len) | Interrupt \<Rightarrow> None | Fail \<Rightarrow> Some 0), s\<lparr>so_events := es\<rparr>))"

lemma next_event_events:
  "next_event len s = (r, s') \<Longrightarrow> length (so_events s') \<le> length (so_events s) \<and> so_in s' = so_in s \<and> so_out s' = so_out s \<and>
     (r = None \<longrightarrow> length (so_events s') < length (so_events s)) \<and> (\<forall>n. r = Some n \<longrightarrow> n \<le> len)"
  by (auto simp: next_event_def split: list.splits sock_event.splits)

section \<open>Sending and receiving\<close>

function WriteAll :: "byte list \<Rightarrow> Socket \<Rightarrow> bool \<times> Socket" where
  "WriteAll data s =
     (if data = [] then (True, s)
      else case next_event (length data) s of
          (None, s1) \<Rightarrow> WriteAll data s1
        | (Some n, s1) \<Rightarrow>
            if n = 0 then (False, s1)
            else WriteAll (drop n data) (s1\<lparr>so_out := so_out s1 @ take n data\<rparr>))"
  by pat_completeness auto
termination
  by (relation "measure (\<lambda>(data, s). length data + length (so_events s))")
    (auto dest!: sym [of "(None, _)"] sym [of "(Some _, _)"] next_event_events simp: less_Suc_eq_le trans_le_add1)

declare WriteAll.simps [simp del]

text \<open>Reading \<open>len\<close> more bytes behind those already received; at the end of the input a call returns 0.\<close>

function read_loop :: "byte list \<Rightarrow> nat \<Rightarrow> Socket \<Rightarrow> byte list option \<times> Socket" where
  "read_loop acc len s =
     (if len = 0 then (Some acc, s)
      else case next_event (min len (length (so_in s))) s of
          (None, s1) \<Rightarrow> read_loop acc len s1
        | (Some n, s1) \<Rightarrow>
            if n = 0 then (None, s1)
            else read_loop (acc @ take n (so_in s1)) (len - n) (s1\<lparr>so_in := drop n (so_in s1)\<rparr>))"
  by pat_completeness auto
termination
  by (relation "measure (\<lambda>(acc, len, s). len + length (so_events s))")
    (auto dest!: sym [of "(None, _)"] sym [of "(Some _, _)"] next_event_events simp: less_Suc_eq_le)

declare read_loop.simps [simp del]

definition ReadAll :: "nat \<Rightarrow> Socket \<Rightarrow> byte list option \<times> Socket" where
  "ReadAll len s = read_loop [] len s"

section \<open>Frames\<close>

text \<open>\<open>htonl\<close> and \<open>ntohl\<close>: the length is sent with its highest byte first.\<close>

definition htonl_bytes :: "u32 \<Rightarrow> byte list" where
  "htonl_bytes w = rev (WriteFixed w)"

definition ntohl_bytes :: "byte list \<Rightarrow> u32" where
  "ntohl_bytes bs = ReadFixed (rev bs)"

definition WriteFrame :: "string \<Rightarrow> Socket \<Rightarrow> Status \<times> Socket" where
  "WriteFrame payload s =
     (case WriteAll (htonl_bytes (word_of_nat (length payload))) s of
        (False, s1) \<Rightarrow> (Status_IOError ''WriteFrame: failed to write length prefix'', s1)
      | (True, s1) \<Rightarrow>
          (case WriteAll (bytes_of_string payload) s1 of
             (False, s2) \<Rightarrow> (Status_IOError ''WriteFrame: failed to write payload'', s2)
           | (True, s2) \<Rightarrow> (Status_OK, s2)))"

definition ReadFrame :: "Socket \<Rightarrow> string Result \<times> Socket" where
  "ReadFrame s =
     (case ReadAll 4 s of
        (None, s1) \<Rightarrow> (Inl (Status_IOError ''ReadFrame: connection closed or read failed''), s1)
      | (Some len_net, s1) \<Rightarrow>
          let len = unat (ntohl_bytes len_net)
          in if len > kMaxFrameSize
             then (Inl (Status_InvalidArgument ''ReadFrame: advertised frame size exceeds maximum''), s1)
             else if len = 0 then (Inr [], s1)
             else case ReadAll len s1 of
                 (None, s2) \<Rightarrow> (Inl (Status_IOError ''ReadFrame: connection closed mid-payload''), s2)
               | (Some payload, s2) \<Rightarrow> (Inr (string_of_bytes payload), s2))"

definition WriteResponse :: "bool \<Rightarrow> string \<Rightarrow> Socket \<Rightarrow> Status \<times> Socket" where
  "WriteResponse ok payload s =
     (case WriteAll [if ok then 0 else 1] s of
        (False, s1) \<Rightarrow> (Status_IOError ''WriteResponse: failed to write status byte'', s1)
      | (True, s1) \<Rightarrow> WriteFrame payload s1)"

definition ReadResponse :: "Socket \<Rightarrow> (bool \<times> string) Result \<times> Socket" where
  "ReadResponse s =
     (case ReadAll 1 s of
        (None, s1) \<Rightarrow> (Inl (Status_IOError ''ReadResponse: connection closed or read failed''), s1)
      | (Some status_byte, s1) \<Rightarrow>
          (case ReadFrame s1 of
             (Inl e, s2) \<Rightarrow> (Inl e, s2)
           | (Inr payload, s2) \<Rightarrow> (Inr (hd status_byte = 0, payload), s2)))"

section \<open>Partial transfers and interruptions\<close>

text \<open>A socket on which calls may be interrupted and transfer few bytes, but make progress.\<close>

definition live :: "Socket \<Rightarrow> bool" where
  "live s \<longleftrightarrow> (\<forall>e \<in> set (so_events s). e = Interrupt \<or> (\<exists>n > 0. e = Transfer n))"

lemma next_event_live:
  assumes "live s" "0 < len"
  obtains s' where "next_event len s = (None, s')" "live s'" "so_in s' = so_in s" "so_out s' = so_out s"
  | n s' where "next_event len s = (Some n, s')" "0 < n" "n \<le> len" "live s'" "so_in s' = so_in s" "so_out s' = so_out s"
proof (cases "so_events s")
  case Nil
  then show thesis using that(2) [of len s] assms by (simp add: next_event_def)
next
  case (Cons e es)
  let ?s = "s\<lparr>so_events := es\<rparr>"
  have l: "live ?s" using assms(1) Cons by (simp add: live_def)
  from assms(1) Cons consider "e = Interrupt" | n where "0 < n" "e = Transfer n" by (auto simp: live_def)
  then show thesis
  proof cases
    case 1
    then show thesis using that(1) [of ?s] l Cons by (simp add: next_event_def)
  next
    case 2
    then show thesis using that(2) [of "min n len" ?s] l Cons assms(2) by (simp add: next_event_def)
  qed
qed

lemma WriteAll_live:
  assumes "live s"
  shows "\<exists>s'. WriteAll data s = (True, s') \<and> so_out s' = so_out s @ data \<and> so_in s' = so_in s \<and> live s'"
  using assms
proof (induction data s rule: WriteAll.induct)
  case (1 data s)
  show ?case
  proof (cases "data = []")
    case True
    then show ?thesis using 1 by (simp add: WriteAll.simps [of "[]" s])
  next
    case False
    then have "0 < length data" by simp
    from 1(3) this show ?thesis
    proof (cases rule: next_event_live)
      case (1 s')
      with "1.IH"(1) False show ?thesis by (simp add: WriteAll.simps [of data s])
    next
      case (2 n s')
      have "live (s'\<lparr>so_out := so_out s' @ take n data\<rparr>)" using 2 by (simp add: live_def)
      with "1.IH"(2) [OF False 2(1) [symmetric] refl] 2 False show ?thesis by (simp add: WriteAll.simps [of data s])
    qed
  qed
qed

lemma read_loop_live:
  assumes "live s" "len \<le> length (so_in s)"
  shows "\<exists>s'. read_loop acc len s = (Some (acc @ take len (so_in s)), s') \<and> so_in s' = drop len (so_in s) \<and> live s' \<and> so_out s' = so_out s"
  using assms
proof (induction acc len s rule: read_loop.induct)
  case (1 acc len s)
  show ?case
  proof (cases "len = 0")
    case True
    then show ?thesis using 1 by (simp add: read_loop.simps [of acc 0 s])
  next
    case False
    then have m: "0 < min len (length (so_in s))" "min len (length (so_in s)) = len" using 1(4) by auto
    from 1(3) m(1) show ?thesis
    proof (cases rule: next_event_live)
      case (1 s')
      with "1.IH"(1) False "1.prems"(2) show ?thesis by (simp add: read_loop.simps [of acc len s])
    next
      case (2 n s')
      have "live (s'\<lparr>so_in := drop n (so_in s')\<rparr>)" using 2 by (simp add: live_def)
      with "1.IH"(2) [OF False 2(1) [symmetric] refl] 2 False m(2) "1.prems"(2) show ?thesis
        by (simp add: read_loop.simps [of acc len s] take_add [symmetric])
    qed
  qed
qed

lemma read_loop_short:
  assumes "live s" "length (so_in s) < len"
  shows "\<exists>s'. read_loop acc len s = (None, s') \<and> so_out s' = so_out s"
  using assms
proof (induction acc len s rule: read_loop.induct)
  case (1 acc len s)
  have m: "min len (length (so_in s)) = length (so_in s)" "len \<noteq> 0" using 1(4) by auto
  show ?case
  proof (cases "so_in s = []")
    case True
    obtain r s' where e0: "next_event 0 s = (r, s')" by (cases "next_event 0 s")
    have e: "next_event 0 s = (r, s')" "r = None \<or> r = Some 0" "so_in s' = so_in s" "so_out s' = so_out s"
      using e0 next_event_events [OF e0] by (cases r; simp)+
    show ?thesis
    proof (cases r)
      case None
      then have "live s'" using e(1) 1(3) by (auto simp: next_event_def live_def split: list.splits)
      with "1.IH"(1) [OF m(2)] e m True 1(4) None show ?thesis by (simp add: read_loop.simps [of acc len s])
    next
      case (Some n)
      then show ?thesis using e m True by (simp add: read_loop.simps [of acc len s])
    qed
  next
    case False
    then have "0 < length (so_in s)" by simp
    from 1(3) this show ?thesis
    proof (cases rule: next_event_live)
      case (1 s')
      with "1.IH"(1) [OF m(2)] m "1.prems"(2) show ?thesis by (simp add: read_loop.simps [of acc len s])
    next
      case (2 n s')
      have "live (s'\<lparr>so_in := drop n (so_in s')\<rparr>)" using 2 by (simp add: live_def)
      with "1.IH"(2) [OF m(2)] 2 m "1.prems"(2) show ?thesis
        by (simp add: read_loop.simps [of acc len s] diff_less_mono)
    qed
  qed
qed

section \<open>Round trips\<close>

definition frame_bytes :: "string \<Rightarrow> byte list" where
  "frame_bytes payload = htonl_bytes (word_of_nat (length payload)) @ bytes_of_string payload"

definition response_bytes :: "bool \<Rightarrow> string \<Rightarrow> byte list" where
  "response_bytes ok payload = (if ok then 0 else 1) # frame_bytes payload"

lemma bytes_of_string_Nil [simp]: "bytes_of_string [] = []"
  by (simp add: bytes_of_string_def)

lemma length_htonl [simp]: "length (htonl_bytes w) = 4"
  by (simp add: htonl_bytes_def)

lemma ntohl_htonl [simp]: "ntohl_bytes (htonl_bytes w) = w"
  using ReadFixed_WriteFixed [of w "[]"] by (simp add: ntohl_bytes_def htonl_bytes_def)

lemma length_frame_bytes [simp]: "length (frame_bytes payload) = 4 + length payload"
  by (simp add: frame_bytes_def)

lemma WriteFrame_live:
  assumes "live s"
  shows "\<exists>s'. WriteFrame payload s = (Status_OK, s') \<and> so_out s' = so_out s @ frame_bytes payload \<and> live s' \<and> so_in s' = so_in s"
proof -
  obtain s1 where 1: "WriteAll (htonl_bytes (word_of_nat (length payload))) s = (True, s1)"
    "so_out s1 = so_out s @ htonl_bytes (word_of_nat (length payload))" "live s1" "so_in s1 = so_in s" using WriteAll_live [OF assms] by blast
  obtain s2 where "WriteAll (bytes_of_string payload) s1 = (True, s2)" "so_out s2 = so_out s1 @ bytes_of_string payload" "live s2" "so_in s2 = so_in s1"
    using WriteAll_live [OF 1(3)] by blast
  with 1 show ?thesis by (simp add: WriteFrame_def frame_bytes_def)
qed

lemma WriteResponse_live:
  assumes "live s"
  shows "\<exists>s'. WriteResponse ok payload s = (Status_OK, s') \<and> so_out s' = so_out s @ response_bytes ok payload \<and> live s' \<and> so_in s' = so_in s"
proof -
  obtain s1 where 1: "WriteAll [if ok then 0 else 1] s = (True, s1)" "so_out s1 = so_out s @ [if ok then 0 else 1]" "live s1" "so_in s1 = so_in s"
    using WriteAll_live [OF assms, of "[if ok then 0 else 1]"] by metis
  with WriteFrame_live [OF 1(3), of payload] show ?thesis by (auto simp: WriteResponse_def response_bytes_def)
qed

lemma frame_length_word: "length payload \<le> kMaxFrameSize \<Longrightarrow> unat (word_of_nat (length payload) :: u32) = length payload"
  by (simp add: kMaxFrameSize_def unat_of_nat take_bit_eq_mod)

lemma ReadFrame_live:
  assumes "live s" "so_in s = frame_bytes payload @ rest" "length payload \<le> kMaxFrameSize"
  shows "\<exists>s'. ReadFrame s = (Inr payload, s') \<and> so_in s' = rest \<and> live s' \<and> so_out s' = so_out s"
proof -
  obtain s1 where 1: "ReadAll 4 s = (Some (htonl_bytes (word_of_nat (length payload))), s1)"
    "so_in s1 = bytes_of_string payload @ rest" "live s1" "so_out s1 = so_out s"
    using read_loop_live [OF assms(1), of 4 "[]"] assms(2) by (auto simp: ReadAll_def frame_bytes_def)
  obtain s2 where 2: "ReadAll (length payload) s1 = (Some (bytes_of_string payload), s2)" "so_in s2 = rest" "live s2" "so_out s2 = so_out s1"
    using read_loop_live [OF 1(3), of "length payload" "[]"] 1(2) by (auto simp: ReadAll_def)
  from 1 2 assms(3) frame_length_word [OF assms(3)] show ?thesis by (cases "payload = []") (simp_all add: ReadFrame_def)
qed

lemma ReadFrame_short:
  assumes "live s" "so_in s = take k (frame_bytes payload)" "k < length (frame_bytes payload)" "length payload \<le> kMaxFrameSize"
  shows "\<exists>e s'. ReadFrame s = (Inl e, s') \<and> status_code e = kIOError"
proof (cases "k < 4")
  case True
  then have "length (so_in s) < 4" using assms(2) by simp
  from read_loop_short [OF assms(1) this, of "[]"] show ?thesis by (auto simp: ReadFrame_def ReadAll_def Status_IOError_def)
next
  case False
  then obtain s1 where 1: "ReadAll 4 s = (Some (htonl_bytes (word_of_nat (length payload))), s1)"
    "so_in s1 = take (k - 4) (bytes_of_string payload)" "live s1"
    using read_loop_live [OF assms(1), of 4 "[]"] assms(2,3) by (auto simp: ReadAll_def frame_bytes_def)
  have "length (so_in s1) < length payload" "payload \<noteq> []" using 1(2) assms(3) False by auto
  then obtain s2 where "ReadAll (length payload) s1 = (None, s2)" using read_loop_short [OF 1(3), of "length payload" "[]"] by (auto simp: ReadAll_def)
  with \<open>payload \<noteq> []\<close> 1 assms(4) frame_length_word [OF assms(4)] show ?thesis by (simp add: ReadFrame_def Status_IOError_def)
qed

text \<open>
  C40. A response survives the connection, however the system splits the transfers and interrupts the
  calls on both sides: what \<open>WriteResponse\<close> sends is read back by \<open>ReadResponse\<close> as the same status and text,
  which consumes exactly the response, and when the connection ends within it the reader
  reports an I/O error and no partial text.
\<close>

theorem response_roundtrip:
  assumes "length payload \<le> kMaxFrameSize" and "live a" and "live b"
    and "so_out (snd (WriteResponse ok payload a)) = so_out a @ sent"
  shows "fst (WriteResponse ok payload a) = Status_OK \<and>
    (so_in b = sent @ rest \<longrightarrow> (\<exists>b'. ReadResponse b = (Inr (ok, payload), b') \<and> so_in b' = rest \<and> live b')) \<and>
    (\<forall>k < length sent. so_in b = take k sent \<longrightarrow> (\<exists>e b'. ReadResponse b = (Inl e, b') \<and> status_code e = kIOError))"
proof (intro conjI allI impI)
  obtain a' where w: "WriteResponse ok payload a = (Status_OK, a')" "so_out a' = so_out a @ response_bytes ok payload"
    using WriteResponse_live [OF assms(2)] by blast
  have sent: "sent = response_bytes ok payload" using assms(4) w by simp
  show "fst (WriteResponse ok payload a) = Status_OK" using w(1) by simp
  show "\<exists>b'. ReadResponse b = (Inr (ok, payload), b') \<and> so_in b' = rest \<and> live b'" if r: "so_in b = sent @ rest"
  proof -
    obtain b1 where 1: "ReadAll 1 b = (Some [if ok then 0 else 1], b1)" "so_in b1 = frame_bytes payload @ rest" "live b1"
      using read_loop_live [OF assms(3), of 1 "[]"] unfolding r by (auto simp: ReadAll_def sent response_bytes_def)
    from ReadFrame_live [OF 1(3,2) assms(1)] 1(1) show ?thesis by (auto simp: ReadResponse_def)
  qed
  show "\<exists>e b'. ReadResponse b = (Inl e, b') \<and> status_code e = kIOError" if k: "k < length sent" "so_in b = take k sent" for k
  proof (cases k)
    case 0
    then have "length (so_in b) < 1" using k(2) by simp
    from read_loop_short [OF assms(3) this, of "[]"] show ?thesis by (auto simp: ReadResponse_def ReadAll_def Status_IOError_def)
  next
    case (Suc j)
    then obtain b1 where 1: "ReadAll 1 b = (Some [if ok then 0 else 1], b1)" "so_in b1 = take j (frame_bytes payload)" "live b1"
      using read_loop_live [OF assms(3), of 1 "[]"] k(1) unfolding k(2) by (auto simp: ReadAll_def sent response_bytes_def)
    have "j < length (frame_bytes payload)" using k(1) Suc by (simp add: sent response_bytes_def)
    from ReadFrame_short [OF 1(3,2) this assms(1)] 1(1) show ?thesis by (auto simp: ReadResponse_def)
  qed
qed

text \<open>Both sides see one byte at a time, with interruptions.\<close>

definition demo_socket :: "byte list \<Rightarrow> Socket" where
  "demo_socket bs = \<lparr>so_in = bs, so_out = [], so_events = [Transfer 1, Interrupt, Transfer 2]\<rparr>"

theorem response_roundtrip_witness:
  "\<exists>a' sent b'. WriteResponse True ''ok'' (demo_socket []) = (Status_OK, a') \<and> so_out a' = sent \<and>
     ReadResponse (demo_socket sent) = (Inr (True, ''ok''), b') \<and> so_in b' = []"
proof -
  let ?a = "demo_socket []" and ?sent = "so_out (snd (WriteResponse True ''ok'' (demo_socket [])))"
  have live: "live (demo_socket bs)" for bs by (auto simp: live_def demo_socket_def)
  have "length ''ok'' \<le> kMaxFrameSize" by (simp add: kMaxFrameSize_def)
  from response_roundtrip [OF this live [of "[]"] live [of ?sent], of True ?sent "[]"]
  have "fst (WriteResponse True ''ok'' ?a) = Status_OK" "\<exists>b'. ReadResponse (demo_socket ?sent) = (Inr (True, ''ok''), b') \<and> so_in b' = []"
    by (auto simp: demo_socket_def)
  then show ?thesis by (metis prod.collapse)
qed

end
