(* ===== verification/Catalog.thy ===== *)
theory Catalog
  imports Record_Manager "HOL-Library.AList"
begin

text \<open>
  The catalog (\<open>src/catalog/\<close>): tables and indexes by name, kept in two hash maps and as records of two
  heap files. A hash map is an association list with distinct keys; the order of its entries
  is the order of insertion here, which no result below depends on. \<open>None\<close> stands, as for heap files,
  for a call that does not return normally, and for a column type read from the file that is no
  enumerator of \<open>ColumnType\<close>.
\<close>

record TableMetadata =
  tm_table_id :: u32
  tm_table_name :: string
  tm_schema :: Schema
  tm_first_page_id :: page_id_t
  tm_catalog_record_id :: RecordId

record IndexMetadata =
  im_index_id :: u32
  im_index_name :: string
  im_table_name :: string
  im_column_name :: string
  im_meta_page_id :: page_id_t
  im_catalog_record_id :: RecordId

definition no_record_id :: RecordId where
  "no_record_id = \<lparr>rid_page_id = kInvalidPageId, rid_slot_id = 0\<rparr>"

record CatalogManager =
  cat_heap :: HeapFile
  cat_index_heap :: HeapFile
  cat_tables :: "(string \<times> TableMetadata) list"
  cat_indexes :: "(string \<times> IndexMetadata) list"
  cat_next_table_id :: u32
  cat_next_index_id :: u32

section \<open>Encoding\<close>

definition column_type_byte :: "ColumnType \<Rightarrow> byte" where
  "column_type_byte t = (case t of kInt \<Rightarrow> 0 | kBigInt \<Rightarrow> 1 | kDouble \<Rightarrow> 2 | kBool \<Rightarrow> 3 | kVarchar \<Rightarrow> 4)"

definition column_type_of_byte :: "byte \<Rightarrow> ColumnType option" where
  "column_type_of_byte b =
     (if b = 0 then Some kInt else if b = 1 then Some kBigInt else if b = 2 then Some kDouble
      else if b = 3 then Some kBool else if b = 4 then Some kVarchar else None)"

text \<open>A string with its length in front.\<close>

definition append_string :: "string \<Rightarrow> byte list" where
  "append_string s = WriteFixed (word_of_nat (length s) :: u16) @ bytes_of_string s"

definition encode_column :: "Column \<Rightarrow> byte list" where
  "encode_column col =
     append_string (col_name col) @ [column_type_byte (col_type col)] @
     [if col_nullable col then 1 else 0] @ WriteFixed (col_max_length col)"

definition EncodeTableMetadata :: "TableMetadata \<Rightarrow> byte list" where
  "EncodeTableMetadata meta =
     WriteFixed (tm_table_id meta) @ append_string (tm_table_name meta) @ WriteFixed (tm_first_page_id meta) @
     WriteFixed (word_of_nat (Schema_ColumnCount (tm_schema meta)) :: u16) @ concat (map encode_column (tm_schema meta))"

definition EncodeIndexMetadata :: "IndexMetadata \<Rightarrow> byte list" where
  "EncodeIndexMetadata meta =
     WriteFixed (im_index_id meta) @ append_string (im_index_name meta) @ append_string (im_table_name meta) @
     append_string (im_column_name meta) @ WriteFixed (im_meta_page_id meta)"

section \<open>Decoding\<close>

text \<open>The string at the cursor and the cursor behind it; an error for a missing length and for missing characters.\<close>

definition read_string :: "string \<Rightarrow> string \<Rightarrow> byte list \<Rightarrow> nat \<Rightarrow> (string \<times> nat) Result" where
  "read_string len_msg msg data cursor =
     (if \<not> cursor + 2 \<le> length data then Inl (Status_Corruption len_msg)
      else let slen = unat (read_at cursor data :: u16)
           in if \<not> cursor + 2 + slen \<le> length data then Inl (Status_Corruption msg)
              else Inr (string_of_bytes (peek (cursor + 2) slen data), cursor + 2 + slen))"

definition decode_column :: "byte list \<Rightarrow> nat \<Rightarrow> (Column \<times> nat) Result option" where
  "decode_column data cursor =
     (case read_string ''catalog: truncated column name length'' ''catalog: truncated column name'' data cursor of
        Inl e \<Rightarrow> Some (Inl e)
      | Inr (cname, cursor1) \<Rightarrow>
          if \<not> cursor1 + 1 \<le> length data then Some (Inl (Status_Corruption ''catalog: truncated column type''))
          else if \<not> cursor1 + 2 \<le> length data then Some (Inl (Status_Corruption ''catalog: truncated nullable flag''))
          else if \<not> cursor1 + 4 \<le> length data then Some (Inl (Status_Corruption ''catalog: truncated max_length''))
          else map_option (\<lambda>t. Inr (\<lparr>col_name = cname, col_type = t, col_nullable = data ! (cursor1 + 1) \<noteq> 0,
                                       col_max_length = read_at (cursor1 + 2) data\<rparr>, cursor1 + 4))
                 (column_type_of_byte (data ! cursor1)))"

fun decode_columns :: "nat \<Rightarrow> byte list \<Rightarrow> nat \<Rightarrow> Column list Result option" where
  "decode_columns 0 data cursor = Some (Inr [])"
| "decode_columns (Suc n) data cursor =
     (case decode_column data cursor of
        None \<Rightarrow> None
      | Some (Inl e) \<Rightarrow> Some (Inl e)
      | Some (Inr (col, cursor')) \<Rightarrow>
          map_option (\<lambda>r. bind_result r (\<lambda>cols. Inr (col # cols))) (decode_columns n data cursor'))"

definition DecodeTableMetadata :: "byte list \<Rightarrow> TableMetadata Result option" where
  "DecodeTableMetadata data =
     (if \<not> 4 \<le> length data then Some (Inl (Status_Corruption ''catalog: truncated table_id''))
      else case read_string ''catalog: truncated name length'' ''catalog: truncated name'' data 4 of
          Inl e \<Rightarrow> Some (Inl e)
        | Inr (name, cursor) \<Rightarrow>
            if \<not> cursor + 4 \<le> length data then Some (Inl (Status_Corruption ''catalog: truncated first_page_id''))
            else if \<not> cursor + 6 \<le> length data then Some (Inl (Status_Corruption ''catalog: truncated column count''))
            else map_option (\<lambda>r. bind_result r (\<lambda>columns.
                   Inr \<lparr>tm_table_id = read_at 0 data, tm_table_name = name, tm_schema = columns,
                        tm_first_page_id = read_at cursor data, tm_catalog_record_id = no_record_id\<rparr>))
                 (decode_columns (unat (read_at (cursor + 4) data :: u16)) data (cursor + 6)))"

definition DecodeIndexMetadata :: "byte list \<Rightarrow> IndexMetadata Result" where
  "DecodeIndexMetadata data =
     (if \<not> 4 \<le> length data then Inl (Status_Corruption ''index catalog: truncated index_id'')
      else bind_result (read_string ''index catalog: truncated index_name'' ''index catalog: truncated index_name'' data 4) (\<lambda>(index_name, c1).
           bind_result (read_string ''index catalog: truncated table_name'' ''index catalog: truncated table_name'' data c1) (\<lambda>(table_name, c2).
           bind_result (read_string ''index catalog: truncated column_name'' ''index catalog: truncated column_name'' data c2) (\<lambda>(column_name, c3).
           if \<not> c3 + 4 \<le> length data then Inl (Status_Corruption ''index catalog: truncated meta_page_id'')
           else Inr \<lparr>im_index_id = read_at 0 data, im_index_name = index_name, im_table_name = table_name,
                     im_column_name = column_name, im_meta_page_id = read_at c3 data, im_catalog_record_id = no_record_id\<rparr>))))"

section \<open>The catalog manager\<close>

text \<open>The visitors of the two load functions: the map so far and the largest id so far.\<close>

definition load_table :: "RecordId \<Rightarrow> byte list \<Rightarrow> ((string \<times> TableMetadata) list \<times> u32) option \<Rightarrow>
    ((string \<times> TableMetadata) list \<times> u32) option" where
  "load_table rid data acc =
     (case acc of
        None \<Rightarrow> None
      | Some (tables, max_id) \<Rightarrow>
          (case DecodeTableMetadata data of
             None \<Rightarrow> None
           | Some (Inl _) \<Rightarrow> Some (tables, max_id)
           | Some (Inr meta) \<Rightarrow>
               Some (AList.update (tm_table_name meta) (meta\<lparr>tm_catalog_record_id := rid\<rparr>) tables,
                     if tm_table_id meta > max_id then tm_table_id meta else max_id)))"

definition CatalogManager_LoadTablesFromDisk :: "CatalogManager \<Rightarrow> BufferPool \<Rightarrow> (CatalogManager \<times> BufferPool) option" where
  "CatalogManager_LoadTablesFromDisk cm bp =
     (case HeapFile_Scan load_table (Some (cat_tables cm, 0)) (cat_heap cm) bp of
        None \<Rightarrow> None
      | Some (None, _) \<Rightarrow> None
      | Some (Some (tables, max_id), bp') \<Rightarrow>
          Some (cm\<lparr>cat_tables := tables, cat_next_table_id := max_id + 1\<rparr>, bp'))"

definition load_index :: "RecordId \<Rightarrow> byte list \<Rightarrow> (string \<times> IndexMetadata) list \<times> u32 \<Rightarrow> (string \<times> IndexMetadata) list \<times> u32" where
  "load_index rid data acc =
     (case DecodeIndexMetadata data of
        Inl _ \<Rightarrow> acc
      | Inr meta \<Rightarrow>
          (AList.update (im_index_name meta) (meta\<lparr>im_catalog_record_id := rid\<rparr>) (fst acc),
           if im_index_id meta > snd acc then im_index_id meta else snd acc))"

definition CatalogManager_LoadIndexesFromDisk :: "CatalogManager \<Rightarrow> BufferPool \<Rightarrow> (CatalogManager \<times> BufferPool) option" where
  "CatalogManager_LoadIndexesFromDisk cm bp =
     map_option (\<lambda>((indexes, max_id), bp'). (cm\<lparr>cat_indexes := indexes, cat_next_index_id := max_id + 1\<rparr>, bp'))
       (HeapFile_Scan load_index (cat_indexes cm, 0) (cat_index_heap cm) bp)"

definition CatalogManager_new :: "page_id_t \<Rightarrow> page_id_t \<Rightarrow> BufferPool \<Rightarrow> (CatalogManager \<times> BufferPool) option" where
  "CatalogManager_new catalog_first_page_id index_catalog_first_page_id bp =
     (case HeapFile_new catalog_first_page_id bp of
        None \<Rightarrow> None
      | Some (hf, bp1) \<Rightarrow>
          (case HeapFile_new index_catalog_first_page_id bp1 of
             None \<Rightarrow> None
           | Some (ihf, bp2) \<Rightarrow>
               let cm = \<lparr>cat_heap = hf, cat_index_heap = ihf, cat_tables = [], cat_indexes = [],
                         cat_next_table_id = 1, cat_next_index_id = 1\<rparr>
               in case (if catalog_first_page_id \<noteq> kInvalidPageId then CatalogManager_LoadTablesFromDisk cm bp2
                        else Some (cm, bp2)) of
                    None \<Rightarrow> None
                  | Some (cm1, bp3) \<Rightarrow>
                      if index_catalog_first_page_id \<noteq> kInvalidPageId then CatalogManager_LoadIndexesFromDisk cm1 bp3
                      else Some (cm1, bp3)))"

definition CatalogManager_CatalogFirstPageId :: "CatalogManager \<Rightarrow> page_id_t" where
  "CatalogManager_CatalogFirstPageId cm = HeapFile_FirstPageId (cat_heap cm)"

definition CatalogManager_IndexCatalogFirstPageId :: "CatalogManager \<Rightarrow> page_id_t" where
  "CatalogManager_IndexCatalogFirstPageId cm = HeapFile_FirstPageId (cat_index_heap cm)"

definition CatalogManager_CreateTable ::
  "string \<Rightarrow> Schema \<Rightarrow> page_id_t \<Rightarrow> CatalogManager \<Rightarrow> BufferPool \<Rightarrow> (TableMetadata Result \<times> CatalogManager \<times> BufferPool) option" where
  "CatalogManager_CreateTable name schema data_first_page_id cm bp =
     (if map_of (cat_tables cm) name \<noteq> None
      then Some (Inl (Status_AlreadyExists (''CreateTable: table '' @ [CHR 0x27] @ name @ [CHR 0x27] @ '' already exists'')), cm, bp)
      else
        let meta = \<lparr>tm_table_id = cat_next_table_id cm, tm_table_name = name, tm_schema = schema,
                    tm_first_page_id = data_first_page_id, tm_catalog_record_id = no_record_id\<rparr>;
            cm1 = cm\<lparr>cat_next_table_id := cat_next_table_id cm + 1\<rparr>;
            encoded = EncodeTableMetadata meta
        in if length encoded > 0xFFFF
           then Some (Inl (Status_InvalidArgument ''CreateTable: encoded metadata too large (too many/long columns)''), cm1, bp)
           else case HeapFile_InsertRecord encoded (word_of_nat (length encoded)) (cat_heap cm1) bp of
               None \<Rightarrow> None
             | Some (Inl e, hf, bp') \<Rightarrow> Some (Inl e, cm1\<lparr>cat_heap := hf\<rparr>, bp')
             | Some (Inr rid, hf, bp') \<Rightarrow>
                 let meta' = meta\<lparr>tm_catalog_record_id := rid\<rparr>
                 in Some (Inr meta', cm1\<lparr>cat_heap := hf, cat_tables := AList.update name meta' (cat_tables cm)\<rparr>, bp'))"

definition CatalogManager_DropTable :: "string \<Rightarrow> CatalogManager \<Rightarrow> BufferPool \<Rightarrow> Status \<times> CatalogManager \<times> BufferPool" where
  "CatalogManager_DropTable name cm bp =
     (case map_of (cat_tables cm) name of
        None \<Rightarrow> (Status_NotFound (''DropTable: table '' @ [CHR 0x27] @ name @ [CHR 0x27] @ '' does not exist''), cm, bp)
      | Some meta \<Rightarrow>
          let (status, bp') = HeapFile_DeleteRecord (tm_catalog_record_id meta) bp
          in if \<not> Status_ok status then (status, cm, bp')
             else (Status_OK, cm\<lparr>cat_tables := AList.delete name (cat_tables cm)\<rparr>, bp'))"

definition CatalogManager_GetTable :: "string \<Rightarrow> CatalogManager \<Rightarrow> TableMetadata option" where
  "CatalogManager_GetTable name cm = map_of (cat_tables cm) name"

definition CatalogManager_ListTables :: "CatalogManager \<Rightarrow> string list" where
  "CatalogManager_ListTables cm = map fst (cat_tables cm)"

definition CatalogManager_CreateIndex ::
  "string \<Rightarrow> string \<Rightarrow> string \<Rightarrow> page_id_t \<Rightarrow> CatalogManager \<Rightarrow> BufferPool \<Rightarrow> (IndexMetadata Result \<times> CatalogManager \<times> BufferPool) option" where
  "CatalogManager_CreateIndex index_name table_name column_name meta_page_id cm bp =
     (if map_of (cat_indexes cm) index_name \<noteq> None
      then Some (Inl (Status_AlreadyExists (''CreateIndex: index '' @ [CHR 0x27] @ index_name @ [CHR 0x27] @ '' already exists'')), cm, bp)
      else
        let meta = \<lparr>im_index_id = cat_next_index_id cm, im_index_name = index_name, im_table_name = table_name,
                    im_column_name = column_name, im_meta_page_id = meta_page_id, im_catalog_record_id = no_record_id\<rparr>;
            cm1 = cm\<lparr>cat_next_index_id := cat_next_index_id cm + 1\<rparr>;
            encoded = EncodeIndexMetadata meta
        in if length encoded > 0xFFFF
           then Some (Inl (Status_InvalidArgument ''CreateIndex: encoded metadata too large''), cm1, bp)
           else case HeapFile_InsertRecord encoded (word_of_nat (length encoded)) (cat_index_heap cm1) bp of
               None \<Rightarrow> None
             | Some (Inl e, hf, bp') \<Rightarrow> Some (Inl e, cm1\<lparr>cat_index_heap := hf\<rparr>, bp')
             | Some (Inr rid, hf, bp') \<Rightarrow>
                 let meta' = meta\<lparr>im_catalog_record_id := rid\<rparr>
                 in Some (Inr meta', cm1\<lparr>cat_index_heap := hf, cat_indexes := AList.update index_name meta' (cat_indexes cm)\<rparr>, bp'))"

definition CatalogManager_DropIndex :: "string \<Rightarrow> CatalogManager \<Rightarrow> BufferPool \<Rightarrow> Status \<times> CatalogManager \<times> BufferPool" where
  "CatalogManager_DropIndex index_name cm bp =
     (case map_of (cat_indexes cm) index_name of
        None \<Rightarrow> (Status_NotFound (''DropIndex: index '' @ [CHR 0x27] @ index_name @ [CHR 0x27] @ '' does not exist''), cm, bp)
      | Some meta \<Rightarrow>
          let (status, bp') = HeapFile_DeleteRecord (im_catalog_record_id meta) bp
          in if \<not> Status_ok status then (status, cm, bp')
             else (Status_OK, cm\<lparr>cat_indexes := AList.delete index_name (cat_indexes cm)\<rparr>, bp'))"

definition CatalogManager_GetIndex :: "string \<Rightarrow> CatalogManager \<Rightarrow> IndexMetadata option" where
  "CatalogManager_GetIndex index_name cm = map_of (cat_indexes cm) index_name"

definition CatalogManager_GetIndexesForTable :: "string \<Rightarrow> CatalogManager \<Rightarrow> IndexMetadata list" where
  "CatalogManager_GetIndexesForTable table_name cm =
     filter (\<lambda>meta. im_table_name meta = table_name) (map snd (cat_indexes cm))"

definition CatalogManager_ListIndexes :: "CatalogManager \<Rightarrow> string list" where
  "CatalogManager_ListIndexes cm = map fst (cat_indexes cm)"

section \<open>Encoding and decoding\<close>

lemma peek_append_here: "length pre = off \<Longrightarrow> n = length xs \<Longrightarrow> peek off n (pre @ xs @ post) = xs"
  by (simp add: peek_def)

lemma read_string_here:
  assumes "length s < 65536" and "length pre = off"
  shows "read_string m1 m2 (pre @ append_string s @ post) off = Inr (s, off + 2 + length s)"
proof -
  let ?d = "pre @ append_string s @ post"
  have "read_at off ?d = (word_of_nat (length s) :: u16)"
    using read_at_append(1) [OF assms(2), of "word_of_nat (length s)" "bytes_of_string s @ post"] by (simp add: append_string_def)
  then have n: "unat (read_at off ?d :: u16) = length s" using assms(1) by (simp add: unat_of_nat)
  have "peek (off + 2) (length s) ((pre @ WriteFixed (word_of_nat (length s) :: u16)) @ bytes_of_string s @ post) = bytes_of_string s"
    using assms(2) by (intro peek_append_here) simp_all
  then have "string_of_bytes (peek (off + 2) (length s) ?d) = s" by (simp add: append_string_def)
  moreover have "off + 2 + length s \<le> length ?d" using assms(2) by (simp add: append_string_def)
  ultimately show ?thesis using n by (simp add: read_string_def Let_def)
qed

lemma column_type_byte_inverse [simp]: "column_type_of_byte (column_type_byte t) = Some t"
  by (cases t) (simp_all add: column_type_of_byte_def column_type_byte_def)

lemma length_encode_column: "length (encode_column c) = length (col_name c) + 6"
  by (simp add: encode_column_def append_string_def)

lemma decode_column_here:
  assumes "length (col_name c) < 65536" and "length pre = off"
  shows "decode_column (pre @ encode_column c @ post) off = Some (Inr (c, off + length (encode_column c)))"
proof -
  let ?d = "pre @ encode_column c @ post" and ?o = "off + 2 + length (col_name c)"
  let ?tail = "[column_type_byte (col_type c)] @ [if col_nullable c then 1 else 0] @ WriteFixed (col_max_length c) @ post"
  have d: "?d = pre @ append_string (col_name c) @ ?tail" by (simp add: encode_column_def)
  have d2: "?d = (pre @ append_string (col_name c)) @ ?tail" by (simp add: encode_column_def)
  have o: "length (pre @ append_string (col_name c)) = ?o" using assms(2) by (simp add: append_string_def)
  have at: "?d ! ?o = column_type_byte (col_type c)" "?d ! (?o + 1) = (if col_nullable c then 1 else 0)"
    unfolding d2 by (simp_all only: nth_append o) simp_all
  have d3: "?d = (pre @ append_string (col_name c) @ [column_type_byte (col_type c)] @ [if col_nullable c then 1 else 0]) @
      WriteFixed (col_max_length c) @ post" by (simp add: encode_column_def)
  have ml: "read_at (?o + 2) ?d = col_max_length c"
    unfolding d3 by (rule read_at_append(1)) (use assms(2) in \<open>simp add: append_string_def\<close>)
  have "?o + 4 \<le> length ?d" using assms(2) by (simp add: length_encode_column)
  moreover have "read_string m1 m2 ?d off = Inr (col_name c, ?o)" for m1 m2
    unfolding d by (rule read_string_here [OF assms])
  ultimately show ?thesis
    using at ml by (simp add: decode_column_def length_encode_column)
qed

lemma decode_columns_here:
  "\<forall>c \<in> set cs. length (col_name c) < 65536 \<Longrightarrow>
    decode_columns (length cs) (pre @ concat (map encode_column cs) @ post) (length pre) = Some (Inr cs)"
proof (induction cs arbitrary: pre)
  case (Cons c cs)
  from Cons.IH [of "pre @ encode_column c"] Cons.prems
  have "decode_columns (length cs) (pre @ encode_column c @ concat (map encode_column cs) @ post) (length pre + length (encode_column c)) = Some (Inr cs)"
    by simp
  moreover have "decode_column (pre @ encode_column c @ concat (map encode_column cs) @ post) (length pre) =
      Some (Inr (c, length pre + length (encode_column c)))"
    using Cons.prems by (intro decode_column_here) simp_all
  ultimately show ?case by simp
qed simp

text \<open>Metadata whose lengths fit into the fields of the encoding.\<close>

definition table_ok :: "TableMetadata \<Rightarrow> bool" where
  "table_ok meta \<longleftrightarrow> length (tm_table_name meta) < 65536 \<and> length (tm_schema meta) < 65536 \<and>
     (\<forall>c \<in> set (tm_schema meta). length (col_name c) < 65536)"

lemma DecodeTable_EncodeTable:
  assumes "table_ok meta"
  shows "DecodeTableMetadata (EncodeTableMetadata meta) = Some (Inr (meta\<lparr>tm_catalog_record_id := no_record_id\<rparr>))"
proof -
  let ?d = "EncodeTableMetadata meta" and ?n = "tm_table_name meta" and ?cs = "tm_schema meta"
  let ?cols = "concat (map encode_column ?cs)" and ?cnt = "word_of_nat (length ?cs) :: u16"
  have n: "length ?n < 65536" "length ?cs < 65536" "\<forall>c \<in> set ?cs. length (col_name c) < 65536" using assms by (simp_all add: table_ok_def)
  let ?p1 = "WriteFixed (tm_table_id meta)" let ?p2 = "?p1 @ append_string ?n" let ?p3 = "?p2 @ WriteFixed (tm_first_page_id meta)"
  let ?p4 = "?p3 @ WriteFixed ?cnt"
  have d: "?d = ?p1 @ append_string ?n @ WriteFixed (tm_first_page_id meta) @ WriteFixed ?cnt @ ?cols"
    "?d = ?p2 @ WriteFixed (tm_first_page_id meta) @ WriteFixed ?cnt @ ?cols" "?d = ?p3 @ WriteFixed ?cnt @ ?cols" "?d = ?p4 @ ?cols @ []"
    by (simp_all add: EncodeTableMetadata_def Schema_ColumnCount_def)
  have len: "length ?p1 = 4" "length ?p2 = 6 + length ?n" "length ?p3 = 10 + length ?n" "length ?p4 = 12 + length ?n"
    by (simp_all add: append_string_def)
  have id: "read_at 0 ?d = tm_table_id meta" using read_at_append(2) [of "[]" 0 "tm_table_id meta"] d(1) by simp
  have str: "read_string m1 m2 ?d 4 = Inr (?n, 6 + length ?n)" for m1 m2
    unfolding d(1) using read_string_here [OF n(1) len(1)] by simp
  have pg: "read_at (6 + length ?n) ?d = tm_first_page_id meta" unfolding d(2) by (rule read_at_append(2) [OF len(2)])
  have "read_at (10 + length ?n) ?d = ?cnt" unfolding d(3) by (rule read_at_append(1) [OF len(3)])
  then have cnt: "unat (read_at (10 + length ?n) ?d :: u16) = length ?cs" using n(2) by (simp add: unat_of_nat)
  have cols: "decode_columns (length ?cs) ?d (12 + length ?n) = Some (Inr ?cs)"
    unfolding d(4) len(4) [symmetric] by (rule decode_columns_here [OF n(3)])
  have "12 + length ?n \<le> length ?d" unfolding d(4) length_append len(4) [unfolded length_append] by simp
  then show ?thesis using id str pg cnt cols by (simp add: DecodeTableMetadata_def add.commute)
qed

definition index_ok :: "IndexMetadata \<Rightarrow> bool" where
  "index_ok meta \<longleftrightarrow> length (im_index_name meta) < 65536 \<and> length (im_table_name meta) < 65536 \<and> length (im_column_name meta) < 65536"

lemma DecodeIndex_EncodeIndex:
  assumes "index_ok meta"
  shows "DecodeIndexMetadata (EncodeIndexMetadata meta) = Inr (meta\<lparr>im_catalog_record_id := no_record_id\<rparr>)"
proof -
  let ?d = "EncodeIndexMetadata meta" and ?i = "im_index_name meta" and ?t = "im_table_name meta" and ?c = "im_column_name meta"
  let ?p1 = "WriteFixed (im_index_id meta)" let ?p2 = "?p1 @ append_string ?i" let ?p3 = "?p2 @ append_string ?t" let ?p4 = "?p3 @ append_string ?c"
  let ?w = "WriteFixed (im_meta_page_id meta)"
  have n: "length ?i < 65536" "length ?t < 65536" "length ?c < 65536" using assms by (simp_all add: index_ok_def)
  have d: "?d = ?p1 @ append_string ?i @ append_string ?t @ append_string ?c @ ?w" "?d = ?p2 @ append_string ?t @ append_string ?c @ ?w"
    "?d = ?p3 @ append_string ?c @ ?w" "?d = ?p4 @ ?w @ []" by (simp_all add: EncodeIndexMetadata_def)
  have len: "length ?p1 = 4" "length ?p2 = 6 + length ?i" "length ?p3 = 8 + length ?i + length ?t"
    "length ?p4 = 10 + length ?i + length ?t + length ?c" by (simp_all add: append_string_def)
  have id: "read_at 0 ?d = im_index_id meta" using read_at_append(2) [of "[]" 0 "im_index_id meta"] d(1) by simp
  have s1: "read_string m m ?d 4 = Inr (?i, 6 + length ?i)" for m unfolding d(1) using read_string_here [OF n(1) len(1)] by simp
  have s2: "read_string m m ?d (6 + length ?i) = Inr (?t, 8 + length ?i + length ?t)" for m
    unfolding d(2) using read_string_here [OF n(2) len(2)] by simp
  have s3: "read_string m m ?d (8 + length ?i + length ?t) = Inr (?c, 10 + length ?i + length ?t + length ?c)" for m
    unfolding d(3) using read_string_here [OF n(3) len(3)] by simp
  have pg: "read_at (10 + length ?i + length ?t + length ?c) ?d = im_meta_page_id meta" unfolding d(4) by (rule read_at_append(2) [OF len(4)])
  have "length ?d = 14 + length ?i + length ?t + length ?c" unfolding d(4) length_append len(4) [unfolded length_append] by simp
  then show ?thesis using id s1 s2 s3 pg by (simp add: DecodeIndexMetadata_def bind_result_def)
qed

section \<open>A named store of metadata\<close>

text \<open>
  Tables and indexes are kept in the same way: a map from names, each entry with the id of the record
  that holds its encoding. \<open>stored m T\<close>: the records \<open>m\<close> are exactly those of the entries of \<open>T\<close>.
\<close>

locale metadata_codec =
  fixes enc :: "'m \<Rightarrow> byte list"
    and dec :: "byte list \<Rightarrow> 'm Result option"
    and name_of :: "'m \<Rightarrow> string"
    and rid_of :: "'m \<Rightarrow> RecordId"
    and with_rid :: "RecordId \<Rightarrow> 'm \<Rightarrow> 'm"
    and ok :: "'m \<Rightarrow> bool"
    and id_of :: "'m \<Rightarrow> u32"
  assumes dec_enc: "ok x \<Longrightarrow> dec (enc x) = Some (Inr (with_rid no_record_id x))"
    and with_rid_simps [simp]: "enc (with_rid r x) = enc x" "name_of (with_rid r x) = name_of x" "rid_of (with_rid r x) = r"
      "with_rid r (with_rid r' x) = with_rid r x" "with_rid (rid_of x) x = x" "ok (with_rid r x) = ok x"
begin

definition stored :: "(RecordId \<rightharpoonup> byte list) \<Rightarrow> (string \<rightharpoonup> 'm) \<Rightarrow> bool" where
  "stored m T \<longleftrightarrow> (\<forall>n x. T n = Some x \<longrightarrow> name_of x = n \<and> ok x \<and> m (rid_of x) = Some (enc x)) \<and>
     (\<forall>r b. m r = Some b \<longrightarrow> (\<exists>n x. T n = Some x \<and> rid_of x = r))"

lemma stored_empty: "stored Map.empty Map.empty"
  by (simp add: stored_def)

lemma stored_unique:
  assumes "stored m T" "T n = Some x" "T k = Some y" "rid_of x = rid_of y"
  shows "n = k"
proof -
  have x: "name_of x = n" "ok x" "m (rid_of x) = Some (enc x)" and y: "name_of y = k" "ok y" "m (rid_of y) = Some (enc y)"
    using assms(1-3) unfolding stored_def by blast+
  then have "enc x = enc y" using assms(4) by simp
  then have "with_rid no_record_id x = with_rid no_record_id y" using dec_enc [OF x(2)] dec_enc [OF y(2)] by simp
  then have "name_of (with_rid no_record_id x) = name_of (with_rid no_record_id y)" by simp
  then show ?thesis using x(1) y(1) by simp
qed

lemma stored_add:
  assumes "stored m T" "m r = None" "T (name_of x) = None" "ok x"
  shows "stored (m(r \<mapsto> enc x)) (T(name_of x \<mapsto> with_rid r x))"
  unfolding stored_def
proof (intro conjI allI impI)
  fix n y assume y: "(T(name_of x \<mapsto> with_rid r x)) n = Some y"
  show "name_of y = n" "ok y" "(m(r \<mapsto> enc x)) (rid_of y) = Some (enc y)"
    using y assms unfolding stored_def by (auto split: if_splits)
next
  fix q b assume "(m(r \<mapsto> enc x)) q = Some b"
  then consider "q = r" | n y where "T n = Some y" "rid_of y = q"
    using assms(1) unfolding stored_def by (metis fun_upd_other)
  then show "\<exists>n y. (T(name_of x \<mapsto> with_rid r x)) n = Some y \<and> rid_of y = q"
  proof cases
    case 1
    then show ?thesis by (intro exI [of _ "name_of x"]) simp
  next
    case (2 n y)
    then show ?thesis using assms(3) by (intro exI [of _ n] exI [of _ y]) auto
  qed
qed

lemma stored_delete:
  assumes "stored m T" "T n = Some x"
  shows "stored (m(rid_of x := None)) (T(n := None))"
  unfolding stored_def
proof (intro conjI allI impI)
  fix k y assume y: "(T(n := None)) k = Some y"
  then have k: "k \<noteq> n" "T k = Some y" by (auto split: if_splits)
  then have "rid_of y \<noteq> rid_of x" using stored_unique [OF assms(1) k(2) assms(2)] by blast
  then show "name_of y = k" "ok y" "(m(rid_of x := None)) (rid_of y) = Some (enc y)"
    using k assms(1) unfolding stored_def by auto
next
  fix q b assume "(m(rid_of x := None)) q = Some b"
  then have "q \<noteq> rid_of x" "m q = Some b" by (auto split: if_splits)
  then obtain k y where "T k = Some y" "rid_of y = q" using assms(1) unfolding stored_def by blast
  with \<open>q \<noteq> rid_of x\<close> assms(2) show "\<exists>k y. (T(n := None)) k = Some y \<and> rid_of y = q" by (intro exI [of _ k] exI [of _ y]) auto
qed

text \<open>Loading the records brings back the map.\<close>

definition load_one :: "RecordId \<Rightarrow> byte list \<Rightarrow> ((string \<times> 'm) list \<times> u32) option \<Rightarrow> ((string \<times> 'm) list \<times> u32) option" where
  "load_one rid data acc =
     (case acc of
        None \<Rightarrow> None
      | Some (ts, max_id) \<Rightarrow>
          (case dec data of
             None \<Rightarrow> None
           | Some (Inl _) \<Rightarrow> Some (ts, max_id)
           | Some (Inr x) \<Rightarrow>
               Some (AList.update (name_of x) (with_rid rid x) ts, if id_of x > max_id then id_of x else max_id)))"

lemma load_some:
  assumes "stored m T" "\<forall>(r, b) \<in> set xs. m r = Some b"
  shows "\<exists>ts' mx'. fold (\<lambda>(rid, r). load_one rid r) xs (Some (ts, mx)) = Some (ts', mx') \<and>
    (\<forall>n. map_of ts' n = (if \<exists>x. T n = Some x \<and> rid_of x \<in> fst ` set xs then T n else map_of ts n))"
  using assms(2)
proof (induction xs arbitrary: ts mx)
  case (Cons p xs)
  obtain r b where p: "p = (r, b)" by fastforce
  then have "m r = Some b" using Cons.prems by simp
  then obtain n x where x: "T n = Some x" "rid_of x = r" using assms(1) unfolding stored_def by blast
  then have e: "name_of x = n" "ok x" "b = enc x" using assms(1) \<open>m r = Some b\<close> unfolding stored_def by auto
  obtain mx1 where step: "load_one r b (Some (ts, mx)) = Some (AList.update n x ts, mx1)"
    using x(2) e dec_enc [OF e(2)] by (auto simp: load_one_def)
  obtain ts' mx' where "fold (\<lambda>(rid, r). load_one rid r) xs (Some (AList.update n x ts, mx1)) = Some (ts', mx')"
      "\<forall>k. map_of ts' k = (if \<exists>y. T k = Some y \<and> rid_of y \<in> fst ` set xs then T k else map_of (AList.update n x ts) k)"
    using Cons.IH [of "AList.update n x ts" mx1] Cons.prems by auto
  then have r: "fold (\<lambda>(rid, r). load_one rid r) (p # xs) (Some (ts, mx)) = Some (ts', mx')"
      "\<forall>k. map_of ts' k = (if \<exists>y. T k = Some y \<and> rid_of y \<in> fst ` set xs then T k else map_of (AList.update n x ts) k)"
    using step by (simp_all add: p)
  have "(\<exists>y. T k = Some y \<and> rid_of y \<in> fst ` set (p # xs)) \<longleftrightarrow> k = n \<or> (\<exists>y. T k = Some y \<and> rid_of y \<in> fst ` set xs)" for k
    using x stored_unique [OF assms(1) x(1), of k] by (auto simp: p)
  with r x(1) show ?case by (auto simp: update_conv')
qed simp

lemma load_all:
  assumes "stored m T" "distinct (map fst xs)" "map_of xs = m"
  shows "\<exists>ts mx. fold (\<lambda>(rid, r). load_one rid r) xs (Some ([], mx0)) = Some (ts, mx) \<and> map_of ts = T"
proof -
  have "\<forall>(r, b) \<in> set xs. m r = Some b" using assms(2,3) by auto
  from load_some [OF assms(1) this, of "[]" mx0] obtain ts mx where
    r: "fold (\<lambda>(rid, r). load_one rid r) xs (Some ([], mx0)) = Some (ts, mx)"
      "\<forall>n. map_of ts n = (if \<exists>x. T n = Some x \<and> rid_of x \<in> fst ` set xs then T n else map_of [] n)" by blast
  have "rid_of x \<in> fst ` set xs" if "T n = Some x" for n x
  proof -
    have "map_of xs (rid_of x) = Some (enc x)" using that assms(1,3) unfolding stored_def by blast
    then show ?thesis by (force dest: map_of_SomeD)
  qed
  then have "map_of ts n = T n" for n using r(2) by (cases "T n") auto
  then show ?thesis using r(1) by blast
qed

end

interpretation tables: metadata_codec EncodeTableMetadata DecodeTableMetadata tm_table_name tm_catalog_record_id
  "\<lambda>r x. x\<lparr>tm_catalog_record_id := r\<rparr>" table_ok tm_table_id
  by unfold_locales (rule DecodeTable_EncodeTable, simp_all add: EncodeTableMetadata_def table_ok_def)

interpretation indexes: metadata_codec EncodeIndexMetadata "\<lambda>d. Some (DecodeIndexMetadata d)" im_index_name im_catalog_record_id
  "\<lambda>r x. x\<lparr>im_catalog_record_id := r\<rparr>" index_ok im_index_id
  by unfold_locales (use DecodeIndex_EncodeIndex in blast, simp_all add: EncodeIndexMetadata_def index_ok_def)

lemma load_table_one: "load_table = tables.load_one"
  by (intro ext) (simp add: load_table_def tables.load_one_def)

lemma load_index_one: "indexes.load_one rid data (Some acc) = Some (load_index rid data acc)"
  by (cases acc) (auto simp: load_index_def indexes.load_one_def split: sum.splits)

lemma fold_load_index: "fold (\<lambda>(rid, r). indexes.load_one rid r) xs (Some acc) = Some (fold (\<lambda>(rid, r). load_index rid r) xs acc)"
proof (induction xs arbitrary: acc)
  case (Cons x xs)
  then show ?case by (cases x) (simp add: load_index_one)
qed simp

section \<open>The invariant of the catalog\<close>

definition cat_inv :: "CatalogManager \<Rightarrow> BufferPool \<Rightarrow> page_id_t list \<Rightarrow> page_id_t list \<Rightarrow> bool" where
  "cat_inv cm bp ps qs \<longleftrightarrow> pool.ready bp \<and> heap_wf (cat_heap cm) (bp_view bp) ps \<and> heap_wf (cat_index_heap cm) (bp_view bp) qs \<and>
     set ps \<inter> set qs = {} \<and> tables.stored (heap_map (bp_view bp) ps) (map_of (cat_tables cm)) \<and>
     indexes.stored (heap_map (bp_view bp) qs) (map_of (cat_indexes cm))"

text \<open>The pages of one heap file stay when the pages outside the other one are kept.\<close>

lemma heap_kept:
  assumes "heap_wf hf v qs" "kept ps v v'" "set ps \<inter> set qs = {}"
  shows "heap_wf hf v' qs" "heap_map v' qs = heap_map v qs"
proof -
  have eq: "v' q = v q" if "q \<in> set qs" for q
    using assms(2,3) hchain_page [of v "hf_first_page_id hf" qs q] assms(1) that unfolding kept_def heap_wf_def by fastforce
  show "heap_wf hf v' qs" using assms(1) hchain_frame [of qs v' v] eq by (simp add: heap_wf_def)
  show "heap_map v' qs = heap_map v qs" by (rule heap_map_frame) (rule eq)
qed

lemma heap_mapped: "heap_wf hf v ps \<Longrightarrow> q \<in> set ps \<Longrightarrow> v q \<noteq> None"
  using hchain_page [of v "hf_first_page_id hf" ps q] by (auto simp: heap_wf_def)

lemma length_encode_columns:
  "6 * length cs \<le> length (concat (map encode_column cs))"
  "c \<in> set cs \<Longrightarrow> length (col_name c) \<le> length (concat (map encode_column cs))"
  by (induction cs) (auto simp: length_encode_column)

lemma length_EncodeTable:
  "length (EncodeTableMetadata meta) = 12 + length (tm_table_name meta) + length (concat (map encode_column (tm_schema meta)))"
  by (simp add: EncodeTableMetadata_def append_string_def)

lemma encoded_table_ok: "length (EncodeTableMetadata meta) \<le> 4080 \<Longrightarrow> table_ok meta"
  using length_encode_columns(1) [of "tm_schema meta"] length_encode_columns(2) [of _ "tm_schema meta"]
  by (fastforce simp: table_ok_def length_EncodeTable)

lemma length_EncodeIndex:
  "length (EncodeIndexMetadata meta) = 14 + length (im_index_name meta) + length (im_table_name meta) + length (im_column_name meta)"
  by (simp add: EncodeIndexMetadata_def append_string_def)

lemma encoded_index_ok: "length (EncodeIndexMetadata meta) \<le> 4080 \<Longrightarrow> index_ok meta"
  by (simp add: index_ok_def length_EncodeIndex)

lemma cat_invD:
  assumes "cat_inv cm bp ps qs"
  shows "pool.ready bp" "heap_wf (cat_heap cm) (bp_view bp) ps" "heap_wf (cat_index_heap cm) (bp_view bp) qs" "set ps \<inter> set qs = {}"
    "tables.stored (heap_map (bp_view bp) ps) (map_of (cat_tables cm))" "indexes.stored (heap_map (bp_view bp) qs) (map_of (cat_indexes cm))"
  using assms by (simp_all add: cat_inv_def)

text \<open>The metadata with which \<open>CreateTable\<close> and \<open>CreateIndex\<close> begin.\<close>

definition fresh_table :: "CatalogManager \<Rightarrow> string \<Rightarrow> Schema \<Rightarrow> page_id_t \<Rightarrow> TableMetadata" where
  "fresh_table cm name schema p = \<lparr>tm_table_id = cat_next_table_id cm, tm_table_name = name, tm_schema = schema,
     tm_first_page_id = p, tm_catalog_record_id = no_record_id\<rparr>"

definition fresh_index :: "CatalogManager \<Rightarrow> string \<Rightarrow> string \<Rightarrow> string \<Rightarrow> page_id_t \<Rightarrow> IndexMetadata" where
  "fresh_index cm index_name table_name column_name p = \<lparr>im_index_id = cat_next_index_id cm, im_index_name = index_name,
     im_table_name = table_name, im_column_name = column_name, im_meta_page_id = p, im_catalog_record_id = no_record_id\<rparr>"

lemma update_new: "map_of al k = None \<Longrightarrow> AList.update k v al = al @ [(k, v)]"
  by (induction al) (auto split: if_splits)

lemma map_of_snoc: "map_of al k = None \<Longrightarrow> map_of (al @ [(k, v)]) = (map_of al)(k \<mapsto> v)"
  using update_new [of al k v] update_conv' [of k v al] by simp

lemma CreateTable_spec:
  assumes inv: "cat_inv cm bp ps qs" and av: "0 < bp_avail bp"
  obtains r cm' bp' ps' where "CatalogManager_CreateTable name schema p cm bp = Some (r, cm', bp')" "cat_inv cm' bp' ps' qs"
    "pool_to bp (bp_view bp') (bp_avail bp') bp'" "bp_avail bp - 1 \<le> bp_avail bp'"
    "hf_first_page_id (cat_heap cm') = hf_first_page_id (cat_heap cm)" "cat_index_heap cm' = cat_index_heap cm" "cat_indexes cm' = cat_indexes cm"
    "case r of
       Inr m \<Rightarrow> (\<exists>rid. m = (fresh_table cm name schema p)\<lparr>tm_catalog_record_id := rid\<rparr>) \<and> map_of (cat_tables cm) name = None \<and>
         map_of (cat_tables cm') = (map_of (cat_tables cm))(name \<mapsto> m)
     | Inl e \<Rightarrow> \<not> Status_ok e \<and> cat_tables cm' = cat_tables cm \<and>
         (map_of (cat_tables cm) name \<noteq> None \<or> 4080 < length (EncodeTableMetadata (fresh_table cm name schema p)))"
proof -
  note i = cat_invD [OF inv]
  let ?m = "fresh_table cm name schema p" let ?e = "EncodeTableMetadata ?m" and ?cm = "cm\<lparr>cat_next_table_id := cat_next_table_id cm + 1\<rparr>"
  consider (exists) "map_of (cat_tables cm) name \<noteq> None" | (long) "map_of (cat_tables cm) name = None" "length ?e > 0xFFFF"
    | (fits) "map_of (cat_tables cm) name = None" "length ?e \<le> 0xFFFF" by linarith
  then show thesis
  proof cases
    case exists
    with inv i(1) pool_to_refl show thesis by (intro that [of _ cm bp ps]) (auto simp: CatalogManager_CreateTable_def)
  next
    case long
    with inv i(1) pool_to_refl show thesis
      by (intro that [of _ ?cm bp ps]) (auto simp: CatalogManager_CreateTable_def Let_def fresh_table_def [symmetric] cat_inv_def)
  next
    case fits
    have st: "storable ?e" using fits(2) by (simp add: storable_def length_EncodeTable)
    obtain r hf bp' ps' where h: "HeapFile_InsertRecord ?e (word_of_nat (length ?e)) (cat_heap cm) bp = Some (r, hf, bp')"
      "pool_to bp (bp_view bp') (bp_avail bp') bp'" "bp_avail bp - 1 \<le> bp_avail bp'"
      "insert_post (cat_heap cm) (bp_view bp) ps ?e r hf (bp_view bp') ps'"
      by (rule InsertRecord_spec [OF i(1,2) st av])
    note po = h(4) [unfolded insert_post_def]
    have d: "set ps' \<inter> set qs = {}" using po i(4) heap_mapped [OF i(3)] by blast
    note k = heap_kept [OF i(3) _ i(4), of "bp_view bp'"]
    have kq: "heap_wf (cat_index_heap cm) (bp_view bp') qs" "heap_map (bp_view bp') qs = heap_map (bp_view bp) qs" using k po by blast+
    show thesis
    proof (cases r)
      case (Inl e)
      have "cat_inv (?cm\<lparr>cat_heap := hf\<rparr>) bp' ps' qs" using po i(5,6) kq d pool_toD(1) [OF h(2)] Inl by (simp add: cat_inv_def)
      then show thesis using fits h po Inl
        by (intro that [of "Inl e" "?cm\<lparr>cat_heap := hf\<rparr>" bp' ps']) (simp_all add: CatalogManager_CreateTable_def Let_def fresh_table_def [symmetric] Status_ok_def)
    next
      case (Inr rid)
      let ?m' = "?m\<lparr>tm_catalog_record_id := rid\<rparr>"
      let ?cm' = "?cm\<lparr>cat_heap := hf, cat_tables := AList.update name ?m' (cat_tables cm)\<rparr>"
      have "table_ok ?m" using po Inr encoded_table_ok by simp
      then have "tables.stored ((heap_map (bp_view bp) ps)(rid \<mapsto> ?e)) ((map_of (cat_tables cm))(name \<mapsto> ?m'))"
        using tables.stored_add [OF i(5), of rid ?m] po Inr fits(1) by (simp add: fresh_table_def)
      then have "cat_inv ?cm' bp' ps' qs" using po i(6) kq d pool_toD(1) [OF h(2)] Inr by (simp add: cat_inv_def update_conv')
      then show thesis using fits h po Inr
        by (intro that [of "Inr ?m'" ?cm' bp' ps'])
          (auto simp: CatalogManager_CreateTable_def Let_def fresh_table_def [symmetric] update_conv')
    qed
  qed
qed

lemma CreateIndex_spec:
  assumes inv: "cat_inv cm bp ps qs" and av: "0 < bp_avail bp"
  obtains r cm' bp' qs' where "CatalogManager_CreateIndex n t c p cm bp = Some (r, cm', bp')" "cat_inv cm' bp' ps qs'"
    "pool_to bp (bp_view bp') (bp_avail bp') bp'" "bp_avail bp - 1 \<le> bp_avail bp'"
    "hf_first_page_id (cat_index_heap cm') = hf_first_page_id (cat_index_heap cm)" "cat_heap cm' = cat_heap cm" "cat_tables cm' = cat_tables cm"
    "case r of
       Inr m \<Rightarrow> (\<exists>rid. m = (fresh_index cm n t c p)\<lparr>im_catalog_record_id := rid\<rparr>) \<and> map_of (cat_indexes cm) n = None \<and>
         map_of (cat_indexes cm') = (map_of (cat_indexes cm))(n \<mapsto> m) \<and> cat_indexes cm' = cat_indexes cm @ [(n, m)]
     | Inl e \<Rightarrow> \<not> Status_ok e \<and> cat_indexes cm' = cat_indexes cm \<and>
         (map_of (cat_indexes cm) n \<noteq> None \<or> 4080 < length (EncodeIndexMetadata (fresh_index cm n t c p)))"
proof -
  note i = cat_invD [OF inv]
  let ?m = "fresh_index cm n t c p" let ?e = "EncodeIndexMetadata ?m" and ?cm = "cm\<lparr>cat_next_index_id := cat_next_index_id cm + 1\<rparr>"
  consider (exists) "map_of (cat_indexes cm) n \<noteq> None" | (long) "map_of (cat_indexes cm) n = None" "length ?e > 0xFFFF"
    | (fits) "map_of (cat_indexes cm) n = None" "length ?e \<le> 0xFFFF" by linarith
  then show thesis
  proof cases
    case exists
    with inv i(1) pool_to_refl show thesis by (intro that [of _ cm bp qs]) (auto simp: CatalogManager_CreateIndex_def)
  next
    case long
    with inv i(1) pool_to_refl show thesis
      by (intro that [of _ ?cm bp qs]) (auto simp: CatalogManager_CreateIndex_def Let_def fresh_index_def [symmetric] cat_inv_def)
  next
    case fits
    have st: "storable ?e" using fits(2) by (simp add: storable_def length_EncodeIndex)
    obtain r hf bp' qs' where h: "HeapFile_InsertRecord ?e (word_of_nat (length ?e)) (cat_index_heap cm) bp = Some (r, hf, bp')"
      "pool_to bp (bp_view bp') (bp_avail bp') bp'" "bp_avail bp - 1 \<le> bp_avail bp'"
      "insert_post (cat_index_heap cm) (bp_view bp) qs ?e r hf (bp_view bp') qs'"
      by (rule InsertRecord_spec [OF i(1,3) st av])
    note po = h(4) [unfolded insert_post_def]
    have d: "set ps \<inter> set qs' = {}" using po i(4) heap_mapped [OF i(2)] by blast
    have "set qs \<inter> set ps = {}" using i(4) by blast
    note k = heap_kept [OF i(2) _ this, of "bp_view bp'"]
    have kp: "heap_wf (cat_heap cm) (bp_view bp') ps" "heap_map (bp_view bp') ps = heap_map (bp_view bp) ps" using k po by blast+
    show thesis
    proof (cases r)
      case (Inl e)
      have "cat_inv (?cm\<lparr>cat_index_heap := hf\<rparr>) bp' ps qs'" using po i(5,6) kp d pool_toD(1) [OF h(2)] Inl by (simp add: cat_inv_def)
      then show thesis using fits h po Inl
        by (intro that [of "Inl e" "?cm\<lparr>cat_index_heap := hf\<rparr>" bp' qs'])
          (simp_all add: CatalogManager_CreateIndex_def Let_def fresh_index_def [symmetric] Status_ok_def)
    next
      case (Inr rid)
      let ?m' = "?m\<lparr>im_catalog_record_id := rid\<rparr>"
      let ?cm' = "?cm\<lparr>cat_index_heap := hf, cat_indexes := cat_indexes cm @ [(n, ?m')]\<rparr>"
      have "index_ok ?m" using po Inr encoded_index_ok by simp
      then have "indexes.stored ((heap_map (bp_view bp) qs)(rid \<mapsto> ?e)) ((map_of (cat_indexes cm))(n \<mapsto> ?m'))"
        using indexes.stored_add [OF i(6), of rid ?m] po Inr fits(1) by (simp add: fresh_index_def)
      then have "cat_inv ?cm' bp' ps qs'" using po i(5) kp d pool_toD(1) [OF h(2)] Inr by (simp add: cat_inv_def map_of_snoc [OF fits(1)] del: map_of_append)
      then show thesis using fits h po Inr
        by (intro that [of "Inr ?m'" ?cm' bp' qs'])
          (auto simp: CatalogManager_CreateIndex_def Let_def fresh_index_def [symmetric] map_of_snoc [OF fits(1)] update_new simp del: map_of_append)
    qed
  qed
qed

lemma DropTable_spec:
  assumes inv: "cat_inv cm bp ps qs"
  obtains st cm' bp' where "CatalogManager_DropTable name cm bp = (st, cm', bp')" "cat_inv cm' bp' ps qs"
    "pool_to bp (bp_view bp') (bp_avail bp) bp'" "map_of (cat_tables cm') = (map_of (cat_tables cm))(name := None)"
    "cat_heap cm' = cat_heap cm" "cat_index_heap cm' = cat_index_heap cm" "cat_indexes cm' = cat_indexes cm"
    "status_code st = (if map_of (cat_tables cm) name = None then kNotFound else kOk)"
proof -
  note i = cat_invD [OF inv]
  show thesis
  proof (cases "map_of (cat_tables cm) name")
    case None
    with inv i(1) pool_to_refl show thesis
      by (intro that [of "fst (CatalogManager_DropTable name cm bp)" cm bp])
        (simp_all add: CatalogManager_DropTable_def Status_NotFound_def fun_upd_idem)
  next
    case (Some m)
    have r: "heap_map (bp_view bp) ps (tm_catalog_record_id m) \<noteq> None" using i(5) Some unfolding tables.stored_def by auto
    then have "rid_page_id (tm_catalog_record_id m) \<in> set ps" using heap_rid_page by fastforce
    then obtain st bp' where h: "HeapFile_DeleteRecord (tm_catalog_record_id m) bp = (st, bp')"
      "pool_to bp (bp_view bp') (bp_avail bp) bp'" "heap_wf (cat_heap cm) (bp_view bp') ps"
      "heap_map (bp_view bp') ps = (heap_map (bp_view bp) ps)(tm_catalog_record_id m := None)" "kept ps (bp_view bp) (bp_view bp')"
      "status_code st = (if heap_map (bp_view bp) ps (tm_catalog_record_id m) = None then kNotFound else kOk)"
      using DeleteRecord_spec [OF i(1,2), of "tm_catalog_record_id m"] by metis
    note k = heap_kept [OF i(3) h(5) i(4)]
    have "tables.stored (heap_map (bp_view bp') ps) ((map_of (cat_tables cm))(name := None))"
      using tables.stored_delete [OF i(5) Some] h(4) by simp
    then have "cat_inv (cm\<lparr>cat_tables := AList.delete name (cat_tables cm)\<rparr>) bp' ps qs"
      using h(3) i(4,6) k pool_toD(1) [OF h(2)] by (simp add: cat_inv_def delete_conv')
    with h Some r show thesis
      by (intro that [of Status_OK "cm\<lparr>cat_tables := AList.delete name (cat_tables cm)\<rparr>" bp'])
        (simp_all add: CatalogManager_DropTable_def delete_conv' Status_ok_def Status_OK_def)
  qed
qed

lemma DropIndex_spec:
  assumes inv: "cat_inv cm bp ps qs"
  obtains st cm' bp' where "CatalogManager_DropIndex n cm bp = (st, cm', bp')" "cat_inv cm' bp' ps qs"
    "pool_to bp (bp_view bp') (bp_avail bp) bp'" "map_of (cat_indexes cm') = (map_of (cat_indexes cm))(n := None)"
    "cat_heap cm' = cat_heap cm" "cat_index_heap cm' = cat_index_heap cm" "cat_tables cm' = cat_tables cm"
    "status_code st = (if map_of (cat_indexes cm) n = None then kNotFound else kOk)"
proof -
  note i = cat_invD [OF inv]
  show thesis
  proof (cases "map_of (cat_indexes cm) n")
    case None
    with inv i(1) pool_to_refl show thesis
      by (intro that [of "fst (CatalogManager_DropIndex n cm bp)" cm bp])
        (simp_all add: CatalogManager_DropIndex_def Status_NotFound_def fun_upd_idem)
  next
    case (Some m)
    have r: "heap_map (bp_view bp) qs (im_catalog_record_id m) \<noteq> None" using i(6) Some unfolding indexes.stored_def by auto
    then have "rid_page_id (im_catalog_record_id m) \<in> set qs" using heap_rid_page by fastforce
    then obtain st bp' where h: "HeapFile_DeleteRecord (im_catalog_record_id m) bp = (st, bp')"
      "pool_to bp (bp_view bp') (bp_avail bp) bp'" "heap_wf (cat_index_heap cm) (bp_view bp') qs"
      "heap_map (bp_view bp') qs = (heap_map (bp_view bp) qs)(im_catalog_record_id m := None)" "kept qs (bp_view bp) (bp_view bp')"
      "status_code st = (if heap_map (bp_view bp) qs (im_catalog_record_id m) = None then kNotFound else kOk)"
      using DeleteRecord_spec [OF i(1,3), of "im_catalog_record_id m"] by metis
    have "set qs \<inter> set ps = {}" using i(4) by blast
    note k = heap_kept [OF i(2) h(5) this]
    have "indexes.stored (heap_map (bp_view bp') qs) ((map_of (cat_indexes cm))(n := None))"
      using indexes.stored_delete [OF i(6) Some] h(4) by simp
    then have "cat_inv (cm\<lparr>cat_indexes := AList.delete n (cat_indexes cm)\<rparr>) bp' ps qs"
      using h(3) i(4,5) k pool_toD(1) [OF h(2)] by (simp add: cat_inv_def delete_conv')
    with h Some r show thesis
      by (intro that [of Status_OK "cm\<lparr>cat_indexes := AList.delete n (cat_indexes cm)\<rparr>" bp'])
        (simp_all add: CatalogManager_DropIndex_def delete_conv' Status_ok_def Status_OK_def)
  qed
qed

section \<open>Opening the catalog\<close>

lemma catalog_new:
  assumes "pool.ready bp" "2 \<le> bp_avail bp"
  obtains cm bp' a b where "CatalogManager_new kInvalidPageId kInvalidPageId bp = Some (cm, bp')" "cat_inv cm bp' [a] [b]"
    "cat_tables cm = []" "cat_indexes cm = []" "bp_view bp a = None" "bp_view bp b = None" "pool_to bp (bp_view bp') (bp_avail bp - 2) bp'"
    "\<exists>bp1. pool_to bp (bp_view bp1) (bp_avail bp - 1) bp1 \<and> bp_view bp1 a \<noteq> None \<and> bp_view bp1 b = None"
proof -
  have "0 < bp_avail bp" using assms(2) by simp
  from HeapFile_new_spec [OF assms(1) this] obtain hf bp1 a where h: "HeapFile_new kInvalidPageId bp = Some (hf, bp1)"
    "pool_to bp (bp_view bp1) (bp_avail bp - 1) bp1" "heap_wf hf (bp_view bp1) [a]" "bp_view bp a = None"
    "heap_map (bp_view bp1) [a] = (\<lambda>_. None)" "kept [] (bp_view bp) (bp_view bp1)" by metis
  note v1 = pool_toD [OF h(2)]
  have "0 < bp_avail bp1" using v1(3) assms(2) by simp
  from HeapFile_new_spec [OF v1(1) this] obtain ihf bp2 b where g: "HeapFile_new kInvalidPageId bp1 = Some (ihf, bp2)"
    "pool_to bp1 (bp_view bp2) (bp_avail bp1 - 1) bp2" "heap_wf ihf (bp_view bp2) [b]" "bp_view bp1 b = None"
    "heap_map (bp_view bp2) [b] = (\<lambda>_. None)" "kept [] (bp_view bp1) (bp_view bp2)" by metis
  note k = heap_kept [OF h(3) g(6)]
  have ab: "a \<noteq> b" using heap_mapped [OF h(3), of a] g(4) by auto
  let ?cm = "\<lparr>cat_heap = hf, cat_index_heap = ihf, cat_tables = [], cat_indexes = [], cat_next_table_id = 1, cat_next_index_id = 1\<rparr>"
  have "cat_inv ?cm bp2 [a] [b]"
    using k g(3,5) h(5) ab pool_toD(1) [OF g(2)] tables.stored_empty indexes.stored_empty by (simp add: cat_inv_def)
  moreover have "CatalogManager_new kInvalidPageId kInvalidPageId bp = Some (?cm, bp2)" using h(1) g(1) by (simp add: CatalogManager_new_def)
  moreover have "bp_view bp b = None" using g(4) h(6) by (auto simp: kept_def)
  moreover have "pool_to bp (bp_view bp2) (bp_avail bp - 2) bp2" using pool_to_trans [OF h(2) g(2)] v1(3) by (simp add: numeral_2_eq_2)
  moreover have "bp_view bp1 a \<noteq> None" using heap_mapped [OF h(3), of a] by simp
  ultimately show thesis using that [of ?cm bp2 a b] h(2,4) g(4) by auto
qed

lemma heap_first:
  assumes "heap_wf hf v ps"
  shows "hf_first_page_id hf \<noteq> kInvalidPageId" "heap_wf \<lparr>hf_first_page_id = hf_first_page_id hf, hf_last_insert_page_id = hf_first_page_id hf\<rparr> v ps"
  using assms hchain_page [of v "hf_first_page_id hf" ps "hf_first_page_id hf"] by (cases ps; auto simp: heap_wf_def)+

lemma load_tables:
  assumes inv: "cat_inv cm bp ps qs" and e: "cat_tables cm0 = []" "cat_heap cm0 = \<lparr>hf_first_page_id = hf_first_page_id (cat_heap cm), hf_last_insert_page_id = l\<rparr>"
    and bp: "pool.ready bp0" "bp_view bp0 = bp_view bp"
  obtains ts i bp' where "CatalogManager_LoadTablesFromDisk cm0 bp0 = Some (cm0\<lparr>cat_tables := ts, cat_next_table_id := i\<rparr>, bp')"
    "map_of ts = map_of (cat_tables cm)" "pool_to bp0 (bp_view bp0) (bp_avail bp0) bp'"
proof -
  note i = cat_invD [OF inv]
  have ch: "hchain (bp_view bp0) (hf_first_page_id (cat_heap cm)) ps" using i(2) bp(2) by (simp add: heap_wf_def)
  let ?xs = "heap_records (bp_view bp0) ps"
  have dist: "distinct (map fst ?xs)" by (rule distinct_heap_records [OF hchain_distinct [OF ch]])
  have m: "map_of ?xs = heap_map (bp_view bp) ps"
    using map_of_eq_Some_iff [OF dist] heap_records_iff [of _ _ "bp_view bp0" ps] bp(2) by (metis option.exhaust ext)
  from tables.load_all [OF i(5) dist m, of 0] obtain ts mx where
    l: "fold (\<lambda>(rid, r). load_table rid r) ?xs (Some ([], 0)) = Some (ts, mx)" "map_of ts = map_of (cat_tables cm)"
    unfolding load_table_one by blast
  obtain bp' where "HeapFile_Scan load_table (Some ([], 0)) (cat_heap cm0) bp0 = Some (Some (ts, mx), bp')"
    "pool_to bp0 (bp_view bp0) (bp_avail bp0) bp'"
    using Scan_loop [OF bp(1) ch, of load_table "Some ([], 0)"] l(1) e(2) by (auto simp: HeapFile_Scan_def)
  with that l(2) e(1) show thesis by (simp add: CatalogManager_LoadTablesFromDisk_def)
qed

lemma load_index_distinct:
  "distinct (map fst (fst acc)) \<Longrightarrow> distinct (map fst (fst (fold (\<lambda>(rid, r). load_index rid r) xs acc)))"
  by (induction xs arbitrary: acc) (auto simp: load_index_def distinct_update split: sum.split)

lemma load_indexes:
  assumes inv: "cat_inv cm bp ps qs" and e: "cat_indexes cm0 = []" "cat_index_heap cm0 = \<lparr>hf_first_page_id = hf_first_page_id (cat_index_heap cm), hf_last_insert_page_id = l\<rparr>"
    and bp: "pool.ready bp0" "bp_view bp0 = bp_view bp"
  obtains ts i bp' where "CatalogManager_LoadIndexesFromDisk cm0 bp0 = Some (cm0\<lparr>cat_indexes := ts, cat_next_index_id := i\<rparr>, bp')"
    "map_of ts = map_of (cat_indexes cm)" "pool_to bp0 (bp_view bp0) (bp_avail bp0) bp'" "distinct (map fst ts)"
proof -
  note i = cat_invD [OF inv]
  have ch: "hchain (bp_view bp0) (hf_first_page_id (cat_index_heap cm)) qs" using i(3) bp(2) by (simp add: heap_wf_def)
  let ?xs = "heap_records (bp_view bp0) qs"
  have dist: "distinct (map fst ?xs)" by (rule distinct_heap_records [OF hchain_distinct [OF ch]])
  have m: "map_of ?xs = heap_map (bp_view bp) qs"
    using map_of_eq_Some_iff [OF dist] heap_records_iff [of _ _ "bp_view bp0" qs] bp(2) by (metis option.exhaust ext)
  from indexes.load_all [OF i(6) dist m, of 0] obtain ts mx where
    l: "fold (\<lambda>(rid, r). load_index rid r) ?xs ([], 0) = (ts, mx)" "map_of ts = map_of (cat_indexes cm)"
    unfolding fold_load_index by auto
  obtain bp' where "HeapFile_Scan load_index ([], 0) (cat_index_heap cm0) bp0 = Some ((ts, mx), bp')"
    "pool_to bp0 (bp_view bp0) (bp_avail bp0) bp'"
    using Scan_loop [OF bp(1) ch, of load_index "([], 0)"] l(1) e(2) by (auto simp: HeapFile_Scan_def)
  with that l(2) e(1) load_index_distinct [of "([], 0)" ?xs] l(1) show thesis by (simp add: CatalogManager_LoadIndexesFromDisk_def)
qed

lemma catalog_reopen:
  assumes inv: "cat_inv cm bp ps qs" and bp: "pool.ready bp0" "bp_view bp0 = bp_view bp"
  obtains cm' bp' where
    "CatalogManager_new (CatalogManager_CatalogFirstPageId cm) (CatalogManager_IndexCatalogFirstPageId cm) bp0 = Some (cm', bp')"
    "map_of (cat_tables cm') = map_of (cat_tables cm)" "map_of (cat_indexes cm') = map_of (cat_indexes cm)"
    "cat_inv cm' bp' ps qs" "pool_to bp0 (bp_view bp0) (bp_avail bp0) bp'"
    "hf_first_page_id (cat_heap cm') = hf_first_page_id (cat_heap cm)" "hf_first_page_id (cat_index_heap cm') = hf_first_page_id (cat_index_heap cm)"
    "distinct (map fst (cat_indexes cm'))"
proof -
  note i = cat_invD [OF inv] and f = heap_first [OF cat_invD(2) [OF inv]] heap_first [OF cat_invD(3) [OF inv]]
  let ?f = "hf_first_page_id (cat_heap cm)" and ?g = "hf_first_page_id (cat_index_heap cm)"
  let ?cm = "\<lparr>cat_heap = \<lparr>hf_first_page_id = ?f, hf_last_insert_page_id = ?f\<rparr>, cat_index_heap = \<lparr>hf_first_page_id = ?g, hf_last_insert_page_id = ?g\<rparr>,
    cat_tables = [], cat_indexes = [], cat_next_table_id = 1, cat_next_index_id = 1\<rparr>"
  obtain ts j bp1 where t: "CatalogManager_LoadTablesFromDisk ?cm bp0 = Some (?cm\<lparr>cat_tables := ts, cat_next_table_id := j\<rparr>, bp1)"
    "map_of ts = map_of (cat_tables cm)" "pool_to bp0 (bp_view bp0) (bp_avail bp0) bp1"
    by (rule load_tables [OF inv, of ?cm ?f bp0]) (use bp in auto)
  let ?cm1 = "?cm\<lparr>cat_tables := ts, cat_next_table_id := j\<rparr>"
  note v1 = pool_toD [OF t(3)]
  obtain us k bp2 where u: "CatalogManager_LoadIndexesFromDisk ?cm1 bp1 = Some (?cm1\<lparr>cat_indexes := us, cat_next_index_id := k\<rparr>, bp2)"
    "map_of us = map_of (cat_indexes cm)" "pool_to bp1 (bp_view bp1) (bp_avail bp1) bp2" "distinct (map fst us)"
    by (rule load_indexes [OF inv, of ?cm1 ?g bp1]) (use bp v1 in auto)
  let ?cm2 = "?cm1\<lparr>cat_indexes := us, cat_next_index_id := k\<rparr>"
  have p: "pool_to bp0 (bp_view bp0) (bp_avail bp0) bp2" using pool_to_trans [OF t(3) u(3)] v1 by simp
  have "cat_inv ?cm2 bp2 ps qs" using i(4-6) f(2,4) pool_toD [OF p] bp(2) t(2) u(2) by (simp add: cat_inv_def)
  moreover have "CatalogManager_new (CatalogManager_CatalogFirstPageId cm) (CatalogManager_IndexCatalogFirstPageId cm) bp0 = Some (?cm2, bp2)"
    using f(1,3) t(1) u(1)
    by (simp add: CatalogManager_new_def HeapFile_new_def CatalogManager_CatalogFirstPageId_def CatalogManager_IndexCatalogFirstPageId_def HeapFile_FirstPageId_def)
  ultimately show thesis using that [of ?cm2 bp2] t(2) u(2,4) p by simp
qed

end
