(* ===== verification/Table_Manager.thy ===== *)
theory Table_Manager
  imports Catalog
begin

text \<open>
  The table manager (\<open>src/storage/table_manager.hpp\<close>): rows by table name. It works on the buffer pool of
  the data file and on the catalog, which has a pool of its own, and keeps the tables that have been
  opened. An open table is its record manager; the schema that the record manager points to is the one
  of the catalog entry, which never changes while the entry exists.
\<close>

record TableManager =
  tb_data_pool :: BufferPool
  tb_catalog_pool :: BufferPool
  tb_catalog :: CatalogManager
  tb_open_tables :: "(string \<times> RecordManager) list"

definition TableManager_OpenAndCache :: "string \<Rightarrow> TableMetadata \<Rightarrow> 'a TableManager_scheme \<Rightarrow> 'a TableManager_scheme option" where
  "TableManager_OpenAndCache name meta tm =
     (case HeapFile_new (tm_first_page_id meta) (tb_data_pool tm) of
        None \<Rightarrow> None
      | Some (hf, bp) \<Rightarrow>
          Some (tm\<lparr>tb_data_pool := bp,
                   tb_open_tables := AList.update name \<lparr>rm_heap_file = hf, rm_schema = tm_schema meta\<rparr> (tb_open_tables tm)\<rparr>))"

text \<open>The open table, or a null pointer for an unknown one.\<close>

definition TableManager_GetOrOpen :: "string \<Rightarrow> 'a TableManager_scheme \<Rightarrow> (RecordManager option \<times> 'a TableManager_scheme) option" where
  "TableManager_GetOrOpen name tm =
     (case map_of (tb_open_tables tm) name of
        Some rm \<Rightarrow> Some (Some rm, tm)
      | None \<Rightarrow>
          (case CatalogManager_GetTable name (tb_catalog tm) of
             None \<Rightarrow> Some (None, tm)
           | Some meta \<Rightarrow>
               map_option (\<lambda>tm'. (map_of (tb_open_tables tm') name, tm')) (TableManager_OpenAndCache name meta tm)))"

definition TableManager_CreateTable :: "string \<Rightarrow> Schema \<Rightarrow> 'a TableManager_scheme \<Rightarrow> (Status \<times> 'a TableManager_scheme) option" where
  "TableManager_CreateTable name schema tm =
     (case HeapFile_new kInvalidPageId (tb_data_pool tm) of
        None \<Rightarrow> None
      | Some (heap, bp) \<Rightarrow>
          (case CatalogManager_CreateTable name schema (HeapFile_FirstPageId heap) (tb_catalog tm) (tb_catalog_pool tm) of
             None \<Rightarrow> None
           | Some (r, cm, cbp) \<Rightarrow>
               let tm1 = tm\<lparr>tb_data_pool := bp, tb_catalog := cm, tb_catalog_pool := cbp\<rparr>
               in case r of
                    Inl e \<Rightarrow> Some (e, tm1)
                  | Inr meta \<Rightarrow> map_option (Pair Status_OK) (TableManager_OpenAndCache name meta tm1)))"

definition TableManager_DropTable :: "string \<Rightarrow> 'a TableManager_scheme \<Rightarrow> Status \<times> 'a TableManager_scheme" where
  "TableManager_DropTable name tm =
     (let (status, cm, cbp) = CatalogManager_DropTable name (tb_catalog tm) (tb_catalog_pool tm);
          tm1 = tm\<lparr>tb_catalog := cm, tb_catalog_pool := cbp\<rparr>
      in if \<not> Status_ok status then (status, tm1)
         else (Status_OK, tm1\<lparr>tb_open_tables := AList.delete name (tb_open_tables tm1)\<rparr>))"

definition TableManager_ListTables :: "'a TableManager_scheme \<Rightarrow> string list" where
  "TableManager_ListTables tm = CatalogManager_ListTables (tb_catalog tm)"

text \<open>The message for a table that is not in the catalog.\<close>

definition no_such_table :: "string \<Rightarrow> string \<Rightarrow> Status" where
  "no_such_table op table = Status_NotFound (op @ '': no such table '' @ [CHR 0x27] @ table @ [CHR 0x27])"

definition TableManager_InsertRow :: "string \<Rightarrow> Value list \<Rightarrow> 'a TableManager_scheme \<Rightarrow> (RecordId Result \<times> 'a TableManager_scheme) option" where
  "TableManager_InsertRow table values tm =
     (case TableManager_GetOrOpen table tm of
        None \<Rightarrow> None
      | Some (None, tm1) \<Rightarrow> Some (Inl (no_such_table ''InsertRow'' table), tm1)
      | Some (Some rm, tm1) \<Rightarrow>
          map_option (\<lambda>(r, rm', bp). (r, tm1\<lparr>tb_data_pool := bp, tb_open_tables := AList.update table rm' (tb_open_tables tm1)\<rparr>))
            (RecordManager_InsertRow values rm (tb_data_pool tm1)))"

definition TableManager_GetRow :: "string \<Rightarrow> RecordId \<Rightarrow> 'a TableManager_scheme \<Rightarrow> (Value list Result \<times> 'a TableManager_scheme) option" where
  "TableManager_GetRow table rid tm =
     (case TableManager_GetOrOpen table tm of
        None \<Rightarrow> None
      | Some (None, tm1) \<Rightarrow> Some (Inl (no_such_table ''GetRow'' table), tm1)
      | Some (Some rm, tm1) \<Rightarrow>
          let (r, bp) = RecordManager_GetRow rid rm (tb_data_pool tm1) in Some (r, tm1\<lparr>tb_data_pool := bp\<rparr>))"

definition TableManager_UpdateRow ::
  "string \<Rightarrow> RecordId \<Rightarrow> Value list \<Rightarrow> 'a TableManager_scheme \<Rightarrow> (RecordId Result \<times> 'a TableManager_scheme) option" where
  "TableManager_UpdateRow table rid values tm =
     (case TableManager_GetOrOpen table tm of
        None \<Rightarrow> None
      | Some (None, tm1) \<Rightarrow> Some (Inl (no_such_table ''UpdateRow'' table), tm1)
      | Some (Some rm, tm1) \<Rightarrow>
          map_option (\<lambda>(r, rm', bp). (r, tm1\<lparr>tb_data_pool := bp, tb_open_tables := AList.update table rm' (tb_open_tables tm1)\<rparr>))
            (RecordManager_UpdateRow rid values rm (tb_data_pool tm1)))"

definition TableManager_DeleteRow :: "string \<Rightarrow> RecordId \<Rightarrow> 'a TableManager_scheme \<Rightarrow> (Status \<times> 'a TableManager_scheme) option" where
  "TableManager_DeleteRow table rid tm =
     (case TableManager_GetOrOpen table tm of
        None \<Rightarrow> None
      | Some (None, tm1) \<Rightarrow> Some (no_such_table ''DeleteRow'' table, tm1)
      | Some (Some rm, tm1) \<Rightarrow>
          let (st, bp) = RecordManager_DeleteRow rid (tb_data_pool tm1) in Some (st, tm1\<lparr>tb_data_pool := bp\<rparr>))"

definition TableManager_Scan ::
  "string \<Rightarrow> (RecordId \<Rightarrow> Value list \<Rightarrow> 'v \<Rightarrow> 'v) \<Rightarrow> 'v \<Rightarrow> 'a TableManager_scheme \<Rightarrow> (Status \<times> 'v \<times> 'a TableManager_scheme) option" where
  "TableManager_Scan table visitor acc tm =
     (case TableManager_GetOrOpen table tm of
        None \<Rightarrow> None
      | Some (None, tm1) \<Rightarrow> Some (no_such_table ''Scan'' table, acc, tm1)
      | Some (Some rm, tm1) \<Rightarrow>
          map_option (\<lambda>(acc', bp). (Status_OK, acc', tm1\<lparr>tb_data_pool := bp\<rparr>)) (RecordManager_Scan visitor acc rm (tb_data_pool tm1)))"

definition TableManager_GetSchema :: "string \<Rightarrow> 'a TableManager_scheme \<Rightarrow> Schema option" where
  "TableManager_GetSchema table tm = map_option tm_schema (CatalogManager_GetTable table (tb_catalog tm))"

section \<open>What the tables hold\<close>

text \<open>
  \<open>tables_hold tm P T\<close>: the tables are the maps \<open>T\<close> from record ids to rows, each with its schema; \<open>P\<close> gives the
  pages of every table. The pages of different tables are different, and an open table agrees with
  its catalog entry.
\<close>

type_synonym contents = "string \<rightharpoonup> Schema \<times> (RecordId \<rightharpoonup> Value list)"

definition table_pages :: "(page_id_t \<Rightarrow> Page option) \<Rightarrow> TableMetadata \<Rightarrow> page_id_t list \<Rightarrow> (RecordId \<rightharpoonup> Value list) \<Rightarrow> bool" where
  "table_pages v meta ps rows \<longleftrightarrow> ps \<noteq> [] \<and> hchain v (tm_first_page_id meta) ps \<and> row.decodes (tm_schema meta) (heap_map v ps) rows"

definition open_ok :: "TableMetadata \<Rightarrow> page_id_t list \<Rightarrow> RecordManager \<Rightarrow> bool" where
  "open_ok meta ps rm \<longleftrightarrow> rm_schema rm = tm_schema meta \<and> hf_first_page_id (rm_heap_file rm) = tm_first_page_id meta \<and>
     hf_last_insert_page_id (rm_heap_file rm) \<in> set ps"

definition tables_in ::
  "(page_id_t \<Rightarrow> Page option) \<Rightarrow> (string \<rightharpoonup> TableMetadata) \<Rightarrow> (string \<rightharpoonup> RecordManager) \<Rightarrow> (string \<Rightarrow> page_id_t list) \<Rightarrow> contents \<Rightarrow> bool" where
  "tables_in v M R P T \<longleftrightarrow> dom T = dom M \<and>
     (\<forall>n meta. M n = Some meta \<longrightarrow> (\<exists>rows. T n = Some (tm_schema meta, rows) \<and> table_pages v meta (P n) rows)) \<and>
     (\<forall>m n. m \<in> dom T \<longrightarrow> n \<in> dom T \<longrightarrow> m \<noteq> n \<longrightarrow> set (P m) \<inter> set (P n) = {}) \<and>
     (\<forall>n rm. R n = Some rm \<longrightarrow> (\<exists>meta. M n = Some meta \<and> open_ok meta (P n) rm))"

abbreviation tb_metadata :: "'a TableManager_scheme \<Rightarrow> string \<rightharpoonup> TableMetadata" where
  "tb_metadata tm \<equiv> map_of (cat_tables (tb_catalog tm))"

definition tables_hold :: "'a TableManager_scheme \<Rightarrow> (string \<Rightarrow> page_id_t list) \<Rightarrow> contents \<Rightarrow> bool" where
  "tables_hold tm P T \<longleftrightarrow> (\<exists>ps qs. cat_inv (tb_catalog tm) (tb_catalog_pool tm) ps qs) \<and> pool.ready (tb_data_pool tm) \<and>
     tables_in (bp_view (tb_data_pool tm)) (tb_metadata tm) (map_of (tb_open_tables tm)) P T"

lemma tables_inD:
  assumes "tables_in v M R P T"
  shows "dom T = dom M" "M n = Some meta \<Longrightarrow> \<exists>rows. T n = Some (tm_schema meta, rows) \<and> table_pages v meta (P n) rows"
    "m \<in> dom T \<Longrightarrow> n \<in> dom T \<Longrightarrow> m \<noteq> n \<Longrightarrow> set (P m) \<inter> set (P n) = {}"
    "R n = Some rm \<Longrightarrow> \<exists>meta. M n = Some meta \<and> open_ok meta (P n) rm"
  using assms unfolding tables_in_def by blast+

lemma table_entry:
  assumes "tables_in v M R P T" "T n = Some (sch, rows)"
  obtains meta where "M n = Some meta" "tm_schema meta = sch" "table_pages v meta (P n) rows"
proof -
  have "n \<in> dom M" using assms tables_inD(1) by blast
  then obtain meta where m: "M n = Some meta" by blast
  with tables_inD(2) [OF assms(1) m] assms(2) that show thesis by auto
qed

text \<open>Other tables are not affected by a change of the pages of one table.\<close>

lemma table_pages_kept:
  assumes "table_pages v meta qs rows" "kept ps v v'" "set ps \<inter> set qs = {}"
  shows "table_pages v' meta qs rows"
proof -
  have eq: "v' q = v q" if "q \<in> set qs" for q
    using assms hchain_page [of v "tm_first_page_id meta" qs q] that unfolding kept_def table_pages_def by fastforce
  have "hchain v' (tm_first_page_id meta) qs = hchain v (tm_first_page_id meta) qs" by (rule hchain_frame) (rule eq)
  moreover have "heap_map v' qs = heap_map v qs" by (rule heap_map_frame) (rule eq)
  ultimately show ?thesis using assms(1) by (simp add: table_pages_def)
qed

lemma table_page_mapped: "table_pages v meta ps rows \<Longrightarrow> q \<in> set ps \<Longrightarrow> v q \<noteq> None"
  using hchain_page [of v "tm_first_page_id meta" ps q] by (auto simp: table_pages_def)

text \<open>One table changes: its pages, its rows and its record manager.\<close>

lemma tables_in_change:
  assumes h: "tables_in v M R P T" and n: "M n = Some meta" and k: "kept (P n) v v'"
    and ps: "table_pages v' meta ps' rows'" "\<And>q. q \<in> set ps' \<Longrightarrow> q \<notin> set (P n) \<Longrightarrow> v q = None" and rm: "open_ok meta ps' rm"
  shows "tables_in v' M (R(n \<mapsto> rm)) (P(n := ps')) (T(n \<mapsto> (tm_schema meta, rows')))"
proof -
  note h = tables_inD [OF h]
  let ?T = "T(n \<mapsto> (tm_schema meta, rows'))" and ?P = "P(n := ps')"
  have nT: "n \<in> dom T" using n h(1) by blast
  have disj: "set ps' \<inter> set (P m) = {}" if m: "m \<in> dom T" "m \<noteq> n" for m
  proof -
    obtain mm where "M m = Some mm" using m(1) h(1) by blast
    then obtain rows where "table_pages v mm (P m) rows" using h(2) by blast
    from table_page_mapped [OF this] have "v q \<noteq> None" if "q \<in> set (P m)" for q using that by blast
    then show ?thesis using ps(2) h(3) [OF nT m(1)] m(2) by blast
  qed
  have "\<exists>rows. ?T m = Some (tm_schema mm, rows) \<and> table_pages v' mm (?P m) rows" if m: "M m = Some mm" for m mm
  proof (cases "m = n")
    case True
    then show ?thesis using m n ps(1) by simp
  next
    case False
    obtain rows where "T m = Some (tm_schema mm, rows)" "table_pages v mm (P m) rows" using h(2) [OF m] by blast
    moreover have "set (P n) \<inter> set (P m) = {}" using h(3) [OF nT, of m] calculation(1) False by auto
    ultimately show ?thesis using table_pages_kept [OF _ k] False by auto
  qed
  moreover have "set (?P m) \<inter> set (?P k) = {}" if a: "m \<in> dom ?T" "k \<in> dom ?T" "m \<noteq> k" for m k
  proof -
    have "m \<in> dom T" "k \<in> dom T" using a(1,2) nT by (auto split: if_splits)
    with a(3) show ?thesis using disj [of m] disj [of k] h(3) [of m k] by auto
  qed
  moreover have "\<exists>mm. M m = Some mm \<and> open_ok mm (?P m) r" if "(R(n \<mapsto> rm)) m = Some r" for m r
    using that n rm h(4) [of m r] by (auto split: if_splits)
  moreover have "dom ?T = dom M" using h(1) nT by auto
  ultimately show ?thesis unfolding tables_in_def by blast
qed

section \<open>Opening a table\<close>

lemma open_table_heap:
  "open_ok meta ps rm \<Longrightarrow> table_pages v meta ps rows \<Longrightarrow> heap_wf (rm_heap_file rm) v ps"
  by (simp add: open_ok_def table_pages_def heap_wf_def)

lemma GetOrOpen_unknown:
  assumes "tables_hold tm P T" "T n = None"
  shows "TableManager_GetOrOpen n tm = Some (None, tm)"
proof -
  have t: "tables_in (bp_view (tb_data_pool tm)) (tb_metadata tm) (map_of (tb_open_tables tm)) P T" using assms(1) by (simp add: tables_hold_def)
  have "tb_metadata tm n = None" using tables_inD(1) [OF t] assms(2) by (metis domIff)
  moreover have "map_of (tb_open_tables tm) n = None" using tables_inD(4) [OF t, of n] calculation by (cases "map_of (tb_open_tables tm) n") auto
  ultimately show ?thesis by (simp add: TableManager_GetOrOpen_def CatalogManager_GetTable_def)
qed

lemma GetOrOpen_known:
  assumes "tables_hold tm P T" "T n = Some (sch, rows)"
  obtains rm meta ops where "TableManager_GetOrOpen n tm = Some (Some rm, tm\<lparr>tb_open_tables := ops\<rparr>)"
    "tables_hold (tm\<lparr>tb_open_tables := ops\<rparr>) P T" "tb_metadata tm n = Some meta" "tm_schema meta = sch"
    "open_ok meta (P n) rm" "table_pages (bp_view (tb_data_pool tm)) meta (P n) rows" "map_of ops n = Some rm"
proof -
  have t: "tables_in (bp_view (tb_data_pool tm)) (tb_metadata tm) (map_of (tb_open_tables tm)) P T" using assms(1) by (simp add: tables_hold_def)
  obtain meta where m: "tb_metadata tm n = Some meta" "tm_schema meta = sch" "table_pages (bp_view (tb_data_pool tm)) meta (P n) rows"
    by (rule table_entry [OF t assms(2)])
  show thesis
  proof (cases "map_of (tb_open_tables tm) n")
    case (Some rm)
    then have "open_ok meta (P n) rm" using tables_inD(4) [OF t] m(1) by fastforce
    with that [of rm "tb_open_tables tm" meta] Some m assms(1) show thesis by (simp add: TableManager_GetOrOpen_def)
  next
    case None
    let ?f = "tm_first_page_id meta"
    let ?rm = "\<lparr>rm_heap_file = \<lparr>hf_first_page_id = ?f, hf_last_insert_page_id = ?f\<rparr>, rm_schema = tm_schema meta\<rparr>"
    let ?ops = "AList.update n ?rm (tb_open_tables tm)"
    have "?f \<in> set (P n)" "?f \<noteq> kInvalidPageId"
      using m(3) hchain_page [of "bp_view (tb_data_pool tm)" ?f "P n" ?f] unfolding table_pages_def by (cases "P n"; auto)+
    then have ok: "open_ok meta (P n) ?rm" and new: "HeapFile_new ?f (tb_data_pool tm) = Some (rm_heap_file ?rm, tb_data_pool tm)"
      by (simp_all add: open_ok_def HeapFile_new_def)
    have "TableManager_GetOrOpen n tm = Some (Some ?rm, tm\<lparr>tb_open_tables := ?ops\<rparr>)"
      using None m(1) new by (simp add: TableManager_GetOrOpen_def CatalogManager_GetTable_def TableManager_OpenAndCache_def update_conv')
    moreover have "tables_hold (tm\<lparr>tb_open_tables := ?ops\<rparr>) P T"
      using tables_in_change [OF t m(1) _ m(3) _ ok] assms m(1,2)
      by (simp add: tables_hold_def update_conv' kept_def fun_upd_idem)
    moreover have "map_of ?ops n = Some ?rm" by (simp add: update_conv')
    ultimately show thesis using that m ok by blast
  qed
qed

section \<open>Rows of one table\<close>

text \<open>The records of a table decode to its rows.\<close>

lemma RecordManager_insert:
  assumes bp: "pool.ready bp" "0 < bp_avail bp" and hf: "heap_wf (rm_heap_file rm) (bp_view bp) ps"
    and d: "row.decodes (rm_schema rm) (heap_map (bp_view bp) ps) rows"
    and enc: "RecordCodec_Encode (rm_schema rm) vs = Inr bytes" "0 < length bytes"
  obtains r rm' bp' ps' where "RecordManager_InsertRow vs rm bp = Some (r, rm', bp')" "pool_to bp (bp_view bp') (bp_avail bp') bp'"
    "bp_avail bp - 1 \<le> bp_avail bp'" "heap_wf (rm_heap_file rm') (bp_view bp') ps'"
    "hf_first_page_id (rm_heap_file rm') = hf_first_page_id (rm_heap_file rm)" "rm_schema rm' = rm_schema rm"
    "kept ps (bp_view bp) (bp_view bp')" "\<And>q. q \<in> set ps' \<Longrightarrow> q \<notin> set ps \<Longrightarrow> bp_view bp q = None"
    "case r of Inr rid \<Rightarrow> length bytes \<le> 4080 \<and> rows rid = None \<and> row.decodes (rm_schema rm) (heap_map (bp_view bp') ps') (rows(rid \<mapsto> vs))
      | Inl e \<Rightarrow> 4080 < length bytes \<and> row.decodes (rm_schema rm) (heap_map (bp_view bp') ps') rows"
proof (cases "65535 < length bytes")
  case True
  with enc(1) bp(1) hf d pool_to_refl show thesis
    by (intro that [of "Inl (Status_InvalidArgument ''InsertRow: encoded row exceeds 65535-byte codec limit'')" rm bp ps])
      (simp_all add: RecordManager_InsertRow_def kept_def)
next
  case False
  then have st: "storable bytes" using enc(2) by (simp add: storable_def)
  obtain r hf' bp' ps' where h: "HeapFile_InsertRecord bytes (word_of_nat (length bytes)) (rm_heap_file rm) bp = Some (r, hf', bp')"
    "pool_to bp (bp_view bp') (bp_avail bp') bp'" "bp_avail bp - 1 \<le> bp_avail bp'"
    "insert_post (rm_heap_file rm) (bp_view bp) ps bytes r hf' (bp_view bp') ps'"
    by (rule InsertRecord_spec [OF bp(1) hf st bp(2)])
  note po = h(4) [unfolded insert_post_def]
  have "case r of Inr rid \<Rightarrow> length bytes \<le> 4080 \<and> rows rid = None \<and> row.decodes (rm_schema rm) (heap_map (bp_view bp') ps') (rows(rid \<mapsto> vs))
      | Inl e \<Rightarrow> 4080 < length bytes \<and> row.decodes (rm_schema rm) (heap_map (bp_view bp') ps') rows"
  proof (cases r)
    case (Inr rid)
    have "rel_option (\<lambda>r v. RecordCodec_Decode (rm_schema rm) r = Inr v) (Some bytes) (Some vs)" using row.dec_enc [OF enc(1)] by simp
    from row.decodes_upd [OF d this, of rid] show ?thesis using po Inr row.decodes_None [OF d, of rid] by simp
  qed (use po d in simp)
  then show thesis using that [of r "rm\<lparr>rm_heap_file := hf'\<rparr>" bp' ps'] h(1-3) po False enc(1)
    by (simp add: RecordManager_InsertRow_def)
qed

lemma RecordManager_update:
  assumes bp: "pool.ready bp" "0 < bp_avail bp" and hf: "heap_wf (rm_heap_file rm) (bp_view bp) ps"
    and d: "row.decodes (rm_schema rm) (heap_map (bp_view bp) ps) rows" and old: "rows rid = Some vs0"
    and enc: "RecordCodec_Encode (rm_schema rm) vs = Inr bytes" "0 < length bytes"
  obtains r rm' bp' ps' where "RecordManager_UpdateRow rid vs rm bp = Some (r, rm', bp')" "pool_to bp (bp_view bp') (bp_avail bp') bp'"
    "bp_avail bp - 1 \<le> bp_avail bp'" "heap_wf (rm_heap_file rm') (bp_view bp') ps'"
    "hf_first_page_id (rm_heap_file rm') = hf_first_page_id (rm_heap_file rm)" "rm_schema rm' = rm_schema rm"
    "kept ps (bp_view bp) (bp_view bp')" "\<And>q. q \<in> set ps' \<Longrightarrow> q \<notin> set ps \<Longrightarrow> bp_view bp q = None"
    "case r of Inr rid' \<Rightarrow> length bytes \<le> 4080 \<and> (rid' = rid \<or> rows rid' = None) \<and>
        row.decodes (rm_schema rm) (heap_map (bp_view bp') ps') (rows(rid := None, rid' \<mapsto> vs))
      | Inl e \<Rightarrow> 4080 < length bytes \<and> row.decodes (rm_schema rm) (heap_map (bp_view bp') ps') (if 65535 < length bytes then rows else rows(rid := None))"
proof (cases "65535 < length bytes")
  case True
  with enc(1) bp(1) hf d pool_to_refl show thesis
    by (intro that [of "Inl (Status_InvalidArgument ''UpdateRow: encoded row exceeds 65535-byte codec limit'')" rm bp ps])
      (simp_all add: RecordManager_UpdateRow_def kept_def)
next
  case False
  then have st: "storable bytes" using enc(2) by (simp add: storable_def)
  obtain b0 where b0: "heap_map (bp_view bp) ps rid = Some b0" using row.decodes_Some [OF d old] by blast
  obtain r hf' bp' ps' where h: "HeapFile_UpdateRecord rid bytes (word_of_nat (length bytes)) (rm_heap_file rm) bp = Some (r, hf', bp')"
    "pool_to bp (bp_view bp') (bp_avail bp') bp'" "heap_wf hf' (bp_view bp') ps'" "kept ps (bp_view bp) (bp_view bp')"
    and po: "case r of
        Inr rid' \<Rightarrow> length bytes \<le> 4080 \<and> (rid' = rid \<or> length b0 < length bytes \<and> heap_map (bp_view bp) ps rid' = None) \<and>
          heap_map (bp_view bp') ps' = (heap_map (bp_view bp) ps)(rid := None, rid' \<mapsto> bytes)
      | Inl e \<Rightarrow> 4080 < length bytes \<and> status_code e = kOutOfSpace \<and>
          heap_map (bp_view bp') ps' = (heap_map (bp_view bp) ps)(rid := None)"
    and h': "hf_first_page_id hf' = hf_first_page_id (rm_heap_file rm)" "bp_avail bp - 1 \<le> bp_avail bp'"
      "\<And>q. q \<in> set ps' \<Longrightarrow> q \<notin> set ps \<Longrightarrow> bp_view bp q = None"
    by (rule UpdateRecord_spec [OF bp(1) hf st bp(2) b0]) (rule that; assumption)
  have del: "row.decodes (rm_schema rm) ((heap_map (bp_view bp) ps)(rid := None)) (rows(rid := None))" by (rule row.decodes_upd [OF d]) simp
  have "case r of Inr rid' \<Rightarrow> length bytes \<le> 4080 \<and> (rid' = rid \<or> rows rid' = None) \<and>
        row.decodes (rm_schema rm) (heap_map (bp_view bp') ps') (rows(rid := None, rid' \<mapsto> vs))
      | Inl e \<Rightarrow> 4080 < length bytes \<and> row.decodes (rm_schema rm) (heap_map (bp_view bp') ps') (rows(rid := None))"
  proof (cases r)
    case (Inr rid')
    have "rel_option (\<lambda>r v. RecordCodec_Decode (rm_schema rm) r = Inr v) (Some bytes) (Some vs)" using row.dec_enc [OF enc(1)] by simp
    from row.decodes_upd [OF del this, of rid'] show ?thesis using po Inr row.decodes_None [OF d, of rid'] by auto
  qed (use po del in simp)
  then show thesis using that [of r "rm\<lparr>rm_heap_file := hf'\<rparr>" bp' ps'] h h' False enc(1)
    by (simp add: RecordManager_UpdateRow_def)
qed

section \<open>Rows by table name\<close>

lemma tables_hold_update:
  assumes hold: "tables_hold tm P T" and m: "tb_metadata tm n = Some meta"
    and bp: "pool_to (tb_data_pool tm) (bp_view bp) k bp" "kept (P n) (bp_view (tb_data_pool tm)) (bp_view bp)"
    and fr: "\<And>q. q \<in> set ps' \<Longrightarrow> q \<notin> set (P n) \<Longrightarrow> bp_view (tb_data_pool tm) q = None"
    and hf: "heap_wf (rm_heap_file rm) (bp_view bp) ps'" "hf_first_page_id (rm_heap_file rm) = tm_first_page_id meta" "rm_schema rm = tm_schema meta"
    and d: "row.decodes (tm_schema meta) (heap_map (bp_view bp) ps') rows'"
  shows "tables_hold (tm\<lparr>tb_data_pool := bp, tb_open_tables := AList.update n rm (tb_open_tables tm)\<rparr>) (P(n := ps')) (T(n \<mapsto> (tm_schema meta, rows')))"
proof -
  have t: "tables_in (bp_view (tb_data_pool tm)) (tb_metadata tm) (map_of (tb_open_tables tm)) P T" using hold by (simp add: tables_hold_def)
  have "ps' \<noteq> []" using hf(1) by (auto simp: heap_wf_def)
  then have pg: "table_pages (bp_view bp) meta ps' rows'" and ok: "open_ok meta ps' rm"
    using hf d by (auto simp: table_pages_def open_ok_def heap_wf_def)
  from tables_in_change [OF t m bp(2) pg fr ok] hold pool_toD(1) [OF bp(1)] show ?thesis
    by (simp add: tables_hold_def update_conv')
qed

lemma InsertRow_table:
  assumes hold: "tables_hold tm P T" and n: "T n = Some (sch, rows)" and av: "0 < bp_avail (tb_data_pool tm)"
    and enc: "RecordCodec_Encode sch vs = Inr bytes" "sch \<noteq> []"
  obtains r P' bp' ops' where "TableManager_InsertRow n vs tm = Some (r, tm\<lparr>tb_data_pool := bp', tb_open_tables := ops'\<rparr>)"
    "bp_avail (tb_data_pool tm) - 1 \<le> bp_avail bp'"
    "case r of Inr rid \<Rightarrow> length bytes \<le> 4080 \<and> rows rid = None \<and>
        tables_hold (tm\<lparr>tb_data_pool := bp', tb_open_tables := ops'\<rparr>) P' (T(n \<mapsto> (sch, rows(rid \<mapsto> vs))))
      | Inl e \<Rightarrow> 4080 < length bytes \<and> tables_hold (tm\<lparr>tb_data_pool := bp', tb_open_tables := ops'\<rparr>) P' T"
proof -
  obtain rm meta ops where g: "TableManager_GetOrOpen n tm = Some (Some rm, tm\<lparr>tb_open_tables := ops\<rparr>)"
    "tables_hold (tm\<lparr>tb_open_tables := ops\<rparr>) P T" "tb_metadata tm n = Some meta" "tm_schema meta = sch"
    "open_ok meta (P n) rm" "table_pages (bp_view (tb_data_pool tm)) meta (P n) rows" "map_of ops n = Some rm"
    by (rule GetOrOpen_known [OF hold n])
  have s: "rm_schema rm = sch" "hf_first_page_id (rm_heap_file rm) = tm_first_page_id meta" using g(4,5) by (simp_all add: open_ok_def)
  have ready: "pool.ready (tb_data_pool tm)" using hold by (simp add: tables_hold_def)
  have d: "row.decodes (rm_schema rm) (heap_map (bp_view (tb_data_pool tm)) (P n)) rows" using g(4,6) s(1) by (simp add: table_pages_def)
  have e: "RecordCodec_Encode (rm_schema rm) vs = Inr bytes" "0 < length bytes" using enc s(1) Encode_nonempty by auto
  obtain r rm' bp' ps' where r: "RecordManager_InsertRow vs rm (tb_data_pool tm) = Some (r, rm', bp')"
    "pool_to (tb_data_pool tm) (bp_view bp') (bp_avail bp') bp'" "bp_avail (tb_data_pool tm) - 1 \<le> bp_avail bp'"
    "heap_wf (rm_heap_file rm') (bp_view bp') ps'" "hf_first_page_id (rm_heap_file rm') = hf_first_page_id (rm_heap_file rm)"
    "rm_schema rm' = rm_schema rm" "kept (P n) (bp_view (tb_data_pool tm)) (bp_view bp')"
    "\<And>q. q \<in> set ps' \<Longrightarrow> q \<notin> set (P n) \<Longrightarrow> bp_view (tb_data_pool tm) q = None"
    and post: "case r of Inr rid \<Rightarrow> length bytes \<le> 4080 \<and> rows rid = None \<and>
        row.decodes (rm_schema rm) (heap_map (bp_view bp') ps') (rows(rid \<mapsto> vs))
      | Inl e \<Rightarrow> 4080 < length bytes \<and> row.decodes (rm_schema rm) (heap_map (bp_view bp') ps') rows"
    by (rule RecordManager_insert [OF ready av open_table_heap [OF g(5,6)] d e]) (rule that; assumption)
  let ?ops = "AList.update n rm' ops" let ?tm = "tm\<lparr>tb_data_pool := bp', tb_open_tables := ?ops\<rparr>"
  have call: "TableManager_InsertRow n vs tm = Some (r, ?tm)" using g(1) r(1) by (simp add: TableManager_InsertRow_def)
  have upd: "tables_hold ?tm (P(n := ps')) (T(n \<mapsto> (sch, rows')))" if "row.decodes (rm_schema rm) (heap_map (bp_view bp') ps') rows'" for rows'
    using tables_hold_update [OF g(2), of n meta bp' "bp_avail bp'" ps' rm' rows'] g(3,4) r(2,4-8) s that by simp
  have same: "T(n \<mapsto> (sch, rows)) = T" using n by (simp add: fun_upd_idem)
  show thesis by (rule that [OF call r(3), of "P(n := ps')"]) (use post upd upd [of rows, unfolded same] in \<open>auto split: sum.splits\<close>)
qed

lemma UpdateRow_table:
  assumes hold: "tables_hold tm P T" and n: "T n = Some (sch, rows)" and av: "0 < bp_avail (tb_data_pool tm)"
    and enc: "RecordCodec_Encode sch vs = Inr bytes" "sch \<noteq> []" and old: "rows rid = Some vs0"
  obtains r P' bp' ops' where "TableManager_UpdateRow n rid vs tm = Some (r, tm\<lparr>tb_data_pool := bp', tb_open_tables := ops'\<rparr>)"
    "bp_avail (tb_data_pool tm) - 1 \<le> bp_avail bp'"
    "case r of Inr rid' \<Rightarrow> length bytes \<le> 4080 \<and> (rid' = rid \<or> rows rid' = None) \<and>
        tables_hold (tm\<lparr>tb_data_pool := bp', tb_open_tables := ops'\<rparr>) P' (T(n \<mapsto> (sch, rows(rid := None, rid' \<mapsto> vs))))
      | Inl e \<Rightarrow> 4080 < length bytes \<and> tables_hold (tm\<lparr>tb_data_pool := bp', tb_open_tables := ops'\<rparr>) P'
          (T(n \<mapsto> (sch, if 65535 < length bytes then rows else rows(rid := None))))"
proof -
  obtain rm meta ops where g: "TableManager_GetOrOpen n tm = Some (Some rm, tm\<lparr>tb_open_tables := ops\<rparr>)"
    "tables_hold (tm\<lparr>tb_open_tables := ops\<rparr>) P T" "tb_metadata tm n = Some meta" "tm_schema meta = sch"
    "open_ok meta (P n) rm" "table_pages (bp_view (tb_data_pool tm)) meta (P n) rows" "map_of ops n = Some rm"
    by (rule GetOrOpen_known [OF hold n])
  have s: "rm_schema rm = sch" "hf_first_page_id (rm_heap_file rm) = tm_first_page_id meta" using g(4,5) by (simp_all add: open_ok_def)
  have ready: "pool.ready (tb_data_pool tm)" using hold by (simp add: tables_hold_def)
  have d: "row.decodes (rm_schema rm) (heap_map (bp_view (tb_data_pool tm)) (P n)) rows" using g(4,6) s(1) by (simp add: table_pages_def)
  have e: "RecordCodec_Encode (rm_schema rm) vs = Inr bytes" "0 < length bytes" using enc s(1) Encode_nonempty by auto
  obtain r rm' bp' ps' where r: "RecordManager_UpdateRow rid vs rm (tb_data_pool tm) = Some (r, rm', bp')"
    "pool_to (tb_data_pool tm) (bp_view bp') (bp_avail bp') bp'" "bp_avail (tb_data_pool tm) - 1 \<le> bp_avail bp'"
    "heap_wf (rm_heap_file rm') (bp_view bp') ps'" "hf_first_page_id (rm_heap_file rm') = hf_first_page_id (rm_heap_file rm)"
    "rm_schema rm' = rm_schema rm" "kept (P n) (bp_view (tb_data_pool tm)) (bp_view bp')"
    "\<And>q. q \<in> set ps' \<Longrightarrow> q \<notin> set (P n) \<Longrightarrow> bp_view (tb_data_pool tm) q = None"
    and post: "case r of Inr rid' \<Rightarrow> length bytes \<le> 4080 \<and> (rid' = rid \<or> rows rid' = None) \<and>
        row.decodes (rm_schema rm) (heap_map (bp_view bp') ps') (rows(rid := None, rid' \<mapsto> vs))
      | Inl e \<Rightarrow> 4080 < length bytes \<and> row.decodes (rm_schema rm) (heap_map (bp_view bp') ps') (if 65535 < length bytes then rows else rows(rid := None))"
    by (rule RecordManager_update [OF ready av open_table_heap [OF g(5,6)] d old e]) (rule that; assumption)
  let ?ops = "AList.update n rm' ops" let ?tm = "tm\<lparr>tb_data_pool := bp', tb_open_tables := ?ops\<rparr>"
  have call: "TableManager_UpdateRow n rid vs tm = Some (r, ?tm)" using g(1) r(1) by (simp add: TableManager_UpdateRow_def)
  have upd: "tables_hold ?tm (P(n := ps')) (T(n \<mapsto> (sch, rows')))" if "row.decodes (rm_schema rm) (heap_map (bp_view bp') ps') rows'" for rows'
    using tables_hold_update [OF g(2), of n meta bp' "bp_avail bp'" ps' rm' rows'] g(3,4) r(2,4-8) s that by simp
  show thesis by (rule that [OF call r(3), of "P(n := ps')"]) (use post upd in \<open>auto split: sum.splits\<close>)
qed

text \<open>The rows of a table in the order of a scan.\<close>

definition table_list :: "(page_id_t \<Rightarrow> Page option) \<Rightarrow> Schema \<Rightarrow> page_id_t list \<Rightarrow> (RecordId \<times> Value list) list" where
  "table_list v sch ps = map_entries (\<lambda>_. row.decoded sch) (heap_records v ps)"

lemma table_list_rows:
  assumes "hchain v a ps" "row.decodes sch (heap_map v ps) rows"
  shows "distinct (map fst (table_list v sch ps))" "map_of (table_list v sch ps) = rows"
proof -
  let ?xs = "heap_records v ps"
  have dist: "distinct (map fst ?xs)" by (rule distinct_heap_records [OF hchain_distinct [OF assms(1)]])
  have "map_of ?xs = heap_map v ps"
    using map_of_eq_Some_iff [OF dist] heap_records_iff [of _ _ v ps] by (metis option.exhaust ext)
  then show "map_of (table_list v sch ps) = rows"
    using dist row.decodes_bind [OF assms(2)] unfolding table_list_def by (auto simp: map_of_map_entries)
  show "distinct (map fst (table_list v sch ps))"
    unfolding table_list_def using dist by (rule distinct_map_entries)
qed

lemma fold_decoded:
  "fold (\<lambda>(rid, r). (\<lambda>rid bytes acc. case RecordCodec_Decode sch bytes of Inl e \<Rightarrow> acc | Inr row \<Rightarrow> f rid row acc) rid r) xs acc =
     fold (\<lambda>(rid, vs). f rid vs) (map_entries (\<lambda>_. row.decoded sch) xs) acc"
proof (induction xs arbitrary: acc)
  case (Cons x xs)
  obtain rid r where x: "x = (rid, r)" by fastforce
  show ?case using Cons by (cases "RecordCodec_Decode sch r") (simp_all add: x row.decoded_def)
qed simp

lemma Scan_table:
  assumes hold: "tables_hold tm P T" and n: "T n = Some (sch, rows)"
  obtains bp' ops' where "TableManager_Scan n f acc tm =
      Some (Status_OK, fold (\<lambda>(rid, vs). f rid vs) (table_list (bp_view (tb_data_pool tm)) sch (P n)) acc, tm\<lparr>tb_data_pool := bp', tb_open_tables := ops'\<rparr>)"
    "tables_hold (tm\<lparr>tb_data_pool := bp', tb_open_tables := ops'\<rparr>) P T"
    "pool_to (tb_data_pool tm) (bp_view (tb_data_pool tm)) (bp_avail (tb_data_pool tm)) bp'"
proof -
  obtain rm meta ops where g: "TableManager_GetOrOpen n tm = Some (Some rm, tm\<lparr>tb_open_tables := ops\<rparr>)"
    "tables_hold (tm\<lparr>tb_open_tables := ops\<rparr>) P T" "tb_metadata tm n = Some meta" "tm_schema meta = sch"
    "open_ok meta (P n) rm" "table_pages (bp_view (tb_data_pool tm)) meta (P n) rows" "map_of ops n = Some rm"
    by (rule GetOrOpen_known [OF hold n])
  have s: "rm_schema rm = sch" "hf_first_page_id (rm_heap_file rm) = tm_first_page_id meta" using g(4,5) by (simp_all add: open_ok_def)
  have ready: "pool.ready (tb_data_pool tm)" using hold by (simp add: tables_hold_def)
  have ch: "hchain (bp_view (tb_data_pool tm)) (hf_first_page_id (rm_heap_file rm)) (P n)" using g(6) s(2) by (simp add: table_pages_def)
  obtain bp' where b: "RecordManager_Scan f acc rm (tb_data_pool tm) =
      Some (fold (\<lambda>(rid, vs). f rid vs) (table_list (bp_view (tb_data_pool tm)) sch (P n)) acc, bp')"
    "pool_to (tb_data_pool tm) (bp_view (tb_data_pool tm)) (bp_avail (tb_data_pool tm)) bp'"
    using Scan_loop [OF ready ch, of "\<lambda>rid bytes acc. case RecordCodec_Decode sch bytes of Inl e \<Rightarrow> acc | Inr row \<Rightarrow> f rid row acc" acc]
    unfolding fold_decoded RecordManager_Scan_def HeapFile_Scan_def s(1) table_list_def by blast
  show thesis by (rule that [of ops bp'])
      (use g(1,2) b pool_toD [OF b(2)] in \<open>simp_all add: TableManager_Scan_def tables_hold_def\<close>)
qed

lemma table_list_table:
  assumes "tables_hold tm P T" "T n = Some (sch, rows)"
  shows "distinct (map fst (table_list (bp_view (tb_data_pool tm)) sch (P n)))" "map_of (table_list (bp_view (tb_data_pool tm)) sch (P n)) = rows"
proof -
  have t: "tables_in (bp_view (tb_data_pool tm)) (tb_metadata tm) (map_of (tb_open_tables tm)) P T" using assms(1) by (simp add: tables_hold_def)
  obtain meta where "tm_schema meta = sch" "table_pages (bp_view (tb_data_pool tm)) meta (P n) rows" by (rule table_entry [OF t assms(2)])
  then have "hchain (bp_view (tb_data_pool tm)) (tm_first_page_id meta) (P n)" "row.decodes sch (heap_map (bp_view (tb_data_pool tm)) (P n)) rows"
    by (simp_all add: table_pages_def)
  note r = table_list_rows [OF this]
  show "distinct (map fst (table_list (bp_view (tb_data_pool tm)) sch (P n)))" "map_of (table_list (bp_view (tb_data_pool tm)) sch (P n)) = rows"
    by (rule r)+
qed

lemma GetRow_table:
  assumes hold: "tables_hold tm P T" and n: "T n = Some (sch, rows)" and r: "rows rid = Some vs"
  obtains bp' ops' where "TableManager_GetRow n rid tm = Some (Inr vs, tm\<lparr>tb_data_pool := bp', tb_open_tables := ops'\<rparr>)"
    "tables_hold (tm\<lparr>tb_data_pool := bp', tb_open_tables := ops'\<rparr>) P T"
    "pool_to (tb_data_pool tm) (bp_view (tb_data_pool tm)) (bp_avail (tb_data_pool tm)) bp'"
proof -
  obtain rm meta ops where g: "TableManager_GetOrOpen n tm = Some (Some rm, tm\<lparr>tb_open_tables := ops\<rparr>)"
    "tables_hold (tm\<lparr>tb_open_tables := ops\<rparr>) P T" "tb_metadata tm n = Some meta" "tm_schema meta = sch"
    "open_ok meta (P n) rm" "table_pages (bp_view (tb_data_pool tm)) meta (P n) rows" "map_of ops n = Some rm"
    by (rule GetOrOpen_known [OF hold n])
  have s: "rm_schema rm = sch" using g(4,5) by (simp add: open_ok_def)
  have ready: "pool.ready (tb_data_pool tm)" using hold by (simp add: tables_hold_def)
  have pg: "hchain (bp_view (tb_data_pool tm)) (tm_first_page_id meta) (P n)" "row.decodes sch (heap_map (bp_view (tb_data_pool tm)) (P n)) rows"
    using g(4,6) by (simp_all add: table_pages_def)
  obtain b where b: "heap_map (bp_view (tb_data_pool tm)) (P n) rid = Some b" "RecordCodec_Decode sch b = Inr vs" using row.decodes_Some [OF pg(2) r] by blast
  have "rid_page_id rid \<in> set (P n) \<or> bp_view (tb_data_pool tm) (rid_page_id rid) = None \<and> rid_page_id rid \<noteq> kHeaderPageId"
    using heap_rid_page [OF b(1)] by blast
  from GetRecordBytes_spec [OF ready pg(1) this] obtain r bp' where
    h: "HeapFile_GetRecordBytes rid (tb_data_pool tm) = (r, bp')" "pool_to (tb_data_pool tm) (bp_view (tb_data_pool tm)) (bp_avail (tb_data_pool tm)) bp'"
      "case heap_map (bp_view (tb_data_pool tm)) (P n) rid of Some bytes \<Rightarrow> r = Inr bytes | None \<Rightarrow> \<exists>e. r = Inl e \<and> status_code e = kNotFound"
    by blast
  show thesis by (rule that [of ops bp'])
      (use g(1,2) h b s pool_toD [OF h(2)] in \<open>simp_all add: TableManager_GetRow_def RecordManager_GetRow_def tables_hold_def\<close>)
qed

lemma DeleteRow_table:
  assumes hold: "tables_hold tm P T" and n: "T n = Some (sch, rows)" and r: "rows rid = Some vs"
  obtains st bp' ops' where "TableManager_DeleteRow n rid tm = Some (st, tm\<lparr>tb_data_pool := bp', tb_open_tables := ops'\<rparr>)" "Status_ok st"
    "tables_hold (tm\<lparr>tb_data_pool := bp', tb_open_tables := ops'\<rparr>) P (T(n \<mapsto> (sch, rows(rid := None))))"
    "bp_avail bp' = bp_avail (tb_data_pool tm)"
proof -
  obtain rm meta ops where g: "TableManager_GetOrOpen n tm = Some (Some rm, tm\<lparr>tb_open_tables := ops\<rparr>)"
    "tables_hold (tm\<lparr>tb_open_tables := ops\<rparr>) P T" "tb_metadata tm n = Some meta" "tm_schema meta = sch"
    "open_ok meta (P n) rm" "table_pages (bp_view (tb_data_pool tm)) meta (P n) rows" "map_of ops n = Some rm"
    by (rule GetOrOpen_known [OF hold n])
  have s: "rm_schema rm = sch" "hf_first_page_id (rm_heap_file rm) = tm_first_page_id meta" using g(4,5) by (simp_all add: open_ok_def)
  have ready: "pool.ready (tb_data_pool tm)" using hold by (simp add: tables_hold_def)
  have d: "row.decodes sch (heap_map (bp_view (tb_data_pool tm)) (P n)) rows" using g(4,6) by (simp add: table_pages_def)
  obtain b where b: "heap_map (bp_view (tb_data_pool tm)) (P n) rid = Some b" using row.decodes_Some [OF d r] by blast
  have "rid_page_id rid \<in> set (P n) \<or> bp_view (tb_data_pool tm) (rid_page_id rid) = None \<and> rid_page_id rid \<noteq> kHeaderPageId"
    using heap_rid_page [OF b] by blast
  from ready open_table_heap [OF g(5,6)] this obtain st bp' where h: "HeapFile_DeleteRecord rid (tb_data_pool tm) = (st, bp')"
    "pool_to (tb_data_pool tm) (bp_view bp') (bp_avail (tb_data_pool tm)) bp'" "heap_wf (rm_heap_file rm) (bp_view bp') (P n)"
    "heap_map (bp_view bp') (P n) = (heap_map (bp_view (tb_data_pool tm)) (P n))(rid := None)"
    "kept (P n) (bp_view (tb_data_pool tm)) (bp_view bp')"
    "status_code st = (if heap_map (bp_view (tb_data_pool tm)) (P n) rid = None then kNotFound else kOk)"
    by (rule DeleteRecord_spec)
  have d': "row.decodes sch (heap_map (bp_view bp') (P n)) (rows(rid := None))" unfolding h(4) by (rule row.decodes_upd [OF d]) simp
  let ?tm = "tm\<lparr>tb_data_pool := bp', tb_open_tables := ops\<rparr>"
  have "tables_hold ?tm P (T(n \<mapsto> (sch, rows(rid := None))))"
  proof -
    have t: "tables_in (bp_view (tb_data_pool tm)) (tb_metadata tm) (map_of ops) P T" using g(2) by (simp add: tables_hold_def)
    have pg: "table_pages (bp_view bp') meta (P n) (rows(rid := None))" using h(3) d' g(4,6) s(2) by (simp add: table_pages_def heap_wf_def)
    from tables_in_change [OF t g(3) h(5) pg _ g(5)] g(2,4,7) pool_toD(1) [OF h(2)] show ?thesis
      by (simp add: tables_hold_def fun_upd_idem)
  qed
  then show thesis by (rule that [of st ops bp', rotated 2])
      (use g(1) h(1,6) b pool_toD(3) [OF h(2)] in \<open>simp_all add: TableManager_DeleteRow_def RecordManager_DeleteRow_def Status_ok_def\<close>)
qed

text \<open>A row that cannot be encoded is refused and nothing changes.\<close>

lemma InsertRow_rejected:
  assumes hold: "tables_hold tm P T" and n: "T n = Some (sch, rows)" and enc: "RecordCodec_Encode sch vs = Inl e"
  obtains ops' where "TableManager_InsertRow n vs tm = Some (Inl e, tm\<lparr>tb_open_tables := ops'\<rparr>)" "tables_hold (tm\<lparr>tb_open_tables := ops'\<rparr>) P T"
proof -
  obtain rm meta ops where g: "TableManager_GetOrOpen n tm = Some (Some rm, tm\<lparr>tb_open_tables := ops\<rparr>)"
    "tables_hold (tm\<lparr>tb_open_tables := ops\<rparr>) P T" "tm_schema meta = sch" "open_ok meta (P n) rm" "map_of ops n = Some rm"
    by (rule GetOrOpen_known [OF hold n])
  have s: "rm_schema rm = sch" using g(3,4) by (simp add: open_ok_def)
  show thesis by (rule that [of "AList.update n rm ops"])
      (use g s enc in \<open>simp_all add: TableManager_InsertRow_def RecordManager_InsertRow_def tables_hold_def update_conv' fun_upd_idem\<close>)
qed

lemma UpdateRow_rejected:
  assumes hold: "tables_hold tm P T" and n: "T n = Some (sch, rows)" and enc: "RecordCodec_Encode sch vs = Inl e"
  obtains ops' where "TableManager_UpdateRow n rid vs tm = Some (Inl e, tm\<lparr>tb_open_tables := ops'\<rparr>)" "tables_hold (tm\<lparr>tb_open_tables := ops'\<rparr>) P T"
proof -
  obtain rm meta ops where g: "TableManager_GetOrOpen n tm = Some (Some rm, tm\<lparr>tb_open_tables := ops\<rparr>)"
    "tables_hold (tm\<lparr>tb_open_tables := ops\<rparr>) P T" "tm_schema meta = sch" "open_ok meta (P n) rm" "map_of ops n = Some rm"
    by (rule GetOrOpen_known [OF hold n])
  have s: "rm_schema rm = sch" using g(3,4) by (simp add: open_ok_def)
  show thesis by (rule that [of "AList.update n rm ops"])
      (use g s enc in \<open>simp_all add: TableManager_UpdateRow_def RecordManager_UpdateRow_def tables_hold_def update_conv' fun_upd_idem\<close>)
qed

text \<open>The rows of a table have the types of its columns, and the schema is the one of the catalog.\<close>

lemma table_rows_typed:
  assumes "tables_hold tm P T" "T n = Some (sch, rows)" "rows rid = Some vs"
  shows "list_all2 (\<lambda>c v. ValueMatchesType v (col_type c)) sch vs"
proof -
  have t: "tables_in (bp_view (tb_data_pool tm)) (tb_metadata tm) (map_of (tb_open_tables tm)) P T" using assms(1) by (simp add: tables_hold_def)
  obtain meta where "tm_schema meta = sch" "table_pages (bp_view (tb_data_pool tm)) meta (P n) rows" by (rule table_entry [OF t assms(2)])
  then have "row.decodes sch (heap_map (bp_view (tb_data_pool tm)) (P n)) rows" by (simp add: table_pages_def)
  from row.decodes_Some [OF this assms(3)] obtain b where "RecordCodec_Decode sch b = Inr vs" by blast
  then show ?thesis using decode_cols_typed by (auto simp: RecordCodec_Decode_def split: sum.splits if_splits)
qed

lemma GetSchema_table:
  assumes "tables_hold tm P T"
  shows "TableManager_GetSchema n tm = map_option fst (T n)"
proof -
  have t: "tables_in (bp_view (tb_data_pool tm)) (tb_metadata tm) (map_of (tb_open_tables tm)) P T" using assms by (simp add: tables_hold_def)
  show ?thesis
  proof (cases "tb_metadata tm n")
    case None
    then have "T n = None" using tables_inD(1) [OF t] by (metis domIff)
    with None show ?thesis by (simp add: TableManager_GetSchema_def CatalogManager_GetTable_def)
  next
    case (Some meta)
    with tables_inD(2) [OF t Some] show ?thesis by (auto simp: TableManager_GetSchema_def CatalogManager_GetTable_def)
  qed
qed

section \<open>Creating and dropping tables\<close>

lemma tables_holdD:
  assumes "tables_hold tm P T"
  obtains ps qs where "cat_inv (tb_catalog tm) (tb_catalog_pool tm) ps qs" "pool.ready (tb_data_pool tm)"
    "tables_in (bp_view (tb_data_pool tm)) (tb_metadata tm) (map_of (tb_open_tables tm)) P T"
  using assms unfolding tables_hold_def by blast

text \<open>Unused pages may be added and a new table may be put on them.\<close>

lemma tables_in_grow:
  assumes t: "tables_in v M R P T" and k: "kept [] v v'"
  shows "tables_in v' M R P T"
proof -
  have "table_pages v' meta ps rows" if "table_pages v meta ps rows" for meta ps rows
    by (rule table_pages_kept [OF that k]) simp
  with t show ?thesis unfolding tables_in_def by blast
qed

lemma tables_in_add:
  assumes t: "tables_in v M R P T" and n: "M n = None" and pg: "table_pages v meta ps rows" and ok: "open_ok meta ps rm"
    and fr: "\<And>m q. m \<in> dom T \<Longrightarrow> q \<in> set (P m) \<Longrightarrow> q \<notin> set ps"
  shows "tables_in v (M(n \<mapsto> meta)) (R(n \<mapsto> rm)) (P(n := ps)) (T(n \<mapsto> (tm_schema meta, rows)))"
proof -
  note h = tables_inD [OF t]
  have nT: "n \<notin> dom T" using h(1) n by blast
  have "(\<exists>rs. (T(n \<mapsto> (tm_schema meta, rows))) m = Some (tm_schema mm, rs) \<and> table_pages v mm ((P(n := ps)) m) rs)"
    if "(M(n \<mapsto> meta)) m = Some mm" for m mm using that h(2) [of m mm] pg by (auto split: if_splits)
  moreover have "set ((P(n := ps)) m) \<inter> set ((P(n := ps)) k) = {}"
    if a: "m \<in> dom (T(n \<mapsto> (tm_schema meta, rows)))" "k \<in> dom (T(n \<mapsto> (tm_schema meta, rows)))" "m \<noteq> k" for m k
  proof (cases "m = n")
    case True
    with a have "k \<in> dom T" by auto
    with fr [of k] True a(3) show ?thesis by auto
  next
    case False
    with a have m: "m \<in> dom T" by auto
    show ?thesis
    proof (cases "k = n")
      case True
      with fr [OF m] False show ?thesis by auto
    next
      case k: False
      with a have "k \<in> dom T" by auto
      with h(3) [OF m this a(3)] False k show ?thesis by simp
    qed
  qed
  moreover have "\<exists>mm. (M(n \<mapsto> meta)) m = Some mm \<and> open_ok mm ((P(n := ps)) m) r" if "(R(n \<mapsto> rm)) m = Some r" for m r
    using that h(4) [of m r] ok n by (auto split: if_splits)
  moreover have "dom (T(n \<mapsto> (tm_schema meta, rows))) = dom (M(n \<mapsto> meta))" using h(1) by simp
  ultimately show ?thesis unfolding tables_in_def by blast
qed

lemma tables_in_drop:
  assumes t: "tables_in v M R P T"
  shows "tables_in v (M(n := None)) (R(n := None)) P (T(n := None))"
proof -
  note h = tables_inD [OF t]
  have "\<exists>rs. (T(n := None)) m = Some (tm_schema mm, rs) \<and> table_pages v mm (P m) rs" if "(M(n := None)) m = Some mm" for m mm
    using that h(2) [of m mm] by (auto split: if_splits)
  moreover have "set (P m) \<inter> set (P k) = {}" if "m \<in> dom (T(n := None))" "k \<in> dom (T(n := None))" "m \<noteq> k" for m k
    using that h(3) [of m k] by simp
  moreover have "\<exists>mm. (M(n := None)) m = Some mm \<and> open_ok mm (P m) r" if "(R(n := None)) m = Some r" for m r
    using that h(4) [of m r] by (auto split: if_splits)
  moreover have "dom (T(n := None)) = dom (M(n := None))" using h(1) by simp
  ultimately show ?thesis unfolding tables_in_def by blast
qed

lemma tables_mapped:
  assumes "tables_in v M R P T" "m \<in> dom T" "q \<in> set (P m)"
  shows "v q \<noteq> None"
proof -
  obtain sch rows where "T m = Some (sch, rows)" using assms(2) by fastforce
  from table_entry [OF assms(1) this] table_page_mapped assms(3) show ?thesis by metis
qed

lemma DropTable_table:
  assumes hold: "tables_hold tm P T"
  obtains st cm cbp ops where "TableManager_DropTable n tm = (st, tm\<lparr>tb_catalog := cm, tb_catalog_pool := cbp, tb_open_tables := ops\<rparr>)"
    "tables_hold (tm\<lparr>tb_catalog := cm, tb_catalog_pool := cbp, tb_open_tables := ops\<rparr>) P (T(n := None))"
    "status_code st = (if T n = None then kNotFound else kOk)"
    "pool_to (tb_catalog_pool tm) (bp_view cbp) (bp_avail (tb_catalog_pool tm)) cbp"
    "cat_heap cm = cat_heap (tb_catalog tm)" "cat_index_heap cm = cat_index_heap (tb_catalog tm)" "cat_indexes cm = cat_indexes (tb_catalog tm)"
proof -
  obtain ps qs where h: "cat_inv (tb_catalog tm) (tb_catalog_pool tm) ps qs" "pool.ready (tb_data_pool tm)"
    "tables_in (bp_view (tb_data_pool tm)) (tb_metadata tm) (map_of (tb_open_tables tm)) P T" using hold by (rule tables_holdD)
  obtain st cm cbp where d: "CatalogManager_DropTable n (tb_catalog tm) (tb_catalog_pool tm) = (st, cm, cbp)" "cat_inv cm cbp ps qs"
    "pool_to (tb_catalog_pool tm) (bp_view cbp) (bp_avail (tb_catalog_pool tm)) cbp" "map_of (cat_tables cm) = (tb_metadata tm)(n := None)"
    "cat_heap cm = cat_heap (tb_catalog tm)" "cat_index_heap cm = cat_index_heap (tb_catalog tm)" "cat_indexes cm = cat_indexes (tb_catalog tm)"
    "status_code st = (if tb_metadata tm n = None then kNotFound else kOk)"
    by (rule DropTable_spec [OF h(1)])
  have T: "T n = None \<longleftrightarrow> tb_metadata tm n = None" using tables_inD(1) [OF h(3)] by (metis domIff)
  define ops where "ops = (if Status_ok st then AList.delete n (tb_open_tables tm) else tb_open_tables tm)"
  have "map_of ops = (map_of (tb_open_tables tm))(n := None)"
  proof (cases "Status_ok st")
    case False
    then have "tb_metadata tm n = None" using d(8) by (auto simp: Status_ok_def split: if_splits)
    then have "map_of (tb_open_tables tm) n = None" using tables_inD(4) [OF h(3), of n] by (cases "map_of (tb_open_tables tm) n") auto
    then show ?thesis using False by (simp add: ops_def fun_upd_idem)
  qed (simp add: ops_def delete_conv')
  then have "tables_hold (tm\<lparr>tb_catalog := cm, tb_catalog_pool := cbp, tb_open_tables := ops\<rparr>) P (T(n := None))"
    using h(2) d(2,4) tables_in_drop [OF h(3), of n] by (auto simp: tables_hold_def)
  moreover have "TableManager_DropTable n tm = (if Status_ok st then Status_OK else st, tm\<lparr>tb_catalog := cm, tb_catalog_pool := cbp, tb_open_tables := ops\<rparr>)"
    using d(1,8) by (simp add: TableManager_DropTable_def ops_def)
  moreover have "status_code (if Status_ok st then Status_OK else st) = (if T n = None then kNotFound else kOk)"
    using d(8) T by (simp add: Status_ok_def Status_OK_def)
  ultimately show thesis using that d(3,5-7) by blast
qed

text \<open>
  A new table is empty. When the catalog refuses it, the page that was allocated for it in the data
  file stays unused.
\<close>

lemma CreateTable_table:
  assumes hold: "tables_hold tm P T" and av: "0 < bp_avail (tb_data_pool tm)" "0 < bp_avail (tb_catalog_pool tm)"
  obtains st P' tm' where "TableManager_CreateTable n sch tm = Some (st, tm')"
    "tables_hold tm' P' (if Status_ok st then T(n \<mapsto> (sch, Map.empty)) else T)"
    "Status_ok st \<Longrightarrow> T n = None" "bp_avail (tb_data_pool tm') = bp_avail (tb_data_pool tm) - 1"
    "bp_avail (tb_catalog_pool tm) - 1 \<le> bp_avail (tb_catalog_pool tm')"
    "hf_first_page_id (cat_heap (tb_catalog tm')) = hf_first_page_id (cat_heap (tb_catalog tm))"
    "cat_index_heap (tb_catalog tm') = cat_index_heap (tb_catalog tm)" "cat_indexes (tb_catalog tm') = cat_indexes (tb_catalog tm)"
    "TableManager.more tm' = TableManager.more tm"
    "\<not> Status_ok st \<Longrightarrow> T n \<noteq> None \<or> 4068 < length n + length (concat (map encode_column sch))"
proof -
  obtain ps qs where h: "cat_inv (tb_catalog tm) (tb_catalog_pool tm) ps qs" "pool.ready (tb_data_pool tm)"
    "tables_in (bp_view (tb_data_pool tm)) (tb_metadata tm) (map_of (tb_open_tables tm)) P T" using hold by (rule tables_holdD)
  obtain hf bp p where f: "HeapFile_new kInvalidPageId (tb_data_pool tm) = Some (hf, bp)"
    "pool_to (tb_data_pool tm) (bp_view bp) (bp_avail (tb_data_pool tm) - 1) bp" "heap_wf hf (bp_view bp) [p]" "hf_first_page_id hf = p"
    "bp_view (tb_data_pool tm) p = None" "heap_map (bp_view bp) [p] = (\<lambda>_. None)" "kept [] (bp_view (tb_data_pool tm)) (bp_view bp)"
    by (rule HeapFile_new_spec [OF h(2) av(1)])
  obtain r cm cbp ps' where c: "CatalogManager_CreateTable n sch p (tb_catalog tm) (tb_catalog_pool tm) = Some (r, cm, cbp)" "cat_inv cm cbp ps' qs"
    "pool_to (tb_catalog_pool tm) (bp_view cbp) (bp_avail cbp) cbp" "bp_avail (tb_catalog_pool tm) - 1 \<le> bp_avail cbp"
    "hf_first_page_id (cat_heap cm) = hf_first_page_id (cat_heap (tb_catalog tm))" "cat_index_heap cm = cat_index_heap (tb_catalog tm)" "cat_indexes cm = cat_indexes (tb_catalog tm)"
    and r: "case r of
       Inr m \<Rightarrow> (\<exists>rid. m = (fresh_table (tb_catalog tm) n sch p)\<lparr>tm_catalog_record_id := rid\<rparr>) \<and> tb_metadata tm n = None \<and>
         map_of (cat_tables cm) = (tb_metadata tm)(n \<mapsto> m)
     | Inl e \<Rightarrow> \<not> Status_ok e \<and> cat_tables cm = cat_tables (tb_catalog tm) \<and>
         (tb_metadata tm n \<noteq> None \<or> 4080 < length (EncodeTableMetadata (fresh_table (tb_catalog tm) n sch p)))"
    by (rule CreateTable_spec [OF h(1) av(2)]) (rule that; assumption)
  note v = pool_toD [OF f(2)]
  have T: "T n = None \<longleftrightarrow> tb_metadata tm n = None" using tables_inD(1) [OF h(3)] by (metis domIff)
  have grow: "tables_in (bp_view bp) (tb_metadata tm) (map_of (tb_open_tables tm)) P T" by (rule tables_in_grow [OF h(3) f(7)])
  let ?tm1 = "tm\<lparr>tb_data_pool := bp, tb_catalog := cm, tb_catalog_pool := cbp\<rparr>"
  show thesis
  proof (cases r)
    case (Inl e)
    have "\<not> Status_ok e" using r Inl by simp
    moreover have "TableManager_CreateTable n sch tm = Some (e, ?tm1)" using f(1,4) c(1) Inl by (simp add: TableManager_CreateTable_def HeapFile_FirstPageId_def)
    moreover have "tables_hold ?tm1 P T" using grow c(2) v(1) r Inl by (auto simp: tables_hold_def)
    ultimately show thesis using that [of e ?tm1 P] c(4-7) v(3) r T Inl by (simp add: length_EncodeTable fresh_table_def)
  next
    case (Inr m)
    let ?rm = "\<lparr>rm_heap_file = hf, rm_schema = sch\<rparr>"
    have m: "tm_first_page_id m = p" "tm_schema m = sch" using r Inr by (auto simp: fresh_table_def)
    have hf: "hf = \<lparr>hf_first_page_id = p, hf_last_insert_page_id = p\<rparr>" "p \<noteq> kInvalidPageId" using f(3,4) heap_first(1) [OF f(3)] by (cases hf; simp add: heap_wf_def)+
    have "table_pages (bp_view bp) m [p] Map.empty" "open_ok m [p] ?rm"
      using f(3,4,6) m hf(1) by (simp_all add: table_pages_def open_ok_def heap_wf_def row.decodes_def)
    from tables_in_add [OF grow _ this, of n] r Inr f(5) tables_mapped [OF h(3)]
    have "tables_in (bp_view bp) ((tb_metadata tm)(n \<mapsto> m)) ((map_of (tb_open_tables tm))(n \<mapsto> ?rm)) (P(n := [p])) (T(n \<mapsto> (sch, Map.empty)))"
      unfolding m(2) by fastforce
    then have "tables_hold (?tm1\<lparr>tb_open_tables := AList.update n ?rm (tb_open_tables tm)\<rparr>) (P(n := [p])) (T(n \<mapsto> (sch, Map.empty)))"
      using c(2) v(1) r Inr by (auto simp: tables_hold_def update_conv')
    moreover have "TableManager_CreateTable n sch tm = Some (Status_OK, ?tm1\<lparr>tb_open_tables := AList.update n ?rm (tb_open_tables tm)\<rparr>)"
      using f(1,4) c(1) Inr m hf by (simp add: TableManager_CreateTable_def HeapFile_FirstPageId_def TableManager_OpenAndCache_def HeapFile_new_def)
    ultimately show thesis using that [of Status_OK "?tm1\<lparr>tb_open_tables := AList.update n ?rm (tb_open_tables tm)\<rparr>" "P(n := [p])"] c(4-7) v(3) r T Inr by simp
  qed
qed

end
