(* ===== verification/Bplus_Node.thy ===== *)
theory Bplus_Node
  imports Heap_File
begin

text \<open>
  The layout of B+ tree nodes in pages (\<open>src/index/bplus_node.hpp\<close>): a header with the kind of
  node, the number of keys and the next leaf; leaves hold pairs of a key and a record id, inner
  nodes an array of keys and an array of children. The arrays are instances of the locale
  \<open>node_array\<close>, which has the facts about the shifting and copying loops.
\<close>

type_synonym Key = "64 word"

definition kNodeHeaderSize :: nat where "kNodeHeaderSize = 1 + 2 + 4"
definition kKeySize :: nat where "kKeySize = 8"
definition kRidSize :: nat where "kRidSize = 4 + 2"
definition kLeafEntrySize :: nat where "kLeafEntrySize = kKeySize + kRidSize"
definition kChildSize :: nat where "kChildSize = 4"

definition kLeafMaxKeys :: nat where
  "kLeafMaxKeys = (kPageSize - kNodeHeaderSize) div kLeafEntrySize"

definition kInternalMaxKeys :: nat where
  "kInternalMaxKeys = (kPageSize - kNodeHeaderSize - kChildSize) div (kKeySize + kChildSize)"

definition BPlusNode_IsLeaf :: "Page \<Rightarrow> bool" where
  "BPlusNode_IsLeaf p \<longleftrightarrow> (read_at 0 p :: byte) \<noteq> 0"

definition BPlusNode_KeyCount :: "Page \<Rightarrow> u16" where
  "BPlusNode_KeyCount p = read_at 1 p"

definition BPlusNode_SetKeyCount :: "u16 \<Rightarrow> Page \<Rightarrow> Page" where
  "BPlusNode_SetKeyCount n p = write_at 1 n p"

definition BPlusNode_NextLeafId :: "Page \<Rightarrow> page_id_t" where
  "BPlusNode_NextLeafId p = read_at 3 p"

definition BPlusNode_SetNextLeafId :: "page_id_t \<Rightarrow> Page \<Rightarrow> Page" where
  "BPlusNode_SetNextLeafId i p = write_at 3 i p"

definition BPlusNode_InitLeaf :: "page_id_t \<Rightarrow> Page \<Rightarrow> Page" where
  "BPlusNode_InitLeaf next_leaf_id p =
     BPlusNode_SetNextLeafId next_leaf_id (BPlusNode_SetKeyCount 0 (write_at 0 (1 :: byte) p))"

definition BPlusNode_InitInternal :: "Page \<Rightarrow> Page" where
  "BPlusNode_InitInternal p =
     BPlusNode_SetNextLeafId kInvalidPageId (BPlusNode_SetKeyCount 0 (write_at 0 (0 :: byte) p))"

definition LeafEntryPtr :: "nat \<Rightarrow> nat" where
  "LeafEntryPtr i = kNodeHeaderSize + i * kLeafEntrySize"

definition InternalKeyPtr :: "nat \<Rightarrow> nat" where
  "InternalKeyPtr i = kNodeHeaderSize + i * kKeySize"

definition InternalChildPtr :: "nat \<Rightarrow> nat" where
  "InternalChildPtr i = kNodeHeaderSize + kInternalMaxKeys * kKeySize + i * kChildSize"

definition BPlusNode_LeafKeyAt :: "Page \<Rightarrow> nat \<Rightarrow> Key" where
  "BPlusNode_LeafKeyAt p i = read_at (LeafEntryPtr i) p"

definition BPlusNode_LeafRidAt :: "Page \<Rightarrow> nat \<Rightarrow> RecordId" where
  "BPlusNode_LeafRidAt p i =
     \<lparr>rid_page_id = read_at (LeafEntryPtr i + kKeySize) p,
      rid_slot_id = read_at (LeafEntryPtr i + kKeySize + 4) p\<rparr>"

definition BPlusNode_SetLeafEntry :: "nat \<Rightarrow> Key \<times> RecordId \<Rightarrow> Page \<Rightarrow> Page" where
  "BPlusNode_SetLeafEntry i e p =
     write_at (LeafEntryPtr i + kKeySize + 4) (rid_slot_id (snd e))
       (write_at (LeafEntryPtr i + kKeySize) (rid_page_id (snd e))
         (write_at (LeafEntryPtr i) (fst e) p))"

definition BPlusNode_InsertLeafEntryAt :: "nat \<Rightarrow> Key \<Rightarrow> RecordId \<Rightarrow> Page \<Rightarrow> Page" where
  "BPlusNode_InsertLeafEntryAt i key rid p =
     (let n = BPlusNode_KeyCount p;
          p1 = fold (\<lambda>j p. BPlusNode_SetLeafEntry j (BPlusNode_LeafKeyAt p (j - 1), BPlusNode_LeafRidAt p (j - 1)) p)
                 (rev [i + 1..<unat n + 1]) p
      in BPlusNode_SetKeyCount (n + 1) (BPlusNode_SetLeafEntry i (key, rid) p1))"

definition BPlusNode_RemoveLeafEntryAt :: "nat \<Rightarrow> Page \<Rightarrow> Page" where
  "BPlusNode_RemoveLeafEntryAt i p =
     (let n = BPlusNode_KeyCount p;
          p1 = fold (\<lambda>j p. BPlusNode_SetLeafEntry j (BPlusNode_LeafKeyAt p (j + 1), BPlusNode_LeafRidAt p (j + 1)) p)
                 [i..<unat n - 1] p
      in BPlusNode_SetKeyCount (n - 1) p1)"

definition BPlusNode_InternalKeyAt :: "Page \<Rightarrow> nat \<Rightarrow> Key" where
  "BPlusNode_InternalKeyAt p i = read_at (InternalKeyPtr i) p"

definition BPlusNode_SetInternalKeyAt :: "nat \<Rightarrow> Key \<Rightarrow> Page \<Rightarrow> Page" where
  "BPlusNode_SetInternalKeyAt i key p = write_at (InternalKeyPtr i) key p"

definition BPlusNode_InternalChildAt :: "Page \<Rightarrow> nat \<Rightarrow> page_id_t" where
  "BPlusNode_InternalChildAt p i = read_at (InternalChildPtr i) p"

definition BPlusNode_SetInternalChildAt :: "nat \<Rightarrow> page_id_t \<Rightarrow> Page \<Rightarrow> Page" where
  "BPlusNode_SetInternalChildAt i child p = write_at (InternalChildPtr i) child p"

definition BPlusNode_InsertInternalKeyChildAt :: "nat \<Rightarrow> Key \<Rightarrow> page_id_t \<Rightarrow> Page \<Rightarrow> Page" where
  "BPlusNode_InsertInternalKeyChildAt key_i key right_child p =
     (let n = BPlusNode_KeyCount p;
          p1 = fold (\<lambda>j p. BPlusNode_SetInternalKeyAt j (BPlusNode_InternalKeyAt p (j - 1)) p)
                 (rev [key_i + 1..<unat n + 1]) p;
          p2 = BPlusNode_SetInternalKeyAt key_i key p1;
          p3 = fold (\<lambda>j p. BPlusNode_SetInternalChildAt j (BPlusNode_InternalChildAt p (j - 1)) p)
                 (rev [key_i + 2..<unat n + 2]) p2;
          p4 = BPlusNode_SetInternalChildAt (key_i + 1) right_child p3
      in BPlusNode_SetKeyCount (n + 1) p4)"

section \<open>Arrays in pages\<close>

text \<open>
  \<open>get p i\<close> and \<open>put i x p\<close> read and write an entry of an array of \<open>size\<close> entries; \<open>rest\<close> is what writes
  to the array leave unchanged.
\<close>

locale node_array =
  fixes get :: "'p \<Rightarrow> nat \<Rightarrow> 'a"
    and put :: "nat \<Rightarrow> 'a \<Rightarrow> 'p \<Rightarrow> 'p"
    and size :: nat
    and ok :: "'p \<Rightarrow> bool"
    and rest :: "'p \<Rightarrow> 'r"
  assumes ok_put: "ok p \<Longrightarrow> ok (put i x p)"
    and get_put: "ok p \<Longrightarrow> i < size \<Longrightarrow> j < size \<Longrightarrow> get (put i x p) j = (if i = j then x else get p j)"
    and rest_put: "ok p \<Longrightarrow> i < size \<Longrightarrow> rest (put i x p) = rest p"
begin

lemma shift_up:
  assumes "ok p" and "n < size" and "m \<le> n - i" and "i \<le> n"
  shows "ok (fold (\<lambda>j p. put j (get p (j - 1)) p) (rev [n + 1 - m..<n + 1]) p) \<and>
    rest (fold (\<lambda>j p. put j (get p (j - 1)) p) (rev [n + 1 - m..<n + 1]) p) = rest p \<and>
    (\<forall>j < size. get (fold (\<lambda>j p. put j (get p (j - 1)) p) (rev [n + 1 - m..<n + 1]) p) j =
       (if n - m < j \<and> j \<le> n then get p (j - 1) else get p j))"
  using assms(3)
proof (induction m)
  case 0
  then show ?case using assms(1) by auto
next
  case (Suc m)
  let ?f = "\<lambda>j p. put j (get p (j - 1)) p"
  let ?q = "fold ?f (rev [n + 1 - m..<n + 1]) p"
  have "[n + 1 - Suc m..<n + 1] = (n + 1 - Suc m) # [n + 1 - m..<n + 1]"
    using Suc.prems assms(4) by (subst upt_conv_Cons) (auto simp: Suc_diff_le)
  then have f: "fold ?f (rev [n + 1 - Suc m..<n + 1]) p = put (n - m) (get ?q (n - m - 1)) ?q"
    by simp
  have q: "ok ?q" "rest ?q = rest p" "\<And>j. j < size \<Longrightarrow> get ?q j = (if n - m < j \<and> j \<le> n then get p (j - 1) else get p j)"
    using Suc.IH Suc.prems by (simp_all add: Suc_leD)
  have nm: "n - m < size" "0 < n - m" "n - Suc m < n - m" using assms(2,4) Suc.prems by linarith+
  have "get (put (n - m) (get ?q (n - m - 1)) ?q) j = (if n - Suc m < j \<and> j \<le> n then get p (j - 1) else get p j)"
    if "j < size" for j
  proof (cases "j = n - m")
    case True
    then show ?thesis using q nm by (simp add: get_put)
  next
    case False
    then have "n - Suc m < j \<longleftrightarrow> n - m < j" using nm by linarith
    with False show ?thesis using q nm that by (simp add: get_put)
  qed
  then show ?case unfolding f using q nm by (simp add: ok_put rest_put)
qed

lemma insert_entry:
  fixes x :: 'a
  assumes "ok p" and "n < size" and "i \<le> n"
  defines "p' \<equiv> put i x (fold (\<lambda>j p. put j (get p (j - 1)) p) (rev [i + 1..<n + 1]) p)"
  shows "ok p'" and "rest p' = rest p"
    and "map (get p') [0..<n + 1] = take i (map (get p) [0..<n]) @ x # drop i (map (get p) [0..<n])"
proof -
  have "n + 1 - (n - i) = i + 1" "n - (n - i) = i" using assms(3) by simp_all
  with shift_up [OF assms(1,2) order.refl assms(3)] have s:
    "ok (fold (\<lambda>j p. put j (get p (j - 1)) p) (rev [i + 1..<n + 1]) p)"
    "rest (fold (\<lambda>j p. put j (get p (j - 1)) p) (rev [i + 1..<n + 1]) p) = rest p"
    "\<forall>j < size. get (fold (\<lambda>j p. put j (get p (j - 1)) p) (rev [i + 1..<n + 1]) p) j =
       (if i < j \<and> j \<le> n then get p (j - 1) else get p j)" by simp_all
  then show "ok p'" "rest p' = rest p" using assms(2,3) by (simp_all add: p'_def ok_put rest_put)
  show "map (get p') [0..<n + 1] = take i (map (get p) [0..<n]) @ x # drop i (map (get p) [0..<n])"
  proof (rule nth_equalityI)
    fix j assume "j < length (map (get p') [0..<n + 1])"
    then have j: "j < n + 1" by simp
    have "get p' j = (if j = i then x else if i < j then get p (j - 1) else get p j)"
      using s j assms(2,3) by (simp add: p'_def get_put)
    then show "map (get p') [0..<n + 1] ! j = (take i (map (get p) [0..<n]) @ x # drop i (map (get p) [0..<n])) ! j"
      using j assms(3) by (auto simp: nth_append nth_Cons' min_def simp del: upt_Suc)
  qed (use assms(3) in simp)
qed

lemma shift_down:
  assumes "ok p" and "n < size" and "i + m \<le> n"
  shows "ok (fold (\<lambda>j p. put j (get p (j + 1)) p) [i..<i + m] p) \<and>
    rest (fold (\<lambda>j p. put j (get p (j + 1)) p) [i..<i + m] p) = rest p \<and>
    (\<forall>j < size. get (fold (\<lambda>j p. put j (get p (j + 1)) p) [i..<i + m] p) j =
       (if i \<le> j \<and> j < i + m then get p (j + 1) else get p j))"
  using assms(3) by (induction m) (use assms(1,2) in \<open>auto simp: ok_put get_put rest_put\<close>)

lemma remove_entry:
  assumes "ok p" and "n < size" and "i \<le> n"
  defines "p' \<equiv> fold (\<lambda>j p. put j (get p (j + 1)) p) [i..<n] p"
  shows "ok p'" and "rest p' = rest p"
    and "map (get p') [0..<n] = take i (map (get p) [0..<n + 1]) @ drop (i + 1) (map (get p) [0..<n + 1])"
proof -
  have s: "ok p'" "rest p' = rest p" "\<forall>j < size. get p' j = (if i \<le> j \<and> j < n then get p (j + 1) else get p j)"
    using shift_down [OF assms(1,2), of i "n - i"] assms(3) by (simp_all add: p'_def)
  then show "ok p'" "rest p' = rest p" by simp_all
  show "map (get p') [0..<n] = take i (map (get p) [0..<n + 1]) @ drop (i + 1) (map (get p) [0..<n + 1])"
    by (rule nth_equalityI) (use s assms(2,3) in \<open>auto simp: nth_append min_def simp del: upt_Suc\<close>)
qed

lemma copy_entries:
  fixes f :: "nat \<Rightarrow> 'a"
  assumes "ok p" and "n \<le> size"
  defines "p' \<equiv> fold (\<lambda>j p. put j (f j) p) [0..<n] p"
  shows "ok p'" and "rest p' = rest p" and "map (get p') [0..<n] = map f [0..<n]"
proof -
  have "ok (fold (\<lambda>j p. put j (f j) p) [0..<m] p) \<and> rest (fold (\<lambda>j p. put j (f j) p) [0..<m] p) = rest p \<and>
     (\<forall>j < m. get (fold (\<lambda>j p. put j (f j) p) [0..<m] p) j = f j)" if "m \<le> n" for m
    using that by (induction m) (use assms(1,2) in \<open>auto simp: ok_put get_put rest_put less_Suc_eq\<close>)
  from this [of n] show "ok p'" "rest p' = rest p" "map (get p') [0..<n] = map f [0..<n]"
    by (simp_all add: p'_def)
qed

end

section \<open>Nodes\<close>

lemmas node_sizes = kNodeHeaderSize_def kKeySize_def kRidSize_def kLeafEntrySize_def kChildSize_def

lemma kLeafMaxKeys_value: "kLeafMaxKeys = 292"
  by (simp add: kLeafMaxKeys_def kPageSize_def node_sizes)

lemma kInternalMaxKeys_value: "kInternalMaxKeys = 340"
  by (simp add: kInternalMaxKeys_def kPageSize_def node_sizes)

lemmas node_offsets = LeafEntryPtr_def InternalKeyPtr_def InternalChildPtr_def node_sizes
lemmas node_layout = node_offsets kInternalMaxKeys_value kPageSize_def

lemmas header_defs =
  BPlusNode_IsLeaf_def BPlusNode_KeyCount_def BPlusNode_SetKeyCount_def BPlusNode_NextLeafId_def BPlusNode_SetNextLeafId_def

definition node_ok :: "Page \<Rightarrow> bool" where
  "node_ok p \<longleftrightarrow> length p = kPageSize"

lemma read_write_byte [layout]: "off + 1 \<le> length buf \<Longrightarrow> read_at off (write_at off (w :: byte) buf) = w"
  using ReadFixed_WriteFixed [of w "[]"] by (simp add: read_at_def write_at_def peek_poke_same)

definition node_header :: "Page \<Rightarrow> bool \<times> u16 \<times> page_id_t" where
  "node_header p = (BPlusNode_IsLeaf p, BPlusNode_KeyCount p, BPlusNode_NextLeafId p)"

abbreviation leaf_entry :: "Page \<Rightarrow> nat \<Rightarrow> Key \<times> RecordId" where
  "leaf_entry p i \<equiv> (BPlusNode_LeafKeyAt p i, BPlusNode_LeafRidAt p i)"

interpretation entries: node_array leaf_entry BPlusNode_SetLeafEntry kLeafMaxKeys node_ok node_header
proof
  fix p i x assume ok: "node_ok p"
  then show "node_ok (BPlusNode_SetLeafEntry i x p)" by (simp add: node_ok_def BPlusNode_SetLeafEntry_def)
  show "node_header (BPlusNode_SetLeafEntry i x p) = node_header p" if "i < kLeafMaxKeys"
    by (simp add: node_header_def header_defs BPlusNode_SetLeafEntry_def layout node_layout)
  show "leaf_entry (BPlusNode_SetLeafEntry i x p) j = (if i = j then x else leaf_entry p j)"
    if "i < kLeafMaxKeys" "j < kLeafMaxKeys" for j
  proof (cases "i = j")
    case True
    with that ok show ?thesis
      by (cases x)
        (simp add: BPlusNode_LeafKeyAt_def BPlusNode_LeafRidAt_def BPlusNode_SetLeafEntry_def layout node_layout node_ok_def
          kLeafMaxKeys_value)
  next
    case False
    then have "LeafEntryPtr i + 14 \<le> LeafEntryPtr j \<or> LeafEntryPtr j + 14 \<le> LeafEntryPtr i"
      by (auto simp: node_layout)
    with False show ?thesis
      by (auto simp: BPlusNode_LeafKeyAt_def BPlusNode_LeafRidAt_def BPlusNode_SetLeafEntry_def layout node_sizes)
  qed
qed

text \<open>The two arrays of an inner node do not overlap.\<close>

definition keys_rest :: "Page \<Rightarrow> (bool \<times> u16 \<times> page_id_t) \<times> page_id_t list" where
  "keys_rest p = (node_header p, map (BPlusNode_InternalChildAt p) [0..<kInternalMaxKeys + 1])"

definition children_rest :: "Page \<Rightarrow> (bool \<times> u16 \<times> page_id_t) \<times> Key list" where
  "children_rest p = (node_header p, map (BPlusNode_InternalKeyAt p) [0..<kInternalMaxKeys])"

interpretation keys: node_array BPlusNode_InternalKeyAt BPlusNode_SetInternalKeyAt kInternalMaxKeys node_ok keys_rest
proof
  fix p i x assume ok: "node_ok p"
  then show "node_ok (BPlusNode_SetInternalKeyAt i x p)" by (simp add: node_ok_def BPlusNode_SetInternalKeyAt_def)
  show "keys_rest (BPlusNode_SetInternalKeyAt i x p) = keys_rest p" if "i < kInternalMaxKeys"
    using that
    by (simp add: keys_rest_def node_header_def header_defs BPlusNode_InternalChildAt_def BPlusNode_SetInternalKeyAt_def layout
        node_offsets del: upt_Suc)
  show "BPlusNode_InternalKeyAt (BPlusNode_SetInternalKeyAt i x p) j = (if i = j then x else BPlusNode_InternalKeyAt p j)"
    if "i < kInternalMaxKeys" "j < kInternalMaxKeys" for j
  proof (cases "i = j")
    case True
    with that ok show ?thesis
      by (simp add: BPlusNode_InternalKeyAt_def BPlusNode_SetInternalKeyAt_def layout node_layout node_ok_def)
  next
    case False
    then have "InternalKeyPtr i + 8 \<le> InternalKeyPtr j \<or> InternalKeyPtr j + 8 \<le> InternalKeyPtr i"
      by (auto simp: node_layout)
    with False show ?thesis by (auto simp: BPlusNode_InternalKeyAt_def BPlusNode_SetInternalKeyAt_def layout)
  qed
qed

interpretation children: node_array BPlusNode_InternalChildAt BPlusNode_SetInternalChildAt "kInternalMaxKeys + 1" node_ok children_rest
proof
  fix p i x assume ok: "node_ok p"
  then show "node_ok (BPlusNode_SetInternalChildAt i x p)" by (simp add: node_ok_def BPlusNode_SetInternalChildAt_def)
  show "children_rest (BPlusNode_SetInternalChildAt i x p) = children_rest p" if "i < kInternalMaxKeys + 1"
    by (simp add: children_rest_def node_header_def header_defs BPlusNode_InternalKeyAt_def BPlusNode_SetInternalChildAt_def layout
        node_offsets)
  show "BPlusNode_InternalChildAt (BPlusNode_SetInternalChildAt i x p) j = (if i = j then x else BPlusNode_InternalChildAt p j)"
    if "i < kInternalMaxKeys + 1" "j < kInternalMaxKeys + 1" for j
  proof (cases "i = j")
    case True
    with that ok show ?thesis
      by (simp add: BPlusNode_InternalChildAt_def BPlusNode_SetInternalChildAt_def layout node_layout node_ok_def)
  next
    case False
    then have "InternalChildPtr i + 4 \<le> InternalChildPtr j \<or> InternalChildPtr j + 4 \<le> InternalChildPtr i"
      by (auto simp: node_layout)
    with False show ?thesis by (auto simp: BPlusNode_InternalChildAt_def BPlusNode_SetInternalChildAt_def layout)
  qed
qed

section \<open>Contents of nodes\<close>

definition leaf_entries :: "Page \<Rightarrow> (Key \<times> RecordId) list" where
  "leaf_entries p = map (leaf_entry p) [0..<unat (BPlusNode_KeyCount p)]"

definition node_keys :: "Page \<Rightarrow> Key list" where
  "node_keys p = map (BPlusNode_InternalKeyAt p) [0..<unat (BPlusNode_KeyCount p)]"

definition node_children :: "Page \<Rightarrow> page_id_t list" where
  "node_children p = map (BPlusNode_InternalChildAt p) [0..<unat (BPlusNode_KeyCount p) + 1]"

definition leaf_page :: "Page \<Rightarrow> (Key \<times> RecordId) list \<Rightarrow> page_id_t \<Rightarrow> bool" where
  "leaf_page p es nxt \<longleftrightarrow> node_ok p \<and> BPlusNode_IsLeaf p \<and> leaf_entries p = es \<and> BPlusNode_NextLeafId p = nxt \<and>
     length es \<le> kLeafMaxKeys"

definition inner_page :: "Page \<Rightarrow> Key list \<Rightarrow> page_id_t list \<Rightarrow> bool" where
  "inner_page p ks cs \<longleftrightarrow> node_ok p \<and> \<not> BPlusNode_IsLeaf p \<and> node_keys p = ks \<and> node_children p = cs \<and>
     length ks \<le> kInternalMaxKeys"

lemma leaf_pageD:
  assumes "leaf_page p es nxt"
  shows "node_ok p" "BPlusNode_IsLeaf p" "unat (BPlusNode_KeyCount p) = length es" "BPlusNode_NextLeafId p = nxt"
    "BPlusNode_KeyCount p = word_of_nat (length es)" "i < length es \<Longrightarrow> leaf_entry p i = es ! i"
    "i < length es \<Longrightarrow> BPlusNode_LeafKeyAt p i = fst (es ! i)" "i < length es \<Longrightarrow> BPlusNode_LeafRidAt p i = snd (es ! i)"
proof -
  have e: "es = map (leaf_entry p) [0..<unat (BPlusNode_KeyCount p)]" using assms by (simp add: leaf_page_def leaf_entries_def)
  then have l: "length es = unat (BPlusNode_KeyCount p)" by simp
  with e have "es ! i = leaf_entry p i" if "i < length es" for i using that by simp
  then show "i < length es \<Longrightarrow> leaf_entry p i = es ! i" "i < length es \<Longrightarrow> BPlusNode_LeafKeyAt p i = fst (es ! i)"
    "i < length es \<Longrightarrow> BPlusNode_LeafRidAt p i = snd (es ! i)" by simp_all
qed (use assms in \<open>auto simp: leaf_page_def leaf_entries_def\<close>)

lemma inner_pageD:
  assumes "inner_page p ks cs"
  shows "node_ok p" "\<not> BPlusNode_IsLeaf p" "unat (BPlusNode_KeyCount p) = length ks" "length cs = length ks + 1"
    "BPlusNode_KeyCount p = word_of_nat (length ks)" "i < length ks \<Longrightarrow> BPlusNode_InternalKeyAt p i = ks ! i"
    "i \<le> length ks \<Longrightarrow> BPlusNode_InternalChildAt p i = cs ! i"
proof -
  have e: "ks = map (BPlusNode_InternalKeyAt p) [0..<unat (BPlusNode_KeyCount p)]"
    "cs = map (BPlusNode_InternalChildAt p) [0..<unat (BPlusNode_KeyCount p) + 1]"
    using assms by (simp_all add: inner_page_def node_keys_def node_children_def)
  then have l: "length ks = unat (BPlusNode_KeyCount p)" "length cs = unat (BPlusNode_KeyCount p) + 1" by simp_all
  then show "unat (BPlusNode_KeyCount p) = length ks" "length cs = length ks + 1" by simp_all
  show "BPlusNode_KeyCount p = word_of_nat (length ks)" using l by simp
  show "i < length ks \<Longrightarrow> BPlusNode_InternalKeyAt p i = ks ! i" using e(1) l by simp
  show "i \<le> length ks \<Longrightarrow> BPlusNode_InternalChildAt p i = cs ! i"
    using e(2) l by (metis add.left_neutral length_map le_imp_less_Suc nth_map nth_upt Suc_eq_plus1 length_upt diff_zero)
qed (use assms in \<open>auto simp: inner_page_def\<close>)

text \<open>Writes to the header keep the arrays.\<close>

lemma header_writes:
  assumes "node_ok p"
  shows "node_ok (BPlusNode_SetKeyCount n p)" "node_ok (BPlusNode_SetNextLeafId i p)"
    "BPlusNode_KeyCount (BPlusNode_SetKeyCount n p) = n" "BPlusNode_NextLeafId (BPlusNode_SetKeyCount n p) = BPlusNode_NextLeafId p"
    "BPlusNode_IsLeaf (BPlusNode_SetKeyCount n p) = BPlusNode_IsLeaf p"
    "BPlusNode_KeyCount (BPlusNode_SetNextLeafId i p) = BPlusNode_KeyCount p" "BPlusNode_NextLeafId (BPlusNode_SetNextLeafId i p) = i"
    "BPlusNode_IsLeaf (BPlusNode_SetNextLeafId i p) = BPlusNode_IsLeaf p"
  using assms by (simp_all add: node_ok_def header_defs layout kPageSize_def)

lemma array_header_writes:
  "leaf_entry (BPlusNode_SetKeyCount n p) j = leaf_entry p j"
  "leaf_entry (BPlusNode_SetNextLeafId i p) j = leaf_entry p j"
  "BPlusNode_InternalKeyAt (BPlusNode_SetKeyCount n p) = BPlusNode_InternalKeyAt p"
  "BPlusNode_InternalChildAt (BPlusNode_SetKeyCount n p) = BPlusNode_InternalChildAt p"
  by (simp_all add: fun_eq_iff BPlusNode_LeafKeyAt_def BPlusNode_LeafRidAt_def BPlusNode_InternalKeyAt_def BPlusNode_InternalChildAt_def
      header_defs layout node_layout)

lemma leaf_pageI:
  assumes "node_ok p" "BPlusNode_IsLeaf p" "map (leaf_entry p) [0..<n] = es" "BPlusNode_NextLeafId p = nxt"
    "n \<le> kLeafMaxKeys"
  shows "leaf_page (BPlusNode_SetKeyCount (word_of_nat n) p) es nxt"
proof -
  have "unat (word_of_nat n :: u16) = n" using assms(5) by (intro unat_word_of_nat_u16) (simp add: kLeafMaxKeys_value)
  moreover have "length es \<le> kLeafMaxKeys" using assms(3,5) by auto
  ultimately show ?thesis
    using assms by (simp add: leaf_page_def leaf_entries_def header_writes array_header_writes)
qed

lemma inner_pageI:
  assumes "node_ok p" "\<not> BPlusNode_IsLeaf p" "map (BPlusNode_InternalKeyAt p) [0..<n] = ks"
    "map (BPlusNode_InternalChildAt p) [0..<n + 1] = cs" "n \<le> kInternalMaxKeys"
  shows "inner_page (BPlusNode_SetKeyCount (word_of_nat n) p) ks cs"
proof -
  have "unat (word_of_nat n :: u16) = n" using assms(5) by (intro unat_word_of_nat_u16) (simp add: kInternalMaxKeys_value)
  moreover have "length ks \<le> kInternalMaxKeys" using assms(3,5) by auto
  ultimately show ?thesis
    using assms by (simp add: inner_page_def node_keys_def node_children_def header_writes array_header_writes del: upt_Suc)
qed

section \<open>Operations on nodes\<close>

lemma InitLeaf_page: "node_ok p \<Longrightarrow> leaf_page (BPlusNode_InitLeaf nxt p) [] nxt"
  by (simp add: leaf_page_def leaf_entries_def BPlusNode_InitLeaf_def node_ok_def header_defs layout kPageSize_def)

lemma InitInternal_page:
  assumes "node_ok p"
  shows "inner_page (BPlusNode_SetInternalChildAt 0 c (BPlusNode_InitInternal p)) [] [c]"
proof -
  let ?p = "BPlusNode_InitInternal p"
  have i: "node_ok ?p" "\<not> BPlusNode_IsLeaf ?p" "BPlusNode_KeyCount ?p = 0"
    using assms by (simp_all add: BPlusNode_InitInternal_def node_ok_def header_defs layout kPageSize_def)
  have "node_header (BPlusNode_SetInternalChildAt 0 c ?p) = node_header ?p"
    using children.rest_put [OF i(1), of 0 c] by (simp add: children_rest_def kInternalMaxKeys_value del: upt_Suc)
  then show ?thesis
    using i children.ok_put [OF i(1)] children.get_put [OF i(1), of 0 0 c]
    by (simp add: inner_page_def node_keys_def node_children_def node_header_def kInternalMaxKeys_value)
qed

lemma InsertLeafEntryAt_page:
  assumes "leaf_page p es nxt" and "i \<le> length es" and "length es < kLeafMaxKeys"
  shows "leaf_page (BPlusNode_InsertLeafEntryAt i key rid p) (take i es @ (key, rid) # drop i es) nxt"
proof -
  note p = leaf_pageD [OF assms(1)]
  let ?q = "BPlusNode_SetLeafEntry i (key, rid)
    (fold (\<lambda>j p. BPlusNode_SetLeafEntry j (leaf_entry p (j - 1)) p) (rev [i + 1..<length es + 1]) p)"
  note q = entries.insert_entry [OF p(1) assms(3,2), of "(key, rid)"]
  have es: "map (leaf_entry p) [0..<length es] = es" using p(3) assms(1) by (simp add: leaf_page_def leaf_entries_def)
  have h: "BPlusNode_IsLeaf ?q" "BPlusNode_NextLeafId ?q = nxt" using q(2) p(2,4) by (simp_all add: node_header_def)
  have "leaf_page (BPlusNode_SetKeyCount (word_of_nat (length es + 1)) ?q) (take i es @ (key, rid) # drop i es) nxt"
    by (rule leaf_pageI [OF q(1) h(1) q(3) [unfolded es] h(2)]) (use assms(3) in simp)
  then show ?thesis using p(3,5) by (simp add: BPlusNode_InsertLeafEntryAt_def Let_def ac_simps del: upt_Suc)
qed

lemma RemoveLeafEntryAt_page:
  assumes "leaf_page p es nxt" and "i < length es"
  shows "leaf_page (BPlusNode_RemoveLeafEntryAt i p) (take i es @ drop (i + 1) es) nxt"
proof -
  note p = leaf_pageD [OF assms(1)]
  let ?n = "length es - 1"
  have n: "?n < kLeafMaxKeys" "i \<le> ?n" "?n + 1 = length es"
    using assms by (auto simp: leaf_page_def)
  let ?q = "fold (\<lambda>j p. BPlusNode_SetLeafEntry j (leaf_entry p (j + 1)) p) [i..<?n] p"
  note q = entries.remove_entry [OF p(1) n(1,2)]
  have es: "map (leaf_entry p) [0..<?n + 1] = es"
    using p(3) assms(1) unfolding n(3) by (simp add: leaf_page_def leaf_entries_def)
  have h: "BPlusNode_IsLeaf ?q" "BPlusNode_NextLeafId ?q = nxt" using q(2) p(2,4) by (simp_all add: node_header_def)
  have "leaf_page (BPlusNode_SetKeyCount (word_of_nat ?n) ?q) (take i es @ drop (i + 1) es) nxt"
    by (rule leaf_pageI [OF q(1) h(1) q(3) [unfolded es] h(2)]) (use n in simp)
  moreover have "BPlusNode_KeyCount p - 1 = word_of_nat ?n" using p(5) n(3) by (metis add_diff_cancel_right' of_nat_1 of_nat_add)
  ultimately show ?thesis using p(3) by (simp add: BPlusNode_RemoveLeafEntryAt_def Let_def)
qed

lemma truncate_leaf:
  assumes "leaf_page p es nxt" and "m \<le> length es"
  shows "leaf_page (BPlusNode_SetKeyCount (word_of_nat m) p) (take m es) nxt"
  using leaf_pageD [OF assms(1)] assms by (intro leaf_pageI) (auto simp: leaf_page_def intro!: nth_equalityI)

lemma SetNextLeafId_page: "leaf_page p es nxt \<Longrightarrow> leaf_page (BPlusNode_SetNextLeafId i p) es i"
  by (simp add: leaf_page_def leaf_entries_def header_writes array_header_writes)

lemma fill_leaf:
  assumes "leaf_page p es nxt" and "m \<le> kLeafMaxKeys"
  shows "leaf_page (BPlusNode_SetKeyCount (word_of_nat m) (fold (\<lambda>j p. BPlusNode_SetLeafEntry j (f j) p) [0..<m] p)) (map f [0..<m]) nxt"
proof -
  note p = leaf_pageD [OF assms(1)]
  note q = entries.copy_entries [OF p(1) assms(2), of f]
  show ?thesis using q p assms(2) by (intro leaf_pageI) (simp_all add: node_header_def)
qed

lemma map_upt_prefix: "map f [0..<k] = map g [0..<k] \<Longrightarrow> m \<le> k \<Longrightarrow> map f [0..<m] = map g [0..<m]"
  by (auto simp: map_eq_conv)

text \<open>Writing one of the arrays of an inner node keeps the header and the other array.\<close>

lemma keys_restD:
  assumes "keys_rest q = keys_rest p"
  shows "node_header q = node_header p"
    and "m \<le> kInternalMaxKeys + 1 \<Longrightarrow> map (BPlusNode_InternalChildAt q) [0..<m] = map (BPlusNode_InternalChildAt p) [0..<m]"
  using assms map_upt_prefix unfolding keys_rest_def prod.inject by blast+

lemma children_restD:
  assumes "children_rest q = children_rest p"
  shows "node_header q = node_header p"
    and "m \<le> kInternalMaxKeys \<Longrightarrow> map (BPlusNode_InternalKeyAt q) [0..<m] = map (BPlusNode_InternalKeyAt p) [0..<m]"
  using assms map_upt_prefix unfolding children_rest_def prod.inject by blast+

lemma InsertInternalKeyChildAt_page:
  assumes "inner_page p ks cs" and "i \<le> length ks" and "length ks < kInternalMaxKeys"
  shows "inner_page (BPlusNode_InsertInternalKeyChildAt i key c p) (take i ks @ key # drop i ks)
    (take (i + 1) cs @ c # drop (i + 1) cs)"
proof -
  note p = inner_pageD [OF assms(1)]
  let ?n = "length ks"
  let ?q = "BPlusNode_SetInternalKeyAt i key
    (fold (\<lambda>j p. BPlusNode_SetInternalKeyAt j (BPlusNode_InternalKeyAt p (j - 1)) p) (rev [i + 1..<?n + 1]) p)"
  let ?r = "BPlusNode_SetInternalChildAt (i + 1) c
    (fold (\<lambda>j p. BPlusNode_SetInternalChildAt j (BPlusNode_InternalChildAt p (j - 1)) p) (rev [i + 1 + 1..<?n + 1 + 1]) ?q)"
  have ks: "map (BPlusNode_InternalKeyAt p) [0..<?n] = ks" and cs: "map (BPlusNode_InternalChildAt p) [0..<?n + 1] = cs"
    using p(3) assms(1) unfolding inner_page_def node_keys_def node_children_def by simp_all
  note q = keys.insert_entry [OF p(1) assms(3,2), of key]
  have n1: "?n + 1 < kInternalMaxKeys + 1" "i + 1 \<le> ?n + 1" using assms by simp_all
  note r = children.insert_entry [OF q(1) n1, of c]
  have cs': "map (BPlusNode_InternalChildAt ?q) [0..<?n + 1] = cs"
    by (rule trans [OF keys_restD(2) [OF q(2)] cs]) (use assms(3) in simp)
  have ks': "map (BPlusNode_InternalKeyAt ?r) [0..<?n + 1] = take i ks @ key # drop i ks"
    by (rule trans [OF children_restD(2) [OF r(2)] q(3) [unfolded ks]]) (use assms(3) in simp)
  have h: "\<not> BPlusNode_IsLeaf ?r"
    using keys_restD(1) [OF q(2)] children_restD(1) [OF r(2)] p(2) by (simp add: node_header_def)
  have "inner_page (BPlusNode_SetKeyCount (word_of_nat (?n + 1)) ?r) (take i ks @ key # drop i ks)
    (take (i + 1) cs @ c # drop (i + 1) cs)"
    by (rule inner_pageI [OF r(1) h ks' r(3) [unfolded cs']]) (use assms(3) in simp)
  then show ?thesis using p(3,5) by (simp add: BPlusNode_InsertInternalKeyChildAt_def Let_def ac_simps del: upt_Suc)
qed

lemma truncate_inner:
  assumes "inner_page p ks cs" and "m \<le> length ks"
  shows "inner_page (BPlusNode_SetKeyCount (word_of_nat m) p) (take m ks) (take (m + 1) cs)"
proof -
  note p = inner_pageD [OF assms(1)]
  have "map (BPlusNode_InternalKeyAt p) [0..<m] = take m ks"
    using p assms(2) by (intro nth_equalityI) simp_all
  moreover have "map (BPlusNode_InternalChildAt p) [0..<m + 1] = take (m + 1) cs"
    using p assms(2) by (intro nth_equalityI) (simp_all del: upt_Suc)
  ultimately show ?thesis using p(1,2) assms by (intro inner_pageI) (auto simp: inner_page_def)
qed

lemma fill_inner:
  assumes "node_ok p" "\<not> BPlusNode_IsLeaf p" and "m \<le> kInternalMaxKeys"
  shows "inner_page (BPlusNode_SetKeyCount (word_of_nat m)
      (fold (\<lambda>j p. BPlusNode_SetInternalChildAt j (g j) p) [0..<m + 1]
        (fold (\<lambda>j p. BPlusNode_SetInternalKeyAt j (f j) p) [0..<m] p))) (map f [0..<m]) (map g [0..<m + 1])"
proof -
  note q = keys.copy_entries [OF assms(1,3), of f]
  have m: "m + 1 \<le> kInternalMaxKeys + 1" using assms(3) by simp
  note r = children.copy_entries [OF q(1) m, of g]
  have "\<not> BPlusNode_IsLeaf (fold (\<lambda>j p. BPlusNode_SetInternalChildAt j (g j) p) [0..<m + 1]
        (fold (\<lambda>j p. BPlusNode_SetInternalKeyAt j (f j) p) [0..<m] p))"
    using keys_restD(1) [OF q(2)] children_restD(1) [OF r(2)] assms(2) by (simp add: node_header_def)
  then show ?thesis using r(1,3) children_restD(2) [OF r(2) assms(3)] q(3) assms(3) by (intro inner_pageI) simp_all
qed

lemma InitInternal_ok: "node_ok p \<Longrightarrow> node_ok (BPlusNode_InitInternal p) \<and> \<not> BPlusNode_IsLeaf (BPlusNode_InitInternal p)"
  by (simp add: BPlusNode_InitInternal_def node_ok_def header_defs layout kPageSize_def)

end
