(* ===== verification/Bplus_Tree.thy ===== *)
theory Bplus_Tree
  imports Bplus_Node
begin

text \<open>
  The B+ tree index (\<open>src/index/bplus_tree.cpp\<close>). A tree is the id of its meta page, which holds the
  page id of the root; the nodes are pages reached through the buffer pool. \<open>None\<close> stands for a call
  that does not return normally: it dereferences a null page pointer or walks a cyclic structure for
  ever. The theorems below show that neither happens on well-formed trees.
\<close>

text \<open>\<open>while (i < n && P(i)) ++i\<close>\<close>

function while_index :: "(nat \<Rightarrow> bool) \<Rightarrow> nat \<Rightarrow> nat \<Rightarrow> nat" where
  "while_index P n i = (if i < n \<and> P i then while_index P n (i + 1) else i)"
  by pat_completeness auto
termination
  by (relation "measure (\<lambda>(P, n, i). n - i)") auto

declare while_index.simps [simp del]

definition BPlusTree_new :: "page_id_t \<Rightarrow> BufferPool \<Rightarrow> (page_id_t \<times> BufferPool) option" where
  "BPlusTree_new meta_page_id bp =
     (if meta_page_id = kInvalidPageId
      then case BufferPool_NewPage bp of
          (None, _) \<Rightarrow> None
        | (Some (i, new_meta_id), bp1) \<Rightarrow>
            (case BufferPool_NewPage bp1 of
               (None, _) \<Rightarrow> None
             | (Some (j, new_root_id), bp2) \<Rightarrow>
                 let bp3 = BufferPool_put j (BPlusNode_InitLeaf kInvalidPageId (BufferPool_page j bp2)) bp2;
                     bp4 = unpin_page new_root_id True bp3;
                     bp5 = BufferPool_put i (write_at 0 new_root_id (BufferPool_page i bp4)) bp4
                 in Some (new_meta_id, unpin_page new_meta_id True bp5))
      else Some (meta_page_id, bp))"

definition BPlusTree_GetRootPageId :: "page_id_t \<Rightarrow> BufferPool \<Rightarrow> (page_id_t \<times> BufferPool) option" where
  "BPlusTree_GetRootPageId meta_page_id bp =
     (case BufferPool_FetchPage meta_page_id bp of
        (None, _) \<Rightarrow> None
      | (Some i, bp1) \<Rightarrow> Some (read_at 0 (BufferPool_page i bp1), unpin_page meta_page_id False bp1))"

definition BPlusTree_SetRootPageId :: "page_id_t \<Rightarrow> page_id_t \<Rightarrow> BufferPool \<Rightarrow> BufferPool option" where
  "BPlusTree_SetRootPageId meta_page_id new_root bp =
     (case BufferPool_FetchPage meta_page_id bp of
        (None, _) \<Rightarrow> None
      | (Some i, bp1) \<Rightarrow>
          Some (unpin_page meta_page_id True (BufferPool_put i (write_at 0 new_root (BufferPool_page i bp1)) bp1)))"

definition BPlusTree_FindChildIndex :: "Page \<Rightarrow> Key \<Rightarrow> nat" where
  "BPlusTree_FindChildIndex node key =
     while_index (\<lambda>i. sint (BPlusNode_InternalKeyAt node i) \<le> sint key) (unat (BPlusNode_KeyCount node)) 0"

partial_function (option) find_leaf_loop :: "Key \<Rightarrow> page_id_t \<Rightarrow> BufferPool \<Rightarrow> (page_id_t \<times> BufferPool) option" where
  [code]: "find_leaf_loop key current bp =
     (case BufferPool_FetchPage current bp of
        (None, _) \<Rightarrow> None
      | (Some i, bp1) \<Rightarrow>
          let view = BufferPool_page i bp1
          in if BPlusNode_IsLeaf view then Some (current, unpin_page current False bp1)
             else find_leaf_loop key (BPlusNode_InternalChildAt view (BPlusTree_FindChildIndex view key))
                    (unpin_page current False bp1))"

definition BPlusTree_FindLeafForKey :: "page_id_t \<Rightarrow> Key \<Rightarrow> BufferPool \<Rightarrow> (page_id_t \<times> BufferPool) option" where
  "BPlusTree_FindLeafForKey meta_page_id key bp =
     (case BPlusTree_GetRootPageId meta_page_id bp of
        None \<Rightarrow> None
      | Some (root, bp1) \<Rightarrow> find_leaf_loop key root bp1)"

section \<open>Splitting\<close>

text \<open>
  The position at which a leaf is split: the nearest boundary between different keys, searched in
  both directions from the middle.
\<close>

function split_point :: "(nat \<Rightarrow> Key) \<Rightarrow> nat \<Rightarrow> nat \<Rightarrow> nat \<Rightarrow> nat \<Rightarrow> nat" where
  "split_point key n mid left right =
     (if left > 1 \<or> right < n
      then if right < n \<and> key right \<noteq> key (right - 1) then right
           else if left > 1 \<and> key (left - 1) \<noteq> key (left - 2) then left - 1
           else split_point key n mid (if left > 1 then left - 1 else left) (if right < n then right + 1 else right)
      else mid)"
  by pat_completeness auto
termination
  by (relation "measure (\<lambda>(key, n, mid, left, right). left + (n - right))") auto

declare split_point.simps [simp del]

text \<open>The two branches of \<open>SplitChild\<close>: the new right node, the remaining left node, the separator.\<close>

definition split_leaf :: "Page \<Rightarrow> page_id_t \<Rightarrow> Page \<Rightarrow> Page \<times> Page \<times> Key" where
  "split_leaf child new_right_id new_right =
     (let new_right1 = BPlusNode_InitLeaf (BPlusNode_NextLeafId child) new_right;
          child1 = BPlusNode_SetNextLeafId new_right_id child;
          n = unat (BPlusNode_KeyCount child1);
          mid = split_point (BPlusNode_LeafKeyAt child1) n (n div 2) (n div 2) (n div 2);
          right_count = n - mid;
          new_right2 = fold (\<lambda>j p. BPlusNode_SetLeafEntry j
              (BPlusNode_LeafKeyAt child1 (mid + j), BPlusNode_LeafRidAt child1 (mid + j)) p) [0..<right_count] new_right1;
          new_right3 = BPlusNode_SetKeyCount (word_of_nat right_count) new_right2;
          child2 = BPlusNode_SetKeyCount (word_of_nat mid) child1
      in (new_right3, child2, BPlusNode_LeafKeyAt new_right3 0))"

definition split_internal :: "Page \<Rightarrow> Page \<Rightarrow> Page \<times> Page \<times> Key" where
  "split_internal child new_right =
     (let new_right1 = BPlusNode_InitInternal new_right;
          n = unat (BPlusNode_KeyCount child);
          mid = n div 2;
          separator = BPlusNode_InternalKeyAt child mid;
          right_count = n - mid - 1;
          new_right2 = fold (\<lambda>j p. BPlusNode_SetInternalKeyAt j (BPlusNode_InternalKeyAt child (mid + 1 + j)) p)
              [0..<right_count] new_right1;
          new_right3 = fold (\<lambda>j p. BPlusNode_SetInternalChildAt j (BPlusNode_InternalChildAt child (mid + 1 + j)) p)
              [0..<right_count + 1] new_right2;
          new_right4 = BPlusNode_SetKeyCount (word_of_nat right_count) new_right3
      in (new_right4, BPlusNode_SetKeyCount (word_of_nat mid) child, separator))"

definition BPlusTree_SplitChild :: "page_id_t \<Rightarrow> nat \<Rightarrow> BufferPool \<Rightarrow> (page_id_t \<times> BufferPool) option" where
  "BPlusTree_SplitChild parent_id child_index bp =
     (case BufferPool_FetchPage parent_id bp of
        (None, _) \<Rightarrow> None
      | (Some i, bp1) \<Rightarrow>
          let child_id = BPlusNode_InternalChildAt (BufferPool_page i bp1) child_index
          in case BufferPool_FetchPage child_id bp1 of
               (None, _) \<Rightarrow> None
             | (Some j, bp2) \<Rightarrow>
                 (case BufferPool_NewPage bp2 of
                    (None, _) \<Rightarrow> None
                  | (Some (k, new_right_id), bp3) \<Rightarrow>
                      let child = BufferPool_page j bp3;
                          (new_right', child', separator) =
                            (if BPlusNode_IsLeaf child then split_leaf child new_right_id (BufferPool_page k bp3)
                             else split_internal child (BufferPool_page k bp3));
                          bp4 = BufferPool_put j child' (BufferPool_put k new_right' bp3);
                          bp5 = BufferPool_put i
                            (BPlusNode_InsertInternalKeyChildAt child_index separator new_right_id (BufferPool_page i bp4)) bp4
                      in Some (new_right_id,
                               unpin_page parent_id True (unpin_page new_right_id True (unpin_page child_id True bp5)))))"

section \<open>Insertion\<close>

definition node_full :: "Page \<Rightarrow> bool" where
  "node_full p \<longleftrightarrow>
     (if BPlusNode_IsLeaf p then kLeafMaxKeys \<le> unat (BPlusNode_KeyCount p)
      else kInternalMaxKeys \<le> unat (BPlusNode_KeyCount p))"

text \<open>The child for a key, read again after a split.\<close>

definition child_for_key :: "page_id_t \<Rightarrow> Key \<Rightarrow> BufferPool \<Rightarrow> (page_id_t \<times> BufferPool) option" where
  "child_for_key node_id key bp =
     (case BufferPool_FetchPage node_id bp of
        (None, _) \<Rightarrow> None
      | (Some i, bp1) \<Rightarrow>
          let parent2 = BufferPool_page i bp1
          in Some (BPlusNode_InternalChildAt parent2 (BPlusTree_FindChildIndex parent2 key), unpin_page node_id False bp1))"

partial_function (option) BPlusTree_InsertNonFull ::
  "page_id_t \<Rightarrow> Key \<Rightarrow> RecordId \<Rightarrow> BufferPool \<Rightarrow> BufferPool option" where
  [code]: "BPlusTree_InsertNonFull node_id key rid bp =
     (case BufferPool_FetchPage node_id bp of
        (None, _) \<Rightarrow> None
      | (Some i, bp1) \<Rightarrow>
          let node = BufferPool_page i bp1
          in if BPlusNode_IsLeaf node
             then let n = unat (BPlusNode_KeyCount node);
                      pos = while_index (\<lambda>i. sint (BPlusNode_LeafKeyAt node i) < sint key) n 0
                  in Some (unpin_page node_id True
                       (BufferPool_put i (BPlusNode_InsertLeafEntryAt pos key rid node) bp1))
             else let idx = BPlusTree_FindChildIndex node key;
                      child_id = BPlusNode_InternalChildAt node idx;
                      bp2 = unpin_page node_id False bp1
                  in case BufferPool_FetchPage child_id bp2 of
                       (None, _) \<Rightarrow> None
                     | (Some j, bp3) \<Rightarrow>
                         let child_full = node_full (BufferPool_page j bp3);
                             bp4 = unpin_page child_id False bp3
                         in if child_full
                            then (case BPlusTree_SplitChild node_id idx bp4 of
                                    None \<Rightarrow> None
                                  | Some (_, bp5) \<Rightarrow>
                                      (case child_for_key node_id key bp5 of
                                         None \<Rightarrow> None
                                       | Some (child_id', bp6) \<Rightarrow> BPlusTree_InsertNonFull child_id' key rid bp6))
                            else BPlusTree_InsertNonFull child_id key rid bp4)"

definition BPlusTree_Insert :: "page_id_t \<Rightarrow> Key \<Rightarrow> RecordId \<Rightarrow> BufferPool \<Rightarrow> (Status \<times> BufferPool) option" where
  "BPlusTree_Insert meta_page_id key rid bp =
     (case BPlusTree_GetRootPageId meta_page_id bp of
        None \<Rightarrow> None
      | Some (root_id, bp1) \<Rightarrow>
          (case BufferPool_FetchPage root_id bp1 of
             (None, _) \<Rightarrow> None
           | (Some i, bp2) \<Rightarrow>
               let root_full = node_full (BufferPool_page i bp2);
                   bp3 = unpin_page root_id False bp2
               in if root_full
                  then (case BufferPool_NewPage bp3 of
                          (None, _) \<Rightarrow> None
                        | (Some (j, new_root_id), bp4) \<Rightarrow>
                            let bp5 = BufferPool_put j (BPlusNode_SetInternalChildAt 0 root_id
                                        (BPlusNode_InitInternal (BufferPool_page j bp4))) bp4
                            in case BPlusTree_SplitChild new_root_id 0 (unpin_page new_root_id True bp5) of
                                 None \<Rightarrow> None
                               | Some (_, bp6) \<Rightarrow>
                                   (case BPlusTree_SetRootPageId meta_page_id new_root_id bp6 of
                                      None \<Rightarrow> None
                                    | Some bp7 \<Rightarrow>
                                        map_option (Pair Status_OK) (BPlusTree_InsertNonFull new_root_id key rid bp7)))
                  else map_option (Pair Status_OK) (BPlusTree_InsertNonFull root_id key rid bp3)))"

section \<open>Deletion and search\<close>

text \<open>
  The loop of \<open>Delete\<close> over the entries of a leaf: the position of the entry to remove, or whether a
  larger key was seen.
\<close>

function delete_scan :: "Page \<Rightarrow> Key \<Rightarrow> RecordId \<Rightarrow> nat \<Rightarrow> nat \<Rightarrow> nat option \<times> bool" where
  "delete_scan leaf key rid n i =
     (if i < n
      then let k = BPlusNode_LeafKeyAt leaf i
           in if sint k > sint key then (None, True)
              else if k = key \<and> BPlusNode_LeafRidAt leaf i = rid then (Some i, False)
              else delete_scan leaf key rid n (i + 1)
      else (None, False))"
  by pat_completeness auto
termination
  by (relation "measure (\<lambda>(leaf, key, rid, n, i). n - i)") auto

partial_function (option) delete_loop :: "Key \<Rightarrow> RecordId \<Rightarrow> page_id_t \<Rightarrow> BufferPool \<Rightarrow> (Status \<times> BufferPool) option" where
  [code]: "delete_loop key rid leaf_id bp =
     (if leaf_id = kInvalidPageId
      then Some (Status_NotFound ''index entry not found for given key/RecordId'', bp)
      else case BufferPool_FetchPage leaf_id bp of
          (None, _) \<Rightarrow> None
        | (Some i, bp1) \<Rightarrow>
            let leaf = BufferPool_page i bp1
            in case delete_scan leaf key rid (unat (BPlusNode_KeyCount leaf)) 0 of
                 (Some pos, _) \<Rightarrow>
                   Some (Status_OK, unpin_page leaf_id True (BufferPool_put i (BPlusNode_RemoveLeafEntryAt pos leaf) bp1))
               | (None, exceeded) \<Rightarrow>
                   if exceeded
                   then Some (Status_NotFound ''index entry not found for given key/RecordId'', unpin_page leaf_id False bp1)
                   else delete_loop key rid (BPlusNode_NextLeafId leaf) (unpin_page leaf_id False bp1))"

definition BPlusTree_Delete :: "page_id_t \<Rightarrow> Key \<Rightarrow> RecordId \<Rightarrow> BufferPool \<Rightarrow> (Status \<times> BufferPool) option" where
  "BPlusTree_Delete meta_page_id key rid bp =
     (case BPlusTree_FindLeafForKey meta_page_id key bp of
        None \<Rightarrow> None
      | Some (leaf_id, bp1) \<Rightarrow> delete_loop key rid leaf_id bp1)"

function search_scan :: "Page \<Rightarrow> Key \<Rightarrow> nat \<Rightarrow> nat \<Rightarrow> RecordId list \<Rightarrow> RecordId list \<times> bool" where
  "search_scan leaf key n i results =
     (if i < n
      then let k = BPlusNode_LeafKeyAt leaf i
           in if k = key then search_scan leaf key n (i + 1) (results @ [BPlusNode_LeafRidAt leaf i])
              else if sint k > sint key then (results, True)
              else search_scan leaf key n (i + 1) results
      else (results, False))"
  by pat_completeness auto
termination
  by (relation "measure (\<lambda>(leaf, key, n, i, results). n - i)") auto

partial_function (option) search_loop ::
  "Key \<Rightarrow> bool \<Rightarrow> RecordId list \<Rightarrow> page_id_t \<Rightarrow> BufferPool \<Rightarrow> (RecordId list \<times> BufferPool) option" where
  [code]: "search_loop key first results leaf_id bp =
     (if leaf_id = kInvalidPageId then Some (results, bp)
      else case BufferPool_FetchPage leaf_id bp of
          (None, _) \<Rightarrow> None
        | (Some i, bp1) \<Rightarrow>
            let leaf = BufferPool_page i bp1;
                n = unat (BPlusNode_KeyCount leaf);
                start = (if first then while_index (\<lambda>i. sint (BPlusNode_LeafKeyAt leaf i) < sint key) n 0 else 0);
                (results', exceeded) = search_scan leaf key n start results;
                bp2 = unpin_page leaf_id False bp1
            in if exceeded then Some (results', bp2)
               else search_loop key False results' (BPlusNode_NextLeafId leaf) bp2)"

definition BPlusTree_SearchEqual :: "page_id_t \<Rightarrow> Key \<Rightarrow> BufferPool \<Rightarrow> (RecordId list Result \<times> BufferPool) option" where
  "BPlusTree_SearchEqual meta_page_id key bp =
     (case BPlusTree_FindLeafForKey meta_page_id key bp of
        None \<Rightarrow> None
      | Some (leaf_id, bp1) \<Rightarrow>
          map_option (\<lambda>(results, bp2). (Inr results, bp2)) (search_loop key True [] leaf_id bp1))"

text \<open>The leftmost leaf, where a range without a lower bound starts.\<close>

partial_function (option) first_leaf_loop :: "page_id_t \<Rightarrow> BufferPool \<Rightarrow> (page_id_t \<times> BufferPool) option" where
  [code]: "first_leaf_loop current bp =
     (case BufferPool_FetchPage current bp of
        (None, _) \<Rightarrow> None
      | (Some i, bp1) \<Rightarrow>
          let view = BufferPool_page i bp1
          in if BPlusNode_IsLeaf view then Some (current, unpin_page current False bp1)
             else first_leaf_loop (BPlusNode_InternalChildAt view 0) (unpin_page current False bp1))"

definition below_range :: "Key option \<Rightarrow> bool \<Rightarrow> Key \<Rightarrow> bool" where
  "below_range low low_inclusive k =
     (case low of None \<Rightarrow> False | Some l \<Rightarrow> sint k < sint l \<or> \<not> low_inclusive \<and> k = l)"

definition above_range :: "Key option \<Rightarrow> bool \<Rightarrow> Key \<Rightarrow> bool" where
  "above_range high high_inclusive k =
     (case high of None \<Rightarrow> False | Some h \<Rightarrow> sint k > sint h \<or> \<not> high_inclusive \<and> k = h)"

function range_scan ::
  "Page \<Rightarrow> Key option \<Rightarrow> bool \<Rightarrow> Key option \<Rightarrow> bool \<Rightarrow> nat \<Rightarrow> nat \<Rightarrow> (Key \<times> RecordId) list \<Rightarrow> (Key \<times> RecordId) list \<times> bool" where
  "range_scan leaf low low_inclusive high high_inclusive n i results =
     (if i < n
      then let k = BPlusNode_LeafKeyAt leaf i
           in if below_range low low_inclusive k
              then range_scan leaf low low_inclusive high high_inclusive n (i + 1) results
              else if above_range high high_inclusive k then (results, True)
              else range_scan leaf low low_inclusive high high_inclusive n (i + 1)
                     (results @ [(k, BPlusNode_LeafRidAt leaf i)])
      else (results, False))"
  by pat_completeness auto
termination
  by (relation "measure (\<lambda>(leaf, low, low_inclusive, high, high_inclusive, n, i, results). n - i)") auto

declare delete_scan.simps [simp del] search_scan.simps [simp del] range_scan.simps [simp del]

partial_function (option) range_loop ::
  "Key option \<Rightarrow> bool \<Rightarrow> Key option \<Rightarrow> bool \<Rightarrow> (Key \<times> RecordId) list \<Rightarrow> page_id_t \<Rightarrow> BufferPool \<Rightarrow>
     ((Key \<times> RecordId) list \<times> BufferPool) option" where
  [code]: "range_loop low low_inclusive high high_inclusive results leaf_id bp =
     (if leaf_id = kInvalidPageId then Some (results, bp)
      else case BufferPool_FetchPage leaf_id bp of
          (None, _) \<Rightarrow> None
        | (Some i, bp1) \<Rightarrow>
            let leaf = BufferPool_page i bp1;
                (results', stop) = range_scan leaf low low_inclusive high high_inclusive
                                     (unat (BPlusNode_KeyCount leaf)) 0 results;
                bp2 = unpin_page leaf_id False bp1
            in if stop then Some (results', bp2)
               else range_loop low low_inclusive high high_inclusive results' (BPlusNode_NextLeafId leaf) bp2)"

definition BPlusTree_RangeScan ::
  "page_id_t \<Rightarrow> Key option \<Rightarrow> bool \<Rightarrow> Key option \<Rightarrow> bool \<Rightarrow> BufferPool \<Rightarrow>
     ((Key \<times> RecordId) list Result \<times> BufferPool) option" where
  "BPlusTree_RangeScan meta_page_id low low_inclusive high high_inclusive bp =
     (case (case low of
              Some l \<Rightarrow> BPlusTree_FindLeafForKey meta_page_id l bp
            | None \<Rightarrow>
                (case BPlusTree_GetRootPageId meta_page_id bp of
                   None \<Rightarrow> None
                 | Some (root, bp1) \<Rightarrow> first_leaf_loop root bp1)) of
        None \<Rightarrow> None
      | Some (leaf_id, bp2) \<Rightarrow>
          map_option (\<lambda>(results, bp3). (Inr results, bp3))
            (range_loop low low_inclusive high high_inclusive [] leaf_id bp2))"

end
