(* ===== verification/Page_Pins.thy ===== *)
theory Page_Pins
  imports Heap_File
begin

text \<open>
  Code that holds pointers to several pages at once, as the B+ tree does when it splits a node. The
  lemmas extend the contract \<open>page_cache\<close>: \<open>holding s0 H v n s\<close> says that since the state \<open>s0\<close> the pages
  of \<open>H\<close> have been pinned, each at the address \<open>H\<close> gives, that the pages of the cache are \<open>v\<close> and that \<open>n\<close>
  pages can still be allocated; only held pages may have unsaved changes.
\<close>

context page_cache
begin

definition holding ::
  "'s \<Rightarrow> (page_id_t \<rightharpoonup> 'f) \<Rightarrow> (page_id_t \<Rightarrow> Page option) \<Rightarrow> nat \<Rightarrow> 's \<Rightarrow> bool" where
  "holding s0 H v n s \<longleftrightarrow> inv s \<and> cap s = cap s0 \<and> pins s = (\<lambda>q. pins s0 q + (if H q = None then 0 else 1)) \<and>
     view s = v \<and> avail s = n \<and> (\<forall>q. H q = None \<longrightarrow> synced s q) \<and> (\<forall>q f. H q = Some f \<longrightarrow> addr s q = Some f) \<and>
     (\<forall>q. H q \<noteq> None \<longrightarrow> v q \<noteq> None)"

lemma holding_start: "ready s \<Longrightarrow> holding s Map.empty (view s) (avail s) s"
  by (simp add: holding_def ready_def)

lemma holding_end:
  assumes "ready s0" and "holding s0 Map.empty v n s"
  shows "ready s" and "same_use s0 s" and "view s = v" and "avail s = n"
  using assms by (auto simp: holding_def ready_def same_use_def)

lemma holding_room:
  assumes "holding s0 H v n s" and "card {q. 0 < pins s0 q} + card (dom H) < cap s0"
  shows "card {q. 0 < pins s q} < cap s"
proof -
  have "{q. 0 < pins s q} = {q. 0 < pins s0 q} \<union> dom H"
    using assms(1) by (auto simp: holding_def dom_def split: if_splits)
  then have "card {q. 0 < pins s q} \<le> card {q. 0 < pins s0 q} + card (dom H)" by (simp add: card_Un_le)
  with assms show ?thesis by (simp add: holding_def)
qed

lemma holding_fetch:
  assumes h: "holding s0 H v n s" and room: "card {q. 0 < pins s0 q} + card (dom H) < cap s0"
    and p: "v pid = Some p" "H pid = None"
  obtains f s' where "fetch pid s = (Some f, s')" and "holding s0 (H(pid \<mapsto> f)) v n s'" and "page f s' = p"
proof -
  have i: "inv s" "view s pid = Some p" using h p by (simp_all add: holding_def)
  obtain f s' where f: "fetch pid s = (Some f, s')" "inv s'" "addr s' pid = Some f" "view s' = view s"
    "pins s' = (pins s)(pid := pins s pid + 1)" "cap s' = cap s" "avail s' = avail s"
    "\<forall>q. synced s q \<longrightarrow> synced s' q" "\<forall>q. 0 < pins s q \<longrightarrow> addr s' q = addr s q"
    using fetch_law [OF i] holding_room [OF h room] by blast
  have "addr s' q = Some g" if "H q = Some g" for q g
    using f(9) that h by (simp add: holding_def)
  with f h p have "holding s0 (H(pid \<mapsto> f)) v n s'" by (auto simp: holding_def fun_eq_iff)
  moreover have "page f s' = p" using page_view [OF f(2,3)] f(4) i(2) by simp
  ultimately show thesis using that f(1) by blast
qed

lemma holding_alloc:
  assumes h: "holding s0 H v n s" and room: "card {q. 0 < pins s0 q} + card (dom H) < cap s0" and n: "0 < n"
  obtains f pid s' where "alloc s = (Some (f, pid), s')" and "holding s0 (H(pid \<mapsto> f)) (v(pid \<mapsto> Page_Reset)) (n - 1) s'"
    and "v pid = None" and "pid \<noteq> kInvalidPageId"
proof -
  have i: "inv s" "0 < avail s" using h n by (simp_all add: holding_def)
  obtain f pid s' where f: "alloc s = (Some (f, pid), s')" "inv s'" "addr s' pid = Some f" "view s pid = None"
    "view s' = (view s)(pid \<mapsto> Page_Reset)" "pins s pid = 0" "pins s' = (pins s)(pid := 1)" "cap s' = cap s"
    "Suc (avail s') = avail s" "\<forall>q. synced s q \<longrightarrow> synced s' q" "\<forall>q. 0 < pins s q \<longrightarrow> addr s' q = addr s q"
    using alloc_law [OF i(1) holding_room [OF h room] i(2)] by blast
  have "addr s' q = Some g" if "H q = Some g" for q g
    using f(11) that h by (simp add: holding_def)
  with f h have "holding s0 (H(pid \<mapsto> f)) (v(pid \<mapsto> Page_Reset)) (n - 1) s'"
    by (auto simp: holding_def fun_eq_iff split: if_splits)
  moreover have "pid \<noteq> kInvalidPageId" using no_invalid_page [OF f(2)] f(5) by auto
  ultimately show thesis using that f(1,4) h by (auto simp: holding_def)
qed

lemma holding_page:
  assumes "holding s0 H v n s" and "H pid = Some f" and "v pid = Some p"
  shows "page f s = p"
  using assms page_view [of s pid f p] by (auto simp: holding_def)

lemma holding_put:
  assumes h: "holding s0 H v n s" and f: "H pid = Some f" and len: "length p = kPageSize"
  shows "holding s0 H (v(pid \<mapsto> p)) n (put f p s)"
proof -
  have "inv s" "addr s pid = Some f" "0 < pins s pid" "view s pid \<noteq> None" using h f by (auto simp: holding_def)
  note w = put_law [OF this len]
  have "synced (put f p s) q" if "H q = None" for q
    using w h f that by (cases "q = pid") (simp_all add: holding_def)
  with w h f show ?thesis by (auto simp: holding_def)
qed

lemma holding_unpin:
  assumes h: "holding s0 H v n s" and f: "H pid = Some f"
  obtains s' where "unpin pid True s = (True, s')" and "holding s0 (H(pid := None)) v n s'"
proof -
  have "inv s" "0 < pins s pid" using h f by (auto simp: holding_def)
  from unpin_law [OF this, of True] obtain s' where u: "unpin pid True s = (True, s')" "inv s'" "view s' = view s"
    "pins s' = (pins s)(pid := pins s pid - 1)" "addr s' = addr s" "cap s' = cap s" "avail s' = avail s"
    "\<forall>q. synced s q \<longrightarrow> synced s' q" "synced s' pid" by auto
  with h f have "holding s0 (H(pid := None)) v n s'" by (auto simp: holding_def fun_eq_iff)
  with u(1) that show thesis by blast
qed

end

section \<open>Several pages of the buffer pool\<close>

text \<open>\<open>pool_room bp k\<close>: \<open>k\<close> pages can be pinned at the same time.\<close>

definition pool_room :: "BufferPool \<Rightarrow> nat \<Rightarrow> bool" where
  "pool_room bp k \<longleftrightarrow> card {q. 0 < bp_pins bp q} + k \<le> length (bp_frames bp)"

lemma pool_room_to: "pool_to bp v n bp' \<Longrightarrow> pool_room bp' k = pool_room bp k"
  by (simp add: pool_to_def pool.same_use_def pool_room_def)

lemma unpin_held:
  assumes "pool.holding bp H v n bp1" and "H pid = Some i"
  shows "pool.holding bp (H(pid := None)) v n (unpin_page pid True bp1)"
  using pool.holding_unpin [OF assms] by (metis unpin_page_def snd_conv)

text \<open>Two pages are fetched and a third one is allocated, all three are written and unpinned.\<close>

lemma three_pages:
  assumes ready: "pool.ready bp" and room: "pool_room bp 3" and av: "0 < bp_avail bp"
    and p: "bp_view bp a = Some p" and q: "bp_view bp b = Some q" and ab: "a \<noteq> b"
  obtains i bp1 j bp2 k c bp3 where
    "BufferPool_FetchPage a bp = (Some i, bp1)" "BufferPool_page i bp1 = p"
    "BufferPool_FetchPage b bp1 = (Some j, bp2)"
    "BufferPool_NewPage bp2 = (Some (k, c), bp3)" "bp_view bp c = None" "c \<noteq> kInvalidPageId"
    "BufferPool_page j bp3 = q" "BufferPool_page k bp3 = Page_Reset"
    "\<And>p' q' r'. length p' = kPageSize \<Longrightarrow> length q' = kPageSize \<Longrightarrow> length r' = kPageSize \<Longrightarrow>
       BufferPool_page i (BufferPool_put j q' (BufferPool_put k r' bp3)) = p \<and>
       pool_to bp ((bp_view bp)(c \<mapsto> r', b \<mapsto> q', a \<mapsto> p')) (bp_avail bp - 1)
         (unpin_page a True (unpin_page c True (unpin_page b True
           (BufferPool_put i p' (BufferPool_put j q' (BufferPool_put k r' bp3))))))"
proof -
  note h0 = pool.holding_start [OF ready]
  have r: "card {q. 0 < bp_pins bp q} + card (dom (Map.empty :: page_id_t \<rightharpoonup> frame_id_t)) < length (bp_frames bp)"
    using room by (simp add: pool_room_def)
  obtain i bp1 where f1: "BufferPool_FetchPage a bp = (Some i, bp1)" "BufferPool_page i bp1 = p"
    and h1: "pool.holding bp [a \<mapsto> i] (bp_view bp) (bp_avail bp) bp1"
    by (rule pool.holding_fetch [OF h0 r p]) auto
  have r: "card {q. 0 < bp_pins bp q} + card (dom [a \<mapsto> i]) < length (bp_frames bp)"
    using room by (simp add: pool_room_def)
  obtain j bp2 where f2: "BufferPool_FetchPage b bp1 = (Some j, bp2)"
    and h2: "pool.holding bp [a \<mapsto> i, b \<mapsto> j] (bp_view bp) (bp_avail bp) bp2"
    by (rule pool.holding_fetch [OF h1 r q]) (use ab in auto)
  have r: "card {q. 0 < bp_pins bp q} + card (dom [a \<mapsto> i, b \<mapsto> j]) < length (bp_frames bp)"
    using room ab by (simp add: pool_room_def)
  obtain k c bp3 where f3: "BufferPool_NewPage bp2 = (Some (k, c), bp3)" "bp_view bp c = None" "c \<noteq> kInvalidPageId"
    and h3: "pool.holding bp [a \<mapsto> i, b \<mapsto> j, c \<mapsto> k] ((bp_view bp)(c \<mapsto> Page_Reset)) (bp_avail bp - 1) bp3"
    by (rule pool.holding_alloc [OF h2 r av])
  have ne: "c \<noteq> a" "c \<noteq> b" using f3(2) p q by auto
  have pq: "BufferPool_page j bp3 = q" "BufferPool_page k bp3 = Page_Reset"
    using pool.holding_page [OF h3, of b j q] pool.holding_page [OF h3, of c k Page_Reset] ne q by simp_all
  have "BufferPool_page i (BufferPool_put j q' (BufferPool_put k r' bp3)) = p \<and>
       pool_to bp ((bp_view bp)(c \<mapsto> r', b \<mapsto> q', a \<mapsto> p')) (bp_avail bp - 1)
         (unpin_page a True (unpin_page c True (unpin_page b True
           (BufferPool_put i p' (BufferPool_put j q' (BufferPool_put k r' bp3))))))"
    if len: "length p' = kPageSize" "length q' = kPageSize" "length r' = kPageSize" for p' q' r'
  proof -
    let ?H = "[a \<mapsto> i, b \<mapsto> j, c \<mapsto> k]"
    have g1: "pool.holding bp ?H ((bp_view bp)(c \<mapsto> r')) (bp_avail bp - 1) (BufferPool_put k r' bp3)"
      using pool.holding_put [OF h3 _ len(3), of c k] by simp
    have g2: "pool.holding bp ?H ((bp_view bp)(c \<mapsto> r', b \<mapsto> q')) (bp_avail bp - 1)
        (BufferPool_put j q' (BufferPool_put k r' bp3))"
      using pool.holding_put [OF g1 _ len(2), of b j] ne by simp
    have i: "BufferPool_page i (BufferPool_put j q' (BufferPool_put k r' bp3)) = p"
      using pool.holding_page [OF g2, of a i p] p ab ne by simp
    have "pool.holding bp ?H ((bp_view bp)(c \<mapsto> r', b \<mapsto> q', a \<mapsto> p')) (bp_avail bp - 1)
        (BufferPool_put i p' (BufferPool_put j q' (BufferPool_put k r' bp3)))"
      using pool.holding_put [OF g2 _ len(1), of a i] ab ne by simp
    then have "pool.holding bp (?H(b := None, c := None, a := None)) ((bp_view bp)(c \<mapsto> r', b \<mapsto> q', a \<mapsto> p')) (bp_avail bp - 1)
        (unpin_page a True (unpin_page c True (unpin_page b True
           (BufferPool_put i p' (BufferPool_put j q' (BufferPool_put k r' bp3))))))"
      using ab ne by (intro unpin_held) simp_all
    moreover have "?H(b := None, c := None, a := None) = Map.empty" by auto
    ultimately have "pool.holding bp Map.empty ((bp_view bp)(c \<mapsto> r', b \<mapsto> q', a \<mapsto> p')) (bp_avail bp - 1)
        (unpin_page a True (unpin_page c True (unpin_page b True
           (BufferPool_put i p' (BufferPool_put j q' (BufferPool_put k r' bp3))))))" by simp
    from pool.holding_end [OF ready this] i show ?thesis by (simp add: pool_to_def)
  qed
  with that [OF f1 f2 f3 pq] show thesis by blast
qed

end
