(* ===== verification/Bplus_Index.thy ===== *)
theory Bplus_Index
  imports Bplus_Tree Page_Pins
begin

text \<open>
  The abstraction of the B+ tree. The loops over the entries of a node are related to the lists of
  entries, \<open>bt_wf\<close> relates the pages of the pool to a tree with sorted entries and a chain of leaves, and
  splitting a full node is shown to give two trees with the same entries, provided that no key fills
  a whole leaf.
\<close>

section \<open>Loops over the entries of a node\<close>

lemma while_index_takeWhile: "while_index P n i = i + length (takeWhile P [i..<n])"
proof (induction P n i rule: while_index.induct)
  case (1 P n i)
  then show ?case by (subst while_index.simps) (cases "i < n", auto simp: upt_conv_Cons)
qed

lemma takeWhile_map_upt:
  assumes "\<And>i. i < length xs \<Longrightarrow> P i = Q (xs ! i)"
  shows "length (takeWhile P [0..<length xs]) = length (takeWhile Q xs)"
proof -
  have "takeWhile P [0..<length xs] = takeWhile (\<lambda>i. Q (xs ! i)) [0..<length xs]"
    using assms by (intro takeWhile_cong) auto
  then have "length (takeWhile P [0..<length xs]) = length (takeWhile Q (map (\<lambda>i. xs ! i) [0..<length xs]))"
    by (simp add: takeWhile_map o_def del: map_nth_upt)
  then show ?thesis by simp
qed

lemma FindChildIndex_keys:
  "inner_page p ks cs \<Longrightarrow> BPlusTree_FindChildIndex p key = length (takeWhile (\<lambda>k. sint k \<le> sint key) ks)"
  using inner_pageD [of p ks cs]
  by (simp add: BPlusTree_FindChildIndex_def while_index_takeWhile takeWhile_map_upt [where Q = "\<lambda>k. sint k \<le> sint key"])

lemma leaf_position:
  "leaf_page p es nxt \<Longrightarrow> while_index (\<lambda>i. sint (BPlusNode_LeafKeyAt p i) < sint key) (length es) 0 =
     length (takeWhile (\<lambda>e. sint (fst e) < sint key) es)"
  using leaf_pageD [of p es nxt]
  by (simp add: while_index_takeWhile takeWhile_map_upt [where Q = "\<lambda>e. sint (fst e) < sint key"])

text \<open>The scans of a leaf as functions of the entries that are left.\<close>

fun scan_equal :: "Key \<Rightarrow> (Key \<times> RecordId) list \<Rightarrow> RecordId list \<Rightarrow> RecordId list \<times> bool" where
  "scan_equal key [] acc = (acc, False)"
| "scan_equal key (e # es) acc =
     (if fst e = key then scan_equal key es (acc @ [snd e])
      else if sint (fst e) > sint key then (acc, True) else scan_equal key es acc)"

fun scan_range :: "(Key \<Rightarrow> bool) \<Rightarrow> (Key \<Rightarrow> bool) \<Rightarrow> (Key \<times> RecordId) list \<Rightarrow> (Key \<times> RecordId) list \<Rightarrow> (Key \<times> RecordId) list \<times> bool" where
  "scan_range lo hi [] acc = (acc, False)"
| "scan_range lo hi (e # es) acc =
     (if lo (fst e) then scan_range lo hi es acc
      else if hi (fst e) then (acc, True) else scan_range lo hi es (acc @ [e]))"

fun scan_delete :: "Key \<Rightarrow> RecordId \<Rightarrow> nat \<Rightarrow> (Key \<times> RecordId) list \<Rightarrow> nat option \<times> bool" where
  "scan_delete key rid i [] = (None, False)"
| "scan_delete key rid i (e # es) =
     (if sint (fst e) > sint key then (None, True)
      else if fst e = key \<and> snd e = rid then (Some i, False) else scan_delete key rid (i + 1) es)"

lemma drop_entry: "i < length es \<Longrightarrow> drop i es = es ! i # drop (i + 1) es"
  by (simp add: Cons_nth_drop_Suc)

lemma search_scan_entries:
  assumes "leaf_page p es nxt"
  shows "search_scan p key (length es) i acc = scan_equal key (drop i es) acc"
proof (induction "length es - i" arbitrary: i acc)
  case 0
  then show ?case by (subst search_scan.simps) simp
next
  case (Suc n)
  then have "i < length es" "n = length es - (i + 1)" by simp_all
  with Suc.hyps(1) leaf_pageD [OF assms] show ?case
    by (subst search_scan.simps) (simp add: drop_entry Let_def)
qed

lemma range_scan_entries:
  assumes "leaf_page p es nxt"
  shows "range_scan p low li high hi (length es) i acc =
    scan_range (below_range low li) (above_range high hi) (drop i es) acc"
proof (induction "length es - i" arbitrary: i acc)
  case 0
  then show ?case by (subst range_scan.simps) simp
next
  case (Suc n)
  then have "i < length es" "n = length es - (i + 1)" by simp_all
  with Suc.hyps(1) leaf_pageD [OF assms] show ?case
    by (subst range_scan.simps) (simp add: drop_entry Let_def)
qed

lemma delete_scan_entries:
  assumes "leaf_page p es nxt"
  shows "delete_scan p key rid (length es) i = scan_delete key rid i (drop i es)"
proof (induction "length es - i" arbitrary: i)
  case 0
  then show ?case by (subst delete_scan.simps) simp
next
  case (Suc n)
  then have "i < length es" "n = length es - (i + 1)" by simp_all
  with Suc.hyps(1) leaf_pageD [OF assms] show ?case
    by (subst delete_scan.simps) (simp add: drop_entry Let_def)
qed

section \<open>Sorted lists of entries\<close>

lemma sint_eq_iff: "sint a = sint b \<longleftrightarrow> a = (b :: 'a::len word)"
  by (auto intro: signed_word_eqI)

abbreviation ekey :: "Key \<times> RecordId \<Rightarrow> int" where
  "ekey e \<equiv> sint (fst e)"

definition ins_entry :: "Key \<Rightarrow> RecordId \<Rightarrow> (Key \<times> RecordId) list \<Rightarrow> (Key \<times> RecordId) list" where
  "ins_entry key rid es = takeWhile (\<lambda>e. ekey e < sint key) es @ (key, rid) # dropWhile (\<lambda>e. ekey e < sint key) es"

lemma ins_entry_middle:
  assumes "\<forall>e \<in> set as. ekey e < sint key" and "\<forall>e \<in> set cs. \<not> ekey e < sint key"
  shows "ins_entry key rid (as @ bs @ cs) = as @ ins_entry key rid bs @ cs"
proof -
  have "takeWhile (\<lambda>e. ekey e < sint key) (bs @ cs) = takeWhile (\<lambda>e. ekey e < sint key) bs"
    "dropWhile (\<lambda>e. ekey e < sint key) (bs @ cs) = dropWhile (\<lambda>e. ekey e < sint key) bs @ cs"
    using assms(2) by (cases cs; induction bs; auto)+
  with assms(1) show ?thesis by (simp add: ins_entry_def takeWhile_append2 dropWhile_append2)
qed

lemma set_ins_entry: "set (ins_entry key rid es) = insert (key, rid) (set es)"
proof -
  have "set (takeWhile (\<lambda>e. ekey e < sint key) es) \<union> set (dropWhile (\<lambda>e. ekey e < sint key) es) = set es"
    by (metis set_append takeWhile_dropWhile_id)
  then show ?thesis by (auto simp: ins_entry_def)
qed

lemma sorted_ins_entry:
  assumes "sorted (map ekey es)"
  shows "sorted (map ekey (ins_entry key rid es))"
proof -
  let ?P = "\<lambda>e. ekey e < sint key"
  have "sorted (map ekey (takeWhile ?P es @ dropWhile ?P es))" using assms by simp
  then have s: "sorted (map ekey (takeWhile ?P es))" "sorted (map ekey (dropWhile ?P es))"
    unfolding map_append sorted_append by simp_all
  have lt: "ekey e < sint key" if "e \<in> set (takeWhile ?P es)" for e
    using set_takeWhileD [OF that] by simp
  have ge: "sint key \<le> ekey e" if "e \<in> set (dropWhile ?P es)" for e
    using assms that
  proof (induction es)
    case (Cons x es)
    then show ?case by (cases "?P x") auto
  qed simp
  have "ekey e \<le> ekey f" if "e \<in> set (takeWhile ?P es)" "f \<in> set (dropWhile ?P es)" for e f
    using lt [OF that(1)] ge [OF that(2)] by linarith
  with s lt ge show ?thesis by (simp add: ins_entry_def sorted_append less_imp_le)
qed

section \<open>Trees in pages\<close>

datatype btree =
    BLeaf page_id_t "(Key \<times> RecordId) list"
  | BNode page_id_t "Key list" "btree list"

fun bt_id :: "btree \<Rightarrow> page_id_t" where
  "bt_id (BLeaf pid es) = pid"
| "bt_id (BNode pid ks ts) = pid"

fun bt_leaves :: "btree \<Rightarrow> (page_id_t \<times> (Key \<times> RecordId) list) list" where
  "bt_leaves (BLeaf pid es) = [(pid, es)]"
| "bt_leaves (BNode pid ks ts) = concat (map bt_leaves ts)"

definition bt_entries :: "btree \<Rightarrow> (Key \<times> RecordId) list" where
  "bt_entries t = concat (map snd (bt_leaves t))"

lemma bt_entries_simps [simp]:
  "bt_entries (BLeaf pid es) = es"
  "bt_entries (BNode pid ks ts) = concat (map bt_entries ts)"
proof -
  show "bt_entries (BNode pid ks ts) = concat (map bt_entries ts)"
    by (induction ts) (simp_all add: bt_entries_def)
qed (simp add: bt_entries_def)

fun bt_pages :: "btree \<Rightarrow> page_id_t list" where
  "bt_pages (BLeaf pid es) = [pid]"
| "bt_pages (BNode pid ks ts) = pid # concat (map bt_pages ts)"

text \<open>All leaves of a tree are at the same depth.\<close>

fun bt_height :: "nat \<Rightarrow> btree \<Rightarrow> bool" where
  "bt_height h (BLeaf pid es) \<longleftrightarrow> h = 0"
| "bt_height h (BNode pid ks ts) \<longleftrightarrow> (case h of 0 \<Rightarrow> False | Suc h' \<Rightarrow> ts \<noteq> [] \<and> (\<forall>t \<in> set ts. bt_height h' t))"

definition first_leaf :: "btree \<Rightarrow> page_id_t" where
  "first_leaf t = fst (hd (bt_leaves t))"

definition above_low :: "int option \<Rightarrow> int \<Rightarrow> bool" where
  "above_low lo k \<longleftrightarrow> (case lo of None \<Rightarrow> True | Some l \<Rightarrow> l \<le> k)"

definition beyond_low :: "int option \<Rightarrow> int \<Rightarrow> bool" where
  "beyond_low lo k \<longleftrightarrow> (case lo of None \<Rightarrow> True | Some l \<Rightarrow> l < k)"

definition below_high :: "int option \<Rightarrow> int \<Rightarrow> bool" where
  "below_high hi k \<longleftrightarrow> (case hi of None \<Rightarrow> True | Some h \<Rightarrow> k < h)"

lemma bound_simps [simp]:
  "above_low None k" "above_low (Some l) k \<longleftrightarrow> l \<le> k" "below_high None k" "below_high (Some h) k \<longleftrightarrow> k < h"
  "beyond_low None k" "beyond_low (Some l) k \<longleftrightarrow> l < k"
  by (simp_all add: above_low_def below_high_def beyond_low_def)

lemma beyond_lowD: "beyond_low lo k \<Longrightarrow> k \<le> k' \<Longrightarrow> above_low lo k'"
  by (auto simp: beyond_low_def above_low_def split: option.splits)

lemma beyond_lowI: "above_low lo k \<Longrightarrow> k < k' \<Longrightarrow> beyond_low lo k'"
  by (auto simp: beyond_low_def above_low_def split: option.splits)

lemma above_low_mono: "above_low lo k \<Longrightarrow> k \<le> k' \<Longrightarrow> above_low lo k'"
  by (auto simp: above_low_def split: option.splits)

lemma below_high_mono: "below_high hi k \<Longrightarrow> k' \<le> k \<Longrightarrow> below_high hi k'"
  by (auto simp: below_high_def split: option.splits)

text \<open>
  \<open>bt_wf v lo hi nxt t\<close>: the pages \<open>v\<close> hold the tree \<open>t\<close>, its keys lie between \<open>lo\<close> and \<open>hi\<close>, and the chain of
  its leaves leads to the page \<open>nxt\<close>.
\<close>

function bt_wf :: "(page_id_t \<Rightarrow> Page option) \<Rightarrow> int option \<Rightarrow> int option \<Rightarrow> page_id_t \<Rightarrow> btree \<Rightarrow> bool"
  and bts_wf :: "(page_id_t \<Rightarrow> Page option) \<Rightarrow> int option \<Rightarrow> int option \<Rightarrow> page_id_t \<Rightarrow> Key list \<Rightarrow> btree list \<Rightarrow> bool" where
  "bt_wf v lo hi nxt (BLeaf pid es) \<longleftrightarrow>
     pid \<noteq> kInvalidPageId \<and> (\<exists>p. v pid = Some p \<and> leaf_page p es nxt) \<and> sorted (map ekey es) \<and>
     (\<forall>e \<in> set es. above_low lo (ekey e) \<and> below_high hi (ekey e))"
| "bt_wf v lo hi nxt (BNode pid ks ts) \<longleftrightarrow>
     (\<exists>p. v pid = Some p \<and> inner_page p ks (map bt_id ts)) \<and> bts_wf v lo hi nxt ks ts"
| "bts_wf v lo hi nxt ks [] \<longleftrightarrow> False"
| "bts_wf v lo hi nxt [] (t # ts) \<longleftrightarrow> ts = [] \<and> bt_wf v lo hi nxt t"
| "bts_wf v lo hi nxt (k # ks) (t # ts) \<longleftrightarrow>
     ts \<noteq> [] \<and> beyond_low lo (sint k) \<and> below_high hi (sint k) \<and>
     bt_wf v lo (Some (sint k)) (first_leaf (hd ts)) t \<and> bts_wf v (Some (sint k)) hi nxt ks ts"
  by pat_completeness auto
termination
  by (relation "measure (\<lambda>x. case x of Inl (v, lo, hi, nxt, t) \<Rightarrow> size t | Inr (v, lo, hi, nxt, ks, ts) \<Rightarrow> size_list size ts)") auto

lemma bts_length: "bts_wf v lo hi nxt ks ts \<Longrightarrow> length ts = Suc (length ks)"
proof (induction ts arbitrary: lo ks)
  case (Cons t ts)
  then show ?case by (cases ks) auto
qed simp

lemma bts_append:
  "length ts1 = Suc (length ks1) \<Longrightarrow>
   bts_wf v lo hi nxt (ks1 @ k # ks2) (ts1 @ ts2) \<longleftrightarrow>
     ts2 \<noteq> [] \<and> beyond_low lo (sint k) \<and> below_high hi (sint k) \<and>
     bts_wf v lo (Some (sint k)) (first_leaf (hd ts2)) ks1 ts1 \<and> bts_wf v (Some (sint k)) hi nxt ks2 ts2"
proof (induction ks1 arbitrary: lo ts1)
  case Nil
  then obtain t where "ts1 = [t]" by (auto simp: length_Suc_conv)
  then show ?case by auto
next
  case (Cons j ks1)
  then obtain t ts where ts: "ts1 = t # ts" "length ts = Suc (length ks1)" by (auto simp: length_Suc_conv)
  then have ne: "ts \<noteq> []" by auto
  have "beyond_low lo (sint k)" if "beyond_low lo (sint j)" "sint j < sint k"
    using beyond_lowD [OF that(1) order.refl] beyond_lowI that(2) by blast
  moreover have "below_high hi (sint j)" if "below_high hi (sint k)" "sint j < sint k" using below_high_mono that by force
  ultimately show ?case using Cons.IH [OF ts(2)] ne ts(1) by auto
qed

text \<open>The leaves and entries of a tree.\<close>

lemma bt_leaves_nonempty:
  "bt_wf v lo hi nxt t \<Longrightarrow> bt_leaves t \<noteq> []"
  "bts_wf v lo hi nxt ks ts \<Longrightarrow> \<forall>t \<in> set ts. bt_leaves t \<noteq> []"
  by (induction v lo hi nxt t and v lo hi nxt ks ts rule: bt_wf_bts_wf.induct) (auto simp: Let_def dest: bts_length)

lemma first_leaf_simps [simp]:
  "first_leaf (BLeaf pid es) = pid"
  "ts \<noteq> [] \<Longrightarrow> bt_leaves (hd ts) \<noteq> [] \<Longrightarrow> first_leaf (BNode pid ks ts) = first_leaf (hd ts)"
  by (cases ts; simp add: first_leaf_def)+

lemma entries_bounded:
  "bt_wf v lo hi nxt t \<Longrightarrow> \<forall>e \<in> set (bt_entries t). above_low lo (ekey e) \<and> below_high hi (ekey e)"
  "bts_wf v lo hi nxt ks ts \<Longrightarrow> \<forall>t \<in> set ts. \<forall>e \<in> set (bt_entries t). above_low lo (ekey e) \<and> below_high hi (ekey e)"
proof (induction v lo hi nxt t and v lo hi nxt ks ts rule: bt_wf_bts_wf.induct)
  case (5 v lo hi nxt k ks t ts)
  then have k: "beyond_low lo (sint k)" "below_high hi (sint k)" by simp_all
  have "above_low lo (ekey e) \<and> below_high hi (ekey e)" if "e \<in> set (bt_entries t)" for e
    using 5 that below_high_mono [OF k(2), of "ekey e"] by force
  moreover have "above_low lo (ekey e) \<and> below_high hi (ekey e)" if "u \<in> set ts" "e \<in> set (bt_entries u)" for u e
    using 5 that beyond_lowD [OF k(1), of "ekey e"] by force
  ultimately show ?case by auto
qed auto

lemma sorted_bt_entries:
  "bt_wf v lo hi nxt t \<Longrightarrow> sorted (map ekey (bt_entries t))"
  "bts_wf v lo hi nxt ks ts \<Longrightarrow> sorted (map ekey (concat (map bt_entries ts)))"
proof (induction v lo hi nxt t and v lo hi nxt ks ts rule: bt_wf_bts_wf.induct)
  case (5 v lo hi nxt k ks t ts)
  have "ekey e \<le> ekey f" if "e \<in> set (bt_entries t)" "u \<in> set ts" "f \<in> set (bt_entries u)" for e u f
    using entries_bounded(1) [of v lo "Some (sint k)" _ t] entries_bounded(2) [of v "Some (sint k)" hi nxt ks ts] 5(3) that
    by force
  with 5 show ?case by (auto simp: sorted_append)
qed auto

text \<open>Only the pages of a tree matter.\<close>

lemma bt_frame:
  "(\<And>q. q \<in> set (bt_pages t) \<Longrightarrow> v' q = v q) \<Longrightarrow> bt_wf v' lo hi nxt t = bt_wf v lo hi nxt t"
  "(\<And>q t. t \<in> set ts \<Longrightarrow> q \<in> set (bt_pages t) \<Longrightarrow> v' q = v q) \<Longrightarrow> bts_wf v' lo hi nxt ks ts = bts_wf v lo hi nxt ks ts"
  by (induction v lo hi nxt t and v lo hi nxt ks ts rule: bt_wf_bts_wf.induct) auto

text \<open>
  The child for a key: its bounds enclose the key, the entries on its left are smaller and those on
  its right larger, and it can be replaced by a list of trees with the same bounds.
\<close>

lemma bts_focus:
  assumes "bts_wf v lo hi nxt ks ts" and "above_low lo key" and "below_high hi key"
  obtains ts1 t ts2 lo' hi' nxt' where "ts = ts1 @ t # ts2" and "length ts1 = length (takeWhile (\<lambda>k. sint k \<le> key) ks)"
    and "bt_wf v lo' hi' nxt' t" and "above_low lo' key" and "below_high hi' key"
    and "\<forall>u \<in> set ts1. \<forall>e \<in> set (bt_entries u). ekey e < key"
    and "\<forall>u \<in> set ts2. \<forall>e \<in> set (bt_entries u). key < ekey e"
    and "\<And>v' ms us. \<forall>u \<in> set ts1 \<union> set ts2. \<forall>q \<in> set (bt_pages u). v' q = v q \<Longrightarrow> bts_wf v' lo' hi' nxt' ms us \<Longrightarrow>
      first_leaf (hd us) = first_leaf t \<Longrightarrow>
      bts_wf v' lo hi nxt (takeWhile (\<lambda>k. sint k \<le> key) ks @ ms @ dropWhile (\<lambda>k. sint k \<le> key) ks) (ts1 @ us @ ts2)"
  using assms
proof (induction ts arbitrary: lo ks thesis)
  case Nil
  then show ?case by simp
next
  case (Cons t0 ts)
  show ?case
  proof (cases ks)
    case Nil
    with Cons.prems show ?thesis by (intro Cons.prems(1) [of "[]" t0 "[]" lo hi nxt]) auto
  next
    case (Cons k ks')
    note wf = Cons.prems(2) [unfolded Cons]
    then have k: "ts \<noteq> []" "beyond_low lo (sint k)" "below_high hi (sint k)" and
      t0: "bt_wf v lo (Some (sint k)) (first_leaf (hd ts)) t0" and ts: "bts_wf v (Some (sint k)) hi nxt ks' ts" by simp_all
    show ?thesis
    proof (cases "sint k \<le> key")
      case True
      have "above_low (Some (sint k)) key" using True by simp
      from ts this Cons.prems(4) show ?thesis
      proof (rule Cons.IH [rotated])
        fix ts1 t ts2 lo' hi' nxt'
        assume h: "ts = ts1 @ t # ts2" "length ts1 = length (takeWhile (\<lambda>k. sint k \<le> key) ks')"
          "bt_wf v lo' hi' nxt' t" "above_low lo' key" "below_high hi' key"
          "\<forall>u \<in> set ts1. \<forall>e \<in> set (bt_entries u). ekey e < key" "\<forall>u \<in> set ts2. \<forall>e \<in> set (bt_entries u). key < ekey e"
          and rep: "\<And>v' ms us. \<forall>u \<in> set ts1 \<union> set ts2. \<forall>q \<in> set (bt_pages u). v' q = v q \<Longrightarrow> bts_wf v' lo' hi' nxt' ms us \<Longrightarrow>
            first_leaf (hd us) = first_leaf t \<Longrightarrow> bts_wf v' (Some (sint k)) hi nxt
              (takeWhile (\<lambda>k. sint k \<le> key) ks' @ ms @ dropWhile (\<lambda>k. sint k \<le> key) ks') (ts1 @ us @ ts2)"
        have "\<forall>e \<in> set (bt_entries t0). ekey e < key"
          using entries_bounded(1) [OF t0] True by force
        moreover have "bts_wf v' lo hi nxt (takeWhile (\<lambda>k. sint k \<le> key) (k # ks') @ ms @ dropWhile (\<lambda>k. sint k \<le> key) (k # ks'))
            ((t0 # ts1) @ us @ ts2)"
          if "\<forall>u \<in> set (t0 # ts1) \<union> set ts2. \<forall>q \<in> set (bt_pages u). v' q = v q" "bts_wf v' lo' hi' nxt' ms us"
            "first_leaf (hd us) = first_leaf t" for v' ms us
        proof -
          have "us \<noteq> []" using that(2) by (cases us) auto
          then have "first_leaf (hd (ts1 @ us @ ts2)) = first_leaf (hd ts)" using h(1) that(3) by (cases ts1) auto
          moreover have "bt_wf v' lo (Some (sint k)) (first_leaf (hd ts)) t0" using t0 that(1) bt_frame(1) [of t0 v' v] by auto
          moreover have "bts_wf v' (Some (sint k)) hi nxt
              (takeWhile (\<lambda>k. sint k \<le> key) ks' @ ms @ dropWhile (\<lambda>k. sint k \<le> key) ks') (ts1 @ us @ ts2)"
            using rep that by auto
          ultimately show ?thesis using True k \<open>us \<noteq> []\<close> by simp
        qed
        ultimately show thesis
          using h True Cons by (intro Cons.prems(1) [of "t0 # ts1" t ts2 lo' hi' nxt']) auto
      qed
    next
      case False
      have "\<forall>u \<in> set ts. \<forall>e \<in> set (bt_entries u). key < ekey e"
        using entries_bounded(2) [OF ts] False by force
      moreover have "bts_wf v' lo hi nxt (takeWhile (\<lambda>k. sint k \<le> key) ks @ ms @ dropWhile (\<lambda>k. sint k \<le> key) ks) ([] @ us @ ts)"
        if "\<forall>u \<in> set [] \<union> set ts. \<forall>q \<in> set (bt_pages u). v' q = v q"
          "bts_wf v' lo (Some (sint k)) (first_leaf (hd ts)) ms us" for v' ms us
      proof -
        have "bts_wf v' (Some (sint k)) hi nxt ks' ts" using ts that(1) bt_frame(2) [of ts v' v] by auto
        then show ?thesis using False Cons k that(2) bts_append [OF bts_length [OF that(2)]] by simp
      qed
      ultimately show ?thesis
        using Cons False t0 Cons.prems(3)
        by (intro Cons.prems(1) [of "[]" t0 ts lo "Some (sint k)" "first_leaf (hd ts)"]) auto
    qed
  qed
qed

section \<open>Splitting a node\<close>

lemma split_point_boundary:
  assumes "1 \<le> left" "left \<le> right" "right \<le> n" "\<exists>j. 1 \<le> j \<and> j < n \<and> key j \<noteq> key (j - 1)"
    and "\<forall>j. left \<le> j \<and> j < right \<longrightarrow> key j = key (j - 1)"
  shows "0 < split_point key n mid left right \<and> split_point key n mid left right < n \<and>
    key (split_point key n mid left right) \<noteq> key (split_point key n mid left right - 1)"
  using assms
proof (induction key n mid left right rule: split_point.induct)
  case (1 key n mid left right)
  consider (right) "right < n" "key right \<noteq> key (right - 1)"
    | (left) "\<not> (right < n \<and> key right \<noteq> key (right - 1))" "left > 1" "key (left - 1) \<noteq> key (left - 2)"
    | (step) "\<not> (right < n \<and> key right \<noteq> key (right - 1))" "\<not> (left > 1 \<and> key (left - 1) \<noteq> key (left - 2))" "left > 1 \<or> right < n"
    | (stop) "\<not> (left > 1 \<or> right < n)" by blast
  then show ?case
  proof cases
    case right
    then have "split_point key n mid left right = right" by (subst split_point.simps) simp
    with right 1(2,3) show ?thesis by simp
  next
    case left
    then have "split_point key n mid left right = left - 1" by (subst split_point.simps) auto
    with left 1(2-4) show ?thesis by (auto simp: numeral_2_eq_2)
  next
    case step
    let ?l = "if left > 1 then left - 1 else left" and ?r = "if right < n then right + 1 else right"
    have eq: "split_point key n mid left right = split_point key n mid ?l ?r"
      using step by (subst split_point.simps) auto
    have eqs: "\<forall>j. ?l \<le> j \<and> j < ?r \<longrightarrow> key j = key (j - 1)"
    proof (intro allI impI)
      fix j assume j: "?l \<le> j \<and> j < ?r"
      show "key j = key (j - 1)"
      proof (cases "left \<le> j \<and> j < right")
        case True
        then show ?thesis using 1(6) by blast
      next
        case False
        with j consider "j = right" "right < n" | "left > 1" "j = left - 1" by (auto split: if_splits)
        then show ?thesis using step by cases (auto simp: numeral_2_eq_2)
      qed
    qed
    have lr: "1 \<le> ?l" "?l \<le> ?r" "?r \<le> n" using 1(2-4) by auto
    show ?thesis unfolding eq by (rule 1(1) [OF step(3,1,2) lr 1(5) eqs])
  next
    case stop
    with 1(2-6) show ?thesis by (metis le_antisym linorder_not_less)
  qed
qed

lemma split_leaf_pages:
  assumes p: "leaf_page p es nxt" and n: "2 \<le> length es" and r: "node_ok r"
    and diff: "\<exists>j. 1 \<le> j \<and> j < length es \<and> fst (es ! j) \<noteq> fst (es ! (j - 1))"
  obtains p' r' m where "split_leaf p new r = (r', p', fst (es ! m))" "0 < m" "m < length es"
    "fst (es ! m) \<noteq> fst (es ! (m - 1))" "leaf_page p' (take m es) new" "leaf_page r' (drop m es) nxt"
proof -
  let ?p = "BPlusNode_SetNextLeafId new p"
  have p1: "leaf_page ?p es new" by (rule SetNextLeafId_page [OF p])
  define m where "m = split_point (BPlusNode_LeafKeyAt ?p) (length es) (length es div 2) (length es div 2) (length es div 2)"
  note d = leaf_pageD [OF p1]
  obtain j where "1 \<le> j" "j < length es" "fst (es ! j) \<noteq> fst (es ! (j - 1))" using diff by blast
  then have ex: "\<exists>j. 1 \<le> j \<and> j < length es \<and> BPlusNode_LeafKeyAt ?p j \<noteq> BPlusNode_LeafKeyAt ?p (j - 1)"
    using d(7) [of j] d(7) [of "j - 1"] by (intro exI [of _ j]) simp
  have l: "1 \<le> length es div 2" "length es div 2 \<le> length es" using n by simp_all
  have "\<forall>j. length es div 2 \<le> j \<and> j < length es div 2 \<longrightarrow> BPlusNode_LeafKeyAt ?p j = BPlusNode_LeafKeyAt ?p (j - 1)"
    using leD by blast
  note b = split_point_boundary [OF l(1) order.refl l(2) ex this, of "length es div 2"]
  have m: "0 < m" "m < length es" "BPlusNode_LeafKeyAt ?p m \<noteq> BPlusNode_LeafKeyAt ?p (m - 1)"
    using b unfolding m_def by simp_all
  then have ne: "fst (es ! m) \<noteq> fst (es ! (m - 1))" using d(7) by simp
  have len: "length es - m \<le> kLeafMaxKeys" using p unfolding leaf_page_def by linarith
  let ?r = "BPlusNode_SetKeyCount (word_of_nat (length es - m))
    (fold (\<lambda>j p. BPlusNode_SetLeafEntry j (leaf_entry ?p (m + j)) p) [0..<length es - m] (BPlusNode_InitLeaf nxt r))"
  have "map (\<lambda>j. leaf_entry ?p (m + j)) [0..<length es - m] = drop m es"
    using d(6) m(2) by (intro nth_equalityI) simp_all
  with fill_leaf [OF InitLeaf_page [OF r] len, of "\<lambda>j. leaf_entry ?p (m + j)" nxt]
  have r': "leaf_page ?r (drop m es) nxt" by simp
  have "BPlusNode_LeafKeyAt ?r 0 = fst (es ! m)" using leaf_pageD(7) [OF r', of 0] m(2) by simp
  then have "split_leaf p new r = (?r, BPlusNode_SetKeyCount (word_of_nat m) ?p, fst (es ! m))"
    using d(3) leaf_pageD(4) [OF p] by (simp add: split_leaf_def Let_def m_def)
  with m ne truncate_leaf [OF p1, of m] r' show thesis by (intro that) simp_all
qed

lemma split_internal_pages:
  assumes p: "inner_page p ks cs" and n: "2 \<le> length ks" and r: "node_ok r"
  defines "m \<equiv> length ks div 2"
  obtains p' r' where "split_internal p r = (r', p', ks ! m)"
    "inner_page p' (take m ks) (take (m + 1) cs)" "inner_page r' (drop (m + 1) ks) (drop (m + 1) cs)"
proof -
  note d = inner_pageD [OF p]
  have m: "m < length ks" using n by (simp add: m_def)
  let ?n = "length ks - m - 1"
  have len: "?n \<le> kInternalMaxKeys" using p unfolding inner_page_def by linarith
  let ?r = "BPlusNode_SetKeyCount (word_of_nat ?n)
      (fold (\<lambda>j q. BPlusNode_SetInternalChildAt j (BPlusNode_InternalChildAt p (m + 1 + j)) q) [0..<?n + 1]
        (fold (\<lambda>j q. BPlusNode_SetInternalKeyAt j (BPlusNode_InternalKeyAt p (m + 1 + j)) q) [0..<?n] (BPlusNode_InitInternal r)))"
  have "map (\<lambda>j. BPlusNode_InternalKeyAt p (m + 1 + j)) [0..<?n] = drop (m + 1) ks"
    using d(6) m by (intro nth_equalityI) simp_all
  moreover have "map (\<lambda>j. BPlusNode_InternalChildAt p (m + 1 + j)) [0..<?n + 1] = drop (m + 1) cs"
    using d(4,7) m by (intro nth_equalityI) (simp_all del: upt_Suc)
  ultimately have r': "inner_page ?r (drop (m + 1) ks) (drop (m + 1) cs)"
    using fill_inner [OF conjunct1 [OF InitInternal_ok [OF r]] conjunct2 [OF InitInternal_ok [OF r]] len,
        of "\<lambda>j. BPlusNode_InternalChildAt p (m + 1 + j)" "\<lambda>j. BPlusNode_InternalKeyAt p (m + 1 + j)"] by simp
  have "split_internal p r = (?r, BPlusNode_SetKeyCount (word_of_nat m) p, ks ! m)"
    using d(3,6) m unfolding split_internal_def Let_def m_def by simp
  with truncate_inner [OF p, of m] m r' show thesis by (intro that) simp_all
qed

definition bt_full :: "btree \<Rightarrow> bool" where
  "bt_full t \<longleftrightarrow> (case t of BLeaf _ es \<Rightarrow> kLeafMaxKeys \<le> length es | BNode _ ks _ \<Rightarrow> kInternalMaxKeys \<le> length ks)"

text \<open>No key occurs so often that it could fill a leaf.\<close>

definition few_equal :: "(Key \<times> RecordId) list \<Rightarrow> bool" where
  "few_equal es \<longleftrightarrow> (\<forall>k. length (filter (\<lambda>e. fst e = k) es) < kLeafMaxKeys)"

lemma few_equal_part:
  assumes "few_equal (as @ bs @ cs)"
  shows "few_equal bs"
  unfolding few_equal_def
proof
  fix k
  have "length (filter (\<lambda>e. fst e = k) (as @ bs @ cs)) < kLeafMaxKeys" using assms unfolding few_equal_def by blast
  then show "length (filter (\<lambda>e. fst e = k) bs) < kLeafMaxKeys" by simp
qed

lemma few_equal_diff:
  assumes "few_equal es" and "length es = kLeafMaxKeys"
  shows "\<exists>j. 1 \<le> j \<and> j < length es \<and> fst (es ! j) \<noteq> fst (es ! (j - 1))"
proof (rule ccontr)
  assume "\<not> ?thesis"
  then have step: "fst (es ! j) = fst (es ! (j - 1))" if "1 \<le> j" "j < length es" for j using that by blast
  have eq: "fst (es ! j) = fst (es ! 0)" if "j < length es" for j
    using that
  proof (induction j)
    case (Suc j)
    then show ?case using step [of "Suc j"] by simp
  qed simp
  have "filter (\<lambda>e. fst e = fst (es ! 0)) es = es"
    using eq by (intro filter_True ballI) (metis in_set_conv_nth)
  with assms show False by (metis few_equal_def less_irrefl)
qed

lemma bt_root_page:
  assumes "bt_wf v lo hi nxt t"
  obtains p where "v (bt_id t) = Some p" "node_ok p" "node_full p = bt_full t"
proof (cases t)
  case (BLeaf pid es)
  with assms obtain p where "v pid = Some p" "leaf_page p es nxt" by auto
  with BLeaf leaf_pageD [of p es nxt] show thesis by (intro that [of p]) (auto simp: node_full_def bt_full_def)
next
  case (BNode pid ks ts)
  with assms obtain p where "v pid = Some p" "inner_page p ks (map bt_id ts)" by auto
  with BNode inner_pageD [of p ks "map bt_id ts"] show thesis by (intro that [of p]) (auto simp: node_full_def bt_full_def)
qed

text \<open>
  Splitting a full tree gives two trees with the same leaves in front, the same entries and the same
  height, neither of them full, with the separator between them.
\<close>

definition split_page :: "Page \<Rightarrow> page_id_t \<Rightarrow> Page \<Rightarrow> Page \<times> Page \<times> Key" where
  "split_page child new r = (if BPlusNode_IsLeaf child then split_leaf child new r else split_internal child r)"

definition split_into ::
  "(page_id_t \<Rightarrow> Page option) \<Rightarrow> int option \<Rightarrow> int option \<Rightarrow> page_id_t \<Rightarrow> btree \<Rightarrow> page_id_t \<Rightarrow> Page \<Rightarrow> Page \<Rightarrow> Key \<Rightarrow> btree \<Rightarrow> btree \<Rightarrow> bool" where
  "split_into v lo hi nxt t new p' r' s t1 t2 \<longleftrightarrow>
     bt_id t1 = bt_id t \<and> bt_id t2 = new \<and> first_leaf t1 = first_leaf t \<and> bt_entries t1 @ bt_entries t2 = bt_entries t \<and>
     \<not> bt_full t1 \<and> \<not> bt_full t2 \<and> node_ok p' \<and> node_ok r' \<and>
     set (bt_pages t1) \<union> set (bt_pages t2) = insert new (set (bt_pages t)) \<and>
     (new \<notin> set (bt_pages t) \<longrightarrow> distinct (bt_pages t) \<longrightarrow> distinct (bt_pages t1 @ bt_pages t2)) \<and>
     (\<forall>h. bt_height h t \<longrightarrow> bt_height h t1 \<and> bt_height h t2) \<and>
     (\<forall>v'. v' (bt_id t) = Some p' \<longrightarrow> v' new = Some r' \<longrightarrow> (\<forall>q \<in> set (tl (bt_pages t)). v' q = v q) \<longrightarrow>
        bts_wf v' lo hi nxt [s] [t1, t2])"

lemma split_leaf_tree:
  assumes wf: "bt_wf v lo hi nxt (BLeaf pid es)" and p: "v pid = Some p" and full: "bt_full (BLeaf pid es)"
    and few: "few_equal es" and new: "new \<noteq> kInvalidPageId" and r: "node_ok r"
  obtains p' r' s t1 t2 where "split_page p new r = (r', p', s)" "split_into v lo hi nxt (BLeaf pid es) new p' r' s t1 t2"
proof -
  have pg: "leaf_page p es nxt" and srt: "sorted (map ekey es)" and bnd: "\<forall>e \<in> set es. above_low lo (ekey e) \<and> below_high hi (ekey e)"
    and pid: "pid \<noteq> kInvalidPageId"
    using wf p by auto
  have n: "length es = kLeafMaxKeys" using pg full by (simp add: leaf_page_def bt_full_def)
  then have two: "2 \<le> length es" by (simp add: kLeafMaxKeys_value)
  obtain p' r' m where s: "split_leaf p new r = (r', p', fst (es ! m))" "0 < m" "m < length es"
    "fst (es ! m) \<noteq> fst (es ! (m - 1))" "leaf_page p' (take m es) new" "leaf_page r' (drop m es) nxt"
    by (rule split_leaf_pages [OF pg two r few_equal_diff [OF few n]])
  have le: "ekey (es ! i) \<le> ekey (es ! j)" if "i \<le> j" "j < length es" for i j
    using sorted_nth_mono [OF srt, of i j] that by simp
  have lt: "ekey (es ! (m - 1)) < ekey (es ! m)"
    using le [of "m - 1" m] s(2-4) sint_eq_iff [of "fst (es ! (m - 1))" "fst (es ! m)"] by fastforce
  have left: "ekey e < ekey (es ! m)" if e: "e \<in> set (take m es)" for e
  proof -
    obtain i where "i < length (take m es)" "take m es ! i = e" using e by (meson in_set_conv_nth)
    then show ?thesis using le [of i "m - 1"] lt s(3) by force
  qed
  have right: "ekey (es ! m) \<le> ekey e" if e: "e \<in> set (drop m es)" for e
  proof -
    obtain i where "i < length (drop m es)" "drop m es ! i = e" using e by (meson in_set_conv_nth)
    then show ?thesis using le [of m "m + i"] by auto
  qed
  have "beyond_low lo (ekey (es ! m))"
    using bnd s(2,3) lt by (intro beyond_lowI [of lo "ekey (es ! (m - 1))"]) auto
  moreover have "below_high hi (ekey (es ! m))" using bnd s(3) by auto
  moreover have "sorted (map ekey (take m es))" "sorted (map ekey (drop m es))"
    using srt by (simp_all add: take_map [symmetric] drop_map [symmetric] sorted_wrt_take sorted_wrt_drop)
  moreover have "set (take m es) \<subseteq> set es" "set (drop m es) \<subseteq> set es" by (rule set_take_subset, rule set_drop_subset)
  ultimately have "bts_wf v' lo hi nxt [fst (es ! m)] [BLeaf pid (take m es), BLeaf new (drop m es)]"
    if "v' pid = Some p'" "v' new = Some r'" for v'
    using that s(5,6) left right bnd new pid by (auto simp: subset_iff)
  moreover have "node_ok p'" "node_ok r'" using leaf_pageD(1) s(5,6) by blast+
  ultimately have "split_into v lo hi nxt (BLeaf pid es) new p' r' (fst (es ! m)) (BLeaf pid (take m es)) (BLeaf new (drop m es))"
    using s(2,3) n by (auto simp: split_into_def bt_full_def)
  moreover have "split_page p new r = (r', p', fst (es ! m))" using s(1) leaf_pageD(2) [OF pg] by (simp add: split_page_def)
  ultimately show thesis using that by blast
qed

lemma concat_take_drop: "concat (map f (take m xs)) @ concat (map f (drop m xs)) = concat (map f xs)"
  by (metis append_take_drop_id concat_append map_append)

lemma split_internal_tree:
  assumes wf: "bt_wf v lo hi nxt (BNode pid ks ts)" and p: "v pid = Some p" and full: "bt_full (BNode pid ks ts)"
    and r: "node_ok r"
  obtains p' r' s t1 t2 where "split_page p new r = (r', p', s)" "split_into v lo hi nxt (BNode pid ks ts) new p' r' s t1 t2"
proof -
  have pg: "inner_page p ks (map bt_id ts)" and bts: "bts_wf v lo hi nxt ks ts" using wf p by auto
  have n: "length ks = kInternalMaxKeys" using pg full by (simp add: inner_page_def bt_full_def)
  then have two: "2 \<le> length ks" by (simp add: kInternalMaxKeys_value)
  define m where "m = length ks div 2"
  have m: "m < length ks" "length ts = Suc (length ks)" using two bts_length [OF bts] by (simp_all add: m_def)
  obtain p' r' where s: "split_internal p r = (r', p', ks ! m)"
    "inner_page p' (take m ks) (take (m + 1) (map bt_id ts))" "inner_page r' (drop (m + 1) ks) (drop (m + 1) (map bt_id ts))"
    using split_internal_pages [OF pg two r] unfolding m_def by blast
  let ?l = "take (m + 1) ts" and ?r = "drop (m + 1) ts"
  let ?t1 = "BNode pid (take m ks) ?l" and ?t2 = "BNode new (drop (m + 1) ks) ?r"
  have dec: "bts_wf v' lo hi nxt ks ts \<longleftrightarrow> ?r \<noteq> [] \<and> beyond_low lo (sint (ks ! m)) \<and> below_high hi (sint (ks ! m)) \<and>
      bts_wf v' lo (Some (sint (ks ! m))) (first_leaf (hd ?r)) (take m ks) ?l \<and> bts_wf v' (Some (sint (ks ! m))) hi nxt (drop (m + 1) ks) ?r" for v'
    using bts_append [of ?l "take m ks" v' lo hi nxt "ks ! m" "drop (m + 1) ks" ?r] m by (simp add: id_take_nth_drop [symmetric])
  have ne: "bt_leaves t \<noteq> []" if "t \<in> set ts" for t using bt_leaves_nonempty(2) [OF bts] that by blast
  have "ts \<noteq> []" using m(2) by auto
  then have hd: "hd ts \<in> set ts" "hd ?l = hd ts" "?l \<noteq> []" "?r \<noteq> []" using m by auto
  have "hd ?r \<in> set ts" using in_set_dropD [OF hd_in_set [OF hd(4)]] .
  then have fl: "first_leaf ?t1 = first_leaf (BNode pid ks ts)" "first_leaf ?t2 = first_leaf (hd ?r)"
    using hd ne \<open>ts \<noteq> []\<close> by simp_all
  have w: "bts_wf v' lo hi nxt [ks ! m] [?t1, ?t2]"
    if v': "v' pid = Some p'" "v' new = Some r'" "\<forall>q \<in> set (tl (bt_pages (BNode pid ks ts))). v' q = v q" for v'
  proof -
    have "bts_wf v' lo hi nxt ks ts" using bts bt_frame(2) [of ts v' v] v'(3) by auto
    with dec show ?thesis using v' s(2,3) fl(2) by (simp add: take_map drop_map)
  qed
  have ds: "distinct (bt_pages ?t1 @ bt_pages ?t2)"
    if "new \<notin> set (bt_pages (BNode pid ks ts))" "distinct (bt_pages (BNode pid ks ts))"
  proof -
    let ?P = "concat (map bt_pages ?l)" and ?Q = "concat (map bt_pages ?r)"
    have "new \<notin> set (pid # ?P @ ?Q)" "distinct (pid # ?P @ ?Q)" using that unfolding concat_take_drop by simp_all
    then show ?thesis by auto
  qed
  have un: "set (bt_pages ?t1) \<union> set (bt_pages ?t2) = insert new (set (bt_pages (BNode pid ks ts)))"
    using arg_cong [OF concat_take_drop [of bt_pages "m + 1" ts], of set] by auto
  have en: "bt_entries ?t1 @ bt_entries ?t2 = bt_entries (BNode pid ks ts)"
    by (simp only: bt_entries_simps concat_take_drop)
  have ht: "bt_height h ?t1 \<and> bt_height h ?t2" if "bt_height h (BNode pid ks ts)" for h
    using that hd(3,4) by (cases h) (auto dest: in_set_takeD in_set_dropD)
  have nf: "\<not> bt_full ?t1" "\<not> bt_full ?t2" using n m(1) by (simp_all add: bt_full_def)
  have ok: "node_ok p'" "node_ok r'" using inner_pageD(1) s(2,3) by blast+
  have "split_into v lo hi nxt (BNode pid ks ts) new p' r' (ks ! m) ?t1 ?t2"
    unfolding split_into_def bt_id.simps using w ds un en ht nf ok fl(1) by blast
  moreover have "split_page p new r = (r', p', ks ! m)" using s(1) inner_pageD(2) [OF pg] by (simp add: split_page_def)
  ultimately show thesis using that by blast
qed

lemma split_tree:
  assumes "bt_wf v lo hi nxt t" and "v (bt_id t) = Some p" and "bt_full t" and "few_equal (bt_entries t)"
    and "new \<noteq> kInvalidPageId" and "node_ok r"
  obtains p' r' s t1 t2 where "split_page p new r = (r', p', s)" "split_into v lo hi nxt t new p' r' s t1 t2"
proof (cases t)
  case (BLeaf pid es)
  show thesis
    by (rule split_leaf_tree [of v lo hi nxt pid es p new r]) (use assms BLeaf that in simp_all)
next
  case (BNode pid ks ts)
  show thesis
    by (rule split_internal_tree [of v lo hi nxt pid ks ts p r new]) (use assms BNode that in simp_all)
qed

end
