(* ===== verification/Bplus_Insert.thy ===== *)
theory Bplus_Insert
  imports Bplus_Index
begin

text \<open>
  Insertion into the B+ tree: \<open>BPlusTree_SplitChild\<close> replaces a full child by its two halves,
  \<open>BPlusTree_InsertNonFull\<close> inserts the entry at its place in the sorted list of entries and returns, for a
  tree of any height.
\<close>

lemma bt_pages_mapped:
  "bt_wf v lo hi nxt t \<Longrightarrow> \<forall>q \<in> set (bt_pages t). v q \<noteq> None"
  "bts_wf v lo hi nxt ks ts \<Longrightarrow> \<forall>t \<in> set ts. \<forall>q \<in> set (bt_pages t). v q \<noteq> None"
  by (induction v lo hi nxt t and v lo hi nxt ks ts rule: bt_wf_bts_wf.induct) auto

lemma bt_id_in_pages: "bt_id t \<in> set (bt_pages t)"
  by (cases t) auto

lemma bt_wf_upd:
  assumes "bt_wf v lo hi nxt t" and "q \<notin> set (bt_pages t)"
  shows "bt_wf (v(q \<mapsto> p)) lo hi nxt t"
proof -
  have "bt_wf (v(q \<mapsto> p)) lo hi nxt t = bt_wf v lo hi nxt t" using assms(2) by (intro bt_frame(1)) auto
  with assms(1) show ?thesis by simp
qed

lemma SplitChild_tree:
  assumes ready: "pool.ready bp" and room: "pool_room bp 3" and av: "0 < bp_avail bp"
    and p: "bp_view bp pid = Some p" "inner_page p ks cs" and i: "i \<le> length ks" "length ks < kInternalMaxKeys"
    and t: "bt_wf (bp_view bp) lo hi nxt t" "bt_id t = cs ! i" "bt_full t" "few_equal (bt_entries t)" "pid \<noteq> bt_id t"
  obtains new s t1 t2 p' q' r' bp' where "BPlusTree_SplitChild pid i bp = Some (new, bp')"
    "pool_to bp ((bp_view bp)(new \<mapsto> r', bt_id t \<mapsto> q', pid \<mapsto> p')) (bp_avail bp - 1) bp'" "bp_view bp new = None"
    "inner_page p' (take i ks @ s # drop i ks) (take (i + 1) cs @ new # drop (i + 1) cs)"
    "split_into (bp_view bp) lo hi nxt t new q' r' s t1 t2"
proof -
  obtain q where q: "bp_view bp (bt_id t) = Some q" using bt_root_page [OF t(1)] by blast
  have c: "BPlusNode_InternalChildAt p i = bt_id t" using inner_pageD(7) [OF p(2) i(1)] t(2) by simp
  obtain j bp1 k bp2 l new bp3 where f: "BufferPool_FetchPage pid bp = (Some j, bp1)" "BufferPool_page j bp1 = p"
    "BufferPool_FetchPage (bt_id t) bp1 = (Some k, bp2)" "BufferPool_NewPage bp2 = (Some (l, new), bp3)"
    "bp_view bp new = None" "new \<noteq> kInvalidPageId" "BufferPool_page k bp3 = q" "BufferPool_page l bp3 = Page_Reset"
    and upd: "\<And>p' q' r'. length p' = kPageSize \<Longrightarrow> length q' = kPageSize \<Longrightarrow> length r' = kPageSize \<Longrightarrow>
       BufferPool_page j (BufferPool_put k q' (BufferPool_put l r' bp3)) = p \<and>
       pool_to bp ((bp_view bp)(new \<mapsto> r', bt_id t \<mapsto> q', pid \<mapsto> p')) (bp_avail bp - 1)
         (unpin_page pid True (unpin_page new True (unpin_page (bt_id t) True
           (BufferPool_put j p' (BufferPool_put k q' (BufferPool_put l r' bp3))))))"
    by (rule three_pages [OF ready room av p(1) q t(5)]) blast
  have "node_ok Page_Reset" by (simp add: node_ok_def)
  then obtain q' r' s t1 t2 where sp: "split_page q new Page_Reset = (r', q', s)"
    "split_into (bp_view bp) lo hi nxt t new q' r' s t1 t2"
    by (rule split_tree [OF t(1) q t(3,4) f(6)])
  let ?p = "BPlusNode_InsertInternalKeyChildAt i s new p"
  have ip: "inner_page ?p (take i ks @ s # drop i ks) (take (i + 1) cs @ new # drop (i + 1) cs)"
    by (rule InsertInternalKeyChildAt_page [OF p(2) i])
  have len: "length ?p = kPageSize" "length q' = kPageSize" "length r' = kPageSize"
    using inner_pageD(1) [OF ip] sp(2) by (simp_all add: node_ok_def split_into_def)
  note u = upd [OF len]
  have "BPlusTree_SplitChild pid i bp = Some (new, unpin_page pid True (unpin_page new True (unpin_page (bt_id t) True
           (BufferPool_put j ?p (BufferPool_put k q' (BufferPool_put l r' bp3))))))"
    using f sp(1) c u by (cases "BPlusNode_IsLeaf q") (simp_all add: BPlusTree_SplitChild_def split_page_def Let_def)
  from that [OF this conjunct2 [OF u] f(5) ip sp(2)] show thesis .
qed

section \<open>Inserting below a node\<close>

text \<open>
  \<open>bt_inserted key rid lo hi nxt h v t v' t'\<close>: from the pages \<open>v\<close> to \<open>v'\<close> the entry has been inserted into \<open>t\<close>, which has
  become \<open>t'\<close>; the new pages were free and pages outside the tree are as before.
\<close>

definition bt_inserted :: "Key \<Rightarrow> RecordId \<Rightarrow> int option \<Rightarrow> int option \<Rightarrow> page_id_t \<Rightarrow> nat \<Rightarrow>
    (page_id_t \<Rightarrow> Page option) \<Rightarrow> btree \<Rightarrow> (page_id_t \<Rightarrow> Page option) \<Rightarrow> btree \<Rightarrow> bool" where
  "bt_inserted key rid lo hi nxt h v t v' t' \<longleftrightarrow>
     bt_wf v' lo hi nxt t' \<and> bt_id t' = bt_id t \<and> first_leaf t' = first_leaf t \<and> bt_height h t' \<and>
     bt_entries t' = ins_entry key rid (bt_entries t) \<and> distinct (bt_pages t') \<and>
     (\<forall>q \<in> set (bt_pages t'). q \<in> set (bt_pages t) \<or> v q = None) \<and>
     (\<forall>q. v q \<noteq> None \<longrightarrow> q \<notin> set (bt_pages t) \<longrightarrow> v' q = v q)"

text \<open>An insertion into the child for the key is an insertion into the node.\<close>

lemma insert_in_child:
  assumes wf: "bt_wf v lo hi nxt (BNode pid ks ts)" and b: "above_low lo (sint key)" "below_high hi (sint key)"
    and d: "distinct (bt_pages (BNode pid ks ts))" and h: "bt_height (Suc h) (BNode pid ks ts)"
    and c: "c = ts ! length (takeWhile (\<lambda>k. sint k \<le> sint key) ks)"
    and sub: "\<And>lo' hi' nxt'. bt_wf v lo' hi' nxt' c \<Longrightarrow> above_low lo' (sint key) \<Longrightarrow> below_high hi' (sint key) \<Longrightarrow>
      \<exists>x c'. G x \<and> bt_inserted key rid lo' hi' nxt' h v c (V x) c'"
  shows "\<exists>x t'. G x \<and> bt_inserted key rid lo hi nxt (Suc h) v (BNode pid ks ts) (V x) t'"
proof -
  have bts: "bts_wf v lo hi nxt ks ts" using wf by simp
  obtain ts1 c0 ts2 lo' hi' nxt' where ts: "ts = ts1 @ c0 # ts2" "length ts1 = length (takeWhile (\<lambda>k. sint k \<le> sint key) ks)"
    and c0: "bt_wf v lo' hi' nxt' c0" "above_low lo' (sint key)" "below_high hi' (sint key)"
    and l: "\<forall>u \<in> set ts1. \<forall>e \<in> set (bt_entries u). ekey e < sint key"
    and g: "\<forall>u \<in> set ts2. \<forall>e \<in> set (bt_entries u). sint key < ekey e"
    and rep: "\<And>v' ms us. \<forall>u \<in> set ts1 \<union> set ts2. \<forall>q \<in> set (bt_pages u). v' q = v q \<Longrightarrow> bts_wf v' lo' hi' nxt' ms us \<Longrightarrow>
      first_leaf (hd us) = first_leaf c0 \<Longrightarrow>
      bts_wf v' lo hi nxt (takeWhile (\<lambda>k. sint k \<le> sint key) ks @ ms @ dropWhile (\<lambda>k. sint k \<le> sint key) ks) (ts1 @ us @ ts2)"
    by (rule bts_focus [OF bts b]) (rule that; assumption)
  have c0c: "c0 = c" using c ts by (metis nth_append_length)
  note sub [OF c0(1-3) [unfolded c0c]]
  then obtain x c' where x: "G x" and ins: "bt_wf (V x) lo' hi' nxt' c'" "bt_id c' = bt_id c" "first_leaf c' = first_leaf c"
    "bt_height h c'" "bt_entries c' = ins_entry key rid (bt_entries c)" "distinct (bt_pages c')"
    "\<forall>q \<in> set (bt_pages c'). q \<in> set (bt_pages c) \<or> v q = None"
    "\<forall>q. v q \<noteq> None \<longrightarrow> q \<notin> set (bt_pages c) \<longrightarrow> V x q = v q"
    unfolding bt_inserted_def by blast
  let ?t' = "BNode pid ks (ts1 @ c' # ts2)"
  have mapped: "\<forall>q \<in> set (bt_pages (BNode pid ks ts)). v q \<noteq> None" by (rule bt_pages_mapped(1) [OF wf])
  have dd: "pid \<notin> set (bt_pages c)" "\<forall>u \<in> set ts1 \<union> set ts2. set (bt_pages u) \<inter> set (bt_pages c) = {}"
    using d c0c by (auto simp: ts)
  have keep: "V x pid = v pid" "\<forall>u \<in> set ts1 \<union> set ts2. \<forall>q \<in> set (bt_pages u). V x q = v q"
  proof -
    have "V x q = v q" if "q \<in> set (bt_pages (BNode pid ks ts))" "q \<notin> set (bt_pages c)" for q
      using ins(8) mapped that by blast
    with dd show "V x pid = v pid" "\<forall>u \<in> set ts1 \<union> set ts2. \<forall>q \<in> set (bt_pages u). V x q = v q"
      by (force simp: ts)+
  qed
  have "bts_wf (V x) lo hi nxt ks (ts1 @ c' # ts2)"
    using rep [OF keep(2), of "[]" "[c']"] ins(1,3) c0c by simp
  then have "bt_wf (V x) lo hi nxt ?t'" using wf keep(1) ins(2) c0c by (auto simp: ts)
  moreover have "first_leaf ?t' = first_leaf (BNode pid ks ts)"
    using ins(3) c0c bt_leaves_nonempty(2) [OF bts] bt_leaves_nonempty(1) [OF ins(1)] ts(1) by (cases ts1) simp_all
  moreover have "bt_height (Suc h) ?t'" using h ins(4) by (auto simp: ts)
  moreover have "bt_entries ?t' = ins_entry key rid (bt_entries (BNode pid ks ts))"
    using ins_entry_middle [of "concat (map bt_entries ts1)" key "concat (map bt_entries ts2)" rid "bt_entries c"] l g ins(5) c0c
    by (force simp: ts)
  moreover have "distinct (bt_pages ?t')"
  proof -
    have "q \<notin> set (bt_pages c')" if "q \<in> set (bt_pages (BNode pid ks ts))" "q \<notin> set (bt_pages c)" for q
      using ins(7) mapped that by blast
    with dd have "pid \<notin> set (bt_pages c')" "\<forall>u \<in> set ts1 \<union> set ts2. set (bt_pages u) \<inter> set (bt_pages c') = {}"
      by (force simp: ts)+
    with d ins(6) show ?thesis by (auto simp: ts)
  qed
  moreover have "\<forall>q \<in> set (bt_pages ?t'). q \<in> set (bt_pages (BNode pid ks ts)) \<or> v q = None" using ins(7) c0c by (auto simp: ts)
  moreover have "\<forall>q. v q \<noteq> None \<longrightarrow> q \<notin> set (bt_pages (BNode pid ks ts)) \<longrightarrow> V x q = v q" using ins(8) c0c by (auto simp: ts)
  ultimately have "bt_inserted key rid lo hi nxt (Suc h) v (BNode pid ks ts) (V x) ?t'" by (simp add: bt_inserted_def)
  with x show ?thesis by blast
qed

section \<open>Insertion into a node that is not full\<close>

lemma InsertNonFull_leaf:
  assumes ready: "pool.ready bp" and wf: "bt_wf (bp_view bp) lo hi nxt (BLeaf pid es)"
    and n: "\<not> bt_full (BLeaf pid es)" and b: "above_low lo (sint key)" "below_high hi (sint key)"
  shows "\<exists>bp'. BPlusTree_InsertNonFull pid key rid bp = Some bp' \<and> pool_to bp (bp_view bp') (bp_avail bp) bp' \<and>
    bt_inserted key rid lo hi nxt 0 (bp_view bp) (BLeaf pid es) (bp_view bp') (BLeaf pid (ins_entry key rid es))"
proof -
  obtain p where p: "bp_view bp pid = Some p" "leaf_page p es nxt" using wf by auto
  obtain i bp1 where f: "BufferPool_FetchPage pid bp = (Some i, bp1)" "BufferPool_page i bp1 = p"
    and u: "\<And>p' d. length p' = kPageSize \<Longrightarrow> d \<or> p' = p \<Longrightarrow>
      pool_to bp ((bp_view bp)(pid \<mapsto> p')) (bp_avail bp) (unpin_page pid d (BufferPool_put i p' bp1))"
    by (rule access_page [OF ready p(1)]) blast
  let ?n = "length (takeWhile (\<lambda>e. ekey e < sint key) es)"
  let ?p = "BPlusNode_InsertLeafEntryAt ?n key rid p"
  let ?bp = "unpin_page pid True (BufferPool_put i ?p bp1)"
  have "take ?n es @ (key, rid) # drop ?n es = ins_entry key rid es"
    by (simp add: ins_entry_def takeWhile_eq_take [symmetric] dropWhile_eq_drop [symmetric])
  moreover have "?n \<le> length es" by (rule length_takeWhile_le)
  ultimately have p': "leaf_page ?p (ins_entry key rid es) nxt"
    using InsertLeafEntryAt_page [OF p(2), of ?n key rid] n by (simp add: bt_full_def)
  have t: "pool_to bp ((bp_view bp)(pid \<mapsto> ?p)) (bp_avail bp) ?bp"
    using u [of ?p True] leaf_pageD(1) [OF p'] by (simp add: node_ok_def)
  note v = pool_toD(2) [OF t]
  have "BPlusTree_InsertNonFull pid key rid bp = Some ?bp"
    using f leaf_pageD(2,3) [OF p(2)] leaf_position [OF p(2), of key] by (subst BPlusTree_InsertNonFull.simps) (simp add: Let_def)
  moreover have "bt_wf (bp_view ?bp) lo hi nxt (BLeaf pid (ins_entry key rid es))"
    using wf p' b by (auto simp: v set_ins_entry sorted_ins_entry)
  ultimately show ?thesis using t v by (intro exI [of _ ?bp]) (simp add: bt_inserted_def)
qed

text \<open>The child for the key, after the split of the child that was full.\<close>

lemma takeWhile_split:
  assumes "ks1 = takeWhile (\<lambda>k. sint k \<le> key) ks" and "ks2 = dropWhile (\<lambda>k. sint k \<le> key) ks" and "length ts1 = length ks1"
  shows "(ts1 @ t1 # t2 # ts2) ! length (takeWhile (\<lambda>k. sint k \<le> key) (ks1 @ s # ks2)) = (if sint s \<le> key then t2 else t1)"
proof -
  have "\<forall>k \<in> set ks1. sint k \<le> key" using assms(1) by (auto dest: set_takeWhileD)
  moreover have "takeWhile (\<lambda>k. sint k \<le> key) ks2 = []" unfolding assms(2) by (induction ks) auto
  ultimately have "takeWhile (\<lambda>k. sint k \<le> key) (ks1 @ s # ks2) = ks1 @ (if sint s \<le> key then [s] else [])"
    by (simp add: takeWhile_append2)
  then show ?thesis using assms(3) by (simp add: nth_append)
qed

lemma inner_child:
  assumes "inner_page p ks (map bt_id ts)"
  shows "BPlusNode_InternalChildAt p (BPlusTree_FindChildIndex p key) = bt_id (ts ! length (takeWhile (\<lambda>k. sint k \<le> sint key) ks))"
proof -
  have "length (takeWhile (\<lambda>k. sint k \<le> sint key) ks) \<le> length ks" by (rule length_takeWhile_le)
  with inner_pageD(4,7) [OF assms] FindChildIndex_keys [OF assms] show ?thesis by simp
qed

text \<open>One step of the descent: the child for the key, split first when it is full.\<close>

lemma InsertNonFull_step:
  assumes ready: "pool.ready bp" and p: "bp_view bp pid = Some p" "inner_page p ks (map bt_id ts)"
    and c: "c = ts ! length (takeWhile (\<lambda>k. sint k \<le> sint key) ks)" and wf: "bt_wf (bp_view bp) lo hi nxt c"
  obtains bp1 where "pool_to bp (bp_view bp) (bp_avail bp) bp1"
    "\<not> bt_full c \<Longrightarrow> BPlusTree_InsertNonFull pid key rid bp = BPlusTree_InsertNonFull (bt_id c) key rid bp1"
    "\<And>new bp2. bt_full c \<Longrightarrow> BPlusTree_SplitChild pid (length (takeWhile (\<lambda>k. sint k \<le> sint key) ks)) bp1 = Some (new, bp2) \<Longrightarrow>
      BPlusTree_InsertNonFull pid key rid bp =
        (case child_for_key pid key bp2 of None \<Rightarrow> None | Some (c', bp3) \<Rightarrow> BPlusTree_InsertNonFull c' key rid bp3)"
proof -
  obtain i bp1 where f: "BufferPool_FetchPage pid bp = (Some i, bp1)" "BufferPool_page i bp1 = p"
    and t: "pool_to bp (bp_view bp) (bp_avail bp) (unpin_page pid False bp1)"
    by (rule access_page [OF ready p(1)])
  obtain q where q: "bp_view bp (bt_id c) = Some q" "node_full q = bt_full c" using bt_root_page [OF wf] by blast
  obtain j bp2 where g: "BufferPool_FetchPage (bt_id c) (unpin_page pid False bp1) = (Some j, bp2)" "BufferPool_page j bp2 = q"
    and u: "pool_to (unpin_page pid False bp1) (bp_view (unpin_page pid False bp1)) (bp_avail (unpin_page pid False bp1))
      (unpin_page (bt_id c) False bp2)"
    by (rule access_page [OF pool_toD(1) [OF t]]) (use pool_toD(2) [OF t] q in auto)
  let ?bp = "unpin_page (bt_id c) False bp2"
  have t': "pool_to bp (bp_view bp) (bp_avail bp) ?bp" using pool_to_trans [OF t u] pool_toD(2,3) [OF t] by simp
  note idx = inner_child [OF p(2), of key, folded c] FindChildIndex_keys [OF p(2), of key] inner_pageD(2) [OF p(2)]
  have "\<not> bt_full c \<Longrightarrow> BPlusTree_InsertNonFull pid key rid bp = BPlusTree_InsertNonFull (bt_id c) key rid ?bp"
    using f g q idx by (subst BPlusTree_InsertNonFull.simps) (simp add: Let_def)
  moreover have "BPlusTree_InsertNonFull pid key rid bp =
        (case child_for_key pid key bp2 of None \<Rightarrow> None | Some (c', bp3) \<Rightarrow> BPlusTree_InsertNonFull c' key rid bp3)"
    if "bt_full c" "BPlusTree_SplitChild pid (length (takeWhile (\<lambda>k. sint k \<le> sint key) ks)) ?bp = Some (new, bp2)" for new bp2
    using f g q idx that by (subst BPlusTree_InsertNonFull.simps) (simp add: Let_def)
  ultimately show thesis using that [OF t'] by blast
qed

lemma child_for_key_page:
  assumes "pool.ready bp" and "bp_view bp pid = Some p" and "inner_page p ks (map bt_id ts)"
  obtains bp' where "child_for_key pid key bp = Some (bt_id (ts ! length (takeWhile (\<lambda>k. sint k \<le> sint key) ks)), bp')"
    "pool_to bp (bp_view bp) (bp_avail bp) bp'"
proof -
  obtain i bp1 where f: "BufferPool_FetchPage pid bp = (Some i, bp1)" "BufferPool_page i bp1 = p"
    and t: "pool_to bp (bp_view bp) (bp_avail bp) (unpin_page pid False bp1)"
    by (rule access_page [OF assms(1,2)])
  with inner_child [OF assms(3), of key] that show thesis by (simp add: child_for_key_def Let_def)
qed

text \<open>The node after the split of the child for the key holds the same entries.\<close>

lemma split_focus:
  assumes ts: "ts = ts1 @ c # ts2" and si: "split_into v lo' hi' nxt' c new q' r' s t1 t2"
    and d: "distinct (bt_pages (BNode pid ks ts))" and new: "new \<notin> set (bt_pages (BNode pid ks ts))"
  shows "set (bt_pages (BNode pid ks' (ts1 @ t1 # t2 # ts2))) = insert new (set (bt_pages (BNode pid ks ts)))"
    and "distinct (bt_pages (BNode pid ks' (ts1 @ t1 # t2 # ts2)))"
    and "bt_height h (BNode pid ks ts) \<Longrightarrow> bt_height h (BNode pid ks' (ts1 @ t1 # t2 # ts2))"
    and "bt_entries (BNode pid ks' (ts1 @ t1 # t2 # ts2)) = bt_entries (BNode pid ks ts)"
proof -
  note si = si [unfolded split_into_def]
  show "set (bt_pages (BNode pid ks' (ts1 @ t1 # t2 # ts2))) = insert new (set (bt_pages (BNode pid ks ts)))"
    using si by (auto simp: ts)
  have dd: "pid \<notin> set (bt_pages c)" "\<forall>u \<in> set ts1 \<union> set ts2. set (bt_pages u) \<inter> set (bt_pages c) = {}"
    "distinct (bt_pages c)" using d by (auto simp: ts)
  have u: "set (bt_pages t1) \<union> set (bt_pages t2) = insert new (set (bt_pages c))" "distinct (bt_pages t1 @ bt_pages t2)"
    using si new dd(3) by (auto simp: ts)
  have "set (bt_pages u) \<inter> (set (bt_pages t1) \<union> set (bt_pages t2)) = {}" if "u \<in> set ts1 \<union> set ts2" for u
    using dd(2) new that unfolding u(1) by (auto simp: ts)
  moreover have "pid \<notin> set (bt_pages t1) \<union> set (bt_pages t2)" using dd(1) new unfolding u(1) by auto
  ultimately show "distinct (bt_pages (BNode pid ks' (ts1 @ t1 # t2 # ts2)))" using d u(2) by (auto simp: ts)
  show "bt_height h (BNode pid ks ts) \<Longrightarrow> bt_height h (BNode pid ks' (ts1 @ t1 # t2 # ts2))" using si by (cases h) (auto simp: ts)
  show "bt_entries (BNode pid ks' (ts1 @ t1 # t2 # ts2)) = bt_entries (BNode pid ks ts)" using si by (simp add: ts)
qed

lemma split_focus_wf:
  assumes wf: "bt_wf v lo hi nxt (BNode pid ks (ts1 @ c # ts2))" and si: "split_into v lo' hi' nxt' c new q' r' s t1 t2"
    and d: "distinct (bt_pages (BNode pid ks (ts1 @ c # ts2)))" and new: "v new = None"
    and rep: "\<And>v' ms us. \<forall>u \<in> set ts1 \<union> set ts2. \<forall>q \<in> set (bt_pages u). v' q = v q \<Longrightarrow> bts_wf v' lo' hi' nxt' ms us \<Longrightarrow>
      first_leaf (hd us) = first_leaf c \<Longrightarrow> bts_wf v' lo hi nxt (ks1 @ ms @ ks2) (ts1 @ us @ ts2)"
    and p': "inner_page p' (ks1 @ s # ks2) (map bt_id (ts1 @ t1 # t2 # ts2))"
  shows "bt_wf (v(new \<mapsto> r', bt_id c \<mapsto> q', pid \<mapsto> p')) lo hi nxt (BNode pid (ks1 @ s # ks2) (ts1 @ t1 # t2 # ts2))"
    and "first_leaf (BNode pid (ks1 @ s # ks2) (ts1 @ t1 # t2 # ts2)) = first_leaf (BNode pid ks (ts1 @ c # ts2))"
proof -
  let ?v' = "v(new \<mapsto> r', bt_id c \<mapsto> q', pid \<mapsto> p')"
  note si = si [unfolded split_into_def]
  have new': "new \<notin> set (bt_pages (BNode pid ks (ts1 @ c # ts2)))" using bt_pages_mapped(1) [OF wf] new by blast
  have dd: "pid \<notin> set (bt_pages c)" "\<forall>u \<in> set ts1 \<union> set ts2. set (bt_pages u) \<inter> set (bt_pages c) = {}"
    "distinct (bt_pages c)" "\<forall>u \<in> set ts1 \<union> set ts2. pid \<notin> set (bt_pages u)" using d by auto
  have keep: "\<forall>u \<in> set ts1 \<union> set ts2. \<forall>q \<in> set (bt_pages u). ?v' q = v q" using dd new' bt_id_in_pages [of c] by auto
  have "\<forall>q \<in> set (tl (bt_pages c)). ?v' q = v q" using dd(1,3) new' by (cases c) auto
  moreover have "?v' (bt_id c) = Some q'" "?v' new = Some r'" using dd(1) new' bt_id_in_pages [of c] by auto
  ultimately have two: "bts_wf ?v' lo' hi' nxt' [s] [t1, t2]" using si by blast
  from rep [OF keep this] have bts: "bts_wf ?v' lo hi nxt (ks1 @ s # ks2) (ts1 @ t1 # t2 # ts2)" using si by simp
  with p' show "bt_wf ?v' lo hi nxt (BNode pid (ks1 @ s # ks2) (ts1 @ t1 # t2 # ts2))" by simp
  have "\<forall>u \<in> set (ts1 @ c # ts2). bt_leaves u \<noteq> []" "\<forall>u \<in> set (ts1 @ t1 # t2 # ts2). bt_leaves u \<noteq> []"
    using wf bts bt_leaves_nonempty(2) by (simp only: bt_wf.simps, blast)+
  then show "first_leaf (BNode pid (ks1 @ s # ks2) (ts1 @ t1 # t2 # ts2)) = first_leaf (BNode pid ks (ts1 @ c # ts2))"
    using si by (cases ts1) simp_all
qed

lemma split_in_node:
  assumes ready: "pool.ready bp" "pool_room bp 3" "0 < bp_avail bp" and wf: "bt_wf (bp_view bp) lo hi nxt (BNode pid ks ts)"
    and n: "length ks < kInternalMaxKeys" and b: "above_low lo key" "below_high hi key" and h: "bt_height h (BNode pid ks ts)"
    and d: "distinct (bt_pages (BNode pid ks ts))" and few: "few_equal (bt_entries (BNode pid ks ts))"
    and full: "bt_full (ts ! length (takeWhile (\<lambda>k. sint k \<le> key) ks))"
  obtains new bp' ks' ts' where "BPlusTree_SplitChild pid (length (takeWhile (\<lambda>k. sint k \<le> key) ks)) bp = Some (new, bp')"
    "pool_to bp (bp_view bp') (bp_avail bp - 1) bp'" "bt_wf (bp_view bp') lo hi nxt (BNode pid ks' ts')"
    "bt_height h (BNode pid ks' ts')" "distinct (bt_pages (BNode pid ks' ts'))"
    "bt_entries (BNode pid ks' ts') = bt_entries (BNode pid ks ts)" "first_leaf (BNode pid ks' ts') = first_leaf (BNode pid ks ts)"
    "set (bt_pages (BNode pid ks' ts')) = insert new (set (bt_pages (BNode pid ks ts)))" "bp_view bp new = None"
    "\<And>q. q \<notin> set (bt_pages (BNode pid ks' ts')) \<Longrightarrow> bp_view bp' q = bp_view bp q"
    "\<not> bt_full (ts' ! length (takeWhile (\<lambda>k. sint k \<le> key) ks'))" "length ks' = Suc (length ks)"
proof -
  let ?v = "bp_view bp" and ?ks1 = "takeWhile (\<lambda>k. sint k \<le> key) ks" and ?ks2 = "dropWhile (\<lambda>k. sint k \<le> key) ks"
  obtain p where p: "?v pid = Some p" "inner_page p ks (map bt_id ts)" and bts: "bts_wf ?v lo hi nxt ks ts" using wf by auto
  obtain ts1 c ts2 lo' hi' nxt' where ts: "ts = ts1 @ c # ts2" "length ts1 = length ?ks1" and c: "bt_wf ?v lo' hi' nxt' c"
    and rep: "\<And>v' ms us. \<forall>u \<in> set ts1 \<union> set ts2. \<forall>q \<in> set (bt_pages u). v' q = ?v q \<Longrightarrow> bts_wf v' lo' hi' nxt' ms us \<Longrightarrow>
      first_leaf (hd us) = first_leaf c \<Longrightarrow> bts_wf v' lo hi nxt (?ks1 @ ms @ ?ks2) (ts1 @ us @ ts2)"
    by (rule bts_focus [OF bts b]) (rule that; assumption)
  have i: "length ?ks1 \<le> length ks" "ts ! length ?ks1 = c" using ts by (simp_all add: length_takeWhile_le nth_append)
  have tk: "take (length ?ks1) ks = ?ks1" "drop (length ?ks1) ks = ?ks2"
    by (simp_all add: takeWhile_eq_take [symmetric] dropWhile_eq_drop [symmetric])
  have c': "bt_id c = map bt_id ts ! length ?ks1" "pid \<noteq> bt_id c" "few_equal (bt_entries c)"
    using i(2) ts d bt_id_in_pages [of c] few few_equal_part [of "concat (map bt_entries ts1)" "bt_entries c" "concat (map bt_entries ts2)"]
    by (auto simp: nth_append)
  obtain new s t1 t2 p' q' r' bp' where sp: "BPlusTree_SplitChild pid (length ?ks1) bp = Some (new, bp')"
    "pool_to bp (?v(new \<mapsto> r', bt_id c \<mapsto> q', pid \<mapsto> p')) (bp_avail bp - 1) bp'" "?v new = None"
    "inner_page p' (take (length ?ks1) ks @ s # drop (length ?ks1) ks)
      (take (length ?ks1 + 1) (map bt_id ts) @ new # drop (length ?ks1 + 1) (map bt_id ts))"
    and si: "split_into ?v lo' hi' nxt' c new q' r' s t1 t2"
    by (rule SplitChild_tree [OF ready p i(1) n c c'(1) _ c'(3,2)]) (use full i(2) in auto)
  have v': "bp_view bp' = ?v(new \<mapsto> r', bt_id c \<mapsto> q', pid \<mapsto> p')" using pool_toD(2) [OF sp(2)] .
  have new: "new \<notin> set (bt_pages (BNode pid ks ts))" using bt_pages_mapped(1) [OF wf] sp(3) by blast
  have p': "inner_page p' (?ks1 @ s # ?ks2) (map bt_id (ts1 @ t1 # t2 # ts2))"
    using sp(4) si ts(2) unfolding tk by (simp add: ts(1) split_into_def)
  note w = split_focus_wf [OF wf [unfolded ts(1)] si d [unfolded ts(1)] sp(3) rep p', folded v', folded ts(1)]
  note f = split_focus [OF ts(1) si d new, where ks' = "?ks1 @ s # ?ks2"]
  have other: "bp_view bp' q = ?v q" if "q \<notin> set (bt_pages (BNode pid (?ks1 @ s # ?ks2) (ts1 @ t1 # t2 # ts2)))" for q
    using that bt_id_in_pages [of c] unfolding f(1) v' by (auto simp: ts(1))
  have nf: "\<not> bt_full ((ts1 @ t1 # t2 # ts2) ! length (takeWhile (\<lambda>k. sint k \<le> key) (?ks1 @ s # ?ks2)))"
    using takeWhile_split [OF refl refl ts(2)] si by (simp add: split_into_def)
  have len: "length (?ks1 @ s # ?ks2) = Suc (length ks)" 
    using arg_cong [OF takeWhile_dropWhile_id [of "\<lambda>k. sint k \<le> key" ks], of length] unfolding length_append by simp
  show thesis by (rule that [OF sp(1) _ w(1) f(3) [OF h] f(2,4) w(2) f(1) sp(3) other nf len]) (use sp(2) v' in auto)
qed

lemma bt_inserted_after_split:
  assumes i: "bt_inserted key rid lo hi nxt h v1 t1 v2 t2" and eq: "bt_id t1 = bt_id t" "first_leaf t1 = first_leaf t" "bt_entries t1 = bt_entries t"
    and pages: "set (bt_pages t1) = insert new (set (bt_pages t))" "v new = None" "\<And>q. q \<notin> set (bt_pages t1) \<Longrightarrow> v1 q = v q"
    and wf: "bt_wf v1 lo hi nxt t1"
  shows "bt_inserted key rid lo hi nxt h v t v2 t2"
proof -
  note i = i [unfolded bt_inserted_def]
  have "\<forall>q \<in> set (bt_pages t2). q \<in> set (bt_pages t) \<or> v q = None"
  proof
    fix q assume "q \<in> set (bt_pages t2)"
    then have "q \<in> set (bt_pages t1) \<or> v1 q = None" using i by simp
    then show "q \<in> set (bt_pages t) \<or> v q = None" using pages by (cases "q \<in> set (bt_pages t1)") auto
  qed
  moreover have "\<forall>q. v q \<noteq> None \<longrightarrow> q \<notin> set (bt_pages t) \<longrightarrow> v2 q = v q"
    using i pages by (metis insert_iff)
  ultimately show ?thesis using i eq unfolding bt_inserted_def by simp
qed

lemma insert_below:
  assumes ih: "\<And>lo hi nxt c. c \<in> set ts \<Longrightarrow> bt_wf (bp_view bp) lo hi nxt c \<Longrightarrow> bt_height h c \<Longrightarrow> distinct (bt_pages c) \<Longrightarrow>
      few_equal (bt_entries c) \<Longrightarrow> c = ts ! length (takeWhile (\<lambda>k. sint k \<le> sint key) ks) \<Longrightarrow>
      above_low lo (sint key) \<Longrightarrow> below_high hi (sint key) \<Longrightarrow>
      \<exists>bp' c'. G c bp' \<and> bt_inserted key rid lo hi nxt h (bp_view bp) c (bp_view bp') c'"
    and wf: "bt_wf (bp_view bp) lo hi nxt (BNode pid ks ts)" and b: "above_low lo (sint key)" "below_high hi (sint key)"
    and h: "bt_height (Suc h) (BNode pid ks ts)"
    and d: "distinct (bt_pages (BNode pid ks ts))" and few: "few_equal (bt_entries (BNode pid ks ts))"
  shows "\<exists>bp' t'. G (ts ! length (takeWhile (\<lambda>k. sint k \<le> sint key) ks)) bp' \<and>
    bt_inserted key rid lo hi nxt (Suc h) (bp_view bp) (BNode pid ks ts) (bp_view bp') t'"
proof (rule insert_in_child [OF wf b d h refl])
  let ?c = "ts ! length (takeWhile (\<lambda>k. sint k \<le> sint key) ks)"
  fix lo' hi' nxt'
  assume c: "bt_wf (bp_view bp) lo' hi' nxt' ?c" "above_low lo' (sint key)" "below_high hi' (sint key)"
  have "?c \<in> set ts"
    using bts_length [of "bp_view bp" lo hi nxt ks ts] wf length_takeWhile_le [of "\<lambda>k. sint k \<le> sint key" ks] by auto
  moreover from this obtain ts1 ts2 where ts: "ts = ts1 @ ?c # ts2" by (meson split_list)
  have "few_equal (concat (map bt_entries ts1) @ bt_entries ?c @ concat (map bt_entries ts2))"
    using few by (subst (asm) ts) simp
  then have "few_equal (bt_entries ?c)" by (rule few_equal_part)
  moreover have "distinct (concat (map bt_pages (ts1 @ ?c # ts2)))" using d ts by (metis bt_pages.simps(2) distinct.simps(2))
  then have "distinct (bt_pages ?c)" by simp
  ultimately show "\<exists>bp' c'. G ?c bp' \<and> bt_inserted key rid lo' hi' nxt' h (bp_view bp) ?c (bp_view bp') c'"
    using h c by (intro ih) simp_all
qed

theorem InsertNonFull_tree:
  assumes "pool.ready bp" "pool_room bp 3" "bt_wf (bp_view bp) lo hi nxt t" "bt_height h t" "\<not> bt_full t" "distinct (bt_pages t)"
    "few_equal (bt_entries t)" "above_low lo (sint key)" "below_high hi (sint key)" "h \<le> bp_avail bp"
  shows "\<exists>bp' t'. (BPlusTree_InsertNonFull (bt_id t) key rid bp = Some bp' \<and> pool_to bp (bp_view bp') (bp_avail bp') bp' \<and>
      bp_avail bp \<le> bp_avail bp' + h) \<and> bt_inserted key rid lo hi nxt h (bp_view bp) t (bp_view bp') t'"
  using assms
proof (induction h arbitrary: bp lo hi nxt t)
  case 0
  then obtain pid es where t: "t = BLeaf pid es" by (cases t) auto
  from InsertNonFull_leaf [OF 0(1) 0(3,5) [unfolded t] 0(8,9), of rid] show ?case
    unfolding t bt_id.simps by (metis pool_toD(3) add_0_right order.refl)
next
  case (Suc h)
  then obtain pid ks ts where t: "t = BNode pid ks ts" by (cases t) auto
  note prems = Suc.prems [unfolded t]
  let ?i = "\<lambda>ks. length (takeWhile (\<lambda>k. sint k \<le> sint key) ks)"
  obtain p where p: "bp_view bp pid = Some p" "inner_page p ks (map bt_id ts)" and bts: "bts_wf (bp_view bp) lo hi nxt ks ts"
    using prems(3) by auto
  have below: "\<exists>bp2 t'. (BPlusTree_InsertNonFull (bt_id (ts ! ?i ks)) key rid bp1 = Some bp2 \<and>
      pool_to bp1 (bp_view bp2) (bp_avail bp2) bp2 \<and> bp_avail bp1 \<le> bp_avail bp2 + h) \<and>
      bt_inserted key rid lo hi nxt (Suc h) (bp_view bp1) (BNode pid ks ts) (bp_view bp2) t'"
    if "pool.ready bp1" "pool_room bp1 3" "\<not> bt_full (ts ! ?i ks)" "h \<le> bp_avail bp1" "bt_wf (bp_view bp1) lo hi nxt (BNode pid ks ts)"
      "bt_height (Suc h) (BNode pid ks ts)" "distinct (bt_pages (BNode pid ks ts))" "few_equal (bt_entries (BNode pid ks ts))" for bp1 ks ts
    by (rule insert_below [where G = "\<lambda>c bp2. BPlusTree_InsertNonFull (bt_id c) key rid bp1 = Some bp2 \<and>
      pool_to bp1 (bp_view bp2) (bp_avail bp2) bp2 \<and> bp_avail bp1 \<le> bp_avail bp2 + h", OF Suc.IH that(5) prems(8,9) that(6-8)])
      (use that in auto)
  obtain ts1 c ts2 lo' hi' nxt' where "ts = ts1 @ c # ts2" "length ts1 = ?i ks" and c: "bt_wf (bp_view bp) lo' hi' nxt' c"
    by (rule bts_focus [OF bts prems(8,9)]) (rule that; assumption)
  then have ci: "c = ts ! ?i ks" by (metis nth_append_length)
  obtain bp1 where t1: "pool_to bp (bp_view bp) (bp_avail bp) bp1"
    and easy: "\<not> bt_full c \<Longrightarrow> BPlusTree_InsertNonFull pid key rid bp = BPlusTree_InsertNonFull (bt_id c) key rid bp1"
    and split: "\<And>new bp2. bt_full c \<Longrightarrow> BPlusTree_SplitChild pid (?i ks) bp1 = Some (new, bp2) \<Longrightarrow>
      BPlusTree_InsertNonFull pid key rid bp =
        (case child_for_key pid key bp2 of None \<Rightarrow> None | Some (c', bp3) \<Rightarrow> BPlusTree_InsertNonFull c' key rid bp3)"
    by (rule InsertNonFull_step [OF prems(1) p ci c]) blast
  note v1 = pool_toD [OF t1] and room1 = pool_room_to [OF t1]
  show ?case
  proof (cases "bt_full c")
    case False
    with below [of bp1 ts ks] easy ci v1 room1 prems show ?thesis
      unfolding t bt_id.simps by (smt (verit, best) Suc_leD add_Suc_right le_SucI pool_to_trans t1)
  next
    case True
    have ready1: "pool.ready bp1" "pool_room bp1 3" "0 < bp_avail bp1" using v1 room1 prems by simp_all
    have n: "length ks < kInternalMaxKeys" using prems(5) by (simp add: bt_full_def)
    obtain new bp2 ks' ts' where s: "BPlusTree_SplitChild pid (?i ks) bp1 = Some (new, bp2)" "pool_to bp1 (bp_view bp2) (bp_avail bp1 - 1) bp2"
      "bt_wf (bp_view bp2) lo hi nxt (BNode pid ks' ts')" "bt_height (Suc h) (BNode pid ks' ts')" "distinct (bt_pages (BNode pid ks' ts'))"
      "bt_entries (BNode pid ks' ts') = bt_entries (BNode pid ks ts)" "first_leaf (BNode pid ks' ts') = first_leaf (BNode pid ks ts)"
      "set (bt_pages (BNode pid ks' ts')) = insert new (set (bt_pages (BNode pid ks ts)))" "bp_view bp new = None"
      "\<And>q. q \<notin> set (bt_pages (BNode pid ks' ts')) \<Longrightarrow> bp_view bp2 q = bp_view bp q" "\<not> bt_full (ts' ! ?i ks')"
      by (rule split_in_node [OF ready1 _ n prems(8,9,4,6,7) True [unfolded ci], unfolded v1(2), OF prems(3)])
        (rule that; assumption)
    obtain p' where p': "bp_view bp2 pid = Some p'" "inner_page p' ks' (map bt_id ts')" using s(3) by auto
    obtain bp3 where c3: "child_for_key pid key bp2 = Some (bt_id (ts' ! ?i ks'), bp3)" "pool_to bp2 (bp_view bp2) (bp_avail bp2) bp3"
      by (rule child_for_key_page [OF pool_toD(1) [OF s(2)] p'])
    note t3 = pool_to_trans [OF pool_to_trans [OF t1 s(2)] c3(2)]
    note v3 = pool_toD [OF c3(2)] and av3 = pool_toD(3) [OF s(2)]
    have "h \<le> bp_avail bp3" using v3(3) av3 v1(3) prems(10) by linarith
    then obtain bp4 t' where r: "BPlusTree_InsertNonFull (bt_id (ts' ! ?i ks')) key rid bp3 = Some bp4"
      "pool_to bp3 (bp_view bp4) (bp_avail bp4) bp4" "bp_avail bp3 \<le> bp_avail bp4 + h"
      "bt_inserted key rid lo hi nxt (Suc h) (bp_view bp3) (BNode pid ks' ts') (bp_view bp4) t'"
      using below [of bp3 ts' ks'] v3 av3 v1(3) s(3-6,11) prems(2,7,10) pool_room_to [OF t3] by auto
    have "bt_inserted key rid lo hi nxt (Suc h) (bp_view bp) (BNode pid ks ts) (bp_view bp4) t'"
      by (rule bt_inserted_after_split [OF r(4)]) (use s v3 in auto)
    moreover have "BPlusTree_InsertNonFull pid key rid bp = Some bp4" using split [OF True s(1)] c3(1) r(1) by simp
    moreover have "bp_avail bp \<le> bp_avail bp4 + Suc h" using r(3) v3 av3 v1(3) prems(10) by linarith
    ultimately show ?thesis using pool_to_trans [OF t3 r(2)] unfolding t bt_id.simps by blast
  qed
qed

section \<open>Insertion into an index\<close>

text \<open>
  \<open>index_wf meta v h t\<close>: the meta page names the root of the tree \<open>t\<close> of height \<open>h\<close>, whose leaves form a chain that
  ends. \<open>index_step\<close>: an operation leaves the pages outside the index alone, and new pages were free.
\<close>

definition index_wf :: "page_id_t \<Rightarrow> (page_id_t \<Rightarrow> Page option) \<Rightarrow> nat \<Rightarrow> btree \<Rightarrow> bool" where
  "index_wf meta v h t \<longleftrightarrow> (\<exists>m. v meta = Some m \<and> length m = kPageSize \<and> read_at 0 m = bt_id t) \<and> meta \<notin> set (bt_pages t) \<and>
     bt_wf v None None kInvalidPageId t \<and> bt_height h t \<and> distinct (bt_pages t)"

definition index_step ::
  "page_id_t \<Rightarrow> (page_id_t \<Rightarrow> Page option) \<Rightarrow> btree \<Rightarrow> (page_id_t \<Rightarrow> Page option) \<Rightarrow> btree \<Rightarrow> bool" where
  "index_step meta v t v' t' \<longleftrightarrow> (\<forall>q \<in> set (bt_pages t'). q \<in> set (bt_pages t) \<or> v q = None) \<and>
     (\<forall>q. v q \<noteq> None \<longrightarrow> q \<noteq> meta \<longrightarrow> q \<notin> set (bt_pages t) \<longrightarrow> v' q = v q)"

lemma index_step_trans:
  assumes "index_step meta v t v1 t1" "index_step meta v1 t1 v2 t2" "index_wf meta v1 h t1"
  shows "index_step meta v t v2 t2"
  unfolding index_step_def
proof (intro conjI allI ballI impI)
  fix q
  note a = assms(1,2) [unfolded index_step_def]
  show "q \<in> set (bt_pages t) \<or> v q = None" if q: "q \<in> set (bt_pages t2)"
  proof (cases "q \<in> set (bt_pages t1)")
    case False
    then have "v1 q = None" "q \<noteq> meta" using a(2) q assms(3) by (auto simp: index_wf_def)
    then show ?thesis using a(1) by metis
  qed (use a in auto)
  show "v2 q = v q" if "v q \<noteq> None" "q \<noteq> meta" "q \<notin> set (bt_pages t)"
    using a that by metis
qed

lemma GetRootPageId_meta:
  assumes "pool.ready bp" and "index_wf meta (bp_view bp) h t"
  obtains bp' where "BPlusTree_GetRootPageId meta bp = Some (bt_id t, bp')" "pool_to bp (bp_view bp) (bp_avail bp) bp'"
proof -
  obtain m where m: "bp_view bp meta = Some m" "read_at 0 m = bt_id t" using assms(2) by (auto simp: index_wf_def)
  obtain i bp1 where "BufferPool_FetchPage meta bp = (Some i, bp1)" "BufferPool_page i bp1 = m"
    "pool_to bp (bp_view bp) (bp_avail bp) (unpin_page meta False bp1)"
    by (rule access_page [OF assms(1) m(1)])
  with m that show thesis by (simp add: BPlusTree_GetRootPageId_def)
qed

lemma SetRootPageId_meta:
  assumes "pool.ready bp" and "bp_view bp meta = Some m" "length m = kPageSize"
  obtains bp' m' where "BPlusTree_SetRootPageId meta r bp = Some bp'" "pool_to bp ((bp_view bp)(meta \<mapsto> m')) (bp_avail bp) bp'"
    "length m' = kPageSize" "read_at 0 m' = r"
proof -
  obtain i bp1 where f: "BufferPool_FetchPage meta bp = (Some i, bp1)" "BufferPool_page i bp1 = m"
    and u: "\<And>p' d. length p' = kPageSize \<Longrightarrow> d \<or> p' = m \<Longrightarrow>
      pool_to bp ((bp_view bp)(meta \<mapsto> p')) (bp_avail bp) (unpin_page meta d (BufferPool_put i p' bp1))"
    by (rule access_page [OF assms(1,2)]) blast
  have "length (write_at 0 r m) = kPageSize" "read_at 0 (write_at 0 r m) = r" using assms(3) by (simp_all add: layout kPageSize_def)
  with f u [of "write_at 0 r m" True] that show thesis by (simp add: BPlusTree_SetRootPageId_def)
qed

text \<open>An insertion below the root, seen from the index.\<close>

lemma insert_root:
  assumes "pool.ready bp" "pool_room bp 3" "index_wf meta (bp_view bp) h t" "\<not> bt_full t" "few_equal (bt_entries t)" "h \<le> bp_avail bp"
  obtains bp' t' where "BPlusTree_InsertNonFull (bt_id t) key rid bp = Some bp'" "pool_to bp (bp_view bp') (bp_avail bp') bp'"
    "bp_avail bp \<le> bp_avail bp' + h" "index_wf meta (bp_view bp') h t'" "bt_entries t' = ins_entry key rid (bt_entries t)"
    "index_step meta (bp_view bp) t (bp_view bp') t'"
proof -
  note w = assms(3) [unfolded index_wf_def]
  obtain bp' t' where r: "BPlusTree_InsertNonFull (bt_id t) key rid bp = Some bp'" "pool_to bp (bp_view bp') (bp_avail bp') bp'"
    "bp_avail bp \<le> bp_avail bp' + h" "bt_inserted key rid None None kInvalidPageId h (bp_view bp) t (bp_view bp') t'"
    using InsertNonFull_tree [OF assms(1,2) _ _ assms(4) _ assms(5) _ _ assms(6), of None None kInvalidPageId key rid] w by auto
  note i = r(4) [unfolded bt_inserted_def]
  have "bp_view bp' meta = bp_view bp meta" "meta \<notin> set (bt_pages t')" using i w by auto
  with i w have "index_wf meta (bp_view bp') h t'" unfolding index_wf_def by simp
  moreover have "index_step meta (bp_view bp) t (bp_view bp') t'" using i unfolding index_step_def by simp
  ultimately show thesis using that r(1-3) i by blast
qed

text \<open>A full root becomes the child of a new root, and is split.\<close>

lemma grow_root:
  assumes ready: "pool.ready bp" and room: "pool_room bp 3" and w: "index_wf meta (bp_view bp) h t" and full: "bt_full t"
    and few: "few_equal (bt_entries t)" and av: "2 \<le> bp_avail bp"
  obtains j nr bp1 x bp2 bp3 t' where "BufferPool_NewPage bp = (Some (j, nr), bp1)"
    "BPlusTree_SplitChild nr 0 (unpin_page nr True (BufferPool_put j
       (BPlusNode_SetInternalChildAt 0 (bt_id t) (BPlusNode_InitInternal (BufferPool_page j bp1))) bp1)) = Some (x, bp2)"
    "BPlusTree_SetRootPageId meta nr bp2 = Some bp3" "pool_to bp (bp_view bp3) (bp_avail bp - 2) bp3"
    "index_wf meta (bp_view bp3) (Suc h) t'" "bt_id t' = nr" "bt_entries t' = bt_entries t" "\<not> bt_full t'"
    "index_step meta (bp_view bp) t (bp_view bp3) t'"
proof -
  obtain m where m: "bp_view bp meta = Some m" "length m = kPageSize" "meta \<notin> set (bt_pages t)"
    and t: "bt_wf (bp_view bp) None None kInvalidPageId t" "bt_height h t" "distinct (bt_pages t)"
    using w by (auto simp: index_wf_def)
  have "0 < bp_avail bp" using av by simp
  from fresh_page [OF ready this] obtain j nr bp1 where f: "BufferPool_NewPage bp = (Some (j, nr), bp1)" "bp_view bp nr = None"
    "BufferPool_page j bp1 = Page_Reset"
    and u: "\<And>p'. length p' = kPageSize \<Longrightarrow>
       pool_to bp ((bp_view bp)(nr \<mapsto> p')) (bp_avail bp - 1) (unpin_page nr True (BufferPool_put j p' bp1))" by metis
  let ?p = "BPlusNode_SetInternalChildAt 0 (bt_id t) (BPlusNode_InitInternal Page_Reset)"
  let ?bp = "unpin_page nr True (BufferPool_put j ?p bp1)" and ?N = "BNode nr [] [t]"
  have p: "inner_page ?p [] (map bt_id [t])" using InitInternal_page [of Page_Reset "bt_id t"] by (simp add: node_ok_def)
  have t1: "pool_to bp ((bp_view bp)(nr \<mapsto> ?p)) (bp_avail bp - 1) ?bp" using u inner_pageD(1) [OF p] by (simp add: node_ok_def)
  note v1 = pool_toD [OF t1]
  have nr: "nr \<notin> set (bt_pages t)" using bt_pages_mapped(1) [OF t(1)] f(2) by blast
  have "bt_wf (bp_view ?bp) None None kInvalidPageId t" using bt_wf_upd [OF t(1) nr] v1(2) by simp
  then have N: "bt_wf (bp_view ?bp) None None kInvalidPageId ?N" using p v1(2) by simp
  have Nh: "bt_height (Suc h) ?N" "distinct (bt_pages ?N)" "few_equal (bt_entries ?N)" using t nr few by simp_all
  have avl: "0 < bp_avail ?bp" "length ([] :: Key list) < kInternalMaxKeys" using v1(3) av by (simp_all add: kInternalMaxKeys_value)
  obtain x bp2 ks' ts' where s: "BPlusTree_SplitChild nr 0 ?bp = Some (x, bp2)" "pool_to ?bp (bp_view bp2) (bp_avail ?bp - 1) bp2"
    "bt_wf (bp_view bp2) None None kInvalidPageId (BNode nr ks' ts')" "bt_height (Suc h) (BNode nr ks' ts')"
    "distinct (bt_pages (BNode nr ks' ts'))" "bt_entries (BNode nr ks' ts') = bt_entries ?N"
    "set (bt_pages (BNode nr ks' ts')) = insert x (set (bt_pages ?N))" "bp_view ?bp x = None"
    "\<And>q. q \<notin> set (bt_pages (BNode nr ks' ts')) \<Longrightarrow> bp_view bp2 q = bp_view ?bp q" "length ks' = Suc (length ([] :: Key list))"
    by (rule split_in_node [OF v1(1) _ avl(1) N avl(2) _ _ Nh, of 0])
      (use full room pool_room_to [OF t1] in \<open>auto intro: that\<close>)
  let ?t = "BNode nr ks' ts'"
  have x: "bp_view bp x = None" using s(8) v1(2) by (auto split: if_splits)
  have mt: "meta \<notin> set (bt_pages ?t)" using s(7) m(1,3) f(2) x by auto
  have m2: "bp_view bp2 meta = Some m" using s(9) [OF mt] v1(2) m(1) f(2) by auto
  obtain bp3 m' where r: "BPlusTree_SetRootPageId meta nr bp2 = Some bp3" "pool_to bp2 ((bp_view bp2)(meta \<mapsto> m')) (bp_avail bp2) bp3"
    "length m' = kPageSize" "read_at 0 m' = nr"
    by (rule SetRootPageId_meta [OF pool_toD(1) [OF s(2)] m2 m(2)])
  note v3 = pool_toD [OF r(2)]
  have "bt_wf (bp_view bp3) None None kInvalidPageId ?t" using bt_wf_upd [OF s(3) mt] v3(2) by simp
  then have "index_wf meta (bp_view bp3) (Suc h) ?t" using r(3,4) s(4,5) mt v3(2) unfolding index_wf_def by simp
  moreover have "pool_to bp (bp_view bp3) (bp_avail bp - 2) bp3"
    using pool_to_trans [OF pool_to_trans [OF t1 s(2)] r(2)] v3 v1(3) pool_toD(3) [OF s(2)] by (simp add: numeral_2_eq_2)
  moreover have "index_step meta (bp_view bp) t (bp_view bp3) ?t"
    unfolding index_step_def
  proof (intro conjI ballI allI impI)
    fix q
    show "q \<in> set (bt_pages t) \<or> bp_view bp q = None" if "q \<in> set (bt_pages ?t)" using that f(2) x unfolding s(7) by auto
    assume q: "bp_view bp q \<noteq> None" "q \<noteq> meta" "q \<notin> set (bt_pages t)"
    then have "q \<notin> set (bt_pages ?t)" using f(2) x unfolding s(7) by auto
    from s(9) [OF this] show "bp_view bp3 q = bp_view bp q" using q f(2) v1(2) v3(2) by auto
  qed
  moreover have "\<not> bt_full ?t" using s(10) by (simp add: bt_full_def kInternalMaxKeys_value)
  ultimately show thesis using that [OF f(1) s(1) [folded f(3)] r(1)] s(6) by simp
qed

theorem Insert_index:
  assumes ready: "pool.ready bp" and room: "pool_room bp 3" and w: "index_wf meta (bp_view bp) h t" and few: "few_equal (bt_entries t)"
    and av: "h + 3 \<le> bp_avail bp"
  obtains bp' h' t' where "BPlusTree_Insert meta key rid bp = Some (Status_OK, bp')" "pool_to bp (bp_view bp') (bp_avail bp') bp'"
    "bp_avail bp \<le> bp_avail bp' + h + 3" "h' \<le> Suc h" "index_wf meta (bp_view bp') h' t'"
    "bt_entries t' = ins_entry key rid (bt_entries t)" "index_step meta (bp_view bp) t (bp_view bp') t'"
proof -
  obtain bp1 where g: "BPlusTree_GetRootPageId meta bp = Some (bt_id t, bp1)" "pool_to bp (bp_view bp) (bp_avail bp) bp1"
    by (rule GetRootPageId_meta [OF ready w])
  note v1 = pool_toD [OF g(2)]
  have "bt_wf (bp_view bp) None None kInvalidPageId t" using w by (simp add: index_wf_def)
  from bt_root_page [OF this] obtain p where p: "bp_view bp1 (bt_id t) = Some p" "node_full p = bt_full t"
    using v1(2) by metis
  obtain i bp2 where f: "BufferPool_FetchPage (bt_id t) bp1 = (Some i, bp2)" "BufferPool_page i bp2 = p"
    and u: "pool_to bp1 (bp_view bp1) (bp_avail bp1) (unpin_page (bt_id t) False bp2)"
    by (rule access_page [OF v1(1) p(1)])
  let ?bp3 = "unpin_page (bt_id t) False bp2"
  have t3: "pool_to bp (bp_view bp) (bp_avail bp) ?bp3" using pool_to_trans [OF g(2) u] v1 by simp
  note v3 = pool_toD [OF t3]
  have w3: "index_wf meta (bp_view ?bp3) h t" "pool_room ?bp3 3" using w room v3(2) pool_room_to [OF t3] by simp_all
  show thesis
  proof (cases "bt_full t")
    case False
    have "h \<le> bp_avail ?bp3" using v3(3) av by simp
    then obtain bp' t' where "BPlusTree_InsertNonFull (bt_id t) key rid ?bp3 = Some bp'" "pool_to ?bp3 (bp_view bp') (bp_avail bp') bp'"
      "bp_avail ?bp3 \<le> bp_avail bp' + h" "index_wf meta (bp_view bp') h t'" "bt_entries t' = ins_entry key rid (bt_entries t)"
      "index_step meta (bp_view ?bp3) t (bp_view bp') t'"
      by (rule insert_root [OF v3(1) w3(2,1) False few])
    with that [of bp' h t'] g(1) f p(2) False v3 pool_to_trans [OF t3] show thesis by (simp add: BPlusTree_Insert_def Let_def)
  next
    case True
    have "2 \<le> bp_avail ?bp3" using v3(3) av by simp
    then obtain j nr bp4 x bp5 bp6 t1 where n: "BufferPool_NewPage ?bp3 = (Some (j, nr), bp4)"
      "BPlusTree_SplitChild nr 0 (unpin_page nr True (BufferPool_put j
         (BPlusNode_SetInternalChildAt 0 (bt_id t) (BPlusNode_InitInternal (BufferPool_page j bp4))) bp4)) = Some (x, bp5)"
      "BPlusTree_SetRootPageId meta nr bp5 = Some bp6" "pool_to ?bp3 (bp_view bp6) (bp_avail ?bp3 - 2) bp6"
      "index_wf meta (bp_view bp6) (Suc h) t1" "bt_id t1 = nr" "bt_entries t1 = bt_entries t" "\<not> bt_full t1"
      "index_step meta (bp_view ?bp3) t (bp_view bp6) t1"
      by (rule grow_root [OF v3(1) w3(2,1) True few])
    note t6 = pool_to_trans [OF t3 n(4)]
    note v6 = pool_toD [OF t6]
    have "few_equal (bt_entries t1)" "Suc h \<le> bp_avail bp6" "pool_room bp6 3"
      using few n(7) v6(3) v3(3) av pool_room_to [OF t6] room by simp_all
    then obtain bp' t' where i: "BPlusTree_InsertNonFull nr key rid bp6 = Some bp'" "pool_to bp6 (bp_view bp') (bp_avail bp') bp'"
      "bp_avail bp6 \<le> bp_avail bp' + Suc h" "index_wf meta (bp_view bp') (Suc h) t'" "bt_entries t' = ins_entry key rid (bt_entries t1)"
      "index_step meta (bp_view bp6) t1 (bp_view bp') t'"
      using insert_root [OF v6(1) _ n(5,8), of key rid thesis] n(6) that by metis
    have "BPlusTree_Insert meta key rid bp = Some (Status_OK, bp')"
      using g(1) f p(2) True n(1-3) i(1) by (simp add: BPlusTree_Insert_def Let_def)
    moreover have "index_step meta (bp_view bp) t (bp_view bp') t'"
      using index_step_trans [OF n(9) i(6)] v3(2) n(5) by simp
    ultimately show thesis using that [of bp' "Suc h" t'] pool_to_trans [OF t6 i(2)] i(3-5) v6(3) v3(3) n(7) av by simp
  qed
qed

end
