(* ===== verification/Bplus_Search.thy ===== *)
theory Bplus_Search
  imports Bplus_Insert
begin

text \<open>
  Search, range scan and deletion in the B+ tree, as operations on the sorted list of its entries: the
  descent to the leaf of a key, the walk along the chain of leaves, the removal of one entry.
\<close>

section \<open>The chain of leaves\<close>

fun leaf_chain :: "(page_id_t \<Rightarrow> Page option) \<Rightarrow> (page_id_t \<times> (Key \<times> RecordId) list) list \<Rightarrow> page_id_t \<Rightarrow> bool" where
  "leaf_chain v [] nxt \<longleftrightarrow> True"
| "leaf_chain v ((pid, es) # L) nxt \<longleftrightarrow>
     pid \<noteq> kInvalidPageId \<and> (\<exists>p. v pid = Some p \<and> leaf_page p es (if L = [] then nxt else fst (hd L))) \<and> leaf_chain v L nxt"

lemma leaf_chain_append:
  "leaf_chain v (L1 @ L2) nxt \<longleftrightarrow> leaf_chain v L1 (if L2 = [] then nxt else fst (hd L2)) \<and> leaf_chain v L2 nxt"
  by (induction L1) (auto simp: hd_append)

lemma tree_chain:
  "bt_wf v lo hi nxt t \<Longrightarrow> leaf_chain v (bt_leaves t) nxt"
  "bts_wf v lo hi nxt ks ts \<Longrightarrow> leaf_chain v (concat (map bt_leaves ts)) nxt"
proof (induction v lo hi nxt t and v lo hi nxt ks ts rule: bt_wf_bts_wf.induct)
  case (5 v lo hi nxt k ks t ts)
  then have ts: "ts \<noteq> []" "\<forall>u \<in> set ts. bt_leaves u \<noteq> []" using bt_leaves_nonempty(2) by (simp, fastforce)
  then have "concat (map bt_leaves ts) \<noteq> []" "fst (hd (concat (map bt_leaves ts))) = first_leaf (hd ts)"
    by (cases ts; simp add: first_leaf_def)+
  with 5 show ?case unfolding list.map concat.simps leaf_chain_append by (simp del: concat_eq_Nil_conv)
qed auto

text \<open>The leaf of a key: smaller keys are in the leaves before it, larger ones in the leaves behind it.\<close>

lemma find_leaf_tree:
  assumes "pool.ready bp" "bt_wf (bp_view bp) lo hi nxt t" "bt_height h t" "above_low lo (sint key)" "below_high hi (sint key)"
  shows "\<exists>pid bp' L1 es L2. find_leaf_loop key (bt_id t) bp = Some (pid, bp') \<and> pool_to bp (bp_view bp) (bp_avail bp) bp' \<and>
    bt_leaves t = L1 @ (pid, es) # L2 \<and> (\<forall>l \<in> set L1. \<forall>e \<in> set (snd l). ekey e < sint key) \<and>
    (\<forall>l \<in> set L2. \<forall>e \<in> set (snd l). sint key < ekey e)"
  using assms
proof (induction h arbitrary: bp lo hi nxt t)
  case 0
  then obtain pid es p where t: "t = BLeaf pid es" "bp_view bp pid = Some p" "leaf_page p es nxt" by (cases t) auto
  obtain i bp1 where "BufferPool_FetchPage pid bp = (Some i, bp1)" "BufferPool_page i bp1 = p"
    "pool_to bp (bp_view bp) (bp_avail bp) (unpin_page pid False bp1)"
    by (rule access_page [OF 0(1) t(2)])
  then have "find_leaf_loop key (bt_id t) bp = Some (pid, unpin_page pid False bp1) \<and>
      pool_to bp (bp_view bp) (bp_avail bp) (unpin_page pid False bp1)"
    using t leaf_pageD(2) [OF t(3)] by (subst find_leaf_loop.simps) simp
  moreover have "bt_leaves t = [] @ (pid, es) # []" by (simp add: t)
  ultimately show ?case by (metis empty_iff list.set(1))
next
  case (Suc h)
  then obtain pid ks ts where t: "t = BNode pid ks ts" by (cases t) auto
  let ?i = "length (takeWhile (\<lambda>k. sint k \<le> sint key) ks)"
  from Suc.prems(2) t obtain p where p: "bp_view bp pid = Some p" "inner_page p ks (map bt_id ts)"
    and bts: "bts_wf (bp_view bp) lo hi nxt ks ts" by auto
  obtain ts1 c ts2 lo' hi' nxt' where ts: "ts = ts1 @ c # ts2" "length ts1 = ?i"
    and c: "bt_wf (bp_view bp) lo' hi' nxt' c" "above_low lo' (sint key)" "below_high hi' (sint key)"
    and l: "\<forall>u \<in> set ts1. \<forall>e \<in> set (bt_entries u). ekey e < sint key" "\<forall>u \<in> set ts2. \<forall>e \<in> set (bt_entries u). sint key < ekey e"
    by (rule bts_focus [OF bts Suc.prems(4,5)]) (rule that; assumption)
  obtain i bp1 where f: "BufferPool_FetchPage pid bp = (Some i, bp1)" "BufferPool_page i bp1 = p"
    and u: "pool_to bp (bp_view bp) (bp_avail bp) (unpin_page pid False bp1)"
    by (rule access_page [OF Suc.prems(1) p(1)])
  let ?bp = "unpin_page pid False bp1"
  note v = pool_toD [OF u]
  have "c = ts ! ?i" using ts by (metis nth_append_length)
  then have step: "find_leaf_loop key (bt_id t) bp = find_leaf_loop key (bt_id c) ?bp"
    using f inner_pageD(2) [OF p(2)] inner_child [OF p(2), of key] by (subst find_leaf_loop.simps) (simp add: t)
  have h: "bt_height h c" using Suc.prems(3) by (auto simp: t ts)
  obtain q bp' L1 es L2 where r: "find_leaf_loop key (bt_id c) ?bp = Some (q, bp')" "pool_to ?bp (bp_view ?bp) (bp_avail ?bp) bp'"
    "bt_leaves c = L1 @ (q, es) # L2" "\<forall>l \<in> set L1. \<forall>e \<in> set (snd l). ekey e < sint key"
    "\<forall>l \<in> set L2. \<forall>e \<in> set (snd l). sint key < ekey e"
    using Suc.IH [OF v(1) c(1) [folded v(2)] h c(2,3)] by blast
  have "bt_leaves t = (concat (map bt_leaves ts1) @ L1) @ (q, es) # (L2 @ concat (map bt_leaves ts2))" using r(3) by (simp add: t ts)
  moreover have "\<forall>l \<in> set (concat (map bt_leaves ts1) @ L1). \<forall>e \<in> set (snd l). ekey e < sint key"
    "\<forall>l \<in> set (L2 @ concat (map bt_leaves ts2)). \<forall>e \<in> set (snd l). sint key < ekey e"
    using r(4,5) l by (simp_all add: bt_entries_def ball_Un)
  moreover have "pool_to bp (bp_view bp) (bp_avail bp) bp'" using pool_to_trans [OF u r(2)] v by simp
  ultimately show ?case using step r(1) by metis
qed

lemma FindLeaf_index:
  assumes "pool.ready bp" "index_wf meta (bp_view bp) h t"
  obtains pid bp' L1 es L2 where "BPlusTree_FindLeafForKey meta key bp = Some (pid, bp')" "pool_to bp (bp_view bp) (bp_avail bp) bp'"
    "bt_leaves t = L1 @ (pid, es) # L2" "\<forall>l \<in> set L1. \<forall>e \<in> set (snd l). ekey e < sint key"
    "\<forall>l \<in> set L2. \<forall>e \<in> set (snd l). sint key < ekey e"
proof -
  obtain bp1 where g: "BPlusTree_GetRootPageId meta bp = Some (bt_id t, bp1)" "pool_to bp (bp_view bp) (bp_avail bp) bp1"
    by (rule GetRootPageId_meta [OF assms])
  note v = pool_toD [OF g(2)]
  have w: "bt_wf (bp_view bp1) None None kInvalidPageId t" "bt_height h t" using assms(2) v by (simp_all add: index_wf_def)
  obtain pid bp' L1 es L2 where r: "find_leaf_loop key (bt_id t) bp1 = Some (pid, bp')" "pool_to bp1 (bp_view bp1) (bp_avail bp1) bp'"
    "bt_leaves t = L1 @ (pid, es) # L2" "\<forall>l \<in> set L1. \<forall>e \<in> set (snd l). ekey e < sint key"
    "\<forall>l \<in> set L2. \<forall>e \<in> set (snd l). sint key < ekey e"
    using find_leaf_tree [OF v(1) w, of key] by auto
  show thesis
    by (rule that [OF _ _ r(3-5)]) (use g(1) r(1) pool_to_trans [OF g(2) r(2)] v in \<open>simp_all add: BPlusTree_FindLeafForKey_def\<close>)
qed

section \<open>Search for a key\<close>

lemma scan_equal_sorted:
  assumes "sorted (map ekey es)"
  shows "scan_equal key es acc = (acc @ map snd (filter (\<lambda>e. fst e = key) es), \<exists>e \<in> set es. sint key < ekey e)"
  using assms
proof (induction es arbitrary: acc)
  case (Cons e es)
  have "filter (\<lambda>e. fst e = key) es = []" if "sint key < ekey e" using Cons.prems that by (force simp: filter_empty_conv)
  with Cons show ?case by auto
qed simp

lemma search_from:
  assumes "sorted (map ekey es)"
  shows "scan_equal key (drop (length (takeWhile (\<lambda>e. ekey e < sint key) es)) es) acc = scan_equal key es acc"
  using assms
proof (induction es arbitrary: acc)
  case (Cons e es)
  then show ?case by auto
qed simp

lemma search_loop_chain:
  assumes "pool.ready bp" "leaf_chain (bp_view bp) L kInvalidPageId" "sorted (map ekey (concat (map snd L)))"
  shows "\<exists>bp'. search_loop key first acc (if L = [] then kInvalidPageId else fst (hd L)) bp =
    Some (acc @ map snd (filter (\<lambda>e. fst e = key) (concat (map snd L))), bp') \<and> pool_to bp (bp_view bp) (bp_avail bp) bp'"
  using assms
proof (induction L arbitrary: first acc bp)
  case Nil
  then show ?case using pool_to_refl by (subst search_loop.simps) auto
next
  case (Cons l L)
  obtain pid es where l: "l = (pid, es)" by (cases l)
  let ?n = "if L = [] then kInvalidPageId else fst (hd L)"
  obtain p where p: "pid \<noteq> kInvalidPageId" "bp_view bp pid = Some p" "leaf_page p es ?n" and L: "leaf_chain (bp_view bp) L kInvalidPageId"
    using Cons.prems(2) l by auto
  obtain i bp1 where f: "BufferPool_FetchPage pid bp = (Some i, bp1)" "BufferPool_page i bp1 = p"
    and u: "pool_to bp (bp_view bp) (bp_avail bp) (unpin_page pid False bp1)"
    by (rule access_page [OF Cons.prems(1) p(2)])
  note v = pool_toD [OF u] and d = leaf_pageD [OF p(3)]
  have s: "sorted (map ekey es)" "sorted (map ekey (concat (map snd L)))" "\<forall>e \<in> set es. \<forall>f \<in> set (concat (map snd L)). ekey e \<le> ekey f"
    using Cons.prems(3) l by (auto simp: sorted_append)
  let ?acc = "acc @ map snd (filter (\<lambda>e. fst e = key) es)" and ?x = "\<exists>e \<in> set es. sint key < ekey e"
  let ?start = "if first then while_index (\<lambda>i. sint (BPlusNode_LeafKeyAt p i) < sint key) (length es) 0 else 0"
  have scan: "search_scan p key (length es) ?start acc = (?acc, ?x)"
    using search_scan_entries [OF p(3), of key _ acc] search_from [OF s(1)] scan_equal_sorted [OF s(1)] leaf_position [OF p(3), of key] by simp
  have step: "search_loop key first acc pid bp = (if ?x then Some (?acc, unpin_page pid False bp1)
      else search_loop key False ?acc ?n (unpin_page pid False bp1))"
    using f p(1) d(3,4) scan by (cases first; subst search_loop.simps) (simp_all add: Let_def)
  show ?case
  proof (cases ?x)
    case True
    then have "filter (\<lambda>e. fst e = key) (concat (map snd L)) = []" using s(3) by (fastforce simp: filter_empty_conv)
    with True step u l show ?thesis by simp
  next
    case False
    obtain bp' where "search_loop key False ?acc ?n (unpin_page pid False bp1) =
        Some (?acc @ map snd (filter (\<lambda>e. fst e = key) (concat (map snd L))), bp')"
      "pool_to (unpin_page pid False bp1) (bp_view (unpin_page pid False bp1)) (bp_avail (unpin_page pid False bp1)) bp'"
      using Cons.IH [OF v(1) L [folded v(2)] s(2), of False ?acc] by auto
    with False step l pool_to_trans [OF u] v show ?thesis by auto
  qed
qed

lemma filter_key_empty: "\<forall>l \<in> set L. \<forall>e \<in> set (snd l). ekey e < sint key \<Longrightarrow> filter (\<lambda>e. fst e = key) (concat (map snd L)) = []"
  by (induction L) (auto simp: filter_empty_conv)

lemma index_chain:
  assumes "index_wf meta v h t" and "bt_leaves t = L1 @ L2"
  shows "leaf_chain v L2 kInvalidPageId" and "sorted (map ekey (concat (map snd L2)))"
proof -
  have w: "bt_wf v None None kInvalidPageId t" using assms(1) by (simp add: index_wf_def)
  from tree_chain(1) [OF w] show "leaf_chain v L2 kInvalidPageId" unfolding assms(2) leaf_chain_append by simp
  from sorted_bt_entries(1) [OF w] show "sorted (map ekey (concat (map snd L2)))"
    unfolding bt_entries_def assms(2) by (simp add: sorted_append)
qed

theorem SearchEqual_index:
  assumes "pool.ready bp" "index_wf meta (bp_view bp) h t"
  obtains bp' where "BPlusTree_SearchEqual meta key bp = Some (Inr (map snd (filter (\<lambda>e. fst e = key) (bt_entries t))), bp')"
    "pool_to bp (bp_view bp) (bp_avail bp) bp'"
proof -
  obtain pid bp1 L1 es L2 where f: "BPlusTree_FindLeafForKey meta key bp = Some (pid, bp1)" "pool_to bp (bp_view bp) (bp_avail bp) bp1"
    "bt_leaves t = L1 @ (pid, es) # L2" "\<forall>l \<in> set L1. \<forall>e \<in> set (snd l). ekey e < sint key"
    by (rule FindLeaf_index [OF assms])
  note v = pool_toD [OF f(2)] and c = index_chain [OF assms(2) f(3)]
  obtain bp' where r: "search_loop key True [] pid bp1 = Some (map snd (filter (\<lambda>e. fst e = key) (concat (map snd ((pid, es) # L2)))), bp')"
    "pool_to bp1 (bp_view bp1) (bp_avail bp1) bp'"
    using search_loop_chain [OF v(1) c(1) [folded v(2)] c(2), of key True "[]"] by auto
  have "filter (\<lambda>e. fst e = key) (bt_entries t) = filter (\<lambda>e. fst e = key) (concat (map snd ((pid, es) # L2)))"
    using filter_key_empty [OF f(4)] by (simp add: bt_entries_def f(3))
  with f(1) r pool_to_trans [OF f(2) r(2)] v that show thesis by (simp add: BPlusTree_SearchEqual_def)
qed

section \<open>Range scans\<close>

lemma above_range_mono: "above_range high hi k \<Longrightarrow> sint k \<le> sint k' \<Longrightarrow> above_range high hi k'"
  by (cases high) (auto simp: above_range_def sint_eq_iff order_le_less)

lemma scan_range_sorted:
  assumes "sorted (map ekey es)"
  shows "scan_range (below_range low li) (above_range high hi) es acc =
    (acc @ filter (\<lambda>e. \<not> below_range low li (fst e) \<and> \<not> above_range high hi (fst e)) es,
     \<exists>e \<in> set es. \<not> below_range low li (fst e) \<and> above_range high hi (fst e))"
  using assms
proof (induction es arbitrary: acc)
  case (Cons e es)
  have "above_range high hi (fst f)" if "above_range high hi (fst e)" "f \<in> set es" for f
    using Cons.prems that above_range_mono by auto
  then have "filter (\<lambda>e. \<not> below_range low li (fst e) \<and> \<not> above_range high hi (fst e)) es = []" if "above_range high hi (fst e)"
    using that by (auto simp: filter_empty_conv)
  with Cons show ?case by auto
qed simp

lemma range_loop_chain:
  fixes low li high hi
  defines "P \<equiv> \<lambda>e :: Key \<times> RecordId. \<not> below_range low li (fst e) \<and> \<not> above_range high hi (fst e)"
  assumes "pool.ready bp" "leaf_chain (bp_view bp) L kInvalidPageId" "sorted (map ekey (concat (map snd L)))"
  shows "\<exists>bp'. range_loop low li high hi acc (if L = [] then kInvalidPageId else fst (hd L)) bp =
    Some (acc @ filter P (concat (map snd L)), bp') \<and> pool_to bp (bp_view bp) (bp_avail bp) bp'"
  using assms(2-)
proof (induction L arbitrary: acc bp)
  case Nil
  then show ?case using pool_to_refl by (subst range_loop.simps) auto
next
  case (Cons l L)
  obtain pid es where l: "l = (pid, es)" by (cases l)
  let ?n = "if L = [] then kInvalidPageId else fst (hd L)"
  obtain p where p: "pid \<noteq> kInvalidPageId" "bp_view bp pid = Some p" "leaf_page p es ?n" and L: "leaf_chain (bp_view bp) L kInvalidPageId"
    using Cons.prems(2) l by auto
  obtain i bp1 where f: "BufferPool_FetchPage pid bp = (Some i, bp1)" "BufferPool_page i bp1 = p"
    and u: "pool_to bp (bp_view bp) (bp_avail bp) (unpin_page pid False bp1)"
    by (rule access_page [OF Cons.prems(1) p(2)])
  note v = pool_toD [OF u] and d = leaf_pageD [OF p(3)]
  have s: "sorted (map ekey es)" "sorted (map ekey (concat (map snd L)))" "\<forall>e \<in> set es. \<forall>f \<in> set (concat (map snd L)). ekey e \<le> ekey f"
    using Cons.prems(3) l by (auto simp: sorted_append)
  let ?acc = "acc @ filter P es" and ?x = "\<exists>e \<in> set es. \<not> below_range low li (fst e) \<and> above_range high hi (fst e)"
  have scan: "range_scan p low li high hi (length es) 0 acc = (?acc, ?x)"
    using range_scan_entries [OF p(3)] scan_range_sorted [OF s(1)] by (simp add: P_def)
  have step: "range_loop low li high hi acc pid bp = (if ?x then Some (?acc, unpin_page pid False bp1)
      else range_loop low li high hi ?acc ?n (unpin_page pid False bp1))"
    using f p(1) d(3,4) scan by (subst range_loop.simps) (auto simp: Let_def)
  show ?case
  proof (cases ?x)
    case True
    then obtain e where e: "e \<in> set es" "above_range high hi (fst e)" by blast
    have "\<not> P f" if "f \<in> set (concat (map snd L))" for f
      using above_range_mono [OF e(2)] s(3) e(1) that unfolding P_def by blast
    then have "filter P (concat (map snd L)) = []" by (simp only: filter_empty_conv) blast
    with True step u l show ?thesis by simp
  next
    case False
    obtain bp' where "range_loop low li high hi ?acc ?n (unpin_page pid False bp1) = Some (?acc @ filter P (concat (map snd L)), bp')"
      "pool_to (unpin_page pid False bp1) (bp_view (unpin_page pid False bp1)) (bp_avail (unpin_page pid False bp1)) bp'"
      using Cons.IH [OF v(1) L [folded v(2)] s(2), of ?acc] by auto
    with False step l pool_to_trans [OF u] v show ?thesis by auto
  qed
qed

lemma first_leaf_loop_tree:
  assumes "pool.ready bp" "bt_wf (bp_view bp) lo hi nxt t" "bt_height h t"
  shows "\<exists>bp'. first_leaf_loop (bt_id t) bp = Some (first_leaf t, bp') \<and> pool_to bp (bp_view bp) (bp_avail bp) bp'"
  using assms
proof (induction h arbitrary: bp lo hi nxt t)
  case 0
  then obtain pid es p where t: "t = BLeaf pid es" "bp_view bp pid = Some p" "leaf_page p es nxt" by (cases t) auto
  obtain i bp1 where "BufferPool_FetchPage pid bp = (Some i, bp1)" "BufferPool_page i bp1 = p"
    "pool_to bp (bp_view bp) (bp_avail bp) (unpin_page pid False bp1)"
    by (rule access_page [OF 0(1) t(2)])
  then show ?case using t leaf_pageD(2) [OF t(3)] by (subst first_leaf_loop.simps) simp
next
  case (Suc h)
  then obtain pid ks c ts where t: "t = BNode pid ks (c # ts)" by (cases t; cases "case t of BNode _ _ ts \<Rightarrow> ts") auto
  from Suc.prems(2) t obtain p where p: "bp_view bp pid = Some p" "inner_page p ks (map bt_id (c # ts))"
    and bts: "bts_wf (bp_view bp) lo hi nxt ks (c # ts)" by auto
  obtain hi' nxt' where c: "bt_wf (bp_view bp) lo hi' nxt' c" using bts by (cases ks) auto
  obtain i bp1 where f: "BufferPool_FetchPage pid bp = (Some i, bp1)" "BufferPool_page i bp1 = p"
    and u: "pool_to bp (bp_view bp) (bp_avail bp) (unpin_page pid False bp1)"
    by (rule access_page [OF Suc.prems(1) p(1)])
  let ?bp = "unpin_page pid False bp1"
  note v = pool_toD [OF u]
  have step: "first_leaf_loop (bt_id t) bp = first_leaf_loop (bt_id c) ?bp"
    using f inner_pageD(2) [OF p(2)] inner_pageD(7) [OF p(2), of 0] by (subst first_leaf_loop.simps) (simp add: t)
  have "bt_height h c" using Suc.prems(3) by (simp add: t)
  then obtain bp' where "first_leaf_loop (bt_id c) ?bp = Some (first_leaf c, bp')" "pool_to ?bp (bp_view ?bp) (bp_avail ?bp) bp'"
    using Suc.IH [OF v(1) c [folded v(2)]] by blast
  with step pool_to_trans [OF u] v bt_leaves_nonempty(1) [OF c] show ?case by (auto simp: t)
qed

theorem RangeScan_index:
  assumes "pool.ready bp" "index_wf meta (bp_view bp) h t"
  obtains bp' where "BPlusTree_RangeScan meta low li high hi bp =
      Some (Inr (filter (\<lambda>e. \<not> below_range low li (fst e) \<and> \<not> above_range high hi (fst e)) (bt_entries t)), bp')"
    "pool_to bp (bp_view bp) (bp_avail bp) bp'"
proof -
  let ?P = "\<lambda>e :: Key \<times> RecordId. \<not> below_range low li (fst e) \<and> \<not> above_range high hi (fst e)"
  let ?start = "case low of Some l \<Rightarrow> BPlusTree_FindLeafForKey meta l bp
    | None \<Rightarrow> (case BPlusTree_GetRootPageId meta bp of None \<Rightarrow> None | Some (root, bp1) \<Rightarrow> first_leaf_loop root bp1)"
  have "\<exists>bp1 L1 L2. ?start = Some (if L2 = [] then kInvalidPageId else fst (hd L2), bp1) \<and> pool_to bp (bp_view bp) (bp_avail bp) bp1 \<and>
    bt_leaves t = L1 @ L2 \<and> filter ?P (concat (map snd L1)) = []"
  proof (cases low)
    case None
    obtain bp1 where g: "BPlusTree_GetRootPageId meta bp = Some (bt_id t, bp1)" "pool_to bp (bp_view bp) (bp_avail bp) bp1"
      by (rule GetRootPageId_meta [OF assms])
    note v = pool_toD [OF g(2)]
    have w: "bt_wf (bp_view bp1) None None kInvalidPageId t" "bt_height h t" using assms(2) v by (simp_all add: index_wf_def)
    from first_leaf_loop_tree [OF v(1) w] obtain bp2 where "first_leaf_loop (bt_id t) bp1 = Some (first_leaf t, bp2)"
      "pool_to bp1 (bp_view bp1) (bp_avail bp1) bp2" by blast
    with None g v pool_to_trans [OF g(2)] bt_leaves_nonempty(1) [OF w(1)] show ?thesis
      by (intro exI [of _ bp2] exI [of _ "[]"] exI [of _ "bt_leaves t"]) (simp add: first_leaf_def)
  next
    case (Some l)
    obtain pid bp1 L1 es L2 where f: "BPlusTree_FindLeafForKey meta l bp = Some (pid, bp1)" "pool_to bp (bp_view bp) (bp_avail bp) bp1"
      "bt_leaves t = L1 @ (pid, es) # L2" "\<forall>k \<in> set L1. \<forall>e \<in> set (snd k). ekey e < sint l"
      by (rule FindLeaf_index [OF assms])
    have "filter ?P (concat (map snd L1)) = []" using f(4) Some by (auto simp: filter_empty_conv below_range_def)
    with f Some show ?thesis by (intro exI [of _ bp1] exI [of _ L1] exI [of _ "(pid, es) # L2"]) simp
  qed
  then obtain bp1 L1 L2 where st: "?start = Some (if L2 = [] then kInvalidPageId else fst (hd L2), bp1)"
    "pool_to bp (bp_view bp) (bp_avail bp) bp1" "bt_leaves t = L1 @ L2" "filter ?P (concat (map snd L1)) = []" by blast
  note v = pool_toD [OF st(2)] and c = index_chain [OF assms(2) st(3)]
  obtain bp' where r: "range_loop low li high hi [] (if L2 = [] then kInvalidPageId else fst (hd L2)) bp1 =
      Some (filter ?P (concat (map snd L2)), bp')" "pool_to bp1 (bp_view bp1) (bp_avail bp1) bp'"
    using range_loop_chain [OF v(1) c(1) [folded v(2)] c(2), of low li high hi "[]"] by auto
  have "filter ?P (bt_entries t) = filter ?P (concat (map snd L2))"
    unfolding bt_entries_def st(3) map_append concat_append filter_append st(4) by simp
  then have "BPlusTree_RangeScan meta low li high hi bp = Some (Inr (filter ?P (bt_entries t)), bp')"
    unfolding BPlusTree_RangeScan_def st(1) using r(1) by simp
  moreover have "pool_to bp (bp_view bp) (bp_avail bp) bp'" using pool_to_trans [OF st(2) r(2)] v by simp
  ultimately show thesis by (rule that)
qed

section \<open>Deletion\<close>

lemma scan_delete_sorted:
  assumes "sorted (map ekey es)"
  shows "scan_delete key rid i es =
    (if (key, rid) \<in> set es then (Some (i + length (takeWhile (\<lambda>e. e \<noteq> (key, rid)) es)), False)
     else (None, \<exists>e \<in> set es. sint key < ekey e))"
  using assms
proof (induction es arbitrary: i)
  case (Cons e es)
  have "(key, rid) \<notin> set (e # es)" if "sint key < ekey e" using Cons.prems that by force
  with Cons show ?case by (cases e) auto
qed simp

lemma remove1_take_drop:
  "x \<in> set xs \<Longrightarrow> take (length (takeWhile (\<lambda>y. y \<noteq> x) xs)) xs @ drop (length (takeWhile (\<lambda>y. y \<noteq> x) xs) + 1) xs = remove1 x xs"
  by (induction xs) auto

text \<open>The leaf \<open>pid\<close> of a tree gets other entries.\<close>

fun upd_leaf :: "page_id_t \<Rightarrow> (Key \<times> RecordId) list \<Rightarrow> btree \<Rightarrow> btree" where
  "upd_leaf pid es' (BLeaf q es) = BLeaf q (if q = pid then es' else es)"
| "upd_leaf pid es' (BNode q ks ts) = BNode q ks (map (upd_leaf pid es') ts)"

lemma upd_leaf_simps [simp]:
  "bt_id (upd_leaf pid es' t) = bt_id t"
  "bt_pages (upd_leaf pid es' t) = bt_pages t"
  "bt_leaves (upd_leaf pid es' t) = map (\<lambda>(q, es). (q, if q = pid then es' else es)) (bt_leaves t)"
proof -
  show "bt_id (upd_leaf pid es' t) = bt_id t" by (cases t) simp_all
  show "bt_pages (upd_leaf pid es' t) = bt_pages t"
    by (induction t) (simp_all add: o_def cong: map_cong)
  show "bt_leaves (upd_leaf pid es' t) = map (\<lambda>(q, es). (q, if q = pid then es' else es)) (bt_leaves t)"
    by (induction t) (simp_all add: o_def map_concat cong: map_cong)
qed

lemma bt_height_upd_leaf [simp]: "bt_height h (upd_leaf pid es' t) = bt_height h t"
  by (induction h t rule: bt_height.induct) (auto split: nat.splits)

lemma first_leaf_upd_leaf: "bt_leaves t \<noteq> [] \<Longrightarrow> first_leaf (upd_leaf pid es' t) = first_leaf t"
  by (simp add: first_leaf_def hd_map split: prod.splits)

lemma upd_leaf_wf:
  "bt_wf v lo hi nxt t \<Longrightarrow> v pid = Some p \<Longrightarrow> BPlusNode_IsLeaf p \<Longrightarrow> sorted (map ekey es') \<Longrightarrow>
    (\<And>es nxt. (pid, es) \<in> set (bt_leaves t) \<Longrightarrow> set es' \<subseteq> set es \<and> (leaf_page p es nxt \<longrightarrow> leaf_page p' es' nxt)) \<Longrightarrow>
    bt_wf (v(pid \<mapsto> p')) lo hi nxt (upd_leaf pid es' t)"
  "bts_wf v lo hi nxt ks ts \<Longrightarrow> v pid = Some p \<Longrightarrow> BPlusNode_IsLeaf p \<Longrightarrow> sorted (map ekey es') \<Longrightarrow>
    (\<And>t es nxt. t \<in> set ts \<Longrightarrow> (pid, es) \<in> set (bt_leaves t) \<Longrightarrow> set es' \<subseteq> set es \<and> (leaf_page p es nxt \<longrightarrow> leaf_page p' es' nxt)) \<Longrightarrow>
    bts_wf (v(pid \<mapsto> p')) lo hi nxt ks (map (upd_leaf pid es') ts)"
proof (induction v lo hi nxt t and v lo hi nxt ks ts rule: bt_wf_bts_wf.induct)
  case (2 v lo hi nxt q ks ts)
  then obtain p0 where p0: "v q = Some p0" "inner_page p0 ks (map bt_id ts)" "bts_wf v lo hi nxt ks ts" by auto
  then have "q \<noteq> pid" using 2(3,4) inner_pageD(2) by force
  moreover have "bts_wf (v(pid \<mapsto> p')) lo hi nxt ks (map (upd_leaf pid es') ts)"
    by (rule 2(1) [OF p0(3) 2(3-5)]) (rule 2(6), auto)
  moreover have "map bt_id (map (upd_leaf pid es') ts) = map bt_id ts" by (induction ts) simp_all
  ultimately show ?case using p0 by (simp only: upd_leaf.simps bt_wf.simps fun_upd_def if_False) blast
next
  case (5 v lo hi nxt k ks t ts)
  then have w: "ts \<noteq> []" "beyond_low lo (sint k)" "below_high hi (sint k)" "bt_wf v lo (Some (sint k)) (first_leaf (hd ts)) t"
    "bts_wf v (Some (sint k)) hi nxt ks ts" by simp_all
  have "bt_wf (v(pid \<mapsto> p')) lo (Some (sint k)) (first_leaf (hd ts)) (upd_leaf pid es' t)"
    by (rule 5(1) [OF w(4) 5(4-6)]) (rule 5(7), auto)
  moreover have "bts_wf (v(pid \<mapsto> p')) (Some (sint k)) hi nxt ks (map (upd_leaf pid es') ts)"
    by (rule 5(2) [OF w(5) 5(4-6)]) (rule 5(7), auto)
  moreover have "first_leaf (hd (map (upd_leaf pid es') ts)) = first_leaf (hd ts)"
    using w(1) bt_leaves_nonempty(2) [OF w(5)] by (simp add: hd_map first_leaf_upd_leaf)
  ultimately show ?case using w(1-3) by (simp add: fun_upd_def)
qed (auto split: if_splits)

text \<open>The walk of \<open>Delete\<close>: the first leaf that holds the entry loses it.\<close>

definition delete_result ::
  "Key \<Rightarrow> RecordId \<Rightarrow> BufferPool \<Rightarrow> (page_id_t \<times> (Key \<times> RecordId) list) list \<Rightarrow> (Status \<times> BufferPool) option \<Rightarrow> bool" where
  "delete_result key rid bp L r \<longleftrightarrow>
     (if (key, rid) \<in> set (concat (map snd L))
      then \<exists>bp' L1 pid es L2 p p'. r = Some (Status_OK, bp') \<and>
        L = L1 @ (pid, es) # L2 \<and> (key, rid) \<notin> set (concat (map snd L1)) \<and> (key, rid) \<in> set es \<and> bp_view bp pid = Some p \<and>
        BPlusNode_IsLeaf p \<and> (\<forall>nxt. leaf_page p es nxt \<longrightarrow> leaf_page p' (remove1 (key, rid) es) nxt) \<and>
        pool_to bp ((bp_view bp)(pid \<mapsto> p')) (bp_avail bp) bp'
      else \<exists>bp'. r = Some (Status_NotFound ''index entry not found for given key/RecordId'', bp') \<and>
        pool_to bp (bp_view bp) (bp_avail bp) bp')"

lemma delete_result_later:
  assumes "delete_result key rid bp1 L r" and t: "pool_to bp (bp_view bp) (bp_avail bp) bp1" and "(key, rid) \<notin> set (concat (map snd K))"
  shows "delete_result key rid bp (K @ L) r"
proof (cases "(key, rid) \<in> set (concat (map snd L))")
  case True
  note v = pool_toD [OF t]
  obtain bp' L1 pid es L2 p p' where r: "r = Some (Status_OK, bp')" "L = L1 @ (pid, es) # L2" "(key, rid) \<notin> set (concat (map snd L1))"
    "(key, rid) \<in> set es" "bp_view bp1 pid = Some p" "BPlusNode_IsLeaf p"
    "\<forall>nxt. leaf_page p es nxt \<longrightarrow> leaf_page p' (remove1 (key, rid) es) nxt"
    "pool_to bp1 ((bp_view bp1)(pid \<mapsto> p')) (bp_avail bp1) bp'"
    using assms(1) True unfolding delete_result_def by auto
  have "K @ L = (K @ L1) @ (pid, es) # L2" "(key, rid) \<notin> set (concat (map snd (K @ L1)))" "bp_view bp pid = Some p"
    "pool_to bp ((bp_view bp)(pid \<mapsto> p')) (bp_avail bp) bp'"
    using r assms(3) v pool_to_trans [OF t r(8)] by auto
  moreover have "(key, rid) \<in> set (concat (map snd (K @ L)))" using True by auto
  ultimately show ?thesis using r(1,4,6,7) unfolding delete_result_def by (simp only: if_True) blast
next
  case False
  with assms pool_to_trans [OF t] pool_toD [OF t] show ?thesis unfolding delete_result_def by auto
qed

lemma delete_loop_chain:
  assumes "pool.ready bp" "leaf_chain (bp_view bp) L kInvalidPageId" "sorted (map ekey (concat (map snd L)))"
  shows "delete_result key rid bp L (delete_loop key rid (if L = [] then kInvalidPageId else fst (hd L)) bp)"
  using assms
proof (induction L arbitrary: bp)
  case Nil
  then show ?case using pool_to_refl by (subst delete_loop.simps) (simp add: delete_result_def)
next
  case (Cons l L)
  obtain pid es where l: "l = (pid, es)" by (cases l)
  let ?n = "if L = [] then kInvalidPageId else fst (hd L)"
  obtain p where p: "pid \<noteq> kInvalidPageId" "bp_view bp pid = Some p" "leaf_page p es ?n" and L: "leaf_chain (bp_view bp) L kInvalidPageId"
    using Cons.prems(2) l by auto
  obtain i bp1 where f: "BufferPool_FetchPage pid bp = (Some i, bp1)" "BufferPool_page i bp1 = p"
    and upd: "\<And>p' d. length p' = kPageSize \<Longrightarrow> d \<or> p' = p \<Longrightarrow>
      pool_to bp ((bp_view bp)(pid \<mapsto> p')) (bp_avail bp) (unpin_page pid d (BufferPool_put i p' bp1))"
    and u: "pool_to bp (bp_view bp) (bp_avail bp) (unpin_page pid False bp1)"
    by (rule access_page [OF Cons.prems(1) p(2)]) (rule that; assumption)
  note v = pool_toD [OF u] and d = leaf_pageD [OF p(3)]
  have s: "sorted (map ekey es)" "sorted (map ekey (concat (map snd L)))" "\<forall>e \<in> set es. \<forall>f \<in> set (concat (map snd L)). ekey e \<le> ekey f"
    using Cons.prems(3) l by (auto simp: sorted_append)
  let ?j = "length (takeWhile (\<lambda>e. e \<noteq> (key, rid)) es)" and ?x = "\<exists>e \<in> set es. sint key < ekey e"
  have scan: "delete_scan p key rid (length es) 0 = (if (key, rid) \<in> set es then (Some ?j, False) else (None, ?x))"
    using delete_scan_entries [OF p(3)] scan_delete_sorted [OF s(1)] by simp
  show ?case
  proof (cases "(key, rid) \<in> set es")
    case True
    let ?p = "BPlusNode_RemoveLeafEntryAt ?j p"
    have j: "?j < length es" using True by (induction es) auto
    have p': "leaf_page ?p (remove1 (key, rid) es) nxt" if "leaf_page p es nxt" for nxt
      using RemoveLeafEntryAt_page [OF that j] remove1_take_drop [OF True] by simp
    have "delete_loop key rid pid bp = Some (Status_OK, unpin_page pid True (BufferPool_put i ?p bp1))"
      using f p(1) d(3) scan True by (subst delete_loop.simps) (simp add: Let_def)
    moreover have "pool_to bp ((bp_view bp)(pid \<mapsto> ?p)) (bp_avail bp) (unpin_page pid True (BufferPool_put i ?p bp1))"
      using upd [of ?p True] leaf_pageD(1) [OF p' [OF p(3)]] by (simp add: node_ok_def)
    moreover have "l # L = [] @ (pid, es) # L" "(key, rid) \<notin> set (concat (map snd []))" "(key, rid) \<in> set (concat (map snd (l # L)))"
      using True by (simp_all add: l)
    moreover have hd: "(if l # L = [] then kInvalidPageId else fst (hd (l # L))) = pid" by (simp add: l)
    ultimately show ?thesis using True p(2) d(2) p' unfolding delete_result_def hd by (simp only: if_True) blast
  next
    case False
    have step: "delete_loop key rid pid bp = (if ?x
        then Some (Status_NotFound ''index entry not found for given key/RecordId'', unpin_page pid False bp1)
        else delete_loop key rid ?n (unpin_page pid False bp1))"
      using f p(1) d(3,4) scan False by (subst delete_loop.simps) (auto simp: Let_def)
    show ?thesis
    proof (cases ?x)
      case True
      then have "(key, rid) \<notin> set (concat (map snd L))" using s(3) by fastforce
      with False True step u l show ?thesis by (auto simp: delete_result_def)
    next
      case nx: False
      from delete_result_later [OF Cons.IH [OF v(1) L [folded v(2)] s(2)] u, of "[l]"] False nx step l show ?thesis by simp
    qed
  qed
qed

lemma leaves_in_pages: "set (map fst (bt_leaves t)) \<subseteq> set (bt_pages t)"
  by (induction t) auto

lemma distinct_leaves: "distinct (bt_pages t) \<Longrightarrow> distinct (map fst (bt_leaves t))"
proof (induction t)
  case (BNode pid ks ts)
  then have "distinct (concat (map bt_pages ts))" "\<forall>t \<in> set ts. distinct (bt_pages t) \<longrightarrow> distinct (map fst (bt_leaves t))" by simp_all
  then show ?case
  proof (induction ts)
    case (Cons t ts)
    have "set (map fst (concat (map bt_leaves ts))) \<subseteq> set (concat (map bt_pages ts))" using leaves_in_pages by fastforce
    with Cons leaves_in_pages [of t] show ?case by (simp add: disjoint_iff) blast
  qed simp
qed simp

lemma remove1_append_notin: "x \<notin> set xs \<Longrightarrow> remove1 x (xs @ ys) = xs @ remove1 x ys"
  by (simp add: remove1_append)

theorem Delete_index:
  assumes "pool.ready bp" and w: "index_wf meta (bp_view bp) h t"
  obtains s bp' t' where "BPlusTree_Delete meta key rid bp = Some (s, bp')" "status_code s = (if (key, rid) \<in> set (bt_entries t) then kOk else kNotFound)"
    "pool_to bp (bp_view bp') (bp_avail bp) bp'" "index_wf meta (bp_view bp') h t'" "bt_entries t' = remove1 (key, rid) (bt_entries t)"
    "index_step meta (bp_view bp) t (bp_view bp') t'"
proof -
  obtain q bp1 K es0 L' where f: "BPlusTree_FindLeafForKey meta key bp = Some (q, bp1)" "pool_to bp (bp_view bp) (bp_avail bp) bp1"
    "bt_leaves t = K @ (q, es0) # L'" "\<forall>l \<in> set K. \<forall>e \<in> set (snd l). ekey e < sint key"
    by (rule FindLeaf_index [OF assms])
  let ?L = "(q, es0) # L'"
  note v1 = pool_toD [OF f(2)] and c = index_chain [OF w f(3)]
  have "(key, rid) \<notin> set (concat (map snd K))" using f(4) by fastforce
  moreover have "delete_result key rid bp1 ?L (BPlusTree_Delete meta key rid bp)"
    using delete_loop_chain [OF v1(1) c(1) [folded v1(2)] c(2), of key rid] f(1) by (simp add: BPlusTree_Delete_def)
  ultimately have r: "delete_result key rid bp (bt_leaves t) (BPlusTree_Delete meta key rid bp)"
    unfolding f(3) by (intro delete_result_later [OF _ f(2)])
  show thesis
  proof (cases "(key, rid) \<in> set (bt_entries t)")
    case False
    then obtain bp' where r': "BPlusTree_Delete meta key rid bp = Some (Status_NotFound ''index entry not found for given key/RecordId'', bp')"
      "pool_to bp (bp_view bp) (bp_avail bp) bp'" using r by (auto simp: delete_result_def bt_entries_def)
    show thesis by (rule that [OF r'(1), of t]) (use False w r' pool_toD [OF r'(2)] in \<open>auto simp: remove1_idem index_step_def Status_NotFound_def\<close>)
  next
    case True
    then obtain bp' L1 pid es L2 p p' where r': "BPlusTree_Delete meta key rid bp = Some (Status_OK, bp')" "bt_leaves t = L1 @ (pid, es) # L2"
      "(key, rid) \<notin> set (concat (map snd L1))" "(key, rid) \<in> set es" "bp_view bp pid = Some p" "BPlusNode_IsLeaf p"
      "\<forall>nxt. leaf_page p es nxt \<longrightarrow> leaf_page p' (remove1 (key, rid) es) nxt" "pool_to bp ((bp_view bp)(pid \<mapsto> p')) (bp_avail bp) bp'"
      using r unfolding delete_result_def bt_entries_def by auto
    let ?t = "upd_leaf pid (remove1 (key, rid) es) t"
    note w' = w [unfolded index_wf_def] and v' = pool_toD [OF r'(8)]
    have pid: "pid \<in> set (bt_pages t)" "\<forall>es'. (pid, es') \<in> set (bt_leaves t) \<longrightarrow> es' = es" "\<forall>l \<in> set L1 \<union> set L2. fst l \<noteq> pid"
      using distinct_leaves [of t] w' r'(2) leaves_in_pages [of t] by (auto simp: image_iff)
    have "bt_wf (bp_view bp') None None kInvalidPageId ?t"
      unfolding v'(2)
    proof (rule upd_leaf_wf(1) [where p = p])
      show "sorted (map ekey (remove1 (key, rid) es))" 
        using index_chain(2) [OF w r'(2)] by (simp add: sorted_append sorted_map_remove1)
    qed (use w' pid r'(5-7) in \<open>auto dest: subsetD [OF set_remove1_subset]\<close>)
    moreover have "bt_entries ?t = remove1 (key, rid) (bt_entries t)"
    proof -
      have "map (\<lambda>(q, es'). (q, if q = pid then remove1 (key, rid) es else es')) L = L" if "\<forall>l \<in> set L. fst l \<noteq> pid" for L
        using that by (intro map_idI) (auto split: prod.splits)
      with r'(2-4) pid(3) show ?thesis by (simp add: bt_entries_def remove1_append_notin remove1_append)
    qed
    moreover have "meta \<noteq> pid" using w' pid(1) by auto
    ultimately have "index_wf meta (bp_view bp') h ?t" using w' v'(2) unfolding index_wf_def by simp
    moreover have "index_step meta (bp_view bp) t (bp_view bp') ?t" using pid(1) v'(2) by (auto simp: index_step_def)
    ultimately show thesis
      using that [OF r'(1), of ?t] True r'(8) v'(2) \<open>bt_entries ?t = _\<close> by (simp add: Status_OK_def)
  qed
qed

section \<open>A new tree\<close>

theorem new_index:
  assumes ready: "pool.ready bp" and room: "pool_room bp 2" and av: "2 \<le> bp_avail bp"
  obtains meta root bp' where "BPlusTree_new kInvalidPageId bp = Some (meta, bp')" "pool_to bp (bp_view bp') (bp_avail bp - 2) bp'"
    "index_wf meta (bp_view bp') 0 (BLeaf root [])" "bp_view bp meta = None" "bp_view bp root = None"
    "\<And>q. q \<noteq> meta \<Longrightarrow> q \<noteq> root \<Longrightarrow> bp_view bp' q = bp_view bp q"
proof -
  have r: "card {q. 0 < bp_pins bp q} + card (dom (Map.empty :: page_id_t \<rightharpoonup> frame_id_t)) < length (bp_frames bp)" "0 < bp_avail bp"
    using room av by (simp_all add: pool_room_def)
  obtain i meta bp1 where f1: "BufferPool_NewPage bp = (Some (i, meta), bp1)" "bp_view bp meta = None" "meta \<noteq> kInvalidPageId"
    and h1: "pool.holding bp [meta \<mapsto> i] ((bp_view bp)(meta \<mapsto> Page_Reset)) (bp_avail bp - 1) bp1"
    by (rule pool.holding_alloc [OF pool.holding_start [OF ready] r])
  have r: "card {q. 0 < bp_pins bp q} + card (dom [meta \<mapsto> i]) < length (bp_frames bp)" "0 < bp_avail bp - 1"
    using room av by (simp_all add: pool_room_def)
  obtain j root bp2 where f2: "BufferPool_NewPage bp1 = (Some (j, root), bp2)" "((bp_view bp)(meta \<mapsto> Page_Reset)) root = None"
    "root \<noteq> kInvalidPageId"
    and h2: "pool.holding bp [meta \<mapsto> i, root \<mapsto> j] ((bp_view bp)(meta \<mapsto> Page_Reset, root \<mapsto> Page_Reset)) (bp_avail bp - 1 - 1) bp2"
    by (rule pool.holding_alloc [OF h1 r])
  have ne: "meta \<noteq> root" "bp_view bp root = None" using f2(2) by (auto split: if_splits)
  have j: "BufferPool_page j bp2 = Page_Reset" using pool.holding_page [OF h2, of root j Page_Reset] by simp
  let ?r = "BPlusNode_InitLeaf kInvalidPageId Page_Reset" and ?m = "write_at 0 root Page_Reset"
  have rp: "leaf_page ?r [] kInvalidPageId" by (rule InitLeaf_page) (simp add: node_ok_def)
  have lr: "length ?r = kPageSize" "length ?m = kPageSize" "read_at 0 ?m = root"
    using leaf_pageD(1) [OF rp] by (simp_all add: node_ok_def layout kPageSize_def)
  have h3: "pool.holding bp [meta \<mapsto> i, root \<mapsto> j] ((bp_view bp)(meta \<mapsto> Page_Reset, root \<mapsto> ?r)) (bp_avail bp - 1 - 1) (BufferPool_put j ?r bp2)"
    using pool.holding_put [OF h2 _ lr(1), of root j] by simp
  let ?bp4 = "unpin_page root True (BufferPool_put j ?r bp2)"
  have h4: "pool.holding bp [meta \<mapsto> i] ((bp_view bp)(meta \<mapsto> Page_Reset, root \<mapsto> ?r)) (bp_avail bp - 1 - 1) ?bp4"
    using unpin_held [OF h3, of root j] ne(1) by (simp add: fun_upd_twist)
  have i: "BufferPool_page i ?bp4 = Page_Reset" using pool.holding_page [OF h4, of meta i Page_Reset] ne(1) by simp
  let ?bp6 = "unpin_page meta True (BufferPool_put i ?m ?bp4)"
  have "pool.holding bp Map.empty ((bp_view bp)(meta \<mapsto> ?m, root \<mapsto> ?r)) (bp_avail bp - 1 - 1) ?bp6"
    using unpin_held [OF pool.holding_put [OF h4 _ lr(2), of meta i], of meta i] ne(1) by (simp add: fun_upd_twist)
  from pool.holding_end [OF ready this]
  have t: "pool_to bp ((bp_view bp)(meta \<mapsto> ?m, root \<mapsto> ?r)) (bp_avail bp - 2) ?bp6" by (simp add: pool_to_def numeral_2_eq_2)
  note v = pool_toD(2) [OF t]
  have "BPlusTree_new kInvalidPageId bp = Some (meta, ?bp6)" using f1(1) f2(1) i j by (simp add: BPlusTree_new_def Let_def)
  moreover have "index_wf meta (bp_view ?bp6) 0 (BLeaf root [])"
    unfolding index_wf_def v using lr ne(1) rp f2(3) by simp
  ultimately show thesis using that [of meta ?bp6 root] t v f1(2) ne(2) by simp
qed

section \<open>The index as a sorted list\<close>

text \<open>
  \<open>index_holds meta n es bp\<close>: the index holds exactly the entries \<open>es\<close> and there is room for \<open>n\<close> more insertions. A
  tree of height \<open>h\<close> takes at most \<open>h + 3\<close> new pages for one, and grows by at most one level.
\<close>

definition index_holds :: "page_id_t \<Rightarrow> nat \<Rightarrow> (Key \<times> RecordId) list \<Rightarrow> BufferPool \<Rightarrow> bool" where
  "index_holds meta n es bp \<longleftrightarrow> pool.ready bp \<and> pool_room bp 3 \<and>
     (\<exists>h t. index_wf meta (bp_view bp) h t \<and> bt_entries t = es \<and> n * (h + n + 3) \<le> bp_avail bp)"

locale ordered_index =
  fixes holds :: "nat \<Rightarrow> (Key \<times> RecordId) list \<Rightarrow> 's \<Rightarrow> bool"
    and ins :: "Key \<Rightarrow> RecordId \<Rightarrow> 's \<Rightarrow> (Status \<times> 's) option"
    and del :: "Key \<Rightarrow> RecordId \<Rightarrow> 's \<Rightarrow> (Status \<times> 's) option"
    and equal_keys :: "Key \<Rightarrow> 's \<Rightarrow> (RecordId list Result \<times> 's) option"
    and in_range :: "Key option \<Rightarrow> bool \<Rightarrow> Key option \<Rightarrow> bool \<Rightarrow> 's \<Rightarrow> ((Key \<times> RecordId) list Result \<times> 's) option"
  assumes ins_law: "holds (Suc n) es s \<Longrightarrow> few_equal es \<Longrightarrow>
      \<exists>s'. ins key rid s = Some (Status_OK, s') \<and> holds n (ins_entry key rid es) s'"
    and del_law: "holds n es s \<Longrightarrow> \<exists>st s'. del key rid s = Some (st, s') \<and>
      status_code st = (if (key, rid) \<in> set es then kOk else kNotFound) \<and> holds n (remove1 (key, rid) es) s'"
    and equal_law: "holds n es s \<Longrightarrow>
      \<exists>s'. equal_keys key s = Some (Inr (map snd (filter (\<lambda>e. fst e = key) es)), s') \<and> holds n es s'"
    and range_law: "holds n es s \<Longrightarrow> \<exists>s'. in_range low li high hi s =
      Some (Inr (filter (\<lambda>e. \<not> below_range low li (fst e) \<and> \<not> above_range high hi (fst e)) es), s') \<and> holds n es s'"
    and holds_sorted: "holds n es s \<Longrightarrow> sorted (map ekey es)"

interpretation btree: ordered_index "index_holds meta" "BPlusTree_Insert meta" "BPlusTree_Delete meta"
  "BPlusTree_SearchEqual meta" "BPlusTree_RangeScan meta" for meta
proof
  fix n es bp key rid
  show "sorted (map ekey es)" if "index_holds meta n es bp"
    using that sorted_bt_entries(1) by (auto simp: index_holds_def index_wf_def)
  assume "index_holds meta (Suc n) es bp" "few_equal es"
  then obtain h t where t: "pool.ready bp" "pool_room bp 3" "index_wf meta (bp_view bp) h t" "bt_entries t = es" "few_equal (bt_entries t)"
    "Suc n * (h + Suc n + 3) \<le> bp_avail bp" by (auto simp: index_holds_def)
  have "h + 3 \<le> bp_avail bp" using t(6) by simp
  from t(1-3,5) this obtain bp' h' t' where i: "BPlusTree_Insert meta key rid bp = Some (Status_OK, bp')"
    "pool_to bp (bp_view bp') (bp_avail bp') bp'" "bp_avail bp \<le> bp_avail bp' + h + 3" "h' \<le> Suc h" "index_wf meta (bp_view bp') h' t'"
    "bt_entries t' = ins_entry key rid (bt_entries t)"
    by (rule Insert_index)
  have "n * (h' + n + 3) \<le> n * (h + Suc n + 3)" using i(4) by (intro mult_le_mono2) simp
  also have "\<dots> + (h + Suc n + 3) \<le> bp_avail bp" using t(6) by simp
  finally have "n * (h' + n + 3) \<le> bp_avail bp'" using i(3) by simp
  with i t(2,4) pool_toD(1) [OF i(2)] pool_room_to [OF i(2)]
  show "\<exists>s'. BPlusTree_Insert meta key rid bp = Some (Status_OK, s') \<and> index_holds meta n (ins_entry key rid es) s'"
    by (auto simp: index_holds_def)
next
  fix n es bp key rid low li high hi
  assume "index_holds meta n es bp"
  then obtain h t where t: "pool.ready bp" "pool_room bp 3" "index_wf meta (bp_view bp) h t" "bt_entries t = es"
    "n * (h + n + 3) \<le> bp_avail bp" by (auto simp: index_holds_def)
  have keep: "index_holds meta n es bp'" if p: "pool_to bp (bp_view bp) (bp_avail bp) bp'" for bp'
    using t pool_toD [OF p] pool_room_to [OF p] by (auto simp: index_holds_def)
  show "\<exists>s'. BPlusTree_SearchEqual meta key bp = Some (Inr (map snd (filter (\<lambda>e. fst e = key) es)), s') \<and> index_holds meta n es s'"
    by (rule SearchEqual_index [OF t(1,3), of key]) (use keep t(4) in auto)
  show "\<exists>s'. BPlusTree_RangeScan meta low li high hi bp =
      Some (Inr (filter (\<lambda>e. \<not> below_range low li (fst e) \<and> \<not> above_range high hi (fst e)) es), s') \<and> index_holds meta n es s'"
    by (rule RangeScan_index [OF t(1,3), of low li high hi]) (use keep t(4) in auto)
  obtain s bp' t' where d: "BPlusTree_Delete meta key rid bp = Some (s, bp')"
    "status_code s = (if (key, rid) \<in> set (bt_entries t) then kOk else kNotFound)"
    "pool_to bp (bp_view bp') (bp_avail bp) bp'" "index_wf meta (bp_view bp') h t'" "bt_entries t' = remove1 (key, rid) (bt_entries t)"
    by (rule Delete_index [OF t(1,3)])
  with t pool_toD [OF d(3)] pool_room_to [OF d(3)] show "\<exists>st s'. BPlusTree_Delete meta key rid bp = Some (st, s') \<and>
      status_code st = (if (key, rid) \<in> set es then kOk else kNotFound) \<and> index_holds meta n (remove1 (key, rid) es) s'"
    by (auto simp: index_holds_def)
qed

text \<open>Sequences of insertions and deletions.\<close>

datatype index_op = IndexInsert Key RecordId | IndexDelete Key RecordId

fun run_ops :: "(Key \<Rightarrow> RecordId \<Rightarrow> 's \<Rightarrow> (Status \<times> 's) option) \<Rightarrow> (Key \<Rightarrow> RecordId \<Rightarrow> 's \<Rightarrow> (Status \<times> 's) option) \<Rightarrow>
    index_op list \<Rightarrow> 's \<Rightarrow> 's option" where
  "run_ops ins del [] s = Some s"
| "run_ops ins del (IndexInsert key rid # ops) s = (case ins key rid s of None \<Rightarrow> None | Some (_, s') \<Rightarrow> run_ops ins del ops s')"
| "run_ops ins del (IndexDelete key rid # ops) s = (case del key rid s of None \<Rightarrow> None | Some (_, s') \<Rightarrow> run_ops ins del ops s')"

fun entries_after :: "index_op list \<Rightarrow> (Key \<times> RecordId) list \<Rightarrow> (Key \<times> RecordId) list" where
  "entries_after [] es = es"
| "entries_after (IndexInsert key rid # ops) es = entries_after ops (ins_entry key rid es)"
| "entries_after (IndexDelete key rid # ops) es = entries_after ops (remove1 (key, rid) es)"

fun insertions :: "index_op list \<Rightarrow> nat" where
  "insertions [] = 0"
| "insertions (IndexInsert key rid # ops) = Suc (insertions ops)"
| "insertions (IndexDelete key rid # ops) = insertions ops"

context ordered_index
begin

lemma run_holds:
  "holds (insertions ops + n) es s \<Longrightarrow> \<forall>k. few_equal (entries_after (take k ops) es) \<Longrightarrow>
    \<exists>s'. run_ops ins del ops s = Some s' \<and> holds n (entries_after ops es) s'"
proof (induction ops arbitrary: es s)
  case Nil
  then show ?case by simp
next
  case (Cons a ops)
  have few: "few_equal es" "\<forall>k. few_equal (entries_after (a # take k ops) es)"
    using Cons.prems(2) by (metis entries_after.simps(1) take0, metis take_Suc_Cons)
  show ?case
  proof (cases a)
    case (IndexInsert key rid)
    with Cons.prems(1) ins_law [of "insertions ops + n" es s key rid] few(1) obtain s' where
      "ins key rid s = Some (Status_OK, s')" "holds (insertions ops + n) (ins_entry key rid es) s'" by auto
    with Cons.IH few(2) IndexInsert show ?thesis by simp
  next
    case (IndexDelete key rid)
    with Cons.prems(1) del_law [of "insertions ops + n" es s key rid] obtain st s' where
      "del key rid s = Some (st, s')" "holds (insertions ops + n) (remove1 (key, rid) es) s'" by auto
    with Cons.IH few(2) IndexDelete show ?thesis by simp
  qed
qed

end

lemma new_holds:
  assumes "pool.ready bp" "pool_room bp 3" "n * (n + 3) + 2 \<le> bp_avail bp"
  obtains meta bp' where "BPlusTree_new kInvalidPageId bp = Some (meta, bp')" "index_holds meta n [] bp'"
proof -
  have "pool_room bp 2" "2 \<le> bp_avail bp" using assms by (simp_all add: pool_room_def)
  from assms(1) this obtain meta root bp' where r: "BPlusTree_new kInvalidPageId bp = Some (meta, bp')"
    "pool_to bp (bp_view bp') (bp_avail bp - 2) bp'" "index_wf meta (bp_view bp') 0 (BLeaf root [])"
    by (rule new_index)
  have "bt_entries (BLeaf root []) = []" "n * (0 + n + 3) \<le> bp_avail bp'" using pool_toD(3) [OF r(2)] assms(3) by simp_all
  with r(3) pool_toD(1) [OF r(2)] pool_room_to [OF r(2)] assms(2) have "index_holds meta n [] bp'"
    unfolding index_holds_def by blast
  with r(1) that show thesis by blast
qed

text \<open>The keys between two bounds, each of them absent, inclusive or exclusive.\<close>

definition key_in_range :: "Key option \<Rightarrow> bool \<Rightarrow> Key option \<Rightarrow> bool \<Rightarrow> Key \<Rightarrow> bool" where
  "key_in_range low li high hi k \<longleftrightarrow>
     (case low of None \<Rightarrow> True | Some l \<Rightarrow> if li then sint l \<le> sint k else sint l < sint k) \<and>
     (case high of None \<Rightarrow> True | Some h \<Rightarrow> if hi then sint k \<le> sint h else sint k < sint h)"

lemma key_in_range_iff: "\<not> below_range low li k \<and> \<not> above_range high hi k \<longleftrightarrow> key_in_range low li high hi k"
  by (auto simp: key_in_range_def below_range_def above_range_def sint_eq_iff [symmetric] split: option.split)

text \<open>
  C7. A B+ tree built in a pool with room for three pinned pages behaves as the list of its entries
  sorted by key: after any sequence of insertions and deletions in which no key ever fills a leaf, and of
  \<open>n\<close> insertions at most if the file has room for \<open>n * (n + 3) + 2\<close> more pages,
  every operation has returned, an equality search gives the record ids of the entries with that key,
  and a range scan gives the entries in the range, in key order.
\<close>

theorem index_history:
  assumes "pool.ready bp" and "pool_room bp 3" and "insertions ops * (insertions ops + 3) + 2 \<le> bp_avail bp"
    and "\<forall>k. few_equal (entries_after (take k ops) [])"
  shows "\<exists>meta bp0 bp1. BPlusTree_new kInvalidPageId bp = Some (meta, bp0) \<and>
    run_ops (BPlusTree_Insert meta) (BPlusTree_Delete meta) ops bp0 = Some bp1 \<and>
    (\<forall>key. \<exists>bp2. BPlusTree_SearchEqual meta key bp1 =
       Some (Inr (map snd (filter (\<lambda>e. fst e = key) (entries_after ops []))), bp2)) \<and>
    (\<forall>low li high hi. \<exists>bp2. BPlusTree_RangeScan meta low li high hi bp1 =
       Some (Inr (filter (\<lambda>e. key_in_range low li high hi (fst e)) (entries_after ops [])), bp2)) \<and>
    sorted (map (\<lambda>e. sint (fst e)) (entries_after ops []))"
proof -
  obtain meta bp0 where n: "BPlusTree_new kInvalidPageId bp = Some (meta, bp0)" "index_holds meta (insertions ops + 0) [] bp0"
    using new_holds [OF assms(1-3)] by auto
  from btree.run_holds [OF this(2) assms(4)] obtain bp1 where
    r: "run_ops (BPlusTree_Insert meta) (BPlusTree_Delete meta) ops bp0 = Some bp1" "index_holds meta 0 (entries_after ops []) bp1" by blast
  show ?thesis using n(1) r(1) btree.equal_law [OF r(2)] btree.range_law [OF r(2), unfolded key_in_range_iff] btree.holds_sorted [OF r(2)] by blast
qed

lemma few_equal_short: "length es < kLeafMaxKeys \<Longrightarrow> few_equal es"
  unfolding few_equal_def using le_less_trans [OF length_filter_le] by blast

lemma length_entries_after: "length (entries_after ops es) \<le> length ops + length es"
proof (induction ops es rule: entries_after.induct)
  case (2 key rid ops es)
  have "length (ins_entry key rid es) = Suc (length es)"
    using arg_cong [OF takeWhile_dropWhile_id [of "\<lambda>e. ekey e < sint key" es], of length]
    unfolding length_append by (simp add: ins_entry_def)
  with 2 show ?case by simp
next
  case (3 key rid ops es)
  have "length (remove1 (key, rid) es) \<le> length es" by (simp add: length_remove1)
  with 3 show ?case by simp
qed simp

definition demo_ops :: "index_op list" where
  "demo_ops = [IndexInsert 5 \<lparr>rid_page_id = 1, rid_slot_id = 0\<rparr>, IndexInsert 3 \<lparr>rid_page_id = 1, rid_slot_id = 1\<rparr>,
     IndexDelete 5 \<lparr>rid_page_id = 1, rid_slot_id = 0\<rparr>]"

theorem index_history_witness:
  "\<exists>meta bp0 bp1 bp2. BPlusTree_new kInvalidPageId demo_pool = Some (meta, bp0) \<and>
     run_ops (BPlusTree_Insert meta) (BPlusTree_Delete meta) demo_ops bp0 = Some bp1 \<and>
     BPlusTree_SearchEqual meta 3 bp1 = Some (Inr [\<lparr>rid_page_id = 1, rid_slot_id = 1\<rparr>], bp2)"
proof -
  have room: "pool_room demo_pool 3"
    by (simp add: pool_room_def demo_pool_def bp_pins_new) (simp add: BufferPool_new_def)
  have "insertions demo_ops * (insertions demo_ops + 3) + 2 \<le> bp_avail demo_pool"
    using avail_new [of demo_pm 4] demo_pm_ok(3) by (simp add: demo_pool_def demo_ops_def)
  moreover have "length (entries_after (take k demo_ops) []) < kLeafMaxKeys" for k
    using length_entries_after [of "take k demo_ops" "[]"] by (simp add: demo_ops_def kLeafMaxKeys_value)
  then have "\<forall>k. few_equal (entries_after (take k demo_ops) [])" using few_equal_short by blast
  ultimately obtain meta bp0 bp1 where r: "BPlusTree_new kInvalidPageId demo_pool = Some (meta, bp0)"
    "run_ops (BPlusTree_Insert meta) (BPlusTree_Delete meta) demo_ops bp0 = Some bp1"
    "\<forall>key. \<exists>bp2. BPlusTree_SearchEqual meta key bp1 =
       Some (Inr (map snd (filter (\<lambda>e. fst e = key) (entries_after demo_ops []))), bp2)"
    using index_history [OF demo_pool_ok(2) room, of demo_ops] by blast
  have "map snd (filter (\<lambda>e. fst e = 3) (entries_after demo_ops [])) = [\<lparr>rid_page_id = 1, rid_slot_id = 1\<rparr>]"
    by (simp add: demo_ops_def ins_entry_def)
  with r(3) [rule_format, of 3] r(1,2) show ?thesis by auto
qed

end
