(* ===== verification/Database.thy ===== *)
theory Database
  imports Table_Manager Bplus_Search
begin

text \<open>
  The database (\<open>src/database.hpp\<close>): three files, for the catalog, the rows and the indexes, each with a
  page manager and a buffer pool, and the catalog and table manager on top of them. A file is given
  by how it may be used, its contents, if it exists, and the faults of the device.
\<close>

record Database = TableManager +
  db_index_pool :: BufferPool

type_synonym db_file = "file_access \<times> byte list option \<times> nat option list"

definition DetectExistingTableCatalogFirstPage :: "PageManager \<Rightarrow> page_id_t" where
  "DetectExistingTableCatalogFirstPage pm =
     (if PageManager_PageCount pm > 1 then kFirstDataPageId else kInvalidPageId)"

definition DetectExistingIndexCatalogFirstPage :: "PageManager \<Rightarrow> page_id_t" where
  "DetectExistingIndexCatalogFirstPage pm =
     (if PageManager_PageCount pm > 2 then kFirstDataPageId + 1 else kInvalidPageId)"

definition open_file :: "db_file \<Rightarrow> BufferPool" where
  "open_file f =
     (case f of (access, contents, faults) \<Rightarrow> BufferPool_new (PageManager_open access contents faults) kDefaultBufferPoolSize)"

definition Database_new :: "db_file \<Rightarrow> db_file \<Rightarrow> db_file \<Rightarrow> Database option" where
  "Database_new catalog_db data_db index_db =
     (let catalog_pool = open_file catalog_db; data_pool = open_file data_db; index_pool = open_file index_db;
          pm = bp_page_manager catalog_pool
      in map_option (\<lambda>(cm, bp). \<lparr>tb_data_pool = data_pool, tb_catalog_pool = bp, tb_catalog = cm, tb_open_tables = [],
             db_index_pool = index_pool\<rparr>)
           (CatalogManager_new (DetectExistingTableCatalogFirstPage pm) (DetectExistingIndexCatalogFirstPage pm) catalog_pool))"

text \<open>The statuses of the three calls are discarded.\<close>

definition Database_FlushAll :: "Database \<Rightarrow> Database" where
  "Database_FlushAll db =
     db\<lparr>tb_catalog_pool := snd (BufferPool_FlushAll (tb_catalog_pool db)),
        tb_data_pool := snd (BufferPool_FlushAll (tb_data_pool db)),
        db_index_pool := snd (BufferPool_FlushAll (db_index_pool db))\<rparr>"

text \<open>
  The destructor closes the files; the buffer pools have none of their own. The result is what the
  files of the catalog, the rows and the indexes hold afterwards.
\<close>

definition Database_close :: "Database \<Rightarrow> byte list \<times> byte list \<times> byte list" where
  "Database_close db =
     (PageManager_close (bp_page_manager (tb_catalog_pool db)), PageManager_close (bp_page_manager (tb_data_pool db)),
      PageManager_close (bp_page_manager (db_index_pool db)))"

section \<open>The pages of a file\<close>

text \<open>
  The pages of a file are numbered from 1 without gaps, so the number of pages that can still be
  allocated determines which pages exist, and a new page is the next one.
\<close>

lemma mapped_iff: "bp_view bp q \<noteq> None \<longleftrightarrow> 0 < unat q \<and> unat q < pm_page_count (bp_page_manager bp)"
  by (simp add: bp_view_def pm_valid_def)

lemma page_count_avail:
  assumes "pool.ready bp"
  shows "pm_page_count (bp_page_manager bp) = 2 ^ 31 - 1 - bp_avail bp" "1 \<le> pm_page_count (bp_page_manager bp)" "bp_avail bp \<le> 2 ^ 31 - 2"
proof -
  have "pm_count_ok (bp_page_manager bp)" using assms by (auto simp: pool.ready_def bp_wf_def pm_live_def pm_wf_def)
  then show "pm_page_count (bp_page_manager bp) = 2 ^ 31 - 1 - bp_avail bp" "1 \<le> pm_page_count (bp_page_manager bp)" "bp_avail bp \<le> 2 ^ 31 - 2"
    by (auto simp: pm_count_ok_def bp_avail_def)
qed

lemma next_page:
  assumes bp: "pool.ready bp" "pool.ready bp'" and av: "0 < bp_avail bp" "bp_avail bp' = bp_avail bp - 1"
    and new: "bp_view bp p = None" "bp_view bp' p \<noteq> None"
  shows "unat p = pm_page_count (bp_page_manager bp)"
  using new page_count_avail [OF bp(1)] page_count_avail [OF bp(2)] av
  by (simp add: mapped_iff [of bp' p] mapped_iff [of bp p, simplified, symmetric] bp_view_def pm_valid_def split: if_splits)

lemma same_pages_avail:
  assumes bp: "pool.ready bp" "pool.ready bp'" and v: "bp_view bp' = bp_view bp"
  shows "bp_avail bp' = bp_avail bp"
proof -
  let ?c = "pm_page_count (bp_page_manager bp)" and ?d = "pm_page_count (bp_page_manager bp')"
  note c = page_count_avail [OF bp(1)] and d = page_count_avail [OF bp(2)]
  have "bp_view bp q \<noteq> None \<longleftrightarrow> bp_view bp' q \<noteq> None" for q by (simp add: v)
  then have same: "0 < unat q \<and> unat q < ?c \<longleftrightarrow> 0 < unat q \<and> unat q < ?d" for q :: page_id_t unfolding mapped_iff .
  have u: "unat (word_of_nat n :: page_id_t) = n" if "n < 2 ^ 31" for n using that by (simp add: unat_of_nat take_bit_eq_mod)
  have lt: "?c < 2 ^ 31" "?d < 2 ^ 31" using c(1) d(1) by simp_all
  have "?c = ?d" using same [of "word_of_nat ?c"] same [of "word_of_nat ?d"] u [OF lt(1)] u [OF lt(2)] c(2) d(2) by auto
  then show ?thesis using c d by linarith
qed

lemma reopen_pool:
  assumes "pool.ready bp"
  obtains bp' where "open_file (ReadWrite, Some (PageManager_close (bp_page_manager (snd (BufferPool_FlushAll bp)))), []) = bp'"
    "pool.ready bp'" "bp_view bp' = bp_view bp" "bp_avail bp' = bp_avail bp" "pool_room bp' 3"
proof -
  have wf: "bp_wf bp" "\<And>q. bp_synced bp q" using assms by (simp_all add: pool.ready_def)
  obtain bp1 where f: "BufferPool_FlushAll bp = (Status_OK, bp1)"
    "bp_wf (BufferPool_new (PageManager_open ReadWrite (Some (PageManager_close (bp_page_manager bp1))) []) kDefaultBufferPoolSize)"
    "bp_view (BufferPool_new (PageManager_open ReadWrite (Some (PageManager_close (bp_page_manager bp1))) []) kDefaultBufferPoolSize) = bp_view bp"
    by (rule flush_reopen [OF wf])
  let ?bp' = "BufferPool_new (PageManager_open ReadWrite (Some (PageManager_close (bp_page_manager bp1))) []) kDefaultBufferPoolSize"
  have "pm_live (PageManager_open ReadWrite (Some (PageManager_close (bp_page_manager bp1))) [])" using f(2) by (simp add: bp_wf_def BufferPool_new_def)
  then have r: "pool.ready ?bp'" by (rule pool_ready_new) (simp add: kDefaultBufferPoolSize_def)
  have "pool_room ?bp' 3" by (simp add: pool_room_def bp_pins_new) (simp add: BufferPool_new_def kDefaultBufferPoolSize_def)
  with that [of ?bp'] f(1,3) r same_pages_avail [OF assms r f(3)] show thesis by (simp add: open_file_def)
qed

lemma new_pool:
  obtains bp where "open_file (ReadWrite, None, []) = bp" "pool.ready bp" "bp_avail bp = 2 ^ 31 - 2" "pool_room bp 3"
    "pm_page_count (bp_page_manager bp) = 1" "bp_view bp = (\<lambda>_. None)"
proof -
  note pm = PageManager_open_new
  let ?bp = "BufferPool_new (PageManager_open ReadWrite None []) kDefaultBufferPoolSize"
  have "pm_live (PageManager_open ReadWrite None [])" using demo_pm_ok(1) by (simp add: demo_pm_def)
  then have r: "pool.ready ?bp" by (rule pool_ready_new) (simp add: kDefaultBufferPoolSize_def)
  have c: "pm_page_count (bp_page_manager ?bp) = 1" using demo_pm_ok(3) by (simp add: demo_pm_def BufferPool_new_def)
  have "bp_view ?bp = (\<lambda>_. None)" by (rule ext) (use c in \<open>auto simp: bp_view_def pm_valid_def\<close>)
  moreover have "bp_avail ?bp = 2 ^ 31 - 2" using c by (simp add: bp_avail_def)
  moreover have "pool_room ?bp 3" by (simp add: pool_room_def bp_pins_new) (simp add: BufferPool_new_def kDefaultBufferPoolSize_def)
  ultimately show thesis using that [of ?bp] r c by (simp add: open_file_def)
qed

section \<open>Opening and reopening\<close>

text \<open>\<open>db_holds db P T\<close>: the tables hold \<open>T\<close>, and both catalogs are where the constructor looks for them.\<close>

definition db_holds :: "Database \<Rightarrow> (string \<Rightarrow> page_id_t list) \<Rightarrow> contents \<Rightarrow> bool" where
  "db_holds db P T \<longleftrightarrow> tables_hold db P T \<and> pool.ready (db_index_pool db) \<and> pool_room (db_index_pool db) 3 \<and>
     hf_first_page_id (cat_heap (tb_catalog db)) = kFirstDataPageId \<and>
     hf_first_page_id (cat_index_heap (tb_catalog db)) = kFirstDataPageId + 1"

lemma tables_in_closed: "tables_in v M R P T \<Longrightarrow> tables_in v M (map_of []) P T"
  by (simp add: tables_in_def)

lemma new_database:
  obtains db P where "Database_new (ReadWrite, None, []) (ReadWrite, None, []) (ReadWrite, None, []) = Some db" "db_holds db P Map.empty"
    "cat_indexes (tb_catalog db) = []" "bp_avail (tb_data_pool db) = 2 ^ 31 - 2" "bp_avail (tb_catalog_pool db) = 2 ^ 31 - 4"
    "bp_avail (db_index_pool db) = 2 ^ 31 - 2"
proof -
  obtain bp where bp: "open_file (ReadWrite, None, []) = bp" "pool.ready bp" "bp_avail bp = 2 ^ 31 - 2" "pool_room bp 3"
    "pm_page_count (bp_page_manager bp) = 1" "bp_view bp = (\<lambda>_. None)" by (rule new_pool)
  have "2 \<le> bp_avail bp" using bp(3) by simp
  from catalog_new [OF bp(2) this] obtain cm bp' a b where c: "CatalogManager_new kInvalidPageId kInvalidPageId bp = Some (cm, bp')" "cat_inv cm bp' [a] [b]"
    "cat_tables cm = []" "cat_indexes cm = []" "bp_view bp a = None" "pool_to bp (bp_view bp') (bp_avail bp - 2) bp'"
    "\<exists>bp1. pool_to bp (bp_view bp1) (bp_avail bp - 1) bp1 \<and> bp_view bp1 a \<noteq> None \<and> bp_view bp1 b = None" by metis
  then obtain bp1 where b1: "pool_to bp (bp_view bp1) (bp_avail bp - 1) bp1" "bp_view bp1 a \<noteq> None" "bp_view bp1 b = None" by blast
  note i = cat_invD [OF c(2)] and v1 = pool_toD [OF b1(1)] and v2 = pool_toD [OF c(6)]
  have f: "hf_first_page_id (cat_heap cm) = a" "hf_first_page_id (cat_index_heap cm) = b" using i(2,3) by (simp_all add: heap_wf_def)
  have "unat a = 1" using next_page [OF bp(2) v1(1) _ v1(3) c(5) b1(2)] bp(3,5) by simp
  moreover have "unat b = 2"
  proof -
    have "bp_view bp' b \<noteq> None" using heap_mapped [OF i(3), of b] by simp
    moreover have "pm_page_count (bp_page_manager bp1) = 2" using page_count_avail(1) [OF v1(1)] v1(3) bp(3) by simp
    ultimately show ?thesis using next_page [OF v1(1) v2(1) _ _ b1(3)] v1(3) v2(3) bp(3) by simp
  qed
  ultimately have ab: "a = kFirstDataPageId" "b = kFirstDataPageId + 1" by (simp_all add: kFirstDataPageId_def word_unat_eq_iff)
  let ?db = "\<lparr>tb_data_pool = bp, tb_catalog_pool = bp', tb_catalog = cm, tb_open_tables = [], db_index_pool = bp\<rparr>"
  have "Database_new (ReadWrite, None, []) (ReadWrite, None, []) (ReadWrite, None, []) = Some ?db"
    using bp(1,5) c(1) by (simp add: Database_new_def DetectExistingTableCatalogFirstPage_def DetectExistingIndexCatalogFirstPage_def PageManager_PageCount_def)
  moreover have "tables_in v (map_of []) (map_of []) (\<lambda>_. []) Map.empty" for v by (simp add: tables_in_def)
  then have "db_holds ?db (\<lambda>_. []) Map.empty" using bp(2,4) c(2,3) f ab by (auto simp: db_holds_def tables_hold_def)
  ultimately show thesis using that [of ?db "\<lambda>_. []"] c(4) bp(3) v2(3) by simp
qed

lemma reopen_database:
  assumes h: "db_holds db P T" and cl: "Database_close (Database_FlushAll db) = (c, d, i)"
  obtains db' where "Database_new (ReadWrite, Some c, []) (ReadWrite, Some d, []) (ReadWrite, Some i, []) = Some db'" "db_holds db' P T"
    "map_of (cat_indexes (tb_catalog db')) = map_of (cat_indexes (tb_catalog db))"
    "bp_view (tb_data_pool db') = bp_view (tb_data_pool db)" "bp_avail (tb_data_pool db') = bp_avail (tb_data_pool db)"
    "bp_view (db_index_pool db') = bp_view (db_index_pool db)" "bp_avail (db_index_pool db') = bp_avail (db_index_pool db)"
    "bp_avail (tb_catalog_pool db') = bp_avail (tb_catalog_pool db)" "distinct (map fst (cat_indexes (tb_catalog db')))"
proof -
  obtain ps qs where t: "cat_inv (tb_catalog db) (tb_catalog_pool db) ps qs" "pool.ready (tb_data_pool db)"
    "tables_in (bp_view (tb_data_pool db)) (tb_metadata db) (map_of (tb_open_tables db)) P T"
    using h by (auto simp: db_holds_def elim: tables_holdD)
  have hx: "pool.ready (db_index_pool db)" "hf_first_page_id (cat_heap (tb_catalog db)) = kFirstDataPageId"
    "hf_first_page_id (cat_index_heap (tb_catalog db)) = kFirstDataPageId + 1" using h by (simp_all add: db_holds_def)
  have files: "c = PageManager_close (bp_page_manager (snd (BufferPool_FlushAll (tb_catalog_pool db))))"
    "d = PageManager_close (bp_page_manager (snd (BufferPool_FlushAll (tb_data_pool db))))"
    "i = PageManager_close (bp_page_manager (snd (BufferPool_FlushAll (db_index_pool db))))"
    using cl by (simp_all add: Database_close_def Database_FlushAll_def)
  obtain cbp where cb: "open_file (ReadWrite, Some c, []) = cbp" "pool.ready cbp" "bp_view cbp = bp_view (tb_catalog_pool db)" "bp_avail cbp = bp_avail (tb_catalog_pool db)"
    using reopen_pool [OF cat_invD(1) [OF t(1)]] unfolding files by blast
  obtain dbp where dp: "open_file (ReadWrite, Some d, []) = dbp" "pool.ready dbp" "bp_view dbp = bp_view (tb_data_pool db)" "bp_avail dbp = bp_avail (tb_data_pool db)"
    using reopen_pool [OF t(2)] unfolding files by blast
  obtain ibp where ip: "open_file (ReadWrite, Some i, []) = ibp" "pool.ready ibp" "bp_view ibp = bp_view (db_index_pool db)"
    "bp_avail ibp = bp_avail (db_index_pool db)" "pool_room ibp 3"
    using reopen_pool [OF hx(1)] unfolding files by blast
  obtain cm bp' where cm: "CatalogManager_new (CatalogManager_CatalogFirstPageId (tb_catalog db)) (CatalogManager_IndexCatalogFirstPageId (tb_catalog db)) cbp = Some (cm, bp')"
    "map_of (cat_tables cm) = tb_metadata db" "map_of (cat_indexes cm) = map_of (cat_indexes (tb_catalog db))" "cat_inv cm bp' ps qs"
    "pool_to cbp (bp_view cbp) (bp_avail cbp) bp'" "hf_first_page_id (cat_heap cm) = hf_first_page_id (cat_heap (tb_catalog db))"
    "hf_first_page_id (cat_index_heap cm) = hf_first_page_id (cat_index_heap (tb_catalog db))" "distinct (map fst (cat_indexes cm))"
    by (rule catalog_reopen [OF t(1) cb(2,3)])
  have "bp_view cbp (kFirstDataPageId + 1) \<noteq> None"
    using heap_mapped [OF cat_invD(3) [OF t(1)], of "kFirstDataPageId + 1"] hx(3) cat_invD(3) [OF t(1)] cb(3)
    by (cases qs) (auto simp: heap_wf_def)
  then have cnt: "2 < pm_page_count (bp_page_manager cbp)" unfolding mapped_iff by (simp add: kFirstDataPageId_def)
  let ?db = "\<lparr>tb_data_pool = dbp, tb_catalog_pool = bp', tb_catalog = cm, tb_open_tables = [], db_index_pool = ibp\<rparr>"
  have new: "Database_new (ReadWrite, Some c, []) (ReadWrite, Some d, []) (ReadWrite, Some i, []) = Some ?db"
    using cb(1) dp(1) ip(1) cm(1) cnt hx(2,3)
    by (simp add: Database_new_def DetectExistingTableCatalogFirstPage_def DetectExistingIndexCatalogFirstPage_def PageManager_PageCount_def
        CatalogManager_CatalogFirstPageId_def CatalogManager_IndexCatalogFirstPageId_def HeapFile_FirstPageId_def)
  have "tables_in (bp_view dbp) (map_of (cat_tables cm)) (map_of []) P T" using tables_in_closed [OF t(3)] dp(3) cm(2) by simp
  then have "db_holds ?db P T" using cm(4,6,7) dp(2) ip(2,5) hx by (auto simp: db_holds_def tables_hold_def)
  with that [OF new] cm(3,8) dp ip pool_toD(3) [OF cm(5)] cb(4) show thesis by simp
qed

end
