(* ===== verification/Expr_Eval.thy ===== *)
theory Expr_Eval
  imports Ast "HOL-Library.List_Lexorder" "HOL-Library.Char_ord"
begin

text \<open>
  Evaluation of expressions on a row (\<open>src/executor/expr_eval.cpp\<close>) and the comparison that sorting
  and aggregation use (\<open>src/executor/value_compare.hpp\<close>). Numbers are compared as doubles; strings
  byte by byte. Reading outside of a row is undefined behaviour in the code and an unspecified
  value here; the theorems are about rows with a value for every column.
\<close>

definition ToDouble :: "Value \<Rightarrow> double option" where
  "ToDouble v = (case v of
       VInt i \<Rightarrow> Some (d_of_int (sint i))
     | VBigInt i \<Rightarrow> Some (d_of_int (sint i))
     | VDouble d \<Rightarrow> Some d
     | _ \<Rightarrow> None)"

definition ValuesEqual :: "Value \<Rightarrow> Value \<Rightarrow> bool Result" where
  "ValuesEqual a b =
     (if IsNull a \<or> IsNull b then Inr False
      else case (ToDouble a, ToDouble b) of
          (Some da, Some db) \<Rightarrow> Inr (d_eq da db)
        | _ \<Rightarrow>
            (case (a, b) of
               (VVarchar s, VVarchar t) \<Rightarrow> Inr (s = t)
             | (VBool s, VBool t) \<Rightarrow> Inr (s = t)
             | _ \<Rightarrow> Inl (Status_InvalidArgument ''cannot compare values of incompatible types'')))"

definition CompareOrdered :: "Value \<Rightarrow> Value \<Rightarrow> int Result" where
  "CompareOrdered a b =
     (case (ToDouble a, ToDouble b) of
        (Some da, Some db) \<Rightarrow> Inr (if d_less da db then -1 else if d_less db da then 1 else 0)
      | _ \<Rightarrow>
          (case (a, b) of
             (VVarchar sa, VVarchar sb) \<Rightarrow> Inr (if sa < sb then -1 else if sb < sa then 1 else 0)
           | (VBool ba, VBool bb) \<Rightarrow> Inr (if ba = bb then 0 else if ba then 1 else -1)
           | _ \<Rightarrow> Inl (Status_InvalidArgument ''cannot order-compare values of incompatible types'')))"

definition compare_result :: "BinaryOp \<Rightarrow> int \<Rightarrow> Value Result" where
  "compare_result op c = (case op of
       BinaryOp.kLt \<Rightarrow> Inr (VBool (c < 0))
     | BinaryOp.kLte \<Rightarrow> Inr (VBool (c \<le> 0))
     | BinaryOp.kGt \<Rightarrow> Inr (VBool (c > 0))
     | BinaryOp.kGte \<Rightarrow> Inr (VBool (c \<ge> 0))
     | _ \<Rightarrow> Inl (Status_InvalidArgument ''unsupported comparison operator''))"

fun Evaluate :: "Expr \<Rightarrow> Schema \<Rightarrow> Value list \<Rightarrow> Value Result" where
  "Evaluate (ColumnRefExpr column) schema row =
     (case Schema_IndexOf schema column of
        None \<Rightarrow> Inl (Status_InvalidArgument (''unknown column '' @ [CHR 0x27] @ column @ [CHR 0x27] @ '' in expression''))
      | Some idx \<Rightarrow> Inr (row ! idx))"
| "Evaluate (LiteralExpr v) schema row = Inr v"
| "Evaluate (BinaryExpr l op r) schema row =
     (if op = BinaryOp.kAnd \<or> op = BinaryOp.kOr
      then bind_result (Evaluate l schema row) (\<lambda>left.
           case left of
             VBool lb \<Rightarrow>
               if op = BinaryOp.kOr \<and> lb then Inr (VBool True)
               else if op = BinaryOp.kAnd \<and> \<not> lb then Inr (VBool False)
               else bind_result (Evaluate r schema row) (\<lambda>right.
                    case right of
                      VBool rb \<Rightarrow> Inr (VBool (if op = BinaryOp.kAnd then lb \<and> rb else lb \<or> rb))
                    | _ \<Rightarrow> Inl (Status_InvalidArgument ''right side of AND/OR did not evaluate to a boolean''))
           | _ \<Rightarrow> Inl (Status_InvalidArgument ''left side of AND/OR did not evaluate to a boolean''))
      else bind_result (Evaluate l schema row) (\<lambda>left.
           bind_result (Evaluate r schema row) (\<lambda>right.
           if op = BinaryOp.kEq \<or> op = BinaryOp.kNeq
           then bind_result (ValuesEqual left right) (\<lambda>eq. Inr (VBool (if op = BinaryOp.kEq then eq else \<not> eq)))
           else if IsNull left \<or> IsNull right then Inr (VBool False)
           else bind_result (CompareOrdered left right) (\<lambda>c. compare_result op c))))"

definition EvaluatePredicate :: "Expr option \<Rightarrow> Schema \<Rightarrow> Value list \<Rightarrow> bool Result" where
  "EvaluatePredicate expr schema row =
     (case expr of
        None \<Rightarrow> Inr True
      | Some e \<Rightarrow>
          bind_result (Evaluate e schema row) (\<lambda>v.
          case v of
            VBool b \<Rightarrow> Inr b
          | _ \<Rightarrow> Inl (Status_InvalidArgument ''WHERE clause did not evaluate to a boolean'')))"

text \<open>The comparison of \<open>value_compare.hpp\<close>, which has no errors.\<close>

definition ValueToDoubleOrNull :: "Value \<Rightarrow> double option" where
  "ValueToDoubleOrNull v = (case v of
       VInt i \<Rightarrow> Some (d_of_int (sint i))
     | VBigInt i \<Rightarrow> Some (d_of_int (sint i))
     | VDouble d \<Rightarrow> Some d
     | _ \<Rightarrow> None)"

definition CompareForSort :: "Value \<Rightarrow> Value \<Rightarrow> int" where
  "CompareForSort a b =
     (case (ValueToDoubleOrNull a, ValueToDoubleOrNull b) of
        (Some da, Some db) \<Rightarrow> if d_less da db then -1 else if d_less db da then 1 else 0
      | _ \<Rightarrow>
          (case (a, b) of
             (VVarchar sa, VVarchar sb) \<Rightarrow> if sa < sb then -1 else if sb < sa then 1 else 0
           | (VBool ba, VBool bb) \<Rightarrow> if ba = bb then 0 else if ba then 1 else -1
           | _ \<Rightarrow> 0))"

section \<open>Types of expressions\<close>

text \<open>
  A value is null or of one of three kinds; only values of the same kind are comparable. An
  expression that has a type evaluates without an error on every row of the schema.
\<close>

datatype Kind = KNull | KNumber | KString | KBool

definition kind_of :: "Value \<Rightarrow> Kind" where
  "kind_of v = (case v of VNull \<Rightarrow> KNull | VBool _ \<Rightarrow> KBool | VVarchar _ \<Rightarrow> KString | _ \<Rightarrow> KNumber)"

definition column_kind :: "ColumnType \<Rightarrow> Kind" where
  "column_kind t = (case t of ColumnType.kBool \<Rightarrow> KBool | ColumnType.kVarchar \<Rightarrow> KString | _ \<Rightarrow> KNumber)"

text \<open>The type of an expression: the kind of its non-null values, and whether it can be null.\<close>

fun expr_type :: "Schema \<Rightarrow> Expr \<Rightarrow> (Kind \<times> bool) option" where
  "expr_type schema (ColumnRefExpr column) =
     map_option (\<lambda>i. (column_kind (col_type (schema ! i)), col_nullable (schema ! i))) (Schema_IndexOf schema column)"
| "expr_type schema (LiteralExpr v) = Some (kind_of v, IsNull v)"
| "expr_type schema (BinaryExpr l op r) =
     (case (expr_type schema l, expr_type schema r) of
        (Some (k, n), Some (k', n')) \<Rightarrow>
          if op = BinaryOp.kAnd \<or> op = BinaryOp.kOr
          then (if k = KBool \<and> k' = KBool \<and> \<not> n \<and> \<not> n' then Some (KBool, False) else None)
          else if k = k' \<or> k = KNull \<or> k' = KNull then Some (KBool, False) else None
      | _ \<Rightarrow> None)"

definition row_ok :: "Schema \<Rightarrow> Value list \<Rightarrow> bool" where
  "row_ok schema row \<longleftrightarrow> length row = length schema \<and>
     (\<forall>i < length schema. ValueMatchesType (row ! i) (col_type (schema ! i)) \<and>
        (IsNull (row ! i) \<longrightarrow> col_nullable (schema ! i)))"

definition has_type :: "Value \<Rightarrow> Kind \<times> bool \<Rightarrow> bool" where
  "has_type v t \<longleftrightarrow> kind_of v = fst t \<or> IsNull v \<and> snd t"

lemma has_type_KBool: "has_type v (KBool, False) \<longleftrightarrow> (\<exists>b. v = VBool b)"
  by (cases v) (simp_all add: has_type_def kind_of_def)

lemma compare_typed:
  assumes "has_type v (k, n)" and "has_type w (k', n')" and "k = k' \<or> k = KNull \<or> k' = KNull"
  shows "\<exists>b. ValuesEqual v w = Inr b" and "\<not> IsNull v \<Longrightarrow> \<not> IsNull w \<Longrightarrow> \<exists>c. CompareOrdered v w = Inr c"
  using assms
  by (cases v; cases w; auto simp: has_type_def kind_of_def ValuesEqual_def CompareOrdered_def ToDouble_def)+

lemma Evaluate_typed:
  assumes "row_ok schema row"
  shows "expr_type schema e = Some t \<Longrightarrow> \<exists>v. Evaluate e schema row = Inr v \<and> has_type v t"
proof (induction e arbitrary: t)
  case (ColumnRefExpr column)
  then obtain i where i: "Schema_IndexOf schema column = Some i" "t = (column_kind (col_type (schema ! i)), col_nullable (schema ! i))"
    by auto
  then have "i < length schema" by (simp add: IndexOf_Some_iff)
  with assms have "ValueMatchesType (row ! i) (col_type (schema ! i))" "IsNull (row ! i) \<longrightarrow> col_nullable (schema ! i)"
    by (auto simp: row_ok_def)
  with i show ?case
    by (auto simp: has_type_def ValueMatchesType_cases kind_of_def column_kind_def split: ColumnType.splits)
next
  case (LiteralExpr v)
  then show ?case by (auto simp: has_type_def)
next
  case (BinaryExpr l op r)
  from BinaryExpr.prems obtain k n k' n' where ts: "expr_type schema l = Some (k, n)" "expr_type schema r = Some (k', n')"
    by (auto split: option.splits)
  obtain v w where v: "Evaluate l schema row = Inr v" "has_type v (k, n)" "Evaluate r schema row = Inr w" "has_type w (k', n')"
    using BinaryExpr.IH(1) [OF ts(1)] BinaryExpr.IH(2) [OF ts(2)] by blast
  show ?case
  proof (cases "op = BinaryOp.kAnd \<or> op = BinaryOp.kOr")
    case True
    with BinaryExpr.prems ts v obtain b b' where "v = VBool b" "w = VBool b'" "t = (KBool, False)"
      by (auto simp: has_type_KBool split: if_splits)
    with True v show ?thesis by (auto simp: has_type_KBool)
  next
    case False
    with BinaryExpr.prems ts have k: "k = k' \<or> k = KNull \<or> k' = KNull" "t = (KBool, False)"
      by (auto split: if_splits)
    obtain b where b: "ValuesEqual v w = Inr b" using compare_typed(1) [OF v(2,4) k(1)] by blast
    show ?thesis
    proof (cases "op = BinaryOp.kEq \<or> op = BinaryOp.kNeq \<or> IsNull v \<or> IsNull w")
      case True
      with False v b k(2) show ?thesis by (auto simp: has_type_KBool)
    next
      case cmp: False
      then obtain c where "CompareOrdered v w = Inr c" using compare_typed(2) [OF v(2,4) k(1)] by blast
      with False cmp v k(2) show ?thesis by (cases op) (auto simp: has_type_KBool compare_result_def)
    qed
  qed
qed

section \<open>Conjunctions\<close>

text \<open>A conjunction without an error is true exactly if both sides are.\<close>

lemma Evaluate_and_true:
  "Evaluate (BinaryExpr l BinaryOp.kAnd r) schema row = Inr (VBool True) \<longleftrightarrow>
     Evaluate l schema row = Inr (VBool True) \<and> Evaluate r schema row = Inr (VBool True)"
  by (auto simp: bind_result_def split: sum.splits Value.splits if_splits)

section \<open>Comparison of integers\<close>

lemma CompareOrdered_integers:
  assumes "ToDouble a = Some (d_of_int i)" and "ToDouble b = Some (d_of_int j)"
    and "\<bar>i\<bar> < 2 ^ 53" and "\<bar>j\<bar> < 2 ^ 53"
  shows "CompareOrdered a b = Inr (sgn (i - j))" and "ValuesEqual a b = Inr (i = j)"
proof -
  have "\<not> IsNull a" "\<not> IsNull b" using assms(1,2) by (auto simp: IsNull_def ToDouble_def)
  then show "CompareOrdered a b = Inr (sgn (i - j))" "ValuesEqual a b = Inr (i = j)"
    using assms by (auto simp: CompareOrdered_def ValuesEqual_def d_of_int_order)
qed

lemma compare_never_inverted:
  assumes "ToDouble a = Some (d_of_int i)" and "ToDouble b = Some (d_of_int j)" and "i \<le> j"
  shows "\<exists>c. CompareOrdered a b = Inr c \<and> c \<le> 0"
  using assms d_of_int_mono [OF assms(3)] by (auto simp: CompareOrdered_def d_less_def)

text \<open>Two integers that the conversion to double maps to the same value.\<close>

lemma round_even_tie: "even q \<Longrightarrow> 0 < d \<Longrightarrow> round_even (q * (2 * d) + d) (2 * d) = q"
  by (simp add: round_even_def Let_def)

lemma d_of_int_collapse: "d_of_int (2 ^ 53 + 1) = d_of_int (2 ^ 53)"
proof -
  define D :: nat where "D = 2 ^ 1074"
  have D: "0 < D" by (simp add: D_def)
  have e: "round_exponent n = 1075" if "2 ^ 53 * D \<le> n" "n < 2 ^ 54 * D" for n
  proof -
    have "floorlog 2 n \<le> 1128" using that(2) by (intro floorlog_leI) (simp_all add: D_def)
    moreover have "1128 \<le> floorlog 2 n" using that(1) by (intro floorlog_geI) (simp_all add: D_def)
    ultimately show ?thesis by (simp add: round_exponent_def)
  qed
  have p: "(2::nat) ^ 1075 = 2 * D" by (simp add: D_def)
  have "round_even (2 ^ 53 * D) (2 * D) = 2 ^ 52"
    using round_even_exact [of "2 * D" "2 ^ 52"] D by (simp add: ac_simps)
  moreover have "round_even ((2 ^ 53 + 1) * D) (2 * D) = 2 ^ 52"
    using round_even_tie [of "2 ^ 52" D] D by (simp add: algebra_simps)
  moreover have "round_exponent ((2 ^ 53 + 1) * D) = 1075" "round_exponent (2 ^ 53 * D) = 1075"
    using D by (intro e; simp)+
  ultimately have "round_magnitude ((2 ^ 53 + 1) * D) 1 = round_magnitude (2 ^ 53 * D) 1"
    unfolding round_magnitude_def Let_def div_by_1 mult_1 by (simp only: p)
  moreover have "nat \<bar>(2 ^ 53 + 1) * 2 ^ 1074 :: int\<bar> = (2 ^ 53 + 1) * D" "nat \<bar>2 ^ 53 * 2 ^ 1074 :: int\<bar> = 2 ^ 53 * D"
    unfolding D_def by (simp_all add: nat_mult_distrib nat_add_distrib nat_power_eq)
  ultimately show ?thesis by (simp add: d_of_int_def d_of_ratio_def)
qed

section \<open>The order of sorting\<close>

text \<open>
  On values of one kind without NaN the comparison is a weak order: it compares the images of the
  values under \<open>sort_key\<close> in a linear order.
\<close>

definition sortable :: "Kind \<Rightarrow> Value \<Rightarrow> bool" where
  "sortable k v \<longleftrightarrow> kind_of v = k \<and> k \<noteq> KNull \<and> (\<forall>d. v = VDouble d \<longrightarrow> \<not> d_nan d)"

definition sort_key :: "Value \<Rightarrow> int \<times> string" where
  "sort_key v = (case v of
       VNull \<Rightarrow> (0, [])
     | VInt i \<Rightarrow> (d_scaled (d_of_int (sint i)), [])
     | VBigInt i \<Rightarrow> (d_scaled (d_of_int (sint i)), [])
     | VDouble d \<Rightarrow> (d_scaled d, [])
     | VBool b \<Rightarrow> (if b then 1 else 0, [])
     | VVarchar t \<Rightarrow> (0, t))"

definition key_less :: "int \<times> string \<Rightarrow> int \<times> string \<Rightarrow> bool" where
  "key_less a b \<longleftrightarrow> fst a < fst b \<or> fst a = fst b \<and> snd a < snd b"

lemma key_less_order:
  "\<not> key_less a a" "key_less a b \<Longrightarrow> key_less b c \<Longrightarrow> key_less a c"
  "\<not> key_less a b \<Longrightarrow> \<not> key_less b c \<Longrightarrow> \<not> key_less a c"
  by (auto simp: key_less_def)

lemma CompareForSort_key:
  assumes "sortable k a" and "sortable k b"
  shows "CompareForSort a b < 0 \<longleftrightarrow> key_less (sort_key a) (sort_key b)"
    and "CompareForSort a b > 0 \<longleftrightarrow> key_less (sort_key b) (sort_key a)"
  using assms
  by (cases a; cases b; auto simp: sortable_def kind_of_def CompareForSort_def ValueToDoubleOrNull_def sort_key_def
      key_less_def d_less_def)+

section \<open>Properties\<close>

text \<open>
  C36. Typed predicates are safe: on a row of the schema, a WHERE clause that type-checks evaluates to
  a truth value, whatever its nesting; none of the error branches of the evaluator is reached.
\<close>

theorem typed_predicate_safe:
  assumes "row_ok schema row" and "expr_type schema e = Some (KBool, False)"
  shows "\<exists>b. EvaluatePredicate (Some e) schema row = Inr b"
  using Evaluate_typed [OF assms] by (auto simp: EvaluatePredicate_def has_type_KBool)

definition demo_columns :: Schema where
  "demo_columns =
     [\<lparr>col_name = ''id'', col_type = ColumnType.kInt, col_nullable = False, col_max_length = 255\<rparr>,
      \<lparr>col_name = ''name'', col_type = ColumnType.kVarchar, col_nullable = True, col_max_length = 255\<rparr>]"

definition demo_where :: Expr where
  "demo_where = BinaryExpr
     (BinaryExpr (ColumnRefExpr ''id'') BinaryOp.kGte (LiteralExpr (VBigInt 2))) BinaryOp.kAnd
     (BinaryExpr (ColumnRefExpr ''name'') BinaryOp.kNeq (LiteralExpr (VVarchar ''x'')))"

theorem typed_predicate_safe_witness:
  "row_ok demo_columns [VInt 7, VNull] \<and> expr_type demo_columns demo_where = Some (KBool, False) \<and>
     (\<exists>b. EvaluatePredicate (Some demo_where) demo_columns [VInt 7, VNull] = Inr b)"
proof -
  have "row_ok demo_columns [VInt 7, VNull]"
    by (auto simp: row_ok_def demo_columns_def ValueMatchesType_def less_Suc_eq nth_Cons')
  moreover have "expr_type demo_columns demo_where = Some (KBool, False)"
    by (simp add: demo_where_def demo_columns_def Schema_IndexOf_def column_kind_def kind_of_def)
  ultimately show ?thesis using typed_predicate_safe by blast
qed

text \<open>
  C37. Comparing integers as doubles: integers below \<open>2^53\<close> in absolute value, so all of INT, compare
  exactly; larger ones are never ordered the wrong way, but the distinct BIGINT values \<open>2^53\<close> and
  \<open>2^53 + 1\<close> are equal for the evaluator.
\<close>

theorem integer_comparison:
  "(\<bar>sint i\<bar> < 2 ^ 53 \<and> \<bar>sint j\<bar> < 2 ^ 53 \<longrightarrow>
      CompareOrdered (VBigInt i) (VBigInt j) = Inr (sgn (sint i - sint j)) \<and>
      ValuesEqual (VBigInt i) (VBigInt j) = Inr (i = j)) \<and>
   CompareOrdered (VInt a) (VInt b) = Inr (sgn (sint a - sint b)) \<and>
   (sint i \<le> sint j \<longrightarrow> (\<exists>c. CompareOrdered (VBigInt i) (VBigInt j) = Inr c \<and> c \<le> 0)) \<and>
   ValuesEqual (VBigInt (2 ^ 53)) (VBigInt (2 ^ 53 + 1)) = Inr True"
proof (intro conjI impI; (elim conjE)?)
  show "CompareOrdered (VBigInt i) (VBigInt j) = Inr (sgn (sint i - sint j))"
    "ValuesEqual (VBigInt i) (VBigInt j) = Inr (i = j)" if "\<bar>sint i\<bar> < 2 ^ 53" "\<bar>sint j\<bar> < 2 ^ 53"
    using CompareOrdered_integers [of "VBigInt i" "sint i" "VBigInt j" "sint j"] that
    by (auto simp: ToDouble_def intro: signed_word_eqI)
  have "\<bar>sint w\<bar> < 2 ^ 53" for w :: "32 word"
    using sint_less [of w] sint_ge [of w] by simp
  then show "CompareOrdered (VInt a) (VInt b) = Inr (sgn (sint a - sint b))"
    using CompareOrdered_integers(1) [of "VInt a" "sint a" "VInt b" "sint b"] by (simp add: ToDouble_def)
  show "\<exists>c. CompareOrdered (VBigInt i) (VBigInt j) = Inr c \<and> c \<le> 0" if "sint i \<le> sint j"
    using compare_never_inverted [of "VBigInt i" "sint i" "VBigInt j" "sint j"] that by (simp add: ToDouble_def)
  show "ValuesEqual (VBigInt (2 ^ 53)) (VBigInt (2 ^ 53 + 1)) = Inr True"
    using d_of_int_collapse by (simp add: ValuesEqual_def ToDouble_def d_eq_def)
qed

theorem integer_comparison_witness:
  "CompareOrdered (VBigInt 5) (VBigInt 7) = Inr (- 1) \<and> ValuesEqual (VBigInt 5) (VBigInt 7) = Inr False \<and>
   (\<exists>c. CompareOrdered (VBigInt 5) (VBigInt 7) = Inr c \<and> c \<le> 0)"
  using integer_comparison [of 5 7] by simp

end
