(* ===== verification/Operators.thy ===== *)
theory Operators
  imports Database Expr_Eval
begin

text \<open>
  The query operators (\<open>src/executor/operator.hpp\<close> and the files of its subclasses). An operator is the tree
  of its children with the state of each object; the virtual calls \<open>Open\<close>, \<open>Next\<close>, \<open>Close\<close> and \<open>GetError\<close> are
  functions on the tree, which return the operator and the database afterwards. The result \<open>None\<close>
  stands for a call that does not return normally: a loop that does not end, or the dereference of an
  absent optional. A B+ tree is the id of its meta page. The aggregate operator, which is never the
  child of another operator, has a type of its own.
\<close>

record Tuple =
  tu_rid :: RecordId
  tu_values :: "Value list"

datatype Operator =
    SeqScanOperator string "Tuple list" nat
  | IndexScanOperator string page_id_t "Key option" bool "Key option" bool bool "RecordId list" nat Status
  | FilterOperator Operator "Expr option" Schema Status
  | ProjectOperator Operator "SelectItem list" Schema "nat list" "string list" Status
  | SortOperator Operator OrderByClause Schema "Tuple list" nat Status Status
  | LimitOperator Operator "64 word" "64 word"

type_synonym 'o pulled = "(Tuple option \<times> 'o \<times> Database) option"

section \<open>Constructors\<close>

definition SeqScanOperator_new :: "string \<Rightarrow> Operator" where
  "SeqScanOperator_new table_name = SeqScanOperator table_name [] 0"

definition IndexScanOperator_equal :: "string \<Rightarrow> page_id_t \<Rightarrow> Key \<Rightarrow> Operator" where
  "IndexScanOperator_equal table_name tree equal_key =
     IndexScanOperator table_name tree (Some equal_key) True (Some equal_key) True True [] 0 Status_OK"

definition IndexScanOperator_range :: "string \<Rightarrow> page_id_t \<Rightarrow> Key option \<Rightarrow> bool \<Rightarrow> Key option \<Rightarrow> bool \<Rightarrow> Operator" where
  "IndexScanOperator_range table_name tree low low_inclusive high high_inclusive =
     IndexScanOperator table_name tree low low_inclusive high high_inclusive False [] 0 Status_OK"

definition FilterOperator_new :: "Operator \<Rightarrow> Expr option \<Rightarrow> Schema \<Rightarrow> Operator" where
  "FilterOperator_new child predicate schema = FilterOperator child predicate schema Status_OK"

text \<open>The loop of \<open>BuildColumnPlan\<close> over the items stops at an unknown column; \<open>None\<close> if an item has no column.\<close>

fun column_plan :: "Schema \<Rightarrow> SelectItem list \<Rightarrow> nat list \<Rightarrow> string list \<Rightarrow> (nat list \<times> string list \<times> Status) option" where
  "column_plan schema [] indices names = Some (indices, names, Status_OK)"
| "column_plan schema (item # items) indices names =
     (case si_column item of
        None \<Rightarrow> None
      | Some column \<Rightarrow>
          (case Schema_IndexOf schema column of
             None \<Rightarrow> Some (indices, names,
                Status_InvalidArgument (''unknown column '' @ [CHR 0x27] @ column @ [CHR 0x27] @ '' in SELECT list''))
           | Some idx \<Rightarrow>
               column_plan schema items (indices @ [idx])
                 (names @ [case si_alias item of Some a \<Rightarrow> a | None \<Rightarrow> column])))"

definition ProjectOperator_BuildColumnPlan :: "SelectItem list \<Rightarrow> Schema \<Rightarrow> (nat list \<times> string list \<times> Status) option" where
  "ProjectOperator_BuildColumnPlan items schema =
     (if length items = 1 \<and> is_star (items ! 0)
      then Some (map (\<lambda>col. the (Schema_IndexOf schema (col_name col))) schema, map col_name schema, Status_OK)
      else column_plan schema items [] [])"

definition ProjectOperator_new :: "Operator \<Rightarrow> SelectItem list \<Rightarrow> Schema \<Rightarrow> Operator option" where
  "ProjectOperator_new child items schema =
     map_option (\<lambda>(indices, column_names, error). ProjectOperator child items schema indices column_names error)
       (ProjectOperator_BuildColumnPlan items schema)"

definition SortOperator_new :: "Operator \<Rightarrow> OrderByClause \<Rightarrow> Schema \<Rightarrow> Operator" where
  "SortOperator_new child order_by schema = SortOperator child order_by schema [] 0 Status_OK Status_OK"

definition LimitOperator_new :: "Operator \<Rightarrow> 64 word \<Rightarrow> Operator" where
  "LimitOperator_new child limit = LimitOperator child limit 0"

section \<open>Next\<close>

definition SeqScanOperator_Next :: "string \<Rightarrow> Tuple list \<Rightarrow> nat \<Rightarrow> Database \<Rightarrow> Operator pulled" where
  "SeqScanOperator_Next table buffered cursor db =
     (if cursor \<ge> length buffered then Some (None, SeqScanOperator table buffered cursor, db)
      else Some (Some (buffered ! cursor), SeqScanOperator table buffered (cursor + 1), db))"

text \<open>Candidates whose row cannot be read are skipped.\<close>

function index_scan_next ::
  "string \<Rightarrow> RecordId list \<Rightarrow> nat \<Rightarrow> Database \<Rightarrow> (Tuple option \<times> nat \<times> Database) option" where
  "index_scan_next table candidates cursor db =
     (if cursor < length candidates
      then let rid = candidates ! cursor
           in case TableManager_GetRow table rid db of
                None \<Rightarrow> None
              | Some (Inr row, db') \<Rightarrow> Some (Some \<lparr>tu_rid = rid, tu_values = row\<rparr>, cursor + 1, db')
              | Some (Inl _, db') \<Rightarrow> index_scan_next table candidates (cursor + 1) db'
      else Some (None, cursor, db))"
  by pat_completeness auto
termination
  by (relation "measure (\<lambda>(_, candidates, cursor, _). length candidates - cursor)") auto

declare index_scan_next.simps [simp del]

definition IndexScanOperator_Next ::
  "string \<Rightarrow> page_id_t \<Rightarrow> Key option \<Rightarrow> bool \<Rightarrow> Key option \<Rightarrow> bool \<Rightarrow> bool \<Rightarrow> RecordId list \<Rightarrow> nat \<Rightarrow> Status \<Rightarrow> Database \<Rightarrow> Operator pulled" where
  "IndexScanOperator_Next table tree low li high hi equal_only candidates cursor error db =
     map_option (\<lambda>(tuple, cursor', db'). (tuple, IndexScanOperator table tree low li high hi equal_only candidates cursor' error, db'))
       (index_scan_next table candidates cursor db)"

text \<open>
  \<open>Next\<close> of an operator with a child takes the virtual \<open>Next\<close> as an argument. The loop of a filter
  goes on with the filter on the child as the last call left it.
\<close>

definition FilterOperator_Next ::
  "(Operator \<Rightarrow> Database \<Rightarrow> Operator pulled) \<Rightarrow> Operator \<Rightarrow> Expr option \<Rightarrow> Schema \<Rightarrow> Status \<Rightarrow> Database \<Rightarrow> Operator pulled" where
  "FilterOperator_Next next_op child predicate schema error db =
     Option.bind (next_op child db) (\<lambda>(tuple, child', db').
       case tuple of
         None \<Rightarrow> Some (None, FilterOperator child' predicate schema error, db')
       | Some t \<Rightarrow>
           (case EvaluatePredicate predicate schema (tu_values t) of
              Inl e \<Rightarrow> Some (None, FilterOperator child' predicate schema e, db')
            | Inr matched \<Rightarrow>
                if matched then Some (Some t, FilterOperator child' predicate schema error, db')
                else next_op (FilterOperator child' predicate schema error) db'))"

definition project_values :: "nat list \<Rightarrow> Value list \<Rightarrow> Value list option" where
  "project_values indices values = (if \<exists>idx \<in> set indices. idx \<ge> length values then None else Some (map ((!) values) indices))"

definition ProjectOperator_Next ::
  "(Operator \<Rightarrow> Database \<Rightarrow> Operator pulled) \<Rightarrow> Operator \<Rightarrow> SelectItem list \<Rightarrow> Schema \<Rightarrow> nat list \<Rightarrow> string list \<Rightarrow> Status \<Rightarrow> Database \<Rightarrow> Operator pulled" where
  "ProjectOperator_Next next_op child items schema indices column_names error db =
     Option.bind (next_op child db) (\<lambda>(tuple, child', db').
       case tuple of
         None \<Rightarrow> Some (None, ProjectOperator child' items schema indices column_names error, db')
       | Some t \<Rightarrow>
           (case project_values indices (tu_values t) of
              None \<Rightarrow> Some (None, ProjectOperator child' items schema indices column_names
                        (Status_Corruption ''Project: column index out of range''), db')
            | Some vs \<Rightarrow> Some (Some \<lparr>tu_rid = tu_rid t, tu_values = vs\<rparr>,
                        ProjectOperator child' items schema indices column_names error, db')))"

definition SortOperator_Next ::
  "Operator \<Rightarrow> OrderByClause \<Rightarrow> Schema \<Rightarrow> Tuple list \<Rightarrow> nat \<Rightarrow> Status \<Rightarrow> Status \<Rightarrow> Database \<Rightarrow> Operator pulled" where
  "SortOperator_Next child order_by schema buffered cursor error child_error db =
     (if \<not> Status_ok error \<or> cursor \<ge> length buffered
      then Some (None, SortOperator child order_by schema buffered cursor error child_error, db)
      else Some (Some (buffered ! cursor), SortOperator child order_by schema buffered (cursor + 1) error child_error, db))"

definition LimitOperator_Next ::
  "(Operator \<Rightarrow> Database \<Rightarrow> Operator pulled) \<Rightarrow> Operator \<Rightarrow> 64 word \<Rightarrow> 64 word \<Rightarrow> Database \<Rightarrow> Operator pulled" where
  "LimitOperator_Next next_op child limit returned db =
     (if limit \<le>s returned then Some (None, LimitOperator child limit returned, db)
      else Option.bind (next_op child db) (\<lambda>(tuple, child', db').
        case tuple of
          None \<Rightarrow> Some (None, LimitOperator child' limit returned, db')
        | Some t \<Rightarrow> Some (Some t, LimitOperator child' limit (returned + 1), db')))"

lemma FilterOperator_mono [partial_function_mono]:
  "mono_option (\<lambda>f. FilterOperator_Next (\<lambda>o1 d. f (o1, d)) child predicate schema error db)"
  unfolding FilterOperator_Next_def
proof (intro partial_function_mono)
  fix y :: "Tuple option \<times> Operator \<times> Database"
  obtain t c d where y: "y = (t, c, d)" by (cases y)
  show "mono_option (\<lambda>f. case y of (tuple, child', db') \<Rightarrow>
      (case tuple of None \<Rightarrow> Some (None, FilterOperator child' predicate schema error, db')
       | Some t \<Rightarrow> (case EvaluatePredicate predicate schema (tu_values t) of
            Inl e \<Rightarrow> Some (None, FilterOperator child' predicate schema e, db')
          | Inr matched \<Rightarrow> if matched then Some (Some t, FilterOperator child' predicate schema error, db')
              else f (FilterOperator child' predicate schema error, db'))))"
  proof (cases t)
    case (Some a)
    then show ?thesis unfolding y
      by (cases "EvaluatePredicate predicate schema (tu_values a)") (simp_all add: option.const_mono if_mono call_mono)
  qed (simp add: y option.const_mono)
qed

lemma bind_const_mono: "mono_option (\<lambda>f. Option.bind (f x) g)"
  by (intro partial_function_mono)

lemma ProjectOperator_mono [partial_function_mono]:
  "mono_option (\<lambda>f. ProjectOperator_Next (\<lambda>o1 d. f (o1, d)) child items schema indices column_names error db)"
  unfolding ProjectOperator_Next_def by (rule bind_const_mono)

lemma LimitOperator_mono [partial_function_mono]:
  "mono_option (\<lambda>f. LimitOperator_Next (\<lambda>o1 d. f (o1, d)) child limit returned db)"
  unfolding LimitOperator_Next_def by (cases "limit \<le>s returned") (simp_all add: option.const_mono bind_const_mono)

partial_function (option) Operator_Next :: "Operator \<Rightarrow> Database \<Rightarrow> Operator pulled" where
  [code]: "Operator_Next op db =
     (case op of
        SeqScanOperator table buffered cursor \<Rightarrow> SeqScanOperator_Next table buffered cursor db
      | IndexScanOperator table tree low li high hi equal_only candidates cursor error \<Rightarrow>
          IndexScanOperator_Next table tree low li high hi equal_only candidates cursor error db
      | FilterOperator child predicate schema error \<Rightarrow> FilterOperator_Next Operator_Next child predicate schema error db
      | ProjectOperator child items schema indices column_names error \<Rightarrow>
          ProjectOperator_Next Operator_Next child items schema indices column_names error db
      | SortOperator child order_by schema buffered cursor error child_error \<Rightarrow>
          SortOperator_Next child order_by schema buffered cursor error child_error db
      | LimitOperator child limit returned \<Rightarrow> LimitOperator_Next Operator_Next child limit returned db)"

text \<open>The loop that pulls all tuples from an operator.\<close>

partial_function (option) pull_all ::
  "('o \<Rightarrow> Database \<Rightarrow> 'o pulled) \<Rightarrow> Tuple list \<Rightarrow> 'o \<Rightarrow> Database \<Rightarrow> (Tuple list \<times> 'o \<times> Database) option" where
  [code]: "pull_all next_op acc op db =
     (case next_op op db of
        None \<Rightarrow> None
      | Some (None, op', db') \<Rightarrow> Some (acc, op', db')
      | Some (Some t, op', db') \<Rightarrow> pull_all next_op (acc @ [t]) op' db')"

section \<open>Close and GetError\<close>

fun Operator_Close :: "Operator \<Rightarrow> Operator" where
  "Operator_Close (SeqScanOperator table buffered cursor) = SeqScanOperator table [] cursor"
| "Operator_Close (IndexScanOperator table tree low li high hi equal_only candidates cursor error) =
     IndexScanOperator table tree low li high hi equal_only [] cursor error"
| "Operator_Close (FilterOperator child predicate schema error) = FilterOperator (Operator_Close child) predicate schema error"
| "Operator_Close (ProjectOperator child items schema indices column_names error) =
     ProjectOperator (Operator_Close child) items schema indices column_names error"
| "Operator_Close (SortOperator child order_by schema buffered cursor error child_error) =
     SortOperator child order_by schema [] cursor error child_error"
| "Operator_Close (LimitOperator child limit returned) = LimitOperator (Operator_Close child) limit returned"

fun Operator_GetError :: "Operator \<Rightarrow> Status" where
  "Operator_GetError (SeqScanOperator table buffered cursor) = Status_OK"
| "Operator_GetError (IndexScanOperator table tree low li high hi equal_only candidates cursor error) = error"
| "Operator_GetError (FilterOperator child predicate schema error) = (if Status_ok error then Operator_GetError child else error)"
| "Operator_GetError (ProjectOperator child items schema indices column_names error) =
     (if Status_ok error then Operator_GetError child else error)"
| "Operator_GetError (SortOperator child order_by schema buffered cursor error child_error) =
     (if Status_ok error then child_error else error)"
| "Operator_GetError (LimitOperator child limit returned) = Operator_GetError child"

section \<open>Open\<close>

text \<open>The status of the scan is ignored.\<close>

definition SeqScanOperator_Open :: "string \<Rightarrow> Database \<Rightarrow> (Operator \<times> Database) option" where
  "SeqScanOperator_Open table db =
     map_option (\<lambda>(_, buffered, db'). (SeqScanOperator table buffered 0, db'))
       (TableManager_Scan table (\<lambda>rid values acc. acc @ [\<lparr>tu_rid = rid, tu_values = values\<rparr>]) [] db)"

definition IndexScanOperator_Open ::
  "string \<Rightarrow> page_id_t \<Rightarrow> Key option \<Rightarrow> bool \<Rightarrow> Key option \<Rightarrow> bool \<Rightarrow> bool \<Rightarrow> Database \<Rightarrow> (Operator \<times> Database) option" where
  "IndexScanOperator_Open table tree low li high hi equal_only db =
     (let opened = (\<lambda>candidates error bp. (IndexScanOperator table tree low li high hi equal_only candidates 0 error, db\<lparr>db_index_pool := bp\<rparr>))
      in if equal_only
         then case low of
             None \<Rightarrow> None
           | Some key \<Rightarrow>
               map_option (\<lambda>(result, bp). case result of Inl e \<Rightarrow> opened [] e bp | Inr rids \<Rightarrow> opened rids Status_OK bp)
                 (BPlusTree_SearchEqual tree key (db_index_pool db))
         else map_option (\<lambda>(result, bp). case result of Inl e \<Rightarrow> opened [] e bp | Inr es \<Rightarrow> opened (map snd es) Status_OK bp)
                (BPlusTree_RangeScan tree low li high hi (db_index_pool db)))"

text \<open>
  \<open>std::stable_sort\<close>: sorted by the comparison, with equal elements in their order. The comparison
  of the sort operator puts null before the other values, or after them if descending; it is a
  strict weak order, as the library requires, on values of a column without NaN.
\<close>

fun insert_before :: "('a \<Rightarrow> 'a \<Rightarrow> bool) \<Rightarrow> 'a \<Rightarrow> 'a list \<Rightarrow> 'a list" where
  "insert_before before x [] = [x]"
| "insert_before before x (y # ys) = (if before y x then y # insert_before before x ys else x # y # ys)"

definition stable_sort :: "('a \<Rightarrow> 'a \<Rightarrow> bool) \<Rightarrow> 'a list \<Rightarrow> 'a list" where
  "stable_sort before xs = foldr (insert_before before) xs []"

definition sort_before :: "nat \<Rightarrow> bool \<Rightarrow> Tuple \<Rightarrow> Tuple \<Rightarrow> bool" where
  "sort_before col desc a b =
     (let a_null = IsNull (tu_values a ! col); b_null = IsNull (tu_values b ! col)
      in if a_null \<noteq> b_null then (if desc then \<not> a_null else a_null)
         else if a_null \<and> b_null then False
         else let cmp = CompareForSort (tu_values a ! col) (tu_values b ! col)
              in if desc then cmp > 0 else cmp < 0)"

text \<open>The argument \<open>opened\<close> is the result of the call \<open>child_->Open()\<close>, which is made for a known column only.\<close>

definition SortOperator_Open ::
  "Operator \<Rightarrow> (Operator \<times> Database) option \<Rightarrow> OrderByClause \<Rightarrow> Schema \<Rightarrow> Status \<Rightarrow> Database \<Rightarrow> (Operator \<times> Database) option" where
  "SortOperator_Open child opened order_by schema child_error db =
     (case Schema_IndexOf schema (ob_column order_by) of
        None \<Rightarrow> Some (SortOperator child order_by schema [] 0
            (Status_InvalidArgument (''ORDER BY: unknown column '' @ [CHR 0x27] @ ob_column order_by @ [CHR 0x27])) child_error, db)
      | Some col \<Rightarrow>
          Option.bind opened (\<lambda>(child1, db1).
          map_option (\<lambda>(buffered, child2, db2).
              (SortOperator (Operator_Close child2) order_by schema (stable_sort (sort_before col (descending order_by)) buffered) 0
                 Status_OK (Operator_GetError child2), db2))
            (pull_all Operator_Next [] child1 db1)))"

fun Operator_Open :: "Operator \<Rightarrow> Database \<Rightarrow> (Operator \<times> Database) option" where
  "Operator_Open (SeqScanOperator table buffered cursor) db = SeqScanOperator_Open table db"
| "Operator_Open (IndexScanOperator table tree low li high hi equal_only candidates cursor error) db =
     IndexScanOperator_Open table tree low li high hi equal_only db"
| "Operator_Open (FilterOperator child predicate schema error) db =
     map_option (\<lambda>(child', db'). (FilterOperator child' predicate schema Status_OK, db')) (Operator_Open child db)"
| "Operator_Open (ProjectOperator child items schema indices column_names error) db =
     map_option (\<lambda>(child', db'). (ProjectOperator child' items schema indices column_names Status_OK, db')) (Operator_Open child db)"
| "Operator_Open (SortOperator child order_by schema buffered cursor error child_error) db =
     SortOperator_Open child (Operator_Open child db) order_by schema child_error db"
| "Operator_Open (LimitOperator child limit returned) db =
     map_option (\<lambda>(child', db'). (LimitOperator child' limit 0, db')) (Operator_Open child db)"

definition ProjectOperator_ColumnNames :: "Operator \<Rightarrow> string list" where
  "ProjectOperator_ColumnNames op = (case op of ProjectOperator _ _ _ _ column_names _ \<Rightarrow> column_names | _ \<Rightarrow> [])"

section \<open>Aggregation\<close>

record Accumulator =
  acc_count :: "64 word"
  acc_sum :: double
  acc_has_value :: bool
  acc_min_v :: "Value option"
  acc_max_v :: "Value option"

definition Accumulator_new :: Accumulator where
  "Accumulator_new = \<lparr>acc_count = 0, acc_sum = 0, acc_has_value = False, acc_min_v = None, acc_max_v = None\<rparr>"

record AggregateOperator =
  ag_child :: Operator
  ag_items :: "SelectItem list"
  ag_schema :: Schema
  ag_column_names :: "string list"
  ag_result_values :: "Value list"
  ag_done :: bool
  ag_error :: Status

definition FuncName :: "AggregateFunc \<Rightarrow> string" where
  "FuncName f = (case f of AggregateFunc.kCount \<Rightarrow> ''COUNT'' | AggregateFunc.kSum \<Rightarrow> ''SUM'' | AggregateFunc.kAvg \<Rightarrow> ''AVG''
     | AggregateFunc.kMin \<Rightarrow> ''MIN'' | AggregateFunc.kMax \<Rightarrow> ''MAX'')"

definition aggregate_name :: "SelectItem \<Rightarrow> string option" where
  "aggregate_name item =
     map_option (\<lambda>f.
        let arg = (if aggregate_star item then ''*'' else case si_column item of Some c \<Rightarrow> c | None \<Rightarrow> ''?'')
        in case si_alias item of Some a \<Rightarrow> a | None \<Rightarrow> FuncName f @ ''('' @ arg @ '')'')
       (aggregate item)"

definition AggregateOperator_BuildColumnNames :: "SelectItem list \<Rightarrow> string list option" where
  "AggregateOperator_BuildColumnNames items = those (map aggregate_name items)"

definition AggregateOperator_new :: "Operator \<Rightarrow> SelectItem list \<Rightarrow> Schema \<Rightarrow> AggregateOperator option" where
  "AggregateOperator_new child items schema =
     map_option (\<lambda>names. \<lparr>ag_child = child, ag_items = items, ag_schema = schema, ag_column_names = names, ag_result_values = [],
         ag_done = False, ag_error = Status_OK\<rparr>)
       (AggregateOperator_BuildColumnNames items)"

definition unknown_column :: "string \<Rightarrow> string \<Rightarrow> Status" where
  "unknown_column column place = Status_InvalidArgument (''unknown column '' @ [CHR 0x27] @ column @ [CHR 0x27] @ '' in '' @ place)"

text \<open>
  The check of \<open>SUM\<close> and \<open>AVG\<close> before the first row is read. The outer \<open>None\<close> is the dereference of an
  absent optional.
\<close>

definition check_item :: "Schema \<Rightarrow> SelectItem \<Rightarrow> unit Result option" where
  "check_item schema item =
     Option.bind (aggregate item) (\<lambda>f.
       if (f = AggregateFunc.kSum \<or> f = AggregateFunc.kAvg) \<and> \<not> aggregate_star item
       then Option.bind (si_column item) (\<lambda>column.
          case Schema_IndexOf schema column of
            None \<Rightarrow> Some (Inl (unknown_column column ''aggregate''))
          | Some idx \<Rightarrow>
              if col_type (schema ! idx) \<notin> {ColumnType.kInt, ColumnType.kBigInt, ColumnType.kDouble}
              then Some (Inl (Status_InvalidArgument (''SUM/AVG requires a numeric column, got '' @ column)))
              else Some (Inr ()))
       else Some (Inr ()))"

fun check_items :: "Schema \<Rightarrow> SelectItem list \<Rightarrow> unit Result option" where
  "check_items schema [] = Some (Inr ())"
| "check_items schema (item # items) =
     Option.bind (check_item schema item) (\<lambda>r. case r of Inl e \<Rightarrow> Some (Inl e) | Inr _ \<Rightarrow> check_items schema items)"

text \<open>One row and one item.\<close>

definition accumulate_value :: "AggregateFunc \<Rightarrow> Value \<Rightarrow> Accumulator \<Rightarrow> Accumulator Result" where
  "accumulate_value f v acc =
     (if IsNull v then Inr acc
      else case f of
          AggregateFunc.kMin \<Rightarrow>
            Inr (acc\<lparr>acc_min_v := (case acc_min_v acc of None \<Rightarrow> Some v | Some m \<Rightarrow> if CompareForSort v m < 0 then Some v else Some m),
                     acc_has_value := True\<rparr>)
        | AggregateFunc.kMax \<Rightarrow>
            Inr (acc\<lparr>acc_max_v := (case acc_max_v acc of None \<Rightarrow> Some v | Some m \<Rightarrow> if CompareForSort v m > 0 then Some v else Some m),
                     acc_has_value := True\<rparr>)
        | AggregateFunc.kCount \<Rightarrow> Inr acc
        | _ \<Rightarrow>
            (case ValueToDoubleOrNull v of
               None \<Rightarrow> Inl (Status_InvalidArgument ''non-numeric value encountered in SUM/AVG'')
             | Some d \<Rightarrow> Inr (acc\<lparr>acc_sum := d_add (acc_sum acc) d, acc_count := acc_count acc + 1, acc_has_value := True\<rparr>)))"

definition accumulate :: "Schema \<Rightarrow> SelectItem \<Rightarrow> Value list \<Rightarrow> Accumulator \<Rightarrow> Accumulator Result option" where
  "accumulate schema item values acc =
     Option.bind (aggregate item) (\<lambda>f.
       if f = AggregateFunc.kCount
       then if aggregate_star item then Some (Inr (acc\<lparr>acc_count := acc_count acc + 1\<rparr>))
            else Option.bind (si_column item) (\<lambda>column.
              case Schema_IndexOf schema column of
                None \<Rightarrow> Some (Inl (unknown_column column ''COUNT''))
              | Some idx \<Rightarrow> Some (Inr (if \<not> IsNull (values ! idx) then acc\<lparr>acc_count := acc_count acc + 1\<rparr> else acc)))
       else Option.bind (si_column item) (\<lambda>column.
              case Schema_IndexOf schema column of
                None \<Rightarrow> Some (Inl (unknown_column column ''aggregate''))
              | Some idx \<Rightarrow> Some (accumulate_value f (values ! idx) acc)))"

fun accumulate_items :: "Schema \<Rightarrow> Value list \<Rightarrow> SelectItem list \<Rightarrow> Accumulator list \<Rightarrow> Accumulator list Result option" where
  "accumulate_items schema values (item # items) (acc # accs) =
     Option.bind (accumulate schema item values acc) (\<lambda>r.
       case r of
         Inl e \<Rightarrow> Some (Inl e)
       | Inr acc' \<Rightarrow>
           map_option (\<lambda>r'. case r' of Inl e \<Rightarrow> Inl e | Inr accs' \<Rightarrow> Inr (acc' # accs')) (accumulate_items schema values items accs))"
| "accumulate_items schema values _ _ = Some (Inr [])"

partial_function (option) aggregate_loop ::
  "Schema \<Rightarrow> SelectItem list \<Rightarrow> Accumulator list \<Rightarrow> Operator \<Rightarrow> Database \<Rightarrow> (Accumulator list Result \<times> Operator \<times> Database) option" where
  [code]: "aggregate_loop schema items accs child db =
     (case Operator_Next child db of
        None \<Rightarrow> None
      | Some (None, child', db') \<Rightarrow> Some (Inr accs, child', db')
      | Some (Some t, child', db') \<Rightarrow>
          (case accumulate_items schema (tu_values t) items accs of
             None \<Rightarrow> None
           | Some (Inl e) \<Rightarrow> Some (Inl e, child', db')
           | Some (Inr accs') \<Rightarrow> aggregate_loop schema items accs' child' db'))"

definition result_value :: "SelectItem \<Rightarrow> Accumulator \<Rightarrow> Value" where
  "result_value item acc =
     (case aggregate item of
        Some AggregateFunc.kCount \<Rightarrow> VBigInt (acc_count acc)
      | Some AggregateFunc.kSum \<Rightarrow> if acc_has_value acc then VDouble (acc_sum acc) else VNull
      | Some AggregateFunc.kAvg \<Rightarrow>
          if acc_has_value acc then VDouble (d_div (acc_sum acc) (d_of_int (sint (acc_count acc)))) else VNull
      | Some AggregateFunc.kMin \<Rightarrow> (case acc_min_v acc of Some v \<Rightarrow> v | None \<Rightarrow> VNull)
      | Some AggregateFunc.kMax \<Rightarrow> (case acc_max_v acc of Some v \<Rightarrow> v | None \<Rightarrow> VNull)
      | None \<Rightarrow> VNull)"

definition AggregateOperator_Compute :: "AggregateOperator \<Rightarrow> Database \<Rightarrow> (AggregateOperator \<times> Database) option" where
  "AggregateOperator_Compute ag db =
     Option.bind (check_items (ag_schema ag) (ag_items ag)) (\<lambda>checked.
       case checked of
         Inl e \<Rightarrow> Some (ag\<lparr>ag_error := e\<rparr>, db)
       | Inr _ \<Rightarrow>
           if \<not> Status_ok (ag_error ag) then Some (ag, db)
           else map_option (\<lambda>(r, child, db').
                  (case r of
                     Inl e \<Rightarrow> ag\<lparr>ag_child := child, ag_error := e\<rparr>
                   | Inr accs \<Rightarrow> ag\<lparr>ag_child := child, ag_result_values := ag_result_values ag @ map2 result_value (ag_items ag) accs\<rparr>, db'))
                (aggregate_loop (ag_schema ag) (ag_items ag) (replicate (length (ag_items ag)) Accumulator_new) (ag_child ag) db))"

definition AggregateOperator_Open :: "AggregateOperator \<Rightarrow> Database \<Rightarrow> (AggregateOperator \<times> Database) option" where
  "AggregateOperator_Open ag db =
     map_option (\<lambda>(child, db'). (ag\<lparr>ag_child := child, ag_done := False, ag_error := Status_OK\<rparr>, db')) (Operator_Open (ag_child ag) db)"

definition AggregateOperator_Next :: "AggregateOperator \<Rightarrow> Database \<Rightarrow> AggregateOperator pulled" where
  "AggregateOperator_Next ag db =
     (if ag_done ag then Some (None, ag, db)
      else map_option (\<lambda>(ag', db').
             if \<not> Status_ok (ag_error ag') then (None, ag', db')
             else (Some \<lparr>tu_rid = no_record_id, tu_values = ag_result_values ag'\<rparr>, ag', db'))
           (AggregateOperator_Compute (ag\<lparr>ag_done := True\<rparr>) db))"

definition AggregateOperator_Close :: "AggregateOperator \<Rightarrow> AggregateOperator" where
  "AggregateOperator_Close ag = ag\<lparr>ag_child := Operator_Close (ag_child ag)\<rparr>"

definition AggregateOperator_GetError :: "AggregateOperator \<Rightarrow> Status" where
  "AggregateOperator_GetError ag = (if Status_ok (ag_error ag) then Operator_GetError (ag_child ag) else ag_error ag)"

end
