(* ===== verification/Executor.thy ===== *)
theory Executor
  imports Operators
begin

text \<open>
  The executor (\<open>src/executor/executor.cpp\<close>): every kind of statement on a database. A statement returns a
  result or an error, and the database afterwards; \<open>None\<close> stands, as below, for a call that does not
  return normally.
\<close>

record QueryResult =
  qr_column_names :: "string list"
  qr_rows :: "Value list list"
  qr_rows_affected :: nat
  qr_message :: string
  qr_scan_strategy :: string

definition QueryResult_new :: QueryResult where
  "QueryResult_new = \<lparr>qr_column_names = [], qr_rows = [], qr_rows_affected = 0, qr_message = [], qr_scan_strategy = []\<rparr>"

type_synonym executed = "(QueryResult Result \<times> Database) option"

section \<open>Literals and keys\<close>

definition for_column :: "string \<Rightarrow> Column \<Rightarrow> Status" where
  "for_column msg col = Status_InvalidArgument (msg @ [CHR 0x27] @ col_name col @ [CHR 0x27])"

definition CoerceLiteralToColumnType :: "Value \<Rightarrow> Column \<Rightarrow> Value Result" where
  "CoerceLiteralToColumnType literal col =
     (if IsNull literal
      then if \<not> col_nullable col then Inl (for_column ''NULL given for NOT NULL column '' col) else Inr literal
      else case col_type col of
          ColumnType.kInt \<Rightarrow>
            (case literal of
               VBigInt v \<Rightarrow>
                 if sint v < - (2 ^ 31) \<or> sint v > 2 ^ 31 - 1 then Inl (for_column ''integer value out of range for INT column '' col)
                 else Inr (VInt (word_of_int (sint v)))
             | _ \<Rightarrow> Inl (for_column ''expected an integer value for column '' col))
        | ColumnType.kBigInt \<Rightarrow>
            (case literal of VBigInt v \<Rightarrow> Inr literal | _ \<Rightarrow> Inl (for_column ''expected an integer value for column '' col))
        | ColumnType.kDouble \<Rightarrow>
            (case literal of
               VDouble d \<Rightarrow> Inr literal
             | VBigInt v \<Rightarrow> Inr (VDouble (d_of_int (sint v)))
             | _ \<Rightarrow> Inl (for_column ''expected a numeric value for column '' col))
        | ColumnType.kBool \<Rightarrow>
            (case literal of VBool b \<Rightarrow> Inr literal | _ \<Rightarrow> Inl (for_column ''expected a boolean value for column '' col))
        | ColumnType.kVarchar \<Rightarrow>
            (case literal of VVarchar s \<Rightarrow> Inr literal | _ \<Rightarrow> Inl (for_column ''expected a string value for column '' col)))"

definition ExtractInt64Key :: "Value \<Rightarrow> Key option" where
  "ExtractInt64Key v = (case v of VInt i \<Rightarrow> Some (word_of_int (sint i)) | VBigInt i \<Rightarrow> Some i | _ \<Rightarrow> None)"

section \<open>Index maintenance\<close>

text \<open>The key of a row in an index: none if the column does not exist or holds no integer.\<close>

definition index_key :: "Schema \<Rightarrow> Value list \<Rightarrow> IndexMetadata \<Rightarrow> Key option" where
  "index_key schema row idx = Option.bind (Schema_IndexOf schema (im_column_name idx)) (\<lambda>i. ExtractInt64Key (row ! i))"

fun insert_into_indexes :: "Schema \<Rightarrow> Value list \<Rightarrow> RecordId \<Rightarrow> IndexMetadata list \<Rightarrow> BufferPool \<Rightarrow> BufferPool option" where
  "insert_into_indexes schema row rid [] bp = Some bp"
| "insert_into_indexes schema row rid (idx # idxs) bp =
     (case index_key schema row idx of
        None \<Rightarrow> insert_into_indexes schema row rid idxs bp
      | Some key \<Rightarrow>
          Option.bind (BPlusTree_new (im_meta_page_id idx) bp) (\<lambda>(tree, bp1).
          Option.bind (BPlusTree_Insert tree key rid bp1) (\<lambda>(_, bp2). insert_into_indexes schema row rid idxs bp2)))"

definition MaintainIndexesOnInsert :: "string \<Rightarrow> Schema \<Rightarrow> Value list \<Rightarrow> RecordId \<Rightarrow> Database \<Rightarrow> Database option" where
  "MaintainIndexesOnInsert table_name schema row rid db =
     map_option (\<lambda>bp. db\<lparr>db_index_pool := bp\<rparr>)
       (insert_into_indexes schema row rid (CatalogManager_GetIndexesForTable table_name (tb_catalog db)) (db_index_pool db))"

fun delete_from_indexes :: "Schema \<Rightarrow> Value list \<Rightarrow> RecordId \<Rightarrow> IndexMetadata list \<Rightarrow> BufferPool \<Rightarrow> BufferPool option" where
  "delete_from_indexes schema row rid [] bp = Some bp"
| "delete_from_indexes schema row rid (idx # idxs) bp =
     (case index_key schema row idx of
        None \<Rightarrow> delete_from_indexes schema row rid idxs bp
      | Some key \<Rightarrow>
          Option.bind (BPlusTree_new (im_meta_page_id idx) bp) (\<lambda>(tree, bp1).
          Option.bind (BPlusTree_Delete tree key rid bp1) (\<lambda>(_, bp2). delete_from_indexes schema row rid idxs bp2)))"

definition MaintainIndexesOnDelete :: "string \<Rightarrow> Schema \<Rightarrow> Value list \<Rightarrow> RecordId \<Rightarrow> Database \<Rightarrow> Database option" where
  "MaintainIndexesOnDelete table_name schema row rid db =
     map_option (\<lambda>bp. db\<lparr>db_index_pool := bp\<rparr>)
       (delete_from_indexes schema row rid (CatalogManager_GetIndexesForTable table_name (tb_catalog db)) (db_index_pool db))"

section \<open>Definitions of tables and indexes\<close>

definition ExecuteCreateTable :: "string \<Rightarrow> Column list \<Rightarrow> Database \<Rightarrow> executed" where
  "ExecuteCreateTable table_name columns db =
     map_option (\<lambda>(status, db'). (if \<not> Status_ok status then Inl status else Inr (QueryResult_new\<lparr>qr_message := ''CREATE TABLE''\<rparr>), db'))
       (TableManager_CreateTable table_name columns db)"

definition ExecuteDropTable :: "string \<Rightarrow> Database \<Rightarrow> executed" where
  "ExecuteDropTable table_name db =
     (let (status, db') = TableManager_DropTable table_name db
      in Some (if \<not> Status_ok status then Inl status else Inr (QueryResult_new\<lparr>qr_message := ''DROP TABLE''\<rparr>), db'))"

definition no_table :: "string \<Rightarrow> Status" where
  "no_table table_name = Status_NotFound (''no such table '' @ [CHR 0x27] @ table_name @ [CHR 0x27])"

text \<open>The visitor with which \<open>CREATE INDEX\<close> fills the new tree.\<close>

definition index_row :: "page_id_t \<Rightarrow> nat \<Rightarrow> RecordId \<Rightarrow> Value list \<Rightarrow> BufferPool option \<Rightarrow> BufferPool option" where
  "index_row tree col rid values acc =
     Option.bind acc (\<lambda>bp. case ExtractInt64Key (values ! col) of
        None \<Rightarrow> Some bp
      | Some key \<Rightarrow> map_option snd (BPlusTree_Insert tree key rid bp))"

definition ExecuteCreateIndex :: "string \<Rightarrow> string \<Rightarrow> string \<Rightarrow> Database \<Rightarrow> executed" where
  "ExecuteCreateIndex index_name table_name column_name db =
     (case TableManager_GetSchema table_name db of
        None \<Rightarrow> Some (Inl (no_table table_name), db)
      | Some schema \<Rightarrow>
          (case Schema_IndexOf schema column_name of
             None \<Rightarrow> Some (Inl (unknown_column column_name ''CREATE INDEX''), db)
           | Some col \<Rightarrow>
               let col_ty = col_type (schema ! col)
               in if col_ty \<noteq> ColumnType.kInt \<and> col_ty \<noteq> ColumnType.kBigInt
                  then Some (Inl (Status_InvalidArgument (''index only supported on INT/BIGINT columns in this implementation, column '' @
                         [CHR 0x27] @ column_name @ [CHR 0x27] @ '' is '' @ ColumnTypeName col_ty)), db)
                  else
                    Option.bind (BPlusTree_new kInvalidPageId (db_index_pool db)) (\<lambda>(tree, bp).
                    Option.bind (TableManager_Scan table_name (index_row tree col) (Some bp) db) (\<lambda>(scan_status, filled, db1).
                    Option.bind filled (\<lambda>bp1.
                      let db2 = db1\<lparr>db_index_pool := bp1\<rparr>
                      in if \<not> Status_ok scan_status then Some (Inl scan_status, db2)
                         else map_option (\<lambda>(created, cm, cbp).
                                (case created of Inl e \<Rightarrow> Inl e | Inr _ \<Rightarrow> Inr (QueryResult_new\<lparr>qr_message := ''CREATE INDEX''\<rparr>),
                                 db2\<lparr>tb_catalog := cm, tb_catalog_pool := cbp\<rparr>))
                              (CatalogManager_CreateIndex index_name table_name column_name tree (tb_catalog db2) (tb_catalog_pool db2)))))))"

definition ExecuteDropIndex :: "string \<Rightarrow> Database \<Rightarrow> executed" where
  "ExecuteDropIndex index_name db =
     (let (status, cm, cbp) = CatalogManager_DropIndex index_name (tb_catalog db) (tb_catalog_pool db);
          db' = db\<lparr>tb_catalog := cm, tb_catalog_pool := cbp\<rparr>
      in Some (if \<not> Status_ok status then Inl status else Inr (QueryResult_new\<lparr>qr_message := ''DROP INDEX''\<rparr>), db'))"

section \<open>Changes of rows\<close>

fun target_indices :: "Schema \<Rightarrow> string list \<Rightarrow> nat list Result" where
  "target_indices schema [] = Inr []"
| "target_indices schema (name # cols) =
     (case Schema_IndexOf schema name of
        None \<Rightarrow> Inl (unknown_column name ''INSERT'')
      | Some idx \<Rightarrow> bind_result (target_indices schema cols) (\<lambda>is. Inr (idx # is)))"

fun fill_row :: "Schema \<Rightarrow> (nat \<times> Value) list \<Rightarrow> Value list \<Rightarrow> Value list Result" where
  "fill_row schema [] full_row = Inr full_row"
| "fill_row schema ((col, v) # rest) full_row =
     bind_result (CoerceLiteralToColumnType v (schema ! col)) (\<lambda>coerced. fill_row schema rest (full_row[col := coerced]))"

text \<open>The rows before one that fails stay inserted.\<close>

fun insert_rows :: "string \<Rightarrow> Schema \<Rightarrow> nat list \<Rightarrow> Value list list \<Rightarrow> nat \<Rightarrow> Database \<Rightarrow> (nat Result \<times> Database) option" where
  "insert_rows table_name schema targets [] n db = Some (Inr n, db)"
| "insert_rows table_name schema targets (row # rows) n db =
     (if length row \<noteq> length targets
      then Some (Inl (Status_InvalidArgument ''INSERT value count does not match column count''), db)
      else case fill_row schema (zip targets row) (replicate (Schema_ColumnCount schema) VNull) of
          Inl e \<Rightarrow> Some (Inl e, db)
        | Inr full_row \<Rightarrow>
            Option.bind (TableManager_InsertRow table_name full_row db) (\<lambda>(r, db1).
              case r of
                Inl e \<Rightarrow> Some (Inl e, db1)
              | Inr rid \<Rightarrow>
                  Option.bind (MaintainIndexesOnInsert table_name schema full_row rid db1) (\<lambda>db2.
                  insert_rows table_name schema targets rows (n + 1) db2)))"

text \<open>The answer to a statement that changed \<open>n\<close> rows.\<close>

definition changed_rows :: "string \<Rightarrow> nat Result \<Rightarrow> QueryResult Result" where
  "changed_rows tag r =
     (case r of Inl e \<Rightarrow> Inl e | Inr n \<Rightarrow> Inr (QueryResult_new\<lparr>qr_rows_affected := n, qr_message := tag @ show_nat n\<rparr>))"

definition ExecuteInsert :: "string \<Rightarrow> string list \<Rightarrow> Value list list \<Rightarrow> Database \<Rightarrow> executed" where
  "ExecuteInsert table_name columns rows db =
     (case TableManager_GetSchema table_name db of
        None \<Rightarrow> Some (Inl (no_table table_name), db)
      | Some schema \<Rightarrow>
          (case (if columns = [] then Inr [0..<Schema_ColumnCount schema] else target_indices schema columns) of
             Inl e \<Rightarrow> Some (Inl e, db)
           | Inr targets \<Rightarrow>
               map_option (\<lambda>(r, db'). (changed_rows ''INSERT 0 '' r, db')) (insert_rows table_name schema targets rows 0 db)))"

text \<open>The rows that match a condition; rows on which it cannot be evaluated do not match.\<close>

definition collect_match :: "Expr option \<Rightarrow> Schema \<Rightarrow> RecordId \<Rightarrow> Value list \<Rightarrow> (RecordId \<times> Value list) list \<Rightarrow> (RecordId \<times> Value list) list" where
  "collect_match condition schema rid values acc =
     (if EvaluatePredicate condition schema values = Inr True then acc @ [(rid, values)] else acc)"

fun resolve_assignments :: "Schema \<Rightarrow> (string \<times> Value) list \<Rightarrow> (nat \<times> Value) list Result" where
  "resolve_assignments schema [] = Inr []"
| "resolve_assignments schema ((name, literal) # rest) =
     (case Schema_IndexOf schema name of
        None \<Rightarrow> Inl (unknown_column name ''UPDATE SET'')
      | Some idx \<Rightarrow>
          bind_result (CoerceLiteralToColumnType literal (schema ! idx)) (\<lambda>v.
          bind_result (resolve_assignments schema rest) (\<lambda>as. Inr ((idx, v) # as))))"

fun update_rows ::
  "string \<Rightarrow> Schema \<Rightarrow> (nat \<times> Value) list \<Rightarrow> (RecordId \<times> Value list) list \<Rightarrow> nat \<Rightarrow> Database \<Rightarrow> (nat Result \<times> Database) option" where
  "update_rows table_name schema assignments [] n db = Some (Inr n, db)"
| "update_rows table_name schema assignments ((old_rid, old_values) # rest) n db =
     (let values = fold (\<lambda>(idx, v) vs. vs[idx := v]) assignments old_values
      in Option.bind (TableManager_UpdateRow table_name old_rid values db) (\<lambda>(r, db1).
         case r of
           Inl e \<Rightarrow> Some (Inl e, db1)
         | Inr rid \<Rightarrow>
             Option.bind (MaintainIndexesOnDelete table_name schema old_values old_rid db1) (\<lambda>db2.
             Option.bind (MaintainIndexesOnInsert table_name schema values rid db2) (\<lambda>db3.
             update_rows table_name schema assignments rest (n + 1) db3))))"

definition ExecuteUpdate :: "string \<Rightarrow> (string \<times> Value) list \<Rightarrow> Expr option \<Rightarrow> Database \<Rightarrow> executed" where
  "ExecuteUpdate table_name assignments condition db =
     (case TableManager_GetSchema table_name db of
        None \<Rightarrow> Some (Inl (no_table table_name), db)
      | Some schema \<Rightarrow>
          (case resolve_assignments schema assignments of
             Inl e \<Rightarrow> Some (Inl e, db)
           | Inr resolved \<Rightarrow>
               Option.bind (TableManager_Scan table_name (collect_match condition schema) [] db) (\<lambda>(scan_status, matches, db1).
               if \<not> Status_ok scan_status then Some (Inl scan_status, db1)
               else map_option (\<lambda>(r, db'). (changed_rows ''UPDATE '' r, db')) (update_rows table_name schema resolved matches 0 db1))))"

fun delete_rows :: "string \<Rightarrow> Schema \<Rightarrow> (RecordId \<times> Value list) list \<Rightarrow> nat \<Rightarrow> Database \<Rightarrow> (nat Result \<times> Database) option" where
  "delete_rows table_name schema [] n db = Some (Inr n, db)"
| "delete_rows table_name schema ((rid, values) # rest) n db =
     Option.bind (TableManager_DeleteRow table_name rid db) (\<lambda>(status, db1).
       if \<not> Status_ok status then Some (Inl status, db1)
       else Option.bind (MaintainIndexesOnDelete table_name schema values rid db1) (\<lambda>db2.
         delete_rows table_name schema rest (n + 1) db2))"

definition ExecuteDelete :: "string \<Rightarrow> Expr option \<Rightarrow> Database \<Rightarrow> executed" where
  "ExecuteDelete table_name condition db =
     (case TableManager_GetSchema table_name db of
        None \<Rightarrow> Some (Inl (no_table table_name), db)
      | Some schema \<Rightarrow>
          Option.bind (TableManager_Scan table_name (collect_match condition schema) [] db) (\<lambda>(scan_status, matches, db1).
          if \<not> Status_ok scan_status then Some (Inl scan_status, db1)
          else map_option (\<lambda>(r, db'). (changed_rows ''DELETE '' r, db')) (delete_rows table_name schema matches 0 db1)))"

section \<open>Queries\<close>

fun FlattenAnd :: "Expr \<Rightarrow> Expr list" where
  "FlattenAnd (BinaryExpr l op r) = (if op = BinaryOp.kAnd then FlattenAnd l @ FlattenAnd r else [BinaryExpr l op r])"
| "FlattenAnd e = [e]"

definition FlipComparisonOp :: "BinaryOp \<Rightarrow> BinaryOp" where
  "FlipComparisonOp op = (case op of
       BinaryOp.kLt \<Rightarrow> BinaryOp.kGt
     | BinaryOp.kGt \<Rightarrow> BinaryOp.kLt
     | BinaryOp.kLte \<Rightarrow> BinaryOp.kGte
     | BinaryOp.kGte \<Rightarrow> BinaryOp.kLte
     | _ \<Rightarrow> op)"

record IndexableConjunct =
  ic_column :: string
  ic_op :: BinaryOp
  ic_value :: Key

definition ExtractIndexableConjunct :: "Expr \<Rightarrow> IndexableConjunct option" where
  "ExtractIndexableConjunct e =
     (case e of
        BinaryExpr l op r \<Rightarrow>
          if op = BinaryOp.kAnd \<or> op = BinaryOp.kOr then None
          else (case (l, r) of
              (ColumnRefExpr column, LiteralExpr v) \<Rightarrow>
                (case v of VBigInt i \<Rightarrow> Some \<lparr>ic_column = column, ic_op = op, ic_value = i\<rparr> | _ \<Rightarrow> None)
            | (LiteralExpr v, ColumnRefExpr column) \<Rightarrow>
                (case v of VBigInt i \<Rightarrow> Some \<lparr>ic_column = column, ic_op = FlipComparisonOp op, ic_value = i\<rparr> | _ \<Rightarrow> None)
            | _ \<Rightarrow> None)
      | _ \<Rightarrow> None)"

text \<open>The choice of a conjunct and an index: the first equality with an index, else the first comparison.\<close>

fun choose_index ::
  "IndexMetadata list \<Rightarrow> Expr list \<Rightarrow> (IndexableConjunct \<times> IndexMetadata) option \<Rightarrow> (IndexableConjunct \<times> IndexMetadata) option" where
  "choose_index indexes [] chosen = chosen"
| "choose_index indexes (c # cs) chosen =
     (case ExtractIndexableConjunct c of
        None \<Rightarrow> choose_index indexes cs chosen
      | Some candidate \<Rightarrow>
          (case find (\<lambda>idx. im_column_name idx = ic_column candidate) indexes of
             None \<Rightarrow> choose_index indexes cs chosen
           | Some idx \<Rightarrow>
               if ic_op candidate = BinaryOp.kEq then Some (candidate, idx)
               else choose_index indexes cs (if chosen = None then Some (candidate, idx) else chosen)))"

definition index_scan_for :: "string \<Rightarrow> IndexableConjunct \<Rightarrow> page_id_t \<Rightarrow> Operator" where
  "index_scan_for table_name chosen tree =
     (let v = ic_value chosen
      in case ic_op chosen of
           BinaryOp.kEq \<Rightarrow> IndexScanOperator_equal table_name tree v
         | BinaryOp.kLt \<Rightarrow> IndexScanOperator_range table_name tree None True (Some v) False
         | BinaryOp.kLte \<Rightarrow> IndexScanOperator_range table_name tree None True (Some v) True
         | BinaryOp.kGt \<Rightarrow> IndexScanOperator_range table_name tree (Some v) False None True
         | BinaryOp.kGte \<Rightarrow> IndexScanOperator_range table_name tree (Some v) True None True
         | _ \<Rightarrow> IndexScanOperator_range table_name tree None True None True)"

definition top_is_or :: "Expr \<Rightarrow> bool" where
  "top_is_or e = (case e of BinaryExpr _ op _ \<Rightarrow> op = BinaryOp.kOr | _ \<Rightarrow> False)"

text \<open>The scan of a query with its name; opening a tree by an invalid page id would create one.\<close>

definition select_scan :: "string \<Rightarrow> Expr option \<Rightarrow> Database \<Rightarrow> (Operator \<times> string \<times> Database) option" where
  "select_scan table_name condition db =
     (case (case condition of
              None \<Rightarrow> None
            | Some e \<Rightarrow>
                if top_is_or e then None
                else choose_index (CatalogManager_GetIndexesForTable table_name (tb_catalog db)) (FlattenAnd e) None) of
        None \<Rightarrow> Some (SeqScanOperator_new table_name, ''SeqScan'', db)
      | Some (chosen, idx) \<Rightarrow>
          map_option (\<lambda>(tree, bp).
              (index_scan_for table_name chosen tree, ''IndexScan('' @ im_index_name idx @ '')'', db\<lparr>db_index_pool := bp\<rparr>))
            (BPlusTree_new (im_meta_page_id idx) (db_index_pool db)))"

text \<open>The answer of a query; the operators are closed and discarded after their last tuple.\<close>

definition select_result :: "string list \<Rightarrow> string \<Rightarrow> Tuple list \<Rightarrow> Status \<Rightarrow> QueryResult Result" where
  "select_result column_names strategy tuples err =
     (if \<not> Status_ok err then Inl err
      else Inr \<lparr>qr_column_names = column_names, qr_rows = map tu_values tuples, qr_rows_affected = 0,
                qr_message = ''SELECT '' @ show_nat (length tuples), qr_scan_strategy = strategy\<rparr>)"

definition run_aggregate :: "Operator \<Rightarrow> SelectItem list \<Rightarrow> Schema \<Rightarrow> string \<Rightarrow> Database \<Rightarrow> executed" where
  "run_aggregate chain items schema strategy db =
     Option.bind (AggregateOperator_new chain items schema) (\<lambda>agg0.
     Option.bind (AggregateOperator_Open agg0 db) (\<lambda>(agg1, db1).
     map_option (\<lambda>(tuples, agg2, db2). (select_result (ag_column_names agg1) strategy tuples (AggregateOperator_GetError agg2), db2))
       (pull_all AggregateOperator_Next [] agg1 db1)))"

definition run_query ::
  "Operator \<Rightarrow> SelectItem list \<Rightarrow> Schema \<Rightarrow> OrderByClause option \<Rightarrow> 64 word option \<Rightarrow> string \<Rightarrow> Database \<Rightarrow> executed" where
  "run_query chain items schema order_by limit strategy db =
     Option.bind (ProjectOperator_new (case order_by of None \<Rightarrow> chain | Some ob \<Rightarrow> SortOperator_new chain ob schema) items schema) (\<lambda>project.
     let final_chain = (case limit of None \<Rightarrow> project | Some n \<Rightarrow> LimitOperator_new project n)
     in Option.bind (Operator_Open final_chain db) (\<lambda>(opened, db1).
        map_option (\<lambda>(tuples, op, db2).
            (select_result (ProjectOperator_ColumnNames project) strategy tuples (Operator_GetError op), db2))
          (pull_all Operator_Next [] opened db1)))"

definition ExecuteSelect ::
  "SelectItem list \<Rightarrow> string \<Rightarrow> Expr option \<Rightarrow> OrderByClause option \<Rightarrow> 64 word option \<Rightarrow> Database \<Rightarrow> executed" where
  "ExecuteSelect items table_name condition order_by limit db =
     (case TableManager_GetSchema table_name db of
        None \<Rightarrow> Some (Inl (no_table table_name), db)
      | Some schema \<Rightarrow>
          let any_aggregate = (\<exists>item \<in> set items. aggregate item \<noteq> None); any_plain = (\<exists>item \<in> set items. aggregate item = None)
          in if any_aggregate \<and> any_plain
             then Some (Inl (Status_InvalidArgument
                    ''cannot mix aggregate and non-aggregate columns without GROUP BY (not supported)''), db)
             else Option.bind (select_scan table_name condition db) (\<lambda>(scan, strategy, db1).
                  let chain = (case condition of None \<Rightarrow> scan | Some _ \<Rightarrow> FilterOperator_new scan condition schema)
                  in if any_aggregate then run_aggregate chain items schema strategy db1
                     else run_query chain items schema order_by limit strategy db1))"

definition Executor_Execute :: "Statement \<Rightarrow> Database \<Rightarrow> executed" where
  "Executor_Execute stmt db =
     (case stmt of
        CreateTableStmt table_name columns \<Rightarrow> ExecuteCreateTable table_name columns db
      | DropTableStmt table_name \<Rightarrow> ExecuteDropTable table_name db
      | CreateIndexStmt index_name table_name column_name \<Rightarrow> ExecuteCreateIndex index_name table_name column_name db
      | DropIndexStmt index_name \<Rightarrow> ExecuteDropIndex index_name db
      | InsertStmt table_name columns rows \<Rightarrow> ExecuteInsert table_name columns rows db
      | UpdateStmt table_name assignments condition \<Rightarrow> ExecuteUpdate table_name assignments condition db
      | DeleteStmt table_name condition \<Rightarrow> ExecuteDelete table_name condition db
      | SelectStmt items table_name condition order_by limit \<Rightarrow> ExecuteSelect items table_name condition order_by limit db)"

end
