(* ===== verification/Result_Formatter.thy ===== *)
theory Result_Formatter
  imports Executor
begin

text \<open>
  The text of a query result (\<open>src/executor/result_formatter.cpp\<close>), with \<open>std::to_string\<close> of integers and of
  doubles, which prints six digits after the point, rounded to nearest, ties to even.
\<close>

definition show_int :: "int \<Rightarrow> string" where
  "show_int i = (if i < 0 then CHR ''-'' # show_nat (nat (- i)) else show_nat (nat i))"

definition show_double :: "double \<Rightarrow> string" where
  "show_double d =
     (let sign = (if d_negative d then ''-'' else [])
      in if d_nan d then sign @ ''nan''
         else if d_inf d then sign @ ''inf''
         else let n = round_even (scaled_magnitude (d_magnitude d) * 10 ^ 6) (2 ^ 1074); frac = show_nat (n mod 10 ^ 6)
              in sign @ show_nat (n div 10 ^ 6) @ ''.'' @ replicate (6 - length frac) CHR ''0'' @ frac)"

definition FormatValue :: "Value \<Rightarrow> string" where
  "FormatValue v =
     (case v of
        VNull \<Rightarrow> ''NULL''
      | VInt i \<Rightarrow> show_int (sint i)
      | VBigInt i \<Rightarrow> show_int (sint i)
      | VDouble d \<Rightarrow> show_double d
      | VBool b \<Rightarrow> if b then ''true'' else ''false''
      | VVarchar s \<Rightarrow> s)"

text \<open>The widths of the columns grow with the cells of each row.\<close>

fun widen :: "nat list \<Rightarrow> string list \<Rightarrow> nat list" where
  "widen (w # ws) (text # texts) = max w (length text) # widen ws texts"
| "widen ws _ = ws"

definition render_row :: "nat \<Rightarrow> Value list \<Rightarrow> string list" where
  "render_row ncols row = map FormatValue (take ncols row)"

text \<open>The width is at least the length of the text; else the code would ask for a string of negative length.\<close>

definition pad :: "string \<Rightarrow> nat \<Rightarrow> string" where
  "pad s width = s @ replicate (width - length s) CHR '' ''"

fun join_cells :: "string \<Rightarrow> string list \<Rightarrow> string" where
  "join_cells sep [] = []"
| "join_cells sep [x] = x"
| "join_cells sep (x # y # xs) = x @ sep @ join_cells sep (y # xs)"

definition row_cells :: "nat list \<Rightarrow> string list \<Rightarrow> string list" where
  "row_cells widths row = map (\<lambda>c. pad (if c < length row then row ! c else []) (widths ! c)) [0..<length widths]"

definition FormatQueryResult :: "QueryResult \<Rightarrow> string" where
  "FormatQueryResult result =
     (if qr_column_names result = [] then qr_message result
      else let ncols = length (qr_column_names result);
               cells = map (render_row ncols) (qr_rows result);
               widths = fold (\<lambda>row ws. widen ws row) cells (map length (qr_column_names result));
               newline = [CHR 0x0A]
           in join_cells '' | '' (map2 pad (qr_column_names result) widths) @ newline @
              join_cells ''-+-'' (map (\<lambda>w. replicate w CHR ''-'') widths) @ newline @
              concat (map (\<lambda>row. join_cells '' | '' (row_cells widths row) @ newline) cells) @
              ''('' @ show_nat (length (qr_rows result)) @ (if length (qr_rows result) = 1 then '' row)'' else '' rows)'') @
              (if qr_scan_strategy result \<noteq> [] then ''  ['' @ qr_scan_strategy result @ '']'' else []))"

section \<open>The layout of the table\<close>

lemma length_widen [simp]: "length (widen ws ts) = length ws"
  by (induction ws ts rule: widen.induct) simp_all

lemma widen_nth: "c < length ws \<Longrightarrow> widen ws ts ! c = (if c < length ts then max (ws ! c) (length (ts ! c)) else ws ! c)"
proof (induction ws ts arbitrary: c rule: widen.induct)
  case (1 w ws t ts)
  then show ?case by (cases c) simp_all
qed simp_all

lemma length_fold_widen [simp]: "length (fold (\<lambda>row ws. widen ws row) cells ws) = length ws"
  by (induction cells arbitrary: ws) simp_all

text \<open>No cell is wider than its column.\<close>

lemma fold_widen_ge:
  assumes "c < length ws"
  shows "ws ! c \<le> fold (\<lambda>row ws. widen ws row) cells ws ! c"
    and "row \<in> set cells \<Longrightarrow> c < length row \<Longrightarrow> length (row ! c) \<le> fold (\<lambda>row ws. widen ws row) cells ws ! c"
  using assms
proof (induction cells arbitrary: ws)
  case (Cons r cells)
  { case 1
    have "ws ! c \<le> widen ws r ! c" using widen_nth [of c ws r] 1 by simp
    also have "\<dots> \<le> fold (\<lambda>row ws. widen ws row) cells (widen ws r) ! c" using Cons.IH(1) [of "widen ws r"] 1 by simp
    finally show ?case by simp }
  { case 2
    show ?case
    proof (cases "row \<in> set cells")
      case True
      then show ?thesis using Cons.IH(2) [of "widen ws r"] 2 by simp
    next
      case False
      then have "row = r" using 2 by simp
      then have "length (row ! c) \<le> widen ws r ! c" using widen_nth [of c ws r] 2 by simp
      also have "\<dots> \<le> fold (\<lambda>row ws. widen ws row) cells (widen ws r) ! c" using Cons.IH(1) [of "widen ws r"] 2 by simp
      finally show ?thesis by simp
    qed }
qed simp_all

lemma length_join_cells:
  "xs \<noteq> [] \<Longrightarrow> length (join_cells sep xs) = sum_list (map length xs) + length sep * (length xs - 1)"
  by (induction sep xs rule: join_cells.induct) auto

lemma length_pad [simp]: "length s \<le> w \<Longrightarrow> length (pad s w) = w"
  by (simp add: pad_def)

definition table_width :: "nat list \<Rightarrow> nat" where
  "table_width ws = sum_list ws + 3 * (length ws - 1)"

lemma row_line_width:
  assumes "ws \<noteq> []" "\<And>c. c < length ws \<Longrightarrow> c < length row \<Longrightarrow> length (row ! c) \<le> ws ! c"
  shows "length (join_cells '' | '' (row_cells ws row)) = table_width ws"
proof -
  have "map length (row_cells ws row) = ws"
    by (rule nth_equalityI) (use assms(2) in \<open>auto simp: row_cells_def\<close>)
  moreover have "row_cells ws row \<noteq> []" "length (row_cells ws row) = length ws" using assms(1) by (simp_all add: row_cells_def)
  ultimately show ?thesis by (simp add: length_join_cells table_width_def)
qed

lemma header_width:
  assumes "names \<noteq> []" "length ws = length names" "\<And>c. c < length ws \<Longrightarrow> length (names ! c) \<le> ws ! c"
  shows "length (join_cells '' | '' (map2 pad names ws)) = table_width ws"
proof -
  have "map length (map2 pad names ws) = ws"
    using assms(2,3) by (intro nth_equalityI) auto
  moreover have "map2 pad names ws \<noteq> []" using assms(1,2) by (cases names; cases ws) auto
  ultimately show ?thesis using assms(2) by (simp add: length_join_cells table_width_def)
qed

text \<open>
  A result with columns is printed as a table: a header, a rule and one line per row, all of the same
  width, then the number of rows. Every text fits into its column, so no padding is negative, and
  all cells of the row are in its line in order.
\<close>

theorem FormatQueryResult_table:
  assumes "qr_column_names result \<noteq> []"
  shows "\<exists>ws. length ws = length (qr_column_names result) \<and>
    FormatQueryResult result =
      join_cells '' | '' (map2 pad (qr_column_names result) ws) @ [CHR 0x0A] @
      join_cells ''-+-'' (map (\<lambda>w. replicate w CHR ''-'') ws) @ [CHR 0x0A] @
      concat (map (\<lambda>row. join_cells '' | '' (row_cells ws (render_row (length ws) row)) @ [CHR 0x0A]) (qr_rows result)) @
      ''('' @ show_nat (length (qr_rows result)) @ (if length (qr_rows result) = 1 then '' row)'' else '' rows)'') @
      (if qr_scan_strategy result \<noteq> [] then ''  ['' @ qr_scan_strategy result @ '']'' else []) \<and>
    length (join_cells '' | '' (map2 pad (qr_column_names result) ws)) = table_width ws \<and>
    length (join_cells ''-+-'' (map (\<lambda>w. replicate w CHR ''-'') ws)) = table_width ws \<and>
    (\<forall>c < length ws. length (qr_column_names result ! c) \<le> ws ! c) \<and>
    (\<forall>row \<in> set (qr_rows result). length (join_cells '' | '' (row_cells ws (render_row (length ws) row))) = table_width ws \<and>
      (\<forall>c < min (length ws) (length row). length (FormatValue (row ! c)) \<le> ws ! c))"
proof -
  let ?names = "qr_column_names result"
  let ?cells = "map (render_row (length ?names)) (qr_rows result)"
  define ws where "ws = fold (\<lambda>row ws. widen ws row) ?cells (map length ?names)"
  have len: "length ws = length ?names" by (simp add: ws_def)
  then have ne: "ws \<noteq> []" using assms by auto
  have n: "length (?names ! c) \<le> ws ! c" if "c < length ws" for c
    using fold_widen_ge(1) [of c "map length ?names" ?cells] that len by (simp add: ws_def)
  have r: "length (render_row (length ws) row ! c) \<le> ws ! c" if "row \<in> set (qr_rows result)" "c < length ws" "c < length (render_row (length ws) row)" for row c
    using fold_widen_ge(2) [of c "map length ?names" "render_row (length ws) row" ?cells] that len by (simp add: ws_def [symmetric])
  have "length (FormatValue (row ! c)) \<le> ws ! c" if "row \<in> set (qr_rows result)" "c < length ws" "c < length row" for row c
    using r [OF that(1,2)] that by (simp add: render_row_def)
  moreover have "length (join_cells ''-+-'' (map (\<lambda>w. replicate w CHR ''-'') ws)) = table_width ws"
    using ne by (simp add: length_join_cells table_width_def comp_def)
  moreover have "FormatQueryResult result = join_cells '' | '' (map2 pad ?names ws) @ [CHR 0x0A] @
      join_cells ''-+-'' (map (\<lambda>w. replicate w CHR ''-'') ws) @ [CHR 0x0A] @
      concat (map (\<lambda>row. join_cells '' | '' (row_cells ws (render_row (length ws) row)) @ [CHR 0x0A]) (qr_rows result)) @
      ''('' @ show_nat (length (qr_rows result)) @ (if length (qr_rows result) = 1 then '' row)'' else '' rows)'') @
      (if qr_scan_strategy result \<noteq> [] then ''  ['' @ qr_scan_strategy result @ '']'' else [])"
    using assms unfolding FormatQueryResult_def Let_def ws_def [symmetric] len by (simp add: comp_def)
  moreover note header_width [OF assms len n] row_line_width [OF ne r] len n
  ultimately show ?thesis by (intro exI [of _ ws]) simp
qed

end
