(* ===== verification/Repl.thy ===== *)
theory Repl
  imports Result_Formatter Parser
begin

text \<open>
  The interactive front end (\<open>src/cli/repl.cpp\<close>): the lines of the input are collected up to a line with a
  terminator, and executed. The output is the text printed so far.
\<close>

definition is_blank :: "string \<Rightarrow> bool" where
  "is_blank sql = list_all (\<lambda>c. c \<in> {CHR '' '', CHR 0x09, CHR 0x0A, CHR 0x0D, CHR '';''}) sql"

definition ProcessStatement :: "string \<Rightarrow> Database \<Rightarrow> (string \<times> Database) option" where
  "ProcessStatement sql db =
     (if is_blank sql then Some ([], db)
      else case ParseSQL sql of
          Inl e \<Rightarrow> Some (''ERROR: '' @ status_message e, db)
        | Inr stmt \<Rightarrow>
            map_option (\<lambda>(r, db'). (case r of Inl e \<Rightarrow> ''ERROR: '' @ status_message e | Inr result \<Rightarrow> FormatQueryResult result, db'))
              (Executor_Execute stmt db))"

text \<open>The search for a terminator outside of a string literal, in one line.\<close>

fun find_terminator :: "bool \<Rightarrow> string \<Rightarrow> bool" where
  "find_terminator in_string [] = False"
| "find_terminator in_string (c # cs) =
     (if c = CHR 0x27 then find_terminator (\<not> in_string) cs
      else if c = CHR '';'' \<and> \<not> in_string then True
      else find_terminator in_string cs)"

definition prompt :: "bool \<Rightarrow> string" where
  "prompt first_line = (if first_line then ''minidb> '' else ''    ...> '')"

fun repl_loop :: "string list \<Rightarrow> string \<Rightarrow> bool \<Rightarrow> string \<Rightarrow> Database \<Rightarrow> (string \<times> Database) option" where
  "repl_loop [] buffer first_line out db = Some (out @ prompt first_line, db)"
| "repl_loop (line # lines) buffer first_line out db =
     (let out1 = out @ prompt first_line
      in if first_line \<and> (line = ''.exit'' \<or> line = ''.quit'') then Some (out1, db)
         else let buffer1 = buffer @ line @ [CHR 0x0A]
              in if find_terminator False line
                 then Option.bind (ProcessStatement buffer1 db) (\<lambda>(output, db1).
                        repl_loop lines [] True (out1 @ (if output \<noteq> [] then output @ [CHR 0x0A] else [])) db1)
                 else repl_loop lines buffer1 False out1 db)"

definition Repl_Run :: "string list \<Rightarrow> Database \<Rightarrow> (string \<times> Database) option" where
  "Repl_Run lines db =
     map_option (\<lambda>(out, db'). (out, Database_FlushAll db'))
       (repl_loop lines [] True
          (''MiniDB -- type SQL statements ending in '' @ [CHR 0x27] @ '';'' @ [CHR 0x27] @ '', or .exit to quit.'' @ [CHR 0x0A]) db)"

end
