(* ===== verification/Tcp_Server.thy ===== *)
theory Tcp_Server
  imports Protocol Repl
begin

text \<open>
  The loop of the server over the requests of one connection (\<open>TCPServer::HandleConnection\<close> of
  \<open>src/network/tcp_server.cpp\<close>). The list of polls says what the head of the loop sees: that the server is
  stopping, that the socket is not readable yet, or that it is; after the list it is always readable.
  Statements are executed under a mutex, so one call is one step on the database.
\<close>

datatype poll = Stopping | NotReadable | Readable

partial_function (option) TCPServer_HandleConnection :: "poll list \<Rightarrow> Socket \<Rightarrow> Database \<Rightarrow> (Socket \<times> Database) option" where
  [code]: "TCPServer_HandleConnection polls s db =
     (if polls \<noteq> [] \<and> hd polls = Stopping then Some (s, db)
      else if polls \<noteq> [] \<and> hd polls = NotReadable then TCPServer_HandleConnection (tl polls) s db
      else case ReadFrame s of
          (Inl _, s1) \<Rightarrow> Some (s1, db)
        | (Inr request, s1) \<Rightarrow>
            (case ParseSQL request of
               Inl e \<Rightarrow> TCPServer_HandleConnection (tl polls) (snd (WriteResponse False (status_message e) s1)) db
             | Inr stmt \<Rightarrow>
                 (case Executor_Execute stmt db of
                    None \<Rightarrow> None
                  | Some (Inl e, db1) \<Rightarrow> TCPServer_HandleConnection (tl polls) (snd (WriteResponse False (status_message e) s1)) db1
                  | Some (Inr result, db1) \<Rightarrow>
                      TCPServer_HandleConnection (tl polls) (snd (WriteResponse True (FormatQueryResult result) s1)) db1)))"

section \<open>Requests and replies\<close>

text \<open>The reply to one request, and to a sequence of requests.\<close>

definition reply :: "string \<Rightarrow> Database \<Rightarrow> ((bool \<times> string) \<times> Database) option" where
  "reply sql db =
     (case ParseSQL sql of
        Inl e \<Rightarrow> Some ((False, status_message e), db)
      | Inr stmt \<Rightarrow>
          map_option (\<lambda>(r, db1). (case r of Inl e \<Rightarrow> (False, status_message e) | Inr result \<Rightarrow> (True, FormatQueryResult result), db1))
            (Executor_Execute stmt db))"

fun replies :: "string list \<Rightarrow> Database \<Rightarrow> ((bool \<times> string) list \<times> Database) option" where
  "replies [] db = Some ([], db)"
| "replies (sql # sqls) db =
     Option.bind (reply sql db) (\<lambda>(r, db1). map_option (\<lambda>(rs, db2). (r # rs, db2)) (replies sqls db1))"

lemma HandleConnection_request:
  assumes s: "live s" "so_in s = frame_bytes sql @ rest" "length sql \<le> kMaxFrameSize" and r: "reply sql db = Some (r, db1)"
  obtains s1 where "TCPServer_HandleConnection [] s db = TCPServer_HandleConnection [] s1 db1" "live s1" "so_in s1 = rest"
    "so_out s1 = so_out s @ response_bytes (fst r) (snd r)"
proof -
  obtain s0 where f: "ReadFrame s = (Inr sql, s0)" "so_in s0 = rest" "live s0" "so_out s0 = so_out s" using ReadFrame_live [OF s] by blast
  obtain s1 where w: "WriteResponse (fst r) (snd r) s0 = (Status_OK, s1)" "so_out s1 = so_out s0 @ response_bytes (fst r) (snd r)" "live s1" "so_in s1 = so_in s0"
    using WriteResponse_live [OF f(3)] by blast
  have "TCPServer_HandleConnection [] s db = TCPServer_HandleConnection [] s1 db1"
  proof (cases "ParseSQL sql")
    case (Inl e)
    then have "r = (False, status_message e)" "db1 = db" using r by (simp_all add: reply_def)
    then show ?thesis using f(1) w(1) Inl by (subst TCPServer_HandleConnection.simps) simp
  next
    case (Inr stmt)
    then obtain q where q: "Executor_Execute stmt db = Some (q, db1)"
      "r = (case q of Inl e \<Rightarrow> (False, status_message e) | Inr result \<Rightarrow> (True, FormatQueryResult result))"
      using r by (auto simp: reply_def)
    then show ?thesis using f(1) w(1) Inr by (cases q; subst TCPServer_HandleConnection.simps) simp_all
  qed
  with that w f show thesis by simp
qed

text \<open>
  C39. A client that sends statements and closes the connection gets the reply to each of them, in
  order, and the database is the one after executing them in order, however transfers are split or
  interrupted; and the loop ends.
\<close>

theorem connection_served:
  assumes "live s" and "so_in s = concat (map frame_bytes sqls)" and "\<forall>sql \<in> set sqls. length sql \<le> kMaxFrameSize"
    and "replies sqls db = Some (rs, db')"
  shows "\<exists>s'. TCPServer_HandleConnection [] s db = Some (s', db') \<and>
    so_out s' = so_out s @ concat (map (\<lambda>(ok, text). response_bytes ok text) rs)"
  using assms
proof (induction sqls arbitrary: s db rs)
  case Nil
  have "length (so_in s) < 4" using Nil(2) by simp
  from read_loop_short [OF Nil(1) this, of "[]"] obtain s1 where "ReadAll 4 s = (None, s1)" "so_out s1 = so_out s" by (auto simp: ReadAll_def)
  then show ?case using Nil(4) by (subst TCPServer_HandleConnection.simps) (simp add: ReadFrame_def)
next
  case (Cons sql sqls)
  then obtain r db1 rs1 where r: "reply sql db = Some (r, db1)" "replies sqls db1 = Some (rs1, db')" "rs = r # rs1"
    by (auto simp: bind_eq_Some_conv)
  obtain s1 where s1: "TCPServer_HandleConnection [] s db = TCPServer_HandleConnection [] s1 db1" "live s1" "so_in s1 = concat (map frame_bytes sqls)"
    "so_out s1 = so_out s @ response_bytes (fst r) (snd r)"
    by (rule HandleConnection_request [OF Cons(2) _ _ r(1), of "concat (map frame_bytes sqls)"]) (use Cons in auto)
  from Cons.IH [OF s1(2,3) _ r(2)] Cons(4) s1(1,4) r(3) show ?case by (auto simp: case_prod_beta)
qed

text \<open>A new database: the first request creates a table, the second is not a statement.\<close>

lemma parsed_requests:
  "ParseSQL ''CREATE TABLE t (a INT)'' =
     Inr (CreateTableStmt ''t'' [\<lparr>col_name = ''a'', col_type = ColumnType.kInt, col_nullable = True, col_max_length = 255\<rparr>])"
  "ParseSQL ''DROP'' = Inl \<lparr>status_code = kInvalidArgument, status_message = ''expected TABLE or INDEX after DROP, got <end of input>''\<rparr>"
  by code_simp+

theorem connection_served_witness:
  "\<exists>db s' db'. Database_new (ReadWrite, None, []) (ReadWrite, None, []) (ReadWrite, None, []) = Some db \<and>
     TCPServer_HandleConnection [] (demo_socket (frame_bytes ''CREATE TABLE t (a INT)'' @ frame_bytes ''DROP'')) db = Some (s', db') \<and>
     so_out s' = response_bytes True ''CREATE TABLE'' @ response_bytes False ''expected TABLE or INDEX after DROP, got <end of input>''"
proof -
  obtain db P where db: "Database_new (ReadWrite, None, []) (ReadWrite, None, []) (ReadWrite, None, []) = Some db" "db_holds db P Map.empty"
    "bp_avail (tb_data_pool db) = 2 ^ 31 - 2" "bp_avail (tb_catalog_pool db) = 2 ^ 31 - 4" by (rule new_database) (rule that; assumption)
  let ?sch = "[\<lparr>col_name = ''a'', col_type = ColumnType.kInt, col_nullable = True, col_max_length = 255\<rparr>]"
  have hold: "tables_hold db P Map.empty" "0 < bp_avail (tb_data_pool db)" "0 < bp_avail (tb_catalog_pool db)"
    using db by (simp_all add: db_holds_def)
  obtain st db' where c: "TableManager_CreateTable ''t'' ?sch db = Some (st, db')"
    "\<not> Status_ok st \<Longrightarrow> Map.empty ''t'' \<noteq> None \<or> 4068 < length ''t'' + length (concat (map encode_column ?sch))"
    by (rule CreateTable_table [where n = "''t''" and sch = ?sch, OF hold]) (rule that, assumption, blast)
  have "Status_ok st" using c(2) by (auto simp: encode_column_def append_string_def)
  with c(1) have "replies [''CREATE TABLE t (a INT)'', ''DROP''] db =
    Some ([(True, ''CREATE TABLE''), (False, ''expected TABLE or INDEX after DROP, got <end of input>'')], db')"
    by (simp add: reply_def parsed_requests Executor_Execute_def ExecuteCreateTable_def FormatQueryResult_def QueryResult_new_def)
  from connection_served [OF _ _ _ this, of "demo_socket (frame_bytes ''CREATE TABLE t (a INT)'' @ frame_bytes ''DROP'')"] db(1)
  show ?thesis by (auto simp: demo_socket_def live_def kMaxFrameSize_def)
qed

end
