(* ===== verification/Index_Forest.thy ===== *)
theory Index_Forest
  imports Executor
begin

text \<open>
  The index file: the trees of all indexes live in one buffer pool, on pages of their own.
  \<open>forest bp M F N\<close>: for each index \<open>n\<close> of the catalog \<open>M\<close>, the pool holds the tree \<open>F n\<close>, and there is room for \<open>N\<close>
  more insertions into any of them.
\<close>

definition tree_pages :: "IndexMetadata \<Rightarrow> btree \<Rightarrow> page_id_t set" where
  "tree_pages m t = insert (im_meta_page_id m) (set (bt_pages t))"

definition forest_wf :: "(page_id_t \<Rightarrow> Page option) \<Rightarrow> (string \<rightharpoonup> IndexMetadata) \<Rightarrow> (string \<Rightarrow> btree) \<Rightarrow> nat \<Rightarrow> bool" where
  "forest_wf v M F H \<longleftrightarrow>
     (\<forall>n m. M n = Some m \<longrightarrow> (\<exists>h \<le> H. index_wf (im_meta_page_id m) v h (F n))) \<and>
     (\<forall>n n' m m'. M n = Some m \<longrightarrow> M n' = Some m' \<longrightarrow> n \<noteq> n' \<longrightarrow> tree_pages m (F n) \<inter> tree_pages m' (F n') = {})"

definition forest :: "BufferPool \<Rightarrow> (string \<rightharpoonup> IndexMetadata) \<Rightarrow> (string \<Rightarrow> btree) \<Rightarrow> nat \<Rightarrow> bool" where
  "forest bp M F N \<longleftrightarrow> pool.ready bp \<and> pool_room bp 3 \<and> (\<exists>H. forest_wf (bp_view bp) M F H \<and> N * (H + N + 3) \<le> bp_avail bp)"

lemma forest_wfD:
  assumes "forest_wf v M F H" "M n = Some m"
  obtains h where "h \<le> H" "index_wf (im_meta_page_id m) v h (F n)"
  using assms unfolding forest_wf_def by blast

lemma forest_disjoint:
  "forest_wf v M F H \<Longrightarrow> M n = Some m \<Longrightarrow> M n' = Some m' \<Longrightarrow> n \<noteq> n' \<Longrightarrow> tree_pages m (F n) \<inter> tree_pages m' (F n') = {}"
  unfolding forest_wf_def by blast

lemma tree_page_mapped: "index_wf (im_meta_page_id m) v h t \<Longrightarrow> q \<in> tree_pages m t \<Longrightarrow> v q \<noteq> None"
  using bt_pages_mapped(1) [of v None None kInvalidPageId t] by (auto simp: index_wf_def tree_pages_def)

lemma index_frame:
  assumes "index_wf meta v h t" "\<And>q. q \<in> insert meta (set (bt_pages t)) \<Longrightarrow> v' q = v q"
  shows "index_wf meta v' h t"
  using assms bt_frame(1) [of t v' v None None kInvalidPageId] by (simp add: index_wf_def)

lemma forest_mono: "forest_wf v M F H \<Longrightarrow> H \<le> H' \<Longrightarrow> forest_wf v M F H'"
  unfolding forest_wf_def by (meson order_trans)

text \<open>A step of one tree leaves the others alone.\<close>

lemma forest_step:
  assumes f: "forest_wf v M F H" and n: "M n = Some m"
    and s: "index_step (im_meta_page_id m) v (F n) v' t'" "index_wf (im_meta_page_id m) v' h' t'" "h' \<le> H"
  shows "forest_wf v' M (F(n := t')) H"
proof -
  have old: "q \<in> tree_pages m (F n) \<or> v q = None" if "q \<in> tree_pages m t'" for q
    using that s(1) by (auto simp: index_step_def tree_pages_def)
  have other: "tree_pages m t' \<inter> tree_pages k (F j) = {}" "\<exists>h \<le> H. index_wf (im_meta_page_id k) v' h (F j)" if j: "M j = Some k" "j \<noteq> n" for j k
  proof -
    obtain h where h: "h \<le> H" "index_wf (im_meta_page_id k) v h (F j)" by (rule forest_wfD [OF f j(1)])
    have d: "tree_pages m (F n) \<inter> tree_pages k (F j) = {}" using forest_disjoint [OF f n j(1)] j(2) by blast
    show "tree_pages m t' \<inter> tree_pages k (F j) = {}" using old d tree_page_mapped [OF h(2)] by blast
    have "v' q = v q" if "q \<in> tree_pages k (F j)" for q
      using s(1) d tree_page_mapped [OF h(2) that] that by (auto simp: index_step_def tree_pages_def)
    from index_frame [OF h(2), of v'] this h(1) show "\<exists>h \<le> H. index_wf (im_meta_page_id k) v' h (F j)" by (auto simp: tree_pages_def)
  qed
  show ?thesis unfolding forest_wf_def
  proof (intro conjI allI impI)
    show "\<exists>h \<le> H. index_wf (im_meta_page_id k) v' h ((F(n := t')) j)" if "M j = Some k" for j k
      using that n s(2,3) other(2) [of j k] by (cases "j = n") auto
    show "tree_pages k ((F(n := t')) j) \<inter> tree_pages k' ((F(n := t')) j') = {}" if "M j = Some k" "M j' = Some k'" "j \<noteq> j'" for j j' k k'
      using that n other(1) [of j k] other(1) [of j' k'] forest_disjoint [OF f, of j k j' k'] by (cases "j = n"; cases "j' = n") auto
  qed
qed

lemma forest_open:
  assumes "forest bp M F N" "M n = Some m"
  shows "BPlusTree_new (im_meta_page_id m) bp = Some (im_meta_page_id m, bp)"
proof -
  obtain H where f: "pool.ready bp" "forest_wf (bp_view bp) M F H" using assms(1) by (auto simp: forest_def)
  obtain h where "index_wf (im_meta_page_id m) (bp_view bp) h (F n)" by (rule forest_wfD [OF f(2) assms(2)])
  then have "bp_view bp (im_meta_page_id m) \<noteq> None" by (auto simp: index_wf_def)
  then have "unat (im_meta_page_id m) < pm_page_count (bp_page_manager bp)" by (simp only: mapped_iff)
  then have "unat (im_meta_page_id m) < 2 ^ 31" using page_count_avail(1) [OF f(1)] by simp
  then have "im_meta_page_id m \<noteq> kInvalidPageId" by (auto simp: kInvalidPageId_def unsigned_minus_1_eq_mask mask_eq_exp_minus_1)
  then show ?thesis by (simp add: BPlusTree_new_def)
qed

lemma forest_insert:
  assumes "forest bp M F (Suc N)" and n: "M n = Some m" and few: "few_equal (bt_entries (F n))"
  obtains bp' t' where "BPlusTree_Insert (im_meta_page_id m) key rid bp = Some (Status_OK, bp')" "forest bp' M (F(n := t')) N"
    "bt_entries t' = ins_entry key rid (bt_entries (F n))"
proof -
  obtain H where f: "pool.ready bp" "pool_room bp 3" "forest_wf (bp_view bp) M F H" "Suc N * (H + Suc N + 3) \<le> bp_avail bp"
    using assms(1) by (auto simp: forest_def)
  obtain h where h: "h \<le> H" "index_wf (im_meta_page_id m) (bp_view bp) h (F n)" by (rule forest_wfD [OF f(3) n])
  have "h + 3 \<le> bp_avail bp" using f(4) h(1) by simp
  from f(1,2) h(2) few this obtain bp' h' t' where i: "BPlusTree_Insert (im_meta_page_id m) key rid bp = Some (Status_OK, bp')"
    "pool_to bp (bp_view bp') (bp_avail bp') bp'" "bp_avail bp \<le> bp_avail bp' + h + 3" "h' \<le> Suc h" "index_wf (im_meta_page_id m) (bp_view bp') h' t'"
    "bt_entries t' = ins_entry key rid (bt_entries (F n))" "index_step (im_meta_page_id m) (bp_view bp) (F n) (bp_view bp') t'"
    by (rule Insert_index)
  have w: "forest_wf (bp_view bp') M (F(n := t')) (Suc H)"
    using forest_step [OF forest_mono [OF f(3), of "Suc H"] n i(7,5)] i(4) h(1) by simp
  have "N * (Suc H + N + 3) + (H + Suc N + 3) \<le> bp_avail bp" using f(4) by simp
  then have "N * (Suc H + N + 3) \<le> bp_avail bp'" using i(3) h(1) by simp
  with w pool_toD(1) [OF i(2)] pool_room_to [OF i(2)] f(2) have "forest bp' M (F(n := t')) N" by (auto simp: forest_def)
  with that i(1,6) show thesis by blast
qed

lemma forest_delete:
  assumes "forest bp M F N" and n: "M n = Some m"
  obtains st bp' t' where "BPlusTree_Delete (im_meta_page_id m) key rid bp = Some (st, bp')" "forest bp' M (F(n := t')) N"
    "bt_entries t' = remove1 (key, rid) (bt_entries (F n))"
proof -
  obtain H where f: "pool.ready bp" "pool_room bp 3" "forest_wf (bp_view bp) M F H" "N * (H + N + 3) \<le> bp_avail bp"
    using assms(1) by (auto simp: forest_def)
  obtain h where h: "h \<le> H" "index_wf (im_meta_page_id m) (bp_view bp) h (F n)" by (rule forest_wfD [OF f(3) n])
  obtain st bp' t' where d: "BPlusTree_Delete (im_meta_page_id m) key rid bp = Some (st, bp')"
    "pool_to bp (bp_view bp') (bp_avail bp) bp'" "index_wf (im_meta_page_id m) (bp_view bp') h t'" "bt_entries t' = remove1 (key, rid) (bt_entries (F n))"
    "index_step (im_meta_page_id m) (bp_view bp) (F n) (bp_view bp') t'"
    by (rule Delete_index [OF f(1) h(2)])
  have "forest bp' M (F(n := t')) N"
    using forest_step [OF f(3) n d(5,3) h(1)] pool_toD [OF d(2)] pool_room_to [OF d(2)] f(2,4) by (auto simp: forest_def)
  with that d(1,4) show thesis by blast
qed

text \<open>A new, empty tree.\<close>

lemma forest_new:
  assumes "forest bp M F (Suc N)" "M n = None"
  obtains meta root bp' where "BPlusTree_new kInvalidPageId bp = Some (meta, bp')"
    "\<And>m. im_meta_page_id m = meta \<Longrightarrow> forest bp' (M(n \<mapsto> m)) (F(n := BLeaf root [])) N"
proof -
  obtain H where f: "pool.ready bp" "pool_room bp 3" "forest_wf (bp_view bp) M F H" "Suc N * (H + Suc N + 3) \<le> bp_avail bp"
    using assms(1) by (auto simp: forest_def)
  have "pool_room bp 2" "2 \<le> bp_avail bp" using f(2,4) by (simp_all add: pool_room_def)
  from f(1) this obtain meta root bp' where r: "BPlusTree_new kInvalidPageId bp = Some (meta, bp')"
    "pool_to bp (bp_view bp') (bp_avail bp - 2) bp'" "index_wf meta (bp_view bp') 0 (BLeaf root [])" "bp_view bp meta = None" "bp_view bp root = None"
    "\<And>q. q \<noteq> meta \<Longrightarrow> q \<noteq> root \<Longrightarrow> bp_view bp' q = bp_view bp q" by (rule new_index) blast
  have "forest bp' (M(n \<mapsto> m)) (F(n := BLeaf root [])) N" if m: "im_meta_page_id m = meta" for m
  proof -
    have other: "tree_pages m (BLeaf root []) \<inter> tree_pages k (F j) = {}" "\<exists>h \<le> H. index_wf (im_meta_page_id k) (bp_view bp') h (F j)" if j: "M j = Some k" for j k
    proof -
      obtain h where h: "h \<le> H" "index_wf (im_meta_page_id k) (bp_view bp) h (F j)" by (rule forest_wfD [OF f(3) j])
      have ne: "q \<noteq> meta" "q \<noteq> root" if "q \<in> tree_pages k (F j)" for q using tree_page_mapped [OF h(2) that] r(4,5) by auto
      then show "tree_pages m (BLeaf root []) \<inter> tree_pages k (F j) = {}" using m by (auto simp: tree_pages_def)
      from index_frame [OF h(2), of "bp_view bp'"] r(6) ne h(1)
      show "\<exists>h \<le> H. index_wf (im_meta_page_id k) (bp_view bp') h (F j)" by (auto simp: tree_pages_def)
    qed
    have "forest_wf (bp_view bp') (M(n \<mapsto> m)) (F(n := BLeaf root [])) H" unfolding forest_wf_def
    proof (intro conjI allI impI)
      show "\<exists>h \<le> H. index_wf (im_meta_page_id k) (bp_view bp') h ((F(n := BLeaf root [])) j)" if "(M(n \<mapsto> m)) j = Some k" for j k
        using that r(3) m other(2) [of j k] by (cases "j = n") auto
      show "tree_pages k ((F(n := BLeaf root [])) j) \<inter> tree_pages k' ((F(n := BLeaf root [])) j') = {}"
        if "(M(n \<mapsto> m)) j = Some k" "(M(n \<mapsto> m)) j' = Some k'" "j \<noteq> j'" for j j' k k'
        using that other(1) [of j k] other(1) [of j' k'] forest_disjoint [OF f(3), of j k j' k'] by (cases "j = n"; cases "j' = n") auto
    qed
    moreover have "N * (H + N + 3) + (H + Suc N + 3) \<le> Suc N * (H + Suc N + 3)" by simp
    then have "N * (H + N + 3) \<le> bp_avail bp'" using f(4) pool_toD(3) [OF r(2)] by linarith
    ultimately show ?thesis using pool_toD(1) [OF r(2)] pool_room_to [OF r(2)] f(2) by (auto simp: forest_def)
  qed
  with that r(1) show thesis by blast
qed

lemma forest_wf_drop: "forest_wf v M F H \<Longrightarrow> forest_wf v (M(n := None)) F H"
  unfolding forest_wf_def by (auto split: if_splits)

lemma forest_drop: "forest bp M F N \<Longrightarrow> forest bp (M(n := None)) F N"
  unfolding forest_def by (blast intro: forest_wf_drop)

lemma forest_less: "forest bp M F N \<Longrightarrow> N' \<le> N \<Longrightarrow> forest bp M F N'"
  unfolding forest_def by (meson add_le_mono1 add_left_mono le_trans mult_le_mono)

section \<open>Maintenance of the indexes of a table\<close>

text \<open>The entries of an index after a row has been added or removed.\<close>

definition with_row :: "Schema \<Rightarrow> Value list \<Rightarrow> RecordId \<Rightarrow> IndexMetadata \<Rightarrow> (Key \<times> RecordId) list \<Rightarrow> (Key \<times> RecordId) list" where
  "with_row sch row rid m es = (case index_key sch row m of None \<Rightarrow> es | Some k \<Rightarrow> ins_entry k rid es)"

definition without_row :: "Schema \<Rightarrow> Value list \<Rightarrow> RecordId \<Rightarrow> IndexMetadata \<Rightarrow> (Key \<times> RecordId) list \<Rightarrow> (Key \<times> RecordId) list" where
  "without_row sch row rid m es = (case index_key sch row m of None \<Rightarrow> es | Some k \<Rightarrow> remove1 (k, rid) es)"

lemma insert_into_indexes_forest:
  assumes "forest bp M F (length ps + N)" "\<And>n m. (n, m) \<in> set ps \<Longrightarrow> M n = Some m \<and> few_equal (bt_entries (F n))" "distinct (map fst ps)"
  shows "\<exists>bp' F'. insert_into_indexes sch row rid (map snd ps) bp = Some bp' \<and> forest bp' M F' N \<and>
    (\<forall>n. bt_entries (F' n) = (case map_of ps n of None \<Rightarrow> bt_entries (F n) | Some m \<Rightarrow> with_row sch row rid m (bt_entries (F n))))"
  using assms
proof (induction ps arbitrary: bp F)
  case (Cons p ps)
  obtain n m where p: "p = (n, m)" by fastforce
  have n: "M n = Some m" "few_equal (bt_entries (F n))" "map_of ps n = None" using Cons.prems(2,3) p by (auto simp: map_of_eq_None_iff)
  have f: "forest bp M F (Suc (length ps + N))" using Cons.prems(1) by simp
  show ?case
  proof (cases "index_key sch row m")
    case None
    have "forest bp M F (length ps + N)" by (rule forest_less [OF f]) simp
    from Cons.IH [OF this] Cons.prems(2,3) obtain bp' F' where r: "insert_into_indexes sch row rid (map snd ps) bp = Some bp'" "forest bp' M F' N"
      "\<forall>n. bt_entries (F' n) = (case map_of ps n of None \<Rightarrow> bt_entries (F n) | Some m \<Rightarrow> with_row sch row rid m (bt_entries (F n)))" by auto
    have "bt_entries (F' j) = (case map_of (p # ps) j of None \<Rightarrow> bt_entries (F j) | Some m \<Rightarrow> with_row sch row rid m (bt_entries (F j)))" for j
      using r(3) n(3) p None by (cases "j = n") (simp_all add: with_row_def)
    with r(1,2) None p show ?thesis by auto
  next
    case (Some k)
    obtain bp1 t1 where i: "BPlusTree_Insert (im_meta_page_id m) k rid bp = Some (Status_OK, bp1)" "forest bp1 M (F(n := t1)) (length ps + N)"
      "bt_entries t1 = ins_entry k rid (bt_entries (F n))" by (rule forest_insert [OF f n(1,2)])
    have "n \<notin> fst ` set ps" using Cons.prems(3) p by simp
    then have few: "M j = Some k' \<and> few_equal (bt_entries ((F(n := t1)) j))" if "(j, k') \<in> set ps" for j k'
      using Cons.prems(2) [of j k'] that by force
    from Cons.IH [OF i(2) few] Cons.prems(3) obtain bp' F' where r: "insert_into_indexes sch row rid (map snd ps) bp1 = Some bp'" "forest bp' M F' N"
      "\<forall>j. bt_entries (F' j) = (case map_of ps j of None \<Rightarrow> bt_entries ((F(n := t1)) j) | Some m \<Rightarrow> with_row sch row rid m (bt_entries ((F(n := t1)) j)))"
      by auto
    have "bt_entries (F' j) = (case map_of (p # ps) j of None \<Rightarrow> bt_entries (F j) | Some m \<Rightarrow> with_row sch row rid m (bt_entries (F j)))" for j
      using r(3) n(3) p Some i(3) by (cases "j = n"; cases "map_of ps j") (simp_all add: with_row_def)
    with r(1,2) Some p i(1) forest_open [OF f n(1)] show ?thesis by auto
  qed
qed auto

lemma delete_from_indexes_forest:
  assumes "forest bp M F N" "\<And>n m. (n, m) \<in> set ps \<Longrightarrow> M n = Some m" "distinct (map fst ps)"
  shows "\<exists>bp' F'. delete_from_indexes sch row rid (map snd ps) bp = Some bp' \<and> forest bp' M F' N \<and>
    (\<forall>n. bt_entries (F' n) = (case map_of ps n of None \<Rightarrow> bt_entries (F n) | Some m \<Rightarrow> without_row sch row rid m (bt_entries (F n))))"
  using assms
proof (induction ps arbitrary: bp F)
  case (Cons p ps)
  obtain n m where p: "p = (n, m)" by fastforce
  have n: "M n = Some m" "map_of ps n = None" using Cons.prems(2,3) p by (auto simp: map_of_eq_None_iff)
  note f = Cons.prems(1)
  show ?case
  proof (cases "index_key sch row m")
    case None
    from Cons.IH [OF f] Cons.prems(2,3) obtain bp' F' where r: "delete_from_indexes sch row rid (map snd ps) bp = Some bp'" "forest bp' M F' N"
      "\<forall>n. bt_entries (F' n) = (case map_of ps n of None \<Rightarrow> bt_entries (F n) | Some m \<Rightarrow> without_row sch row rid m (bt_entries (F n)))" by auto
    have "bt_entries (F' j) = (case map_of (p # ps) j of None \<Rightarrow> bt_entries (F j) | Some m \<Rightarrow> without_row sch row rid m (bt_entries (F j)))" for j
      using r(3) n(2) p None by (cases "j = n") (simp_all add: without_row_def)
    with r(1,2) None p show ?thesis by auto
  next
    case (Some k)
    obtain st bp1 t1 where i: "BPlusTree_Delete (im_meta_page_id m) k rid bp = Some (st, bp1)" "forest bp1 M (F(n := t1)) N"
      "bt_entries t1 = remove1 (k, rid) (bt_entries (F n))" by (rule forest_delete [OF f n(1)])
    from Cons.IH [OF i(2)] Cons.prems(2,3) obtain bp' F' where r: "delete_from_indexes sch row rid (map snd ps) bp1 = Some bp'" "forest bp' M F' N"
      "\<forall>j. bt_entries (F' j) = (case map_of ps j of None \<Rightarrow> bt_entries ((F(n := t1)) j) | Some m \<Rightarrow> without_row sch row rid m (bt_entries ((F(n := t1)) j)))"
      by auto
    have "bt_entries (F' j) = (case map_of (p # ps) j of None \<Rightarrow> bt_entries (F j) | Some m \<Rightarrow> without_row sch row rid m (bt_entries (F j)))" for j
      using r(3) n(2) p Some i(3) by (cases "j = n"; cases "map_of ps j") (simp_all add: without_row_def)
    with r(1,2) Some p i(1) forest_open [OF f n(1)] show ?thesis by auto
  qed
qed auto

section \<open>Indexes that agree with their tables\<close>

definition indexed :: "Schema \<Rightarrow> (RecordId \<rightharpoonup> Value list) \<Rightarrow> IndexMetadata \<Rightarrow> (Key \<times> RecordId) list \<Rightarrow> bool" where
  "indexed sch rows m es \<longleftrightarrow>
     (\<exists>i. Schema_IndexOf sch (im_column_name m) = Some i \<and> (col_type (sch ! i) = ColumnType.kInt \<or> col_type (sch ! i) = ColumnType.kBigInt)) \<and>
     distinct es \<and> set es = {(k, rid). \<exists>vs. rows rid = Some vs \<and> index_key sch vs m = Some k}"

definition coherent :: "contents \<Rightarrow> (string \<rightharpoonup> IndexMetadata) \<Rightarrow> (string \<Rightarrow> btree) \<Rightarrow> bool" where
  "coherent T M F \<longleftrightarrow>
     (\<forall>n m sch rows. M n = Some m \<longrightarrow> T (im_table_name m) = Some (sch, rows) \<longrightarrow> indexed sch rows m (bt_entries (F n)))"

lemma coherentD: "coherent T M F \<Longrightarrow> M n = Some m \<Longrightarrow> T (im_table_name m) = Some (sch, rows) \<Longrightarrow> indexed sch rows m (bt_entries (F n))"
  unfolding coherent_def by blast

lemma distinct_ins_entry:
  assumes "(k, rid) \<notin> set es" "distinct es"
  shows "distinct (ins_entry k rid es)"
proof -
  let ?a = "takeWhile (\<lambda>e. ekey e < sint k) es" and ?b = "dropWhile (\<lambda>e. ekey e < sint k) es"
  have "distinct (?a @ ?b)" "(k, rid) \<notin> set (?a @ ?b)" using assms unfolding takeWhile_dropWhile_id by simp_all
  then show ?thesis unfolding ins_entry_def distinct_append set_append by auto
qed

lemma indexed_insert:
  assumes "indexed sch rows m es" "rows rid = None"
  shows "indexed sch (rows(rid \<mapsto> vs)) m (with_row sch vs rid m es)"
proof (cases "index_key sch vs m")
  case None
  then show ?thesis using assms by (auto simp: indexed_def with_row_def split: if_splits)
next
  case (Some k)
  have "(k, rid) \<notin> set es" using assms by (auto simp: indexed_def)
  with Some assms show ?thesis
    by (auto simp: indexed_def with_row_def set_ins_entry distinct_ins_entry split: if_splits)
qed

lemma indexed_delete:
  assumes "indexed sch rows m es" "rows rid = Some vs"
  shows "indexed sch (rows(rid := None)) m (without_row sch vs rid m es)"
proof (cases "index_key sch vs m")
  case None
  then show ?thesis using assms by (auto simp: indexed_def without_row_def split: if_splits)
next
  case (Some k)
  have "set (remove1 (k, rid) es) = set es - {(k, rid)}" using assms(1) by (simp add: indexed_def set_remove1_eq)
  with Some assms show ?thesis by (auto simp: indexed_def without_row_def split: if_splits)
qed

text \<open>The number of rows with one key, and how many more an index takes before a leaf could be full of it.\<close>

definition key_room :: "nat \<Rightarrow> Schema \<Rightarrow> (RecordId \<rightharpoonup> Value list) \<Rightarrow> IndexMetadata \<Rightarrow> bool" where
  "key_room j sch rows m \<longleftrightarrow> (\<forall>k. card {rid. \<exists>vs. rows rid = Some vs \<and> index_key sch vs m = Some k} + j \<le> kLeafMaxKeys)"

lemma entries_count:
  assumes "indexed sch rows m es"
  shows "length (filter (\<lambda>e. fst e = k) es) = card {rid. \<exists>vs. rows rid = Some vs \<and> index_key sch vs m = Some k}"
proof -
  have d: "distinct (filter (\<lambda>e. fst e = k) es)" "set es = {(k, rid). \<exists>vs. rows rid = Some vs \<and> index_key sch vs m = Some k}"
    using assms by (simp_all add: indexed_def)
  have "set (filter (\<lambda>e. fst e = k) es) = Pair k ` {rid. \<exists>vs. rows rid = Some vs \<and> index_key sch vs m = Some k}"
    using d(2) by auto
  then show ?thesis using distinct_card [OF d(1)] by (simp add: card_image inj_on_def)
qed

lemma key_room_few:
  assumes "indexed sch rows m es" "key_room (Suc j) sch rows m"
  shows "few_equal es"
  unfolding few_equal_def
proof
  fix k
  have "length (filter (\<lambda>e. fst e = k) es) + Suc j \<le> kLeafMaxKeys"
    using assms(2) unfolding key_room_def entries_count [OF assms(1), of k] by blast
  then show "length (filter (\<lambda>e. fst e = k) es) < kLeafMaxKeys" by linarith
qed

lemma indexed_finite: "indexed sch rows m es \<Longrightarrow> finite {rid. \<exists>vs. rows rid = Some vs \<and> index_key sch vs m = Some k}"
proof -
  assume "indexed sch rows m es"
  then have "{rid. \<exists>vs. rows rid = Some vs \<and> index_key sch vs m = Some k} \<subseteq> snd ` set es" by (force simp: indexed_def)
  then show ?thesis by (rule finite_subset) simp
qed

lemma key_room_insert:
  assumes "indexed sch rows m es" "key_room (Suc j) sch rows m"
  shows "key_room j sch (rows(rid \<mapsto> vs)) m"
  unfolding key_room_def
proof
  fix k
  let ?S = "{rid. \<exists>vs. rows rid = Some vs \<and> index_key sch vs m = Some k}"
  have "{r. \<exists>ws. (rows(rid \<mapsto> vs)) r = Some ws \<and> index_key sch ws m = Some k} \<subseteq> insert rid ?S" by auto
  then have "card {r. \<exists>ws. (rows(rid \<mapsto> vs)) r = Some ws \<and> index_key sch ws m = Some k} \<le> card (insert rid ?S)"
    using indexed_finite [OF assms(1), of k] by (intro card_mono) auto
  also have "\<dots> \<le> Suc (card ?S)" using indexed_finite [OF assms(1), of k] by (simp only: card_insert_if) simp
  finally have c: "card {r. \<exists>ws. (rows(rid \<mapsto> vs)) r = Some ws \<and> index_key sch ws m = Some k} \<le> Suc (card ?S)" .
  have "card ?S + Suc j \<le> kLeafMaxKeys" using assms(2) unfolding key_room_def by blast
  with c show "card {r. \<exists>ws. (rows(rid \<mapsto> vs)) r = Some ws \<and> index_key sch ws m = Some k} + j \<le> kLeafMaxKeys" by linarith
qed

lemma key_room_delete:
  assumes "indexed sch rows m es" "key_room j sch rows m"
  shows "key_room j sch (rows(rid := None)) m"
  unfolding key_room_def
proof
  fix k
  let ?S = "{rid. \<exists>vs. rows rid = Some vs \<and> index_key sch vs m = Some k}"
  have c: "card {r. \<exists>ws. (rows(rid := None)) r = Some ws \<and> index_key sch ws m = Some k} \<le> card ?S"
    using indexed_finite [OF assms(1), of k] by (intro card_mono) (auto split: if_splits)
  have "card ?S + j \<le> kLeafMaxKeys" using assms(2) unfolding key_room_def by blast
  with c show "card {r. \<exists>ws. (rows(rid := None)) r = Some ws \<and> index_key sch ws m = Some k} + j \<le> kLeafMaxKeys" by linarith
qed

end
