(* ===== verification/Statements.thy ===== *)
theory Statements
  imports Index_Forest
begin

text \<open>
  Statements that change rows, as changes of the contents of a table. \<open>exec_inv db P T F N\<close>: the tables hold \<open>T\<close>,
  each index holds exactly the entries for the rows of its table, and the index file has room for \<open>N\<close>
  more insertions.
\<close>

abbreviation db_indexes :: "Database \<Rightarrow> string \<rightharpoonup> IndexMetadata" where
  "db_indexes db \<equiv> map_of (cat_indexes (tb_catalog db))"

abbreviation index_count :: "Database \<Rightarrow> nat" where
  "index_count db \<equiv> length (cat_indexes (tb_catalog db))"

definition index_inv :: "CatalogManager \<Rightarrow> BufferPool \<Rightarrow> contents \<Rightarrow> (string \<Rightarrow> btree) \<Rightarrow> nat \<Rightarrow> bool" where
  "index_inv cm bp T F N \<longleftrightarrow> distinct (map fst (cat_indexes cm)) \<and> forest bp (map_of (cat_indexes cm)) F N \<and> coherent T (map_of (cat_indexes cm)) F"

definition exec_inv :: "Database \<Rightarrow> (string \<Rightarrow> page_id_t list) \<Rightarrow> contents \<Rightarrow> (string \<Rightarrow> btree) \<Rightarrow> nat \<Rightarrow> bool" where
  "exec_inv db P T F N \<longleftrightarrow> db_holds db P T \<and> index_inv (tb_catalog db) (db_index_pool db) T F N"

lemma index_invD:
  assumes "index_inv cm bp T F N"
  shows "distinct (map fst (cat_indexes cm))" "forest bp (map_of (cat_indexes cm)) F N" "coherent T (map_of (cat_indexes cm)) F"
  using assms by (simp_all add: index_inv_def)

lemma exec_invD:
  assumes "exec_inv db P T F N"
  shows "db_holds db P T" "tables_hold db P T" "index_inv (tb_catalog db) (db_index_pool db) T F N"
  using assms by (simp_all add: exec_inv_def db_holds_def)

lemma exec_inv_less: "exec_inv db P T F N \<Longrightarrow> M \<le> N \<Longrightarrow> exec_inv db P T F M"
  by (auto simp: exec_inv_def index_inv_def elim: forest_less)

text \<open>All indexes of a table have room for \<open>j\<close> more rows with the same key.\<close>

definition table_key_room :: "nat \<Rightarrow> CatalogManager \<Rightarrow> string \<Rightarrow> Schema \<Rightarrow> (RecordId \<rightharpoonup> Value list) \<Rightarrow> bool" where
  "table_key_room j cm t sch rows \<longleftrightarrow> (\<forall>i m. map_of (cat_indexes cm) i = Some m \<longrightarrow> im_table_name m = t \<longrightarrow> key_room j sch rows m)"

lemma table_key_room_less:
  assumes "table_key_room k cm t sch rows" "j \<le> k"
  shows "table_key_room j cm t sch rows"
proof -
  have "key_room k sch rows m \<Longrightarrow> key_room j sch rows m" for m
    unfolding key_room_def using assms(2) by (meson add_left_mono le_trans)
  with assms(1) show ?thesis unfolding table_key_room_def by blast
qed

lemma table_key_room_insert:
  assumes "index_inv cm bp T F N" "T t = Some (sch, rows)" "table_key_room (Suc j) cm t sch rows"
  shows "table_key_room j cm t sch (rows(rid \<mapsto> vs))"
  unfolding table_key_room_def
proof (intro allI impI)
  fix n m
  assume n: "map_of (cat_indexes cm) n = Some m" "im_table_name m = t"
  show "key_room j sch (rows(rid \<mapsto> vs)) m"
    by (rule key_room_insert [OF coherentD [OF index_invD(3) [OF assms(1)] n(1), unfolded n(2), OF assms(2)]]) (use assms(3) n in \<open>auto simp: table_key_room_def\<close>)
qed

lemma table_key_room_delete:
  assumes "index_inv cm bp T F N" "T t = Some (sch, rows)" "table_key_room j cm t sch rows"
  shows "table_key_room j cm t sch (rows(rid := None))"
  unfolding table_key_room_def
proof (intro allI impI)
  fix n m
  assume n: "map_of (cat_indexes cm) n = Some m" "im_table_name m = t"
  show "key_room j sch (rows(rid := None)) m"
    by (rule key_room_delete [OF coherentD [OF index_invD(3) [OF assms(1)] n(1), unfolded n(2), OF assms(2)]]) (use assms(3) n in \<open>auto simp: table_key_room_def\<close>)
qed

definition table_indexes :: "CatalogManager \<Rightarrow> string \<Rightarrow> (string \<times> IndexMetadata) list" where
  "table_indexes cm t = filter (\<lambda>p. im_table_name (snd p) = t) (cat_indexes cm)"

lemma GetIndexesForTable_eq: "CatalogManager_GetIndexesForTable t cm = map snd (table_indexes cm t)"
  by (simp add: CatalogManager_GetIndexesForTable_def table_indexes_def filter_map comp_def)

lemma table_indexes_props:
  assumes "distinct (map fst (cat_indexes cm))"
  shows "distinct (map fst (table_indexes cm t))" "length (table_indexes cm t) \<le> length (cat_indexes cm)"
    "(n, m) \<in> set (table_indexes cm t) \<longleftrightarrow> map_of (cat_indexes cm) n = Some m \<and> im_table_name m = t"
    "map_of (table_indexes cm t) n = (case map_of (cat_indexes cm) n of None \<Rightarrow> None | Some m \<Rightarrow> if im_table_name m = t then Some m else None)"
proof -
  show d: "distinct (map fst (table_indexes cm t))" unfolding table_indexes_def by (rule List.distinct_map_filter [OF assms])
  show "length (table_indexes cm t) \<le> length (cat_indexes cm)" by (simp add: table_indexes_def)
  have mem: "(n, m) \<in> set (table_indexes cm t) \<longleftrightarrow> map_of (cat_indexes cm) n = Some m \<and> im_table_name m = t" for n m
    using assms by (auto simp: table_indexes_def)
  show "(n, m) \<in> set (table_indexes cm t) \<longleftrightarrow> map_of (cat_indexes cm) n = Some m \<and> im_table_name m = t" by (rule mem)
  show "map_of (table_indexes cm t) n = (case map_of (cat_indexes cm) n of None \<Rightarrow> None | Some m \<Rightarrow> if im_table_name m = t then Some m else None)"
  proof (cases "map_of (table_indexes cm t) n")
    case None
    then have "(n, m) \<notin> set (table_indexes cm t)" for m by (force simp: map_of_eq_None_iff)
    then show ?thesis using None mem [of n] by (simp split: option.split)
  next
    case (Some m)
    then show ?thesis using map_of_SomeD [OF Some] mem [of n m] by simp
  qed
qed

text \<open>The indexes after a row has been added to, or removed from, a table.\<close>

lemma MaintainInsert:
  assumes inv: "index_inv cm ip T F (length (cat_indexes cm) + N)" and db: "tb_catalog db = cm" "db_index_pool db = ip" and t: "T t = Some (sch, rows)" "rows rid = None"
    and room: "table_key_room (Suc j) cm t sch rows"
  obtains bp F' where "MaintainIndexesOnInsert t sch vs rid db = Some (db\<lparr>db_index_pool := bp\<rparr>)"
    "index_inv cm bp (T(t \<mapsto> (sch, rows(rid \<mapsto> vs)))) F' N"
proof -
  note i = index_invD [OF inv] and p = table_indexes_props [OF index_invD(1) [OF inv]]
  let ?ps = "table_indexes cm t" and ?M = "map_of (cat_indexes cm)" and ?T = "T(t \<mapsto> (sch, rows(rid \<mapsto> vs)))"
  have f: "forest ip (?M) F (length ?ps + N)" by (rule forest_less [OF i(2)]) (use p(2) in simp)
  have few: "?M n = Some m \<and> few_equal (bt_entries (F n))" if "(n, m) \<in> set ?ps" for n m
  proof -
    have m: "?M n = Some m" "im_table_name m = t" using that p(3) by blast+
    from key_room_few [OF coherentD [OF i(3) m(1), unfolded m(2), OF t(1)]] room m show ?thesis by (auto simp: table_key_room_def)
  qed
  from insert_into_indexes_forest [where sch = sch and row = vs and rid = rid, OF f few p(1) [of t]] obtain bp F' where
    b: "insert_into_indexes sch vs rid (map snd ?ps) ip = Some bp" "forest bp (?M) F' N"
    "\<forall>n. bt_entries (F' n) = (case map_of ?ps n of None \<Rightarrow> bt_entries (F n) | Some m \<Rightarrow> with_row sch vs rid m (bt_entries (F n)))" by blast
  have "coherent ?T (?M) F'" unfolding coherent_def
  proof (intro allI impI)
    fix n m sch' rows'
    assume m: "?M n = Some m" "?T (im_table_name m) = Some (sch', rows')"
    show "indexed sch' rows' m (bt_entries (F' n))"
    proof (cases "im_table_name m = t")
      case True
      then have "indexed sch rows m (bt_entries (F n))" using coherentD [OF i(3) m(1)] t(1) by simp
      from indexed_insert [where rid = rid and vs = vs, OF this t(2)] show ?thesis using m True b(3) p(4) [of t n] by simp
    next
      case False
      then show ?thesis using coherentD [OF i(3) m(1), of sch' rows'] m b(3) p(4) [of t n] by simp
    qed
  qed
  moreover have "MaintainIndexesOnInsert t sch vs rid db = Some (db\<lparr>db_index_pool := bp\<rparr>)"
    using b(1) db by (simp add: MaintainIndexesOnInsert_def GetIndexesForTable_eq)
  ultimately show thesis using that [of bp F'] b(2) i(1) by (simp add: index_inv_def)
qed

lemma MaintainDelete:
  assumes inv: "index_inv cm ip T F N" and db: "tb_catalog db = cm" "db_index_pool db = ip" and t: "T t = Some (sch, rows)" "rows rid = Some vs"
  obtains bp F' where "MaintainIndexesOnDelete t sch vs rid db = Some (db\<lparr>db_index_pool := bp\<rparr>)"
    "index_inv cm bp (T(t \<mapsto> (sch, rows(rid := None)))) F' N"
proof -
  note i = index_invD [OF inv] and p = table_indexes_props [OF index_invD(1) [OF inv]]
  let ?ps = "table_indexes cm t" and ?M = "map_of (cat_indexes cm)" and ?T = "T(t \<mapsto> (sch, rows(rid := None)))"
  have mem: "?M n = Some m" if "(n, m) \<in> set ?ps" for n m using that p(3) by blast
  from delete_from_indexes_forest [where sch = sch and row = vs and rid = rid, OF i(2) mem p(1) [of t]] obtain bp F' where
    b: "delete_from_indexes sch vs rid (map snd ?ps) ip = Some bp" "forest bp (?M) F' N"
    "\<forall>n. bt_entries (F' n) = (case map_of ?ps n of None \<Rightarrow> bt_entries (F n) | Some m \<Rightarrow> without_row sch vs rid m (bt_entries (F n)))" by blast
  have "coherent ?T (?M) F'" unfolding coherent_def
  proof (intro allI impI)
    fix n m sch' rows'
    assume m: "?M n = Some m" "?T (im_table_name m) = Some (sch', rows')"
    show "indexed sch' rows' m (bt_entries (F' n))"
    proof (cases "im_table_name m = t")
      case True
      then have "indexed sch rows m (bt_entries (F n))" using coherentD [OF i(3) m(1)] t(1) by simp
      from indexed_delete [OF this t(2)] show ?thesis using m True b(3) p(4) [of t n] by simp
    next
      case False
      then show ?thesis using coherentD [OF i(3) m(1), of sch' rows'] m b(3) p(4) [of t n] by simp
    qed
  qed
  moreover have "MaintainIndexesOnDelete t sch vs rid db = Some (db\<lparr>db_index_pool := bp\<rparr>)"
    using b(1) db by (simp add: MaintainIndexesOnDelete_def GetIndexesForTable_eq)
  ultimately show thesis using that [of bp F'] b(2) i(1) by (simp add: index_inv_def)
qed

text \<open>The state after the data file has changed and then the indexes.\<close>

lemma exec_inv_after:
  assumes "exec_inv db P T F N" "tables_hold (db\<lparr>tb_data_pool := bp, tb_open_tables := ops\<rparr>) P' T'" "index_inv (tb_catalog db) ip T' F' N'"
  shows "exec_inv (db\<lparr>tb_data_pool := bp, tb_open_tables := ops, db_index_pool := ip\<rparr>) P' T' F' N'"
  using assms by (simp add: exec_inv_def db_holds_def tables_hold_def index_inv_def forest_def)

section \<open>INSERT\<close>

text \<open>
  What \<open>INSERT\<close> means: each list of literals becomes a full row of the schema, \<open>None\<close> if it is not acceptable, and
  the rows are added up to the first one that is not.
\<close>

definition new_row :: "Schema \<Rightarrow> nat list \<Rightarrow> Value list \<Rightarrow> Value list option" where
  "new_row sch targets row =
     (if length row \<noteq> length targets then None
      else case fill_row sch (zip targets row) (replicate (Schema_ColumnCount sch) VNull) of
          Inl e \<Rightarrow> None
        | Inr full \<Rightarrow>
            (case RecordCodec_Encode sch full of Inl e \<Rightarrow> None | Inr bytes \<Rightarrow> if length bytes \<le> 4080 then Some full else None))"

fun new_rows :: "Schema \<Rightarrow> nat list \<Rightarrow> Value list list \<Rightarrow> Value list list" where
  "new_rows sch targets [] = []"
| "new_rows sch targets (row # rows) = (case new_row sch targets row of None \<Rightarrow> [] | Some full \<Rightarrow> full # new_rows sch targets rows)"

text \<open>
  The rows that \<open>INSERT\<close> accepts, without the code's conversion and loop: each literal is stored as the value of the
  column's type that it denotes, an integer in range as \<open>INT\<close> or as the nearest double, and a column
  that is not named is NULL. The literals of the parser are never \<open>VInt\<close>.
\<close>

definition stored_as :: "Column \<Rightarrow> Value \<Rightarrow> Value \<Rightarrow> bool" where
  "stored_as c l v \<longleftrightarrow> ValueMatchesType v (col_type c) \<and> (IsNull v \<longrightarrow> col_nullable c) \<and>
     (v = l \<or> (\<exists>n. l = VBigInt n \<and> ((\<exists>i. v = VInt i \<and> sint i = sint n) \<or> v = VDouble (d_of_int (sint n)))))"

lemma int_of_bigint:
  fixes n :: "64 word" and i :: "32 word"
  shows "sint i = sint n \<longleftrightarrow> - (2 ^ 31) \<le> sint n \<and> sint n \<le> 2 ^ 31 - 1 \<and> i = word_of_int (sint n)"
proof -
  have "sint (word_of_int (sint n) :: 32 word) = sint n" if "- (2 ^ 31) \<le> sint n" "sint n \<le> 2 ^ 31 - 1"
    using that unfolding sint_sbintrunc' by (simp add: signed_take_bit_int_eq_self)
  moreover have "word_of_int (sint i) = i" by simp
  moreover have "- (2 ^ 31) \<le> sint i" "sint i \<le> 2 ^ 31 - 1" using sint_ge [of i] sint_less [of i] by simp_all
  ultimately show ?thesis by metis
qed

lemma Coerce_stored: "\<forall>i. l \<noteq> VInt i \<Longrightarrow> CoerceLiteralToColumnType l c = Inr v \<longleftrightarrow> stored_as c l v"
  by (cases "col_type c"; cases l)
    (auto simp: CoerceLiteralToColumnType_def stored_as_def ValueMatchesType_def IsNull_def int_of_bigint split: Value.splits)

lemma fill_row_stored:
  assumes "distinct (map fst ps)" "\<forall>(c, l) \<in> set ps. c < length full \<and> (\<forall>i. l \<noteq> VInt i)"
  shows "fill_row sch ps full = Inr full' \<longleftrightarrow> length full' = length full \<and> (\<forall>(c, l) \<in> set ps. stored_as (sch ! c) l (full' ! c)) \<and>
    (\<forall>i < length full. i \<notin> fst ` set ps \<longrightarrow> full' ! i = full ! i)"
  using assms
proof (induction ps arbitrary: full)
  case Nil
  then show ?case by (auto simp: list_eq_iff_nth_eq)
next
  case (Cons p ps)
  obtain c l where p: "p = (c, l)" by fastforce
  have c: "c < length full" "\<forall>i. l \<noteq> VInt i" "c \<notin> fst ` set ps" using Cons.prems p by (auto simp: image_iff)
  have "fill_row sch (p # ps) full = Inr full' \<longleftrightarrow> (\<exists>v. stored_as (sch ! c) l v \<and> fill_row sch ps (full[c := v]) = Inr full')"
    using c(2) by (simp add: p bind_result_Inr_iff Coerce_stored)
  also have "\<dots> \<longleftrightarrow> (\<exists>v. stored_as (sch ! c) l v \<and> length full' = length full \<and> (\<forall>(c, l) \<in> set ps. stored_as (sch ! c) l (full' ! c)) \<and>
      (\<forall>i < length full. i \<notin> fst ` set ps \<longrightarrow> full' ! i = full[c := v] ! i))"
    using Cons.IH [of "full[c := _]"] Cons.prems by (simp add: case_prod_beta)
  also have "\<dots> \<longleftrightarrow> length full' = length full \<and> (\<forall>(c, l) \<in> set (p # ps). stored_as (sch ! c) l (full' ! c)) \<and>
      (\<forall>i < length full. i \<notin> fst ` set (p # ps) \<longrightarrow> full' ! i = full ! i)"
    using c(1,3) by (auto simp: p nth_list_update)
  finally show ?case .
qed

lemma new_row_iff:
  assumes "distinct targets" "\<forall>c \<in> set targets. c < length sch" "\<forall>l \<in> set row. \<forall>i. l \<noteq> VInt i"
  shows "new_row sch targets row = Some full \<longleftrightarrow> length row = length targets \<and> length full = length sch \<and>
    (\<forall>j < length targets. stored_as (sch ! (targets ! j)) (row ! j) (full ! (targets ! j))) \<and>
    (\<forall>i < length sch. i \<notin> set targets \<longrightarrow> full ! i = VNull) \<and>
    (\<exists>bytes. RecordCodec_Encode sch full = Inr bytes \<and> length bytes \<le> 4080)"
proof (cases "length row = length targets")
  case True
  have z: "map fst (zip targets row) = targets" "fst ` set (zip targets row) = set targets" using True by (simp_all flip: set_map)
  have all: "(\<forall>(c, l) \<in> set (zip targets row). Q c l) \<longleftrightarrow> (\<forall>j < length targets. Q (targets ! j) (row ! j))" for Q
    using True by (fastforce simp: set_zip)
  have "fill_row sch (zip targets row) (replicate (length sch) VNull) = Inr full \<longleftrightarrow> length full = length sch \<and>
      (\<forall>j < length targets. stored_as (sch ! (targets ! j)) (row ! j) (full ! (targets ! j))) \<and>
      (\<forall>i < length sch. i \<notin> set targets \<longrightarrow> full ! i = VNull)"
    using fill_row_stored [of "zip targets row" "replicate (length sch) VNull" sch full, unfolded z all] assms True by simp
  with True show ?thesis by (auto simp: new_row_def Schema_ColumnCount_def split: sum.splits if_splits)
qed (simp add: new_row_def)

lemma length_new_rows: "length (new_rows sch targets rows) \<le> length rows"
  by (induction rows) (simp_all split: option.split)

lemma exec_inv_data:
  assumes "exec_inv db P T F N" "tables_hold (db\<lparr>tb_data_pool := bp, tb_open_tables := ops\<rparr>) P' T"
  shows "exec_inv (db\<lparr>tb_data_pool := bp, tb_open_tables := ops\<rparr>) P' T F N"
  using assms by (simp add: exec_inv_def db_holds_def)

lemma insert_row_refused:
  assumes inv: "exec_inv db P T F N" and t: "T t = Some (sch, R)" "sch \<noteq> []" and av: "0 < bp_avail (tb_data_pool db)"
    and "new_row sch targets row = None"
  shows "\<exists>e db1 P1. insert_rows t sch targets (row # rows) n db = Some (Inl e, db1) \<and> exec_inv db1 P1 T F N \<and> tb_catalog db1 = tb_catalog db \<and>
    bp_avail (tb_data_pool db) - 1 \<le> bp_avail (tb_data_pool db1)"
proof (cases "length row = length targets")
  case len: True
  note h = exec_invD(2) [OF inv]
  show ?thesis
  proof (cases "fill_row sch (zip targets row) (replicate (Schema_ColumnCount sch) VNull)")
    case (Inl e)
    then show ?thesis using inv len by auto
  next
    case full: (Inr full)
    show ?thesis
    proof (cases "RecordCodec_Encode sch full")
      case (Inl e)
      obtain ops where o: "TableManager_InsertRow t full db = Some (Inl e, db\<lparr>tb_open_tables := ops\<rparr>)" "tables_hold (db\<lparr>tb_open_tables := ops\<rparr>) P T"
        by (rule InsertRow_rejected [OF h t(1) Inl])
      have "exec_inv (db\<lparr>tb_open_tables := ops\<rparr>) P T F N" using exec_inv_data [where bp = "tb_data_pool db" and ops = ops, OF inv] o(2) by simp
      then show ?thesis using o(1) len full by auto
    next
      case (Inr bytes)
      obtain r P' bp' ops' where o: "TableManager_InsertRow t full db = Some (r, db\<lparr>tb_data_pool := bp', tb_open_tables := ops'\<rparr>)"
        "bp_avail (tb_data_pool db) - 1 \<le> bp_avail bp'"
        "case r of Inr rid \<Rightarrow> length bytes \<le> 4080 \<and> R rid = None \<and>
            tables_hold (db\<lparr>tb_data_pool := bp', tb_open_tables := ops'\<rparr>) P' (T(t \<mapsto> (sch, R(rid \<mapsto> full))))
          | Inl e \<Rightarrow> 4080 < length bytes \<and> tables_hold (db\<lparr>tb_data_pool := bp', tb_open_tables := ops'\<rparr>) P' T"
        by (rule InsertRow_table [OF h t(1) av Inr t(2)])
      have "4080 < length bytes" using assms(5) len full Inr by (simp add: new_row_def split: if_splits)
      then obtain e where e: "r = Inl e" using o(3) by (cases r) auto
      with o(3) have "exec_inv (db\<lparr>tb_data_pool := bp', tb_open_tables := ops'\<rparr>) P' T F N" by (simp add: exec_inv_data [OF inv])
      then show ?thesis using o(1,2) len full e by auto
    qed
  qed
qed (use inv in auto)

lemma insert_row_done:
  assumes inv: "exec_inv db P T F (index_count db + N)" and t: "T t = Some (sch, R)" "sch \<noteq> []" and av: "0 < bp_avail (tb_data_pool db)"
    and room: "table_key_room (Suc j) (tb_catalog db) t sch R" and row: "new_row sch targets row = Some full"
  shows "\<exists>rid db1 P1 F1. insert_rows t sch targets (row # rows) n db = insert_rows t sch targets rows (n + 1) db1 \<and> R rid = None \<and>
    exec_inv db1 P1 (T(t \<mapsto> (sch, R(rid \<mapsto> full)))) F1 N \<and> tb_catalog db1 = tb_catalog db \<and>
    bp_avail (tb_data_pool db) - 1 \<le> bp_avail (tb_data_pool db1) \<and> table_key_room j (tb_catalog db) t sch (R(rid \<mapsto> full))"
proof -
  note i = exec_invD [OF inv]
  obtain bytes where e: "length row = length targets" "fill_row sch (zip targets row) (replicate (Schema_ColumnCount sch) VNull) = Inr full"
    "RecordCodec_Encode sch full = Inr bytes" "length bytes \<le> 4080"
    using row by (auto simp: new_row_def split: if_splits sum.splits)
  obtain r P' bp' ops' where o: "TableManager_InsertRow t full db = Some (r, db\<lparr>tb_data_pool := bp', tb_open_tables := ops'\<rparr>)"
    "bp_avail (tb_data_pool db) - 1 \<le> bp_avail bp'"
    "case r of Inr rid \<Rightarrow> length bytes \<le> 4080 \<and> R rid = None \<and>
        tables_hold (db\<lparr>tb_data_pool := bp', tb_open_tables := ops'\<rparr>) P' (T(t \<mapsto> (sch, R(rid \<mapsto> full))))
      | Inl e \<Rightarrow> 4080 < length bytes \<and> tables_hold (db\<lparr>tb_data_pool := bp', tb_open_tables := ops'\<rparr>) P' T"
    by (rule InsertRow_table [OF i(2) t(1) av e(3) t(2)])
  then obtain rid where rid: "r = Inr rid" "R rid = None"
    "tables_hold (db\<lparr>tb_data_pool := bp', tb_open_tables := ops'\<rparr>) P' (T(t \<mapsto> (sch, R(rid \<mapsto> full))))"
    using e(4) by (cases r) auto
  let ?db = "db\<lparr>tb_data_pool := bp', tb_open_tables := ops'\<rparr>"
  obtain ip F' where
    m: "MaintainIndexesOnInsert t sch full rid ?db = Some (?db\<lparr>db_index_pool := ip\<rparr>)" "index_inv (tb_catalog db) ip (T(t \<mapsto> (sch, R(rid \<mapsto> full)))) F' N"
    by (rule MaintainInsert [where db = ?db and vs = full, OF i(3) _ _ t(1) rid(2) room]) (simp, simp, rule that, assumption+)
  from exec_inv_after [OF inv rid(3) m(2)] table_key_room_insert [OF i(3) t(1) room]
  show ?thesis using e o rid m by (intro exI [of _ rid] exI [of _ "?db\<lparr>db_index_pool := ip\<rparr>"] exI [of _ P'] exI [of _ F']) simp
qed

lemma insert_rows_spec:
  assumes "exec_inv db P T F (length rows * index_count db + N)" "T t = Some (sch, R)" "sch \<noteq> []" "length rows \<le> bp_avail (tb_data_pool db)"
    "table_key_room (length rows) (tb_catalog db) t sch R"
  shows "\<exists>r db' P' F' rids. insert_rows t sch targets rows n db = Some (r, db') \<and> length rids = length (new_rows sch targets rows) \<and>
    distinct rids \<and> (\<forall>rid \<in> set rids. R rid = None) \<and> tb_catalog db' = tb_catalog db \<and>
    exec_inv db' P' (T(t \<mapsto> (sch, R ++ map_of (zip rids (new_rows sch targets rows))))) F' N \<and>
    (if length rids = length rows then r = Inr (n + length rows) else \<exists>e. r = Inl e)"
  using assms
proof (induction rows arbitrary: db P T F R n)
  case Nil
  then show ?case by (auto simp: fun_upd_idem intro!: exI [of _ "[]"])
next
  case (Cons row rows)
  show ?case
  proof (cases "new_row sch targets row")
    case None
    from insert_row_refused [OF Cons(2,3,4) _ None, of rows n] Cons(5) obtain e db1 P1 where
      "insert_rows t sch targets (row # rows) n db = Some (Inl e, db1)" "exec_inv db1 P1 T F (length (row # rows) * index_count db + N)"
      "tb_catalog db1 = tb_catalog db" by auto
    moreover from this(2) have "exec_inv db1 P1 T F N" by (rule exec_inv_less) simp
    ultimately show ?thesis using None Cons(3) by (auto simp: fun_upd_idem simp del: insert_rows.simps intro!: exI [of _ "[]"])
  next
    case (Some full)
    have inv: "exec_inv db P T F (index_count db + (length rows * index_count db + N))" using Cons(2) by (simp add: algebra_simps)
    have room: "table_key_room (Suc (length rows)) (tb_catalog db) t sch R" using Cons(6) by simp
    obtain rid db1 P1 F1 where 1: "insert_rows t sch targets (row # rows) n db = insert_rows t sch targets rows (n + 1) db1" "R rid = None"
      "exec_inv db1 P1 (T(t \<mapsto> (sch, R(rid \<mapsto> full)))) F1 (length rows * index_count db + N)" "tb_catalog db1 = tb_catalog db"
      "bp_avail (tb_data_pool db) - 1 \<le> bp_avail (tb_data_pool db1)" "table_key_room (length rows) (tb_catalog db) t sch (R(rid \<mapsto> full))"
      using insert_row_done [OF inv Cons(3,4) _ room Some, of rows n] Cons(5) by auto
    have "length rows \<le> bp_avail (tb_data_pool db1)" using Cons(5) 1(5) by simp
    moreover have "exec_inv db1 P1 (T(t \<mapsto> (sch, R(rid \<mapsto> full)))) F1 (length rows * index_count db1 + N)" using 1(3,4) by simp
    ultimately obtain r db' P' F' rids where
      2: "insert_rows t sch targets rows (n + 1) db1 = Some (r, db')" "length rids = length (new_rows sch targets rows)" "distinct rids"
      "\<forall>x \<in> set rids. (R(rid \<mapsto> full)) x = None" "tb_catalog db' = tb_catalog db1"
      "exec_inv db' P' (T(t \<mapsto> (sch, R(rid \<mapsto> full) ++ map_of (zip rids (new_rows sch targets rows))))) F' N"
      "if length rids = length rows then r = Inr (n + 1 + length rows) else \<exists>e. r = Inl e"
      using Cons.IH [where n = "n + 1" and T = "T(t \<mapsto> (sch, R(rid \<mapsto> full)))", OF _ fun_upd_same Cons(4) _ 1(6) [folded 1(4)]] unfolding fun_upd_upd by blast
    have rid: "rid \<notin> set rids" "\<forall>x \<in> set rids. R x = None" using 2(4) by (auto split: if_splits)
    have eq: "R(rid \<mapsto> full) ++ map_of (zip rids (new_rows sch targets rows)) = R ++ map_of (zip (rid # rids) (new_rows sch targets (row # rows)))"
      using rid(1) Some 2(2) by (auto simp: map_add_upd_left map_of_zip_is_None)
    from 2(6) have e: "exec_inv db' P' (T(t \<mapsto> (sch, R ++ map_of (zip (rid # rids) (new_rows sch targets (row # rows)))))) F' N" unfolding eq .
    show ?thesis
      by (rule exI [of _ r], rule exI [of _ db'], rule exI [of _ P'], rule exI [of _ F'], rule exI [of _ "rid # rids"], intro conjI, rule trans [OF 1(1) 2(1)])
        (simp add: 2(2) Some, simp add: 2 rid, simp add: 1 rid, simp add: 1 2, rule e, insert 2(7), simp)
  qed
qed

section \<open>DELETE\<close>

text \<open>The rows that a condition selects: those on which it evaluates to true.\<close>

definition selects :: "Expr option \<Rightarrow> Schema \<Rightarrow> Value list \<Rightarrow> bool" where
  "selects condition sch vs \<longleftrightarrow> EvaluatePredicate condition sch vs = Inr True"

definition selected :: "Expr option \<Rightarrow> Schema \<Rightarrow> (RecordId \<rightharpoonup> Value list) \<Rightarrow> RecordId set" where
  "selected condition sch R = {rid. \<exists>vs. R rid = Some vs \<and> selects condition sch vs}"

lemma collect_matches:
  "fold (\<lambda>(rid, vs). collect_match condition sch rid vs) xs acc = acc @ filter (\<lambda>(rid, vs). selects condition sch vs) xs"
  by (induction xs arbitrary: acc) (auto simp: collect_match_def selects_def)

lemma scan_matches:
  assumes inv: "exec_inv db P T F N" and t: "T t = Some (sch, R)"
  obtains ms db1 where "TableManager_Scan t (collect_match condition sch) [] db = Some (Status_OK, ms, db1)" "exec_inv db1 P T F N"
    "tb_catalog db1 = tb_catalog db" "bp_avail (tb_data_pool db1) = bp_avail (tb_data_pool db)" "distinct (map fst ms)"
    "map_of ms = R |` selected condition sch R"
proof -
  note h = exec_invD(2) [OF inv]
  let ?xs = "table_list (bp_view (tb_data_pool db)) sch (P t)"
  note l = table_list_table [OF h t]
  obtain bp ops where s: "TableManager_Scan t (collect_match condition sch) [] db =
      Some (Status_OK, fold (\<lambda>(rid, vs). collect_match condition sch rid vs) ?xs [], db\<lparr>tb_data_pool := bp, tb_open_tables := ops\<rparr>)"
    "tables_hold (db\<lparr>tb_data_pool := bp, tb_open_tables := ops\<rparr>) P T"
    "pool_to (tb_data_pool db) (bp_view (tb_data_pool db)) (bp_avail (tb_data_pool db)) bp"
    by (rule Scan_table [OF h t])
  let ?ms = "filter (\<lambda>(rid, vs). selects condition sch vs) ?xs"
  have d: "distinct (map fst ?ms)" using l(1) by (rule List.distinct_map_filter)
  have "(rid, vs) \<in> set ?ms \<longleftrightarrow> (R |` selected condition sch R) rid = Some vs" for rid vs
    using map_of_eq_Some_iff [OF l(1), of rid vs] l(2) by (auto simp: restrict_map_def selected_def split: if_splits)
  then have "map_of ?ms = R |` selected condition sch R"
    using map_of_eq_Some_iff [OF d] by (intro ext) (metis option.exhaust)
  moreover have "bp_avail bp = bp_avail (tb_data_pool db)" using pool_toD [OF s(3)] by simp
  ultimately show thesis using that [of ?ms "db\<lparr>tb_data_pool := bp, tb_open_tables := ops\<rparr>"] s exec_inv_data [OF inv s(2)] d
    by (simp add: collect_matches)
qed

lemma sub_rows_Cons:
  assumes "distinct (map fst ((rid, vs) # ms))" "map_of ((rid, vs) # ms) \<subseteq>\<^sub>m R"
  shows "R rid = Some vs" "map_of ms \<subseteq>\<^sub>m R(rid := None)" "distinct (map fst ms)"
proof -
  have le: "a \<in> dom (map_of ((rid, vs) # ms)) \<Longrightarrow> map_of ((rid, vs) # ms) a = R a" for a using assms(2) by (simp only: map_le_def)
  show "R rid = Some vs" using le [of rid] by simp
  show "map_of ms \<subseteq>\<^sub>m R(rid := None)" unfolding map_le_def
  proof
    fix a
    assume a: "a \<in> dom (map_of ms)"
    then have "a \<noteq> rid" using assms(1) by (auto simp: dom_map_of_conv_image_fst)
    then show "map_of ms a = (R(rid := None)) a" using a le [of a] by auto
  qed
  show "distinct (map fst ms)" using assms(1) by simp
qed

lemma delete_rows_spec:
  assumes "exec_inv db P T F N" "T t = Some (sch, R)" "distinct (map fst ms)" "map_of ms \<subseteq>\<^sub>m R"
  shows "\<exists>db' F'. delete_rows t sch ms n db = Some (Inr (n + length ms), db') \<and> tb_catalog db' = tb_catalog db \<and>
    exec_inv db' P (T(t \<mapsto> (sch, R |` (- fst ` set ms)))) F' N"
  using assms
proof (induction ms arbitrary: db T F R n)
  case Nil
  then show ?case by (auto simp: fun_upd_idem)
next
  case (Cons p ms)
  obtain rid vs where p: "p = (rid, vs)" by fastforce
  note i = exec_invD [OF Cons(2)]
  note rid = sub_rows_Cons [OF Cons(4,5) [unfolded p]]
  obtain st bp ops where d: "TableManager_DeleteRow t rid db = Some (st, db\<lparr>tb_data_pool := bp, tb_open_tables := ops\<rparr>)" "Status_ok st"
    "tables_hold (db\<lparr>tb_data_pool := bp, tb_open_tables := ops\<rparr>) P (T(t \<mapsto> (sch, R(rid := None))))" by (rule DeleteRow_table [OF i(2) Cons(3) rid(1)])
  let ?db = "db\<lparr>tb_data_pool := bp, tb_open_tables := ops\<rparr>"
  obtain ip F1 where m: "MaintainIndexesOnDelete t sch vs rid ?db = Some (?db\<lparr>db_index_pool := ip\<rparr>)"
    "index_inv (tb_catalog db) ip (T(t \<mapsto> (sch, R(rid := None)))) F1 N"
    by (rule MaintainDelete [where db = ?db, OF i(3) _ _ Cons(3) rid(1)]) (simp, simp, rule that, assumption+)
  let ?db1 = "?db\<lparr>db_index_pool := ip\<rparr>"
  have "exec_inv ?db1 P (T(t \<mapsto> (sch, R(rid := None)))) F1 N" by (rule exec_inv_after [OF Cons(2) d(3) m(2)])
  then obtain db' F' where
    r: "delete_rows t sch ms (n + 1) ?db1 = Some (Inr (n + 1 + length ms), db')" "tb_catalog db' = tb_catalog ?db1"
    "exec_inv db' P (T(t \<mapsto> (sch, R(rid := None) |` (- fst ` set ms)))) F' N"
    using Cons.IH [of ?db1 "T(t \<mapsto> (sch, R(rid := None)))" F1 "R(rid := None)" "n + 1", OF _ fun_upd_same rid(3,2), unfolded fun_upd_upd] by blast
  have "R(rid := None) |` (- fst ` set ms) = R |` (- fst ` set (p # ms))" using p by (auto simp: restrict_map_def)
  with r d m p show ?case by (intro exI [of _ db'] exI [of _ F']) (simp del: fun_upd_apply)
qed

section \<open>UPDATE\<close>

text \<open>A row after the assignments, and the rows that a page can hold.\<close>

definition assigned :: "(nat \<times> Value) list \<Rightarrow> Value list \<Rightarrow> Value list" where
  "assigned as vs = fold (\<lambda>(idx, v) vs. vs[idx := v]) as vs"

definition row_fits :: "Schema \<Rightarrow> Value list \<Rightarrow> bool" where
  "row_fits sch vs = (case RecordCodec_Encode sch vs of Inl e \<Rightarrow> False | Inr bytes \<Rightarrow> length bytes \<le> 4080)"

lemma update_row_done:
  assumes inv: "exec_inv db P T F (index_count db + N)" and t: "T t = Some (sch, R)" "sch \<noteq> []" and av: "0 < bp_avail (tb_data_pool db)"
    and room: "table_key_room (Suc j) (tb_catalog db) t sch R" and row: "R rid = Some vs" "row_fits sch (assigned as vs)"
  shows "\<exists>rid' db1 P1 F1. update_rows t sch as ((rid, vs) # ms) n db = update_rows t sch as ms (n + 1) db1 \<and> (rid' = rid \<or> R rid' = None) \<and>
    exec_inv db1 P1 (T(t \<mapsto> (sch, R(rid := None, rid' \<mapsto> assigned as vs)))) F1 N \<and> tb_catalog db1 = tb_catalog db \<and>
    bp_avail (tb_data_pool db) - 1 \<le> bp_avail (tb_data_pool db1) \<and> table_key_room j (tb_catalog db) t sch (R(rid := None, rid' \<mapsto> assigned as vs))"
proof -
  let ?vs = "assigned as vs" and ?T = "T(t \<mapsto> (sch, R(rid := None)))"
  note i = exec_invD [OF inv]
  obtain bytes where e: "RecordCodec_Encode sch ?vs = Inr bytes" "length bytes \<le> 4080" using row(2) by (auto simp: row_fits_def split: sum.splits)
  obtain r P' bp ops where o: "TableManager_UpdateRow t rid ?vs db = Some (r, db\<lparr>tb_data_pool := bp, tb_open_tables := ops\<rparr>)"
    "bp_avail (tb_data_pool db) - 1 \<le> bp_avail bp"
    "case r of Inr rid' \<Rightarrow> length bytes \<le> 4080 \<and> (rid' = rid \<or> R rid' = None) \<and>
        tables_hold (db\<lparr>tb_data_pool := bp, tb_open_tables := ops\<rparr>) P' (T(t \<mapsto> (sch, R(rid := None, rid' \<mapsto> ?vs))))
      | Inl e \<Rightarrow> 4080 < length bytes \<and> tables_hold (db\<lparr>tb_data_pool := bp, tb_open_tables := ops\<rparr>) P'
          (T(t \<mapsto> (sch, if 65535 < length bytes then R else R(rid := None))))"
    by (rule UpdateRow_table [OF i(2) t(1) av e(1) t(2) row(1)])
  then obtain rid' where r: "r = Inr rid'" "rid' = rid \<or> R rid' = None"
    "tables_hold (db\<lparr>tb_data_pool := bp, tb_open_tables := ops\<rparr>) P' (T(t \<mapsto> (sch, R(rid := None, rid' \<mapsto> ?vs))))"
    using e(2) by (cases r) auto
  let ?db = "db\<lparr>tb_data_pool := bp, tb_open_tables := ops\<rparr>"
  obtain ip F1 where d: "MaintainIndexesOnDelete t sch vs rid ?db = Some (?db\<lparr>db_index_pool := ip\<rparr>)"
    "index_inv (tb_catalog db) ip ?T F1 (index_count db + N)"
    by (rule MaintainDelete [where db = ?db, OF i(3) _ _ t(1) row(1)]) (simp, simp, rule that, assumption+)
  have k: "table_key_room (Suc j) (tb_catalog db) t sch (R(rid := None))" by (rule table_key_room_delete [OF i(3) t(1) room])
  have none: "(R(rid := None)) rid' = None" using r(2) by auto
  let ?db2 = "?db\<lparr>db_index_pool := ip\<rparr>"
  obtain ip2 F2 where m: "MaintainIndexesOnInsert t sch ?vs rid' ?db2 = Some (?db2\<lparr>db_index_pool := ip2\<rparr>)"
    "index_inv (tb_catalog db) ip2 (?T(t \<mapsto> (sch, R(rid := None, rid' \<mapsto> ?vs)))) F2 N"
    by (rule MaintainInsert [where db = ?db2 and vs = ?vs, OF d(2) _ _ fun_upd_same none k]) (simp, simp, rule that, assumption+)
  let ?db3 = "?db\<lparr>db_index_pool := ip2\<rparr>"
  have u: "update_rows t sch as ((rid, vs) # ms) n db = update_rows t sch as ms (n + 1) ?db3"
    using o(1) r(1) d(1) m(1) by (simp add: assigned_def)
  have "exec_inv ?db3 P' (T(t \<mapsto> (sch, R(rid := None, rid' \<mapsto> ?vs)))) F2 N" by (rule exec_inv_after [OF inv r(3) m(2) [unfolded fun_upd_upd]])
  moreover have "table_key_room j (tb_catalog db) t sch (R(rid := None, rid' \<mapsto> ?vs))" by (rule table_key_room_insert [OF d(2) fun_upd_same k])
  ultimately show ?thesis using u r(2) o(2)
    by (intro exI [of _ rid'] exI [of _ ?db3] exI [of _ P'] exI [of _ F2]) (simp del: fun_upd_apply update_rows.simps)
qed

lemma moved_row:
  assumes "rid' \<notin> A" "M rid' = None"
  shows "R(rid := None, rid' \<mapsto> v) |` (- A) ++ M = R |` (- insert rid A) ++ M(rid' \<mapsto> v)"
proof
  fix x
  show "(R(rid := None, rid' \<mapsto> v) |` (- A) ++ M) x = (R |` (- insert rid A) ++ M(rid' \<mapsto> v)) x"
    using assms by (cases "x = rid'"; cases "M x") (simp_all add: map_add_def restrict_map_def)
qed

lemma update_rows_spec:
  assumes "exec_inv db P T F (length ms * index_count db + N)" "T t = Some (sch, R)" "sch \<noteq> []" "length ms \<le> bp_avail (tb_data_pool db)"
    "table_key_room (length ms) (tb_catalog db) t sch R" "distinct (map fst ms)" "map_of ms \<subseteq>\<^sub>m R" "\<forall>(rid, vs) \<in> set ms. row_fits sch (assigned as vs)"
  shows "\<exists>db' P' F' rids. update_rows t sch as ms n db = Some (Inr (n + length ms), db') \<and> length rids = length ms \<and> distinct rids \<and>
    set rids \<inter> dom (R |` (- fst ` set ms)) = {} \<and> tb_catalog db' = tb_catalog db \<and>
    exec_inv db' P' (T(t \<mapsto> (sch, R |` (- fst ` set ms) ++ map_of (zip rids (map (assigned as \<circ> snd) ms))))) F' N"
  using assms
proof (induction ms arbitrary: db P T F R n)
  case Nil
  then show ?case by (auto simp: fun_upd_idem)
next
  case (Cons p ms)
  obtain rid vs where p: "p = (rid, vs)" by fastforce
  note rid = sub_rows_Cons [OF Cons(7,8) [unfolded p]]
  have inv: "exec_inv db P T F (index_count db + (length ms * index_count db + N))" using Cons(2) by (simp add: algebra_simps)
  have room: "table_key_room (Suc (length ms)) (tb_catalog db) t sch R" "row_fits sch (assigned as vs)" using Cons(6,9) p by simp_all
  obtain rid' db1 P1 F1 where 1: "update_rows t sch as (p # ms) n db = update_rows t sch as ms (n + 1) db1" "rid' = rid \<or> R rid' = None"
    "exec_inv db1 P1 (T(t \<mapsto> (sch, R(rid := None, rid' \<mapsto> assigned as vs)))) F1 (length ms * index_count db + N)" "tb_catalog db1 = tb_catalog db"
    "bp_avail (tb_data_pool db) - 1 \<le> bp_avail (tb_data_pool db1)" "table_key_room (length ms) (tb_catalog db) t sch (R(rid := None, rid' \<mapsto> assigned as vs))"
    using update_row_done [OF inv Cons(3,4) _ room(1) rid(1) room(2), of ms n] Cons(5) p by auto
  let ?R = "R(rid := None, rid' \<mapsto> assigned as vs)"
  have out: "rid \<notin> fst ` set ms" "rid' \<notin> fst ` set ms"
  proof -
    show a: "rid \<notin> fst ` set ms" using Cons(7) p by simp
    have "(R(rid := None)) rid' = None" using 1(2) by auto
    then have "rid' \<notin> dom (map_of ms)" using rid(2) unfolding map_le_def by (metis domIff)
    then show "rid' \<notin> fst ` set ms" by (simp add: dom_map_of_conv_image_fst)
  qed
  have sub: "map_of ms \<subseteq>\<^sub>m ?R" using rid(2) out(2) by (auto simp: map_le_def dom_map_of_conv_image_fst)
  have le: "length ms \<le> bp_avail (tb_data_pool db1)" and fits: "\<forall>(rid, vs) \<in> set ms. row_fits sch (assigned as vs)" using Cons(5,9) 1(5) by auto
  obtain db' P' F' rids where
    2: "update_rows t sch as ms (n + 1) db1 = Some (Inr (n + 1 + length ms), db')" "length rids = length ms" "distinct rids"
    "set rids \<inter> dom (?R |` (- fst ` set ms)) = {}" "tb_catalog db' = tb_catalog db1"
    "exec_inv db' P' (T(t \<mapsto> (sch, ?R |` (- fst ` set ms) ++ map_of (zip rids (map (assigned as \<circ> snd) ms))))) F' N"
    using Cons.IH [where n = "n + 1" and T = "T(t \<mapsto> (sch, ?R))" and R = ?R, OF 1(3) [folded 1(4)] fun_upd_same Cons(4) le 1(6) [folded 1(4)] rid(3) sub fits]
    unfolding fun_upd_upd by blast
  have new: "rid' \<notin> set rids" using 2(4) out(2) by auto
  have eq: "?R |` (- fst ` set ms) ++ map_of (zip rids (map (assigned as \<circ> snd) ms)) =
      R |` (- fst ` set (p # ms)) ++ map_of (zip (rid' # rids) (map (assigned as \<circ> snd) (p # ms)))"
    using moved_row [OF out(2), of "map_of (zip rids (map (assigned as \<circ> snd) ms))" R rid "assigned as vs"] new 2(2) p by (simp add: map_of_zip_is_None)
  have dj: "set (rid' # rids) \<inter> dom (R |` (- fst ` set (p # ms))) = {}"
    using 2(4) 1(2) p by (auto simp: restrict_map_def split: if_splits)
  from 2(6) have e: "exec_inv db' P' (T(t \<mapsto> (sch, R |` (- fst ` set (p # ms)) ++ map_of (zip (rid' # rids) (map (assigned as \<circ> snd) (p # ms)))))) F' N"
    unfolding eq .
  show ?case
    by (rule exI [of _ db'], rule exI [of _ P'], rule exI [of _ F'], rule exI [of _ "rid' # rids"], intro conjI, rule trans [OF 1(1)])
      (insert 2(1), simp, simp add: 2(2), simp add: 2(3) new, rule dj, simp add: 1(4) 2(5), rule e)
qed

end
