(* ===== verification/Sql_Effects.thy ===== *)
theory Sql_Effects
  imports Statements
begin

text \<open>
  The effect of each SQL statement on the contents of the database: definitions of tables and
  indexes, and the statements that change rows.
\<close>

section \<open>CREATE TABLE and DROP TABLE\<close>

lemma index_inv_tables:
  assumes "index_inv cm bp T F N" "cat_indexes cm' = cat_indexes cm"
    "\<And>n m. map_of (cat_indexes cm) n = Some m \<Longrightarrow> T' (im_table_name m) \<noteq> None \<Longrightarrow> T' (im_table_name m) = T (im_table_name m)"
  shows "index_inv cm' bp T' F N"
proof -
  have "coherent T' (map_of (cat_indexes cm)) F" unfolding coherent_def
  proof (intro allI impI)
    fix n m sch rows
    assume "map_of (cat_indexes cm) n = Some m" "T' (im_table_name m) = Some (sch, rows)"
    then show "indexed sch rows m (bt_entries (F n))" using assms(3) [of n m] coherentD [OF index_invD(3) [OF assms(1)], of n m sch rows] by simp
  qed
  with assms(1,2) show ?thesis by (simp add: index_inv_def)
qed

lemma same_index_pool: "TableManager.more db' = TableManager.more (db :: Database) \<Longrightarrow> db_index_pool db' = db_index_pool db"
  by (cases db; cases db') simp

lemma create_table_effect:
  assumes inv: "exec_inv db P T F N" and av: "0 < bp_avail (tb_data_pool db)" "0 < bp_avail (tb_catalog_pool db)"
    and stale: "\<And>n m. db_indexes db n = Some m \<Longrightarrow> im_table_name m \<noteq> t"
  obtains r db' P' where "Executor_Execute (CreateTableStmt t sch) db = Some (r, db')"
    "exec_inv db' P' (if isl r then T else T(t \<mapsto> (sch, Map.empty))) F N" "cat_indexes (tb_catalog db') = cat_indexes (tb_catalog db)"
    "bp_avail (tb_data_pool db') = bp_avail (tb_data_pool db) - 1" "bp_avail (tb_catalog_pool db) - 1 \<le> bp_avail (tb_catalog_pool db')"
    "isl r \<longrightarrow> T t \<noteq> None \<or> 4068 < length t + length (concat (map encode_column sch))"
proof -
  note i = exec_invD [OF inv]
  obtain st P' db' where c: "TableManager_CreateTable t sch db = Some (st, db')"
    "tables_hold db' P' (if Status_ok st then T(t \<mapsto> (sch, Map.empty)) else T)"
    "bp_avail (tb_data_pool db') = bp_avail (tb_data_pool db) - 1" "bp_avail (tb_catalog_pool db) - 1 \<le> bp_avail (tb_catalog_pool db')"
    "hf_first_page_id (cat_heap (tb_catalog db')) = hf_first_page_id (cat_heap (tb_catalog db))"
    "cat_index_heap (tb_catalog db') = cat_index_heap (tb_catalog db)" "cat_indexes (tb_catalog db') = cat_indexes (tb_catalog db)"
    "TableManager.more db' = TableManager.more db" "\<not> Status_ok st \<Longrightarrow> T t \<noteq> None \<or> 4068 < length t + length (concat (map encode_column sch))"
    by (rule CreateTable_table [where n = t and sch = sch, OF i(2) av]) (rule that; (assumption | blast))
  have "index_inv (tb_catalog db') (db_index_pool db') (if Status_ok st then T(t \<mapsto> (sch, Map.empty)) else T) F N"
    by (rule index_inv_tables [OF i(3) [folded same_index_pool [OF c(8)]] c(7)]) (use stale in auto)
  then have e: "exec_inv db' P' (if Status_ok st then T(t \<mapsto> (sch, Map.empty)) else T) F N"
    using c(2,5,6) same_index_pool [OF c(8)] i(1) by (simp add: exec_inv_def db_holds_def)
  show thesis
    by (rule that [of "if \<not> Status_ok st then Inl st else Inr (QueryResult_new\<lparr>qr_message := ''CREATE TABLE''\<rparr>)" db' P'])
      (use c e in \<open>auto simp: Executor_Execute_def ExecuteCreateTable_def split: if_splits\<close>)
qed

lemma drop_table_effect:
  assumes inv: "exec_inv db P T F N"
  obtains r db' where "Executor_Execute (DropTableStmt t) db = Some (r, db')" "exec_inv db' P (T(t := None)) F N" "isl r \<longleftrightarrow> T t = None"
    "cat_indexes (tb_catalog db') = cat_indexes (tb_catalog db)"
proof -
  note i = exec_invD [OF inv]
  obtain st cm cbp ops where d: "TableManager_DropTable t db = (st, db\<lparr>tb_catalog := cm, tb_catalog_pool := cbp, tb_open_tables := ops\<rparr>)"
    "tables_hold (db\<lparr>tb_catalog := cm, tb_catalog_pool := cbp, tb_open_tables := ops\<rparr>) P (T(t := None))"
    "status_code st = (if T t = None then kNotFound else kOk)"
    "cat_heap cm = cat_heap (tb_catalog db)" "cat_index_heap cm = cat_index_heap (tb_catalog db)" "cat_indexes cm = cat_indexes (tb_catalog db)"
    by (rule DropTable_table [where n = t, OF i(2)]) (rule that, assumption+)
  have "index_inv cm (db_index_pool db) (T(t := None)) F N" by (rule index_inv_tables [OF i(3) d(6)]) (auto split: if_splits)
  with d i(1) show thesis
    by (intro that [of "if \<not> Status_ok st then Inl st else Inr (QueryResult_new\<lparr>qr_message := ''DROP TABLE''\<rparr>)"
          "db\<lparr>tb_catalog := cm, tb_catalog_pool := cbp, tb_open_tables := ops\<rparr>"])
      (auto simp: Executor_Execute_def ExecuteDropTable_def exec_inv_def db_holds_def Status_ok_def)
qed

section \<open>CREATE INDEX\<close>

text \<open>Filling a new tree from a scan.\<close>

lemma key_room_sub:
  assumes "key_room j sch R m" "R0 \<subseteq>\<^sub>m R" "finite (dom R)"
  shows "key_room j sch R0 m"
  unfolding key_room_def
proof
  fix k
  have "{rid. \<exists>vs. R0 rid = Some vs \<and> index_key sch vs m = Some k} \<subseteq> {rid. \<exists>vs. R rid = Some vs \<and> index_key sch vs m = Some k}"
    using assms(2) by (auto simp: map_le_def) (metis domI)
  moreover have "finite {rid. \<exists>vs. R rid = Some vs \<and> index_key sch vs m = Some k}"
    by (rule finite_subset [OF _ assms(3)]) auto
  ultimately have "card {rid. \<exists>vs. R0 rid = Some vs \<and> index_key sch vs m = Some k} \<le> card {rid. \<exists>vs. R rid = Some vs \<and> index_key sch vs m = Some k}"
    by (rule card_mono [rotated])
  with assms(1) show "card {rid. \<exists>vs. R0 rid = Some vs \<and> index_key sch vs m = Some k} + j \<le> kLeafMaxKeys"
    unfolding key_room_def by (meson add_le_mono1 le_trans)
qed

lemma index_rows_fill:
  assumes "forest bp M F (length xs + N)" "M n = Some m" "indexed sch R0 m (bt_entries (F n))" "distinct (map fst xs)" "set (map fst xs) \<inter> dom R0 = {}"
    "key_room 1 sch (R0 ++ map_of xs) m" "finite (dom R0)" "Schema_IndexOf sch (im_column_name m) = Some col"
  shows "\<exists>bp' t'. fold (\<lambda>(rid, vs). index_row (im_meta_page_id m) col rid vs) xs (Some bp) = Some bp' \<and> forest bp' M (F(n := t')) N \<and>
    indexed sch (R0 ++ map_of xs) m (bt_entries t')"
  using assms
proof (induction xs arbitrary: bp F R0)
  case Nil
  then show ?case by (intro exI [of _ bp] exI [of _ "F n"]) simp
next
  case (Cons x xs)
  obtain rid vs where x: "x = (rid, vs)" by fastforce
  have rid: "R0 rid = None" "rid \<notin> fst ` set xs" using Cons(5,6) x by auto
  have R: "R0 ++ map_of (x # xs) = R0(rid \<mapsto> vs) ++ map_of xs"
    using rid(2) x by (simp add: map_add_upd_left dom_map_of_conv_image_fst)
  have "R0 \<subseteq>\<^sub>m R0 ++ map_of (x # xs)" using Cons(6) by (auto simp: map_le_def map_add_def dom_map_of_conv_image_fst split: option.splits dest!: map_of_SomeD)
  moreover have "finite (dom (R0 ++ map_of (x # xs)))" using Cons(8) by (simp add: finite_dom_map_of)
  ultimately have "key_room (Suc 0) sch R0 m" by (rule key_room_sub [OF Cons(7) [unfolded One_nat_def]])
  then have few: "few_equal (bt_entries (F n))" by (rule key_room_few [OF Cons(4)])
  note step = indexed_insert [OF Cons(4) rid(1), of vs]
  have key: "index_key sch vs m = ExtractInt64Key (vs ! col)" using Cons(9) by (simp add: index_key_def)
  obtain bp1 t1 where 1: "index_row (im_meta_page_id m) col rid vs (Some bp) = Some bp1" "forest bp1 M (F(n := t1)) (length xs + N)"
    "bt_entries t1 = with_row sch vs rid m (bt_entries (F n))"
  proof (cases "ExtractInt64Key (vs ! col)")
    case None
    with Cons(2) key show thesis by (intro that [of bp "F n"]) (auto simp: index_row_def with_row_def intro: forest_less)
  next
    case (Some k)
    have f: "forest bp M F (Suc (length xs + N))" using Cons(2) by simp
    obtain bp1 t1 where "BPlusTree_Insert (im_meta_page_id m) k rid bp = Some (Status_OK, bp1)" "forest bp1 M (F(n := t1)) (length xs + N)"
      "bt_entries t1 = ins_entry k rid (bt_entries (F n))" by (rule forest_insert [OF f Cons(3) few])
    with Some key show thesis by (intro that [of bp1 t1]) (simp_all add: index_row_def with_row_def)
  qed
  have dj: "set (map fst xs) \<inter> dom (R0(rid \<mapsto> vs)) = {}" using Cons(6) rid(2) x by auto
  have "indexed sch (R0(rid \<mapsto> vs)) m (bt_entries ((F(n := t1)) n))" using step 1(3) by simp
  moreover have "distinct (map fst xs)" "finite (dom (R0(rid \<mapsto> vs)))" using Cons(5,8) by simp_all
  ultimately obtain bp' t' where
    "fold (\<lambda>(rid, vs). index_row (im_meta_page_id m) col rid vs) xs (Some bp1) = Some bp'" "forest bp' M (F(n := t')) N"
    "indexed sch (R0(rid \<mapsto> vs) ++ map_of xs) m (bt_entries t')"
    using Cons.IH [of bp1 "F(n := t1)" "R0(rid \<mapsto> vs)", OF 1(2) Cons(3) _ _ dj Cons(7) [unfolded R] _ Cons(9)] unfolding fun_upd_upd by blast
  with 1(1) x R show ?case by (intro exI [of _ bp'] exI [of _ t']) (simp del: fun_upd_apply)
qed

text \<open>Only the page and the column of an index matter.\<close>

lemma forest_same:
  assumes "forest bp (M(n \<mapsto> m)) F N" "im_meta_page_id m' = im_meta_page_id m"
  shows "forest bp (M(n \<mapsto> m')) F N"
proof -
  have "forest_wf v (M(n \<mapsto> m')) F H" if f: "forest_wf v (M(n \<mapsto> m)) F H" for v H unfolding forest_wf_def
  proof (intro conjI allI impI)
    have p: "tree_pages m' = tree_pages m" using assms(2) by (intro ext) (simp add: tree_pages_def)
    have k: "\<exists>x'. (M(n \<mapsto> m)) j = Some x' \<and> im_meta_page_id x' = im_meta_page_id x \<and> tree_pages x' = tree_pages x"
      if "(M(n \<mapsto> m')) j = Some x" for j x using that assms(2) p by (auto split: if_splits)
    show "\<exists>h \<le> H. index_wf (im_meta_page_id x) v h (F j)" if "(M(n \<mapsto> m')) j = Some x" for j x
      using k [OF that] f unfolding forest_wf_def by metis
    show "tree_pages x (F j) \<inter> tree_pages y (F l) = {}" if "(M(n \<mapsto> m')) j = Some x" "(M(n \<mapsto> m')) l = Some y" "j \<noteq> l" for j l x y
      using k [OF that(1)] k [OF that(2)] forest_disjoint [OF f _ _ that(3)] by metis
  qed
  with assms(1) show ?thesis unfolding forest_def by blast
qed

lemma indexed_same: "indexed sch R m es \<Longrightarrow> im_column_name m' = im_column_name m \<Longrightarrow> indexed sch R m' es"
  by (simp add: indexed_def index_key_def)

text \<open>
  The conditions under which \<open>CREATE INDEX\<close> is accepted: a column of integer type and a new name. The
  file needs room for the tree and one insertion per row.
\<close>

lemma create_index_effect:
  assumes inv: "exec_inv db P T F (card (dom R) + Suc N)" and t: "T t = Some (sch, R)" and n: "db_indexes db n = None"
    and col: "Schema_IndexOf sch c = Some col" "col_type (sch ! col) = ColumnType.kInt \<or> col_type (sch ! col) = ColumnType.kBigInt"
    and room: "\<And>m. im_column_name m = c \<Longrightarrow> key_room 1 sch R m" and av: "0 < bp_avail (tb_catalog_pool db)"
  obtains r db' F' where "Executor_Execute (CreateIndexStmt n t c) db = Some (r, db')" "exec_inv db' P T F' N"
    "if isl r then cat_indexes (tb_catalog db') = cat_indexes (tb_catalog db)
     else \<exists>m. cat_indexes (tb_catalog db') = cat_indexes (tb_catalog db) @ [(n, m)] \<and> im_index_name m = n \<and> im_table_name m = t \<and> im_column_name m = c"
    "bp_avail (tb_data_pool db') = bp_avail (tb_data_pool db)" "bp_avail (tb_catalog_pool db) - 1 \<le> bp_avail (tb_catalog_pool db')"
    "isl r \<longrightarrow> 4066 < length n + length t + length c"
proof -
  note i = exec_invD [OF inv] and l = table_list_table [OF exec_invD(2) [OF inv] t]
  let ?xs = "table_list (bp_view (tb_data_pool db)) sch (P t)" and ?M = "db_indexes db"
  have len: "length ?xs = card (dom R)" using l by (metis distinct_card dom_map_of_conv_image_fst length_map list.set_map)
  have f: "forest (db_index_pool db) ?M F (Suc (length ?xs + N))" using index_invD(2) [OF i(3)] by (simp add: len)
  obtain meta root ip where new: "BPlusTree_new kInvalidPageId (db_index_pool db) = Some (meta, ip)"
    "\<And>m. im_meta_page_id m = meta \<Longrightarrow> forest ip (?M(n \<mapsto> m)) (F(n := BLeaf root [])) (length ?xs + N)" by (rule forest_new [OF f n]) (rule that; blast)
  let ?m = "fresh_index (tb_catalog db) n t c meta"
  have m: "im_meta_page_id ?m = meta" "im_column_name ?m = c" "im_table_name ?m = t" "im_index_name ?m = n" by (simp_all add: fresh_index_def)
  have e: "indexed sch Map.empty ?m (bt_entries ((F(n := BLeaf root [])) n))" using col m by (auto simp: indexed_def)
  have k: "key_room 1 sch (Map.empty ++ map_of ?xs) ?m" using room [OF m(2)] l(2) by simp
  obtain bp ops where sc: "TableManager_Scan t (index_row meta col) (Some ip) db =
      Some (Status_OK, fold (\<lambda>(rid, vs). index_row meta col rid vs) ?xs (Some ip), db\<lparr>tb_data_pool := bp, tb_open_tables := ops\<rparr>)"
    "tables_hold (db\<lparr>tb_data_pool := bp, tb_open_tables := ops\<rparr>) P T"
    "pool_to (tb_data_pool db) (bp_view (tb_data_pool db)) (bp_avail (tb_data_pool db)) bp"
    by (rule Scan_table [OF i(2) t])
  obtain ip' tr where fl: "fold (\<lambda>(rid, vs). index_row meta col rid vs) ?xs (Some ip) = Some ip'" "forest ip' (?M(n \<mapsto> ?m)) (F(n := tr)) N"
    "indexed sch R ?m (bt_entries tr)"
    using index_rows_fill [of ip "?M(n \<mapsto> ?m)" "F(n := BLeaf root [])" ?xs N n ?m sch Map.empty col, OF new(2) [OF m(1)] fun_upd_same e l(1) _ k]
      col(1) l(2) m(1,2) by (simp del: fun_upd_apply) blast
  obtain ps qs where h: "cat_inv (tb_catalog db) (tb_catalog_pool db) ps qs" using i(2) by (auto simp: tables_hold_def)
  obtain r cm cbp qs' where c: "CatalogManager_CreateIndex n t c meta (tb_catalog db) (tb_catalog_pool db) = Some (r, cm, cbp)" "cat_inv cm cbp ps qs'"
    "bp_avail (tb_catalog_pool db) - 1 \<le> bp_avail cbp"
    "hf_first_page_id (cat_index_heap cm) = hf_first_page_id (cat_index_heap (tb_catalog db))" "cat_heap cm = cat_heap (tb_catalog db)"
    "cat_tables cm = cat_tables (tb_catalog db)"
    "case r of
       Inr m \<Rightarrow> (\<exists>rid. m = ?m\<lparr>im_catalog_record_id := rid\<rparr>) \<and> map_of (cat_indexes (tb_catalog db)) n = None \<and>
         map_of (cat_indexes cm) = (map_of (cat_indexes (tb_catalog db)))(n \<mapsto> m) \<and> cat_indexes cm = cat_indexes (tb_catalog db) @ [(n, m)]
     | Inl e \<Rightarrow> \<not> Status_ok e \<and> cat_indexes cm = cat_indexes (tb_catalog db) \<and>
         (map_of (cat_indexes (tb_catalog db)) n \<noteq> None \<or> 4080 < length (EncodeIndexMetadata ?m))"
    by (rule CreateIndex_spec [OF h av]) (rule that, assumption+)
  let ?db = "db\<lparr>tb_data_pool := bp, tb_open_tables := ops, db_index_pool := ip', tb_catalog := cm, tb_catalog_pool := cbp\<rparr>"
  let ?r = "case r of Inl e \<Rightarrow> Inl e | Inr m \<Rightarrow> Inr (QueryResult_new\<lparr>qr_message := ''CREATE INDEX''\<rparr>)"
  have x: "Executor_Execute (CreateIndexStmt n t c) db = Some (?r, ?db)"
    using col new(1) sc(1) fl(1) c(1) GetSchema_table [OF i(2), of t] t
    by (auto simp: Executor_Execute_def ExecuteCreateIndex_def Let_def Status_ok_def Status_OK_def)
  have ix: "index_inv cm ip' T (F(n := tr)) N"
  proof (cases r)
    case (Inl e)
    then have "cat_indexes cm = cat_indexes (tb_catalog db)" using c(7) by simp
    moreover have "forest ip' ?M (F(n := tr)) N" using forest_drop [OF fl(2), of n] n by (simp add: fun_upd_idem)
    ultimately show ?thesis using index_invD(1,3) [OF i(3)] n by (auto simp: index_inv_def coherent_def)
  next
    case (Inr m)
    then obtain rid where r: "m = ?m\<lparr>im_catalog_record_id := rid\<rparr>" "cat_indexes cm = cat_indexes (tb_catalog db) @ [(n, m)]"
      "map_of (cat_indexes cm) = ?M(n \<mapsto> m)" using c(7) by auto
    have same: "im_meta_page_id m = im_meta_page_id ?m" "im_table_name m = t" "im_column_name m = im_column_name ?m" using m r(1) by simp_all
    have "forest ip' (?M(n \<mapsto> m)) (F(n := tr)) N" by (rule forest_same [OF fl(2) same(1)])
    moreover have "coherent T (?M(n \<mapsto> m)) (F(n := tr))"
      using index_invD(3) [OF i(3)] indexed_same [OF fl(3) same(3)] t same(2) by (auto simp: coherent_def)
    moreover have "distinct (map fst (cat_indexes cm))" using index_invD(1) [OF i(3)] n r(2) by (auto simp: map_of_eq_None_iff)
    ultimately show ?thesis using r(3) by (simp add: index_inv_def)
  qed
  have "tables_hold ?db P T" using sc(2) c(2,6) by (auto simp: tables_hold_def)
  with ix have e: "exec_inv ?db P T (F(n := tr)) N" using i(1) c(4,5) by (simp add: exec_inv_def db_holds_def index_inv_def forest_def)
  show thesis
    by (rule that [OF x e])
      (use c(3,7) m n pool_toD [OF sc(3)] in \<open>auto simp: length_EncodeIndex split: sum.splits\<close>)
qed

section \<open>Statements that change rows\<close>

text \<open>A new database with one empty table and an index on it, for the examples.\<close>

definition int_schema :: Schema where
  "int_schema = [\<lparr>col_name = ''a'', col_type = ColumnType.kInt, col_nullable = True, col_max_length = 255\<rparr>]"

lemma new_exec_inv:
  obtains db P where "Database_new (ReadWrite, None, []) (ReadWrite, None, []) (ReadWrite, None, []) = Some db" "exec_inv db P Map.empty F 1000"
    "cat_indexes (tb_catalog db) = []" "bp_avail (tb_data_pool db) = 2 ^ 31 - 2" "bp_avail (tb_catalog_pool db) = 2 ^ 31 - 4"
proof -
  obtain db P where db: "Database_new (ReadWrite, None, []) (ReadWrite, None, []) (ReadWrite, None, []) = Some db" "db_holds db P Map.empty"
    "cat_indexes (tb_catalog db) = []" "bp_avail (tb_data_pool db) = 2 ^ 31 - 2" "bp_avail (tb_catalog_pool db) = 2 ^ 31 - 4"
    "bp_avail (db_index_pool db) = 2 ^ 31 - 2" by (rule new_database)
  have "forest_wf (bp_view (db_index_pool db)) Map.empty F 0" by (simp add: forest_wf_def)
  then have "index_inv (tb_catalog db) (db_index_pool db) Map.empty F 1000"
    using db(2,3,6) by (auto simp: index_inv_def forest_def coherent_def db_holds_def intro!: exI [of _ 0])
  with db that show thesis by (simp add: exec_inv_def)
qed

lemma demo_database:
  obtains db P F where "exec_inv db P [''t'' \<mapsto> (int_schema, Map.empty)] F 900" "index_count db = 1" "100 \<le> bp_avail (tb_data_pool db)"
    "\<And>m. db_indexes db ''i'' = Some m \<Longrightarrow> im_table_name m = ''t'' \<and> im_column_name m = ''a''" "\<And>n. db_indexes db n \<noteq> None \<longleftrightarrow> n = ''i''"
proof -
  obtain db P where db: "exec_inv db P Map.empty (\<lambda>_. BLeaf 0 []) 1000" "cat_indexes (tb_catalog db) = []"
    "bp_avail (tb_data_pool db) = 2 ^ 31 - 2" "bp_avail (tb_catalog_pool db) = 2 ^ 31 - 4" by (rule new_exec_inv) (rule that, assumption+)
  have av: "0 < bp_avail (tb_data_pool db)" "0 < bp_avail (tb_catalog_pool db)" "\<And>n m. db_indexes db n = Some m \<Longrightarrow> im_table_name m \<noteq> ''t''"
    using db by simp_all
  obtain r :: "QueryResult Result" and db1 P1 where c: "exec_inv db1 P1 (if isl r then Map.empty else [''t'' \<mapsto> (int_schema, Map.empty)]) (\<lambda>_. BLeaf 0 []) 1000"
    "cat_indexes (tb_catalog db1) = cat_indexes (tb_catalog db)" "bp_avail (tb_data_pool db1) = bp_avail (tb_data_pool db) - 1"
    "bp_avail (tb_catalog_pool db) - 1 \<le> bp_avail (tb_catalog_pool db1)"
    "isl r \<longrightarrow> (Map.empty :: contents) ''t'' \<noteq> None \<or> 4068 < length ''t'' + length (concat (map encode_column int_schema))"
    by (rule create_table_effect [where sch = int_schema and t = "''t''", OF db(1) av(1,2)], rule av(3), assumption) (rule that, assumption+)
  have "\<not> isl r" using c(5) by (auto simp: int_schema_def encode_column_def append_string_def)
  then have e: "exec_inv db1 P1 [''t'' \<mapsto> (int_schema, Map.empty)] (\<lambda>_. BLeaf 0 []) (card (dom (Map.empty :: RecordId \<rightharpoonup> Value list)) + Suc 999)"
    "db_indexes db1 ''i'' = None" "0 < bp_avail (tb_catalog_pool db1)" using c db by simp_all
  have col: "Schema_IndexOf int_schema ''a'' = Some 0" "col_type (int_schema ! 0) = ColumnType.kInt \<or> col_type (int_schema ! 0) = ColumnType.kBigInt"
    by (simp_all add: int_schema_def Schema_IndexOf_def)
  have room: "key_room 1 int_schema Map.empty m" for m by (simp add: key_room_def kLeafMaxKeys_value)
  obtain r :: "QueryResult Result" and db2 F2 where x: "exec_inv db2 P1 [''t'' \<mapsto> (int_schema, Map.empty)] F2 999"
    "if isl r then cat_indexes (tb_catalog db2) = cat_indexes (tb_catalog db1)
     else \<exists>m. cat_indexes (tb_catalog db2) = cat_indexes (tb_catalog db1) @ [(''i'', m)] \<and> im_index_name m = ''i'' \<and> im_table_name m = ''t'' \<and> im_column_name m = ''a''"
    "bp_avail (tb_data_pool db2) = bp_avail (tb_data_pool db1)" "isl r \<longrightarrow> 4066 < length ''i'' + length ''t'' + length ''a''"
    by (rule create_index_effect [where c = "''a''", OF e(1) fun_upd_same e(2) col room e(3)]) (rule that, assumption+)
  have "\<not> isl r" using x(4) by auto
  then obtain m where m: "cat_indexes (tb_catalog db2) = [(''i'', m)]" "im_table_name m = ''t''" "im_column_name m = ''a''" using x(2) c(2) db(2) by auto
  have "exec_inv db2 P1 [''t'' \<mapsto> (int_schema, Map.empty)] F2 900" by (rule exec_inv_less [OF x(1)]) simp
  with m x(3) c(3) db(3) show thesis by (intro that [of db2 P1 F2]) (auto split: if_splits)
qed



lemma demo_room: "n \<le> 100 \<Longrightarrow> table_key_room n cm t int_schema Map.empty"
  by (simp add: table_key_room_def key_room_def kLeafMaxKeys_value)


text \<open>The same rows as a starting point.\<close>

lemma two_rows:
  obtains db P F a b where "exec_inv db P [''t'' \<mapsto> (int_schema, [a \<mapsto> [VInt 1], b \<mapsto> [VInt 2]])] F 898" "a \<noteq> b" "index_count db = 1"
    "98 \<le> bp_avail (tb_data_pool db)" "table_key_room 98 (tb_catalog db) ''t'' int_schema [a \<mapsto> [VInt 1], b \<mapsto> [VInt 2]]"
proof -
  obtain db P F where db: "exec_inv db P [''t'' \<mapsto> (int_schema, Map.empty)] F 900" "index_count db = 1" "100 \<le> bp_avail (tb_data_pool db)"
    by (rule demo_database)
  have 0: "exec_inv db P [''t'' \<mapsto> (int_schema, Map.empty)] F (index_count db + 899)" "int_schema \<noteq> []" "0 < bp_avail (tb_data_pool db)"
    "table_key_room (Suc 99) (tb_catalog db) ''t'' int_schema Map.empty" "table_key_room 100 (tb_catalog db) ''t'' int_schema Map.empty"
    using db demo_room by (simp_all add: int_schema_def)
  have n: "new_row int_schema [0] [VBigInt 1] = Some [VInt 1]" "new_row int_schema [0] [VBigInt 2] = Some [VInt 2]" by code_simp+
  obtain a db1 P1 F1 where 1: "exec_inv db1 P1 [''t'' \<mapsto> (int_schema, [a \<mapsto> [VInt 1]])] F1 899" "tb_catalog db1 = tb_catalog db"
    "bp_avail (tb_data_pool db) - 1 \<le> bp_avail (tb_data_pool db1)" "table_key_room 99 (tb_catalog db) ''t'' int_schema [a \<mapsto> [VInt 1]]"
    using insert_row_done [OF 0(1) fun_upd_same 0(2,3,4) n(1), unfolded fun_upd_upd, of "[]" 0] by blast
  have 2: "exec_inv db1 P1 [''t'' \<mapsto> (int_schema, [a \<mapsto> [VInt 1]])] F1 (index_count db1 + 898)" "0 < bp_avail (tb_data_pool db1)"
    "table_key_room (Suc 98) (tb_catalog db1) ''t'' int_schema [a \<mapsto> [VInt 1]]" using 1 db by simp_all
  obtain b db2 P2 F2 where 3: "[a \<mapsto> [VInt 1]] b = None" "exec_inv db2 P2 [''t'' \<mapsto> (int_schema, [a \<mapsto> [VInt 1], b \<mapsto> [VInt 2]])] F2 898" "tb_catalog db2 = tb_catalog db1"
    "bp_avail (tb_data_pool db1) - 1 \<le> bp_avail (tb_data_pool db2)" "table_key_room 98 (tb_catalog db1) ''t'' int_schema [a \<mapsto> [VInt 1], b \<mapsto> [VInt 2]]"
    using insert_row_done [OF 2(1) fun_upd_same 0(2) 2(2,3) n(2), unfolded fun_upd_upd, of "[]" 0] by blast
  have "a \<noteq> b" using 3(1) by auto
  with 1 3 db show thesis by (intro that [of db2 P2 a b F2]) simp_all
qed

text \<open>
  C4. \<open>DELETE\<close> removes exactly the rows on which the condition is true and reports their number; other rows and
  tables are kept, and the indexes of the table lose exactly the keys of these rows.
\<close>

theorem delete_statement:
  assumes "exec_inv db P T F N" and "T t = Some (sch, R)"
  shows "\<exists>db' F'. Executor_Execute (DeleteStmt t condition) db =
      Some (Inr (QueryResult_new\<lparr>qr_rows_affected := card (selected condition sch R),
                                 qr_message := ''DELETE '' @ show_nat (card (selected condition sch R))\<rparr>), db') \<and>
    exec_inv db' P (T(t \<mapsto> (sch, R |` (- selected condition sch R)))) F' N"
proof -
  obtain ms db1 where s: "TableManager_Scan t (collect_match condition sch) [] db = Some (Status_OK, ms, db1)" "exec_inv db1 P T F N"
    "distinct (map fst ms)" "map_of ms = R |` selected condition sch R" by (rule scan_matches [OF assms])
  have dom: "fst ` set ms = selected condition sch R"
    using s(4) dom_map_of_conv_image_fst [of ms] by (auto simp: selected_def)
  then have n: "length ms = card (selected condition sch R)" using distinct_card [OF s(3)] by simp
  have "map_of ms \<subseteq>\<^sub>m R" using s(4) by (simp add: map_le_def)
  from delete_rows_spec [OF s(2) assms(2) s(3) this, of 0] obtain db' F' where
    "delete_rows t sch ms 0 db1 = Some (Inr (length ms), db')" "exec_inv db' P (T(t \<mapsto> (sch, R |` (- selected condition sch R)))) F' N"
    by (auto simp: dom simp del: fun_upd_apply)
  with s(1) n GetSchema_table [OF exec_invD(2) [OF assms(1)], of t] assms(2) show ?thesis
    by (intro exI [of _ db'] exI [of _ F'])
      (simp add: Executor_Execute_def ExecuteDelete_def changed_rows_def Status_ok_def Status_OK_def del: fun_upd_apply)
qed

definition a_is_one :: Expr where
  "a_is_one = BinaryExpr (ColumnRefExpr ''a'') BinaryOp.kEq (LiteralExpr (VBigInt 1))"

lemma evaluates_one: "EvaluatePredicate (Some a_is_one) int_schema [VInt i] = Inr (sint i = 1)"
proof -
  have "\<bar>sint i\<bar> < 2 ^ 53" using sint_less [of i] sint_ge [of i] by simp
  then have "ValuesEqual (VInt i) (VBigInt 1) = Inr (sint i = 1)"
    using CompareOrdered_integers(2) [of "VInt i" "sint i" "VBigInt 1" 1] by (simp add: ToDouble_def)
  then show ?thesis by (simp add: EvaluatePredicate_def a_is_one_def Schema_IndexOf_def int_schema_def)
qed

lemma selects_one: "selects (Some a_is_one) int_schema [VInt i] \<longleftrightarrow> sint i = 1"
  by (simp add: selects_def evaluates_one)

theorem delete_statement_witness:
  "\<exists>db db' P F' q a b. Executor_Execute (DeleteStmt ''t'' (Some a_is_one)) db = Some (Inr q, db') \<and> qr_rows_affected q = 1 \<and> index_count db = 1 \<and>
     db_holds db P [''t'' \<mapsto> (int_schema, [a \<mapsto> [VInt 1], b \<mapsto> [VInt 2]])] \<and> a \<noteq> b \<and>
     exec_inv db' P [''t'' \<mapsto> (int_schema, [b \<mapsto> [VInt 2]])] F' 898"
proof -
  obtain db P F a b where db: "exec_inv db P [''t'' \<mapsto> (int_schema, [a \<mapsto> [VInt 1], b \<mapsto> [VInt 2]])] F 898" "a \<noteq> b" "index_count db = 1"
    by (rule two_rows)
  let ?R = "[a \<mapsto> [VInt 1], b \<mapsto> [VInt 2]]"
  have sel: "selected (Some a_is_one) int_schema ?R = {a}" using db(2) by (auto simp: selected_def selects_one split: if_splits)
  have "?R |` (- {a}) = [b \<mapsto> [VInt 2]]" using db(2) by (auto simp: restrict_map_def)
  with delete_statement [where T = "[''t'' \<mapsto> (int_schema, ?R)]", OF db(1) fun_upd_same, of "Some a_is_one", unfolded sel fun_upd_upd]
  obtain q db' F' where "Executor_Execute (DeleteStmt ''t'' (Some a_is_one)) db = Some (Inr q, db')" "qr_rows_affected q = 1"
    "exec_inv db' P [''t'' \<mapsto> (int_schema, [b \<mapsto> [VInt 2]])] F' 898" by (auto simp del: fun_upd_apply)
  with db exec_invD(1) [OF db(1)] show ?thesis by blast
qed





section \<open>Restart\<close>

text \<open>
  C5. A database that is flushed, closed and opened again from its three files has the same tables, rows
  and indexes: every table has its schema and its rows under the same record ids, and the
  statements can go on where they stopped. A database opened on missing files is empty.
\<close>

theorem database_restart:
  "(\<exists>db P. Database_new (ReadWrite, None, []) (ReadWrite, None, []) (ReadWrite, None, []) = Some db \<and> exec_inv db P Map.empty F 1000) \<and>
   (exec_inv db P T F N \<and> Database_close (Database_FlushAll db) = (c, d, i) \<longrightarrow>
     (\<exists>db'. Database_new (ReadWrite, Some c, []) (ReadWrite, Some d, []) (ReadWrite, Some i, []) = Some db' \<and> exec_inv db' P T F N \<and> db_indexes db' = db_indexes db))"
proof (intro conjI impI; (elim conjE)?)
  show "\<exists>db P. Database_new (ReadWrite, None, []) (ReadWrite, None, []) (ReadWrite, None, []) = Some db \<and> exec_inv db P Map.empty F 1000"
    by (rule new_exec_inv [of F]) blast
  assume inv: "exec_inv db P T F N" and c: "Database_close (Database_FlushAll db) = (c, d, i)"
  obtain db' where db': "Database_new (ReadWrite, Some c, []) (ReadWrite, Some d, []) (ReadWrite, Some i, []) = Some db'" "db_holds db' P T" "db_indexes db' = db_indexes db"
    "bp_view (db_index_pool db') = bp_view (db_index_pool db)" "bp_avail (db_index_pool db') = bp_avail (db_index_pool db)"
    "distinct (map fst (cat_indexes (tb_catalog db')))" by (rule reopen_database [OF exec_invD(1) [OF inv] c])
  then have "index_inv (tb_catalog db') (db_index_pool db') T F N"
    using exec_invD(3) [OF inv] by (simp add: index_inv_def forest_def db_holds_def)
  with db' show "\<exists>db'. Database_new (ReadWrite, Some c, []) (ReadWrite, Some d, []) (ReadWrite, Some i, []) = Some db' \<and> exec_inv db' P T F N \<and> db_indexes db' = db_indexes db"
    by (auto simp: exec_inv_def)
qed

theorem database_restart_witness:
  "\<exists>db c d i db' P F a b. Database_close (Database_FlushAll db) = (c, d, i) \<and>
     Database_new (ReadWrite, Some c, []) (ReadWrite, Some d, []) (ReadWrite, Some i, []) = Some db' \<and> a \<noteq> b \<and> index_count db = 1 \<and>
     exec_inv db P [''t'' \<mapsto> (int_schema, [a \<mapsto> [VInt 1], b \<mapsto> [VInt 2]])] F 898 \<and>
     exec_inv db' P [''t'' \<mapsto> (int_schema, [a \<mapsto> [VInt 1], b \<mapsto> [VInt 2]])] F 898"
proof -
  obtain db P F a b where db: "exec_inv db P [''t'' \<mapsto> (int_schema, [a \<mapsto> [VInt 1], b \<mapsto> [VInt 2]])] F 898" "a \<noteq> b" "index_count db = 1"
    by (rule two_rows)
  obtain c d i where c: "Database_close (Database_FlushAll db) = (c, d, i)" by (metis prod_cases3)
  from database_restart [of F db P "[''t'' \<mapsto> (int_schema, [a \<mapsto> [VInt 1], b \<mapsto> [VInt 2]])]" 898 c d i] db c show ?thesis by blast
qed

end
