(* ===== verification/Pipelines.thy ===== *)
theory Pipelines
  imports Operators "HOL-Library.Multiset"
begin

text \<open>
  What the operators compute. \<open>yields I next op db ts op' db'\<close>: pulling from \<open>op\<close> gives the tuples \<open>ts\<close> and then none,
  ends with \<open>op'\<close> and \<open>db'\<close>, and \<open>I\<close> holds of the operator and the database after every call. Each operator is a
  list function: a filter, a map, a stable sort, a prefix.
\<close>

inductive yields ::
  "('o \<Rightarrow> Database \<Rightarrow> bool) \<Rightarrow> ('o \<Rightarrow> Database \<Rightarrow> 'o pulled) \<Rightarrow> 'o \<Rightarrow> Database \<Rightarrow> Tuple list \<Rightarrow> 'o \<Rightarrow> Database \<Rightarrow> bool"
  for I next_op where
  stop: "next_op op db = Some (None, op', db') \<Longrightarrow> I op' db' \<Longrightarrow> yields I next_op op db [] op' db'"
| more: "next_op op db = Some (Some t, op1, db1) \<Longrightarrow> I op1 db1 \<Longrightarrow> yields I next_op op1 db1 ts op' db' \<Longrightarrow>
    yields I next_op op db (t # ts) op' db'"

inductive_cases yields_NilE: "yields I next_op op db [] op' db'"
inductive_cases yields_ConsE: "yields I next_op op db (t # ts) op' db'"

lemma yields_inv: "yields I next_op op db ts op' db' \<Longrightarrow> I op' db'"
  by (induction rule: yields.induct)

lemma pull_all_yields: "yields I next_op op db ts op' db' \<Longrightarrow> pull_all next_op acc op db = Some (acc @ ts, op', db')"
proof (induction arbitrary: acc rule: yields.induct)
  case (stop op db op' db')
  then show ?case by (subst pull_all.simps) simp
next
  case (more op db t op1 db1 ts op' db')
  then show ?case by (subst pull_all.simps) simp
qed

text \<open>
  The contract of the virtual calls: a call of \<open>Next\<close> that returns a tuple leaves the error of the
  operator as it was.
\<close>

locale tuple_source =
  fixes next_op :: "'o \<Rightarrow> Database \<Rightarrow> 'o pulled" and get_error :: "'o \<Rightarrow> Status"
  assumes error_kept: "next_op op db = Some (Some t, op', db') \<Longrightarrow> get_error op' = get_error op"
begin

text \<open>The error after any number of tuples is the one at the beginning.\<close>

definition steady :: "('o \<Rightarrow> Database \<Rightarrow> bool) \<Rightarrow> Status \<Rightarrow> 'o \<Rightarrow> Database \<Rightarrow> bool" where
  "steady I e op db \<longleftrightarrow> I op db \<and> get_error op = e"

lemma yields_steady:
  "yields I next_op op db ts op' db' \<Longrightarrow> get_error op' = get_error op \<Longrightarrow> yields (steady I (get_error op)) next_op op db ts op' db'"
proof (induction rule: yields.induct)
  case (stop op db op' db')
  then show ?case by (simp add: yields.stop steady_def)
next
  case (more op db t op1 db1 ts op' db')
  then have e: "get_error op1 = get_error op" "yields (steady I (get_error op)) next_op op1 db1 ts op' db'" using error_kept [OF more(1)] by simp_all
  have "steady I (get_error op) op1 db1" using more(2) e(1) by (simp add: steady_def)
  with more(1) e(2) show ?case by (intro yields.more)
qed

end

lemma Operator_Next_error:
  assumes "Operator_Next op db = Some y"
  shows "fst y \<noteq> None \<longrightarrow> Operator_GetError (fst (snd y)) = Operator_GetError op"
proof (rule Operator_Next.raw_induct [OF _ assms, where P = "\<lambda>op db y. fst y \<noteq> None \<longrightarrow> Operator_GetError (fst (snd y)) = Operator_GetError op"], goal_cases)
  case (1 next_op op db y)
  show ?case
  proof (cases op)
    case (SeqScanOperator table buffered cursor)
    then show ?thesis using 1(2) by (auto simp: SeqScanOperator_Next_def split: if_splits)
  next
    case (IndexScanOperator table tree low li high hi equal_only candidates cursor error)
    then show ?thesis using 1(2) by (auto simp: IndexScanOperator_Next_def)
  next
    case (FilterOperator child predicate schema error)
    then obtain t child' db' where n: "next_op child db = Some (t, child', db')"
      and y: "(case t of None \<Rightarrow> Some (None, FilterOperator child' predicate schema error, db')
         | Some t \<Rightarrow> (case EvaluatePredicate predicate schema (tu_values t) of
             Inl e \<Rightarrow> Some (None, FilterOperator child' predicate schema e, db')
           | Inr matched \<Rightarrow> if matched then Some (Some t, FilterOperator child' predicate schema error, db')
               else next_op (FilterOperator child' predicate schema error) db')) = Some y"
      using 1(2) by (auto simp: FilterOperator_Next_def bind_eq_Some_conv)
    from 1(1) [OF n] y FilterOperator 1(1) [of "FilterOperator child' predicate schema error" db' y]
    show ?thesis by (auto split: option.splits sum.splits if_splits)
  next
    case (ProjectOperator child items schema indices column_names error)
    then show ?thesis using 1 by (fastforce simp: ProjectOperator_Next_def bind_eq_Some_conv split: option.splits)
  next
    case (SortOperator child order_by schema buffered cursor error child_error)
    then show ?thesis using 1(2) by (auto simp: SortOperator_Next_def split: if_splits)
  next
    case (LimitOperator child limit returned)
    then show ?thesis using 1 by (fastforce simp: LimitOperator_Next_def bind_eq_Some_conv split: option.splits if_splits)
  qed
qed

interpretation chain: tuple_source Operator_Next Operator_GetError
  by unfold_locales (use Operator_Next_error in fastforce)

section \<open>Each operator as a list function\<close>

lemma seq_scan_yields:
  assumes "\<And>c. c \<le> length buffered \<Longrightarrow> I (SeqScanOperator table buffered c) db" "cursor \<le> length buffered"
  shows "yields I Operator_Next (SeqScanOperator table buffered cursor) db (drop cursor buffered) (SeqScanOperator table buffered (length buffered)) db"
  using assms(2)
proof (induction "length buffered - cursor" arbitrary: cursor)
  case 0
  then have "cursor = length buffered" by simp
  with assms(1) show ?case by (auto intro!: yields.stop simp: Operator_Next.simps SeqScanOperator_Next_def)
next
  case (Suc k)
  then have c: "cursor < length buffered" by simp
  then have "drop cursor buffered = buffered ! cursor # drop (cursor + 1) buffered" by (simp add: Cons_nth_drop_Suc)
  moreover have "yields I Operator_Next (SeqScanOperator table buffered (cursor + 1)) db (drop (cursor + 1) buffered) (SeqScanOperator table buffered (length buffered)) db"
    using Suc(1) [of "cursor + 1"] Suc(2) c by simp
  ultimately show ?case using c assms(1) [of "cursor + 1"]
    by (auto intro!: yields.more simp: Operator_Next.simps [of "SeqScanOperator table buffered cursor"] SeqScanOperator_Next_def)
qed

text \<open>The values of a condition on the tuples: the first error stops the scan.\<close>

definition matches :: "Expr option \<Rightarrow> Schema \<Rightarrow> Tuple \<Rightarrow> bool" where
  "matches predicate schema t \<longleftrightarrow> EvaluatePredicate predicate schema (tu_values t) = Inr True"

definition evaluates :: "Expr option \<Rightarrow> Schema \<Rightarrow> Tuple \<Rightarrow> bool" where
  "evaluates predicate schema t \<longleftrightarrow> (\<exists>b. EvaluatePredicate predicate schema (tu_values t) = Inr b)"

fun child_inv :: "(Operator \<Rightarrow> Database \<Rightarrow> bool) \<Rightarrow> Operator \<Rightarrow> Database \<Rightarrow> bool" where
  "child_inv I (FilterOperator child predicate schema error) db = (I child db \<and> Status_ok error)"
| "child_inv I (ProjectOperator child items schema indices column_names error) db = (I child db \<and> Status_ok error)"
| "child_inv I (LimitOperator child limit returned) db = I child db"
| "child_inv I op db = False"

lemma filter_yields:
  assumes "yields I Operator_Next child db ts child' db'" "\<forall>t \<in> set ts. evaluates predicate schema t" "Status_ok error"
  shows "yields (child_inv I) Operator_Next (FilterOperator child predicate schema error) db (filter (matches predicate schema) ts)
    (FilterOperator child' predicate schema error) db'"
  using assms(1,2)
proof (induction rule: yields.induct)
  case (stop op db op' db')
  then show ?case using assms(3)
    by (auto intro!: yields.stop simp: Operator_Next.simps [of "FilterOperator op predicate schema error"] FilterOperator_Next_def)
next
  case (more op db t op1 db1 ts op' db')
  then obtain b where b: "EvaluatePredicate predicate schema (tu_values t) = Inr b" by (auto simp: evaluates_def)
  have n: "Operator_Next (FilterOperator op predicate schema error) db =
    (if b then Some (Some t, FilterOperator op1 predicate schema error, db1) else Operator_Next (FilterOperator op1 predicate schema error) db1)"
    using more(1) b by (simp add: Operator_Next.simps [of "FilterOperator op predicate schema error"] FilterOperator_Next_def)
  have ih: "yields (child_inv I) Operator_Next (FilterOperator op1 predicate schema error) db1 (filter (matches predicate schema) ts)
    (FilterOperator op' predicate schema error) db'" using more by simp
  show ?case
  proof (cases b)
    case True
    then have "matches predicate schema t" using b by (simp add: matches_def)
    then show ?thesis using True n ih more(2) assms(3) by (auto intro!: yields.more)
  next
    case False
    then have "\<not> matches predicate schema t" using b by (simp add: matches_def)
    moreover from False n have n': "Operator_Next (FilterOperator op predicate schema error) db = Operator_Next (FilterOperator op1 predicate schema error) db1" by simp
    ultimately show ?thesis using ih
      by (cases "filter (matches predicate schema) ts")
        (auto elim!: yields_NilE yields_ConsE intro: yields.stop yields.more simp: n')
  qed
qed

definition project_tuple :: "nat list \<Rightarrow> Tuple \<Rightarrow> Tuple" where
  "project_tuple indices t = \<lparr>tu_rid = tu_rid t, tu_values = map ((!) (tu_values t)) indices\<rparr>"

lemma project_yields:
  assumes "yields I Operator_Next child db ts child' db'" "\<forall>t \<in> set ts. \<forall>idx \<in> set indices. idx < length (tu_values t)" "Status_ok error"
  shows "yields (child_inv I) Operator_Next (ProjectOperator child items schema indices column_names error) db (map (project_tuple indices) ts)
    (ProjectOperator child' items schema indices column_names error) db'"
  using assms(1,2)
proof (induction rule: yields.induct)
  case (stop op db op' db')
  then show ?case using assms(3)
    by (auto intro!: yields.stop simp: Operator_Next.simps [of "ProjectOperator op items schema indices column_names error"] ProjectOperator_Next_def)
next
  case (more op db t op1 db1 ts op' db')
  then have "project_values indices (tu_values t) = Some (map ((!) (tu_values t)) indices)" by (auto simp: project_values_def not_le)
  then have n: "Operator_Next (ProjectOperator op items schema indices column_names error) db =
    Some (Some (project_tuple indices t), ProjectOperator op1 items schema indices column_names error, db1)"
    using more(1) by (simp add: Operator_Next.simps [of "ProjectOperator op items schema indices column_names error"] ProjectOperator_Next_def project_tuple_def)
  from more have "yields (child_inv I) Operator_Next (ProjectOperator op1 items schema indices column_names error) db1 (map (project_tuple indices) ts)
    (ProjectOperator op' items schema indices column_names error) db'" by simp
  with n more(2) assms(3) show ?case by (auto intro!: yields.more)
qed

lemma sint_suc:
  fixes a b :: "64 word"
  assumes "sint a < sint b"
  shows "sint (a + 1) = sint a + 1"
proof -
  have "- (2 ^ 63) \<le> sint a" "sint b < 2 ^ 63" using sint_greater_eq [of a] sint_lt [of b] by simp_all
  with assms have "sint a + 1 < 2 ^ 63" "- (2 ^ 63) \<le> sint a + 1" by simp_all
  then show ?thesis by (simp add: sint_word_ariths(1) signed_take_bit_int_eq_self)
qed

text \<open>A limit stops the child after its number of tuples.\<close>

lemma limit_yields:
  assumes "yields I Operator_Next child db ts child' db'" "I child db"
  shows "\<exists>child1 r1 db1. yields (child_inv I) Operator_Next (LimitOperator child limit r) db (take (nat (sint limit - sint r)) ts)
    (LimitOperator child1 limit r1) db1 \<and> I child1 db1"
  using assms
proof (induction arbitrary: r rule: yields.induct)
  case (stop op db op' db')
  show ?case
  proof (cases "limit \<le>s r")
    case True
    then have "yields (child_inv I) Operator_Next (LimitOperator op limit r) db [] (LimitOperator op limit r) db"
      using stop(3) by (intro yields.stop) (simp_all add: Operator_Next.simps [of "LimitOperator op limit r"] LimitOperator_Next_def)
    then show ?thesis using stop(3) by auto
  next
    case False
    then have "yields (child_inv I) Operator_Next (LimitOperator op limit r) db [] (LimitOperator op' limit r) db'"
      using stop(1,2) by (intro yields.stop) (simp_all add: Operator_Next.simps [of "LimitOperator op limit r"] LimitOperator_Next_def)
    then show ?thesis using stop(2) by auto
  qed
next
  case (more op db t op1 db1 ts op' db')
  show ?case
  proof (cases "limit \<le>s r")
    case True
    then have "sint limit - sint r \<le> 0" by (simp add: word_sle_eq)
    moreover have "yields (child_inv I) Operator_Next (LimitOperator op limit r) db [] (LimitOperator op limit r) db"
      using more(5) True by (intro yields.stop) (simp_all add: Operator_Next.simps [of "LimitOperator op limit r"] LimitOperator_Next_def)
    ultimately show ?thesis using more(5) by auto
  next
    case False
    then have lt: "sint r < sint limit" by (simp add: word_sle_eq)
    have n: "Operator_Next (LimitOperator op limit r) db = Some (Some t, LimitOperator op1 limit (r + 1), db1)"
      using more(1) False by (simp add: Operator_Next.simps [of "LimitOperator op limit r"] LimitOperator_Next_def)
    obtain c2 r2 db2 where ih: "yields (child_inv I) Operator_Next (LimitOperator op1 limit (r + 1)) db1 (take (nat (sint limit - sint (r + 1))) ts)
      (LimitOperator c2 limit r2) db2" "I c2 db2" using more(4) [OF more(2)] by blast
    have "nat (sint limit - sint r) = Suc (nat (sint limit - sint (r + 1)))" using lt sint_suc [OF lt] by simp
    then have "take (nat (sint limit - sint r)) (t # ts) = t # take (nat (sint limit - sint (r + 1))) ts" by simp
    moreover have "child_inv I (LimitOperator op1 limit (r + 1)) db1" using more(2) by simp
    ultimately show ?thesis using yields.more [where I = "child_inv I", OF n _ ih(1)] ih(2) by auto
  qed
qed

lemma sort_yields:
  assumes "cursor \<le> length buffered" "Status_ok error" "\<And>c. c \<le> length buffered \<Longrightarrow> I (SortOperator child ob schema buffered c error child_error) db"
  shows "yields I Operator_Next (SortOperator child ob schema buffered cursor error child_error) db (drop cursor buffered)
    (SortOperator child ob schema buffered (length buffered) error child_error) db"
  using assms(1)
proof (induction "length buffered - cursor" arbitrary: cursor)
  case 0
  then have "cursor = length buffered" by simp
  with assms(3) show ?case by (auto intro!: yields.stop simp: Operator_Next.simps SortOperator_Next_def)
next
  case (Suc k)
  then have c: "cursor < length buffered" by simp
  then have "drop cursor buffered = buffered ! cursor # drop (cursor + 1) buffered" by (simp add: Cons_nth_drop_Suc)
  moreover have "yields I Operator_Next (SortOperator child ob schema buffered (cursor + 1) error child_error) db (drop (cursor + 1) buffered)
    (SortOperator child ob schema buffered (length buffered) error child_error) db"
    using Suc(1) [of "cursor + 1"] Suc(2) c by simp
  ultimately show ?case using c assms(2) assms(3) [of "cursor + 1"]
    by (auto intro!: yields.more simp: Operator_Next.simps [of "SortOperator child ob schema buffered cursor error child_error"] SortOperator_Next_def)
qed

text \<open>An index scan whose candidates can all be read.\<close>

lemma index_scan_yields:
  assumes read: "\<And>rid db. rid \<in> set candidates \<Longrightarrow> J db \<Longrightarrow> \<exists>db'. TableManager_GetRow table rid db = Some (Inr (row rid), db') \<and> J db'"
    and "J db" "cursor \<le> length candidates"
  shows "\<exists>db'. yields (\<lambda>op db. J db \<and> Operator_GetError op = error) Operator_Next
      (IndexScanOperator table tree low li high hi equal_only candidates cursor error) db
      (map (\<lambda>rid. \<lparr>tu_rid = rid, tu_values = row rid\<rparr>) (drop cursor candidates))
      (IndexScanOperator table tree low li high hi equal_only candidates (length candidates) error) db'"
  using assms(2,3)
proof (induction "length candidates - cursor" arbitrary: cursor db)
  case 0
  then have "cursor = length candidates" by simp
  then have "Operator_Next (IndexScanOperator table tree low li high hi equal_only candidates cursor error) db =
    Some (None, IndexScanOperator table tree low li high hi equal_only candidates cursor error, db)"
    by (simp add: Operator_Next.simps IndexScanOperator_Next_def index_scan_next.simps [of table candidates "length candidates"])
  with 0 \<open>cursor = _\<close> show ?case by (auto intro!: exI [of _ db] yields.stop)
next
  case (Suc k)
  let ?op = "\<lambda>c. IndexScanOperator table tree low li high hi equal_only candidates c error"
  have c: "cursor < length candidates" using Suc(2) by simp
  obtain db1 where g: "TableManager_GetRow table (candidates ! cursor) db = Some (Inr (row (candidates ! cursor)), db1)" "J db1"
    using read [of "candidates ! cursor" db] c Suc(3) by auto
  have n: "Operator_Next (?op cursor) db = Some (Some \<lparr>tu_rid = candidates ! cursor, tu_values = row (candidates ! cursor)\<rparr>, ?op (cursor + 1), db1)"
    using g(1) c by (simp add: Operator_Next.simps [of "?op cursor"] IndexScanOperator_Next_def index_scan_next.simps [of table candidates cursor] Let_def)
  obtain db' where "yields (\<lambda>op db. J db \<and> Operator_GetError op = error) Operator_Next (?op (cursor + 1)) db1
      (map (\<lambda>rid. \<lparr>tu_rid = rid, tu_values = row rid\<rparr>) (drop (cursor + 1) candidates)) (?op (length candidates)) db'"
    using Suc(1) [of "cursor + 1" db1] Suc(2) c g(2) by (metis Suc_eq_plus1 Suc_leI diff_Suc diff_Suc_1' nat.case(2))
  moreover have "drop cursor candidates = candidates ! cursor # drop (cursor + 1) candidates" using c by (simp add: Cons_nth_drop_Suc)
  ultimately show ?case using n g(2) by (auto intro!: exI [of _ db'] yields.more)
qed

section \<open>Sorting\<close>

text \<open>A strict weak order on a set, and what sorting by it promises.\<close>

definition weak_order_on :: "'a set \<Rightarrow> ('a \<Rightarrow> 'a \<Rightarrow> bool) \<Rightarrow> bool" where
  "weak_order_on A before \<longleftrightarrow> (\<forall>x \<in> A. \<not> before x x) \<and>
     (\<forall>x \<in> A. \<forall>y \<in> A. \<forall>z \<in> A. before x z \<longrightarrow> before x y \<or> before y z) \<and>
     (\<forall>x \<in> A. \<forall>y \<in> A. before x y \<longrightarrow> \<not> before y x)"

lemma set_insert_before [simp]: "set (insert_before before x xs) = insert x (set xs)"
  by (induction xs) auto

lemma mset_insert_before [simp]: "mset (insert_before before x xs) = add_mset x (mset xs)"
  by (induction xs) auto

lemma mset_stable_sort: "mset (stable_sort before xs) = mset xs"
  unfolding stable_sort_def by (induction xs) simp_all

lemma set_stable_sort [simp]: "set (stable_sort before xs) = set xs"
  using arg_cong [OF mset_stable_sort, of set_mset before xs] by simp

lemma sorted_insert_before:
  assumes "weak_order_on A before" "x \<in> A" "set xs \<subseteq> A" "sorted_wrt (\<lambda>a b. \<not> before b a) xs"
  shows "sorted_wrt (\<lambda>a b. \<not> before b a) (insert_before before x xs)"
  using assms(3,4)
proof (induction xs)
  case (Cons y ys)
  have w: "\<not> before x y \<or> \<not> before y x" "\<And>z. z \<in> A \<Longrightarrow> before z x \<Longrightarrow> before z y \<or> before y x" "y \<in> A"
    using assms(1,2) Cons.prems(1) unfolding weak_order_on_def by (meson list.set_intros(1) subsetD)+
  show ?case
  proof (cases "before y x")
    case True
    then show ?thesis using Cons w(1) by auto
  next
    case False
    have "\<not> before z x" if "z \<in> set ys" for z
      using w(2) [of z] False Cons.prems that by auto
    then show ?thesis using False Cons.prems by auto
  qed
qed simp

lemma sorted_stable_sort:
  assumes "weak_order_on (set xs) before"
  shows "sorted_wrt (\<lambda>a b. \<not> before b a) (stable_sort before xs)"
proof -
  have "sorted_wrt (\<lambda>a b. \<not> before b a) (stable_sort before ys)" if "set ys \<subseteq> set xs" for ys
    using that
  proof (induction ys)
    case (Cons y ys)
    then have "sorted_wrt (\<lambda>a b. \<not> before b a) (stable_sort before ys)" "set (stable_sort before ys) \<subseteq> set xs" "y \<in> set xs" by simp_all
    from sorted_insert_before [OF assms this(3,2,1)] show ?case by (simp add: stable_sort_def)
  qed (simp add: stable_sort_def)
  then show ?thesis by blast
qed

text \<open>Elements of equal rank keep their order.\<close>

lemma stable_sort_stable:
  assumes "weak_order_on (set xs) before" "k \<in> set xs"
  shows "filter (\<lambda>x. \<not> before x k \<and> \<not> before k x) (stable_sort before xs) = filter (\<lambda>x. \<not> before x k \<and> \<not> before k x) xs"
proof -
  let ?E = "\<lambda>x. \<not> before x k \<and> \<not> before k x"
  have ins: "filter ?E (insert_before before y zs) = filter ?E (y # zs)" if "y \<in> set xs" "set zs \<subseteq> set xs" for y zs
    using that(2)
  proof (induction zs)
    case (Cons z zs)
    have "\<not> (?E y \<and> ?E z)" if "before z y"
      using assms that \<open>y \<in> set xs\<close> Cons.prems unfolding weak_order_on_def by (meson list.set_intros(1) subsetD)
    then show ?case using Cons by auto
  qed simp
  have "filter ?E (stable_sort before ys) = filter ?E ys" if "set ys \<subseteq> set xs" for ys
    using that
  proof (induction ys)
    case (Cons y ys)
    then show ?case using ins [of y "stable_sort before ys"] by (simp add: stable_sort_def set_stable_sort [unfolded stable_sort_def])
  qed (simp add: stable_sort_def)
  then show ?thesis by blast
qed

end
