(* ===== verification/Queries.thy ===== *)
theory Queries
  imports Sql_Effects Pipelines
begin

text \<open>
  Queries: a \<open>SELECT\<close> without aggregates returns the rows of the table that satisfy its condition, sorted, cut
  off and projected as the statement says; \<open>exact_scan\<close> says when a scan, of the table or of an index, has all of them.
\<close>

section \<open>The condition on the key\<close>

text \<open>
  Comparison goes through doubles. It is exact when one of the two integers is small enough.
\<close>

lemma d_scaled_order:
  assumes "\<bar>v\<bar> < 2 ^ 53 - 1"
  shows "d_scaled (d_of_int k) < d_scaled (d_of_int v) \<longleftrightarrow> k < v" "d_scaled (d_of_int v) < d_scaled (d_of_int k) \<longleftrightarrow> v < k"
    "d_scaled (d_of_int k) = d_scaled (d_of_int v) \<longleftrightarrow> k = v"
proof -
  have less: "d_scaled (d_of_int i) < d_scaled (d_of_int j)" if "i < j" "i = v \<or> j = v" for i j
  proof (cases "i = v")
    case True
    have e: "d_scaled (d_of_int (v + 1)) = (v + 1) * 2 ^ 1074" "d_scaled (d_of_int v) = v * 2 ^ 1074" using assms by (intro d_of_int_exact; simp)+
    have "v * 2 ^ 1074 < (v + 1) * 2 ^ 1074" by (rule mult_strict_right_mono) simp_all
    with e d_of_int_mono [of "v + 1" j] that True show ?thesis by simp
  next
    case False
    have e: "d_scaled (d_of_int (v - 1)) = (v - 1) * 2 ^ 1074" "d_scaled (d_of_int v) = v * 2 ^ 1074" using assms by (intro d_of_int_exact; simp)+
    have "(v - 1) * 2 ^ 1074 < v * 2 ^ 1074" by (rule mult_strict_right_mono) simp_all
    with e d_of_int_mono [of i "v - 1"] that False show ?thesis by simp
  qed
  show "d_scaled (d_of_int k) < d_scaled (d_of_int v) \<longleftrightarrow> k < v" "d_scaled (d_of_int v) < d_scaled (d_of_int k) \<longleftrightarrow> v < k"
    "d_scaled (d_of_int k) = d_scaled (d_of_int v) \<longleftrightarrow> k = v"
    using less [of k v] less [of v k] by (cases k v rule: linorder_cases; simp)+
qed

lemma compare_doubles:
  assumes "ToDouble a = Some (d_of_int k)"
  shows "CompareOrdered a (VBigInt v) = Inr (sgn (d_scaled (d_of_int k) - d_scaled (d_of_int (sint v))))"
    "CompareOrdered (VBigInt v) a = Inr (sgn (d_scaled (d_of_int (sint v)) - d_scaled (d_of_int k)))"
    "ValuesEqual a (VBigInt v) = Inr (d_scaled (d_of_int k) = d_scaled (d_of_int (sint v)))"
    "ValuesEqual (VBigInt v) a = Inr (d_scaled (d_of_int k) = d_scaled (d_of_int (sint v)))"
  using assms by (auto simp: CompareOrdered_def ValuesEqual_def d_less_def d_eq_def IsNull_def ToDouble_def)

text \<open>
  What the chosen conjunct says about the key, and the conjuncts for which the index has all the rows. The
  key is compared as an integer and the condition through doubles, so a comparison that includes equality
  needs a constant that a double represents exactly. A row with NULL in the column is not in the index, but
  satisfies \<open>!=\<close>.
\<close>

definition key_cond :: "IndexableConjunct \<Rightarrow> Key \<Rightarrow> bool" where
  "key_cond x k = (case ic_op x of
       BinaryOp.kEq \<Rightarrow> k = ic_value x
     | BinaryOp.kLt \<Rightarrow> sint k < sint (ic_value x)
     | BinaryOp.kLte \<Rightarrow> sint k \<le> sint (ic_value x)
     | BinaryOp.kGt \<Rightarrow> sint (ic_value x) < sint k
     | BinaryOp.kGte \<Rightarrow> sint (ic_value x) \<le> sint k
     | _ \<Rightarrow> True)"

definition exact_conjunct :: "Schema \<Rightarrow> (RecordId \<rightharpoonup> Value list) \<Rightarrow> IndexableConjunct \<Rightarrow> bool" where
  "exact_conjunct sch R x = (case ic_op x of
       BinaryOp.kLt \<Rightarrow> True
     | BinaryOp.kGt \<Rightarrow> True
     | BinaryOp.kNeq \<Rightarrow> \<forall>i rid vs. Schema_IndexOf sch (ic_column x) = Some i \<and> R rid = Some vs \<longrightarrow> \<not> IsNull (vs ! i)
     | _ \<Rightarrow> \<bar>sint (ic_value x)\<bar> < 2 ^ 53 - 1)"

lemma integer_key:
  assumes "ValueMatchesType a ct" "ct = ColumnType.kInt \<or> ct = ColumnType.kBigInt" "\<not> IsNull a"
  obtains k where "ExtractInt64Key a = Some k" "ToDouble a = Some (d_of_int (sint k))"
proof (cases a)
  case (VInt i)
  have "sint (word_of_int (sint i) :: Key) = sint i"
    unfolding sint_sbintrunc' using sint_less [of i] sint_ge [of i] by (simp add: signed_take_bit_int_eq_self)
  with VInt that show thesis by (simp add: ExtractInt64Key_def ToDouble_def)
next
  case (VBigInt i)
  with that show thesis by (simp add: ExtractInt64Key_def ToDouble_def)
qed (use assms in \<open>auto simp: ValueMatchesType_def IsNull_def\<close>)

definition op_cond :: "BinaryOp \<Rightarrow> int \<Rightarrow> int \<Rightarrow> bool" where
  "op_cond op a b = (case op of BinaryOp.kEq \<Rightarrow> a = b | BinaryOp.kNeq \<Rightarrow> a \<noteq> b | BinaryOp.kLt \<Rightarrow> a < b | BinaryOp.kLte \<Rightarrow> a \<le> b
     | BinaryOp.kGt \<Rightarrow> b < a | BinaryOp.kGte \<Rightarrow> b \<le> a | _ \<Rightarrow> False)"

lemma compared_evaluate:
  assumes "Schema_IndexOf sch col = Some i" "\<not> IsNull (vs ! i)" "op \<noteq> BinaryOp.kAnd" "op \<noteq> BinaryOp.kOr"
    and "CompareOrdered (vs ! i) (VBigInt v) = Inr (sgn (p - q))" "CompareOrdered (VBigInt v) (vs ! i) = Inr (sgn (q - p))"
    and "ValuesEqual (vs ! i) (VBigInt v) = Inr (p = q)" "ValuesEqual (VBigInt v) (vs ! i) = Inr (p = q)"
  shows "Evaluate (BinaryExpr (ColumnRefExpr col) op (LiteralExpr (VBigInt v))) sch vs = Inr (VBool (op_cond op p q))"
    "Evaluate (BinaryExpr (LiteralExpr (VBigInt v)) op (ColumnRefExpr col)) sch vs = Inr (VBool (op_cond op q p))"
  using assms by (cases op; auto simp: op_cond_def compare_result_def sgn_if IsNull_def)+

lemma Evaluate_compare:
  assumes "Schema_IndexOf sch col = Some i" "ToDouble (vs ! i) = Some (d_of_int k)" "op \<noteq> BinaryOp.kAnd" "op \<noteq> BinaryOp.kOr"
  shows "Evaluate (BinaryExpr (ColumnRefExpr col) op (LiteralExpr (VBigInt v))) sch vs =
      Inr (VBool (op_cond op (d_scaled (d_of_int k)) (d_scaled (d_of_int (sint v)))))"
    "Evaluate (BinaryExpr (LiteralExpr (VBigInt v)) op (ColumnRefExpr col)) sch vs =
      Inr (VBool (op_cond op (d_scaled (d_of_int (sint v))) (d_scaled (d_of_int k))))"
proof -
  have n: "\<not> IsNull (vs ! i)" using assms(2) by (auto simp: IsNull_def ToDouble_def)
  note c = compared_evaluate [OF assms(1) n assms(3,4) compare_doubles [OF assms(2)]]
  show "Evaluate (BinaryExpr (ColumnRefExpr col) op (LiteralExpr (VBigInt v))) sch vs =
      Inr (VBool (op_cond op (d_scaled (d_of_int k)) (d_scaled (d_of_int (sint v)))))"
    "Evaluate (BinaryExpr (LiteralExpr (VBigInt v)) op (ColumnRefExpr col)) sch vs =
      Inr (VBool (op_cond op (d_scaled (d_of_int (sint v))) (d_scaled (d_of_int k))))"
    by (rule c)+
qed

lemma d_scaled_less: "d_scaled (d_of_int a) < d_scaled (d_of_int b) \<Longrightarrow> a < b"
  using d_of_int_mono [of b a] by (meson leD not_le_imp_less)

lemma key_cond_op:
  assumes c: "op_cond (ic_op x) (d_scaled (d_of_int (sint k))) (d_scaled (d_of_int (sint (ic_value x))))" and x: "exact_conjunct sch R x"
  shows "key_cond x k"
proof -
  define p q where "p = d_scaled (d_of_int (sint k))" and "q = d_scaled (d_of_int (sint (ic_value x)))"
  have less: "p < q \<Longrightarrow> sint k < sint (ic_value x)" "q < p \<Longrightarrow> sint (ic_value x) < sint k"
    unfolding p_def q_def by (rule d_scaled_less, assumption)+
  have eq: "p = q \<Longrightarrow> \<bar>sint (ic_value x)\<bar> < 2 ^ 53 - 1 \<Longrightarrow> sint k = sint (ic_value x)"
    unfolding p_def q_def by (simp only: d_scaled_order(3))
  have "op_cond (ic_op x) p q" using c by (simp only: p_def q_def)
  with less eq x show ?thesis
    by (cases "ic_op x") (auto simp: op_cond_def key_cond_def exact_conjunct_def signed_word_eqI le_less)
qed

lemma op_cond_flip: "op_cond (FlipComparisonOp op) a b = op_cond op b a"
  by (cases op) (auto simp: op_cond_def FlipComparisonOp_def)

lemma conjunct_key:
  assumes x: "ExtractIndexableConjunct c = Some x" "exact_conjunct sch R x" and true: "Evaluate c sch vs = Inr (VBool True)"
    and col: "Schema_IndexOf sch (ic_column x) = Some i" "ValueMatchesType (vs ! i) ct" "ct = ColumnType.kInt \<or> ct = ColumnType.kBigInt"
    and row: "R rid = Some vs"
  obtains k where "ExtractInt64Key (vs ! i) = Some k" "key_cond x k"
proof -
  obtain name op v where y: "c = BinaryExpr (ColumnRefExpr name) op (LiteralExpr (VBigInt v)) \<and> x = \<lparr>ic_column = name, ic_op = op, ic_value = v\<rparr> \<or>
      c = BinaryExpr (LiteralExpr (VBigInt v)) op (ColumnRefExpr name) \<and> x = \<lparr>ic_column = name, ic_op = FlipComparisonOp op, ic_value = v\<rparr>"
    "op \<noteq> BinaryOp.kAnd" "op \<noteq> BinaryOp.kOr"
    using x(1) by (cases c) (auto simp: ExtractIndexableConjunct_def split: if_splits Expr.splits Value.splits)
  have e: "ic_column x = name" "ic_value x = v" using y by auto
  have "\<not> IsNull (vs ! i)"
  proof
    assume n: "IsNull (vs ! i)"
    then have "ic_op x \<noteq> BinaryOp.kNeq" using x(2) col(1) row by (auto simp: exact_conjunct_def)
    then have "op \<noteq> BinaryOp.kNeq" using y by (auto simp: FlipComparisonOp_def)
    then have "Evaluate c sch vs = Inr (VBool False)" using y col(1) e n
      by (cases op; auto simp: ValuesEqual_def)
    with true show False by simp
  qed
  then obtain k where k: "ExtractInt64Key (vs ! i) = Some k" "ToDouble (vs ! i) = Some (d_of_int (sint k))" by (rule integer_key [OF col(2,3)])
  have "op_cond (ic_op x) (d_scaled (d_of_int (sint k))) (d_scaled (d_of_int (sint v)))"
    using y(1) true Evaluate_compare [OF col(1) [unfolded e(1)] k(2) y(2,3)] by (auto simp: op_cond_flip)
  then show thesis using that [OF k(1)] key_cond_op [OF _ x(2), of k] e(2) by simp
qed

lemma conjuncts_true: "Evaluate e sch vs = Inr (VBool True) \<Longrightarrow> c \<in> set (FlattenAnd e) \<Longrightarrow> Evaluate c sch vs = Inr (VBool True)"
proof (induction e rule: FlattenAnd.induct)
  case (1 l op r)
  then show ?case by (cases "op = BinaryOp.kAnd") (auto simp: Evaluate_and_true simp del: Evaluate.simps)
qed simp_all

lemma chosen_conjunct:
  assumes "choose_index indexes cs chosen = Some (x, idx)"
  shows "chosen = Some (x, idx) \<or> (\<exists>c \<in> set cs. ExtractIndexableConjunct c = Some x) \<and> idx \<in> set indexes \<and> im_column_name idx = ic_column x"
  using assms
proof (induction indexes cs chosen rule: choose_index.induct)
  case (2 indexes c cs chosen)
  show ?case
  proof (cases "ExtractIndexableConjunct c")
    case None
    with 2 show ?thesis by auto
  next
    case (Some y)
    show ?thesis
    proof (cases "find (\<lambda>idx. im_column_name idx = ic_column y) indexes")
      case None
      with 2 Some show ?thesis by auto
    next
      case f: (Some j)
      then have "j \<in> set indexes" "im_column_name j = ic_column y" by (auto simp: find_Some_iff)
      with 2 Some f show ?thesis by (auto split: if_splits)
    qed
  qed
qed simp

section \<open>Scans\<close>

definition tuple_of :: "RecordId \<times> Value list \<Rightarrow> Tuple" where
  "tuple_of p = \<lparr>tu_rid = fst p, tu_values = snd p\<rparr>"

text \<open>The state of a running query: the database is unchanged and the operator has no error.\<close>

definition running :: "(string \<Rightarrow> page_id_t list) \<Rightarrow> contents \<Rightarrow> (string \<Rightarrow> btree) \<Rightarrow> nat \<Rightarrow> Operator \<Rightarrow> Database \<Rightarrow> bool" where
  "running P T F N op db \<longleftrightarrow> exec_inv db P T F N \<and> Operator_GetError op = Status_OK"

text \<open>An operator that opens and then yields the tuples of a list of rows.\<close>

definition opens :: "(Operator \<Rightarrow> Database \<Rightarrow> bool) \<Rightarrow> Operator \<Rightarrow> Database \<Rightarrow> Tuple list \<Rightarrow> bool" where
  "opens I op db ts \<longleftrightarrow> (\<exists>op1 db1 op2 db2. Operator_Open op db = Some (op1, db1) \<and> I op1 db1 \<and> yields I Operator_Next op1 db1 ts op2 db2)"

lemma buffer_tuples: "fold (\<lambda>(rid, vs). (\<lambda>rid values acc. acc @ [\<lparr>tu_rid = rid, tu_values = values\<rparr>]) rid vs) xs acc = acc @ map tuple_of xs"
  by (induction xs arbitrary: acc) (auto simp: tuple_of_def)

lemma seq_scan_opens:
  assumes inv: "exec_inv db P T F N" and t: "T t = Some (sch, R)"
  obtains ts where "opens (running P T F N) (SeqScanOperator_new t) db (map tuple_of ts)" "distinct (map fst ts)" "map_of ts = R"
proof -
  note h = exec_invD(2) [OF inv]
  let ?xs = "table_list (bp_view (tb_data_pool db)) sch (P t)"
  obtain bp ops where s: "TableManager_Scan t (\<lambda>rid values acc. acc @ [\<lparr>tu_rid = rid, tu_values = values\<rparr>]) [] db =
      Some (Status_OK, fold (\<lambda>(rid, vs). (\<lambda>rid values acc. acc @ [\<lparr>tu_rid = rid, tu_values = values\<rparr>]) rid vs) ?xs [], db\<lparr>tb_data_pool := bp, tb_open_tables := ops\<rparr>)"
    "tables_hold (db\<lparr>tb_data_pool := bp, tb_open_tables := ops\<rparr>) P T"
    by (rule Scan_table [OF h t])
  let ?db = "db\<lparr>tb_data_pool := bp, tb_open_tables := ops\<rparr>"
  have r: "running P T F N (SeqScanOperator t (map tuple_of ?xs) c) ?db" for c
    using exec_inv_data [OF inv s(2)] by (simp add: running_def)
  have "Operator_Open (SeqScanOperator_new t) db = Some (SeqScanOperator t (map tuple_of ?xs) 0, ?db)"
    using s(1) by (simp add: SeqScanOperator_new_def SeqScanOperator_Open_def buffer_tuples)
  moreover have "yields (running P T F N) Operator_Next (SeqScanOperator t (map tuple_of ?xs) 0) ?db (map tuple_of ?xs)
      (SeqScanOperator t (map tuple_of ?xs) (length (map tuple_of ?xs))) ?db"
    using seq_scan_yields [of "map tuple_of ?xs" "running P T F N" t ?db 0] r by simp
  ultimately show thesis using that [of ?xs] table_list_table [OF h t] r unfolding opens_def by blast
qed

text \<open>The candidates of an index scan.\<close>

lemma exec_inv_index:
  assumes "exec_inv db P T F N" "pool_to (db_index_pool db) (bp_view (db_index_pool db)) (bp_avail (db_index_pool db)) bp"
  shows "exec_inv (db\<lparr>db_index_pool := bp\<rparr>) P T F N"
  using assms pool_toD [OF assms(2)] pool_room_to [OF assms(2)] by (simp add: exec_inv_def db_holds_def index_inv_def forest_def tables_hold_def)

lemma range_cond:
  "\<not> below_range None li k \<and> \<not> above_range (Some v) False k \<longleftrightarrow> sint k < sint v"
  "\<not> below_range None li k \<and> \<not> above_range (Some v) True k \<longleftrightarrow> sint k \<le> sint v"
  "\<not> below_range (Some v) False k \<and> \<not> above_range None hi k \<longleftrightarrow> sint v < sint k"
  "\<not> below_range (Some v) True k \<and> \<not> above_range None hi k \<longleftrightarrow> sint v \<le> sint k"
  "\<not> below_range None li k \<and> \<not> above_range None hi k"
proof -
  have "sint k = sint v \<longleftrightarrow> k = v" by (auto intro: signed_word_eqI)
  then show "\<not> below_range None li k \<and> \<not> above_range (Some v) False k \<longleftrightarrow> sint k < sint v"
    "\<not> below_range None li k \<and> \<not> above_range (Some v) True k \<longleftrightarrow> sint k \<le> sint v"
    "\<not> below_range (Some v) False k \<and> \<not> above_range None hi k \<longleftrightarrow> sint v < sint k"
    "\<not> below_range (Some v) True k \<and> \<not> above_range None hi k \<longleftrightarrow> sint v \<le> sint k"
    "\<not> below_range None li k \<and> \<not> above_range None hi k"
    by (auto simp: below_range_def above_range_def)
qed

lemma index_scan_opened:
  assumes inv: "exec_inv db P T F N" and m: "db_indexes db n = Some m"
  shows "\<exists>low li high hi eq bp. Operator_Open (index_scan_for t x (im_meta_page_id m)) db =
      Some (IndexScanOperator t (im_meta_page_id m) low li high hi eq (map snd (filter (\<lambda>e. key_cond x (fst e)) (bt_entries (F n)))) 0 Status_OK,
            db\<lparr>db_index_pool := bp\<rparr>) \<and> exec_inv (db\<lparr>db_index_pool := bp\<rparr>) P T F N"
proof -
  let ?ip = "db_index_pool db" and ?meta = "im_meta_page_id m" and ?es = "bt_entries (F n)"
  obtain H where f: "pool.ready ?ip" "forest_wf (bp_view ?ip) (db_indexes db) F H"
    using index_invD(2) [OF exec_invD(3) [OF inv]] by (auto simp: forest_def)
  obtain h where w: "index_wf ?meta (bp_view ?ip) h (F n)" by (rule forest_wfD [OF f(2) m])
  have range: ?thesis if op: "index_scan_for t x ?meta = IndexScanOperator_range t ?meta low li high hi"
    and k: "\<And>k. \<not> below_range low li k \<and> \<not> above_range high hi k \<longleftrightarrow> key_cond x k" for low li high hi
  proof -
    obtain bp where b: "BPlusTree_RangeScan ?meta low li high hi ?ip =
        Some (Inr (filter (\<lambda>e. \<not> below_range low li (fst e) \<and> \<not> above_range high hi (fst e)) ?es), bp)"
      "pool_to ?ip (bp_view ?ip) (bp_avail ?ip) bp" by (rule RangeScan_index [OF f(1) w])
    from b(1) exec_inv_index [OF inv b(2)] show ?thesis unfolding k op
      by (intro exI [of _ low] exI [of _ li] exI [of _ high] exI [of _ hi] exI [of _ False] exI [of _ bp])
        (simp add: IndexScanOperator_range_def IndexScanOperator_Open_def)
  qed
  show ?thesis
  proof (cases "ic_op x")
    case kEq
    obtain bp where b: "BPlusTree_SearchEqual ?meta (ic_value x) ?ip = Some (Inr (map snd (filter (\<lambda>e. fst e = ic_value x) ?es)), bp)"
      "pool_to ?ip (bp_view ?ip) (bp_avail ?ip) bp" by (rule SearchEqual_index [OF f(1) w])
    from b(1) exec_inv_index [OF inv b(2)] kEq show ?thesis
      by (intro exI [of _ "Some (ic_value x)"] exI [of _ True] exI [of _ "Some (ic_value x)"] exI [of _ True] exI [of _ True] exI [of _ bp])
        (simp add: index_scan_for_def Let_def IndexScanOperator_equal_def IndexScanOperator_Open_def key_cond_def)
  next
    case kLt
    show ?thesis by (rule range [of None True "Some (ic_value x)" False]) (use kLt range_cond(1) in \<open>simp_all add: index_scan_for_def Let_def key_cond_def\<close>)
  next
    case kLte
    show ?thesis by (rule range [of None True "Some (ic_value x)" True]) (use kLte range_cond(2) in \<open>simp_all add: index_scan_for_def Let_def key_cond_def\<close>)
  next
    case kGt
    show ?thesis by (rule range [of "Some (ic_value x)" False None True]) (use kGt range_cond(3) in \<open>simp_all add: index_scan_for_def Let_def key_cond_def\<close>)
  next
    case kGte
    show ?thesis by (rule range [of "Some (ic_value x)" True None True]) (use kGte range_cond(4) in \<open>simp_all add: index_scan_for_def Let_def key_cond_def\<close>)
  qed (rule range [of None True None True]; use range_cond(5) in \<open>simp add: index_scan_for_def Let_def key_cond_def\<close>)+
qed

lemma index_scan_opens:
  assumes inv: "exec_inv db P T F N" and t: "T t = Some (sch, R)" and m: "db_indexes db n = Some m" "im_table_name m = t"
  obtains ts where "opens (running P T F N) (index_scan_for t x (im_meta_page_id m)) db (map tuple_of ts)" "distinct (map fst ts)"
    "\<And>rid vs. (rid, vs) \<in> set ts \<longleftrightarrow> R rid = Some vs \<and> (\<exists>k. index_key sch vs m = Some k \<and> key_cond x k)"
proof -
  let ?es = "filter (\<lambda>e. key_cond x (fst e)) (bt_entries (F n))" let ?rids = "map snd ?es"
  have ix: "indexed sch R m (bt_entries (F n))" by (rule coherentD [OF index_invD(3) [OF exec_invD(3) [OF inv]] m(1), unfolded m(2), OF t])
  then have es: "distinct ?es" "set ?es = {(k, rid). (\<exists>vs. R rid = Some vs \<and> index_key sch vs m = Some k) \<and> key_cond x k}"
    by (auto simp: indexed_def)
  have "inj_on snd (set ?es)" unfolding es(2) by (auto simp: inj_on_def)
  then have d: "distinct ?rids" using es(1) by (simp add: distinct_map)
  have rid: "rid \<in> set ?rids \<longleftrightarrow> (\<exists>vs k. R rid = Some vs \<and> index_key sch vs m = Some k \<and> key_cond x k)" for rid
    unfolding set_map es(2) by force
  let ?ts = "map (\<lambda>rid. (rid, the (R rid))) ?rids"
  have ts: "(r, vs) \<in> set ?ts \<longleftrightarrow> R r = Some vs \<and> (\<exists>k. index_key sch vs m = Some k \<and> key_cond x k)" for r vs
    unfolding set_map using rid [of r] by force
  obtain low li high hi eq bp where o: "Operator_Open (index_scan_for t x (im_meta_page_id m)) db =
      Some (IndexScanOperator t (im_meta_page_id m) low li high hi eq ?rids 0 Status_OK, db\<lparr>db_index_pool := bp\<rparr>)"
    "exec_inv (db\<lparr>db_index_pool := bp\<rparr>) P T F N" using index_scan_opened [OF inv m(1)] by blast
  let ?op = "\<lambda>c. IndexScanOperator t (im_meta_page_id m) low li high hi eq ?rids c Status_OK"
  have read: "\<exists>db'. TableManager_GetRow t rid db = Some (Inr (the (R rid)), db') \<and> exec_inv db' P T F N"
    if r: "rid \<in> set ?rids" "exec_inv db P T F N" for rid db
  proof -
    obtain vs where vs: "R rid = Some vs" using rid r(1) by blast
    obtain bp' ops' where "TableManager_GetRow t rid db = Some (Inr vs, db\<lparr>tb_data_pool := bp', tb_open_tables := ops'\<rparr>)"
      "tables_hold (db\<lparr>tb_data_pool := bp', tb_open_tables := ops'\<rparr>) P T" by (rule GetRow_table [OF exec_invD(2) [OF r(2)] t vs])
    then show ?thesis using exec_inv_data [OF r(2)] vs by auto
  qed
  obtain db' where y: "yields (\<lambda>op db. exec_inv db P T F N \<and> Operator_GetError op = Status_OK) Operator_Next (?op 0) (db\<lparr>db_index_pool := bp\<rparr>)
      (map (\<lambda>rid. \<lparr>tu_rid = rid, tu_values = the (R rid)\<rparr>) (drop 0 ?rids)) (?op (length ?rids)) db'"
    using index_scan_yields [of ?rids "\<lambda>db. exec_inv db P T F N" t "\<lambda>rid. the (R rid)", OF read o(2)] by blast
  have I: "(\<lambda>op db. exec_inv db P T F N \<and> Operator_GetError op = Status_OK) = running P T F N" by (intro ext) (simp add: running_def)
  have map: "map (\<lambda>rid. \<lparr>tu_rid = rid, tu_values = the (R rid)\<rparr>) (drop 0 ?rids) = map tuple_of ?ts" by (simp add: tuple_of_def)
  have "opens (running P T F N) (index_scan_for t x (im_meta_page_id m)) db (map tuple_of ?ts)"
    using y o unfolding I map opens_def by (auto simp: running_def)
  moreover have "distinct (map fst ?ts)" using d by (simp add: comp_def)
  ultimately show thesis using that [of ?ts] ts by blast
qed

section \<open>The scan of a query\<close>

definition scan_choice :: "string \<Rightarrow> Expr option \<Rightarrow> Database \<Rightarrow> (IndexableConjunct \<times> IndexMetadata) option" where
  "scan_choice t condition db =
     (case condition of None \<Rightarrow> None
      | Some e \<Rightarrow> if top_is_or e then None else choose_index (CatalogManager_GetIndexesForTable t (tb_catalog db)) (FlattenAnd e) None)"

lemma scan_choice_index:
  assumes inv: "exec_inv db P T F N" and c: "scan_choice t condition db = Some (x, m)"
  obtains e c n where "condition = Some e" "c \<in> set (FlattenAnd e)" "ExtractIndexableConjunct c = Some x"
    "db_indexes db n = Some m" "im_table_name m = t" "im_column_name m = ic_column x"
proof -
  obtain e where e: "condition = Some e" "choose_index (CatalogManager_GetIndexesForTable t (tb_catalog db)) (FlattenAnd e) None = Some (x, m)"
    using c by (auto simp: scan_choice_def split: option.splits if_splits)
  from chosen_conjunct [OF e(2)] obtain c where x: "c \<in> set (FlattenAnd e)" "ExtractIndexableConjunct c = Some x"
    "m \<in> set (map snd (table_indexes (tb_catalog db) t))" "im_column_name m = ic_column x" unfolding GetIndexesForTable_eq by blast
  then obtain n where "(n, m) \<in> set (table_indexes (tb_catalog db) t)" by auto
  with table_indexes_props(3) [OF index_invD(1) [OF exec_invD(3) [OF inv]]] have "db_indexes db n = Some m" "im_table_name m = t" by blast+
  with that e x show thesis by blast
qed

text \<open>The scan has all the rows that the condition selects.\<close>

definition exact_scan :: "string \<Rightarrow> Expr option \<Rightarrow> Schema \<Rightarrow> (RecordId \<rightharpoonup> Value list) \<Rightarrow> Database \<Rightarrow> bool" where
  "exact_scan t condition sch R db =
     (case scan_choice t condition db of None \<Rightarrow> True | Some (x, m) \<Rightarrow> exact_conjunct sch R x)"

lemma selected_key:
  assumes inv: "exec_inv db P T F N" and t: "T t = Some (sch, R)" and x: "exact_conjunct sch R x"
    and c: "condition = Some e" "c \<in> set (FlattenAnd e)" "ExtractIndexableConjunct c = Some x"
    and m: "db_indexes db n = Some m" "im_table_name m = t" "im_column_name m = ic_column x"
    and row: "R rid = Some vs" "selects condition sch vs"
  shows "\<exists>k. index_key sch vs m = Some k \<and> key_cond x k"
proof -
  have "indexed sch R m (bt_entries (F n))" by (rule coherentD [OF index_invD(3) [OF exec_invD(3) [OF inv]] m(1), unfolded m(2), OF t])
  then obtain i where i: "Schema_IndexOf sch (ic_column x) = Some i" "col_type (sch ! i) = ColumnType.kInt \<or> col_type (sch ! i) = ColumnType.kBigInt"
    using m(3) by (auto simp: indexed_def)
  have "i < length sch" using i(1) by (simp add: IndexOf_Some_iff)
  then have ty: "ValueMatchesType (vs ! i) (col_type (sch ! i))"
    using table_rows_typed [OF exec_invD(2) [OF inv] t row(1)] by (simp add: list_all2_conv_all_nth)
  have "Evaluate e sch vs = Inr (VBool True)"
    using row(2) c(1) by (auto simp: selects_def EvaluatePredicate_def bind_result_def split: sum.splits Value.splits)
  from conjuncts_true [OF this c(2)] have true: "Evaluate c sch vs = Inr (VBool True)" .
  from conjunct_key [OF c(3) x true i(1) ty i(2) row(1)] obtain k where "ExtractInt64Key (vs ! i) = Some k" "key_cond x k" by blast
  then show ?thesis using i(1) m(3) by (simp add: index_key_def)
qed

lemma select_scan_opens:
  assumes inv: "exec_inv db P T F N" and t: "T t = Some (sch, R)"
  obtains scan strategy ts where "select_scan t condition db = Some (scan, strategy, db)" "opens (running P T F N) scan db (map tuple_of ts)"
    "distinct (map fst ts)" "\<And>rid vs. (rid, vs) \<in> set ts \<Longrightarrow> R rid = Some vs"
    "\<And>rid vs. exact_scan t condition sch R db \<Longrightarrow> R rid = Some vs \<Longrightarrow> selects condition sch vs \<Longrightarrow> (rid, vs) \<in> set ts"
proof (cases "scan_choice t condition db")
  case None
  then have s: "select_scan t condition db = Some (SeqScanOperator_new t, ''SeqScan'', db)"
    unfolding select_scan_def scan_choice_def [symmetric] by simp
  obtain ts where ts: "opens (running P T F N) (SeqScanOperator_new t) db (map tuple_of ts)" "distinct (map fst ts)" "map_of ts = R"
    by (rule seq_scan_opens [OF inv t])
  have "(rid, vs) \<in> set ts \<longleftrightarrow> R rid = Some vs" for rid vs using map_of_eq_Some_iff [OF ts(2)] ts(3) by blast
  with that [OF s ts(1,2)] show thesis by blast
next
  case (Some p)
  obtain x m where p: "p = (x, m)" by fastforce
  obtain e c n where c: "condition = Some e" "c \<in> set (FlattenAnd e)" "ExtractIndexableConjunct c = Some x"
    "db_indexes db n = Some m" "im_table_name m = t" "im_column_name m = ic_column x" by (rule scan_choice_index [OF inv Some [unfolded p]])
  have "BPlusTree_new (im_meta_page_id m) (db_index_pool db) = Some (im_meta_page_id m, db_index_pool db)"
    by (rule forest_open [OF index_invD(2) [OF exec_invD(3) [OF inv]] c(4)])
  then have s: "select_scan t condition db = Some (index_scan_for t x (im_meta_page_id m), ''IndexScan('' @ im_index_name m @ '')'', db)"
    using Some p unfolding select_scan_def scan_choice_def [symmetric] by simp
  obtain ts where ts: "opens (running P T F N) (index_scan_for t x (im_meta_page_id m)) db (map tuple_of ts)" "distinct (map fst ts)"
    "\<And>rid vs. (rid, vs) \<in> set ts \<longleftrightarrow> R rid = Some vs \<and> (\<exists>k. index_key sch vs m = Some k \<and> key_cond x k)"
    by (rule index_scan_opens [where x = x, OF inv t c(4,5)]) (rule that; blast)
  have "exact_conjunct sch R x" if "exact_scan t condition sch R db" using that Some p by (simp add: exact_scan_def)
  then show thesis by (intro that [OF s ts(1,2)]) (use ts(3) selected_key [OF inv t _ c] in blast)+
qed

section \<open>The operators above the scan\<close>

lemma yields_mono:
  "yields I next_op op db ts op' db' \<Longrightarrow> (\<And>op db. I op db \<Longrightarrow> J op db) \<Longrightarrow> yields J next_op op db ts op' db'"
  by (induction rule: yields.induct) (blast intro: yields.stop, blast intro: yields.more)

lemma child_running: "child_inv (running P T F N) op db \<Longrightarrow> running P T F N op db"
  by (cases op) (auto simp: running_def)

lemma child_yields: "yields (child_inv (running P T F N)) next_op op db ts op' db' \<Longrightarrow> yields (running P T F N) next_op op db ts op' db'"
  by (erule yields_mono) (rule child_running)

lemma filter_opens:
  assumes "opens (running P T F N) child db ts" "\<forall>t \<in> set ts. evaluates predicate schema t"
  shows "opens (running P T F N) (FilterOperator_new child predicate schema) db (filter (matches predicate schema) ts)"
proof -
  obtain op1 db1 op2 db2 where o: "Operator_Open child db = Some (op1, db1)" "running P T F N op1 db1" "yields (running P T F N) Operator_Next op1 db1 ts op2 db2"
    using assms(1) by (auto simp: opens_def)
  have "yields (child_inv (running P T F N)) Operator_Next (FilterOperator op1 predicate schema Status_OK) db1 (filter (matches predicate schema) ts)
      (FilterOperator op2 predicate schema Status_OK) db2"
    by (rule filter_yields [OF o(3) assms(2)]) (simp add: Status_ok_def Status_OK_def)
  moreover have "running P T F N (FilterOperator op1 predicate schema Status_OK) db1" using o(2) by (simp add: running_def)
  ultimately show ?thesis using o(1) child_yields unfolding opens_def FilterOperator_new_def by fastforce
qed

lemma project_opens:
  assumes "opens (running P T F N) child db ts" "\<forall>t \<in> set ts. \<forall>idx \<in> set indices. idx < length (tu_values t)"
  shows "opens (running P T F N) (ProjectOperator child items schema indices names e) db (map (project_tuple indices) ts)"
proof -
  obtain op1 db1 op2 db2 where o: "Operator_Open child db = Some (op1, db1)" "running P T F N op1 db1" "yields (running P T F N) Operator_Next op1 db1 ts op2 db2"
    using assms(1) by (auto simp: opens_def)
  have "yields (child_inv (running P T F N)) Operator_Next (ProjectOperator op1 items schema indices names Status_OK) db1 (map (project_tuple indices) ts)
      (ProjectOperator op2 items schema indices names Status_OK) db2"
    by (rule project_yields [OF o(3) assms(2)]) (simp add: Status_ok_def Status_OK_def)
  moreover have "running P T F N (ProjectOperator op1 items schema indices names Status_OK) db1" using o(2) by (simp add: running_def)
  ultimately show ?thesis using o(1) child_yields unfolding opens_def by fastforce
qed

lemma limit_opens:
  assumes "opens (running P T F N) child db ts"
  shows "opens (running P T F N) (LimitOperator_new child n) db (take (nat (sint n)) ts)"
proof -
  obtain op1 db1 op2 db2 where o: "Operator_Open child db = Some (op1, db1)" "running P T F N op1 db1" "yields (running P T F N) Operator_Next op1 db1 ts op2 db2"
    using assms(1) by (auto simp: opens_def)
  from limit_yields [OF o(3,2), of n 0] obtain c r d where
    "yields (child_inv (running P T F N)) Operator_Next (LimitOperator op1 n 0) db1 (take (nat (sint n)) ts) (LimitOperator c n r) d" by auto
  moreover have "running P T F N (LimitOperator op1 n 0) db1" using o(2) by (simp add: running_def)
  ultimately show ?thesis using o(1) child_yields unfolding opens_def LimitOperator_new_def by fastforce
qed

lemma sort_opens:
  assumes "opens (running P T F N) child db ts" "Schema_IndexOf schema (ob_column ob) = Some col"
  shows "opens (running P T F N) (SortOperator_new child ob schema) db (stable_sort (sort_before col (descending ob)) ts)"
proof -
  obtain op1 db1 op2 db2 where o: "Operator_Open child db = Some (op1, db1)" "yields (running P T F N) Operator_Next op1 db1 ts op2 db2"
    using assms(1) by (auto simp: opens_def)
  note e = yields_inv [OF o(2)]
  let ?b = "stable_sort (sort_before col (descending ob)) ts"
  let ?op = "\<lambda>c. SortOperator (Operator_Close op2) ob schema ?b c Status_OK (Operator_GetError op2)"
  have r: "running P T F N (?op c) db2" for c using e by (simp add: running_def)
  have "Operator_Open (SortOperator_new child ob schema) db = Some (?op 0, db2)"
    using o(1) assms(2) pull_all_yields [OF o(2), of "[]"] by (simp add: SortOperator_new_def SortOperator_Open_def)
  moreover have "yields (running P T F N) Operator_Next (?op 0) db2 (drop 0 ?b) (?op (length ?b)) db2"
    by (rule sort_yields) (use r in \<open>simp_all add: Status_ok_def Status_OK_def\<close>)
  ultimately show ?thesis using r unfolding opens_def by auto
qed

lemma column_plan_bound:
  "column_plan schema items is ns = Some (indices, names, Status_OK) \<Longrightarrow> \<forall>i \<in> set is. i < length schema \<Longrightarrow> \<forall>i \<in> set indices. i < length schema"
  by (induction schema items "is" ns rule: column_plan.induct)
    (auto simp: IndexOf_Some_iff Status_InvalidArgument_def Status_OK_def split: option.splits)

lemma column_plan_indices:
  assumes "ProjectOperator_BuildColumnPlan items schema = Some (indices, names, Status_OK)" "i \<in> set indices"
  shows "i < length schema"
proof (cases "length items = 1 \<and> is_star (items ! 0)")
  case True
  then obtain col where c: "col \<in> set schema" "i = the (Schema_IndexOf schema (col_name col))" using assms by (auto simp: ProjectOperator_BuildColumnPlan_def)
  then obtain k where "Schema_IndexOf schema (col_name col) = Some k" using IndexOf_None_iff [of schema "col_name col"] by auto
  then show ?thesis using c(2) IndexOf_Some_iff [of schema "col_name col" k] by simp
next
  case False
  then show ?thesis using column_plan_bound [of schema items "[]" "[]" indices names] assms by (auto simp: ProjectOperator_BuildColumnPlan_def)
qed

section \<open>The order of the result\<close>

text \<open>NULL comes before all other values, and these in the order of their sort keys.\<close>

definition rank_less :: "Value \<Rightarrow> Value \<Rightarrow> bool" where
  "rank_less v w \<longleftrightarrow> (if IsNull v \<or> IsNull w then IsNull v \<and> \<not> IsNull w else key_less (sort_key v) (sort_key w))"

definition not_after :: "bool \<Rightarrow> Value \<Rightarrow> Value \<Rightarrow> bool" where
  "not_after desc v w \<longleftrightarrow> (if desc then \<not> rank_less v w else \<not> rank_less w v)"

lemma sort_before_rank:
  assumes "IsNull (tu_values a ! col) \<or> sortable k (tu_values a ! col)" "IsNull (tu_values b ! col) \<or> sortable k (tu_values b ! col)"
  shows "sort_before col desc a b \<longleftrightarrow> \<not> not_after desc (tu_values b ! col) (tu_values a ! col)"
  using assms CompareForSort_key [of k "tu_values a ! col" "tu_values b ! col"]
  by (auto simp: sort_before_def not_after_def rank_less_def Let_def)

lemma rank_less_order:
  "\<not> rank_less a a" "rank_less a c \<Longrightarrow> rank_less a b \<or> rank_less b c" "rank_less a b \<Longrightarrow> \<not> rank_less b a"
  using key_less_order(1) [of "sort_key a"] key_less_order(3) [of "sort_key a" "sort_key b" "sort_key c"] key_less_order(2) [of "sort_key a" "sort_key b" "sort_key a"]
  by (auto simp: rank_less_def split: if_splits)

lemma sort_before_weak_order:
  assumes "\<forall>t \<in> A. IsNull (tu_values t ! col) \<or> sortable k (tu_values t ! col)"
  shows "weak_order_on A (sort_before col desc)"
proof -
  have e: "sort_before col desc a b \<longleftrightarrow> (if desc then rank_less (tu_values b ! col) (tu_values a ! col) else rank_less (tu_values a ! col) (tu_values b ! col))"
    if "a \<in> A" "b \<in> A" for a b using sort_before_rank [of a col k b desc] assms that by (simp add: not_after_def)
  show ?thesis unfolding weak_order_on_def
    using rank_less_order e by (auto split: if_splits)
qed

text \<open>A column in which no value is a NaN.\<close>

definition no_nan :: "nat \<Rightarrow> (RecordId \<rightharpoonup> Value list) \<Rightarrow> bool" where
  "no_nan col R \<longleftrightarrow> (\<forall>rid vs d. R rid = Some vs \<longrightarrow> vs ! col = VDouble d \<longrightarrow> \<not> d_nan d)"

lemma typed_sortable:
  assumes "ValueMatchesType v ct" "\<not> IsNull v" "\<And>d. v = VDouble d \<Longrightarrow> \<not> d_nan d"
  shows "sortable (column_kind ct) v"
  using assms by (cases v; cases ct) (auto simp: sortable_def kind_of_def column_kind_def ValueMatchesType_def IsNull_def)

lemma order_sorted:
  assumes hold: "tables_hold db P T" "T t = Some (sch, R)" and col: "Schema_IndexOf sch name = Some col" and nan: "no_nan col R"
    and ts: "\<And>rid vs. (rid, vs) \<in> set ts \<Longrightarrow> R rid = Some vs"
  shows "sorted_wrt (\<lambda>a b. not_after desc (tu_values a ! col) (tu_values b ! col)) (stable_sort (sort_before col desc) (map tuple_of ts))"
proof -
  let ?ts = "map tuple_of ts" and ?k = "column_kind (col_type (sch ! col))"
  have s: "IsNull (tu_values a ! col) \<or> sortable ?k (tu_values a ! col)" if a: "a \<in> set ?ts" for a
  proof -
    obtain rid vs where r: "R rid = Some vs" "a = tuple_of (rid, vs)" using a ts by auto
    have "ValueMatchesType (vs ! col) (col_type (sch ! col))"
      using table_rows_typed [OF hold r(1)] col by (simp add: list_all2_conv_all_nth IndexOf_Some_iff)
    from typed_sortable [OF this] nan r show ?thesis by (auto simp: no_nan_def tuple_of_def)
  qed
  have "weak_order_on (set ?ts) (sort_before col desc)" by (rule sort_before_weak_order) (use s in blast)
  then have "sorted_wrt (\<lambda>a b. \<not> sort_before col desc b a) (stable_sort (sort_before col desc) ?ts)" by (rule sorted_stable_sort)
  then show ?thesis
  proof (rule sorted_wrt_mono_rel [rotated])
    fix a b
    assume "a \<in> set (stable_sort (sort_before col desc) ?ts)" "b \<in> set (stable_sort (sort_before col desc) ?ts)" "\<not> sort_before col desc b a"
    then show "not_after desc (tu_values a ! col) (tu_values b ! col)" using sort_before_rank [OF s s, of b a desc] unfolding set_stable_sort by blast
  qed
qed

lemma sorted_rows:
  assumes "distinct (map fst ms)"
  obtains us where "stable_sort before (map tuple_of ms) = map tuple_of us" "distinct (map fst us)" "set us = set ms"
proof -
  let ?s = "stable_sort before (map tuple_of ms)" let ?us = "map (\<lambda>t. (tu_rid t, tu_values t)) ?s"
  have id: "tuple_of (tu_rid t, tu_values t) = t" for t :: Tuple by (simp add: tuple_of_def)
  have 1: "?s = map tuple_of ?us" by (simp add: comp_def id)
  have "mset (map tu_rid ?s) = mset (map fst ms)" by (simp add: mset_stable_sort tuple_of_def image_mset.compositionality comp_def)
  then have "distinct (map tu_rid ?s)" using assms mset_eq_imp_distinct_iff by blast
  then have 2: "distinct (map fst ?us)" by (simp add: comp_def)
  have 3: "set ?us = set ms" by (auto simp: tuple_of_def image_comp comp_def)
  show thesis by (rule that [OF 1 2 3])
qed

text \<open>The rows after the limit.\<close>

definition limited :: "64 word option \<Rightarrow> 'a list \<Rightarrow> 'a list" where
  "limited limit xs = (case limit of None \<Rightarrow> xs | Some n \<Rightarrow> take (nat (sint n)) xs)"

lemma run_query_opens:
  assumes o: "opens (running P T F N) (case order_by of None \<Rightarrow> chain | Some ob \<Rightarrow> SortOperator_new chain ob schema) db (map tuple_of us)"
    and plan: "ProjectOperator_BuildColumnPlan items schema = Some (indices, names, Status_OK)"
    and len: "\<forall>(rid, vs) \<in> set us. length vs = length schema"
  shows "\<exists>db'. run_query chain items schema order_by limit strategy db =
      Some (Inr \<lparr>qr_column_names = names, qr_rows = map (\<lambda>(rid, vs). map ((!) vs) indices) (limited limit us), qr_rows_affected = 0,
                 qr_message = ''SELECT '' @ show_nat (length (limited limit us)), qr_scan_strategy = strategy\<rparr>, db') \<and> exec_inv db' P T F N"
proof -
  let ?sorted = "case order_by of None \<Rightarrow> chain | Some ob \<Rightarrow> SortOperator_new chain ob schema"
  let ?p = "ProjectOperator ?sorted items schema indices names Status_OK"
  let ?final = "case limit of None \<Rightarrow> ?p | Some n \<Rightarrow> LimitOperator_new ?p n"
  have "\<forall>t \<in> set (map tuple_of us). \<forall>idx \<in> set indices. idx < length (tu_values t)"
    using len column_plan_indices [OF plan] by (auto simp: tuple_of_def)
  from project_opens [OF o this] have p: "opens (running P T F N) ?p db (map (project_tuple indices) (map tuple_of us))" .
  have "opens (running P T F N) ?final db (limited limit (map (project_tuple indices) (map tuple_of us)))"
    using p limit_opens [OF p] by (cases limit) (simp_all add: limited_def)
  then obtain op1 db1 op2 db2 where y: "Operator_Open ?final db = Some (op1, db1)"
    "yields (running P T F N) Operator_Next op1 db1 (limited limit (map (project_tuple indices) (map tuple_of us))) op2 db2" by (auto simp: opens_def)
  have e: "Operator_GetError op2 = Status_OK" "exec_inv db2 P T F N" using yields_inv [OF y(2)] by (simp_all add: running_def)
  have rows: "map tu_values (limited limit (map (project_tuple indices) (map tuple_of us))) = map (\<lambda>(rid, vs). map ((!) vs) indices) (limited limit us)"
    "length (limited limit (map (project_tuple indices) (map tuple_of us))) = length (limited limit us)"
    by (cases limit; simp add: limited_def take_map project_tuple_def tuple_of_def comp_def case_prod_beta)+
  have "run_query chain items schema order_by limit strategy db =
      Some (select_result names strategy (limited limit (map (project_tuple indices) (map tuple_of us))) Status_OK, db2)"
    using plan y(1) pull_all_yields [OF y(2), of "[]"] e(1)
    by (simp add: run_query_def ProjectOperator_new_def ProjectOperator_ColumnNames_def)
  then show ?thesis using e(2) rows by (auto simp: select_result_def Status_ok_def Status_OK_def)
qed

section \<open>SELECT\<close>

text \<open>
  C1. A \<open>SELECT\<close> without aggregates, whose columns exist and whose condition has a truth value on every row of the
  table, succeeds and leaves the contents of the database as they are. The rows it returns are distinct rows of
  the table on which the condition is true, projected to the selected columns, cut off at the limit and, unless a
  NaN is in the column, in the order asked for with NULL lowest. They are all such rows (up to the limit)
  when the table is scanned, and when an index is scanned unless its comparison is \<open>!=\<close> on a column that has
  a NULL, or is one of \<open>=\<close>, \<open><=\<close>, \<open>>=\<close> with a constant of \<open>2^53 - 1\<close> or more in absolute value.
\<close>

theorem select_statement:
  assumes "exec_inv db P T F N" and "T t = Some (sch, R)"
    and "\<forall>rid vs. R rid = Some vs \<longrightarrow> (\<exists>b. EvaluatePredicate condition sch vs = Inr b)"
    and "\<forall>item \<in> set items. aggregate item = None" and "ProjectOperator_BuildColumnPlan items sch = Some (indices, names, Status_OK)"
    and "\<forall>ob. order_by = Some ob \<longrightarrow> Schema_IndexOf sch (ob_column ob) \<noteq> None"
  shows "\<exists>us strategy db'. Executor_Execute (SelectStmt items t condition order_by limit) db =
      Some (Inr \<lparr>qr_column_names = names, qr_rows = map (\<lambda>(rid, vs). map ((!) vs) indices) (limited limit us), qr_rows_affected = 0,
                 qr_message = ''SELECT '' @ show_nat (length (limited limit us)), qr_scan_strategy = strategy\<rparr>, db') \<and>
    exec_inv db' P T F N \<and> distinct (map fst us) \<and>
    set us \<subseteq> {(rid, vs). R rid = Some vs \<and> selects condition sch vs} \<and>
    (exact_scan t condition sch R db \<longrightarrow> set us = {(rid, vs). R rid = Some vs \<and> selects condition sch vs}) \<and>
    (\<forall>ob col. order_by = Some ob \<and> Schema_IndexOf sch (ob_column ob) = Some col \<and> no_nan col R \<longrightarrow>
       sorted_wrt (\<lambda>a b. not_after (descending ob) (snd a ! col) (snd b ! col)) us)"
proof -
  note hold = exec_invD(2) [OF assms(1)]
  obtain scan strategy ts where s: "select_scan t condition db = Some (scan, strategy, db)" "opens (running P T F N) scan db (map tuple_of ts)"
    "distinct (map fst ts)" "\<And>rid vs. (rid, vs) \<in> set ts \<Longrightarrow> R rid = Some vs"
    "\<And>rid vs. exact_scan t condition sch R db \<Longrightarrow> R rid = Some vs \<Longrightarrow> selects condition sch vs \<Longrightarrow> (rid, vs) \<in> set ts"
    by (rule select_scan_opens [OF assms(1,2), of condition]) (rule that; blast)
  let ?chain = "case condition of None \<Rightarrow> scan | Some _ \<Rightarrow> FilterOperator_new scan condition sch"
  let ?ms = "filter (\<lambda>p. selects condition sch (snd p)) ts"
  have m: "filter (matches condition sch) (map tuple_of ts) = map tuple_of ?ms"
    by (simp add: filter_map comp_def matches_def selects_def tuple_of_def)
  have "\<forall>u \<in> set (map tuple_of ts). evaluates condition sch u" using s(4) assms(3) by (auto simp: evaluates_def tuple_of_def) blast
  from filter_opens [OF s(2) this] m have f: "opens (running P T F N) (FilterOperator_new scan condition sch) db (map tuple_of ?ms)" by simp
  have c: "opens (running P T F N) ?chain db (map tuple_of ?ms)"
    using s(2) f by (cases condition) (simp_all add: selects_def EvaluatePredicate_def)
  have ms: "distinct (map fst ?ms)" "set ?ms \<subseteq> {(rid, vs). R rid = Some vs \<and> selects condition sch vs}"
    "exact_scan t condition sch R db \<Longrightarrow> set ?ms = {(rid, vs). R rid = Some vs \<and> selects condition sch vs}"
  proof -
    show "distinct (map fst ?ms)" by (rule List.distinct_map_filter [OF s(3)])
    show sub: "set ?ms \<subseteq> {(rid, vs). R rid = Some vs \<and> selects condition sch vs}" using s(4) by fastforce
    show "set ?ms = {(rid, vs). R rid = Some vs \<and> selects condition sch vs}" if "exact_scan t condition sch R db"
      using sub s(5) [OF that] by fastforce
  qed
  let ?sorted = "case order_by of None \<Rightarrow> ?chain | Some ob \<Rightarrow> SortOperator_new ?chain ob sch"
  obtain us where us: "opens (running P T F N) ?sorted db (map tuple_of us)" "distinct (map fst us)" "set us = set ?ms"
    "\<forall>ob col. order_by = Some ob \<and> Schema_IndexOf sch (ob_column ob) = Some col \<and> no_nan col R \<longrightarrow>
       sorted_wrt (\<lambda>a b. not_after (descending ob) (snd a ! col) (snd b ! col)) us"
  proof (cases order_by)
    case None
    then show thesis using that [of ?ms] c ms(1) by simp
  next
    case (Some ob)
    then obtain col where col: "Schema_IndexOf sch (ob_column ob) = Some col" using assms(6) by auto
    obtain us where u: "stable_sort (sort_before col (descending ob)) (map tuple_of ?ms) = map tuple_of us" "distinct (map fst us)" "set us = set ?ms"
      by (rule sorted_rows [OF ms(1)])
    have "sorted_wrt (\<lambda>a b. not_after (descending ob) (snd a ! col) (snd b ! col)) us" if "no_nan col R"
      using order_sorted [OF hold assms(2) col that, of ?ms "descending ob"] s(4) unfolding u(1) by (auto simp: sorted_wrt_map tuple_of_def)
    with that [of us] sort_opens [OF c col] u Some col show thesis by simp
  qed
  have "\<forall>(rid, vs) \<in> set us. length vs = length sch"
    using us(3) ms(2) list_all2_lengthD [OF table_rows_typed [OF hold assms(2)]] by auto
  from run_query_opens [OF us(1) assms(5) this, of limit strategy] obtain db' where
    "run_query ?chain items sch order_by limit strategy db =
      Some (Inr \<lparr>qr_column_names = names, qr_rows = map (\<lambda>(rid, vs). map ((!) vs) indices) (limited limit us), qr_rows_affected = 0,
                 qr_message = ''SELECT '' @ show_nat (length (limited limit us)), qr_scan_strategy = strategy\<rparr>, db')" "exec_inv db' P T F N" by blast
  moreover have "Executor_Execute (SelectStmt items t condition order_by limit) db = run_query ?chain items sch order_by limit strategy db"
    using s(1) assms(2,4) GetSchema_table [OF hold, of t] by (auto simp: Executor_Execute_def ExecuteSelect_def Let_def)
  moreover have "set us \<subseteq> {(rid, vs). R rid = Some vs \<and> selects condition sch vs}"
    "exact_scan t condition sch R db \<longrightarrow> set us = {(rid, vs). R rid = Some vs \<and> selects condition sch vs}"
    using ms(2,3) unfolding us(3) by blast+
  ultimately show ?thesis using us(2,4) by (intro exI [of _ us] exI [of _ strategy] exI [of _ db'] conjI) simp_all
qed

theorem select_statement_witness:
  "\<exists>db db' P F a b strategy. Executor_Execute (SelectStmt [SelectItem_default\<lparr>si_column := Some ''a''\<rparr>] ''t'' (Some a_is_one) None None) db =
      Some (Inr \<lparr>qr_column_names = [''a''], qr_rows = [[VInt 1]], qr_rows_affected = 0, qr_message = ''SELECT 1'', qr_scan_strategy = strategy\<rparr>, db') \<and>
     exec_inv db P [''t'' \<mapsto> (int_schema, [a \<mapsto> [VInt 1], b \<mapsto> [VInt 2]])] F 898 \<and> a \<noteq> b \<and> index_count db = 1"
proof -
  obtain db P F a b where db: "exec_inv db P [''t'' \<mapsto> (int_schema, [a \<mapsto> [VInt 1], b \<mapsto> [VInt 2]])] F 898" "a \<noteq> b" "index_count db = 1"
    by (rule two_rows)
  let ?R = "[a \<mapsto> [VInt 1], b \<mapsto> [VInt 2]]" let ?items = "[SelectItem_default\<lparr>si_column := Some ''a''\<rparr>]"
  have x: "exact_scan ''t'' (Some a_is_one) int_schema ?R db"
  proof (cases "scan_choice ''t'' (Some a_is_one) db")
    case (Some p)
    obtain x m where p: "p = (x, m)" by fastforce
    obtain e c n where "Some a_is_one = Some e" "c \<in> set (FlattenAnd e)" "ExtractIndexableConjunct c = Some x"
      by (rule scan_choice_index [OF db(1) Some [unfolded p]]) (rule that)
    then have "x = \<lparr>ic_column = ''a'', ic_op = BinaryOp.kEq, ic_value = 1\<rparr>" by (auto simp: a_is_one_def ExtractIndexableConjunct_def)
    with Some p show ?thesis by (simp add: exact_scan_def exact_conjunct_def)
  qed (simp add: exact_scan_def)
  have pre: "\<forall>rid vs. ?R rid = Some vs \<longrightarrow> (\<exists>b. EvaluatePredicate (Some a_is_one) int_schema vs = Inr b)" by (auto simp: evaluates_one)
  have plan: "ProjectOperator_BuildColumnPlan ?items int_schema = Some ([0], [''a''], Status_OK)"
    by (simp add: ProjectOperator_BuildColumnPlan_def SelectItem_default_def int_schema_def Schema_IndexOf_def)
  have rows: "{(rid, vs). ?R rid = Some vs \<and> selects (Some a_is_one) int_schema vs} = {(a, [VInt 1])}"
    using db(2) by (auto simp: selects_one split: if_splits)
  have "\<forall>item \<in> set ?items. aggregate item = None" "\<forall>ob. None = Some ob \<longrightarrow> Schema_IndexOf int_schema (ob_column ob) \<noteq> None"
    by (simp_all add: SelectItem_default_def)
  from select_statement [where T = "[''t'' \<mapsto> (int_schema, ?R)]" and limit = None, OF db(1) fun_upd_same pre this(1) plan this(2), unfolded rows]
  obtain us strategy db' where u: "Executor_Execute (SelectStmt ?items ''t'' (Some a_is_one) None None) db =
      Some (Inr \<lparr>qr_column_names = [''a''], qr_rows = map (\<lambda>(rid, vs). map ((!) vs) [0]) (limited None us), qr_rows_affected = 0,
                 qr_message = ''SELECT '' @ show_nat (length (limited None us)), qr_scan_strategy = strategy\<rparr>, db')"
    "distinct (map fst us)" "exact_scan ''t'' (Some a_is_one) int_schema ?R db \<longrightarrow> set us = {(a, [VInt 1])}" by (elim exE conjE) (rule that)
  have "us = [(a, [VInt 1])]" using u(2) mp [OF u(3) x] by (cases us; cases "tl us") auto
  moreover have "show_nat 1 = ''1''" by code_simp
  ultimately have "Executor_Execute (SelectStmt ?items ''t'' (Some a_is_one) None None) db =
      Some (Inr \<lparr>qr_column_names = [''a''], qr_rows = [[VInt 1]], qr_rows_affected = 0, qr_message = ''SELECT 1'', qr_scan_strategy = strategy\<rparr>, db')"
    using u(1) by (simp add: limited_def)
  with db show ?thesis by blast
qed

end
