(* ===== verification/Spec2Isabelle.thy ===== *)
theory Spec2Isabelle
  imports Record_Manager Mvcc Lock_Manager Recovery Sql_Grammar Tcp_Server Queries
begin

text \<open>
  A verification of MiniDB, a relational database engine in C++ (\<open>src/\<close>).

  \<^bold>\<open>The program.\<close> A \<open>Database\<close> (\<open>src/database.hpp\<close>) owns three files, for the catalog, the rows and the indexes. Each
  is read and written in pages of 4096 bytes by a \<open>PageManager\<close> and cached by a \<open>BufferPool\<close> with an LRU
  replacer. A \<open>HeapFile\<close> is a chain of slotted pages with variable-length records; a \<open>RecordManager\<close> stores typed
  rows in one; the \<open>TableManager\<close> finds the rows of a table by its name, with the \<open>CatalogManager\<close>, which keeps the
  schemas and index definitions in two heap files of their own. An index is a \<open>BPlusTree\<close> from 64-bit
  keys to record ids. SQL text goes through \<open>Tokenizer\<close> and \<open>Parser\<close> to the \<open>Executor\<close>, which runs queries as trees of
  operators with \<open>Open\<close>, \<open>Next\<close> and \<open>Close\<close>; results are printed by \<open>FormatQueryResult\<close>, for the REPL or for a client of
  the TCP server. Transactions, locks, row versions, the write-ahead log and recovery are
  components of their own that the executor does not use.

  \<^bold>\<open>The model.\<close> A C++ function \<open>C::f\<close> is the definition \<open>C_f\<close>, with the state it changes as argument and as part of the
  result; a struct is a record, an enum or variant a datatype. Fixed-width integers are words, a
  double is its 64-bit pattern (\<open>Doubles\<close>), a buffer is a list of bytes that is read and written as \<open>memcpy\<close>
  does (\<open>Prelude\<close>, \<open>Bytes\<close>). A \<open>Result\<close> is a sum type with the error on the left (\<open>Status\<close>). Where the code would
  dereference a null pointer or an absent optional, read out of bounds or loop forever, the
  definition returns \<open>None\<close>. Hash maps are maps, or association lists where their iteration order
  can be seen; that order is not specified by C++ and the theorems do not depend on it. Files
  carry the sticky error state of their stream and a schedule of failing writes, sockets a
  schedule of short, interrupted and failing transfers. Calls under a mutex are single steps.

  \<^bold>\<open>Storage.\<close>
  \<^item> \<open>Slotted_Page\<close> (\<open>storage/slotted_page.hpp\<close>): the page layout byte for byte; \<open>sp_wf\<close> is kept by every operation, a
    record inserted is the record read, an insertion fails exactly for lack of space. The
    locale \<open>slot_store\<close> is the contract for the heap file.
  \<^item> \<open>Values\<close>, \<open>Record_Codec\<close> (\<open>common/\<close>, \<open>storage/record.cpp\<close>): the codec of rows is a round trip, accepts exactly the
    rows of the schema, and reports every proper prefix as corrupt.
  \<^item> \<open>Page_Manager\<close>, \<open>Lru_Replacer\<close>, \<open>Buffer_Pool\<close> (\<open>storage/page_manager.cpp\<close>, \<open>buffer/\<close>): the pool implements a map from page
    ids to pages (\<open>bp_view\<close>); frames are partitioned in every reachable state, also when
    writes fail; flushed pages survive a restart. The locale \<open>page_cache\<close> is the contract for all
    clients of the pool, \<open>Page_Pins\<close> extends it to code that holds several pages at once.
  \<^item> \<open>Heap_File\<close>, \<open>Record_Manager\<close>, \<open>Table_Manager\<close>, \<open>Catalog\<close>, \<open>Database\<close> (\<open>storage/heap_file.cpp\<close>, \<open>storage/record_manager.hpp\<close>,
    \<open>storage/table_manager.hpp\<close>, \<open>catalog/\<close>, \<open>database.hpp\<close>): a heap file is a map from record ids to records, a table
    a map from record ids to rows, a database the partial function \<open>contents\<close> from names to schemas and
    rows (\<open>tables_hold\<close>, \<open>db_holds\<close>). The locales \<open>record_store\<close>, \<open>row_store\<close> and \<open>metadata_codec\<close> are the contracts between the
    layers.
  \<^item> \<open>Bplus_Node\<close>, \<open>Bplus_Tree\<close>, \<open>Bplus_Index\<close>, \<open>Bplus_Insert\<close>, \<open>Bplus_Search\<close> (\<open>index/\<close>): nodes in pages, all operations, and the
    proof that the pages represent a sorted list of entries (\<open>index_wf\<close>) on which search, range scan,
    insertion and deletion act as on a list. No key may have a whole leaf of entries (\<open>few_equal\<close>);
    beyond that the code loses entries. \<open>ordered_index\<close> is the contract.

  \<^bold>\<open>SQL.\<close>
  \<^item> \<open>Tokenizer\<close>, \<open>Ast\<close>, \<open>Parser\<close>, \<open>Sql_Grammar\<close> (\<open>parser/\<close>): the scanner and the recursive-descent parser with every error; the
    parser decides the grammar of the dialect, which is not that of \<open>docs/modules/parser.md\<close>. The locales \<open>phrase_parser\<close> and \<open>list_parser\<close> are the contracts of the
    parsing functions.
  \<^item> \<open>Expr_Eval\<close> (\<open>executor/expr_eval.cpp\<close>): evaluation; typed conditions never fail.
  \<^item> \<open>Operators\<close>, \<open>Executor\<close>, \<open>Result_Formatter\<close> (\<open>executor/\<close>): the operators as one recursive datatype, every statement, the
    printed table. \<open>Operator_Next\<close> and the loops that pull tuples are partial functions; \<open>yields\<close> in \<open>Pipelines\<close> says that
    they return and with which tuples, under the contract \<open>tuple_source\<close>.
  \<^item> \<open>Index_Forest\<close>, \<open>Statements\<close>, \<open>Sql_Effects\<close>: \<open>exec_inv db P T F N\<close> says that the database has the contents \<open>T\<close>, that each index
    holds exactly the keys of the rows of its table, and that the index file has room for \<open>N\<close> more
    insertions. \<open>stored_as\<close> and \<open>new_row_iff\<close> say which rows \<open>INSERT\<close> accepts. \<open>INSERT\<close>, \<open>UPDATE\<close> and \<open>DELETE\<close> act on \<open>T\<close> as SQL says and keep the indexes in step; \<open>CREATE\<close> and \<open>DROP\<close>
    likewise; a restart keeps everything.
  \<^item> \<open>Queries\<close>: a \<open>SELECT\<close> without aggregates returns the rows of its condition, projected, sorted and limited, whether it scans
    the table or an index. It misses none of them if the table is scanned, and with an index unless
    the comparison is one that the index answers differently (\<open>exact_scan\<close>): \<open>!=\<close> on a column with NULL,
    or \<open>=\<close>, \<open><=\<close>, \<open>>=\<close> with a constant that a double may not represent.
  \<^item> \<open>Protocol\<close>, \<open>Repl\<close>, \<open>Tcp_Server\<close> (\<open>network/\<close>, \<open>cli/\<close>): frames and responses over a socket, the REPL, and the loop of the
    server over the requests of a connection.

  \<^bold>\<open>Transactions and recovery.\<close>
  \<^item> \<open>Transactions\<close>, \<open>Lock_Manager\<close>, \<open>Mvcc\<close> (\<open>transaction/\<close>): step relations over the calls of all transactions; snapshots, lock
    exclusion, deadlock detection, snapshot isolation of the versioned store. Deadlock detection
    has a recursion bound, the number of transactions in the graph, shown to be enough.
  \<^item> \<open>Wal\<close>, \<open>Recovery\<close> (\<open>recovery/\<close>): the log at byte level and the three passes; recovery leaves the effects of the
    committed transactions on strict logs, and what it does on every log.

  \<^bold>\<open>Bounds.\<close> A file has at most \<open>2 ^ 31\<close> pages; \<open>bp_avail\<close> counts the pages that can still be allocated, and the theorems
  ask for as many as the operation may take. A row takes at most 4080 bytes. Transaction ids and
  log sequence numbers stay below their maximum. The room \<open>N\<close> of the index file is sufficient for
  \<open>N\<close> insertions into trees of any shape.

  \<^bold>\<open>Not modelled.\<close> Listening, accepting, threads and stopping of \<open>TCPServer\<close>, the socket wrappers of \<open>socket_compat\<close> and the two
  main programs only call the operating system. Mutexes are not modelled; the order of the
  calls under them is. \<open>HitRate\<close> of the pool is a quotient of two counters; pin counts and frame
  numbers of the pool are not bounded by the width of an \<open>int\<close>. The device does not fail in reads or in
  \<open>flush\<close>. A column type byte of the catalog that is no enumerator gives \<open>None\<close>. The depth of the native
  stack in recursive functions is not bounded. Aggregates are modelled, but have no theorems.
\<close>

end
